(* ===== verification/C_Lib.thy ===== *)
theory C_Lib
  imports Main "HOL-Library.Word" "HOL-Library.Code_Target_Nat"
begin

text \<open>
  Prelude of the development: the parts of the C library that the WiiMC-GCN-Online sources use
  on text (ctype.h, string.h, strtol, printf's decimal conversion), the byte types, the result
  types, and the generic facts the components share.

  A C string is a \<open>string\<close> (a list of bytes); its terminating NUL is the end of the list, so no
  element of a C string is NUL. A character is read as an unsigned code with \<open>ccode\<close>. A buffer of
  raw octets (DNS messages) is a list of \<open>8 word\<close>.
\<close>

unbundle bit_operations_syntax

named_theorems cstr_simps \<open>unfolding rules of the C library functions\<close>
named_theorems ctype_simps \<open>definitions of the ctype.h classes\<close>

type_synonym octet = "8 word"
type_synonym octets = "8 word list"

abbreviation ccode :: "char \<Rightarrow> nat" where
  "ccode c \<equiv> of_char c"

section \<open>Character classes of the C locale\<close>

definition c_isdigit :: "char \<Rightarrow> bool" where
  [ctype_simps]: "c_isdigit c \<longleftrightarrow> 48 \<le> ccode c \<and> ccode c \<le> 57"

definition c_isupper :: "char \<Rightarrow> bool" where
  [ctype_simps]: "c_isupper c \<longleftrightarrow> 65 \<le> ccode c \<and> ccode c \<le> 90"

definition c_islower :: "char \<Rightarrow> bool" where
  [ctype_simps]: "c_islower c \<longleftrightarrow> 97 \<le> ccode c \<and> ccode c \<le> 122"

definition c_isalnum :: "char \<Rightarrow> bool" where
  [ctype_simps]: "c_isalnum c \<longleftrightarrow> c_isdigit c \<or> c_isupper c \<or> c_islower c"

definition c_isspace :: "char \<Rightarrow> bool" where
  [ctype_simps]: "c_isspace c \<longleftrightarrow> ccode c = 32 \<or> 9 \<le> ccode c \<and> ccode c \<le> 13"

definition c_isxdigit :: "char \<Rightarrow> bool" where
  [ctype_simps]: "c_isxdigit c \<longleftrightarrow>
     c_isdigit c \<or> 65 \<le> ccode c \<and> ccode c \<le> 70 \<or> 97 \<le> ccode c \<and> ccode c \<le> 102"

definition c_tolower :: "char \<Rightarrow> char" where
  "c_tolower c = (if c_isupper c then char_of (ccode c + 32) else c)"

section \<open>string.h\<close>

text \<open>
  Comparisons return whether C's result is 0. A search returns the index of the first match.
\<close>

definition c_strcasecmp :: "string \<Rightarrow> string \<Rightarrow> bool" where
  "c_strcasecmp a b \<longleftrightarrow> map c_tolower a = map c_tolower b"

definition c_strncasecmp :: "string \<Rightarrow> string \<Rightarrow> nat \<Rightarrow> bool" where
  "c_strncasecmp a b n \<longleftrightarrow> map c_tolower (take n a) = map c_tolower (take n b)"

definition c_strncmp :: "string \<Rightarrow> string \<Rightarrow> nat \<Rightarrow> bool" where
  "c_strncmp a b n \<longleftrightarrow> take n a = take n b"

fun c_strstr :: "string \<Rightarrow> string \<Rightarrow> nat option" where
  "c_strstr hay needle =
     (if take (length needle) hay = needle then Some 0
      else case hay of [] \<Rightarrow> None | _ # hs \<Rightarrow> map_option Suc (c_strstr hs needle))"

text \<open>\<open>strchr\<close> as a cut: the text before the first \<open>c\<close> and the text from it on.\<close>

definition c_before :: "char \<Rightarrow> string \<Rightarrow> string" where
  "c_before c s = takeWhile (\<lambda>x. x \<noteq> c) s"

definition c_from :: "char \<Rightarrow> string \<Rightarrow> string" where
  "c_from c s = dropWhile (\<lambda>x. x \<noteq> c) s"

text \<open>\<open>snprintf(dst, cap, "%s", s)\<close> keeps at most \<open>cap - 1\<close> bytes.\<close>

definition c_trunc :: "nat \<Rightarrow> string \<Rightarrow> string" where
  "c_trunc cap s = take (cap - 1) s"

section \<open>Decimal numbers\<close>

definition digit_val :: "char \<Rightarrow> nat" where
  "digit_val c = ccode c - 48"

definition dec_val :: "string \<Rightarrow> nat" where
  "dec_val ds = foldl (\<lambda>a c. 10 * a + digit_val c) 0 ds"

text \<open>The conversions \<open>%d\<close>, \<open>%u\<close> and \<open>%lld\<close> of printf.\<close>

fun show_nat :: "nat \<Rightarrow> string" where
  "show_nat n = (if n < 10 then [char_of (48 + n)] else show_nat (n div 10) @ [char_of (48 + n mod 10)])"

declare show_nat.simps [simp del]

definition show_int :: "int \<Rightarrow> string" where
  "show_int i = (if i < 0 then CHR ''-'' # show_nat (nat (- i)) else show_nat (nat i))"

text \<open>
  \<open>strtol\<close> and its kin in base 10 over the type whose bounds are \<open>lo\<close> and \<open>hi\<close>: leading white
  space, an optional sign, digits. The result is the value (clamped to the bounds), whether it
  was out of range (ERANGE), and the unread rest; without a digit nothing is consumed.
\<close>

definition c_sign :: "string \<Rightarrow> bool \<times> string" where
  "c_sign s = (case s of [] \<Rightarrow> (False, [])
     | c # cs \<Rightarrow> if c = CHR ''-'' then (True, cs) else if c = CHR ''+'' then (False, cs) else (False, s))"

definition c_strtol :: "int \<Rightarrow> int \<Rightarrow> string \<Rightarrow> int \<times> bool \<times> string" where
  "c_strtol lo hi s =
     (let (neg, t) = c_sign (dropWhile c_isspace s);
          ds = takeWhile c_isdigit t;
          v = (if neg then - int (dec_val ds) else int (dec_val ds))
      in if ds = [] then (0, False, s)
         else (max lo (min hi v), v < lo \<or> hi < v, dropWhile c_isdigit t))"

abbreviation int32_max :: int where "int32_max \<equiv> 2147483647"
abbreviation int32_min :: int where "int32_min \<equiv> - 2147483648"
abbreviation int64_max :: int where "int64_max \<equiv> 9223372036854775807"
abbreviation int64_min :: int where "int64_min \<equiv> - 9223372036854775808"

section \<open>Facts on characters\<close>

lemma ccode_less_256 [simp]: "ccode c < 256"
  using of_char_mod_256 [of c, where 'a = nat] by (metis mod_less_divisor zero_less_numeral)

lemma ccode_inject [simp]: "ccode c = ccode d \<longleftrightarrow> c = d"
  by (simp add: of_char_eq_iff)

lemma ccode_char_of [simp]: "n < 256 \<Longrightarrow> ccode (char_of n) = n"
  by (simp add: of_char_of)

lemma char_eq_code: "c = d \<longleftrightarrow> ccode c = ccode d"
  by simp

lemma isdigit_not_space [simp]: "c_isdigit c \<Longrightarrow> \<not> c_isspace c"
  by (auto simp: ctype_simps)

lemma isdigit_not_sign: "c_isdigit c \<Longrightarrow> c \<noteq> CHR ''-'' \<and> c \<noteq> CHR ''+''"
  by (auto simp: ctype_simps)

lemma digit_char [simp]:
  "d < 10 \<Longrightarrow> c_isdigit (char_of (48 + d))"
  "d < 10 \<Longrightarrow> digit_val (char_of (48 + d)) = d"
  by (simp_all add: ctype_simps digit_val_def)

section \<open>Facts on decimal numbers\<close>

lemma dec_val_snoc [simp]: "dec_val (ds @ [c]) = 10 * dec_val ds + digit_val c"
  by (simp add: dec_val_def)

lemma show_nat_digits: "\<forall>c \<in> set (show_nat n). c_isdigit c"
proof (induction n rule: show_nat.induct)
  case (1 n)
  then show ?case by (subst show_nat.simps) auto
qed

lemma show_nat_nonempty [simp]: "show_nat n \<noteq> []"
  by (subst show_nat.simps) simp

lemma dec_val_show_nat [simp]: "dec_val (show_nat n) = n"
proof (induction n rule: show_nat.induct)
  case (1 n)
  show ?case
  proof (cases "n < 10")
    case True
    then show ?thesis by (subst show_nat.simps) (simp add: dec_val_def)
  next
    case False
    with 1 show ?thesis by (subst show_nat.simps) simp
  qed
qed

text \<open>Reading back a printed number, up to a terminator that is not a digit.\<close>

lemma takeWhile_all_append:
  "\<forall>x \<in> set xs. P x \<Longrightarrow> (ys = [] \<or> \<not> P (hd ys)) \<Longrightarrow> takeWhile P (xs @ ys) = xs"
  by (cases ys) auto

lemma dropWhile_all_append:
  "\<forall>x \<in> set xs. P x \<Longrightarrow> (ys = [] \<or> \<not> P (hd ys)) \<Longrightarrow> dropWhile P (xs @ ys) = ys"
  by (cases ys) auto

lemma c_sign_digit: "c_isdigit c \<Longrightarrow> c_sign (c # cs) = (False, c # cs)"
  using isdigit_not_sign [of c] by (simp add: c_sign_def)

lemma strtol_show_nat:
  assumes "ys = [] \<or> \<not> c_isdigit (hd ys)" and "int n \<le> hi" and "lo \<le> 0"
  shows "c_strtol lo hi (show_nat n @ ys) = (int n, False, ys)"
proof -
  obtain c cs where s: "show_nat n = c # cs"
    by (cases "show_nat n") auto
  have d: "\<forall>x \<in> set (show_nat n). c_isdigit x"
    by (rule show_nat_digits)
  have c: "c_isdigit c" using d s by simp
  have sp: "dropWhile c_isspace (show_nat n @ ys) = show_nat n @ ys"
    using s c by simp
  have sg: "c_sign (show_nat n @ ys) = (False, show_nat n @ ys)"
    using s c_sign_digit [OF c] by simp
  have tk: "takeWhile c_isdigit (show_nat n @ ys) = show_nat n"
    and dr: "dropWhile c_isdigit (show_nat n @ ys) = ys"
    using takeWhile_all_append [OF d assms(1)] dropWhile_all_append [OF d assms(1)] by simp_all
  show ?thesis
    unfolding c_strtol_def sp sg using assms(2,3) by (simp add: tk dr)
qed

section \<open>Facts on searching\<close>

declare c_strstr.simps [simp del]

lemma c_strstr_Some:
  "c_strstr hay needle = Some i \<Longrightarrow> \<exists>pre post. hay = pre @ needle @ post \<and> length pre = i"
proof (induction hay arbitrary: i)
  case Nil
  then show ?case by (subst (asm) c_strstr.simps) (auto split: if_splits)
next
  case (Cons h hs)
  show ?case
  proof (cases "take (length needle) (h # hs) = needle")
    case True
    with Cons.prems have "i = 0" by (simp add: c_strstr.simps [of "h # hs"])
    moreover have "h # hs = [] @ needle @ drop (length needle) (h # hs)"
      using True by (metis append_Nil append_take_drop_id)
    ultimately show ?thesis by (metis list.size(3))
  next
    case False
    with Cons.prems obtain j where j: "c_strstr hs needle = Some j" "i = Suc j"
      by (auto simp: c_strstr.simps [of "h # hs"])
    from Cons.IH [OF j(1)] obtain pre post where "hs = pre @ needle @ post" "length pre = j"
      by blast
    then have "h # hs = (h # pre) @ needle @ post \<and> length (h # pre) = i"
      using j(2) by simp
    then show ?thesis by blast
  qed
qed

lemma c_strstr_None:
  "c_strstr hay needle = None \<longleftrightarrow> (\<forall>pre post. hay \<noteq> pre @ needle @ post)"
proof (induction hay)
  case Nil
  show ?case by (subst c_strstr.simps) auto
next
  case (Cons h hs)
  show ?case
  proof (cases "take (length needle) (h # hs) = needle")
    case True
    then have "h # hs = [] @ needle @ drop (length needle) (h # hs)"
      by (metis append_Nil append_take_drop_id)
    then have "\<exists>pre post. h # hs = pre @ needle @ post" by blast
    with True show ?thesis by (subst c_strstr.simps) simp
  next
    case False
    have "(\<forall>pre post. h # hs \<noteq> pre @ needle @ post) \<longleftrightarrow> (\<forall>pre post. hs \<noteq> pre @ needle @ post)"
    proof
      assume a: "\<forall>pre post. h # hs \<noteq> pre @ needle @ post"
      show "\<forall>pre post. hs \<noteq> pre @ needle @ post"
        using a by (metis append_Cons)
    next
      assume a: "\<forall>pre post. hs \<noteq> pre @ needle @ post"
      show "\<forall>pre post. h # hs \<noteq> pre @ needle @ post"
      proof (intro allI)
        fix pre post
        show "h # hs \<noteq> pre @ needle @ post"
          using a False by (cases pre) auto
      qed
    qed
    with False Cons.IH show ?thesis by (subst c_strstr.simps) simp
  qed
qed

lemma c_before_from [simp]: "c_before c s @ c_from c s = s"
  by (simp add: c_before_def c_from_def)

lemma c_before_notin [simp]: "c \<notin> set (c_before c s)"
  by (auto simp: c_before_def dest: set_takeWhileD)

lemma c_from_cases: "c_from c s = [] \<or> (\<exists>r. c_from c s = c # r)"
  unfolding c_from_def by (metis (mono_tags, lifting) dropWhile_eq_Nil_conv hd_dropWhile list.exhaust_sel)

lemma length_c_trunc [simp]: "0 < cap \<Longrightarrow> length (c_trunc cap s) < cap"
  by (auto simp: c_trunc_def)

end
