(* ===== verification/Http_Url.thy ===== *)
theory Http_Url
  imports C_Lib
begin

text \<open>
  URLs and text encodings of the HTTP client (\<^verbatim>\<open>src/source/utils/http_client.c\<close>): parsing a URL
  into scheme, host, port and path; resolving a Location or href against a base URL; Basic
  credentials (base64); percent encoding and decoding of DAV paths.

  A C function that returns 0 and fills an output buffer is an \<open>option\<close>: \<open>Some\<close> of the output, or
  \<open>None\<close> for a negative return. Buffer capacities are explicit.
\<close>

section \<open>Definitions\<close>

record gc_http_url =
  host :: string
  path :: string
  port :: int
  tls :: bool

definition safe_char :: "char \<Rightarrow> bool" where
  "safe_char c \<longleftrightarrow> \<not> (ccode c < 32 \<or> ccode c = 127)"

definition safe_text :: "string \<Rightarrow> bool" where
  "safe_text s \<longleftrightarrow> list_all safe_char s"

definition host_char :: "char \<Rightarrow> bool" where
  "host_char c \<longleftrightarrow> c_isalnum c \<or> c = CHR ''.'' \<or> c = CHR ''-''"

definition authority_char :: "char \<Rightarrow> bool" where
  "authority_char c \<longleftrightarrow> c \<notin> set ''/?#''"

text \<open>The scheme: the text behind it, its default port, and whether it is TLS.\<close>

definition url_scheme :: "string \<Rightarrow> (string \<times> int \<times> bool) option" where
  "url_scheme s =
     (if c_strncasecmp s ''http://'' 7 then Some (drop 7 s, 80, False)
      else if c_strncasecmp s ''https://'' 8 then Some (drop 8 s, 443, True)
      else None)"

text \<open>
  The port: \<open>colon\<close> is the authority from its first colon on (empty without one), \<open>rest\<close> what
  follows the authority. \<open>strtol\<close> reads on into \<open>rest\<close>, so its end is compared with it; the
  bounds are those of the 32-bit \<open>long\<close>.
\<close>

definition url_port :: "string \<Rightarrow> string \<Rightarrow> int \<Rightarrow> int option" where
  "url_port colon rest dflt =
     (if colon = [] then Some dflt
      else let text = drop 1 colon @ rest;
               (p, erange, tail) = c_strtol int32_min int32_max text
           in if tail \<noteq> rest \<or> tail = text \<or> p < 1 \<or> 65535 < p then None else Some p)"

definition gc_http_parse_url :: "string \<Rightarrow> gc_http_url option" where
  "gc_http_parse_url s =
     (if \<not> safe_text s then None
      else case url_scheme s of None \<Rightarrow> None
      | Some (hst, dflt, secure) \<Rightarrow>
        let auth = takeWhile authority_char hst;
            rest = dropWhile authority_char hst;
            name = c_before (CHR '':'') auth
        in if name = [] \<or> 256 \<le> length name then None
           else if \<not> list_all host_char name then None
           else case url_port (c_from (CHR '':'') auth) rest dflt of None \<Rightarrow> None
           | Some p \<Rightarrow>
             let frag = c_before (CHR ''#'') rest;
                 slash = (if rest \<noteq> [] \<and> hd rest = CHR ''/'' then '''' else ''/'');
                 pth = slash @ frag
             in if 2048 \<le> length frag + length slash then None
                else if CHR '' '' \<in> set pth \<or> CHR 0x5C \<in> set pth then None
                else Some \<lparr>host = name, path = pth, port = p, tls = secure\<rparr>)"

text \<open>\<open>snprintf(out, cap, "%s://%s:%d%s%s", ...)\<close> as \<open>gc_http_resolve_url\<close> prints it.\<close>

definition url_origin :: "gc_http_url \<Rightarrow> string" where
  "url_origin u = (if tls u then ''https'' else ''http'') @ ''://'' @ host u @ '':'' @ show_int (port u)"

definition url_directory :: "string \<Rightarrow> string" where
  "url_directory p = rev (dropWhile (\<lambda>c. c \<noteq> CHR ''/'') (rev (c_before (CHR ''?'') p)))"

definition resolve_target :: "gc_http_url \<Rightarrow> string \<Rightarrow> string" where
  "resolve_target u loc =
     (if c_strstr loc ''://'' \<noteq> None then loc
      else if c_strncmp loc ''//'' 2 then (if tls u then ''https'' else ''http'') @ '':'' @ loc
      else url_origin u @
        (if hd loc = CHR ''/'' then ''''
         else if hd loc = CHR ''?'' then c_before (CHR ''?'') (path u)
         else url_directory (path u)) @ loc)"

definition gc_http_resolve_url :: "string \<Rightarrow> string \<Rightarrow> nat \<Rightarrow> string option" where
  "gc_http_resolve_url base loc cap =
     (if loc = [] \<or> \<not> safe_text loc then None
      else case gc_http_parse_url base of None \<Rightarrow> None
      | Some u \<Rightarrow>
        let out = resolve_target u loc
        in if cap \<le> length out \<or> gc_http_parse_url out = None then None else Some out)"

text \<open>Basic credentials: base64 of \<open>user:password\<close>.\<close>

definition b64_alphabet :: string where
  "b64_alphabet = ''ABCDEFGHIJKLMNOPQRSTUVWXYZabcdefghijklmnopqrstuvwxyz0123456789+/''"

definition b64_char :: "nat \<Rightarrow> char" where
  "b64_char i = b64_alphabet ! i"

fun b64_loop :: "string \<Rightarrow> string" where
  "b64_loop [] = []"
| "b64_loop [a] =
     (let v = ccode a * 65536
      in [b64_char (v div 262144), b64_char (v div 4096 mod 64), CHR ''='', CHR ''=''])"
| "b64_loop [a, b] =
     (let v = ccode a * 65536 + ccode b * 256
      in [b64_char (v div 262144), b64_char (v div 4096 mod 64), b64_char (v div 64 mod 64), CHR ''=''])"
| "b64_loop (a # b # c # rest) =
     (let v = ccode a * 65536 + ccode b * 256 + ccode c
      in [b64_char (v div 262144), b64_char (v div 4096 mod 64), b64_char (v div 64 mod 64),
          b64_char (v mod 64)] @ b64_loop rest)"

definition gc_http_basic :: "string \<Rightarrow> string \<Rightarrow> nat \<Rightarrow> string option" where
  "gc_http_basic user password cap =
     (if CHR '':'' \<in> set user \<or> \<not> safe_text user \<or> \<not> safe_text password then None
      else let plain = user @ '':'' @ password; n = length plain
           in if 768 \<le> n then None
              else if cap < ((n + 2) div 3) * 4 + 1 then None
              else Some (b64_loop plain))"

text \<open>Percent encoding of paths.\<close>

definition path_literal :: "char \<Rightarrow> bool" where
  "path_literal c \<longleftrightarrow> c_isalnum c \<and> ccode c < 128 \<or> c \<in> set ''/-._~''"

definition hex_digit :: "nat \<Rightarrow> char" where
  "hex_digit i = ''0123456789ABCDEF'' ! i"

definition percent_encode :: "char \<Rightarrow> string" where
  "percent_encode c =
     (if path_literal c then [c]
      else [CHR ''%'', hex_digit (ccode c div 16), hex_digit (ccode c mod 16)])"

fun encode_loop :: "nat \<Rightarrow> nat \<Rightarrow> string \<Rightarrow> string option" where
  "encode_loop cap j [] = Some []"
| "encode_loop cap j (c # cs) =
     (if cap \<le> j + (if path_literal c then 1 else 3) then None
      else map_option ((@) (percent_encode c))
             (encode_loop cap (j + (if path_literal c then 1 else 3)) cs))"

definition gc_http_encode_path :: "string \<Rightarrow> nat \<Rightarrow> string option" where
  "gc_http_encode_path p cap = encode_loop cap 0 p"

definition hexval :: "char \<Rightarrow> nat option" where
  "hexval c =
     (if c_isdigit c then Some (ccode c - 48)
      else let d = c_tolower c
           in if 97 \<le> ccode d \<and> ccode d \<le> 102 then Some (ccode d - 97 + 10) else None)"

definition decode_reject :: "char \<Rightarrow> bool" where
  "decode_reject c \<longleftrightarrow> ccode c < 32 \<or> ccode c = 127 \<or> c = CHR 0x5C"

fun decode_loop :: "nat \<Rightarrow> nat \<Rightarrow> string \<Rightarrow> string option" where
  "decode_loop cap j [] = Some []"
| "decode_loop cap j (c # cs) =
     (if c = CHR ''%'' then
        (case cs of
           h # l # rest \<Rightarrow>
             (case (hexval h, hexval l) of
                (Some x, Some y) \<Rightarrow>
                  let d = char_of (x * 16 + y)
                  in if d = CHR ''/'' \<or> d = CHR 0x5C then None
                     else if decode_reject d \<or> cap \<le> j + 1 then None
                     else map_option (Cons d) (decode_loop cap (j + 1) rest)
              | _ \<Rightarrow> None)
         | _ \<Rightarrow> None)
      else if decode_reject c \<or> cap \<le> j + 1 then None
      else map_option (Cons c) (decode_loop cap (j + 1) cs))"

definition gc_http_decode_path :: "string \<Rightarrow> nat \<Rightarrow> string option" where
  "gc_http_decode_path p cap = decode_loop cap 0 p"

text \<open>Specifications: what a parsed URL satisfies, its printed form, and a base64 reader.\<close>

definition path_ok :: "string \<Rightarrow> bool" where
  "path_ok p \<longleftrightarrow> p \<noteq> [] \<and> hd p = CHR ''/'' \<and> length p < 2048 \<and> safe_text p \<and>
     CHR '' '' \<notin> set p \<and> CHR 0x5C \<notin> set p \<and> CHR ''#'' \<notin> set p"

definition url_ok :: "gc_http_url \<Rightarrow> bool" where
  "url_ok u \<longleftrightarrow> host u \<noteq> [] \<and> length (host u) < 256 \<and> list_all host_char (host u) \<and>
     1 \<le> port u \<and> port u \<le> 65535 \<and> path_ok (path u)"

definition show_url :: "gc_http_url \<Rightarrow> string" where
  "show_url u = url_origin u @ path u"

definition b64_index :: "char \<Rightarrow> nat option" where
  "b64_index c = (if c \<in> set b64_alphabet then Some (length (c_before c b64_alphabet)) else None)"

fun b64_read :: "string \<Rightarrow> string option" where
  "b64_read [] = Some []"
| "b64_read (a # b # c # d # rest) =
     (case (b64_index a, b64_index b, b64_index c, b64_index d) of
        (Some w, Some x, Some y, Some z) \<Rightarrow>
          let v = w * 262144 + x * 4096 + y * 64 + z
          in map_option ((@) [char_of (v div 65536), char_of (v div 256 mod 256), char_of (v mod 256)])
               (b64_read rest)
      | (Some w, Some x, Some y, None) \<Rightarrow>
          if d = CHR ''='' \<and> rest = [] then
            (let v = w * 262144 + x * 4096 + y * 64
             in Some [char_of (v div 65536), char_of (v div 256 mod 256)])
          else None
      | (Some w, Some x, None, None) \<Rightarrow>
          if c = CHR ''='' \<and> d = CHR ''='' \<and> rest = [] then
            Some [char_of ((w * 262144 + x * 4096) div 65536)]
          else None
      | _ \<Rightarrow> None)"
| "b64_read _ = None"

section \<open>Parsing\<close>

lemma safe_text_append [simp]: "safe_text (a @ b) \<longleftrightarrow> safe_text a \<and> safe_text b"
  by (simp add: safe_text_def)

lemma safe_text_Cons [simp]: "safe_text (c # b) \<longleftrightarrow> safe_char c \<and> safe_text b"
  by (simp add: safe_text_def)

lemma safe_text_Nil [simp]: "safe_text []"
  by (simp add: safe_text_def)

lemma safe_text_subset: "safe_text s \<Longrightarrow> set t \<subseteq> set s \<Longrightarrow> safe_text t"
  by (auto simp: safe_text_def list_all_iff)

lemma set_c_before: "set (c_before c s) \<subseteq> set s"
  by (auto simp: c_before_def dest: set_takeWhileD)

lemma set_dropWhile_subset: "set (dropWhile P s) \<subseteq> set s"
  by (auto dest: set_dropWhileD)

lemma url_scheme_Some:
  "url_scheme s = Some (r, d, t) \<Longrightarrow> set r \<subseteq> set s \<and> 1 \<le> d \<and> d \<le> 65535"
  by (auto simp: url_scheme_def dest: in_set_dropD split: if_splits)

lemma url_port_bounds:
  "url_port colon rest d = Some p \<Longrightarrow> 1 \<le> d \<Longrightarrow> d \<le> 65535 \<Longrightarrow> 1 \<le> p \<and> p \<le> 65535"
  by (auto simp: url_port_def Let_def split: if_splits prod.splits)

lemma parsed_path_ok:
  assumes safe: "safe_text rest" and rest: "rest = [] \<or> hd rest \<in> set ''/?#''"
    and len: "length (c_before (CHR ''#'') rest) +
      length (if rest \<noteq> [] \<and> hd rest = CHR ''/'' then '''' else ''/'') < 2048"
    and clean: "CHR '' '' \<notin> set (c_before (CHR ''#'') rest)" "CHR 0x5C \<notin> set (c_before (CHR ''#'') rest)"
  shows "path_ok ((if rest \<noteq> [] \<and> hd rest = CHR ''/'' then '''' else ''/'') @ c_before (CHR ''#'') rest)"
proof -
  have s: "safe_text (c_before (CHR ''#'') rest)"
    using safe set_c_before safe_text_subset by blast
  show ?thesis
  proof (cases "rest \<noteq> [] \<and> hd rest = CHR ''/''")
    case True
    then obtain r where r: "rest = CHR ''/'' # r" by (cases rest) auto
    then have "c_before (CHR ''#'') rest = CHR ''/'' # c_before (CHR ''#'') r"
      by (simp add: c_before_def)
    with True s len clean show ?thesis by (simp add: path_ok_def)
  next
    case False
    with s len clean show ?thesis by (auto simp: path_ok_def safe_char_def)
  qed
qed

lemma parse_url_ok: "gc_http_parse_url s = Some u \<Longrightarrow> url_ok u"
proof -
  assume p: "gc_http_parse_url s = Some u"
  then have safe: "safe_text s" by (auto simp: gc_http_parse_url_def split: if_splits)
  from p obtain hst d secure where sc: "url_scheme s = Some (hst, d, secure)"
    by (auto simp: gc_http_parse_url_def split: if_splits option.splits)
  define rest where "rest = dropWhile authority_char hst"
  define name where "name = c_before (CHR '':'') (takeWhile authority_char hst)"
  have "set rest \<subseteq> set s"
    using url_scheme_Some [OF sc] set_dropWhile_subset [of authority_char hst] by (auto simp: rest_def)
  then have srest: "safe_text rest" using safe safe_text_subset by blast
  have hrest: "rest = [] \<or> hd rest \<in> set ''/?#''"
    unfolding rest_def by (metis authority_char_def hd_dropWhile)
  note eqs = p sc rest_def [symmetric] name_def [symmetric]
  from eqs obtain q where q: "url_port (c_from (CHR '':'') (takeWhile authority_char hst)) rest d = Some q"
    and u: "u = \<lparr>host = name, path = (if rest \<noteq> [] \<and> hd rest = CHR ''/'' then '''' else ''/'') @
              c_before (CHR ''#'') rest, port = q, tls = secure\<rparr>"
    and nm: "name \<noteq> []" "length name < 256" "list_all host_char name"
    and len: "length (c_before (CHR ''#'') rest) +
      length (if rest \<noteq> [] \<and> hd rest = CHR ''/'' then '''' else ''/'') < 2048"
    and cl: "CHR '' '' \<notin> set (c_before (CHR ''#'') rest)" "CHR 0x5C \<notin> set (c_before (CHR ''#'') rest)"
    by (auto simp: gc_http_parse_url_def Let_def not_le split: if_splits option.splits)
  have "1 \<le> q \<and> q \<le> 65535"
    using url_port_bounds [OF q] url_scheme_Some [OF sc] by auto
  with u nm parsed_path_ok [OF srest hrest len cl] show ?thesis
    by (simp add: url_ok_def)
qed

text \<open>Reading back a printed origin.\<close>

lemma host_char_props:
  "host_char c \<Longrightarrow> authority_char c \<and> c \<noteq> CHR '':'' \<and> safe_char c"
  by (auto simp: host_char_def authority_char_def safe_char_def ctype_simps)

lemma digit_props:
  "c_isdigit c \<Longrightarrow> authority_char c \<and> safe_char c"
  by (auto simp: authority_char_def safe_char_def ctype_simps)

lemma show_port:
  "0 \<le> p \<Longrightarrow> show_int p = show_nat (nat p)"
  by (simp add: show_int_def)

lemma url_scheme_origin:
  "url_scheme (url_origin u @ rest) =
     Some (host u @ '':'' @ show_int (port u) @ rest, if tls u then 443 else 80, tls u)"
proof -
  have l: "c_tolower (CHR ''h'') = CHR ''h''" "c_tolower (CHR ''t'') = CHR ''t''"
    "c_tolower (CHR ''p'') = CHR ''p''" "c_tolower (CHR ''s'') = CHR ''s''"
    "c_tolower (CHR '':'') = CHR '':''" "c_tolower (CHR ''/'') = CHR ''/''"
    by (simp_all add: c_tolower_def ctype_simps)
  show ?thesis
    by (cases "tls u") (simp_all add: url_origin_def url_scheme_def c_strncasecmp_def numeral_eq_Suc l)
qed

lemma parse_url_origin:
  assumes ok: "host u \<noteq> []" "length (host u) < 256" "list_all host_char (host u)"
    "1 \<le> port u" "port u \<le> 65535"
    and rest: "rest \<noteq> []" "hd rest = CHR ''/''"
  shows "gc_http_parse_url (url_origin u @ rest) =
    (if \<not> safe_text rest \<or> 2048 \<le> length (c_before (CHR ''#'') rest) \<or>
        CHR '' '' \<in> set (c_before (CHR ''#'') rest) \<or> CHR 0x5C \<in> set (c_before (CHR ''#'') rest)
     then None else Some (u\<lparr>path := c_before (CHR ''#'') rest\<rparr>))"
proof -
  let ?port = "show_int (port u)"
  have pn: "?port = show_nat (nat (port u))" using ok by (simp add: show_port)
  have digits: "\<forall>c \<in> set ?port. c_isdigit c" using show_nat_digits by (simp add: pn)
  have hchars: "\<forall>c \<in> set (host u). host_char c" using ok(3) by (simp add: list_all_iff)
  have auth: "\<forall>c \<in> set (host u @ CHR '':'' # ?port). authority_char c"
    using digits hchars host_char_props digit_props by (auto simp: authority_char_def)
  have notauth: "rest = [] \<or> \<not> authority_char (hd rest)" using rest by (simp add: authority_char_def)
  have tk: "takeWhile authority_char (host u @ CHR '':'' # ?port @ rest) = host u @ CHR '':'' # ?port"
    and dr: "dropWhile authority_char (host u @ CHR '':'' # ?port @ rest) = rest"
    using takeWhile_all_append [OF auth notauth] dropWhile_all_append [OF auth notauth] by simp_all
  have nocolon: "\<forall>c \<in> set (host u). c \<noteq> CHR '':''" using hchars host_char_props by blast
  have name: "c_before (CHR '':'') (host u @ CHR '':'' # ?port) = host u"
    and colon: "c_from (CHR '':'') (host u @ CHR '':'' # ?port) = CHR '':'' # ?port"
    unfolding c_before_def c_from_def
    using takeWhile_all_append [OF nocolon, of "CHR '':'' # ?port"]
      dropWhile_all_append [OF nocolon, of "CHR '':'' # ?port"] by simp_all
  have "\<not> c_isdigit (hd rest)" using rest by (simp add: ctype_simps)
  then have st: "c_strtol int32_min int32_max (?port @ rest) = (port u, False, rest)"
    using strtol_show_nat [of rest "nat (port u)" int32_max int32_min] ok pn by simp
  have portval: "url_port (CHR '':'' # ?port) rest d = Some (port u)" for d
    using st ok pn by (simp add: url_port_def Let_def)
  have so: "safe_text (url_origin u)"
  proof -
    have "safe_text (host u)" using hchars host_char_props by (auto simp: safe_text_def list_all_iff)
    moreover have "safe_text ?port" using digits digit_props by (auto simp: safe_text_def list_all_iff)
    ultimately show ?thesis by (simp add: url_origin_def safe_char_def)
  qed
  show ?thesis
    unfolding gc_http_parse_url_def url_scheme_origin
    using so ok rest
    by (simp add: Let_def tk dr name colon portval not_le del: takeWhile_append dropWhile_append)
qed

lemma c_before_id: "c \<notin> set s \<Longrightarrow> c_before c s = s"
  by (auto simp: c_before_def takeWhile_eq_all_conv)

lemma parse_show_url: "url_ok u \<Longrightarrow> gc_http_parse_url (show_url u) = Some u"
  using parse_url_origin [of u "path u"]
  by (auto simp: url_ok_def path_ok_def show_url_def c_before_id)

section \<open>Resolving references\<close>

lemma resolve_url_parses:
  "gc_http_resolve_url base loc cap = Some out \<Longrightarrow>
     length out < cap \<and> (\<exists>u. gc_http_parse_url out = Some u)"
  by (auto simp: gc_http_resolve_url_def Let_def split: if_splits option.splits)

lemma hd_rev_dropWhile_rev:
  assumes "s \<noteq> []" and "P (hd s)"
  shows "rev (dropWhile (\<lambda>c. \<not> P c) (rev s)) \<noteq> [] \<and> hd (rev (dropWhile (\<lambda>c. \<not> P c) (rev s))) = hd s"
proof -
  obtain c r where s: "s = c # r" using assms(1) by (cases s) auto
  define d where "d = dropWhile (\<lambda>c. \<not> P c) (rev r @ [c])"
  have "d = (if \<forall>x \<in> set (rev r). \<not> P x then dropWhile (\<lambda>c. \<not> P c) [c]
             else dropWhile (\<lambda>c. \<not> P c) (rev r) @ [c])"
    by (auto simp: d_def dropWhile_append)
  then have "\<exists>e. d = e @ [c]" using assms(2) s by auto
  then show ?thesis using assms(2) by (auto simp: s d_def)
qed

lemma url_directory_slash:
  assumes "path_ok p"
  shows "url_directory p \<noteq> [] \<and> hd (url_directory p) = CHR ''/''"
proof -
  obtain r where p: "p = CHR ''/'' # r" using assms by (cases p) (auto simp: path_ok_def)
  then have "c_before (CHR ''?'') p = CHR ''/'' # c_before (CHR ''?'') r"
    by (simp add: c_before_def)
  then show ?thesis
    using hd_rev_dropWhile_rev [of "c_before (CHR ''?'') p" "\<lambda>c. c = CHR ''/''"]
    by (simp add: url_directory_def)
qed

lemma query_base_slash:
  "path_ok p \<Longrightarrow> c_before (CHR ''?'') p \<noteq> [] \<and> hd (c_before (CHR ''?'') p) = CHR ''/''"
  by (cases p) (auto simp: path_ok_def c_before_def)

lemma resolve_target_relative:
  assumes "url_ok u" and "loc \<noteq> []" and "c_strstr loc ''://'' = None" and "\<not> c_strncmp loc ''//'' 2"
  obtains rest where "resolve_target u loc = url_origin u @ rest" "rest \<noteq> []" "hd rest = CHR ''/''"
proof -
  have p: "path_ok (path u)" using assms(1) by (simp add: url_ok_def)
  show thesis
    using assms url_directory_slash [OF p] query_base_slash [OF p]
    by (auto simp: resolve_target_def intro!: that)
qed

lemma resolve_relative_origin:
  assumes base: "gc_http_parse_url base = Some ub"
    and res: "gc_http_resolve_url base loc cap = Some out"
    and rel: "c_strstr loc ''://'' = None" "\<not> c_strncmp loc ''//'' 2"
  shows "\<exists>u. gc_http_parse_url out = Some u \<and> host u = host ub \<and> port u = port ub \<and> tls u = tls ub"
proof -
  have ok: "url_ok ub" using base by (rule parse_url_ok)
  from res base have ne: "loc \<noteq> []" and out: "out = resolve_target ub loc"
    by (auto simp: gc_http_resolve_url_def Let_def split: if_splits)
  obtain rest where rest: "resolve_target ub loc = url_origin ub @ rest" "rest \<noteq> []" "hd rest = CHR ''/''"
    using resolve_target_relative [OF ok ne rel] by blast
  obtain u where u: "gc_http_parse_url out = Some u"
    using resolve_url_parses [OF res] by blast
  have "gc_http_parse_url (url_origin ub @ rest) = Some u" using u out rest by simp
  then have "u = ub\<lparr>path := c_before (CHR ''#'') rest\<rparr>"
    using parse_url_origin [of ub rest] ok rest by (auto simp: url_ok_def split: if_splits)
  with u show ?thesis by auto
qed

section \<open>Base64\<close>

lemma b64_index_char: "i < 64 \<Longrightarrow> b64_index (b64_char i) = Some i"
proof -
  assume "i < 64"
  moreover have "list_all (\<lambda>i. b64_index (b64_char i) = Some i) [0..<64]"
    by code_simp
  ultimately show ?thesis by (simp add: list_all_iff)
qed

lemma b64_index_pad: "b64_index (CHR ''='') = None"
  by code_simp

lemma b64_block:
  fixes a b c :: nat
  assumes "a < 256" "b < 256" "c < 256" and v: "v = a * 65536 + b * 256 + c"
  shows "v div 262144 < 64" "v div 262144 * 262144 + v div 4096 mod 64 * 4096 + v div 64 mod 64 * 64 + v mod 64 = v"
    "v div 65536 = a" "v div 256 mod 256 = b" "v mod 256 = c"
proof -
  show "v div 262144 < 64" using assms by simp
  have d: "v div 262144 = v div 4096 div 64" "v div 4096 = v div 64 div 64"
    by (simp_all flip: div_mult2_eq)
  have "v div 4096 = 64 * (v div 262144) + v div 4096 mod 64" "v div 64 = 64 * (v div 4096) + v div 64 mod 64"
    "v = 64 * (v div 64) + v mod 64"
    unfolding d by simp_all
  then show "v div 262144 * 262144 + v div 4096 mod 64 * 4096 + v div 64 mod 64 * 64 + v mod 64 = v"
    by linarith
  have e: "v = (a * 256 + b) * 256 + c" using v by simp
  show "v mod 256 = c" using assms(3) unfolding e by (simp only: mod_mult_self3 mod_less)
  have m: "v div 256 = a * 256 + b" using assms(3) unfolding e by simp
  show "v div 256 mod 256 = b" using assms(2) unfolding m by simp
  have "v div 65536 = v div 256 div 256" by (simp flip: div_mult2_eq)
  then show "v div 65536 = a" using assms(2) unfolding m by simp
qed

lemma b64_read_full:
  "w < 64 \<Longrightarrow> x < 64 \<Longrightarrow> y < 64 \<Longrightarrow> z < 64 \<Longrightarrow>
   b64_read (b64_char w # b64_char x # b64_char y # b64_char z # rest) =
     (let v = w * 262144 + x * 4096 + y * 64 + z
      in map_option ((@) [char_of (v div 65536), char_of (v div 256 mod 256), char_of (v mod 256)])
           (b64_read rest))"
  by (simp add: b64_index_char)

lemma b64_read_loop: "b64_read (b64_loop s) = Some s"
proof (induction s rule: b64_loop.induct)
  case 1
  show ?case by simp
next
  case (2 a)
  define v where "v = ccode a * 65536 + 0 * 256 + 0"
  note b = b64_block [OF ccode_less_256 [of a] _ _ v_def, simplified]
  have z: "v div 64 mod 64 = 0" "v mod 64 = 0" by (simp_all add: v_def)
  have "(v div 262144 * 262144 + v div 4096 mod 64 * 4096) div 65536 = ccode a"
    using b(2,3) z by simp
  then show ?case using b(1) by (simp add: v_def b64_index_char b64_index_pad)
next
  case (3 a b)
  define v where "v = ccode a * 65536 + ccode b * 256 + 0"
  note bl = b64_block [OF ccode_less_256 [of a] ccode_less_256 [of b] _ v_def, simplified]
  have z: "v mod 64 = 0" by (simp add: v_def mod_simps)
  have "v div 262144 * 262144 + v div 4096 mod 64 * 4096 + v div 64 mod 64 * 64 = v"
    using bl(2) z by simp
  moreover have "v div 65536 = ccode a" "v div 256 mod 256 = ccode b" using bl(3,4) by simp_all
  moreover have "b64_loop [a, b] =
      [b64_char (v div 262144), b64_char (v div 4096 mod 64), b64_char (v div 64 mod 64), CHR ''='']"
    by (simp add: v_def Let_def)
  moreover have "char_of (v div 256) = b"
    by (metis bl(4) char_of_char char_of_mod_256)
  ultimately show ?case
    using bl(1) by (simp add: b64_index_char b64_index_pad del: b64_loop.simps)
next
  case (4 a b c rest)
  define v where "v = ccode a * 65536 + ccode b * 256 + ccode c"
  note bl = b64_block [OF ccode_less_256 [of a] ccode_less_256 [of b] ccode_less_256 [of c] v_def]
  have "b64_loop (a # b # c # rest) =
      b64_char (v div 262144) # b64_char (v div 4096 mod 64) # b64_char (v div 64 mod 64) #
      b64_char (v mod 64) # b64_loop rest"
    by (simp add: v_def Let_def)
  moreover have "char_of (v div 256) = b" "char_of v = c"
    by (metis bl(4) char_of_char char_of_mod_256, metis bl(5) char_of_char char_of_mod_256)
  ultimately show ?case
    using b64_read_full [of "v div 262144" "v div 4096 mod 64" "v div 64 mod 64" "v mod 64" "b64_loop rest"]
      bl 4 by (simp add: Let_def del: b64_loop.simps b64_read.simps)
qed

lemma length_b64_loop: "length (b64_loop s) = 4 * ((length s + 2) div 3)"
proof (induction s rule: b64_loop.induct)
  case (4 a b c rest)
  have "(length (a # b # c # rest) + 2) div 3 = Suc ((length rest + 2) div 3)" by simp
  with 4 show ?case by (simp add: Let_def)
qed (simp_all add: Let_def)

section \<open>Percent encoding\<close>

lemma hexval_hex_digit: "i < 16 \<Longrightarrow> hexval (hex_digit i) = Some i"
proof -
  assume "i < 16"
  moreover have "list_all (\<lambda>i. hexval (hex_digit i) = Some i) [0..<16]"
    by code_simp
  ultimately show ?thesis by (simp add: list_all_iff)
qed

lemma hexval_bound: "hexval c = Some x \<Longrightarrow> x < 16"
  by (auto simp: hexval_def Let_def ctype_simps split: if_splits)

lemma encode_loop_length: "encode_loop cap j s = Some e \<Longrightarrow> s = [] \<or> j + length e < cap"
proof (induction cap j s arbitrary: e rule: encode_loop.induct)
  case (2 cap j c cs)
  then show ?case
    by (cases cs) (auto simp: percent_encode_def split: if_splits)
qed simp

lemma path_literal_not_percent: "path_literal c \<Longrightarrow> c \<noteq> CHR ''%''"
  by (auto simp: path_literal_def ctype_simps)

lemma decode_encoded_char:
  assumes ok: "\<not> decode_reject c" and room: "j + 1 < cap"
  shows "decode_loop cap j (percent_encode c @ rest) = map_option (Cons c) (decode_loop cap (j + 1) rest)"
proof (cases "path_literal c")
  case True
  then show ?thesis
    using ok room path_literal_not_percent [OF True] by (simp add: percent_encode_def)
next
  case False
  have "ccode c div 16 < 16" using ccode_less_256 [of c] by (simp add: div_less_iff_less_mult)
  then have h: "hexval (hex_digit (ccode c div 16)) = Some (ccode c div 16)"
    "hexval (hex_digit (ccode c mod 16)) = Some (ccode c mod 16)"
    using hexval_hex_digit by simp_all
  have v: "char_of (ccode c div 16 * 16 + ccode c mod 16) = c"
    by (simp only: div_mult_mod_eq char_of_char)
  have ns: "c \<noteq> CHR ''/''" using False by (auto simp: path_literal_def)
  have nb: "c \<noteq> CHR 0x5C" using ok by (auto simp: decode_reject_def)
  show ?thesis
    using ok room False ns nb by (simp add: percent_encode_def h v Let_def)
qed

lemma decode_encode_loop:
  "encode_loop cap j s = Some e \<Longrightarrow> \<forall>c \<in> set s. \<not> decode_reject c \<Longrightarrow> i + length s < cap' \<Longrightarrow>
     decode_loop cap' i e = Some s"
proof (induction cap j s arbitrary: e i rule: encode_loop.induct)
  case (2 cap j c cs)
  from 2(2) obtain e' where e': "encode_loop cap (j + (if path_literal c then 1 else 3)) cs = Some e'"
    and e: "e = percent_encode c @ e'" and g: "\<not> cap \<le> j + (if path_literal c then 1 else 3)"
    by (auto split: if_splits)
  have "decode_loop cap' (i + 1) e' = Some cs"
    using 2(1) [OF g e'] 2(3,4) by simp
  then show ?case
    using decode_encoded_char [of c i cap' e'] 2(3,4) e by simp
qed simp

text \<open>What a decoded path is made of: no control byte, no backslash, no separator that was encoded.\<close>

lemma decode_loop_induct [consumes 1, case_names nil plain escape]:
  assumes "decode_loop cap j s = Some d"
    and nil: "\<And>j. P j [] []"
    and plain: "\<And>j c cs d. \<not> decode_reject c \<Longrightarrow> j + 1 < cap \<Longrightarrow> P (j + 1) cs d \<Longrightarrow> P j (c # cs) (c # d)"
    and escape: "\<And>j c h l x y cs d. hexval h = Some x \<Longrightarrow> hexval l = Some y \<Longrightarrow> c \<noteq> CHR ''/'' \<Longrightarrow>
      \<not> decode_reject c \<Longrightarrow> j + 1 < cap \<Longrightarrow> P (j + 1) cs d \<Longrightarrow> P j (CHR ''%'' # h # l # cs) (c # d)"
  shows "P j s d"
  using assms(1)
proof (induction s arbitrary: j d rule: length_induct)
  case (1 s)
  show ?case
  proof (cases s)
    case Nil
    with 1(2) nil show ?thesis by simp
  next
    case (Cons c cs)
    show ?thesis
    proof (cases "c = CHR ''%''")
      case True
      with 1(2) Cons obtain h l rest x y where cs: "cs = h # l # rest" "hexval h = Some x" "hexval l = Some y"
        by (auto split: list.splits option.splits)
      with 1(2) Cons True obtain d' where "decode_loop cap (j + 1) rest = Some d'"
        "d = char_of (x * 16 + y) # d'" "char_of (x * 16 + y) \<noteq> CHR ''/''" "j + 1 < cap"
        "\<not> decode_reject (char_of (x * 16 + y))"
        by (auto simp: Let_def split: if_splits)
      then show ?thesis
        using 1(1) Cons True cs escape by simp
    next
      case False
      with 1(2) Cons obtain d' where "decode_loop cap (j + 1) cs = Some d'" "d = c # d'"
        "j + 1 < cap" "\<not> decode_reject c"
        by (auto split: if_splits)
      then show ?thesis using 1(1) Cons plain by simp
    qed
  qed
qed

lemma decode_loop_clean:
  "decode_loop cap j s = Some d \<Longrightarrow> \<forall>c \<in> set d. \<not> decode_reject c"
  by (induction rule: decode_loop_induct) auto

lemma hexval_not_slash: "hexval h = Some x \<Longrightarrow> h \<noteq> CHR ''/''"
  by (auto simp: hexval_def c_tolower_def ctype_simps Let_def split: if_splits)

lemma decode_loop_slashes:
  "decode_loop cap j s = Some d \<Longrightarrow> count_list d (CHR ''/'') = count_list s (CHR ''/'')"
  by (induction rule: decode_loop_induct) (auto dest: hexval_not_slash)

lemma decode_loop_length: "decode_loop cap j s = Some d \<Longrightarrow> d = [] \<or> j + length d < cap"
  by (induction rule: decode_loop_induct) auto

lemma not_decode_reject:
  "\<not> decode_reject c \<longleftrightarrow> 32 \<le> ccode c \<and> ccode c \<noteq> 127 \<and> c \<noteq> CHR 0x5C"
  by (simp add: decode_reject_def not_less)

section \<open>Properties\<close>

text \<open>
  A URL that \<open>gc_http_parse_url\<close> accepts is well-formed: a host of 1 to 255 letters, digits,
  dots and hyphens, a port in 1..65535, a path that starts with a slash, fits its 2048-byte buffer
  and holds no control byte, space, backslash or fragment; and printing it the way
  \<open>gc_http_resolve_url\<close> prints URLs and parsing it again gives the same URL.
\<close>

theorem parse_url_roundtrip:
  "gc_http_parse_url s = Some u \<Longrightarrow> url_ok u \<and> gc_http_parse_url (show_url u) = Some u"
  using parse_url_ok parse_show_url by blast

theorem parse_url_roundtrip_witness:
  "url_ok \<lparr>host = ''radio.example'', path = ''/live?x=1'', port = 8000, tls = False\<rparr> \<and>
   gc_http_parse_url ''http://radio.example:8000/live?x=1'' =
     Some \<lparr>host = ''radio.example'', path = ''/live?x=1'', port = 8000, tls = False\<rparr>"
proof -
  have p: "gc_http_parse_url ''http://radio.example:8000/live?x=1#top'' =
      Some \<lparr>host = ''radio.example'', path = ''/live?x=1'', port = 8000, tls = False\<rparr>"
    by code_simp
  have "show_url \<lparr>host = ''radio.example'', path = ''/live?x=1'', port = 8000, tls = False\<rparr> =
      ''http://radio.example:8000/live?x=1''"
    by code_simp
  then show ?thesis using parse_url_roundtrip [OF p] by simp
qed

text \<open>
  A relative reference stays on the server: when the Location or href has no \<open>://\<close> and does
  not start with \<open>//\<close>, the resolved URL parses to the host, port and scheme of the base URL.
\<close>

theorem resolve_same_origin:
  assumes "gc_http_parse_url base = Some ub"
    and "gc_http_resolve_url base loc cap = Some out"
    and "c_strstr loc ''://'' = None" and "\<not> c_strncmp loc ''//'' 2"
  shows "length out < cap \<and>
    (\<exists>u. gc_http_parse_url out = Some u \<and> host u = host ub \<and> port u = port ub \<and> tls u = tls ub)"
  using resolve_relative_origin [OF assms] resolve_url_parses [OF assms(2)] by blast

theorem resolve_same_origin_witness:
  "\<exists>u. gc_http_parse_url ''http://nas:80/music/b.mp3'' = Some u \<and> host u = ''nas'' \<and> port u = 80 \<and> \<not> tls u"
proof -
  have b: "gc_http_parse_url ''http://nas/music/a.mp3?t=1'' =
      Some \<lparr>host = ''nas'', path = ''/music/a.mp3?t=1'', port = 80, tls = False\<rparr>"
    by code_simp
  have r: "gc_http_resolve_url ''http://nas/music/a.mp3?t=1'' ''b.mp3'' 2304 = Some ''http://nas:80/music/b.mp3''"
    by code_simp
  have n: "c_strstr ''b.mp3'' ''://'' = None" "\<not> c_strncmp ''b.mp3'' ''//'' 2"
    by code_simp+
  show ?thesis using resolve_same_origin [OF b r n] by simp
qed

text \<open>
  Basic credentials: what \<open>gc_http_basic\<close> writes fits the output buffer with its NUL, and a
  base64 reader gives back \<open>user:password\<close>, split at the first colon into exactly that user and
  that password.
\<close>

theorem basic_auth_decodes:
  assumes "gc_http_basic user password cap = Some out"
  shows "length out + 1 \<le> cap \<and>
    (\<exists>plain. b64_read out = Some plain \<and> c_before (CHR '':'') plain = user \<and>
             drop 1 (c_from (CHR '':'') plain) = password)"
proof -
  from assms have out: "out = b64_loop (user @ '':'' @ password)" and u: "CHR '':'' \<notin> set user"
    and cap: "((length (user @ '':'' @ password) + 2) div 3) * 4 + 1 \<le> cap"
    by (auto simp: gc_http_basic_def Let_def not_less split: if_splits)
  have nc: "\<forall>c \<in> set user. c \<noteq> CHR '':''" using u by blast
  have "c_before (CHR '':'') (user @ '':'' @ password) = user"
    "c_from (CHR '':'') (user @ '':'' @ password) = CHR '':'' # password"
    unfolding c_before_def c_from_def
    using takeWhile_all_append [OF nc, of "CHR '':'' # password"]
      dropWhile_all_append [OF nc, of "CHR '':'' # password"] by simp_all
  moreover have "length out + 1 \<le> cap" using cap by (simp add: out length_b64_loop)
  ultimately show ?thesis using b64_read_loop [of "user @ '':'' @ password"] by (auto simp: out)
qed

theorem basic_auth_decodes_witness:
  "length ''QWxhZGRpbjpvcGVuIHNlc2FtZQ=='' + 1 \<le> 1025 \<and>
   (\<exists>plain. b64_read ''QWxhZGRpbjpvcGVuIHNlc2FtZQ=='' = Some plain \<and>
      c_before (CHR '':'') plain = ''Aladdin'' \<and> drop 1 (c_from (CHR '':'') plain) = ''open sesame'')"
proof -
  have "gc_http_basic ''Aladdin'' ''open sesame'' 1025 = Some ''QWxhZGRpbjpvcGVuIHNlc2FtZQ==''"
    by code_simp
  from basic_auth_decodes [OF this] show ?thesis by simp
qed

text \<open>
  Percent encoding loses nothing: a path without control bytes, DEL or backslash that
  \<open>gc_http_encode_path\<close> encodes within its buffer decodes to itself in any buffer it fits.
\<close>

theorem path_codec_roundtrip:
  assumes "gc_http_encode_path p cap = Some e"
    and "\<forall>c \<in> set p. 32 \<le> ccode c \<and> ccode c \<noteq> 127 \<and> c \<noteq> CHR 0x5C"
    and "length p < cap'"
  shows "gc_http_decode_path e cap' = Some p \<and> (p = [] \<or> length e < cap)"
proof -
  have e: "encode_loop cap 0 p = Some e" using assms(1) by (simp only: gc_http_encode_path_def)
  have c: "\<forall>c \<in> set p. \<not> decode_reject c" using assms(2) by (simp only: not_decode_reject)
  have "decode_loop cap' 0 e = Some p"
    using decode_encode_loop [OF e c, of 0 cap'] assms(3) by (simp only: add_0)
  moreover have "p = [] \<or> length e < cap" using encode_loop_length [OF e] by simp
  ultimately show ?thesis by (simp only: gc_http_decode_path_def)
qed

theorem path_codec_roundtrip_witness:
  "gc_http_decode_path ''A%20B/100%25.mp3'' 2048 = Some ''A B/100%.mp3''"
proof -
  have e: "gc_http_encode_path ''A B/100%.mp3'' 2304 = Some ''A%20B/100%25.mp3''"
    by code_simp
  have c: "\<forall>c \<in> set ''A B/100%.mp3''. 32 \<le> ccode c \<and> ccode c \<noteq> 127 \<and> c \<noteq> CHR 0x5C"
    by code_simp
  have l: "length ''A B/100%.mp3'' < 2048" by simp
  from path_codec_roundtrip [OF e c l] show ?thesis by (rule conjunct1)
qed

text \<open>
  Decoding cannot alias another DAV resource: a decoded path fits its buffer, holds no control
  byte, DEL or backslash, and has exactly the separators the encoded text shows, so none was
  smuggled in as \<open>%2F\<close>.
\<close>

theorem decode_path_no_alias:
  assumes "gc_http_decode_path s cap = Some d"
  shows "count_list d (CHR ''/'') = count_list s (CHR ''/'') \<and>
    (\<forall>c \<in> set d. 32 \<le> ccode c \<and> ccode c \<noteq> 127 \<and> c \<noteq> CHR 0x5C) \<and> (d = [] \<or> length d < cap)"
proof -
  have d: "decode_loop cap 0 s = Some d" using assms by (simp only: gc_http_decode_path_def)
  show ?thesis
    using decode_loop_slashes [OF d] decode_loop_clean [OF d] decode_loop_length [OF d]
    by (simp add: not_decode_reject)
qed

theorem decode_path_no_alias_witness:
  "count_list ''a b/c'' (CHR ''/'') = count_list ''a%20b/c'' (CHR ''/'') \<and>
   gc_http_decode_path ''a%2fb'' 2048 = None"
proof -
  have d: "gc_http_decode_path ''a%20b/c'' 2048 = Some ''a b/c''" by code_simp
  have "gc_http_decode_path ''a%2fb'' 2048 = None" by code_simp
  then show ?thesis using decode_path_no_alias [OF d] by simp
qed

end
