(* ===== verification/Dns.thy ===== *)
theory Dns
  imports C_Lib
begin

text \<open>
  The minimal DNS resolver (\<^verbatim>\<open>src/source/utils/dns.c\<close>): building an A query, skipping encoded names,
  reading a response, the eight-entry cache, the three-try query loop and the resolver's entry
  points.

  Every byte the parser reads from a datagram goes through \<open>rd8\<close>, which fails with \<open>Oob\<close> outside the
  buffer, so that memory safety is a theorem. The UDP socket calls and \<open>inet_aton\<close> belong to the
  platform and are fields of \<open>udp_ops\<close>, over an opaque network state \<open>'n\<close>.
\<close>

section \<open>Definitions\<close>

type_synonym u16 = "16 word"
type_synonym u32 = "32 word"

datatype dns_fault = Oob | Reject

record dns_entry =
  ce_name :: string
  ce_ip :: u32

record dns_state =
  dns_server :: u32
  dns_cache :: "dns_entry list"
  dns_seq :: u16

record 'n udp_ops =
  inet_aton :: "string \<Rightarrow> u32 option"
  udp_socket :: "'n \<Rightarrow> int \<times> 'n"
  udp_sendto :: "int \<Rightarrow> u32 \<Rightarrow> octets \<Rightarrow> 'n \<Rightarrow> int \<times> 'n"
  udp_select :: "int \<Rightarrow> 'n \<Rightarrow> int \<times> 'n"
  udp_recvfrom :: "int \<Rightarrow> 'n \<Rightarrow> (int + octets) \<times> 'n"
  udp_close :: "int \<Rightarrow> 'n \<Rightarrow> 'n"

subsection \<open>Cache\<close>

definition dns_cache_flush :: "dns_state \<Rightarrow> dns_state" where
  "dns_cache_flush d = d\<lparr>dns_cache := []\<rparr>"

fun cache_find :: "dns_entry list \<Rightarrow> string \<Rightarrow> u32 option" where
  "cache_find [] hst = None"
| "cache_find (e # es) hst = (if ce_name e = hst then Some (ce_ip e) else cache_find es hst)"

definition cache_get :: "dns_state \<Rightarrow> string \<Rightarrow> u32 option" where
  "cache_get d hst = cache_find (dns_cache d) hst"

definition cache_put :: "dns_state \<Rightarrow> string \<Rightarrow> u32 \<Rightarrow> dns_state" where
  "cache_put d hst ip =
     (if 128 \<le> length hst then d
      else let e = \<lparr>ce_name = hst, ce_ip = ip\<rparr>
           in if length (dns_cache d) < 8 then d\<lparr>dns_cache := dns_cache d @ [e]\<rparr>
              else d\<lparr>dns_cache := (dns_cache d)[0 := e]\<rparr>)"

subsection \<open>Building the query\<close>

definition dns_header :: "u16 \<Rightarrow> octets" where
  "dns_header i = [ucast (drop_bit 8 i), ucast i, 1, 0, 0, 1, 0, 0, 0, 0, 0, 0]"

definition char_octet :: "char \<Rightarrow> octet" where
  "char_octet c = of_nat (ccode c)"

function build_labels :: "nat \<Rightarrow> octets \<Rightarrow> string \<Rightarrow> octets option" where
  "build_labels mx buf p =
     (if p = [] then Some buf
      else let lab = c_before (CHR ''.'') p; n = length lab
           in if n < 1 \<or> 63 < n then None
              else if mx < length buf + 1 + n + 5 then None
              else if 255 < length buf + 1 + n - 12 then None
              else build_labels mx (buf @ of_nat n # map char_octet lab) (drop 1 (c_from (CHR ''.'') p)))"
  by pat_completeness auto
termination
proof (relation "measure (\<lambda>(mx, buf, p). length p)")
  fix mx xa :: nat and buf :: octets and p x :: string
  assume a: "p \<noteq> []"
  have "length (c_from (CHR ''.'') p) \<le> length p"
    unfolding c_from_def by (rule length_dropWhile_le)
  with a show "((mx, buf @ of_nat xa # map char_octet x, drop 1 (c_from (CHR ''.'') p)), mx, buf, p)
      \<in> measure (\<lambda>(mx, buf, p). length p)"
    by (cases p) auto
qed simp

declare build_labels.simps [simp del]

definition dns_build_query :: "nat \<Rightarrow> string \<Rightarrow> u16 \<Rightarrow> octets option" where
  "dns_build_query mx hst i =
     (if mx < 17 then None
      else case build_labels mx (dns_header i) hst of None \<Rightarrow> None
      | Some buf \<Rightarrow> if length buf = 12 then None else Some (buf @ [0, 0, 1, 0, 1]))"

subsection \<open>Reading the response\<close>

definition rd8 :: "octets \<Rightarrow> nat \<Rightarrow> dns_fault + octet" where
  "rd8 buf i = (if i < length buf then Inr (buf ! i) else Inl Oob)"

definition rd16 :: "octets \<Rightarrow> nat \<Rightarrow> dns_fault + nat" where
  "rd16 buf i = (case rd8 buf i of Inl e \<Rightarrow> Inl e | Inr a \<Rightarrow>
     (case rd8 buf (i + 1) of Inl e \<Rightarrow> Inl e | Inr b \<Rightarrow> Inr (unat a * 256 + unat b)))"

definition be32 :: "octet \<Rightarrow> octet \<Rightarrow> octet \<Rightarrow> octet \<Rightarrow> u32" where
  "be32 a b c d = push_bit 24 (ucast a) OR push_bit 16 (ucast b) OR push_bit 8 (ucast c) OR ucast d"

definition rd32 :: "octets \<Rightarrow> nat \<Rightarrow> dns_fault + u32" where
  "rd32 buf i = (case rd8 buf i of Inl e \<Rightarrow> Inl e | Inr a \<Rightarrow>
     (case rd8 buf (i + 1) of Inl e \<Rightarrow> Inl e | Inr b \<Rightarrow>
     (case rd8 buf (i + 2) of Inl e \<Rightarrow> Inl e | Inr c \<Rightarrow>
     (case rd8 buf (i + 3) of Inl e \<Rightarrow> Inl e | Inr d \<Rightarrow> Inr (be32 a b c d)))))"

function skip_name :: "octets \<Rightarrow> nat \<Rightarrow> nat \<Rightarrow> dns_fault + nat" where
  "skip_name buf len off =
     (if off < len then
        (case rd8 buf off of Inl e \<Rightarrow> Inl e
         | Inr c \<Rightarrow>
           if c = 0 then Inr (off + 1)
           else if c AND 0xC0 = 0xC0 then (if off + 2 \<le> len then Inr (off + 2) else Inl Reject)
           else if 63 < c then Inl Reject
           else skip_name buf len (off + 1 + unat c))
      else Inl Reject)"
  by pat_completeness auto
termination
  by (relation "measure (\<lambda>(buf, len, off). len - off)") auto

declare skip_name.simps [simp del]

fun skip_questions :: "octets \<Rightarrow> nat \<Rightarrow> nat \<Rightarrow> nat \<Rightarrow> dns_fault + nat" where
  "skip_questions buf len 0 off = Inr off"
| "skip_questions buf len (Suc k) off =
     (case skip_name buf len off of Inl e \<Rightarrow> Inl e
      | Inr o1 \<Rightarrow> if len < o1 + 4 then Inl Reject else skip_questions buf len k (o1 + 4))"

definition clamp_ttl :: "u32 \<Rightarrow> u32" where
  "clamp_ttl t = (let t1 = (if t < 30 then 30 else t) in if 3600 < t1 then 3600 else t1)"

fun scan_answers :: "octets \<Rightarrow> nat \<Rightarrow> nat \<Rightarrow> nat \<Rightarrow> dns_fault + u32 \<times> u32" where
  "scan_answers buf len 0 off = Inl Reject"
| "scan_answers buf len (Suc k) off =
     (case skip_name buf len off of Inl e \<Rightarrow> Inl e
      | Inr o1 \<Rightarrow>
        if len < o1 + 10 then Inl Reject
        else case rd16 buf o1 of Inl e \<Rightarrow> Inl e | Inr typ \<Rightarrow>
        (case rd16 buf (o1 + 2) of Inl e \<Rightarrow> Inl e | Inr cls \<Rightarrow>
        (case rd32 buf (o1 + 4) of Inl e \<Rightarrow> Inl e | Inr t \<Rightarrow>
        (case rd16 buf (o1 + 8) of Inl e \<Rightarrow> Inl e | Inr rdlen \<Rightarrow>
           if len < o1 + 10 + rdlen then Inl Reject
           else if typ = 1 \<and> cls = 1 \<and> rdlen = 4 then
             (case rd32 buf (o1 + 10) of Inl e \<Rightarrow> Inl e | Inr ip \<Rightarrow> Inr (ip, clamp_ttl t))
           else scan_answers buf len k (o1 + 10 + rdlen)))))"

definition dns_parse_response :: "octets \<Rightarrow> nat \<Rightarrow> u16 \<Rightarrow> dns_fault + u32 \<times> u32" where
  "dns_parse_response buf len i =
     (if len < 12 then Inl Reject
      else case rd16 buf 0 of Inl e \<Rightarrow> Inl e | Inr rid \<Rightarrow>
      if rid \<noteq> unat i then Inl Reject
      else case rd8 buf 2 of Inl e \<Rightarrow> Inl e | Inr f1 \<Rightarrow>
      if f1 AND 0x80 = 0 then Inl Reject
      else case rd8 buf 3 of Inl e \<Rightarrow> Inl e | Inr f2 \<Rightarrow>
      if f2 AND 0x0F \<noteq> 0 then Inl Reject
      else case rd16 buf 4 of Inl e \<Rightarrow> Inl e | Inr qd \<Rightarrow>
      (case rd16 buf 6 of Inl e \<Rightarrow> Inl e | Inr an \<Rightarrow>
      (case skip_questions buf len qd 12 of Inl e \<Rightarrow> Inl e
       | Inr off \<Rightarrow> scan_answers buf len an off)))"

subsection \<open>Querying and resolving\<close>

fun dns_try :: "('n, 'z) udp_ops_scheme \<Rightarrow> int \<Rightarrow> u32 \<Rightarrow> octets \<Rightarrow> u16 \<Rightarrow> nat \<Rightarrow> 'n \<Rightarrow> u32 option \<times> 'n" where
  "dns_try ops s server q i 0 n = (None, n)"
| "dns_try ops s server q i (Suc k) n =
     (let (sent, n1) = udp_sendto ops s server q n
      in if sent \<noteq> int (length q) then dns_try ops s server q i k n1
         else let (sel, n2) = udp_select ops s n1
         in if sel \<le> 0 then dns_try ops s server q i k n2
            else case udp_recvfrom ops s n2 of
                   (Inl e, n3) \<Rightarrow> dns_try ops s server q i k n3
                 | (Inr r, n3) \<Rightarrow>
                     if r = [] then dns_try ops s server q i k n3
                     else case dns_parse_response r (length r) i of
                            Inr (ip, ttl) \<Rightarrow> (Some ip, n3)
                          | Inl e \<Rightarrow> dns_try ops s server q i k n3)"

definition dns_query ::
  "('n, 'z) udp_ops_scheme \<Rightarrow> u32 \<Rightarrow> string \<Rightarrow> dns_state \<Rightarrow> 'n \<Rightarrow> u32 option \<times> dns_state \<times> 'n" where
  "dns_query ops server hst d n =
     (let i = dns_seq d + 1; d1 = d\<lparr>dns_seq := i\<rparr>
      in case dns_build_query 512 hst i of None \<Rightarrow> (None, d1, n)
         | Some q \<Rightarrow>
           let (s, n1) = udp_socket ops n
           in if s < 0 then (None, d1, n1)
              else if 16 \<le> s then (None, d1, udp_close ops s n1)
              else let (r, n2) = dns_try ops s server q i 3 n1; n3 = udp_close ops s n2
                   in case r of None \<Rightarrow> (None, d1, n3)
                      | Some ip \<Rightarrow> (Some ip, cache_put d1 hst ip, n3))"

definition dns_resolve ::
  "('n, 'z) udp_ops_scheme \<Rightarrow> string \<Rightarrow> dns_state \<Rightarrow> 'n \<Rightarrow> u32 option \<times> dns_state \<times> 'n" where
  "dns_resolve ops hst d n =
     (if hst = [] then (None, d, n)
      else case inet_aton ops hst of Some a \<Rightarrow> (Some a, d, n)
      | None \<Rightarrow>
        (case cache_get d hst of Some a \<Rightarrow> (Some a, d, n)
         | None \<Rightarrow> if dns_server d = 0 then (None, d, n) else dns_query ops (dns_server d) hst d n))"

definition dns_set_server :: "u32 \<Rightarrow> dns_state \<Rightarrow> dns_state" where
  "dns_set_server ip d = dns_cache_flush (d\<lparr>dns_server := ip\<rparr>)"

record hostent =
  h_name :: string
  h_addr :: u32
  h_length :: nat

definition wiimc_gethostbyname ::
  "('n, 'z) udp_ops_scheme \<Rightarrow> string \<Rightarrow> dns_state \<Rightarrow> 'n \<Rightarrow> hostent option \<times> dns_state \<times> 'n" where
  "wiimc_gethostbyname ops name d n =
     (case dns_resolve ops name d n of
        (None, d1, n1) \<Rightarrow> (None, d1, n1)
      | (Some a, d1, n1) \<Rightarrow> (Some \<lparr>h_name = c_trunc 128 name, h_addr = a, h_length = 4\<rparr>, d1, n1))"

subsection \<open>Specification: the wire format of names and records\<close>

inductive enc_name :: "octets \<Rightarrow> bool" where
  root: "enc_name [0]"
| pointer: "p AND 0xC0 = 0xC0 \<Longrightarrow> enc_name [p, q]"
| label: "1 \<le> length lab \<Longrightarrow> length lab \<le> 63 \<Longrightarrow> enc_name rest \<Longrightarrow>
    enc_name (of_nat (length lab) # lab @ rest)"

definition enc16 :: "nat \<Rightarrow> octets" where
  "enc16 n = [of_nat (n div 256), of_nat (n mod 256)]"

record dns_rr =
  rr_name :: octets
  rr_type :: nat
  rr_class :: nat
  rr_ttl :: octets
  rr_data :: octets

definition enc_rr :: "dns_rr \<Rightarrow> octets" where
  "enc_rr r = rr_name r @ enc16 (rr_type r) @ enc16 (rr_class r) @ rr_ttl r @
     enc16 (length (rr_data r)) @ rr_data r"

definition rr_ok :: "dns_rr \<Rightarrow> bool" where
  "rr_ok r \<longleftrightarrow> enc_name (rr_name r) \<and> rr_type r < 65536 \<and> rr_class r < 65536 \<and>
     length (rr_ttl r) = 4 \<and> length (rr_data r) < 65536"

definition rr_is_A :: "dns_rr \<Rightarrow> bool" where
  "rr_is_A r \<longleftrightarrow> rr_type r = 1 \<and> rr_class r = 1 \<and> length (rr_data r) = 4"

definition word_at :: "octets \<Rightarrow> u32" where
  "word_at bs = be32 (bs ! 0) (bs ! 1) (bs ! 2) (bs ! 3)"

definition enc_question :: "octets \<Rightarrow> octets \<Rightarrow> octets" where
  "enc_question nm tc = nm @ tc"

definition enc_label :: "string \<Rightarrow> octets" where
  "enc_label l = of_nat (length l) # map char_octet l"

fun join_dots :: "string list \<Rightarrow> string" where
  "join_dots [] = []"
| "join_dots [l] = l"
| "join_dots (l # ls) = l @ CHR ''.'' # join_dots ls"

definition dns_inv :: "dns_state \<Rightarrow> bool" where
  "dns_inv d \<longleftrightarrow> length (dns_cache d) \<le> 8 \<and> (\<forall>e \<in> set (dns_cache d). length (ce_name e) < 128)"

text \<open>A network for the witnesses: every datagram sent is answered with the same reply.\<close>

definition echo_udp :: "octets \<Rightarrow> unit udp_ops" where
  "echo_udp reply = \<lparr>inet_aton = (\<lambda>_. None), udp_socket = (\<lambda>n. (3, n)),
     udp_sendto = (\<lambda>_ _ q n. (int (length q), n)), udp_select = (\<lambda>_ n. (1, n)),
     udp_recvfrom = (\<lambda>_ n. (Inr reply, n)), udp_close = (\<lambda>_ n. n)\<rparr>"

section \<open>Memory safety\<close>

lemma rd8_in [simp]: "i < length buf \<Longrightarrow> rd8 buf i = Inr (buf ! i)"
  by (simp add: rd8_def)

lemma rd16_in [simp]:
  "i + 1 < length buf \<Longrightarrow> rd16 buf i = Inr (unat (buf ! i) * 256 + unat (buf ! (i + 1)))"
  by (simp add: rd16_def)

lemma rd32_in [simp]:
  "i + 3 < length buf \<Longrightarrow> rd32 buf i = Inr (be32 (buf ! i) (buf ! (i + 1)) (buf ! (i + 2)) (buf ! (i + 3)))"
  by (simp add: rd32_def)

lemma skip_name_safe:
  "len \<le> length buf \<Longrightarrow> skip_name buf len off \<noteq> Inl Oob"
proof (induction buf len off rule: skip_name.induct)
  case (1 buf len off)
  show ?case
  proof (cases "off < len")
    case True
    then have r: "rd8 buf off = Inr (buf ! off)" using 1(2) by simp
    show ?thesis
      using 1(1) [OF True r] 1(2) by (subst skip_name.simps) (simp add: True r)
  qed (simp add: skip_name.simps)
qed

lemma skip_name_bound: "skip_name buf len off = Inr o1 \<Longrightarrow> off < o1 \<and> o1 \<le> len"
proof (induction buf len off rule: skip_name.induct)
  case (1 buf len off)
  show ?case
  proof (cases "off < len")
    case True
    obtain c where r: "rd8 buf off = Inr c"
      using 1(2) True by (cases "rd8 buf off") (auto simp: skip_name.simps [of buf len off])
    show ?thesis
      using 1(1) [OF True r] 1(2) True by (auto simp: skip_name.simps [of buf len off] r split: if_splits)
  qed (use 1(2) in \<open>simp add: skip_name.simps\<close>)
qed

lemma skip_questions_safe:
  "len \<le> length buf \<Longrightarrow> skip_questions buf len k off \<noteq> Inl Oob"
  by (induction buf len k off rule: skip_questions.induct)
    (auto simp: skip_name_safe split: sum.splits dest!: skip_name_safe)

lemma scan_answers_safe:
  "len \<le> length buf \<Longrightarrow> scan_answers buf len k off \<noteq> Inl Oob"
proof (induction k arbitrary: off)
  case (Suc k)
  show ?case
  proof (cases "skip_name buf len off")
    case (Inl e)
    then show ?thesis using skip_name_safe [OF Suc.prems, of off] by auto
  next
    case (Inr o1)
    then show ?thesis using Suc by (simp split: sum.split)
  qed
qed simp

lemma parse_response_safe:
  assumes "len \<le> length buf"
  shows "dns_parse_response buf len i \<noteq> Inl Oob"
proof (cases "len < 12")
  case False
  with assms have "12 \<le> length buf" by simp
  then show ?thesis
    using skip_questions_safe [OF assms] scan_answers_safe [OF assms]
    by (auto simp: dns_parse_response_def split: sum.split)
qed (simp add: dns_parse_response_def)

section \<open>Reading well-formed messages\<close>

lemma small_octet:
  assumes "1 \<le> n" "n \<le> 63"
  shows "of_nat n \<noteq> (0 :: octet)" "of_nat n AND 0xC0 \<noteq> (0xC0 :: octet)" "\<not> 63 < (of_nat n :: octet)"
    "unat (of_nat n :: octet) = n"
proof -
  show u: "unat (of_nat n :: octet) = n"
    using assms by (simp add: unat_of_nat)
  show "\<not> 63 < (of_nat n :: octet)"
    using assms u by (simp add: word_less_nat_alt)
  show "of_nat n \<noteq> (0 :: octet)"
    using assms u by auto
  have "(of_nat n :: octet) AND 0xC0 \<le> of_nat n"
    by (simp add: word_and_le2)
  then show "of_nat n AND 0xC0 \<noteq> (0xC0 :: octet)"
    using assms u by (auto simp: word_le_nat_alt)
qed

lemma skip_name_encoded:
  "enc_name nm \<Longrightarrow> length pre + length nm \<le> len \<Longrightarrow> len \<le> length (pre @ nm @ post) \<Longrightarrow>
     skip_name (pre @ nm @ post) len (length pre) = Inr (length pre + length nm)"
proof (induction arbitrary: pre rule: enc_name.induct)
  case root
  then show ?case by (subst skip_name.simps) (simp add: nth_append)
next
  case (pointer p q)
  then have "p \<noteq> 0" by auto
  with pointer show ?case by (subst skip_name.simps) (simp add: nth_append)
next
  case (label lab rest)
  note sm = small_octet [OF label(1,2)]
  have "skip_name ((pre @ of_nat (length lab) # lab) @ rest @ post) len (length (pre @ of_nat (length lab) # lab)) =
      Inr (length (pre @ of_nat (length lab) # lab) + length rest)"
    using label by (intro label.IH) simp_all
  then show ?case
    using label.prems by (subst skip_name.simps) (simp add: nth_append sm)
qed

lemma enc16_read:
  "n < 65536 \<Longrightarrow> rd16 (pre @ enc16 n @ post) (length pre) = Inr n"
  by (simp add: enc16_def nth_append unat_of_nat)

lemma length_enc16 [simp]: "length (enc16 n) = 2"
  by (simp add: enc16_def)

lemma rd16_at: "k = length pre \<Longrightarrow> buf = pre @ enc16 n @ post \<Longrightarrow> n < 65536 \<Longrightarrow> rd16 buf k = Inr n"
  by (simp only: enc16_read)

lemma rd32_at:
  "k = length pre \<Longrightarrow> buf = pre @ bs @ post \<Longrightarrow> length bs = 4 \<Longrightarrow> rd32 buf k = Inr (word_at bs)"
  by (simp add: word_at_def nth_append)

lemma scan_one:
  assumes ok: "rr_ok r" and buf: "buf = pre @ enc_rr r @ post" and len: "len = length buf"
  shows "scan_answers buf len (Suc k) (length pre) =
    (if rr_is_A r then Inr (word_at (rr_data r), clamp_ttl (word_at (rr_ttl r)))
     else scan_answers buf len k (length pre + length (enc_rr r)))"
proof -
  define q where "q = length pre + length (rr_name r)"
  let ?nm = "pre @ rr_name r"
  have sk: "skip_name buf len (length pre) = Inr q"
    unfolding buf enc_rr_def append_assoc
    unfolding q_def using ok len by (intro skip_name_encoded) (auto simp: rr_ok_def buf enc_rr_def)
  have t: "rd16 buf q = Inr (rr_type r)"
    by (rule rd16_at [of _ ?nm _ _ "enc16 (rr_class r) @ rr_ttl r @ enc16 (length (rr_data r)) @ rr_data r @ post"])
      (use ok in \<open>simp_all add: q_def buf enc_rr_def rr_ok_def\<close>)
  have c: "rd16 buf (q + 2) = Inr (rr_class r)"
    by (rule rd16_at [of _ "?nm @ enc16 (rr_type r)" _ _ "rr_ttl r @ enc16 (length (rr_data r)) @ rr_data r @ post"])
      (use ok in \<open>simp_all add: q_def buf enc_rr_def rr_ok_def\<close>)
  have l: "rd32 buf (q + 4) = Inr (word_at (rr_ttl r))"
    by (rule rd32_at [of _ "?nm @ enc16 (rr_type r) @ enc16 (rr_class r)" _ _ "enc16 (length (rr_data r)) @ rr_data r @ post"])
      (use ok in \<open>simp_all add: q_def buf enc_rr_def rr_ok_def\<close>)
  have d: "rd16 buf (q + 8) = Inr (length (rr_data r))"
    by (rule rd16_at [of _ "?nm @ enc16 (rr_type r) @ enc16 (rr_class r) @ rr_ttl r" _ _ "rr_data r @ post"])
      (use ok in \<open>simp_all add: q_def buf enc_rr_def rr_ok_def\<close>)
  have ip: "length (rr_data r) = 4 \<Longrightarrow> rd32 buf (q + 10) = Inr (word_at (rr_data r))"
    by (rule rd32_at [of _ "?nm @ enc16 (rr_type r) @ enc16 (rr_class r) @ rr_ttl r @ enc16 (length (rr_data r))" _ _ post])
      (use ok in \<open>simp_all add: q_def buf enc_rr_def rr_ok_def\<close>)
  have ln: "length pre + length (enc_rr r) = q + 10 + length (rr_data r)" "\<not> len < q + 10 + length (rr_data r)"
    using ok len by (simp_all add: q_def buf enc_rr_def rr_ok_def)
  then have "\<not> len < q + 10" by simp
  then show ?thesis
    using ln ip by (simp add: sk t c l d rr_is_A_def del: rd16_in rd32_in add_2_eq_Suc')
qed

lemma scan_records:
  "\<forall>r \<in> set rrs. rr_ok r \<and> \<not> rr_is_A r \<Longrightarrow> rr_ok a \<Longrightarrow> rr_is_A a \<Longrightarrow>
   buf = pre @ concat (map enc_rr rrs) @ enc_rr a @ post \<Longrightarrow> length rrs < k \<Longrightarrow>
   scan_answers buf (length buf) k (length pre) = Inr (word_at (rr_data a), clamp_ttl (word_at (rr_ttl a)))"
proof (induction rrs arbitrary: pre k)
  case Nil
  then obtain k' where "k = Suc k'" by (cases k) auto
  with Nil show ?case using scan_one [of a buf pre post "length buf"] by simp
next
  case (Cons r rrs)
  then obtain k' where k: "k = Suc k'" by (cases k) auto
  have "scan_answers buf (length buf) k' (length (pre @ enc_rr r)) =
      Inr (word_at (rr_data a), clamp_ttl (word_at (rr_ttl a)))"
    using Cons k by (intro Cons.IH) auto
  moreover have "rr_ok r" "\<not> rr_is_A r" "buf = pre @ enc_rr r @ concat (map enc_rr rrs) @ enc_rr a @ post"
    using Cons.prems by simp_all
  ultimately show ?case
    using k scan_one [of r buf pre "concat (map enc_rr rrs) @ enc_rr a @ post" "length buf"] by simp
qed

lemma skip_questions_encoded:
  "\<forall>(nm, tc) \<in> set qs. enc_name nm \<and> length tc = 4 \<Longrightarrow>
   buf = pre @ concat (map (\<lambda>(nm, tc). enc_question nm tc) qs) @ post \<Longrightarrow>
   skip_questions buf (length buf) (length qs) (length pre) =
     Inr (length pre + length (concat (map (\<lambda>(nm, tc). enc_question nm tc) qs)))"
proof (induction qs arbitrary: pre)
  case (Cons q qs)
  obtain nm tc where q: "q = (nm, tc)" by (cases q)
  let ?rest = "concat (map (\<lambda>(nm, tc). enc_question nm tc) qs)"
  have b: "buf = pre @ nm @ (tc @ ?rest @ post)" using Cons.prems(2) by (simp add: q enc_question_def)
  have sk: "skip_name buf (length buf) (length pre) = Inr (length pre + length nm)"
    unfolding b using Cons.prems(1) by (intro skip_name_encoded) (auto simp: q)
  have "skip_questions buf (length buf) (length qs) (length (pre @ nm @ tc)) =
      Inr (length (pre @ nm @ tc) + length ?rest)"
    using Cons.prems b by (intro Cons.IH) auto
  then show ?case
    using Cons.prems(1) sk by (simp add: q enc_question_def b add.assoc)
qed simp

section \<open>Building queries\<close>

lemma length_char_octets [simp]: "length (enc_label l) = Suc (length l)"
  by (simp add: enc_label_def)

lemma join_dots_Cons: "ls \<noteq> [] \<Longrightarrow> join_dots (l # ls) = l @ CHR ''.'' # join_dots ls"
  by (cases ls) auto

lemma enc_name_labels:
  "\<forall>l \<in> set labs. 1 \<le> length l \<and> length l \<le> 63 \<Longrightarrow> enc_name (concat (map enc_label labs) @ [0])"
proof (induction labs)
  case Nil
  show ?case by (simp add: enc_name.root)
next
  case (Cons l labs)
  then have "enc_name (of_nat (length (map char_octet l)) # map char_octet l @ (concat (map enc_label labs) @ [0]))"
    by (intro enc_name.label) auto
  then show ?case by (simp add: enc_label_def [of l])
qed

lemma build_labels_Some:
  "build_labels mx buf p = Some b \<Longrightarrow>
   \<exists>labs. b = buf @ concat (map enc_label labs) \<and> (\<forall>l \<in> set labs. 1 \<le> length l \<and> length l \<le> 63) \<and>
     (p = join_dots labs \<or> labs \<noteq> [] \<and> p = join_dots labs @ ''.'') \<and> (labs = [] \<or> length b + 5 \<le> mx)"
proof (induction mx buf p arbitrary: b rule: build_labels.induct)
  case (1 mx buf p)
  show ?case
  proof (cases "p = []")
    case True
    with 1(2) have "b = buf @ concat (map enc_label []) \<and> p = join_dots []"
      by (simp add: build_labels.simps)
    then show ?thesis by (intro exI [of _ "[]"]) simp
  next
    case False
    define lab where "lab = c_before (CHR ''.'') p"
    define tl' where "tl' = drop 1 (c_from (CHR ''.'') p)"
    have g: "\<not> (length lab < 1 \<or> 63 < length lab)" "\<not> mx < length buf + 1 + length lab + 5"
      "\<not> 255 < length buf + 1 + length lab - 12"
      and rec: "build_labels mx (buf @ enc_label lab) tl' = Some b"
      using 1(2) False
      by (auto simp: build_labels.simps [of mx buf p] Let_def lab_def tl'_def enc_label_def split: if_splits)
    obtain labs where labs: "b = (buf @ enc_label lab) @ concat (map enc_label labs)"
      "\<forall>l \<in> set labs. 1 \<le> length l \<and> length l \<le> 63"
      "tl' = join_dots labs \<or> labs \<noteq> [] \<and> tl' = join_dots labs @ ''.''" "labs = [] \<or> length b + 5 \<le> mx"
      using 1(1) [OF False lab_def refl g(1,2,3), of b] rec by (auto simp: enc_label_def [of lab] tl'_def)
    have p: "p = lab @ c_from (CHR ''.'') p" by (simp add: lab_def)
    have "p = join_dots (lab # labs) \<or> p = join_dots (lab # labs) @ ''.''"
    proof (cases "c_from (CHR ''.'') p = []")
      case True
      then have "tl' = []" by (simp add: tl'_def)
      moreover have "labs \<noteq> [] \<Longrightarrow> join_dots labs \<noteq> []"
        using labs(2) by (cases labs rule: join_dots.cases) auto
      ultimately have "labs = []" using labs(3) by auto
      with p True show ?thesis by simp
    next
      case False
      then have "p = lab @ CHR ''.'' # tl'" using p c_from_cases [of "CHR ''.''" p] by (auto simp: tl'_def)
      then show ?thesis using labs(3) by (cases "labs = []") (auto simp: join_dots_Cons)
    qed
    moreover have "length b + 5 \<le> mx" using labs(1,4) g(2) by auto
    moreover have "1 \<le> length lab \<and> length lab \<le> 63" using g(1) by linarith
    ultimately show ?thesis using labs(1,2) by (intro exI [of _ "lab # labs"]) auto
  qed
qed

lemma dns_header_id: "rd16 (dns_header i @ r) 0 = Inr (unat i)"
proof -
  have "unat i div 256 < 256" using unsigned_less [of i, where 'a = nat] by simp
  then have "unat (ucast (drop_bit 8 i) :: octet) = unat i div 256"
    unfolding unsigned_ucast_eq unat_drop_bit_eq by (simp add: take_bit_eq_mod drop_bit_eq_div)
  moreover have "unat (ucast i :: octet) = unat i mod 256"
    by (simp add: unsigned_ucast_eq take_bit_eq_mod)
  ultimately show ?thesis by (simp add: dns_header_def)
qed

lemma build_query_Some:
  assumes "dns_build_query mx hst i = Some q"
  shows "\<exists>labs. labs \<noteq> [] \<and> (\<forall>l \<in> set labs. 1 \<le> length l \<and> length l \<le> 63) \<and>
    (hst = join_dots labs \<or> hst = join_dots labs @ ''.'') \<and>
    q = dns_header i @ (concat (map enc_label labs) @ [0]) @ [0, 1, 0, 1] \<and> length q \<le> mx"
proof -
  from assms obtain b where b: "build_labels mx (dns_header i) hst = Some b" "length b \<noteq> 12"
    "q = b @ [0, 0, 1, 0, 1]"
    by (auto simp: dns_build_query_def split: if_splits option.splits)
  from build_labels_Some [OF b(1)] obtain labs where l: "b = dns_header i @ concat (map enc_label labs)"
    "\<forall>l \<in> set labs. 1 \<le> length l \<and> length l \<le> 63"
    "hst = join_dots labs \<or> labs \<noteq> [] \<and> hst = join_dots labs @ ''.''" "labs = [] \<or> length b + 5 \<le> mx"
    by blast
  moreover have "labs \<noteq> []" using b(2) l(1) by (auto simp: dns_header_def)
  ultimately show ?thesis using b(3) by (intro exI [of _ labs]) auto
qed

section \<open>Cache and resolver\<close>

lemma cache_find_append_new: "cache_find es h = None \<Longrightarrow> cache_find (es @ [e]) h = (if ce_name e = h then Some (ce_ip e) else None)"
  by (induction es) (auto split: if_splits)

lemma cache_get_put:
  "length hst < 128 \<Longrightarrow> cache_get d hst = None \<Longrightarrow> cache_get (cache_put d hst ip) hst = Some ip"
  by (cases "dns_cache d") (auto simp: cache_get_def cache_put_def Let_def cache_find_append_new)

lemma cache_put_fields [simp]:
  "dns_server (cache_put d h ip) = dns_server d" "dns_seq (cache_put d h ip) = dns_seq d"
  by (simp_all add: cache_put_def Let_def)

lemma cache_get_seq [simp]: "cache_get (d\<lparr>dns_seq := i\<rparr>) h = cache_get d h"
  by (simp add: cache_get_def)

lemma cache_put_inv: "dns_inv d \<Longrightarrow> dns_inv (cache_put d h ip)"
  by (cases "dns_cache d") (auto simp: dns_inv_def cache_put_def Let_def)

lemma dns_query_inv: "dns_inv d \<Longrightarrow> dns_inv (fst (snd (dns_query ops server hst d n)))"
proof -
  assume "dns_inv d"
  then have "dns_inv (d\<lparr>dns_seq := i\<rparr>)" for i by (simp add: dns_inv_def)
  then show ?thesis
    by (auto simp: dns_query_def Let_def cache_put_inv split: option.split prod.split)
qed

lemma dns_resolve_inv: "dns_inv d \<Longrightarrow> dns_inv (fst (snd (dns_resolve ops hst d n)))"
  using dns_query_inv [of d ops "dns_server d" hst n]
  by (auto simp: dns_resolve_def split: option.split)

lemma dns_query_cached:
  assumes "dns_query ops server hst d n = (Some ip, d1, n1)" and "length hst < 128" and "cache_get d hst = None"
  shows "cache_get d1 hst = Some ip \<and> dns_server d1 = dns_server d"
  using assms by (auto simp: dns_query_def Let_def cache_get_put split: option.splits prod.splits if_splits)

section \<open>Properties\<close>

text \<open>
  (C22) The response parser is memory safe on every datagram: whatever the bytes received, their
  number and the expected identifier, \<open>dns_parse_response\<close> never reads outside the received bytes.
  It also terminates on every input, being a total function whose name and record loops were
  given measures.
\<close>

theorem dns_parse_never_out_of_bounds:
  "dns_parse_response r (length r) i \<noteq> Inl Oob"
  by (rule parse_response_safe) simp

text \<open>
  A well-formed answer is understood: with matching identifier, response bit and no error
  code, any number of questions, and records (CNAMEs and other types, names plain or compressed)
  before the first A record, the parser returns that record's address and its TTL clamped to
  30..3600.
\<close>

theorem dns_parse_first_A:
  assumes "\<forall>(nm, tc) \<in> set qs. enc_name nm \<and> length tc = 4" and "length qs < 65536"
    and "\<forall>r \<in> set rrs. rr_ok r \<and> \<not> rr_is_A r" and "rr_ok a" and "rr_is_A a"
    and "length rrs < an" and "an < 65536" and "f1 AND 0x80 \<noteq> 0" and "f2 AND 0x0F = 0"
    and "length counts = 4"
    and msg: "msg = enc16 (unat i) @ [f1, f2] @ enc16 (length qs) @ enc16 an @ counts @
      concat (map (\<lambda>(nm, tc). enc_question nm tc) qs) @ concat (map enc_rr rrs) @ enc_rr a @ post"
  shows "dns_parse_response msg (length msg) i =
    Inr (word_at (rr_data a), clamp_ttl (word_at (rr_ttl a)))"
proof -
  let ?q = "concat (map (\<lambda>(nm, tc). enc_question nm tc) qs)"
  define hdr where "hdr = enc16 (unat i) @ [f1, f2] @ enc16 (length qs) @ enc16 an @ counts"
  have hl: "length hdr = 12" using assms(10) by (simp add: hdr_def)
  have m: "msg = hdr @ ?q @ (concat (map enc_rr rrs) @ enc_rr a @ post)" using msg by (simp add: hdr_def)
  have sq: "skip_questions msg (length msg) (length qs) 12 = Inr (12 + length ?q)"
    using skip_questions_encoded [OF assms(1) m] hl by simp
  have sc: "scan_answers msg (length msg) an (12 + length ?q) =
      Inr (word_at (rr_data a), clamp_ttl (word_at (rr_ttl a)))"
    using scan_records [OF assms(3-5), of msg "hdr @ ?q" post an] assms(6) m hl by simp
  have i: "unat i < 65536" using unsigned_less [of i, where 'a = nat] by simp
  have r0: "rd16 msg 0 = Inr (unat i)"
    by (rule rd16_at [of _ "[]", OF _ _ i]) (simp_all add: msg)
  have r4: "rd16 msg 4 = Inr (length qs)"
    by (rule rd16_at [of _ "enc16 (unat i) @ [f1, f2]", OF _ _ assms(2)]) (simp_all add: msg)
  have r6: "rd16 msg 6 = Inr an"
    by (rule rd16_at [of _ "enc16 (unat i) @ [f1, f2] @ enc16 (length qs)", OF _ _ assms(7)]) (simp_all add: msg)
  have "rd8 msg 2 = Inr f1" "rd8 msg 3 = Inr f2"
    by (simp_all add: msg rd8_def enc16_def nth_append)
  moreover have "\<not> length msg < 12" using hl by (simp add: m)
  ultimately show ?thesis
    using assms(8,9) by (simp add: dns_parse_response_def r0 r4 r6 sq sc del: rd16_in rd8_in)
qed

theorem dns_parse_first_A_witness:
  "dns_parse_response
     ([0, 7, 0x81, 0x80, 0, 1, 0, 2, 0, 0, 0, 0] @ [1, 97, 0, 0, 1, 0, 1] @
      [0xC0, 12, 0, 5, 0, 1, 0, 0, 0, 60, 0, 2, 0xC0, 12] @
      [0xC0, 12, 0, 1, 0, 1, 0, 0, 0, 5, 0, 4, 192, 168, 1, 20]) 49 7 =
   Inr (0xC0A80114, 30)"
proof -
  let ?cname = "\<lparr>rr_name = [0xC0, 12], rr_type = 5, rr_class = 1, rr_ttl = [0, 0, 0, 60], rr_data = [0xC0, 12]\<rparr>"
  let ?a = "\<lparr>rr_name = [0xC0, 12], rr_type = 1, rr_class = 1, rr_ttl = [0, 0, 0, 5], rr_data = [192, 168, 1, 20]\<rparr>"
  let ?qs = "[([1, 97, 0], [0, 1, 0, 1])] :: (octets \<times> octets) list"
  have n: "enc_name [1, 97, 0]" using enc_name.label [of "[97]" "[0]"] enc_name.root by simp
  have p: "enc_name [0xC0, 12]" by (rule enc_name.pointer) simp
  let ?msg = "[0, 7, 0x81, 0x80, 0, 1, 0, 2, 0, 0, 0, 0] @ [1, 97, 0, 0, 1, 0, 1] @
      [0xC0, 12, 0, 5, 0, 1, 0, 0, 0, 60, 0, 2, 0xC0, 12] @
      [0xC0, 12, 0, 1, 0, 1, 0, 0, 0, 5, 0, 4, 192, 168, 1, 20] :: octets"
  have "dns_parse_response ?msg (length ?msg) 7 =
      Inr (word_at (rr_data ?a), clamp_ttl (word_at (rr_ttl ?a)))"
    by (rule dns_parse_first_A [where qs = ?qs and rrs = "[?cname]" and a = ?a and an = 2 and ?f1.0 = "0x81" and
        ?f2.0 = "0x80" and counts = "[0, 0, 0, 0]" and post = "[]"])
      (simp_all add: n p rr_ok_def rr_is_A_def enc16_def enc_question_def enc_rr_def)
  moreover have "length ?msg = 49" by (simp add: eval_nat_numeral)
  ultimately show ?thesis by (simp only:) (simp add: word_at_def be32_def clamp_ttl_def)
qed

text \<open>
  The query builder: what it returns fits the buffer, is the header, the labels of the host
  name (split at its dots, a final dot allowed, each of 1 to 63 bytes), the root label and
  QTYPE A, QCLASS IN; its identifier reads back, and the response parser's name skipper crosses
  the question's name exactly.
\<close>

theorem dns_query_wellformed:
  assumes "dns_build_query mx hst i = Some q"
  shows "length q \<le> mx \<and> rd16 q 0 = Inr (unat i) \<and> skip_name q (length q) 12 = Inr (length q - 4) \<and>
    (\<exists>labs. labs \<noteq> [] \<and> (\<forall>l \<in> set labs. 1 \<le> length l \<and> length l \<le> 63) \<and>
       (hst = join_dots labs \<or> hst = join_dots labs @ ''.'') \<and>
       q = dns_header i @ (concat (map enc_label labs) @ [0]) @ [0, 1, 0, 1])"
proof -
  obtain labs where l: "labs \<noteq> []" "\<forall>l \<in> set labs. 1 \<le> length l \<and> length l \<le> 63"
    "hst = join_dots labs \<or> hst = join_dots labs @ ''.''"
    "q = dns_header i @ (concat (map enc_label labs) @ [0]) @ [0, 1, 0, 1]" "length q \<le> mx"
    using build_query_Some [OF assms] by blast
  have h: "length (dns_header i) = 12" by (simp add: dns_header_def)
  have "skip_name (dns_header i @ (concat (map enc_label labs) @ [0]) @ [0, 1, 0, 1]) (length q) (length (dns_header i)) =
      Inr (length (dns_header i) + length (concat (map enc_label labs) @ [0]))"
    using l(4) by (intro skip_name_encoded enc_name_labels l(2)) simp_all
  then have "skip_name q (length q) 12 = Inr (length q - 4)" using l(4) h by simp
  moreover have "rd16 q 0 = Inr (unat i)" unfolding l(4) by (rule dns_header_id)
  ultimately show ?thesis using l by blast
qed

theorem dns_query_wellformed_witness:
  "length ([0, 7, 1, 0, 0, 1, 0, 0, 0, 0, 0, 0, 1, 97, 2, 98, 99, 0, 0, 1, 0, 1] :: octets) \<le> 512 \<and>
   skip_name [0, 7, 1, 0, 0, 1, 0, 0, 0, 0, 0, 0, 1, 97, 2, 98, 99, 0, 0, 1, 0, 1] 22 12 = Inr 18"
proof -
  have "dns_build_query 512 ''a.bc'' 7 =
      Some [0, 7, 1, 0, 0, 1, 0, 0, 0, 0, 0, 0, 1, 97, 2, 98, 99, 0, 0, 1, 0, 1]"
    by code_simp
  from dns_query_wellformed [OF this] show ?thesis by (simp add: eval_nat_numeral)
qed

text \<open>
  A resolved name of fewer than 128 bytes stays resolved: resolving it again answers the same
  address, changes no resolver state and does no network operation, whatever the network has
  become meanwhile.
\<close>

theorem dns_resolve_again_is_free:
  assumes "dns_resolve ops hst d n = (Some ip, d1, n1)" and "length hst < 128"
  shows "dns_resolve ops hst d1 n2 = (Some ip, d1, n2)"
proof (cases "hst = [] \<or> inet_aton ops hst \<noteq> None \<or> cache_get d hst \<noteq> None \<or> dns_server d = 0")
  case True
  with assms show ?thesis by (auto simp: dns_resolve_def split: if_splits option.splits)
next
  case False
  with assms(1) have "dns_query ops (dns_server d) hst d n = (Some ip, d1, n1)"
    by (simp add: dns_resolve_def)
  from dns_query_cached [OF this assms(2)] False show ?thesis by (simp add: dns_resolve_def)
qed

theorem dns_resolve_again_is_free_witness:
  "\<exists>d1. dns_resolve (echo_udp [0, 1, 0x81, 0x80, 0, 0, 0, 1, 0, 0, 0, 0, 0, 0, 1, 0, 1, 0, 0, 0, 60, 0, 4, 10, 0, 0, 2])
     ''nas'' \<lparr>dns_server = 1, dns_cache = [], dns_seq = 0\<rparr> () = (Some 0x0A000002, d1, ()) \<and>
   dns_resolve (echo_udp []) ''nas'' d1 () = (Some 0x0A000002, d1, ())"
proof -
  let ?ops = "echo_udp [0, 1, 0x81, 0x80, 0, 0, 0, 1, 0, 0, 0, 0, 0, 0, 1, 0, 1, 0, 0, 0, 60, 0, 4, 10, 0, 0, 2]"
  let ?d1 = "\<lparr>dns_server = 1, dns_cache = [\<lparr>ce_name = ''nas'', ce_ip = 0x0A000002\<rparr>], dns_seq = 1\<rparr>"
  have r: "dns_resolve ?ops ''nas'' \<lparr>dns_server = 1, dns_cache = [], dns_seq = 0\<rparr> () = (Some 0x0A000002, ?d1, ())"
    by code_simp
  have "dns_resolve ?ops ''nas'' ?d1 () = (Some 0x0A000002, ?d1, ())"
    by (rule dns_resolve_again_is_free [OF r]) simp
  then have "dns_resolve (echo_udp []) ''nas'' ?d1 () = (Some 0x0A000002, ?d1, ())"
    by (simp add: dns_resolve_def echo_udp_def cache_get_def)
  with r show ?thesis by blast
qed

text \<open>
  The resolver's state invariant: at most eight cache entries, each with a name that fits its
  128-byte field, is kept by resolving (successfully or not), by flushing and by setting the
  server.
\<close>

theorem dns_state_invariant:
  assumes "dns_inv d"
  shows "dns_inv (fst (snd (wiimc_gethostbyname ops hst d n))) \<and> dns_inv (dns_cache_flush d) \<and>
    dns_inv (dns_set_server ip d)"
  using dns_resolve_inv [OF assms, of ops hst n] assms
  by (auto simp: wiimc_gethostbyname_def dns_set_server_def dns_cache_flush_def dns_inv_def
    split: prod.split option.split)

theorem dns_state_invariant_witness:
  "dns_inv (dns_set_server 5 \<lparr>dns_server = 1, dns_cache = [\<lparr>ce_name = ''nas'', ce_ip = 9\<rparr>], dns_seq = 1\<rparr>)"
proof -
  have "dns_inv \<lparr>dns_server = 1, dns_cache = [\<lparr>ce_name = ''nas'', ce_ip = 9\<rparr>], dns_seq = 1\<rparr>"
    by (simp add: dns_inv_def)
  from dns_state_invariant [OF this, of "echo_udp []" "''x''" "()" 5] show ?thesis by simp
qed

text \<open>
  When the table is full the newest entry is replaced, not the oldest: with eight entries, two
  unknown hosts put in turn leave the first of them out of the cache while the seven older entries
  behind slot 0 stay.
\<close>

theorem dns_full_cache_drops_newest:
  assumes "length (dns_cache d) = 8" and "cache_get d h1 = None" and "h1 \<noteq> h2"
    and "length h1 < 128" and "length h2 < 128"
  shows "cache_get (cache_put (cache_put d h1 a) h2 b) h1 = None \<and>
    tl (dns_cache (cache_put (cache_put d h1 a) h2 b)) = tl (dns_cache d)"
proof -
  obtain e es where c: "dns_cache d = e # es" using assms(1) by (cases "dns_cache d") auto
  with assms(2) have "cache_find es h1 = None" by (auto simp: cache_get_def split: if_splits)
  with assms c show ?thesis by (simp add: cache_put_def cache_get_def Let_def)
qed

theorem dns_full_cache_drops_newest_witness:
  "cache_get (cache_put (cache_put
     \<lparr>dns_server = 1, dns_cache = replicate 8 \<lparr>ce_name = ''old'', ce_ip = 9\<rparr>, dns_seq = 0\<rparr> ''a'' 1) ''b'' 2) ''a'' = None"
proof -
  let ?d = "\<lparr>dns_server = 1, dns_cache = replicate 8 \<lparr>ce_name = ''old'', ce_ip = 9\<rparr>, dns_seq = 0\<rparr>"
  have "cache_get ?d ''a'' = None" by (simp add: cache_get_def numeral_eq_Suc)
  from dns_full_cache_drops_newest [OF _ this, of "''b''" 1 2] show ?thesis by simp
qed

end
