(* ===== verification/Net_Ops.thy ===== *)
theory Net_Ops
  imports Dns
begin

text \<open>
  The environment of the network components: the libogc socket calls, the mbedTLS session calls,
  the clock and the cancel callback, as the fields of a record of functions over an opaque state
  \<open>'n\<close>. Nothing is assumed of these functions here; a property that needs the documented
  behaviour of one of them states it as a hypothesis.

  The clock is a count of milliseconds. It never runs backwards: each reading adds the time that
  passed since the last one (\<open>lag\<close>, any amount), and \<open>usleep\<close> adds at least what it was asked for.
  The resolver's globals travel with the clock and the network state in \<open>world\<close>.
\<close>

section \<open>errno values (newlib)\<close>

abbreviation ENOENT :: int where "ENOENT \<equiv> 2"
abbreviation EINTR :: int where "EINTR \<equiv> 4"
abbreviation EIO :: int where "EIO \<equiv> 5"
abbreviation EBADF :: int where "EBADF \<equiv> 9"
abbreviation EAGAIN :: int where "EAGAIN \<equiv> 11"
abbreviation ENOMEM :: int where "ENOMEM \<equiv> 12"
abbreviation EACCES :: int where "EACCES \<equiv> 13"
abbreviation ENOTDIR :: int where "ENOTDIR \<equiv> 20"
abbreviation EISDIR :: int where "EISDIR \<equiv> 21"
abbreviation EINVAL :: int where "EINVAL \<equiv> 22"
abbreviation EROFS :: int where "EROFS \<equiv> 30"
abbreviation ENAMETOOLONG :: int where "ENAMETOOLONG \<equiv> 91"
abbreviation ETIMEDOUT :: int where "ETIMEDOUT \<equiv> 116"
abbreviation EHOSTUNREACH :: int where "EHOSTUNREACH \<equiv> 118"
abbreviation EINPROGRESS :: int where "EINPROGRESS \<equiv> 119"
abbreviation EALREADY :: int where "EALREADY \<equiv> 120"
abbreviation EISCONN :: int where "EISCONN \<equiv> 127"
abbreviation EOVERFLOW :: int where "EOVERFLOW \<equiv> 139"
abbreviation ECANCELED :: int where "ECANCELED \<equiv> 140"

section \<open>The environment\<close>

text \<open>
  \<open>sock_recv\<close> and \<open>ssl_read\<close> answer \<open>Inr\<close> of the bytes stored (none at the end of the stream) or
  \<open>Inl\<close> of the negative return value. \<open>read_result\<close> and \<open>write_result\<close> below read these answers as the
  C return value: a failed call is negative, and no call moves more bytes than it was given room for;
  \<open>net_connect\<close> returns zero or a negative value.
\<close>

record 'n net_ops = "'n udp_ops" +
  lag :: "'n \<Rightarrow> nat \<times> 'n"
  sock_socket :: "'n \<Rightarrow> int \<times> 'n"
  sock_nonblock :: "int \<Rightarrow> 'n \<Rightarrow> int \<times> 'n"
  sock_connect :: "int \<Rightarrow> u32 \<Rightarrow> int \<Rightarrow> 'n \<Rightarrow> int \<times> 'n"
  sock_recv :: "int \<Rightarrow> nat \<Rightarrow> 'n \<Rightarrow> (int + string) \<times> 'n"
  sock_send :: "int \<Rightarrow> string \<Rightarrow> 'n \<Rightarrow> int \<times> 'n"
  sock_close :: "int \<Rightarrow> 'n \<Rightarrow> 'n"
  tls_prepare :: "'n \<Rightarrow> string option \<times> 'n"
  ssl_setup :: "int \<Rightarrow> string \<Rightarrow> 'n \<Rightarrow> int \<times> 'n"
  ssl_handshake :: "int \<Rightarrow> 'n \<Rightarrow> int \<times> 'n"
  ssl_verify_result :: "int \<Rightarrow> 'n \<Rightarrow> u32"
  ssl_strerror :: "int \<Rightarrow> string"
  ssl_read :: "int \<Rightarrow> nat \<Rightarrow> 'n \<Rightarrow> (int + string) \<times> 'n"
  ssl_write :: "int \<Rightarrow> string \<Rightarrow> 'n \<Rightarrow> int \<times> 'n"
  ssl_free :: "int \<Rightarrow> 'n \<Rightarrow> 'n"

type_synonym 'n cancel_fn = "('n \<Rightarrow> bool \<times> 'n) option"

record 'n world =
  clock :: nat
  net :: 'n
  dns :: dns_state

definition read_result :: "nat \<Rightarrow> int + string \<Rightarrow> int \<times> string" where
  "read_result len a = (case a of Inl r \<Rightarrow> (min r (- 1), []) | Inr bs \<Rightarrow> (int (length (take len bs)), take len bs))"

definition write_result :: "string \<Rightarrow> int \<Rightarrow> int" where
  "write_result bs r = min r (int (length bs))"

definition net_recv :: "('n, 'z) net_ops_scheme \<Rightarrow> int \<Rightarrow> nat \<Rightarrow> 'n \<Rightarrow> (int \<times> string) \<times> 'n" where
  "net_recv ops fd len n = (let (a, n1) = sock_recv ops fd len n in (read_result len a, n1))"

definition net_send :: "('n, 'z) net_ops_scheme \<Rightarrow> int \<Rightarrow> string \<Rightarrow> 'n \<Rightarrow> int \<times> 'n" where
  "net_send ops fd bs n = (let (r, n1) = sock_send ops fd bs n in (write_result bs r, n1))"

definition net_connect :: "('n, 'z) net_ops_scheme \<Rightarrow> int \<Rightarrow> u32 \<Rightarrow> int \<Rightarrow> 'n \<Rightarrow> int \<times> 'n" where
  "net_connect ops fd ip port n = (let (r, n1) = sock_connect ops fd ip port n in (min r 0, n1))"

definition now_ms :: "('n, 'z) net_ops_scheme \<Rightarrow> 'n world \<Rightarrow> nat \<times> 'n world" where
  "now_ms ops w = (let (d, n) = lag ops (net w) in (clock w + d, w\<lparr>clock := clock w + d, net := n\<rparr>))"

definition usleep_ms :: "nat \<Rightarrow> 'n world \<Rightarrow> 'n world" where
  "usleep_ms ms w = w\<lparr>clock := clock w + ms\<rparr>"

definition cancelled :: "'n cancel_fn \<Rightarrow> 'n world \<Rightarrow> bool \<times> 'n world" where
  "cancelled fn w =
     (case fn of None \<Rightarrow> (False, w) | Some f \<Rightarrow> let (b, n) = f (net w) in (b, w\<lparr>net := n\<rparr>))"

text \<open>Hexadecimal output of printf, \<open>%0<w>lx\<close>.\<close>

fun show_hex :: "nat \<Rightarrow> string" where
  "show_hex n = (if n < 16 then [''0123456789abcdef'' ! n] else show_hex (n div 16) @ [''0123456789abcdef'' ! (n mod 16)])"

declare show_hex.simps [simp del]

definition show_hexw :: "nat \<Rightarrow> nat \<Rightarrow> string" where
  "show_hexw w n = replicate (w - length (show_hex n)) (CHR ''0'') @ show_hex n"

section \<open>Facts\<close>

lemma now_ms_clock: "now_ms ops w = (t, w1) \<Longrightarrow> t = clock w1 \<and> clock w \<le> clock w1 \<and> dns w1 = dns w"
  by (auto simp: now_ms_def split: prod.splits)

lemma cancelled_clock: "cancelled fn w = (b, w1) \<Longrightarrow> clock w1 = clock w \<and> dns w1 = dns w"
  by (auto simp: cancelled_def split: option.splits prod.splits)

lemma usleep_simps [simp]:
  "clock (usleep_ms ms w) = clock w + ms" "net (usleep_ms ms w) = net w" "dns (usleep_ms ms w) = dns w"
  by (simp_all add: usleep_ms_def)

text \<open>What every read promises: the return value is negative, or it counts the bytes stored, which fit.\<close>

definition read_ok :: "nat \<Rightarrow> int \<times> string \<Rightarrow> bool" where
  "read_ok len r = ((fst r < 0 \<and> snd r = []) \<or> (fst r = int (length (snd r)) \<and> length (snd r) \<le> len))"

lemma read_result_ok: "read_ok len (read_result len a)"
  by (auto simp: read_ok_def read_result_def split: sum.splits)

lemma net_recv_ok: "read_ok len (fst (net_recv ops fd len n))"
  by (auto simp: net_recv_def read_result_ok split: prod.splits)

lemma write_result_le: "write_result bs r \<le> int (length bs)"
  by (simp add: write_result_def)

section \<open>A scripted environment\<close>

text \<open>
  For concrete runs: the peer's bytes arrive in the given fragments, at most one fragment per read; an
  empty fragment is a read that would block. Every other call succeeds at once.
\<close>

definition dns_start :: dns_state where
  "dns_start = \<lparr>dns_server = 0, dns_cache = [], dns_seq = 0\<rparr>"

fun script_recv :: "nat \<Rightarrow> string list \<Rightarrow> (int + string) \<times> string list" where
  "script_recv len [] = (Inr [], [])"
| "script_recv len (b # bs) =
     (if b = [] then (Inl (- EAGAIN), bs)
      else (Inr (take len b), if length b \<le> len then bs else drop len b # bs))"

definition script_ops :: "string list net_ops" where
  "script_ops = \<lparr>inet_aton = (\<lambda>_. Some 0x0A000002), udp_socket = (\<lambda>n. (3, n)),
     udp_sendto = (\<lambda>_ _ q n. (int (length q), n)), udp_select = (\<lambda>_ n. (1, n)),
     udp_recvfrom = (\<lambda>_ n. (Inr [], n)), udp_close = (\<lambda>_ n. n),
     lag = (\<lambda>n. (0, n)), sock_socket = (\<lambda>n. (5, n)), sock_nonblock = (\<lambda>_ n. (0, n)),
     sock_connect = (\<lambda>_ _ _ n. (0, n)), sock_recv = (\<lambda>_. script_recv),
     sock_send = (\<lambda>_ bs n. (int (length bs), n)), sock_close = (\<lambda>_ n. n),
     tls_prepare = (\<lambda>n. (None, n)), ssl_setup = (\<lambda>_ _ n. (0, n)), ssl_handshake = (\<lambda>_ n. (0, n)),
     ssl_verify_result = (\<lambda>_ _. 0), ssl_strerror = (\<lambda>_. ''error''), ssl_read = (\<lambda>_. script_recv),
     ssl_write = (\<lambda>_ bs n. (int (length bs), n)), ssl_free = (\<lambda>_ n. n)\<rparr>"

end
