(* ===== verification/Gc_Tls.thy ===== *)
theory Gc_Tls
  imports Net_Ops
begin

text \<open>
  The TLS session layer (\<^verbatim>\<open>src/source/utils/gc_tls.c\<close>): the verification callback that forgives only
  certificate dates, the errno mapping of the BIO callbacks, the bounded handshake loop and the
  I/O wrapper. mbedTLS itself and \<open>prepare\<close> (seed rolling and CA loading on the SD card) are fields
  of \<open>net_ops\<close>.
\<close>

section \<open>Definitions\<close>

abbreviation SSL_WANT_READ :: int where "SSL_WANT_READ \<equiv> - 26880"
abbreviation SSL_WANT_WRITE :: int where "SSL_WANT_WRITE \<equiv> - 26752"
abbreviation SSL_PEER_CLOSE_NOTIFY :: int where "SSL_PEER_CLOSE_NOTIFY \<equiv> - 30848"
abbreviation SSL_INTERNAL_ERROR :: int where "SSL_INTERNAL_ERROR \<equiv> - 27648"
abbreviation X509_CERT_VERIFY_FAILED :: int where "X509_CERT_VERIFY_FAILED \<equiv> - 9984"
abbreviation X509_BADCERT_EXPIRED :: u32 where "X509_BADCERT_EXPIRED \<equiv> 0x01"
abbreviation X509_BADCERT_FUTURE :: u32 where "X509_BADCERT_FUTURE \<equiv> 0x0200"

definition verify_without_rtc :: "u32 \<Rightarrow> u32" where
  "verify_without_rtc flags = flags AND NOT (X509_BADCERT_EXPIRED OR X509_BADCERT_FUTURE)"

definition tls_send :: "int \<Rightarrow> int" where
  "tls_send r = (if r = - EAGAIN \<or> r = - EINTR then SSL_WANT_WRITE
     else if r < 0 then SSL_INTERNAL_ERROR else r)"

definition tls_recv :: "int \<Rightarrow> int" where
  "tls_recv r = (if r = - EAGAIN \<or> r = - EINTR then SSL_WANT_READ
     else if r < 0 then SSL_INTERNAL_ERROR else r)"

text \<open>The error text after the label \<open>failed\<close>.\<close>

definition tls_failure_text :: "('n, 'z) net_ops_scheme \<Rightarrow> int \<Rightarrow> int \<Rightarrow> 'n \<Rightarrow> string" where
  "tls_failure_text ops fd r n =
     (let flags = ssl_verify_result ops fd n
      in if flags \<noteq> 0 \<and> flags \<noteq> 0xFFFFFFFF
         then ''TLS certificate rejected (0x'' @ show_hexw 8 (unat flags) @ ''): check host and CA bundle''
         else ''TLS -0x'' @ show_hexw 4 (nat (- r)) @ '': '' @ c_trunc 160 (ssl_strerror ops r))"

definition gc_tls_close :: "('n, 'z) net_ops_scheme \<Rightarrow> int \<Rightarrow> 'n world \<Rightarrow> 'n world" where
  "gc_tls_close ops fd w = w\<lparr>net := ssl_free ops fd (net w)\<rparr>"

function tls_handshake_loop ::
  "('n, 'z) net_ops_scheme \<Rightarrow> int \<Rightarrow> 'n cancel_fn \<Rightarrow> nat \<Rightarrow> 'n world \<Rightarrow> string option \<times> 'n world" where
  "tls_handshake_loop ops fd cancel start w =
     (let (c, w1) = cancelled cancel w
      in if c then (Some ''Cancelled'', gc_tls_close ops fd w1)
         else let (r, n2) = ssl_handshake ops fd (net w1); w2 = w1\<lparr>net := n2\<rparr>
         in if r = 0 then
              (if ssl_verify_result ops fd n2 \<noteq> 0
               then (Some (tls_failure_text ops fd X509_CERT_VERIFY_FAILED n2), gc_tls_close ops fd w2)
               else (None, w2))
            else if r \<noteq> SSL_WANT_READ \<and> r \<noteq> SSL_WANT_WRITE
            then (Some (tls_failure_text ops fd r n2), gc_tls_close ops fd w2)
            else let (t, w3) = now_ms ops w2
            in if start + 25000 \<le> t then (Some ''TLS handshake timed out'', gc_tls_close ops fd w3)
               else tls_handshake_loop ops fd cancel start (usleep_ms 10 w3))"
  by pat_completeness auto
termination
proof (relation "measure (\<lambda>(ops, fd, cancel, start, w). start + 25000 - clock w)", goal_cases)
  case (2 ops fd cancel start w a c w1 b r n2 w2 d t w3)
  then have "clock w1 = clock w" "clock w2 = clock w1" "t = clock w3" "clock w2 \<le> clock w3"
    using cancelled_clock [of cancel w c w1] now_ms_clock [of ops w2 t w3] by auto
  with 2 show ?case by simp
qed simp

declare tls_handshake_loop.simps [simp del]

text \<open>\<open>None\<close> is an open session; \<open>Some\<close> the error text.\<close>

definition gc_tls_open ::
  "('n, 'z) net_ops_scheme \<Rightarrow> int \<Rightarrow> string \<Rightarrow> 'n cancel_fn \<Rightarrow> 'n world \<Rightarrow> string option \<times> 'n world" where
  "gc_tls_open ops fd hst cancel w =
     (let (p, n) = tls_prepare ops (net w); w1 = w\<lparr>net := n\<rparr>
      in case p of Some err \<Rightarrow> (Some err, w1)
         | None \<Rightarrow>
           let (r, n2) = ssl_setup ops fd hst (net w1); w2 = w1\<lparr>net := n2\<rparr>
           in if r \<noteq> 0 then (Some (tls_failure_text ops fd r n2), gc_tls_close ops fd w2)
              else let (start, w3) = now_ms ops w2 in tls_handshake_loop ops fd cancel start w3)"

text \<open>\<open>gc_tls_io\<close> on the return value of mbedTLS.\<close>

definition gc_tls_result :: "int \<Rightarrow> int" where
  "gc_tls_result r =
     (if r = SSL_WANT_READ \<or> r = SSL_WANT_WRITE then - EAGAIN
      else if r = SSL_PEER_CLOSE_NOTIFY then 0
      else if r < 0 then - EIO else r)"

definition gc_tls_io_read ::
  "('n, 'z) net_ops_scheme \<Rightarrow> int \<Rightarrow> nat \<Rightarrow> 'n \<Rightarrow> (int \<times> string) \<times> 'n" where
  "gc_tls_io_read ops fd len n =
     (let (a, n1) = ssl_read ops fd len n; (r, bs) = read_result len a in ((gc_tls_result r, bs), n1))"

definition gc_tls_io_write :: "('n, 'z) net_ops_scheme \<Rightarrow> int \<Rightarrow> string \<Rightarrow> 'n \<Rightarrow> int \<times> 'n" where
  "gc_tls_io_write ops fd bs n = (let (r, n1) = ssl_write ops fd bs n in (gc_tls_result (write_result bs r), n1))"

section \<open>Facts\<close>

lemma gc_tls_io_read_ok: "read_ok len (fst (gc_tls_io_read ops fd len n))"
  using read_result_ok [of len "fst (ssl_read ops fd len n)"]
  by (auto simp: gc_tls_io_read_def read_ok_def gc_tls_result_def split: prod.splits)

lemma gc_tls_io_write_le: "fst (gc_tls_io_write ops fd bs n) \<le> int (length bs)"
  using write_result_le [of bs "fst (ssl_write ops fd bs n)"]
  by (auto simp: gc_tls_io_write_def gc_tls_result_def split: prod.splits)

lemma tls_handshake_verified:
  "tls_handshake_loop ops fd cancel start w = (None, w1) \<Longrightarrow> ssl_verify_result ops fd (net w1) = 0"
proof (induction ops fd cancel start w arbitrary: w1 rule: tls_handshake_loop.induct)
  case (1 ops fd cancel start w)
  from "1.prems" show ?case
    by (subst (asm) tls_handshake_loop.simps) (auto simp: Let_def split: prod.splits if_splits intro: "1.IH")
qed

text \<open>
  Only the two date flags are ever forgiven: the callback clears exactly EXPIRED and FUTURE, so a
  certificate with any other verification error (unknown CA, bad signature, wrong name) keeps it and
  stays rejected.
\<close>

theorem tls_only_dates_forgiven:
  "bit (verify_without_rtc flags) i = (bit flags i \<and> i \<noteq> 0 \<and> i \<noteq> 9)"
proof -
  have m: "bit (f AND NOT (a OR b)) i = (bit f i \<and> \<not> bit a i \<and> \<not> bit b i)" for f a b :: u32
    using bit_imp_le_length [of f i] by (auto simp: bit_and_iff bit_or_iff bit_not_iff possible_bit_word)
  have "bit X509_BADCERT_EXPIRED i = (i = 0)" by (simp add: bit_1_iff)
  moreover have "i < 32 \<Longrightarrow> bit X509_BADCERT_FUTURE i = (i = 9)"
    using bit_exp_iff [of 9 i, where 'a = "32 word"] by (auto simp: possible_bit_word)
  ultimately show ?thesis
    using bit_imp_le_length [of flags i] unfolding verify_without_rtc_def m by auto
qed

text \<open>
  (C39) A TLS session is handed out only after mbedTLS reports a verification result of zero for it:
  whatever the peer, the handshake and the clock do, \<open>gc_tls_open\<close> returns a session only in a state
  where the certificate and host name are verified.
\<close>

theorem tls_open_verified:
  assumes "gc_tls_open ops fd hst cancel w = (None, w1)"
  shows "ssl_verify_result ops fd (net w1) = 0"
  using assms tls_handshake_verified
  by (fastforce simp: gc_tls_open_def Let_def split: prod.splits option.splits if_splits)

theorem tls_open_verified_witness:
  "gc_tls_open script_ops 5 ''nas'' None \<lparr>clock = 7, net = [''x''], dns = dns_start\<rparr> =
     (None, \<lparr>clock = 7, net = [''x''], dns = dns_start\<rparr>) \<and> ssl_verify_result script_ops 5 [''x''] = 0"
proof -
  have r: "gc_tls_open script_ops 5 ''nas'' None \<lparr>clock = 7, net = [''x''], dns = dns_start\<rparr> =
     (None, \<lparr>clock = 7, net = [''x''], dns = dns_start\<rparr>)"
    by code_simp
  from tls_open_verified [OF r] r show ?thesis by simp
qed

end
