(* ===== verification/Net_Transport.thy ===== *)
theory Net_Transport
  imports Gc_Tls
begin

text \<open>
  Bounded socket I/O (\<^verbatim>\<open>src/source/utils/net_transport.c\<close>): the connect loop with its eight-second
  deadline, the transfer loop with its fifteen-second deadline, and the life cycle of a connection,
  in plain TCP or TLS. \<open>track\<close> is a ghost layer that records which sockets and TLS sessions are open,
  for the statements on resource safety.
\<close>

section \<open>Definitions\<close>

record 'n gc_connection =
  conn_fd :: int
  conn_tls :: bool
  conn_cancel :: "'n cancel_fn"

definition net_close :: "('n, 'z) net_ops_scheme \<Rightarrow> int \<Rightarrow> 'n world \<Rightarrow> 'n world" where
  "net_close ops fd w = w\<lparr>net := sock_close ops fd (net w)\<rparr>"

text \<open>The loop of \<open>gc_net_connect_socket\<close>: 0 is a connected socket, otherwise the error.\<close>

function connect_loop ::
  "('n, 'z) net_ops_scheme \<Rightarrow> int \<Rightarrow> u32 \<Rightarrow> int \<Rightarrow> 'n cancel_fn \<Rightarrow> nat \<Rightarrow> 'n world \<Rightarrow> int \<times> 'n world" where
  "connect_loop ops fd ip port cancel deadline w =
     (let (r, n1) = net_connect ops fd ip port (net w); w1 = w\<lparr>net := n1\<rparr>
      in if r = 0 \<or> r = - EISCONN then (0, w1)
         else if r \<noteq> - EINPROGRESS \<and> r \<noteq> - EALREADY \<and> r \<noteq> - EAGAIN then (r, w1)
         else let (c, w2) = cancelled cancel w1
         in if c then (- ECANCELED, w2)
            else let (t, w3) = now_ms ops w2
            in if deadline \<le> t then (- ETIMEDOUT, w3)
               else connect_loop ops fd ip port cancel deadline (usleep_ms 20 w3))"
  by pat_completeness auto
termination
proof (relation "measure (\<lambda>(ops, fd, ip, port, cancel, deadline, w). deadline - clock w)", goal_cases)
  case (2 ops fd ip port cancel deadline w a r n1 w1 b c w2 d t w3)
  then have "clock w1 = clock w" "clock w2 = clock w1" "t = clock w3" "clock w2 \<le> clock w3"
    using cancelled_clock [of cancel w1 c w2] now_ms_clock [of ops w2 t w3] by auto
  with 2 show ?case by simp
qed simp

declare connect_loop.simps [simp del]

text \<open>A positive or zero result is the connected descriptor.\<close>

definition gc_net_connect_socket ::
  "('n, 'z) net_ops_scheme \<Rightarrow> string \<Rightarrow> int \<Rightarrow> 'n cancel_fn \<Rightarrow> 'n world \<Rightarrow> int \<times> 'n world" where
  "gc_net_connect_socket ops hst port cancel w =
     (if port < 1 \<or> port > 65535 then (- EINVAL, w)
      else let (a, d1, n1) = dns_resolve ops hst (dns w) (net w); w1 = w\<lparr>net := n1, dns := d1\<rparr>
      in case a of None \<Rightarrow> (- EHOSTUNREACH, w1)
         | Some ip \<Rightarrow>
           if ip = 0 then (- EHOSTUNREACH, w1)
           else let (c, w2) = cancelled cancel w1
           in if c then (- ECANCELED, w2)
              else let (fd, n3) = sock_socket ops (net w2); w3 = w2\<lparr>net := n3\<rparr>
              in if fd < 0 then (fd, w3)
                 else let (b, n4) = sock_nonblock ops fd (net w3); w4 = w3\<lparr>net := n4\<rparr>
                 in if b < 0 then (b, net_close ops fd w4)
                    else let (t, w5) = now_ms ops w4;
                             (r, w6) = connect_loop ops fd ip port cancel (t + 8000) w5
                    in if r = 0 then (fd, w6)
                       else let w7 = net_close ops fd w6 in (r, w7\<lparr>dns := dns_cache_flush (dns w7)\<rparr>))"

definition gc_net_close :: "('n, 'z) net_ops_scheme \<Rightarrow> 'n gc_connection \<Rightarrow> 'n world \<Rightarrow> 'n world" where
  "gc_net_close ops c w =
     (let w1 = if conn_tls c then gc_tls_close ops (conn_fd c) w else w
      in if conn_fd c \<ge> 0 then net_close ops (conn_fd c) w1 else w1)"

text \<open>A connection, or the error text.\<close>

definition gc_net_open ::
  "('n, 'z) net_ops_scheme \<Rightarrow> string \<Rightarrow> int \<Rightarrow> bool \<Rightarrow> 'n cancel_fn \<Rightarrow> 'n world
     \<Rightarrow> (string + 'n gc_connection) \<times> 'n world" where
  "gc_net_open ops hst port tls cancel w =
     (let (fd, w1) = gc_net_connect_socket ops hst port cancel w;
          c = \<lparr>conn_fd = fd, conn_tls = False, conn_cancel = cancel\<rparr>
      in if fd < 0 then (Inl (''Connection failed ('' @ show_int fd @ '')''), w1)
         else if tls then
           (case gc_tls_open ops fd hst cancel w1 of
              (Some err, w2) \<Rightarrow> (Inl err, gc_net_close ops c w2)
            | (None, w2) \<Rightarrow> (Inr (c\<lparr>conn_tls := True\<rparr>), w2))
         else (Inr c, w1))"

text \<open>The loop of \<open>transfer\<close>; \<open>io\<close> is the one non-blocking call it repeats.\<close>

function transfer_loop ::
  "('n, 'z) net_ops_scheme \<Rightarrow> 'n cancel_fn \<Rightarrow> ('n \<Rightarrow> (int \<times> string) \<times> 'n) \<Rightarrow> nat \<Rightarrow> 'n world
     \<Rightarrow> (int \<times> string) \<times> 'n world" where
  "transfer_loop ops cancel io deadline w =
     (let (c, w1) = cancelled cancel w
      in if c then ((- ECANCELED, []), w1)
         else let (a, n2) = io (net w1); w2 = w1\<lparr>net := n2\<rparr>
         in if fst a \<ge> 0 then (a, w2)
            else if fst a \<noteq> - EAGAIN \<and> fst a \<noteq> - EINTR then (a, w2)
            else let (t, w3) = now_ms ops w2
            in if deadline \<le> t then ((- ETIMEDOUT, []), w3)
               else transfer_loop ops cancel io deadline (usleep_ms 10 w3))"
  by pat_completeness auto
termination
proof (relation "measure (\<lambda>(ops, cancel, io, deadline, w). deadline - clock w)", goal_cases)
  case (2 ops cancel io deadline w e c w1 b a n2 w2 d t w3)
  then have "clock w1 = clock w" "clock w2 = clock w1" "t = clock w3" "clock w2 \<le> clock w3"
    using cancelled_clock [of cancel w c w1] now_ms_clock [of ops w2 t w3] by auto
  with 2 show ?case by simp
qed simp

declare transfer_loop.simps [simp del]

definition read_call :: "('n, 'z) net_ops_scheme \<Rightarrow> 'n gc_connection \<Rightarrow> nat \<Rightarrow> 'n \<Rightarrow> (int \<times> string) \<times> 'n" where
  "read_call ops c len n =
     (if conn_tls c then gc_tls_io_read ops (conn_fd c) len n else net_recv ops (conn_fd c) len n)"

definition write_call :: "('n, 'z) net_ops_scheme \<Rightarrow> 'n gc_connection \<Rightarrow> string \<Rightarrow> 'n \<Rightarrow> (int \<times> string) \<times> 'n" where
  "write_call ops c bs n =
     (let (r, n1) = if conn_tls c then gc_tls_io_write ops (conn_fd c) bs n else net_send ops (conn_fd c) bs n
      in ((r, []), n1))"

text \<open>\<open>transfer\<close> itself: the deadline is taken before the length is looked at.\<close>

definition transfer ::
  "('n, 'z) net_ops_scheme \<Rightarrow> 'n gc_connection \<Rightarrow> ('n \<Rightarrow> (int \<times> string) \<times> 'n) \<Rightarrow> int \<Rightarrow> 'n world
     \<Rightarrow> (int \<times> string) \<times> 'n world" where
  "transfer ops c io len w =
     (let (t, w1) = now_ms ops w
      in if len \<le> 0 then ((0, []), w1) else transfer_loop ops (conn_cancel c) io (t + 15000) w1)"

definition gc_net_read ::
  "('n, 'z) net_ops_scheme \<Rightarrow> 'n gc_connection \<Rightarrow> int \<Rightarrow> 'n world \<Rightarrow> (int \<times> string) \<times> 'n world" where
  "gc_net_read ops c len w = transfer ops c (read_call ops c (nat len)) len w"

definition gc_net_write ::
  "('n, 'z) net_ops_scheme \<Rightarrow> 'n gc_connection \<Rightarrow> string \<Rightarrow> 'n world \<Rightarrow> int \<times> 'n world" where
  "gc_net_write ops c bs w =
     (let (a, w1) = transfer ops c (write_call ops c bs) (int (length bs)) w in (fst a, w1))"

section \<open>Loop rules\<close>

text \<open>
  The two retry loops are treated like a while loop: a predicate that every call of the loop keeps
  holds when it ends, and the result comes from the last call or is one of the loop's own errors.
\<close>

definition kept :: "('n, 'z) net_ops_scheme \<Rightarrow> 'n cancel_fn \<Rightarrow> ('n world \<Rightarrow> bool) \<Rightarrow> bool" where
  "kept ops cancel I = ((\<forall>w. I w \<longrightarrow> I (snd (cancelled cancel w))) \<and>
     (\<forall>w. I w \<longrightarrow> I (snd (now_ms ops w))) \<and> (\<forall>w ms. I w \<longrightarrow> I (usleep_ms ms w)))"

lemma kept_True [simp]: "kept ops cancel (\<lambda>w. True)"
  by (simp add: kept_def)

lemma transfer_loop_rule:
  assumes "kept ops cancel I" and io: "\<And>w a n. I w \<Longrightarrow> io (net w) = (a, n) \<Longrightarrow> I (w\<lparr>net := n\<rparr>)"
  shows "transfer_loop ops cancel io deadline w = (a, w1) \<Longrightarrow> I w \<Longrightarrow> I w1 \<and>
    ((\<exists>n m. io n = (a, m) \<and> fst a \<noteq> - EAGAIN \<and> fst a \<noteq> - EINTR) \<or> a = (- ECANCELED, []) \<or> a = (- ETIMEDOUT, []))"
proof (induction "deadline - clock w" arbitrary: w rule: less_induct)
  case less
  obtain c w2 where c: "cancelled cancel w = (c, w2)" by fastforce
  obtain b n2 where b: "io (net w2) = (b, n2)" by fastforce
  obtain t w3 where t: "now_ms ops (w2\<lparr>net := n2\<rparr>) = (t, w3)" by fastforce
  have "I w2" using assms(1) less.prems(2) c by (auto simp: kept_def dest!: spec [of _ w])
  with io b have n2: "I (w2\<lparr>net := n2\<rparr>)" by blast
  then have w3: "I w3" using assms(1) t by (force simp: kept_def)
  show ?case
  proof (cases "\<not> c \<and> (fst b = - EAGAIN \<or> fst b = - EINTR) \<and> \<not> deadline \<le> t")
    case True
    with less.prems c b t have "transfer_loop ops cancel io deadline (usleep_ms 10 w3) = (a, w1)"
      by (subst (asm) transfer_loop.simps) (auto simp: Let_def split: if_splits)
    moreover have "deadline - clock (usleep_ms 10 w3) < deadline - clock w"
      using cancelled_clock [OF c] now_ms_clock [OF t] True by auto
    moreover have "I (usleep_ms 10 w3)" using assms(1) w3 by (simp add: kept_def)
    ultimately show ?thesis using less.hyps by blast
  next
    case False
    from less.prems(1) show ?thesis
      using False c b t n2 w3 \<open>I w2\<close>
      by (subst (asm) transfer_loop.simps) (auto simp: Let_def split: if_splits)
  qed
qed

lemma connect_loop_rule:
  assumes "kept ops cancel I"
    and io: "\<And>w r n. I w \<Longrightarrow> net_connect ops fd ip port (net w) = (r, n) \<Longrightarrow> I (w\<lparr>net := n\<rparr>)"
  shows "connect_loop ops fd ip port cancel deadline w = (r, w1) \<Longrightarrow> I w \<Longrightarrow> I w1"
proof (induction "deadline - clock w" arbitrary: w rule: less_induct)
  case less
  obtain b n1 where b: "net_connect ops fd ip port (net w) = (b, n1)" by fastforce
  obtain c w2 where c: "cancelled cancel (w\<lparr>net := n1\<rparr>) = (c, w2)" by fastforce
  obtain t w3 where t: "now_ms ops w2 = (t, w3)" by fastforce
  have n1: "I (w\<lparr>net := n1\<rparr>)" using io b less.prems(2) by blast
  then have w2: "I w2" using assms(1) c by (force simp: kept_def)
  then have w3: "I w3" using assms(1) t by (force simp: kept_def)
  show ?case
  proof (cases "b \<noteq> 0 \<and> (b = - EINPROGRESS \<or> b = - EALREADY \<or> b = - EAGAIN) \<and> \<not> c \<and> \<not> deadline \<le> t")
    case True
    with less.prems c b t have "connect_loop ops fd ip port cancel deadline (usleep_ms 20 w3) = (r, w1)"
      by (subst (asm) connect_loop.simps) (auto simp: Let_def split: if_splits)
    moreover have "deadline - clock (usleep_ms 20 w3) < deadline - clock w"
      using cancelled_clock [OF c] now_ms_clock [OF t] True by auto
    moreover have "I (usleep_ms 20 w3)" using assms(1) w3 by (simp add: kept_def)
    ultimately show ?thesis using less.hyps by blast
  next
    case False
    from less.prems(1) show ?thesis
      using False c b t n1 w2 w3
      by (subst (asm) connect_loop.simps) (auto simp: Let_def split: if_splits)
  qed
qed

lemmas transfer_loop_result = transfer_loop_rule [where I = "\<lambda>w. True", simplified]

section \<open>Results of a transfer\<close>

lemma read_call_ok: "read_call ops c len n = (a, m) \<Longrightarrow> read_ok len a"
  using gc_tls_io_read_ok [of len ops "conn_fd c" n] net_recv_ok [of len ops "conn_fd c" n]
  by (simp add: read_call_def split: if_splits)

lemma write_call_le: "fst (fst (write_call ops c bs n)) \<le> int (length bs)"
  using gc_tls_io_write_le [of ops "conn_fd c" bs n] write_result_le [of bs]
  by (auto simp: write_call_def net_send_def split: prod.splits)

lemma transfer_result:
  assumes "transfer ops c io len w = (a, w1)"
  shows "(\<exists>n m. io n = (a, m) \<and> fst a \<noteq> - EAGAIN \<and> fst a \<noteq> - EINTR) \<or>
    a = (0, []) \<or> a = (- ECANCELED, []) \<or> a = (- ETIMEDOUT, [])"
  using assms
  by (cases "now_ms ops w") (auto simp: transfer_def split: if_splits dest!: transfer_loop_result)

lemma gc_net_read_ok: "read_ok (nat len) (fst (gc_net_read ops c len w))"
proof (cases "gc_net_read ops c len w")
  case (Pair a w1)
  from transfer_result [OF this [unfolded gc_net_read_def]] Pair show ?thesis
    by (auto simp: read_ok_def dest!: read_call_ok)
qed

lemma gc_net_write_le: "fst (gc_net_write ops c bs w) \<le> int (length bs)"
proof (cases "transfer ops c (write_call ops c bs) (int (length bs)) w")
  case (Pair a w1)
  with transfer_result [OF Pair] write_call_le [of ops c bs] show ?thesis
    by (auto simp: gc_net_write_def) (metis fst_conv)
qed

section \<open>The ghost layer of open resources\<close>

text \<open>
  \<open>track ops\<close> behaves as \<open>ops\<close> and keeps, beside its state, the descriptors of the open sockets and of
  the live TLS sessions.
\<close>

type_synonym 'n tracked = "'n \<times> int list \<times> int list"

definition lift_op :: "('n \<Rightarrow> 'a \<times> 'n) \<Rightarrow> 'n tracked \<Rightarrow> 'a \<times> 'n tracked" where
  "lift_op f s = (let (a, n) = f (fst s) in (a, (n, snd s)))"

definition op_open :: "('n \<Rightarrow> int \<times> 'n) \<Rightarrow> 'n tracked \<Rightarrow> int \<times> 'n tracked" where
  "op_open f s = (let (fd, n) = f (fst s)
     in (fd, (n, if fd < 0 then fst (snd s) else fd # fst (snd s), snd (snd s))))"

definition op_close :: "(int \<Rightarrow> 'n \<Rightarrow> 'n) \<Rightarrow> int \<Rightarrow> 'n tracked \<Rightarrow> 'n tracked" where
  "op_close f fd s = (f fd (fst s), remove1 fd (fst (snd s)), snd (snd s))"

definition track :: "('n, 'z) net_ops_scheme \<Rightarrow> 'n tracked net_ops" where
  "track ops = \<lparr>inet_aton = inet_aton ops, udp_socket = op_open (udp_socket ops),
     udp_sendto = (\<lambda>s ip q. lift_op (udp_sendto ops s ip q)), udp_select = (\<lambda>s. lift_op (udp_select ops s)),
     udp_recvfrom = (\<lambda>s. lift_op (udp_recvfrom ops s)), udp_close = op_close (udp_close ops),
     lag = lift_op (lag ops), sock_socket = op_open (sock_socket ops),
     sock_nonblock = (\<lambda>fd. lift_op (sock_nonblock ops fd)),
     sock_connect = (\<lambda>fd ip port. lift_op (sock_connect ops fd ip port)),
     sock_recv = (\<lambda>fd len. lift_op (sock_recv ops fd len)), sock_send = (\<lambda>fd bs. lift_op (sock_send ops fd bs)),
     sock_close = op_close (sock_close ops), tls_prepare = lift_op (tls_prepare ops),
     ssl_setup = (\<lambda>fd h s. let (r, n) = ssl_setup ops fd h (fst s) in (r, (n, fst (snd s), fd # snd (snd s)))),
     ssl_handshake = (\<lambda>fd. lift_op (ssl_handshake ops fd)),
     ssl_verify_result = (\<lambda>fd s. ssl_verify_result ops fd (fst s)), ssl_strerror = ssl_strerror ops,
     ssl_read = (\<lambda>fd len. lift_op (ssl_read ops fd len)), ssl_write = (\<lambda>fd bs. lift_op (ssl_write ops fd bs)),
     ssl_free = (\<lambda>fd s. (ssl_free ops fd (fst s), fst (snd s), remove1 fd (snd (snd s))))\<rparr>"

definition track_cancel :: "'n cancel_fn \<Rightarrow> 'n tracked cancel_fn" where
  "track_cancel c = map_option lift_op c"

abbreviation resources :: "'n tracked world \<Rightarrow> int list \<times> int list" where
  "resources w \<equiv> snd (net w)"

named_theorems track_simps

lemma lift_op_snd [track_simps]: "lift_op f s = (a, s1) \<Longrightarrow> snd s1 = snd s"
  by (auto simp: lift_op_def split: prod.splits)

lemma track_fields:
  "udp_socket (track ops) = op_open (udp_socket ops)" "udp_close (track ops) = op_close (udp_close ops)"
  "sock_socket (track ops) = op_open (sock_socket ops)" "sock_close (track ops) = op_close (sock_close ops)"
  "lag (track ops) = lift_op (lag ops)" "sock_nonblock (track ops) fd = lift_op (sock_nonblock ops fd)"
  "sock_connect (track ops) fd ip port = lift_op (sock_connect ops fd ip port)"
  "sock_recv (track ops) fd len = lift_op (sock_recv ops fd len)"
  "sock_send (track ops) fd bs = lift_op (sock_send ops fd bs)"
  "udp_sendto (track ops) fd ip q = lift_op (udp_sendto ops fd ip q)"
  "udp_select (track ops) fd = lift_op (udp_select ops fd)"
  "udp_recvfrom (track ops) fd = lift_op (udp_recvfrom ops fd)"
  "tls_prepare (track ops) = lift_op (tls_prepare ops)"
  "ssl_handshake (track ops) fd = lift_op (ssl_handshake ops fd)"
  "ssl_read (track ops) fd len = lift_op (ssl_read ops fd len)"
  "ssl_write (track ops) fd bs = lift_op (ssl_write ops fd bs)"
  "ssl_free (track ops) fd s = (ssl_free ops fd (fst s), fst (snd s), remove1 fd (snd (snd s)))"
  by (simp_all add: track_def)

lemma kept_resources: "kept (track ops) (track_cancel cancel) (\<lambda>w. resources w = R)"
  by (auto simp: kept_def cancelled_def track_cancel_def now_ms_def track_fields lift_op_def
        split: option.splits prod.splits)

lemma dns_try_resources: "dns_try (track ops) s server q i k n = (r, n1) \<Longrightarrow> snd n1 = snd n"
  by (induction k arbitrary: n)
     (auto simp: Let_def track_fields split: prod.splits if_splits sum.splits dest!: lift_op_snd)

lemma dns_resolve_resources: "dns_resolve (track ops) hst d n = (r, d1, n1) \<Longrightarrow> snd n1 = snd n"
  by (auto simp: dns_resolve_def dns_query_def Let_def track_fields op_open_def op_close_def
        split: prod.splits if_splits option.splits dest!: dns_try_resources)

lemma cancelled_resources: "cancelled (track_cancel c) w = (b, w1) \<Longrightarrow> resources w1 = resources w"
  using kept_resources [of undefined c "resources w"] by (auto simp: kept_def dest!: spec [of _ w])

lemma now_ms_resources: "now_ms (track ops) w = (t, w1) \<Longrightarrow> resources w1 = resources w"
  by (auto simp: now_ms_def track_fields split: prod.splits dest: lift_op_snd)

lemma connect_loop_resources:
  "connect_loop (track ops) fd ip port (track_cancel c) deadline w = (r, w1) \<Longrightarrow> resources w1 = resources w"
  by (erule connect_loop_rule [OF kept_resources, rotated])
     (auto simp: track_fields net_connect_def split: prod.splits dest: lift_op_snd)

lemma net_connect_le: "net_connect ops fd ip port n = (r, n1) \<Longrightarrow> r \<le> 0"
  by (auto simp: net_connect_def split: prod.splits)

lemma connect_loop_le: "connect_loop ops fd ip port cancel deadline w = (r, w1) \<Longrightarrow> r \<le> 0"
proof (induction "deadline - clock w" arbitrary: w rule: less_induct)
  case less
  obtain b n1 where b: "net_connect ops fd ip port (net w) = (b, n1)" by fastforce
  obtain c w2 where c: "cancelled cancel (w\<lparr>net := n1\<rparr>) = (c, w2)" by fastforce
  obtain t w3 where t: "now_ms ops w2 = (t, w3)" by fastforce
  have "\<not> deadline \<le> t \<Longrightarrow> deadline - clock (usleep_ms 20 w3) < deadline - clock w"
    using cancelled_clock [OF c] now_ms_clock [OF t] by auto
  with less.prems less.hyps [of "usleep_ms 20 w3"] c b t net_connect_le [OF b] show ?case
    by (subst (asm) connect_loop.simps) (auto simp: Let_def split: if_splits)
qed

lemma net_close_resources [simp]:
  "resources (net_close (track ops) fd w) = (remove1 fd (fst (resources w)), snd (resources w))"
  by (simp add: net_close_def track_fields op_close_def)

lemma tls_close_resources [simp]:
  "resources (gc_tls_close (track ops) fd w) = (fst (resources w), remove1 fd (snd (resources w)))"
  by (simp add: gc_tls_close_def track_fields)

lemma connect_socket_resources:
  assumes "gc_net_connect_socket (track ops) hst port (track_cancel c) w = (fd, w1)"
  shows "resources w1 = (if fd < 0 then fst (resources w) else fd # fst (resources w), snd (resources w))"
proof -
  obtain a d1 n1 where a: "dns_resolve (track ops) hst (dns w) (net w) = (a, d1, n1)" by (metis prod_cases3)
  then have "snd n1 = resources w" by (rule dns_resolve_resources)
  moreover obtain cc w2 where cc: "cancelled (track_cancel c) (w\<lparr>net := n1, dns := d1\<rparr>) = (cc, w2)" by fastforce
  moreover note cancelled_resources [OF cc]
  ultimately show ?thesis
    using assms a
    by (auto simp: gc_net_connect_socket_def Let_def track_fields op_open_def
          split: prod.splits if_splits option.splits
          dest!: now_ms_resources lift_op_snd dest: connect_loop_le connect_loop_resources)
qed

lemma tls_loop_resources:
  "tls_handshake_loop (track ops) fd (track_cancel c) start w = (e, w1) \<Longrightarrow>
   resources w1 = (fst (resources w), if e = None then snd (resources w) else remove1 fd (snd (resources w)))"
proof (induction "start + 25000 - clock w" arbitrary: w rule: less_induct)
  case less
  obtain b w2 where b: "cancelled (track_cancel c) w = (b, w2)" by fastforce
  obtain r n2 where r: "ssl_handshake (track ops) fd (net w2) = (r, n2)" by (metis surj_pair)
  obtain t w3 where t: "now_ms (track ops) (w2\<lparr>net := n2\<rparr>) = (t, w3)" by fastforce
  have "snd n2 = resources w2" using r by (simp add: track_fields lift_op_snd)
  then have res: "resources w2 = resources w" "snd n2 = resources w" "resources w3 = resources w"
    using cancelled_resources [OF b] now_ms_resources [OF t] by simp_all
  have "\<not> start + 25000 \<le> t \<Longrightarrow> start + 25000 - clock (usleep_ms 10 w3) < start + 25000 - clock w"
    using cancelled_clock [OF b] now_ms_clock [OF t] by auto
  with less.prems less.hyps [of "usleep_ms 10 w3"] b r t res show ?case
    by (subst (asm) tls_handshake_loop.simps) (auto simp: Let_def split: if_splits)
qed

lemma tls_open_resources:
  assumes "gc_tls_open (track ops) fd hst (track_cancel c) w = (e, w1)"
  shows "resources w1 = (fst (resources w), if e = None then fd # snd (resources w) else snd (resources w))"
proof -
  obtain p n where p: "tls_prepare (track ops) (net w) = (p, n)" by (metis surj_pair)
  then have "snd n = resources w" by (simp add: track_fields lift_op_snd)
  moreover obtain r n2 where r: "ssl_setup (track ops) fd hst n = (r, n2)" by (metis surj_pair)
  then have "snd n2 = (fst (snd n), fd # snd (snd n))" by (auto simp: track_def split: prod.splits)
  ultimately show ?thesis
    using assms p r
    by (auto simp: gc_tls_open_def Let_def split: prod.splits if_splits option.splits
          dest!: tls_loop_resources now_ms_resources)
qed

lemma net_open_resources:
  assumes "gc_net_open (track ops) hst port tls (track_cancel c) w = (r, w1)"
  shows "case r of Inl e \<Rightarrow> resources w1 = resources w
    | Inr k \<Rightarrow> conn_fd k \<ge> 0 \<and> conn_cancel k = track_cancel c \<and> conn_tls k = tls \<and>
        resources w1 = (conn_fd k # fst (resources w), if tls then conn_fd k # snd (resources w) else snd (resources w))"
  using assms
  by (auto simp: gc_net_open_def gc_net_close_def Let_def split: prod.splits if_splits option.splits
        dest!: connect_socket_resources tls_open_resources)

lemma net_close_releases:
  "conn_fd k \<ge> 0 \<Longrightarrow> resources (gc_net_close (track ops) k w) =
     (remove1 (conn_fd k) (fst (resources w)), if conn_tls k then remove1 (conn_fd k) (snd (resources w)) else snd (resources w))"
  by (auto simp: gc_net_close_def)

lemma read_call_resources: "read_call (track ops) c len n = (a, n1) \<Longrightarrow> snd n1 = snd n"
  by (auto simp: read_call_def gc_tls_io_read_def net_recv_def track_fields
        split: if_splits prod.splits dest: lift_op_snd)

lemma write_call_resources: "write_call (track ops) c bs n = (a, n1) \<Longrightarrow> snd n1 = snd n"
  by (auto simp: write_call_def gc_tls_io_write_def net_send_def track_fields Let_def
        split: if_splits prod.splits dest: lift_op_snd)

lemma transfer_resources:
  assumes "transfer (track ops) k io len w = (a, w1)" and "conn_cancel k = track_cancel c"
    and io: "\<And>n a m. io n = (a, m) \<Longrightarrow> snd m = snd n"
  shows "resources w1 = resources w"
proof -
  obtain t w2 where t: "now_ms (track ops) w = (t, w2)" by fastforce
  show ?thesis
  proof (cases "len \<le> 0")
    case False
    with assms(1,2) t have l: "transfer_loop (track ops) (track_cancel c) io (t + 15000) w2 = (a, w1)"
      by (simp add: transfer_def)
    have "resources w1 = resources w"
      using transfer_loop_rule [OF kept_resources _ l, of "resources w"] io now_ms_resources [OF t] by auto
    then show ?thesis .
  qed (use assms(1) t now_ms_resources [OF t] in \<open>auto simp: transfer_def\<close>)
qed

lemma net_read_resources:
  "gc_net_read (track ops) k len w = (a, w1) \<Longrightarrow> conn_cancel k = track_cancel c \<Longrightarrow> resources w1 = resources w"
  unfolding gc_net_read_def by (erule (1) transfer_resources) (rule read_call_resources)

lemma net_write_resources:
  "gc_net_write (track ops) k bs w = (r, w1) \<Longrightarrow> conn_cancel k = track_cancel c \<Longrightarrow> resources w1 = resources w"
  by (auto simp: gc_net_write_def split: prod.splits elim!: transfer_resources dest: write_call_resources)

section \<open>Properties\<close>

text \<open>
  A blocking read or write never leaks the non-blocking socket's retry codes to its caller and
  never waits past its deadline: it returns a result of one underlying call that is neither EAGAIN nor
  EINTR, or ECANCELED or ETIMEDOUT; a read stores no more than it was asked for and returns exactly
  the number of bytes it stored. The loop is total.
\<close>

theorem net_transfer_results:
  "read_ok (nat len) (fst (gc_net_read ops c len w)) \<and>
   fst (fst (gc_net_read ops c len w)) \<notin> {- EAGAIN, - EINTR} \<and>
   fst (gc_net_write ops c bs w) \<le> int (length bs) \<and>
   fst (gc_net_write ops c bs w) \<notin> {- EAGAIN, - EINTR}"
proof -
  obtain a w1 where r: "gc_net_read ops c len w = (a, w1)" by fastforce
  obtain b w2 where s: "transfer ops c (write_call ops c bs) (int (length bs)) w = (b, w2)" by fastforce
  have "fst a \<notin> {- EAGAIN, - EINTR}" using transfer_result [OF r [unfolded gc_net_read_def]] by auto
  moreover have "fst b \<notin> {- EAGAIN, - EINTR}" using transfer_result [OF s] by auto
  ultimately show ?thesis
    using gc_net_read_ok [of len ops c w] gc_net_write_le [of ops c bs w] r s by (simp add: gc_net_write_def)
qed

text \<open>
  (C21) Opening a connection never leaks: whatever the resolver, the socket calls, the handshake, the
  clock and the cancel callback do, a failed \<open>gc_net_open\<close> leaves exactly the sockets and TLS
  sessions open that were open before; a successful one adds its own socket (and, with TLS, its own
  session) and nothing else, and \<open>gc_net_close\<close> gives precisely those back.
\<close>

theorem net_open_no_leak:
  "case gc_net_open (track ops) hst port tls (track_cancel c) w of
     (Inl e, w1) \<Rightarrow> resources w1 = resources w
   | (Inr k, w1) \<Rightarrow> resources w1 =
         (conn_fd k # fst (resources w), if tls then conn_fd k # snd (resources w) else snd (resources w)) \<and>
       resources (gc_net_close (track ops) k w1) = resources w"
  using net_open_resources [of ops hst port tls c w]
  by (auto split: prod.splits sum.splits simp: net_close_releases prod_eq_iff)

end
