(* ===== verification/Byte_Source.thy ===== *)
theory Byte_Source
  imports Net_Ops
begin

text \<open>
  The interface between a byte stream and its readers. A source has a state and a read operation
  with C's convention (a count, the bytes stored, zero at the end); \<open>body b s\<close> says that in state \<open>s\<close> the
  bytes \<open>b\<close> are still to come. The law is that a read of positive length returns a non-empty prefix of
  them, of any length up to the one asked for, and only returns nothing at the end. The transport, the
  HTTP body, the audio of a radio stream and an open DAV file are sources.
\<close>

section \<open>Sequences of reads\<close>

fun read_seq :: "(int \<Rightarrow> 's \<Rightarrow> (int \<times> string) \<times> 's) \<Rightarrow> int list \<Rightarrow> 's \<Rightarrow> string \<times> 's" where
  "read_seq rd [] s = ([], s)"
| "read_seq rd (l # ls) s =
     (let ((n, bs), s1) = rd l s; (r, s2) = read_seq rd ls s1 in (bs @ r, s2))"

section \<open>The interface\<close>

locale byte_source =
  fixes rd :: "int \<Rightarrow> 's \<Rightarrow> (int \<times> string) \<times> 's"
    and body :: "string \<Rightarrow> 's \<Rightarrow> bool"
  assumes step: "body b s \<Longrightarrow> 0 < len \<Longrightarrow>
    \<exists>x b1 s1. b = x @ b1 \<and> rd len s = ((int (length x), x), s1) \<and> body b1 s1 \<and>
      int (length x) \<le> len \<and> (x = [] \<longrightarrow> b = [])"
begin

text \<open>Whatever the sizes of the reads, their results in order are the stream; enough reads end it.\<close>

lemma read_seq_prefix:
  "body b s \<Longrightarrow> \<forall>l\<in>set lens. 0 < l \<Longrightarrow> read_seq rd lens s = (x, s1) \<Longrightarrow>
   \<exists>b1. b = x @ b1 \<and> body b1 s1 \<and> (length b \<le> length lens \<longrightarrow> b1 = [])"
proof (induction lens arbitrary: b s x s1)
  case (Cons l ls)
  from Cons.prems have "0 < l" by simp
  from step [OF Cons.prems(1) this] obtain y b1 s2 where
    y: "b = y @ b1" "rd l s = ((int (length y), y), s2)" "body b1 s2" "y = [] \<longrightarrow> b = []"
    by blast
  obtain r s3 where r: "read_seq rd ls s2 = (r, s3)" by fastforce
  from Cons.IH [OF y(3) _ r] Cons.prems obtain b2 where
    b2: "b1 = r @ b2" "body b2 s3" "length b1 \<le> length ls \<longrightarrow> b2 = []"
    by auto
  have "length b \<le> length (l # ls) \<longrightarrow> b2 = []"
  proof (cases "y = []")
    case True
    with y b2(1) show ?thesis by simp
  next
    case False
    then show ?thesis using y(1) b2(3) by (cases y) auto
  qed
  moreover have "x = y @ r" "s1 = s3" using y(2) r Cons.prems(3) by simp_all
  ultimately show ?case using y(1) b2(1,2) by (intro exI [of _ b2]) simp
qed simp

lemma read_all:
  "body b s \<Longrightarrow> \<forall>l\<in>set lens. 0 < l \<Longrightarrow> length b \<le> length lens \<Longrightarrow> fst (read_seq rd lens s) = b"
  using read_seq_prefix [of b s lens "fst (read_seq rd lens s)" "snd (read_seq rd lens s)"] by auto

lemma at_end: "body [] s \<Longrightarrow> 0 < len \<Longrightarrow> \<exists>s1. rd len s = ((0, []), s1) \<and> body [] s1"
  using step [of "[]" s len] by auto

end

end
