(* ===== verification/Http_Client.thy ===== *)
theory Http_Client
  imports Http_Url Net_Transport Byte_Source
begin

text \<open>
  HTTP/1.1 framing (\<^verbatim>\<open>src/source/utils/http_client.c\<close>, \<^verbatim>\<open>http_client.h\<close>): buffered input, header
  lines, the response headers, requests with bounded redirects, and body reads in the three framings
  (chunked, Content-Length, until close). \<open>h_fault\<close> is a ghost flag, set where the C code would
  dereference a null connection; a theorem below shows that it never is after \<open>gc_http_open\<close>.
  Memory allocation succeeds.
\<close>

section \<open>Definitions\<close>

abbreviation GC_HTTP_URL_MAX :: nat where "GC_HTTP_URL_MAX \<equiv> 2304"

record 'n gc_http =
  h_conn :: "'n gc_connection option"
  h_url :: string
  h_error :: string
  h_location :: string
  h_content_type :: string
  h_icy_name :: string
  h_status :: int
  h_chunked :: bool
  h_eof :: bool
  h_failed :: bool
  h_icy_interval :: int
  h_length :: int
  h_remaining :: int
  h_range_start :: int
  h_range_end :: int
  h_total :: int
  h_chunk_left :: int
  h_buffer :: string
  h_begin :: nat
  h_end :: nat
  h_chunk_crlf :: bool
  h_fault :: bool

text \<open>\<open>memset(h, 0, sizeof(*h))\<close>.\<close>

definition http_zero :: "'n gc_http" where
  "http_zero = \<lparr>h_conn = None, h_url = [], h_error = [], h_location = [], h_content_type = [], h_icy_name = [],
     h_status = 0, h_chunked = False, h_eof = False, h_failed = False, h_icy_interval = 0, h_length = 0,
     h_remaining = 0, h_range_start = 0, h_range_end = 0, h_total = 0, h_chunk_left = 0, h_buffer = [],
     h_begin = 0, h_end = 0, h_chunk_crlf = False, h_fault = False\<rparr>"

definition fail :: "'n gc_http \<Rightarrow> string \<Rightarrow> 'n gc_http" where
  "fail h msg = h\<lparr>h_error := c_trunc 160 msg, h_failed := True\<rparr>"

subsection \<open>Input\<close>

definition raw_read ::
  "('n, 'z) net_ops_scheme \<Rightarrow> 'n gc_http \<Rightarrow> int \<Rightarrow> 'n world \<Rightarrow> (int \<times> string) \<times> 'n gc_http \<times> 'n world" where
  "raw_read ops h len w =
     (let take_from = (\<lambda>h w. let n = min (nat len) (h_end h - h_begin h)
             in ((int n, take n (drop (h_begin h) (h_buffer h))), h\<lparr>h_begin := h_begin h + n\<rparr>, w))
      in if h_begin h = h_end h then
           (case h_conn h of
              None \<Rightarrow> ((- 1, []), h\<lparr>h_fault := True\<rparr>, w)
            | Some c \<Rightarrow>
                let ((n, bs), w1) = gc_net_read ops c 4096 w
                in if n < 0
                   then ((- 1, []), fail h (if n = - ECANCELED then ''Cancelled'' else ''Network read failed or timed out''), w1)
                   else if n = 0 then ((0, []), h, w1)
                   else take_from (h\<lparr>h_buffer := bs, h_begin := 0, h_end := nat n\<rparr>) w1)
         else take_from h w)"

text \<open>The loop of \<open>line\<close>: \<open>k\<close> is the room left (\<open>cap - 1 - n\<close>), \<open>acc\<close> the bytes stored so far, last first.\<close>

fun line_loop ::
  "('n, 'z) net_ops_scheme \<Rightarrow> nat \<Rightarrow> string \<Rightarrow> 'n gc_http \<Rightarrow> 'n world \<Rightarrow> (int \<times> string) \<times> 'n gc_http \<times> 'n world" where
  "line_loop ops 0 acc h w = ((- 1, []), fail h ''HTTP line is too long'', w)"
| "line_loop ops (Suc k) acc h w =
     (let ((n, bs), h1, w1) = raw_read ops h 1 w
      in if n \<noteq> 1 then ((- 1, []), fail h1 ''Truncated HTTP line'', w1)
         else let c = hd bs
         in if c = CHR 0x0A then
              (if acc = [] \<or> hd acc \<noteq> CHR 0x0D then ((- 1, []), fail h1 ''Invalid HTTP line ending'', w1)
               else ((int (length acc), rev (tl acc)), h1, w1))
            else if c = CHR 0x00 then ((- 1, []), fail h1 ''Invalid HTTP header byte'', w1)
            else line_loop ops k (c # acc) h1 w1)"

definition line ::
  "('n, 'z) net_ops_scheme \<Rightarrow> 'n gc_http \<Rightarrow> nat \<Rightarrow> 'n world \<Rightarrow> (int \<times> string) \<times> 'n gc_http \<times> 'n world" where
  "line ops h cap w = line_loop ops (cap - 1) [] h w"

text \<open>The decimal \<open>integer\<close> of a header value.\<close>

definition integer :: "string \<Rightarrow> int option" where
  "integer s =
     (if s = [] \<or> \<not> c_isdigit (hd s) then None
      else let (n, erange, rest) = c_strtol int64_min int64_max s
           in if erange \<or> rest \<noteq> [] \<or> n < 0 then None else Some n)"

subsection \<open>Response headers\<close>

text \<open>The conversions of \<open>sscanf\<close> that the header code uses.\<close>

definition scan_int :: "int \<Rightarrow> int \<Rightarrow> string \<Rightarrow> (int \<times> string) option" where
  "scan_int lo hi s = (let (n, erange, rest) = c_strtol lo hi s in if rest = s then None else Some (n, rest))"

definition scan_lit :: "string \<Rightarrow> string \<Rightarrow> string option" where
  "scan_lit p s = (if take (length p) s = p then Some (drop (length p) s) else None)"

definition scan_status :: "string \<Rightarrow> int option" where
  "scan_status s =
     (case scan_lit ''HTTP/1.'' s of
        Some r \<Rightarrow>
          (case scan_int int32_min int32_max r of
             Some (v, r2) \<Rightarrow> map_option fst (scan_int int32_min int32_max r2)
           | None \<Rightarrow> None)
      | None \<Rightarrow> (case scan_lit ''ICY'' s of Some r \<Rightarrow> map_option fst (scan_int int32_min int32_max r) | None \<Rightarrow> None))"

definition scan_range :: "string \<Rightarrow> (int \<times> int \<times> int) option" where
  "scan_range v =
     (case scan_lit ''bytes'' v of None \<Rightarrow> None | Some r1 \<Rightarrow>
      (case scan_int int64_min int64_max r1 of None \<Rightarrow> None | Some (a, r2) \<Rightarrow>
      (case scan_lit ''-'' r2 of None \<Rightarrow> None | Some r3 \<Rightarrow>
      (case scan_int int64_min int64_max r3 of None \<Rightarrow> None | Some (b, r4) \<Rightarrow>
      (case scan_lit ''/'' r4 of None \<Rightarrow> None | Some r5 \<Rightarrow>
      (case scan_int int64_min int64_max r5 of None \<Rightarrow> None | Some (tot, r6) \<Rightarrow>
       if r6 \<noteq> [] then None else Some (a, b, tot)))))))"

definition is_blank :: "char \<Rightarrow> bool" where
  "is_blank c = (c = CHR '' '' \<or> c = CHR 0x09)"

definition trim_value :: "string \<Rightarrow> string" where
  "trim_value v = rev (dropWhile is_blank (rev (dropWhile is_blank v)))"

text \<open>One header field; \<open>Inl\<close> is the error that ends the parsing.\<close>

definition header_field :: "string \<Rightarrow> string \<Rightarrow> 'n gc_http \<Rightarrow> string + 'n gc_http" where
  "header_field name v h =
     (if c_strcasecmp name ''Content-Length'' then
        (case integer v of None \<Rightarrow> Inl ''Invalid Content-Length''
         | Some n \<Rightarrow> if h_length h \<ge> 0 \<and> h_length h \<noteq> n then Inl ''Invalid Content-Length'' else Inr (h\<lparr>h_length := n\<rparr>))
      else if c_strcasecmp name ''Transfer-Encoding'' then
        (if \<not> c_strcasecmp v ''chunked'' then Inl ''Unsupported Transfer-Encoding'' else Inr (h\<lparr>h_chunked := True\<rparr>))
      else if c_strcasecmp name ''Content-Encoding'' then
        (if \<not> c_strcasecmp v ''identity'' then Inl ''Compressed HTTP bodies are unsupported'' else Inr h)
      else if c_strcasecmp name ''Location'' then
        (if length v \<ge> GC_HTTP_URL_MAX then Inl ''Redirect URL is too long'' else Inr (h\<lparr>h_location := v\<rparr>))
      else if c_strcasecmp name ''Content-Type'' then Inr (h\<lparr>h_content_type := c_trunc 128 v\<rparr>)
      else if c_strcasecmp name ''icy-name'' then Inr (h\<lparr>h_icy_name := c_trunc 128 v\<rparr>)
      else if c_strcasecmp name ''icy-metaint'' then
        (case integer v of None \<Rightarrow> Inl ''Invalid ICY interval''
         | Some n \<Rightarrow> if n < 1 \<or> n > int32_max then Inl ''Invalid ICY interval'' else Inr (h\<lparr>h_icy_interval := n\<rparr>))
      else if c_strcasecmp name ''Content-Range'' then
        (case scan_range v of None \<Rightarrow> Inl ''Invalid Content-Range''
         | Some (a, b, tot) \<Rightarrow>
             if a < 0 \<or> b < a \<or> tot \<le> b then Inl ''Invalid Content-Range''
             else Inr (h\<lparr>h_range_start := a, h_range_end := b, h_total := tot\<rparr>))
      else Inr h)"

text \<open>The field loop; the boolean is success. \<open>bytes\<close> counts what the lines used.\<close>

function headers_loop ::
  "('n, 'z) net_ops_scheme \<Rightarrow> int \<Rightarrow> 'n gc_http \<Rightarrow> 'n world \<Rightarrow> bool \<times> 'n gc_http \<times> 'n world" where
  "headers_loop ops bytes h w =
     (let ((n, buf), h1, w1) = line ops h 4096 w
      in if n < 0 then (False, h1, w1)
         else if n \<le> 1 then
           (if h_chunked h1 \<and> h_length h1 \<ge> 0 then (False, fail h1 ''Ambiguous HTTP body framing'', w1)
            else (True, h1\<lparr>h_remaining := h_length h1\<rparr>, w1))
         else if bytes + n > 16384 \<or> CHR '':'' \<notin> set buf
         then (False, fail h1 ''Invalid or oversized HTTP headers'', w1)
         else case header_field (c_before CHR '':'' buf) (trim_value (tl (c_from CHR '':'' buf))) h1 of
                Inl err \<Rightarrow> (False, fail h1 err, w1)
              | Inr h2 \<Rightarrow> headers_loop ops (bytes + n) h2 w1)"
  by pat_completeness auto
termination by (relation "measure (\<lambda>(ops, bytes, h, w). nat (16385 - bytes))") auto

declare headers_loop.simps [simp del]

definition headers ::
  "('n, 'z) net_ops_scheme \<Rightarrow> 'n gc_http \<Rightarrow> 'n world \<Rightarrow> bool \<times> 'n gc_http \<times> 'n world" where
  "headers ops h w =
     (let ((n, buf), h1, w1) = line ops h 4096 w
      in if n < 0 then (False, h1, w1)
         else case scan_status buf of
                None \<Rightarrow> (False, fail h1 ''Invalid HTTP status line'', w1)
              | Some st \<Rightarrow> headers_loop ops 0 (h1\<lparr>h_status := st\<rparr>) w1)"

subsection \<open>Requests\<close>

definition gc_http_close :: "('n, 'z) net_ops_scheme \<Rightarrow> 'n gc_http \<Rightarrow> 'n world \<Rightarrow> 'n gc_http \<times> 'n world" where
  "gc_http_close ops h w =
     (h\<lparr>h_conn := None\<rparr>, case h_conn h of None \<Rightarrow> w | Some c \<Rightarrow> gc_net_close ops c w)"

function send_all ::
  "('n, 'z) net_ops_scheme \<Rightarrow> 'n gc_http \<Rightarrow> string \<Rightarrow> 'n world \<Rightarrow> bool \<times> 'n gc_http \<times> 'n world" where
  "send_all ops h p w =
     (if p = [] then (True, h, w)
      else case h_conn h of
        None \<Rightarrow> (False, h\<lparr>h_fault := True\<rparr>, w)
      | Some c \<Rightarrow>
          let (n, w1) = gc_net_write ops c p w
          in if n \<le> 0 then (False, fail h ''Network write failed or timed out'', w1)
             else send_all ops h (drop (nat n) p) w1)"
  by pat_completeness auto
termination by (relation "measure (\<lambda>(ops, h, p, w). length p)") auto

declare send_all.simps [simp del]

definition crlf :: string where
  "crlf = [CHR 0x0D, CHR 0x0A]"

record http_args =
  a_method :: string
  a_auth :: "string option"
  a_body :: "string option"
  a_depth :: int
  a_offset :: int
  a_icy :: bool

definition with_auth :: "http_args \<Rightarrow> bool" where
  "with_auth a = (case a_auth a of None \<Rightarrow> False | Some s \<Rightarrow> s \<noteq> [])"

definition extra_fields :: "http_args \<Rightarrow> string" where
  "extra_fields a =
     (if a_offset a \<ge> 0 then c_trunc 128 (''Range: bytes='' @ show_int (a_offset a) @ ''-'' @ crlf) else []) @
     (if a_icy a then ''Icy-MetaData: 1'' @ crlf else []) @
     (if a_depth a \<ge> 0
      then c_trunc 128 (''Depth: '' @ show_int (a_depth a) @ crlf @ ''Content-Type: application/xml; charset=utf-8'' @ crlf)
      else []) @
     (if with_auth a then ''Authorization: Basic '' @ the (a_auth a) @ crlf else []) @
     (case a_body a of None \<Rightarrow> [] | Some b \<Rightarrow> c_trunc 128 (''Content-Length: '' @ show_nat (length b) @ crlf))"

definition http_request :: "http_args \<Rightarrow> gc_http_url \<Rightarrow> string" where
  "http_request a u =
     a_method a @ '' '' @ path u @ '' HTTP/1.1'' @ crlf @ ''Host: '' @ host u @ '':'' @ show_int (port u) @ crlf @
     ''User-Agent: WiiMC-GCN-Online'' @ crlf @ ''Accept: */*'' @ crlf @ ''Accept-Encoding: identity'' @ crlf @
     ''Connection: close'' @ crlf @ extra_fields a @ crlf"

definition is_redirect :: "int \<Rightarrow> bool" where
  "is_redirect st = (st \<in> {301, 302, 303, 307, 308})"

text \<open>The redirect that is refused: a TLS downgrade, or another origin when credentials are sent.\<close>

definition unsafe_redirect :: "http_args \<Rightarrow> gc_http_url \<Rightarrow> gc_http_url \<Rightarrow> bool" where
  "unsafe_redirect a u v =
     ((tls u \<and> \<not> tls v) \<or>
      (with_auth a \<and> (tls u \<noteq> tls v \<or> port u \<noteq> port v \<or> \<not> c_strcasecmp (host u) (host v))))"

text \<open>The status checks after the headers; \<open>None\<close> accepts the response.\<close>

definition response_error :: "http_args \<Rightarrow> 'n gc_http \<Rightarrow> string option" where
  "response_error a h =
     (if h_status h < 200 \<or> h_status h \<ge> 300
      then Some (''HTTP '' @ show_int (h_status h) @ (if h_status h = 401 then '' - check WebDAV credentials'' else []))
      else if h_status h = 206 \<and> (a_offset a < 0 \<or> h_range_start h \<noteq> a_offset a \<or> h_range_end h < 0 \<or>
                (h_length h \<ge> 0 \<and> h_length h \<noteq> h_range_end h - h_range_start h + 1))
      then Some ''Server returned an invalid byte range''
      else if a_offset a > 0 \<and> h_status h \<noteq> 206 then Some ''Server ignored the requested byte range''
      else None)"

text \<open>The client at the start of each turn of the loop.\<close>

definition http_start :: "string \<Rightarrow> 'n gc_http" where
  "http_start current = http_zero\<lparr>h_length := - 1, h_remaining := - 1, h_total := - 1, h_range_start := - 1,
     h_range_end := - 1, h_url := current\<rparr>"

text \<open>The exchange on one connection: the request, its body and the response headers.\<close>

definition http_exchange ::
  "('n, 'z) net_ops_scheme \<Rightarrow> http_args \<Rightarrow> gc_http_url \<Rightarrow> 'n gc_http \<Rightarrow> 'n world \<Rightarrow> bool \<times> 'n gc_http \<times> 'n world" where
  "http_exchange ops a u h1 w1 =
     (let (ok2, h2, w2) = send_all ops h1 (http_request a u) w1
      in if \<not> ok2 then (False, h2, w2)
         else let (ok3, h3, w3) = (case a_body a of None \<Rightarrow> (True, h2, w2) | Some b \<Rightarrow> send_all ops h2 b w2)
         in if \<not> ok3 then (False, h3, w3) else headers ops h3 w3)"

text \<open>
  The redirect loop; \<open>k\<close> is \<open>5 - redirects\<close>. \<open>False\<close> is a \<open>break\<close> with \<open>ret\<close> still \<open>-1\<close>.
\<close>

fun open_loop ::
  "('n, 'z) net_ops_scheme \<Rightarrow> http_args \<Rightarrow> 'n cancel_fn \<Rightarrow> nat \<Rightarrow> string \<Rightarrow> 'n world \<Rightarrow> bool \<times> 'n gc_http \<times> 'n world" where
  "open_loop ops a cancel k cur w =
     (case gc_http_parse_url cur of None \<Rightarrow> (False, fail (http_start cur) ''Invalid redirect URL'', w)
      | Some u \<Rightarrow>
        (case gc_net_open ops (host u) (port u) (tls u) cancel w of
           (Inl err, w1) \<Rightarrow> (False, (http_start cur)\<lparr>h_error := c_trunc 160 err, h_failed := True\<rparr>, w1)
         | (Inr c, w1) \<Rightarrow>
             let h1 = (http_start cur)\<lparr>h_conn := Some c\<rparr>
             in if with_auth a \<and> length (the (a_auth a)) > 1024 then (False, fail h1 ''Authorization is too long'', w1)
                else if length (http_request a u) \<ge> 8192 then (False, fail h1 ''Request too large'', w1)
                else let (ok4, h4, w4) = http_exchange ops a u h1 w1
                in if \<not> ok4 then (False, h4, w4)
                   else if is_redirect (h_status h4) then
                     (if k = 0 then (False, fail h4 ''Too many HTTP redirects'', w4)
                      else case gc_http_resolve_url cur (h_location h4) GC_HTTP_URL_MAX of
                             None \<Rightarrow> (False, fail h4 ''Invalid redirect'', w4)
                           | Some nxt \<Rightarrow>
                             (case gc_http_parse_url nxt of None \<Rightarrow> (False, fail h4 ''Invalid redirect'', w4)
                              | Some v \<Rightarrow>
                                  if unsafe_redirect a u v then (False, fail h4 ''Unsafe HTTP redirect refused'', w4)
                                  else if h_status h4 = 303 \<and> a_method a \<noteq> ''GET''
                                  then (False, fail h4 ''PROPFIND redirected to GET'', w4)
                                  else open_loop ops a cancel (k - 1) nxt (snd (gc_http_close ops h4 w4))))
                   else case response_error a h4 of
                          Some err \<Rightarrow> (False, fail h4 err, w4)
                        | None \<Rightarrow> (True, h4\<lparr>h_eof := h_status h4 = 204\<rparr>, w4)))"

declare open_loop.simps [simp del]

definition gc_http_open ::
  "('n, 'z) net_ops_scheme \<Rightarrow> string \<Rightarrow> http_args \<Rightarrow> 'n cancel_fn \<Rightarrow> 'n world \<Rightarrow> bool \<times> 'n gc_http \<times> 'n world" where
  "gc_http_open ops url a cancel w =
     (let refuse = (\<lambda>msg. (False, fail http_zero msg, w))
      in if length url \<ge> GC_HTTP_URL_MAX then refuse ''Invalid HTTP URL or request''
         else case gc_http_parse_url url of None \<Rightarrow> refuse ''Invalid HTTP URL or request''
         | Some u \<Rightarrow>
           if (a_method a \<noteq> ''GET'' \<and> a_method a \<noteq> ''PROPFIND'') \<or> (case a_auth a of None \<Rightarrow> False | Some s \<Rightarrow> \<not> safe_text s)
           then refuse ''Invalid HTTP URL or request''
           else if tls u \<and> with_auth a then refuse ''HTTPS credentials are unsupported''
           else let (ok, h, w1) = open_loop ops a cancel 5 url w
                in if ok then (True, h, w1) else let (h2, w2) = gc_http_close ops h w1 in (False, h2, w2))"

subsection \<open>Reading the body\<close>

text \<open>\<open>strtoull(text, &end, 16)\<close> on a text that starts with a hexadecimal digit: value, ERANGE, rest.\<close>

definition hex_val :: "string \<Rightarrow> nat" where
  "hex_val ds = foldl (\<lambda>v c. 16 * v + (case hexval c of Some d \<Rightarrow> d | None \<Rightarrow> 0)) 0 ds"

definition c_strtoull16 :: "string \<Rightarrow> nat \<times> bool \<times> string" where
  "c_strtoull16 s =
     (let t = if length s > 2 \<and> hd s = CHR ''0'' \<and> (s ! 1 = CHR ''x'' \<or> s ! 1 = CHR ''X'') \<and> c_isxdigit (s ! 2)
              then drop 2 s else s;
          v = hex_val (takeWhile c_isxdigit t)
      in (min v (2 ^ 64 - 1), v \<ge> 2 ^ 64, dropWhile c_isxdigit t))"

text \<open>The trailer loop after the last chunk; \<open>tot\<close> counts what the lines used.\<close>

function trailers_loop ::
  "('n, 'z) net_ops_scheme \<Rightarrow> int \<Rightarrow> 'n gc_http \<Rightarrow> 'n world \<Rightarrow> bool \<times> 'n gc_http \<times> 'n world" where
  "trailers_loop ops tot h w =
     (let ((n, text), h1, w1) = line ops h 256 w
      in if n < 0 \<or> tot + n > 16384 then (False, fail h1 ''Invalid HTTP trailers'', w1)
         else if n > 1 then trailers_loop ops (tot + n) h1 w1
         else (True, h1, w1))"
  by pat_completeness auto
termination by (relation "measure (\<lambda>(ops, tot, h, w). nat (16385 - tot))") auto

declare trailers_loop.simps [simp del]

text \<open>The chunk-size line; \<open>None\<close> is a failed read.\<close>

definition chunk_size :: "string \<Rightarrow> nat option" where
  "chunk_size text =
     (if text = [] \<or> \<not> c_isxdigit (hd text) then None
      else let (sz, erange, rest) = c_strtoull16 text
           in if erange \<or> int sz > int64_max \<or> (rest \<noteq> [] \<and> hd rest \<noteq> CHR '';'') then None else Some sz)"

definition next_chunk ::
  "('n, 'z) net_ops_scheme \<Rightarrow> 'n gc_http \<Rightarrow> 'n world \<Rightarrow> bool \<times> 'n gc_http \<times> 'n world" where
  "next_chunk ops h w =
     (let (ok1, h1, w1) = (if h_chunk_crlf h
             then let ((n, text), h1, w1) = line ops h 256 w in (n = 1, h1, w1) else (True, h, w))
      in if \<not> ok1 then (False, fail h1 ''Invalid chunk boundary'', w1)
         else let ((n, text), h2, w2) = line ops h1 256 w1
         in if n < 0 then (False, h2, w2)
            else case chunk_size text of
                   None \<Rightarrow> (False, fail h2 ''Invalid chunk size'', w2)
                 | Some sz \<Rightarrow>
                     let h3 = h2\<lparr>h_chunk_left := int sz, h_chunk_crlf := True\<rparr>
                     in if sz \<noteq> 0 then (True, h3, w2)
                        else let (ok4, h4, w4) = trailers_loop ops 0 h3 w2
                             in if ok4 then (True, h4\<lparr>h_eof := True\<rparr>, w4) else (False, h4, w4))"

text \<open>The end of \<open>gc_http_read\<close>: the bytes themselves and the counters.\<close>

definition read_body ::
  "('n, 'z) net_ops_scheme \<Rightarrow> 'n gc_http \<Rightarrow> int \<Rightarrow> 'n world \<Rightarrow> (int \<times> string) \<times> 'n gc_http \<times> 'n world" where
  "read_body ops h len w =
     (let ((n, bs), h1, w1) = raw_read ops h len w
      in if n < 0 then ((n, []), h1, w1)
         else if n = 0 \<and> (h_chunked h1 \<or> h_remaining h1 > 0) then ((- 1, []), fail h1 ''Truncated HTTP body'', w1)
         else let h2 = if n = 0 then h1\<lparr>h_eof := True\<rparr> else h1
              in ((n, bs),
                  if h_chunked h2 then h2\<lparr>h_chunk_left := h_chunk_left h2 - n\<rparr>
                  else if h_remaining h2 \<ge> 0 then h2\<lparr>h_remaining := h_remaining h2 - n\<rparr> else h2, w1))"

definition gc_http_read ::
  "('n, 'z) net_ops_scheme \<Rightarrow> 'n gc_http \<Rightarrow> int \<Rightarrow> 'n world \<Rightarrow> (int \<times> string) \<times> 'n gc_http \<times> 'n world" where
  "gc_http_read ops h len w =
     (if h_failed h then ((- 1, []), h, w)
      else if h_eof h \<or> len \<le> 0 then ((0, []), h, w)
      else if h_chunked h then
        (let (ok, h1, w1) = (if h_chunk_left h = 0 then next_chunk ops h w else (True, h, w))
         in if \<not> ok then ((- 1, []), h1, w1)
            else if h_eof h1 then ((0, []), h1, w1)
            else read_body ops h1 (min len (h_chunk_left h1)) w1)
      else if h_remaining h \<ge> 0 then
        (if h_remaining h = 0 then ((0, []), h\<lparr>h_eof := True\<rparr>, w)
         else read_body ops h (min len (h_remaining h)) w)
      else read_body ops h len w)"

section \<open>Frame\<close>

text \<open>Reading changes only the input buffer and the error fields.\<close>

definition strip :: "'n gc_http \<Rightarrow> 'n gc_http" where
  "strip h = h\<lparr>h_buffer := [], h_begin := 0, h_end := 0, h_error := [], h_failed := False, h_fault := False\<rparr>"

lemma strip_fields:
  assumes "strip h1 = strip h"
  shows "h_conn h1 = h_conn h" "h_chunked h1 = h_chunked h" "h_eof h1 = h_eof h" "h_remaining h1 = h_remaining h"
    "h_chunk_left h1 = h_chunk_left h" "h_chunk_crlf h1 = h_chunk_crlf h" "h_url h1 = h_url h"
    "h_length h1 = h_length h" "h_status h1 = h_status h" "h_total h1 = h_total h"
    "h_icy_interval h1 = h_icy_interval h" "h_range_start h1 = h_range_start h" "h_range_end h1 = h_range_end h"
  using assms by (cases h; cases h1; simp add: strip_def)+

lemma strip_fail [simp]: "strip (fail h m) = strip h"
  by (simp add: strip_def fail_def)

lemma fail_fields [simp]:
  "h_failed (fail h m)" "h_conn (fail h m) = h_conn h" "h_fault (fail h m) = h_fault h" "h_url (fail h m) = h_url h"
  "h_eof (fail h m) = h_eof h" "h_begin (fail h m) = h_begin h" "h_end (fail h m) = h_end h" "h_buffer (fail h m) = h_buffer h"
  "h_chunked (fail h m) = h_chunked h" "h_remaining (fail h m) = h_remaining h" "h_status (fail h m) = h_status h"
  by (simp_all add: fail_def)

lemma raw_read_strip: "raw_read ops h len w = (a, h1, w1) \<Longrightarrow> strip h1 = strip h"
  by (auto simp: raw_read_def Let_def strip_def fail_def split: if_splits option.splits prod.splits)

lemma line_loop_strip: "line_loop ops k acc h w = (a, h1, w1) \<Longrightarrow> strip h1 = strip h"
  by (induction k arbitrary: acc h w)
     (auto simp: Let_def split: if_splits prod.splits dest!: raw_read_strip)

lemma line_strip: "line ops h cap w = (a, h1, w1) \<Longrightarrow> strip h1 = strip h"
  unfolding line_def by (rule line_loop_strip)

lemma trailers_strip: "trailers_loop ops tot h w = (ok, h1, w1) \<Longrightarrow> strip h1 = strip h"
proof (induction "nat (16385 - tot)" arbitrary: tot h w rule: less_induct)
  case less
  obtain n t h2 w2 where l: "line ops h 256 w = ((n, t), h2, w2)" by (metis surj_pair)
  show ?case
  proof (cases "n < 0 \<or> tot + n > 16384 \<or> n \<le> 1")
    case True
    with less.prems l line_strip [OF l] show ?thesis
      by (subst (asm) trailers_loop.simps) (auto split: if_splits)
  next
    case False
    with less.prems l have "trailers_loop ops (tot + n) h2 w2 = (ok, h1, w1)"
      by (subst (asm) trailers_loop.simps) simp
    moreover have "nat (16385 - (tot + n)) < nat (16385 - tot)" using False by linarith
    ultimately show ?thesis using less.hyps line_strip [OF l] by metis
  qed
qed

section \<open>The input as a stream\<close>

text \<open>
  \<open>feeds ops c bs w\<close>: the peer's remaining bytes are \<open>bs\<close>, then it closes; every read of the connection
  returns some non-empty part of what is left, split in any way.
\<close>

coinductive feeds :: "('n, 'z) net_ops_scheme \<Rightarrow> 'n gc_connection \<Rightarrow> string \<Rightarrow> 'n world \<Rightarrow> bool" for ops c where
  "(\<And>len. 0 < len \<Longrightarrow> \<exists>x b1 w1. bs = x @ b1 \<and> gc_net_read ops c len w = ((int (length x), x), w1) \<and>
      (x = [] \<longrightarrow> bs = []) \<and> feeds ops c b1 w1) \<Longrightarrow> feeds ops c bs w"

interpretation net_src: byte_source "gc_net_read ops c" "feeds ops c" for ops c
proof
  fix b w and len :: int
  assume "feeds ops c b w" "0 < len"
  then obtain x b1 w1 where x: "b = x @ b1" "gc_net_read ops c len w = ((int (length x), x), w1)"
    "x = [] \<longrightarrow> b = []" "feeds ops c b1 w1"
    by (elim feeds.cases) blast
  moreover have "int (length x) \<le> len"
    using gc_net_read_ok [of len ops c w] x(2) \<open>0 < len\<close> by (auto simp: read_ok_def)
  ultimately show "\<exists>x b1 w1. b = x @ b1 \<and> gc_net_read ops c len w = ((int (length x), x), w1) \<and>
      feeds ops c b1 w1 \<and> int (length x) \<le> len \<and> (x = [] \<longrightarrow> b = [])"
    by blast
qed

definition pending :: "'n gc_http \<Rightarrow> string" where
  "pending h = drop (h_begin h) (h_buffer h)"

definition holds :: "('n, 'z) net_ops_scheme \<Rightarrow> string \<Rightarrow> 'n gc_http \<Rightarrow> 'n world \<Rightarrow> bool" where
  "holds ops bs h w = (\<not> h_failed h \<and> h_begin h \<le> h_end h \<and> h_end h = length (h_buffer h) \<and>
     (\<exists>c nb. h_conn h = Some c \<and> bs = pending h @ nb \<and> feeds ops c nb w))"

lemma raw_read_holds:
  assumes "holds ops bs h w" and "0 < len"
  shows "\<exists>x b1 h1 w1. bs = x @ b1 \<and> raw_read ops h len w = ((int (length x), x), h1, w1) \<and> holds ops b1 h1 w1 \<and>
    strip h1 = strip h \<and> int (length x) \<le> len \<and> (x = [] \<longrightarrow> bs = [])"
proof -
  from assms(1) obtain c nb where c: "h_conn h = Some c" "bs = pending h @ nb" "feeds ops c nb w"
    and ok: "\<not> h_failed h" "h_begin h \<le> h_end h" "h_end h = length (h_buffer h)"
    by (auto simp: holds_def)
  have deliver: ?thesis
    if d: "raw_read ops h len w = ((int m, take m (drop (h_begin k) (h_buffer k))), k\<lparr>h_begin := h_begin k + m\<rparr>, w1)"
      and k: "m = min (nat len) (h_end k - h_begin k)" "strip k = strip h" "\<not> h_failed k" "h_begin k < h_end k"
        "h_end k = length (h_buffer k)" and nb: "bs = pending k @ nb1" "feeds ops c nb1 w1"
    for k m nb1 w1
  proof -
    let ?x = "take m (pending k)" and ?h1 = "k\<lparr>h_begin := h_begin k + m\<rparr>"
    have m: "0 < m" "int m \<le> len" "m \<le> length (pending k)" using k assms(2) by (auto simp: pending_def)
    have "bs = ?x @ (drop m (pending k) @ nb1)" using nb(1) by simp
    moreover have "strip ?h1 = strip h" using k(2) by (simp add: strip_def)
    moreover have "holds ops (drop m (pending k) @ nb1) ?h1 w1"
      using k nb(2) c(1) strip_fields(1) [OF k(2)]
      by (auto simp: holds_def pending_def add.commute min_def)
    moreover have "raw_read ops h len w = ((int (length ?x), ?x), ?h1, w1)"
      using d m(3) by (simp add: pending_def)
    moreover have "?x \<noteq> []" "int (length ?x) \<le> len" using m by auto
    ultimately show ?thesis by blast
  qed
  show ?thesis
  proof (cases "h_begin h = h_end h")
    case False
    with ok c show ?thesis
      by (intro deliver [of _ h w nb]) (auto simp: raw_read_def Let_def)
  next
    case True
    then have bs: "bs = nb" using c ok by (simp add: pending_def)
    from net_src.step [OF c(3), of 4096] obtain y b1 w1 where
      y: "nb = y @ b1" "gc_net_read ops c 4096 w = ((int (length y), y), w1)" "feeds ops c b1 w1" "y = [] \<longrightarrow> nb = []"
      by auto
    show ?thesis
    proof (cases "y = []")
      case True
      then have "raw_read ops h len w = ((0, []), h, w1)"
        using y c(1) \<open>h_begin h = h_end h\<close> by (simp add: raw_read_def)
      moreover have "holds ops [] h w1" using True y ok c \<open>h_begin h = h_end h\<close> by (simp add: holds_def pending_def)
      ultimately show ?thesis using True y bs assms(2) by auto
    next
      case False
      let ?k = "h\<lparr>h_buffer := y, h_begin := 0, h_end := length y\<rparr>"
      show ?thesis
      proof (rule deliver [of "min (nat len) (length y)" ?k w1 b1])
        show "raw_read ops h len w = ((int (min (nat len) (length y)),
            take (min (nat len) (length y)) (drop (h_begin ?k) (h_buffer ?k))),
            ?k\<lparr>h_begin := h_begin ?k + min (nat len) (length y)\<rparr>, w1)"
          using y(2) c(1) False \<open>h_begin h = h_end h\<close> by (simp add: raw_read_def Let_def)
      qed (use False y ok bs in \<open>auto simp: strip_def pending_def\<close>)
    qed
  qed
qed

text \<open>A text that \<open>line\<close> with room \<open>cap\<close> reads as one line.\<close>

definition line_ok :: "nat \<Rightarrow> string \<Rightarrow> bool" where
  "line_ok cap l = (length l + 3 \<le> cap \<and> CHR 0x0A \<notin> set l \<and> CHR 0x00 \<notin> set l)"

lemma raw_read_byte:
  assumes "holds ops (ch # bs) h w"
  shows "\<exists>h1 w1. raw_read ops h 1 w = ((1, [ch]), h1, w1) \<and> holds ops bs h1 w1 \<and> strip h1 = strip h"
proof -
  obtain x b1 h1 w1 where x: "ch # bs = x @ b1" "raw_read ops h 1 w = ((int (length x), x), h1, w1)"
    "holds ops b1 h1 w1" "strip h1 = strip h" "int (length x) \<le> 1" "x \<noteq> []"
    using raw_read_holds [OF assms, of 1] by auto
  then have "x = [ch] \<and> b1 = bs" by (cases x) auto
  with x show ?thesis by auto
qed

lemma line_loop_holds:
  assumes "holds ops (l @ crlf @ bs) h w" and "length l + 2 \<le> k" and "CHR 0x0A \<notin> set l" "CHR 0x00 \<notin> set l"
  shows "\<exists>h1 w1. line_loop ops k acc h w = ((int (length acc + length l + 1), rev acc @ l), h1, w1) \<and>
    holds ops bs h1 w1 \<and> strip h1 = strip h"
  using assms
proof (induction l arbitrary: k acc h w)
  case Nil
  then have "k = Suc (Suc (k - 2))" by simp
  then obtain k2 where k: "k = Suc (Suc k2)" ..
  from Nil.prems(1) have "holds ops (CHR 0x0D # CHR 0x0A # bs) h w" by (simp add: crlf_def)
  from raw_read_byte [OF this] obtain h1 w1 where
    1: "raw_read ops h 1 w = ((1, [CHR 0x0D]), h1, w1)" "holds ops (CHR 0x0A # bs) h1 w1" "strip h1 = strip h"
    by blast
  from raw_read_byte [OF 1(2)] obtain h2 w2 where
    "raw_read ops h1 1 w1 = ((1, [CHR 0x0A]), h2, w2)" "holds ops bs h2 w2" "strip h2 = strip h1"
    by blast
  with 1 k show ?case by simp
next
  case (Cons ch l)
  then obtain k2 where k: "k = Suc k2" by (cases k) auto
  from Cons.prems(1) have "holds ops (ch # (l @ crlf @ bs)) h w" by simp
  from raw_read_byte [OF this] obtain h1 w1 where
    1: "raw_read ops h 1 w = ((1, [ch]), h1, w1)" "holds ops (l @ crlf @ bs) h1 w1" "strip h1 = strip h"
    by blast
  from Cons.IH [OF 1(2), of k2 "ch # acc"] Cons.prems k obtain h2 w2 where
    "line_loop ops k2 (ch # acc) h1 w1 = ((int (length (ch # acc) + length l + 1), rev (ch # acc) @ l), h2, w2)"
    "holds ops bs h2 w2" "strip h2 = strip h1"
    by auto
  moreover have "ch \<noteq> CHR 0x0A" "ch \<noteq> CHR 0x00" using Cons.prems by auto
  ultimately show ?case using 1 k by simp
qed

lemma line_holds:
  assumes "holds ops (l @ crlf @ bs) h w" and "line_ok cap l"
  shows "\<exists>h1 w1. line ops h cap w = ((int (length l) + 1, l), h1, w1) \<and> holds ops bs h1 w1 \<and> strip h1 = strip h"
  using line_loop_holds [OF assms(1), of "cap - 1" "[]"] assms(2) by (auto simp: line_def line_ok_def algebra_simps)

lemma strip_update_eq:
  "strip h1 = strip h \<Longrightarrow> strip (h1\<lparr>h_chunk_left := a, h_chunk_crlf := b\<rparr>) = strip (h\<lparr>h_chunk_left := a, h_chunk_crlf := b\<rparr>)"
  "strip h1 = strip h \<Longrightarrow> strip (h1\<lparr>h_eof := e\<rparr>) = strip (h\<lparr>h_eof := e\<rparr>)"
  by (cases h; cases h1; simp add: strip_def)+

lemma holds_update [simp]:
  "holds ops bs (h\<lparr>h_chunk_left := a\<rparr>) w = holds ops bs h w" "holds ops bs (h\<lparr>h_chunk_crlf := b\<rparr>) w = holds ops bs h w"
  "holds ops bs (h\<lparr>h_eof := e\<rparr>) w = holds ops bs h w" "holds ops bs (h\<lparr>h_remaining := r\<rparr>) w = holds ops bs h w"
  by (simp_all add: holds_def pending_def)

text \<open>The connection, the URL and the metadata interval are fixed while a body is read.\<close>

definition frame :: "'n gc_http \<Rightarrow> 'n gc_http \<Rightarrow> bool" where
  "frame h h1 = (h_conn h1 = h_conn h \<and> h_icy_interval h1 = h_icy_interval h \<and> h_url h1 = h_url h)"

lemma strip_frame: "strip h1 = strip h \<Longrightarrow> frame h h1"
  using strip_fields(1,7,11) [of h1 h] by (simp add: frame_def)

lemma frame_trans: "frame h h1 \<Longrightarrow> frame h1 h2 \<Longrightarrow> frame h h2"
  by (simp add: frame_def)

lemma frame_updates [simp]:
  "frame h h" "frame h (fail k e) = frame h k" "frame h (k\<lparr>h_eof := b\<rparr>) = frame h k" "frame h (k\<lparr>h_remaining := n\<rparr>) = frame h k"
  "frame h (k\<lparr>h_chunk_left := n\<rparr>) = frame h k" "frame h (k\<lparr>h_chunk_crlf := b\<rparr>) = frame h k"
  by (simp_all add: frame_def fail_def)

lemma next_chunk_frame:
  assumes n: "next_chunk ops h w = (ok, h1, w1)"
  shows "frame h h1"
proof -
  obtain ok1 h2 w2 where 1: "(if h_chunk_crlf h then let ((n, t), h1, w1) = line ops h 256 w in (n = 1, h1, w1) else (True, h, w))
      = (ok1, h2, w2)" by (metis surj_pair)
  have i2: "frame h h2"
    using 1 by (auto split: if_splits prod.splits dest!: line_strip strip_frame)
  obtain m t h3 w3 where 2: "line ops h2 256 w2 = ((m, t), h3, w3)" by (metis surj_pair)
  have i3: "frame h h3" using frame_trans [OF i2 strip_frame [OF line_strip [OF 2]]] .
  let ?h4 = "h3\<lparr>h_chunk_left := 0, h_chunk_crlf := True\<rparr>"
  obtain ok5 h5 w5 where 5: "trailers_loop ops 0 ?h4 w3 = (ok5, h5, w5)" by (metis surj_pair)
  have "frame ?h4 h5" using strip_frame [OF trailers_strip [OF 5]] .
  then have "frame h h5" using i3 frame_trans [of h ?h4 h5] by simp
  then show ?thesis
    using n 1 2 5 i2 i3 unfolding next_chunk_def by (auto simp: Let_def split: if_splits option.splits)
qed

lemma read_body_frame: "read_body ops h len w = (a, h1, w1) \<Longrightarrow> frame h h1"
  by (auto simp: read_body_def Let_def split: prod.splits if_splits dest!: raw_read_strip strip_frame)

lemma http_read_frame: "gc_http_read ops h len w = (a, h1, w1) \<Longrightarrow> frame h h1"
  by (auto simp: gc_http_read_def Let_def split: if_splits prod.splits dest!: next_chunk_frame dest: frame_trans read_body_frame)

section \<open>Message bodies\<close>

text \<open>
  The chunked coding (RFC 9112, 7.1) as the reader accepts it: \<open>chunk_stream raw b\<close> says that \<open>raw\<close>
  starts with a chunked body whose content is \<open>b\<close>. A size line may have leading zeros, either case and
  chunk extensions.
\<close>

inductive chunk_stream :: "string \<Rightarrow> string \<Rightarrow> bool" where
  last_chunk: "chunk_size sl = Some 0 \<Longrightarrow> line_ok 256 sl \<Longrightarrow> \<forall>t\<in>set ts. t \<noteq> [] \<and> line_ok 256 t \<Longrightarrow>
     (\<Sum>t\<leftarrow>ts. length t + 1) \<le> 16383 \<Longrightarrow>
     chunk_stream (sl @ crlf @ concat (map (\<lambda>t. t @ crlf) ts) @ crlf @ tail) []"
| next_chunk: "chunk_size sl = Some (length c) \<Longrightarrow> line_ok 256 sl \<Longrightarrow> c \<noteq> [] \<Longrightarrow> chunk_stream raw b \<Longrightarrow>
     chunk_stream (sl @ crlf @ c @ crlf @ raw) (c @ b)"

text \<open>The body still to come, in each of the reader's states.\<close>

inductive http_body :: "('n, 'z) net_ops_scheme \<Rightarrow> string \<Rightarrow> 'n gc_http \<times> 'n world \<Rightarrow> bool" for ops where
  at_eof: "h_eof h \<Longrightarrow> \<not> h_failed h \<Longrightarrow> http_body ops [] (h, w)"
| in_chunk: "\<not> h_eof h \<Longrightarrow> h_chunked h \<Longrightarrow> h_chunk_crlf h \<Longrightarrow> h_chunk_left h = int (length c) \<Longrightarrow>
     holds ops (c @ crlf @ raw) h w \<Longrightarrow> chunk_stream raw b \<Longrightarrow> http_body ops (c @ b) (h, w)"
| first_chunk: "\<not> h_eof h \<Longrightarrow> h_chunked h \<Longrightarrow> \<not> h_chunk_crlf h \<Longrightarrow> h_chunk_left h = 0 \<Longrightarrow>
     holds ops raw h w \<Longrightarrow> chunk_stream raw b \<Longrightarrow> http_body ops b (h, w)"
| by_length: "\<not> h_eof h \<Longrightarrow> \<not> h_chunked h \<Longrightarrow> h_remaining h = int (length b) \<Longrightarrow>
     holds ops (b @ tail) h w \<Longrightarrow> http_body ops b (h, w)"
| by_close: "\<not> h_eof h \<Longrightarrow> \<not> h_chunked h \<Longrightarrow> h_remaining h < 0 \<Longrightarrow> holds ops b h w \<Longrightarrow> http_body ops b (h, w)"

lemma trailers_holds:
  assumes "holds ops (concat (map (\<lambda>t. t @ crlf) ts) @ crlf @ bs) h w" and "\<forall>t\<in>set ts. t \<noteq> [] \<and> line_ok 256 t"
    and "tot + (\<Sum>t\<leftarrow>ts. int (length t) + 1) \<le> 16383"
  shows "\<exists>h1 w1. trailers_loop ops tot h w = (True, h1, w1) \<and> holds ops bs h1 w1 \<and> strip h1 = strip h"
  using assms
proof (induction ts arbitrary: tot h w)
  case Nil
  then have "holds ops ([] @ crlf @ bs) h w" by simp
  from line_holds [OF this, of 256] obtain h1 w1 where
    "line ops h 256 w = ((1, []), h1, w1)" "holds ops bs h1 w1" "strip h1 = strip h"
    by (auto simp: line_ok_def)
  with Nil show ?case by (subst trailers_loop.simps) simp
next
  case (Cons t ts)
  from Cons.prems(1) have "holds ops (t @ crlf @ (concat (map (\<lambda>t. t @ crlf) ts) @ crlf @ bs)) h w" by simp
  from line_holds [OF this, of 256] Cons.prems(2) obtain h1 w1 where
    1: "line ops h 256 w = ((int (length t) + 1, t), h1, w1)" "holds ops (concat (map (\<lambda>t. t @ crlf) ts) @ crlf @ bs) h1 w1"
      "strip h1 = strip h"
    by auto
  have "0 \<le> (\<Sum>t\<leftarrow>ts. int (length t) + 1)" by (rule sum_list_nonneg) auto
  moreover have "0 < int (length t)" using Cons.prems(2) by auto
  moreover from Cons.IH [OF 1(2), of "tot + (int (length t) + 1)"] Cons.prems(2,3) obtain h2 w2 where
    "trailers_loop ops (tot + (int (length t) + 1)) h1 w1 = (True, h2, w2)" "holds ops bs h2 w2" "strip h2 = strip h1"
    by (auto simp: algebra_simps)
  ultimately show ?case using 1 Cons.prems(3) by (subst trailers_loop.simps) auto
qed

lemma chunk_stream_cases:
  assumes "chunk_stream raw b"
  obtains (final) sl ts tail where "raw = sl @ crlf @ concat (map (\<lambda>t. t @ crlf) ts) @ crlf @ tail" "b = []"
      "chunk_size sl = Some 0" "line_ok 256 sl" "\<forall>t\<in>set ts. t \<noteq> [] \<and> line_ok 256 t" "(\<Sum>t\<leftarrow>ts. length t + 1) \<le> 16383"
  | (another) sl c raw1 b1 where "raw = sl @ crlf @ c @ crlf @ raw1" "b = c @ b1" "chunk_size sl = Some (length c)"
      "line_ok 256 sl" "c \<noteq> []" "chunk_stream raw1 b1"
  using assms by (cases rule: chunk_stream.cases) blast+

text \<open>The chunk-size step: it ends the body or enters the next, non-empty chunk.\<close>

lemma next_chunk_holds:
  assumes "holds ops ((if h_chunk_crlf h then crlf else []) @ raw) h w" and "chunk_stream raw b"
    and "\<not> h_eof h" "h_chunked h"
  shows "\<exists>h1 w1. next_chunk ops h w = (True, h1, w1) \<and>
    (b = [] \<and> h_eof h1 \<and> \<not> h_failed h1 \<or>
     (\<exists>c raw1 b1. b = c @ b1 \<and> c \<noteq> [] \<and> h_chunk_left h1 = int (length c) \<and> h_chunk_crlf h1 \<and> h_chunked h1 \<and> \<not> h_eof h1 \<and>
        holds ops (c @ crlf @ raw1) h1 w1 \<and> chunk_stream raw1 b1))"
proof -
  have "\<exists>h1 w1. (if h_chunk_crlf h then let ((n, t), h1, w1) = line ops h 256 w in (n = 1, h1, w1) else (True, h, w))
      = (True, h1, w1) \<and> holds ops raw h1 w1 \<and> strip h1 = strip h"
  proof (cases "h_chunk_crlf h")
    case True
    then have "holds ops ([] @ crlf @ raw) h w" using assms(1) by simp
    from line_holds [OF this, of 256] True show ?thesis by (auto simp: line_ok_def)
  qed (use assms(1) in auto)
  then obtain h1 w1 where 1: "(if h_chunk_crlf h then let ((n, t), h1, w1) = line ops h 256 w in (n = 1, h1, w1) else (True, h, w))
      = (True, h1, w1)" "holds ops raw h1 w1" "strip h1 = strip h"
    by blast
  from assms(2) show ?thesis
  proof (cases rule: chunk_stream_cases)
    case (final sl ts tail)
    from line_holds [OF 1(2) [unfolded final(1)] final(4)] obtain h2 w2 where
      2: "line ops h1 256 w1 = ((int (length sl) + 1, sl), h2, w2)"
        "holds ops (concat (map (\<lambda>t. t @ crlf) ts) @ crlf @ tail) h2 w2"
      by blast
    let ?h3 = "h2\<lparr>h_chunk_left := 0, h_chunk_crlf := True\<rparr>"
    have "int (\<Sum>t\<leftarrow>ts. length t + 1) = (\<Sum>t\<leftarrow>ts. int (length t) + 1)" by (induction ts) auto
    then have "0 + (\<Sum>t\<leftarrow>ts. int (length t) + 1) \<le> 16383" using final(6) by linarith
    from trailers_holds [OF _ final(5) this, of ops tail ?h3 w2] 2(2) obtain h4 w4 where
      "trailers_loop ops 0 ?h3 w2 = (True, h4, w4)" "holds ops tail h4 w4"
      by auto
    then show ?thesis
      using 1(1) 2(1) final(2,3) unfolding next_chunk_def by (auto simp: holds_def)
  next
    case (another sl c raw1 b1)
    from line_holds [OF 1(2) [unfolded another(1)] another(4)] obtain h2 w2 where
      2: "line ops h1 256 w1 = ((int (length sl) + 1, sl), h2, w2)" "holds ops (c @ crlf @ raw1) h2 w2" "strip h2 = strip h1"
      by blast
    then have "\<not> h_eof h2" "h_chunked h2" using assms(3,4) strip_fields(2,3) [of h2 h] 1(3) by auto
    moreover have "next_chunk ops h w = (True, h2\<lparr>h_chunk_left := int (length c), h_chunk_crlf := True\<rparr>, w2)"
      using 1(1) 2(1) another(3,5) unfolding next_chunk_def by simp
    ultimately show ?thesis using 2(2) another(2,5,6) by auto
  qed
qed

lemma read_body_holds:
  assumes "holds ops bs h w" and "0 < len" and "bs \<noteq> []" and "\<not> h_chunked h \<longrightarrow> h_remaining h \<noteq> 0"
  shows "\<exists>x b1 h1 w1. bs = x @ b1 \<and> x \<noteq> [] \<and> int (length x) \<le> len \<and>
    read_body ops h len w = ((int (length x), x), h1, w1) \<and> holds ops b1 h1 w1 \<and>
    h_eof h1 = h_eof h \<and> h_chunked h1 = h_chunked h \<and> h_chunk_crlf h1 = h_chunk_crlf h \<and>
    (if h_chunked h then h_chunk_left h1 = h_chunk_left h - int (length x)
     else h_remaining h1 = (if h_remaining h \<ge> 0 then h_remaining h - int (length x) else h_remaining h))"
proof -
  from raw_read_holds [OF assms(1,2)] assms(3) obtain x b1 h1 w1 where
    x: "bs = x @ b1" "raw_read ops h len w = ((int (length x), x), h1, w1)" "holds ops b1 h1 w1" "strip h1 = strip h"
      "int (length x) \<le> len" "x \<noteq> []"
    by auto
  note f = strip_fields [OF x(4)]
  show ?thesis using x(1,2,3,5,6) f by (auto simp: read_body_def)
qed

lemma read_chunk_holds:
  assumes "holds ops (c @ crlf @ raw) h w" and "chunk_stream raw b" and "c \<noteq> []" and "0 < len"
    and "h_chunk_left h = int (length c)" "h_chunk_crlf h" "h_chunked h" "\<not> h_eof h"
  shows "\<exists>x b1 h1 w1. c @ b = x @ b1 \<and> read_body ops h (min len (h_chunk_left h)) w = ((int (length x), x), h1, w1) \<and>
    http_body ops b1 (h1, w1) \<and> int (length x) \<le> len \<and> x \<noteq> []"
proof -
  from assms have "0 < min len (h_chunk_left h)" by simp
  from read_body_holds [OF assms(1) this] assms obtain x b1 h1 w1 where
    x: "c @ crlf @ raw = x @ b1" "x \<noteq> []" "int (length x) \<le> min len (int (length c))"
      "read_body ops h (min len (h_chunk_left h)) w = ((int (length x), x), h1, w1)" "holds ops b1 h1 w1"
      "\<not> h_eof h1" "h_chunked h1" "h_chunk_crlf h1" "h_chunk_left h1 = int (length c) - int (length x)"
    by auto
  then obtain c1 where c1: "c = x @ c1" "b1 = c1 @ crlf @ raw"
    by (auto simp: append_eq_append_conv2)
  have "http_body ops (c1 @ b) (h1, w1)"
    using x c1 assms(2) by (intro in_chunk) auto
  with x c1 show ?thesis by (intro exI [of _ x] exI [of _ "c1 @ b"]) auto
qed

lemma chunked_read_step:
  assumes "holds ops ((if h_chunk_crlf h then crlf else []) @ raw) h w" and "chunk_stream raw b"
    and "\<not> h_eof h" "h_chunked h" "h_chunk_left h = 0" "0 < len"
  shows "\<exists>x b1 h1 w1. b = x @ b1 \<and> gc_http_read ops h len w = ((int (length x), x), h1, w1) \<and>
    http_body ops b1 (h1, w1) \<and> int (length x) \<le> len \<and> (x = [] \<longrightarrow> b = [])"
proof -
  have "\<not> h_failed h" using assms(1) by (simp add: holds_def)
  from next_chunk_holds [OF assms(1-4)] obtain h1 w1 where n: "next_chunk ops h w = (True, h1, w1)"
    and alt: "b = [] \<and> h_eof h1 \<and> \<not> h_failed h1 \<or>
     (\<exists>c raw1 b1. b = c @ b1 \<and> c \<noteq> [] \<and> h_chunk_left h1 = int (length c) \<and> h_chunk_crlf h1 \<and> h_chunked h1 \<and> \<not> h_eof h1 \<and>
        holds ops (c @ crlf @ raw1) h1 w1 \<and> chunk_stream raw1 b1)"
    by blast
  from alt show ?thesis
  proof
    assume "b = [] \<and> h_eof h1 \<and> \<not> h_failed h1"
    with n assms \<open>\<not> h_failed h\<close> show ?thesis
      by (intro exI [of _ "[]"] exI [of _ "[]"] exI [of _ h1] exI [of _ w1]) (auto simp: gc_http_read_def intro: at_eof)
  next
    assume "\<exists>c raw1 b1. b = c @ b1 \<and> c \<noteq> [] \<and> h_chunk_left h1 = int (length c) \<and> h_chunk_crlf h1 \<and> h_chunked h1 \<and> \<not> h_eof h1 \<and>
        holds ops (c @ crlf @ raw1) h1 w1 \<and> chunk_stream raw1 b1"
    then obtain c raw1 b1 where c: "b = c @ b1" "c \<noteq> []" "h_chunk_left h1 = int (length c)" "h_chunk_crlf h1" "h_chunked h1"
      "\<not> h_eof h1" "holds ops (c @ crlf @ raw1) h1 w1" "chunk_stream raw1 b1"
      by blast
    have "gc_http_read ops h len w = read_body ops h1 (min len (h_chunk_left h1)) w1"
      using n assms \<open>\<not> h_failed h\<close> c(6) by (simp add: gc_http_read_def)
    with read_chunk_holds [OF c(7,8,2) assms(6) c(3,4,5,6)] c(1) show ?thesis by auto
  qed
qed

lemma length_read_step:
  assumes "holds ops (b @ tail) h w" "\<not> h_eof h" "\<not> h_chunked h" "h_remaining h = int (length b)" "0 < len"
  shows "\<exists>x b1 h1 w1. b = x @ b1 \<and> gc_http_read ops h len w = ((int (length x), x), h1, w1) \<and>
    http_body ops b1 (h1, w1) \<and> int (length x) \<le> len \<and> (x = [] \<longrightarrow> b = [])"
proof (cases "b = []")
  case True
  with assms show ?thesis by (auto simp: gc_http_read_def holds_def intro!: at_eof)
next
  case False
  then have "0 < min len (h_remaining h)" "h_remaining h \<noteq> 0" using assms by simp_all
  from read_body_holds [OF assms(1) this(1)] this(2) False assms obtain x b1 h1 w1 where
    x: "b @ tail = x @ b1" "x \<noteq> []" "int (length x) \<le> min len (int (length b))"
      "read_body ops h (min len (h_remaining h)) w = ((int (length x), x), h1, w1)" "holds ops b1 h1 w1"
      "\<not> h_eof h1" "\<not> h_chunked h1" "h_remaining h1 = int (length b) - int (length x)"
    by auto
  then obtain b2 where b2: "b = x @ b2" "b1 = b2 @ tail" by (auto simp: append_eq_append_conv2)
  then have "http_body ops b2 (h1, w1)" using x by (intro by_length) auto
  moreover have "gc_http_read ops h len w = read_body ops h (min len (h_remaining h)) w"
    using assms False by (simp add: gc_http_read_def holds_def)
  ultimately show ?thesis using x b2 by (intro exI [of _ x] exI [of _ b2]) auto
qed

lemma close_read_step:
  assumes "holds ops b h w" "\<not> h_eof h" "\<not> h_chunked h" "h_remaining h < 0" "0 < len"
  shows "\<exists>x b1 h1 w1. b = x @ b1 \<and> gc_http_read ops h len w = ((int (length x), x), h1, w1) \<and>
    http_body ops b1 (h1, w1) \<and> int (length x) \<le> len \<and> (x = [] \<longrightarrow> b = [])"
proof -
  have r: "gc_http_read ops h len w = read_body ops h len w"
    using assms by (simp add: gc_http_read_def holds_def)
  show ?thesis
  proof (cases "b = []")
    case True
    with raw_read_holds [OF assms(1,5)] obtain h1 w1 where
      1: "raw_read ops h len w = ((0, []), h1, w1)" "holds ops [] h1 w1" "strip h1 = strip h"
      by auto
    note f = strip_fields [OF 1(3)]
    have "read_body ops h len w = ((0, []), h1\<lparr>h_eof := True\<rparr>, w1)"
      using 1(1) f assms by (simp add: read_body_def)
    moreover have "http_body ops [] (h1\<lparr>h_eof := True\<rparr>, w1)"
      using 1(2) by (intro at_eof) (simp_all add: holds_def)
    ultimately show ?thesis using r True assms(5) by simp
  next
    case False
    from read_body_holds [OF assms(1,5) False] assms(4) obtain x b1 h1 w1 where
      "b = x @ b1" "x \<noteq> []" "int (length x) \<le> len" "read_body ops h len w = ((int (length x), x), h1, w1)"
      "holds ops b1 h1 w1" "h_eof h1 = h_eof h" "h_chunked h1 = h_chunked h" "h_remaining h1 < 0"
      using assms(3) by auto
    moreover from this have "http_body ops b1 (h1, w1)" using assms by (intro by_close) auto
    ultimately show ?thesis using r by (intro exI [of _ x] exI [of _ b1]) auto
  qed
qed

definition http_rd :: "('n, 'z) net_ops_scheme \<Rightarrow> int \<Rightarrow> 'n gc_http \<times> 'n world \<Rightarrow> (int \<times> string) \<times> 'n gc_http \<times> 'n world" where
  "http_rd ops len s = gc_http_read ops (fst s) len (snd s)"

interpretation http_src: byte_source "http_rd ops" "http_body ops" for ops
proof
  fix b and s :: "'a gc_http \<times> 'a world" and len :: int
  assume body: "http_body ops b s" and len: "0 < len"
  let ?goal = "\<exists>x b1 s1. b = x @ b1 \<and> http_rd ops len s = ((int (length x), x), s1) \<and> http_body ops b1 s1 \<and>
      int (length x) \<le> len \<and> (x = [] \<longrightarrow> b = [])"
  have lift: ?goal if "s = (h, w)" "\<exists>x b1 h1 w1. b = x @ b1 \<and> gc_http_read ops h len w = ((int (length x), x), h1, w1) \<and>
    http_body ops b1 (h1, w1) \<and> int (length x) \<le> len \<and> (x = [] \<longrightarrow> b = [])" for h w
    using that unfolding http_rd_def by auto
  from body show ?goal
  proof cases
    case (at_eof h w)
    then show ?thesis using len by (intro lift [of h w]) (auto simp: gc_http_read_def intro: http_body.at_eof)
  next
    case (in_chunk h c raw w b1)
    show ?thesis
    proof (cases "c = []")
      case True
      with in_chunk len show ?thesis
        by (intro lift [OF in_chunk(2)] chunked_read_step [where raw = raw]) auto
    next
      case False
      with in_chunk len have "gc_http_read ops h len w = read_body ops h (min len (h_chunk_left h)) w"
        by (simp add: gc_http_read_def holds_def)
      with read_chunk_holds [OF in_chunk(7,8) False len in_chunk(6,5,4,3)] in_chunk(1) show ?thesis
        by (intro lift [OF in_chunk(2)]) auto
    qed
  next
    case (first_chunk h raw w)
    with len show ?thesis by (intro lift [OF first_chunk(1)] chunked_read_step [where raw = raw]) auto
  next
    case (by_length h tail w)
    with len show ?thesis by (intro lift [OF by_length(1)] length_read_step)
  next
    case (by_close h w)
    with len show ?thesis by (intro lift [OF by_close(1)] close_read_step)
  qed
qed

section \<open>Sessions\<close>

text \<open>
  A session is a client with its connection: the buffer indices are in range and no null pointer was
  used. \<open>Q\<close> is any predicate on the world that reads and writes of the connection keep.
\<close>

definition net_kept :: "('n, 'z) net_ops_scheme \<Rightarrow> 'n gc_connection \<Rightarrow> ('n world \<Rightarrow> bool) \<Rightarrow> bool" where
  "net_kept ops c Q = ((\<forall>len w. Q w \<longrightarrow> Q (snd (gc_net_read ops c len w))) \<and>
     (\<forall>bs w. Q w \<longrightarrow> Q (snd (gc_net_write ops c bs w))))"

definition sess :: "'n gc_connection \<Rightarrow> ('n world \<Rightarrow> bool) \<Rightarrow> 'n gc_http \<Rightarrow> 'n world \<Rightarrow> bool" where
  "sess c Q h w = (h_conn h = Some c \<and> \<not> h_fault h \<and> h_begin h \<le> h_end h \<and> h_end h = length (h_buffer h) \<and> Q w)"

named_theorems sess_intros

lemma sess_updates [simp]:
  "sess c Q (fail h m) w = sess c Q h w" "sess c Q (h\<lparr>h_length := n\<rparr>) w = sess c Q h w"
  "sess c Q (h\<lparr>h_chunked := b\<rparr>) w = sess c Q h w" "sess c Q (h\<lparr>h_location := s\<rparr>) w = sess c Q h w"
  "sess c Q (h\<lparr>h_content_type := s\<rparr>) w = sess c Q h w" "sess c Q (h\<lparr>h_icy_name := s\<rparr>) w = sess c Q h w"
  "sess c Q (h\<lparr>h_icy_interval := n\<rparr>) w = sess c Q h w" "sess c Q (h\<lparr>h_remaining := n\<rparr>) w = sess c Q h w"
  "sess c Q (h\<lparr>h_range_start := n\<rparr>) w = sess c Q h w" "sess c Q (h\<lparr>h_range_end := n\<rparr>) w = sess c Q h w"
  "sess c Q (h\<lparr>h_total := n\<rparr>) w = sess c Q h w" "sess c Q (h\<lparr>h_status := n\<rparr>) w = sess c Q h w"
  "sess c Q (h\<lparr>h_eof := b\<rparr>) w = sess c Q h w" "sess c Q (h\<lparr>h_chunk_left := n\<rparr>) w = sess c Q h w"
  "sess c Q (h\<lparr>h_chunk_crlf := b\<rparr>) w = sess c Q h w"
  by (simp_all add: sess_def)

lemma raw_read_sess:
  assumes k: "net_kept ops c Q" and s: "sess c Q h w" and r: "raw_read ops h len w = (a, h1, w1)"
  shows "sess c Q h1 w1 \<and> (fst a \<ge> 0 \<longrightarrow> h_failed h1 = h_failed h) \<and> (fst a < 0 \<longrightarrow> h_failed h1)"
proof -
  have "Q (snd (gc_net_read ops c 4096 w))" using k s by (auto simp: net_kept_def sess_def)
  then show ?thesis
    using r s gc_net_read_ok [of 4096 ops c w]
    by (auto simp: raw_read_def Let_def sess_def read_ok_def split: if_splits option.splits prod.splits)
qed

lemma line_loop_sess:
  assumes k: "net_kept ops c Q"
  shows "sess c Q h w \<Longrightarrow> line_loop ops r acc h w = (a, h1, w1) \<Longrightarrow>
    sess c Q h1 w1 \<and> (fst a \<ge> 0 \<longrightarrow> h_failed h1 = h_failed h) \<and> (fst a < 0 \<longrightarrow> h_failed h1)"
proof (induction r arbitrary: acc h w)
  case (Suc r)
  obtain n bs h2 w2 where rr: "raw_read ops h 1 w = ((n, bs), h2, w2)" by (metis surj_pair)
  note rs = raw_read_sess [OF k Suc.prems(1) rr]
  show ?case
  proof (cases "n = 1 \<and> hd bs \<noteq> CHR 0x0A \<and> hd bs \<noteq> CHR 0x00")
    case True
    with Suc.prems(2) rr have "line_loop ops r (hd bs # acc) h2 w2 = (a, h1, w1)" by (simp add: Let_def)
    from Suc.IH [OF _ this] rs True show ?thesis by simp
  next
    case False
    with Suc.prems(2) rr rs show ?thesis by (auto simp: Let_def split: if_splits)
  qed
qed auto

lemma line_sess:
  assumes "net_kept ops c Q" "sess c Q h w" "line ops h cap w = (a, h1, w1)"
  shows "sess c Q h1 w1 \<and> (fst a \<ge> 0 \<longrightarrow> h_failed h1 = h_failed h) \<and> (fst a < 0 \<longrightarrow> h_failed h1)"
  using line_loop_sess [OF assms(1,2)] assms(3) by (simp add: line_def)

text \<open>What the header fields leave alone, and the range of the length.\<close>

definition fresh :: "'n gc_http \<Rightarrow> bool" where
  "fresh h = (\<not> h_eof h \<and> h_chunk_left h = 0 \<and> \<not> h_chunk_crlf h \<and> h_length h \<ge> - 1)"

lemma fresh_strip: "strip h1 = strip h \<Longrightarrow> fresh h1 = fresh h"
  using strip_fields(3,5,6,8) [of h1 h] by (simp add: fresh_def)

lemma integer_nonneg: "integer s = Some n \<Longrightarrow> 0 \<le> n"
  by (cases "c_strtol int64_min int64_max s") (simp add: integer_def split: if_splits)

lemma header_field_sess:
  assumes "header_field name v h = Inr h1"
  shows "sess c Q h1 w = sess c Q h w" "h_failed h1 = h_failed h" "h_url h1 = h_url h" "fresh h \<Longrightarrow> fresh h1"
  using assms
  by (auto simp: header_field_def fresh_def dest: integer_nonneg split: if_splits option.splits prod.splits)

lemma headers_loop_sess:
  assumes k: "net_kept ops c Q"
  shows "sess c Q h w \<Longrightarrow> headers_loop ops bytes h w = (ok, h1, w1) \<Longrightarrow>
    sess c Q h1 w1 \<and> h_url h1 = h_url h \<and>
    (\<not> ok \<longrightarrow> h_failed h1) \<and> (ok \<longrightarrow> h_failed h1 = h_failed h \<and> (fresh h \<longrightarrow> fresh h1) \<and> h_remaining h1 = h_length h1 \<and> (h_chunked h1 \<longrightarrow> h_length h1 < 0))"
proof (induction "nat (16385 - bytes)" arbitrary: bytes h w rule: less_induct)
  case less
  obtain n buf h2 w2 where l: "line ops h 4096 w = ((n, buf), h2, w2)" by (metis surj_pair)
  note ls = line_sess [OF k less.prems(1) l] and st = line_strip [OF l]
  have url: "h_url h2 = h_url h" "fresh h2 = fresh h" using strip_fields(7) [OF st] fresh_strip [OF st] by simp_all
  show ?case
  proof (cases "n \<le> 1 \<or> bytes + n > 16384 \<or> CHR '':'' \<notin> set buf")
    case True
    with less.prems(2) l consider "n < 0" "\<not> ok" "h1 = h2" "w1 = w2" | m where "\<not> ok" "h1 = fail h2 m" "w1 = w2"
      | "0 \<le> n" "ok" "h1 = h2\<lparr>h_remaining := h_length h2\<rparr>" "w1 = w2" "h_chunked h2 \<longrightarrow> h_length h2 < 0"
      by (subst (asm) headers_loop.simps) (auto simp: not_le split: if_splits)
    then show ?thesis by cases (use ls url in \<open>auto simp: fresh_def\<close>)
  next
    case False
    show ?thesis
    proof (cases "header_field (c_before CHR '':'' buf) (trim_value (tl (c_from CHR '':'' buf))) h2")
      case (Inl e)
      with False less.prems(2) l ls url show ?thesis by (subst (asm) headers_loop.simps) (auto split: if_splits)
    next
      case (Inr h3)
      with False less.prems(2) l have r: "headers_loop ops (bytes + n) h3 w2 = (ok, h1, w1)"
        by (subst (asm) headers_loop.simps) (auto split: if_splits)
      note hf = header_field_sess [OF Inr]
      have "nat (16385 - (bytes + n)) < nat (16385 - bytes)" using False by linarith
      from less.hyps [OF this _ r] ls url hf False show ?thesis by auto
    qed
  qed
qed

lemma headers_sess:
  assumes "net_kept ops c Q" "sess c Q h w" "headers ops h w = (ok, h1, w1)"
  shows "sess c Q h1 w1 \<and> h_url h1 = h_url h \<and>
    (\<not> ok \<longrightarrow> h_failed h1) \<and> (ok \<longrightarrow> h_failed h1 = h_failed h \<and> (fresh h \<longrightarrow> fresh h1) \<and> h_remaining h1 = h_length h1 \<and> (h_chunked h1 \<longrightarrow> h_length h1 < 0))"
proof -
  obtain n buf h2 w2 where l: "line ops h 4096 w = ((n, buf), h2, w2)" by (metis surj_pair)
  note ls = line_sess [OF assms(1,2) l] and st = line_strip [OF l]
  have url: "h_url h2 = h_url h" "fresh h2 = fresh h" using strip_fields(7) [OF st] fresh_strip [OF st] by simp_all
  show ?thesis
  proof (cases "n < 0 \<or> scan_status buf = None")
    case True
    with assms(3) l ls url show ?thesis by (auto simp: headers_def split: if_splits option.splits)
  next
    case False
    then obtain st where "scan_status buf = Some st" by blast
    with False assms(3) l have r: "headers_loop ops 0 (h2\<lparr>h_status := st\<rparr>) w2 = (ok, h1, w1)" by (simp add: headers_def)
    from headers_loop_sess [OF assms(1) _ r] ls url False show ?thesis by (auto simp: fresh_def)
  qed
qed

lemma send_all_sess:
  assumes k: "net_kept ops c Q"
  shows "sess c Q h w \<Longrightarrow> send_all ops h p w = (ok, h1, w1) \<Longrightarrow> sess c Q h1 w1 \<and> h_url h1 = h_url h \<and> (\<not> ok \<longrightarrow> h_failed h1) \<and> (ok \<longrightarrow> h1 = h)"
proof (induction "length p" arbitrary: p w rule: less_induct)
  case less
  then have c: "h_conn h = Some c" by (simp add: sess_def)
  obtain n w2 where n: "gc_net_write ops c p w = (n, w2)" by fastforce
  then have Q: "sess c Q h w2" using k less.prems(1) by (auto simp: net_kept_def sess_def dest!: spec [of _ p] spec [of _ w])
  show ?case
  proof (cases "p = [] \<or> n \<le> 0")
    case True
    with less.prems c n Q show ?thesis by (subst (asm) send_all.simps) (auto split: if_splits)
  next
    case False
    with less.prems c n have "send_all ops h (drop (nat n) p) w2 = (ok, h1, w1)"
      by (subst (asm) send_all.simps) auto
    moreover have "length (drop (nat n) p) < length p" using False by auto
    ultimately show ?thesis using less.hyps Q by blast
  qed
qed

section \<open>Opening\<close>

text \<open>What a successful open promises of the client.\<close>

definition http_ready :: "http_args \<Rightarrow> 'n gc_http \<Rightarrow> bool" where
  "http_ready a h = (\<not> h_failed h \<and> 200 \<le> h_status h \<and> h_status h < 300 \<and> h_eof h = (h_status h = 204) \<and>
     h_chunk_left h = 0 \<and> \<not> h_chunk_crlf h \<and> h_remaining h = h_length h \<and> h_length h \<ge> - 1 \<and>
     (h_chunked h \<longrightarrow> h_length h < 0) \<and>
     (a_offset a > 0 \<longrightarrow> h_status h = 206) \<and>
     (h_status h = 206 \<longrightarrow> h_range_start h = a_offset a \<and>
        (h_length h \<ge> 0 \<longrightarrow> h_length h = h_range_end h - h_range_start h + 1)))"

lemma http_start_sess: "Q w \<Longrightarrow> sess c Q ((http_start cur)\<lparr>h_conn := Some c\<rparr>) w"
  by (simp add: http_start_def http_zero_def sess_def)

lemma http_start_fields [simp]:
  "fresh ((http_start cur)\<lparr>h_conn := x\<rparr>)" "h_url (http_start cur) = cur" "\<not> h_failed (http_start cur)" "h_conn (http_start cur) = None"
  by (simp_all add: http_start_def http_zero_def fresh_def)

lemma http_exchange_sess:
  assumes k: "net_kept ops c Q" and s: "sess c Q h w" and e: "http_exchange ops a u h w = (ok, h1, w1)"
  shows "sess c Q h1 w1 \<and> h_url h1 = h_url h \<and>
    (\<not> ok \<longrightarrow> h_failed h1) \<and> (ok \<longrightarrow> h_failed h1 = h_failed h \<and> (fresh h \<longrightarrow> fresh h1) \<and> h_remaining h1 = h_length h1 \<and> (h_chunked h1 \<longrightarrow> h_length h1 < 0))"
proof -
  obtain ok2 h2 w2 where 2: "send_all ops h (http_request a u) w = (ok2, h2, w2)" by (metis surj_pair)
  note s2 = send_all_sess [OF k s 2]
  obtain ok3 h3 w3 where 3: "(case a_body a of None \<Rightarrow> (True, h2, w2) | Some b \<Rightarrow> send_all ops h2 b w2) = (ok3, h3, w3)"
    by (metis surj_pair)
  have s3: "sess c Q h3 w3 \<and> h_url h3 = h_url h2 \<and> (\<not> ok3 \<longrightarrow> h_failed h3) \<and> (ok3 \<longrightarrow> h3 = h2)"
    using 3 s2 send_all_sess [OF k] by (auto split: option.splits)
  show ?thesis
  proof (cases "ok2 \<and> ok3")
    case True
    with e 2 3 have "headers ops h3 w3 = (ok, h1, w1)" by (simp add: http_exchange_def)
    from headers_sess [OF k _ this] s2 s3 True show ?thesis by auto
  next
    case False
    with e 2 3 s2 s3 show ?thesis by (auto simp: http_exchange_def split: if_splits)
  qed
qed

lemma response_ready:
  "response_error a h = None \<Longrightarrow> fresh h \<Longrightarrow> \<not> h_failed h \<Longrightarrow> h_remaining h = h_length h \<Longrightarrow> (h_chunked h \<Longrightarrow> h_length h < 0) \<Longrightarrow>
   http_ready a (h\<lparr>h_eof := h_status h = 204\<rparr>)"
  by (auto simp: response_error_def fresh_def http_ready_def split: if_splits)

lemma open_loop_cases:
  assumes "open_loop ops a cancel k cur w = (ok, h, w1)"
  obtains (unconnected) "\<not> ok" "h_conn h = None" "h_url h = cur" "\<not> h_fault h" "h_failed h"
      "h_begin h = 0" "h_end h = 0" "h_buffer h = []" "w1 = w \<or> (\<exists>(u :: gc_http_url) e. gc_net_open ops (host u) (port u) (tls u) cancel w = (Inl e, w1))"
  | (ended) u c w2 where "gc_http_parse_url cur = Some u" "gc_net_open ops (host u) (port u) (tls u) cancel w = (Inr c, w2)"
      "h_url h = cur" "\<And>Q. net_kept ops c Q \<Longrightarrow> Q w2 \<Longrightarrow> sess c Q h w1" "ok \<Longrightarrow> http_ready a h" "\<not> ok \<Longrightarrow> h_failed h"
  | (redirected) u c w2 h4 w4 nxt v where "gc_http_parse_url cur = Some u"
      "gc_net_open ops (host u) (port u) (tls u) cancel w = (Inr c, w2)"
      "\<And>Q. net_kept ops c Q \<Longrightarrow> Q w2 \<Longrightarrow> sess c Q h4 w4" "gc_http_parse_url nxt = Some v" "\<not> unsafe_redirect a u v" "k \<noteq> 0"
      "open_loop ops a cancel (k - 1) nxt (snd (gc_http_close ops h4 w4)) = (ok, h, w1)"
proof (cases "gc_http_parse_url cur")
  case None
  with assms show ?thesis
    by (subst (asm) open_loop.simps) (rule unconnected; auto simp: http_start_def http_zero_def)
next
  case (Some u)
  show ?thesis
  proof (cases "gc_net_open ops (host u) (port u) (tls u) cancel w")
    case (Pair r w2)
    show ?thesis
    proof (cases r)
      case (Inl e)
      with assms Some Pair have "w1 = w2" "\<not> ok" "h = (http_start cur)\<lparr>h_error := c_trunc 160 e, h_failed := True\<rparr>"
        by (subst (asm) open_loop.simps, simp)+
      with Pair Inl show ?thesis by (intro unconnected) (auto simp: http_start_def http_zero_def)
    next
      case (Inr c)
      let ?h1 = "(http_start cur)\<lparr>h_conn := Some c\<rparr>"
      obtain ok4 h4 w4 where e: "http_exchange ops a u ?h1 w2 = (ok4, h4, w4)" by (metis surj_pair)
      have s4: "\<And>Q. net_kept ops c Q \<Longrightarrow> Q w2 \<Longrightarrow> sess c Q h4 w4"
        using http_exchange_sess [OF _ http_start_sess e] by blast
      have triv: "net_kept ops c (\<lambda>w. True)" by (simp add: net_kept_def)
      note x = http_exchange_sess [OF triv http_start_sess [OF TrueI] e]
      have here: thesis if "h_url h = cur" "\<And>Q. net_kept ops c Q \<Longrightarrow> Q w2 \<Longrightarrow> sess c Q h w1" "ok \<Longrightarrow> http_ready a h"
          "\<not> ok \<Longrightarrow> h_failed h"
        using ended [OF Some Pair [unfolded Inr]] that by blast
      show ?thesis
      proof (cases "with_auth a \<and> length (the (a_auth a)) > 1024 \<or> length (http_request a u) \<ge> 8192")
        case True
        with assms Some Pair Inr show ?thesis
          by (subst (asm) open_loop.simps) (rule here; auto simp: Let_def split: if_splits intro: http_start_sess)
      next
        case False
        from assms Some Pair Inr e consider
            (stop) m where "\<not> ok" "h = h4 \<and> \<not> ok4 \<or> h = fail h4 m" "w1 = w4"
          | (accept) "ok" "ok4" "h = h4\<lparr>h_eof := h_status h4 = 204\<rparr>" "w1 = w4" "response_error a h4 = None"
          | (again) nxt v where "gc_http_parse_url nxt = Some v" "\<not> unsafe_redirect a u v" "k \<noteq> 0"
              "open_loop ops a cancel (k - 1) nxt (snd (gc_http_close ops h4 w4)) = (ok, h, w1)"
          by (subst (asm) open_loop.simps) (use False in \<open>auto simp: Let_def split: if_splits option.splits\<close>)
        then show ?thesis
        proof cases
          case stop
          with s4 x show ?thesis by (intro here) auto
        next
          case accept
          with s4 x response_ready [OF accept(5)] show ?thesis by (intro here) auto
        next
          case again
          with redirected [OF Some _ s4] Pair Inr show ?thesis by blast
        qed
      qed
    qed
  qed
qed

definition same_origin :: "gc_http_url \<Rightarrow> gc_http_url \<Rightarrow> bool" where
  "same_origin u v = (tls u = tls v \<and> port u = port v \<and> c_strcasecmp (host u) (host v))"

lemma same_origin_trans: "same_origin u v \<Longrightarrow> same_origin v x \<Longrightarrow> same_origin u x"
  by (simp add: same_origin_def c_strcasecmp_def)

lemma safe_redirect: "\<not> unsafe_redirect a u v \<Longrightarrow> (tls u \<longrightarrow> tls v) \<and> (with_auth a \<longrightarrow> same_origin u v)"
  by (auto simp: unsafe_redirect_def same_origin_def)

lemma open_loop_url:
  "open_loop ops a cancel k cur w = (ok, h, w1) \<Longrightarrow> gc_http_parse_url cur = Some u \<Longrightarrow>
   \<exists>v. gc_http_parse_url (h_url h) = Some v \<and> (tls u \<longrightarrow> tls v) \<and> (with_auth a \<longrightarrow> same_origin u v)"
proof (induction k arbitrary: cur w u rule: less_induct)
  case (less k)
  from less.prems(1) show ?case
  proof (cases rule: open_loop_cases)
    case (redirected u2 c w2 h4 w4 nxt v)
    from less.IH [OF _ redirected(7,4)] redirected(6) obtain x where
      "gc_http_parse_url (h_url h) = Some x" "tls v \<longrightarrow> tls x" "with_auth a \<longrightarrow> same_origin v x"
      by auto
    with safe_redirect [OF redirected(5)] redirected(1) less.prems(2) same_origin_trans show ?thesis by auto
  qed (use less.prems in \<open>auto simp: same_origin_def c_strcasecmp_def\<close>)
qed

lemma open_loop_ready:
  "open_loop ops a cancel k cur w = (ok, h, w1) \<Longrightarrow>
   (ok \<longrightarrow> http_ready a h \<and> h_conn h \<noteq> None) \<and> (\<not> ok \<longrightarrow> h_failed h) \<and> \<not> h_fault h \<and> h_begin h \<le> h_end h \<and> h_end h = length (h_buffer h)"
proof (induction k arbitrary: cur w rule: less_induct)
  case (less k)
  from less.prems show ?case
  proof (cases rule: open_loop_cases)
    case unconnected
    then show ?thesis by simp
  next
    case (ended u c w2)
    have "net_kept ops c (\<lambda>w. True)" by (simp add: net_kept_def)
    from ended(4) [OF this TrueI] ended(5,6) show ?thesis by (auto simp: sess_def)
  next
    case (redirected u2 c w2 h4 w4 nxt v)
    with less.IH [OF _ redirected(7)] show ?thesis by simp
  qed
qed

lemma tracked_kept: "conn_cancel c = track_cancel cc \<Longrightarrow> net_kept (track ops) c (\<lambda>w. resources w = R)"
  unfolding net_kept_def
  by (metis net_read_resources net_write_resources prod.collapse)

lemma open_loop_resources:
  "open_loop (track ops) a (track_cancel cc) k cur w = (ok, h, w1) \<Longrightarrow>
   (case h_conn h of None \<Rightarrow> resources w1 = resources w
    | Some c \<Rightarrow> conn_fd c \<ge> 0 \<and> conn_cancel c = track_cancel cc \<and> resources w1 = (conn_fd c # fst (resources w),
        if conn_tls c then conn_fd c # snd (resources w) else snd (resources w)))"
proof (induction k arbitrary: cur w rule: less_induct)
  case (less k)
  from less.prems show ?case
  proof (cases rule: open_loop_cases)
    case unconnected
    from unconnected(9) unconnected(2) show ?thesis
      by (auto dest!: net_open_resources)
  next
    case (ended u c w2)
    note o = net_open_resources [OF ended(2), simplified]
    from ended(4) [OF tracked_kept, of cc "resources w2"] o show ?thesis by (auto simp: sess_def)
  next
    case (redirected u c w2 h4 w4 nxt v)
    note o = net_open_resources [OF redirected(2), simplified]
    from redirected(3) [OF tracked_kept, of cc "resources w2"] o
    have "h_conn h4 = Some c" "resources w4 = resources w2" by (auto simp: sess_def)
    then have "resources (snd (gc_http_close (track ops) h4 w4)) = resources w"
      using o by (auto simp: gc_http_close_def net_close_releases prod_eq_iff)
    with less.IH [OF _ redirected(7)] redirected(6) show ?thesis by (auto split: option.splits)
  qed
qed

section \<open>A concrete run\<close>

lemma script_read:
  assumes "0 < len" and "conn_tls c = False" "conn_cancel c = None" and that: "[] \<notin> set (net w)"
  shows "gc_net_read script_ops c len w = (case script_recv (nat len) (net w) of
     (Inr x, n) \<Rightarrow> ((int (length x), x), w\<lparr>net := n\<rparr>) | (Inl r, n) \<Rightarrow> gc_net_read script_ops c len w)"
proof (cases "net w")
  case Nil
  with assms show ?thesis
    by (subst gc_net_read_def)
       (simp add: transfer_def now_ms_def script_ops_def transfer_loop.simps cancelled_def read_call_def net_recv_def read_result_def)
next
  case (Cons b bs)
  with that have "b \<noteq> []" by auto
  with Cons assms show ?thesis
    by (subst gc_net_read_def)
       (simp add: transfer_def now_ms_def script_ops_def transfer_loop.simps cancelled_def read_call_def net_recv_def read_result_def)
qed

lemma script_feeds:
  assumes "conn_tls c = False" "conn_cancel c = None" "[] \<notin> set (net w)" "bs = concat (net w)"
  shows "feeds script_ops c bs w"
  using assms(3,4)
proof (coinduction arbitrary: bs w)
  case feeds
  have "\<exists>x b1 w1. bs = x @ b1 \<and> gc_net_read script_ops c len w = ((int (length x), x), w1) \<and> (x = [] \<longrightarrow> bs = []) \<and>
      [] \<notin> set (net w1) \<and> b1 = concat (net w1)" if "0 < len" for len
  proof (cases "net w")
    case Nil
    with feeds script_read [OF that assms(1,2), of w] show ?thesis by auto
  next
    case (Cons b fs)
    let ?n1 = "if length b \<le> nat len then fs else drop (nat len) b # fs"
    have ne: "b \<noteq> []" "[] \<notin> set fs" using Cons feeds by auto
    with Cons feeds that script_read [OF that assms(1,2), of w]
    have "gc_net_read script_ops c len w = ((int (length (take (nat len) b)), take (nat len) b), w\<lparr>net := ?n1\<rparr>)"
      by simp
    moreover have "bs = take (nat len) b @ concat ?n1" "[] \<notin> set ?n1" using ne Cons feeds by auto
    ultimately show ?thesis using ne that
      by (intro exI [of _ "take (nat len) b"] exI [of _ "concat ?n1"] exI [of _ "w\<lparr>net := ?n1\<rparr>"]) simp
  qed
  then show ?case by fastforce
qed

definition demo_args :: http_args where
  "demo_args = \<lparr>a_method = ''GET'', a_auth = Some ''dTpw'', a_body = None, a_depth = - 1, a_offset = 0, a_icy = False\<rparr>"

definition demo_world :: "string list world" where
  "demo_world = \<lparr>clock = 0, net = [''HTTP/1.1 302 F'' @ crlf @ ''Location: /b'' @ crlf @ crlf,
     ''HTTP/1.1 200 OK'' @ crlf @ ''Content-'', ''Length: 2'' @ crlf @ crlf @ ''hi''], dns = dns_start\<rparr>"

text \<open>A concrete run with a redirect, used by the witnesses.\<close>

lemma http_demo:
  "case gc_http_open script_ops ''http://nas/a'' demo_args None demo_world of
     (ok, h, w1) \<Rightarrow> ok \<and> h_length h = 2 \<and> h_url h = ''http://nas:80/b''"
  by code_simp

lemma http_demo_parse: "gc_http_parse_url ''http://nas/a'' = Some \<lparr>host = ''nas'', path = ''/a'', port = 80, tls = False\<rparr>"
  by code_simp

section \<open>Properties\<close>

text \<open>
  (C8) Redirects are safe: whatever the servers answer, and whether the request succeeds or not, the
  last URL the client contacts is reached from the requested one without a TLS downgrade, and when
  credentials are sent it has the same scheme, port and (up to case) host.
\<close>

theorem http_redirects_safe:
  assumes "gc_http_open ops url a cancel w = (ok, h, w1)" and "gc_http_parse_url url = Some u" and "h_url h \<noteq> []"
  shows "\<exists>v. gc_http_parse_url (h_url h) = Some v \<and> (tls u \<longrightarrow> tls v) \<and> (with_auth a \<longrightarrow> same_origin u v)"
proof -
  obtain ok2 h2 w2 where l: "open_loop ops a cancel 5 url w = (ok2, h2, w2)" by (metis surj_pair)
  have "h_url h = h_url h2"
    using assms l by (auto simp: gc_http_open_def Let_def gc_http_close_def http_zero_def fail_def split: if_splits option.splits)
  with open_loop_url [OF l assms(2)] show ?thesis by simp
qed

theorem http_redirects_safe_witness:
  "\<exists>h w1 v. gc_http_open script_ops ''http://nas/a'' demo_args None demo_world = (True, h, w1) \<and>
     gc_http_parse_url (h_url h) = Some v \<and> same_origin \<lparr>host = ''nas'', path = ''/a'', port = 80, tls = False\<rparr> v"
proof -
  obtain h w1 where r: "gc_http_open script_ops ''http://nas/a'' demo_args None demo_world = (True, h, w1)" "h_url h \<noteq> []"
    using http_demo by (auto split: prod.splits)
  have "with_auth demo_args" by (simp add: with_auth_def demo_args_def)
  with http_redirects_safe [OF r(1) http_demo_parse r(2)] r(1) show ?thesis by auto
qed

text \<open>
  A request never leaks a connection: when \<open>gc_http_open\<close> fails, after any number of redirects,
  exactly the sockets and TLS sessions are open that were open before and the client holds no
  connection; when it succeeds the client holds the only new one, and \<open>gc_http_close\<close> gives it back.
\<close>

theorem http_open_no_leak:
  "case gc_http_open (track ops) url a (track_cancel cancel) w of
     (False, h, w1) \<Rightarrow> h_conn h = None \<and> resources w1 = resources w
   | (True, h, w1) \<Rightarrow> h_conn h \<noteq> None \<and> resources (snd (gc_http_close (track ops) h w1)) = resources w"
proof -
  obtain ok2 h2 w2 where l: "open_loop (track ops) a (track_cancel cancel) 5 url w = (ok2, h2, w2)" by (metis surj_pair)
  note r = open_loop_resources [OF l] and e = open_loop_ready [OF l]
  have closed: "resources (snd (gc_http_close (track ops) h2 w2)) = resources w"
    using r by (cases "h_conn h2") (auto simp: gc_http_close_def net_close_releases prod_eq_iff)
  have refused: "h_conn (fail (http_zero :: 'a tracked gc_http) m) = None" for m by (simp add: http_zero_def)
  have conn: "h_conn (fst (gc_http_close (track ops) h2 w2)) = None" by (simp add: gc_http_close_def)
  show ?thesis
    using l e closed refused conn
    by (cases "gc_http_close (track ops) h2 w2") (simp add: gc_http_open_def Let_def split: option.split)
qed

text \<open>
  What a successful request guarantees, for any server: a 2xx status; a body framing that is not
  ambiguous (chunked excludes Content-Length); when a positive offset was asked for, a 206 answer whose
  range starts exactly there and whose Content-Length, if any, is the length of the range; and
  a reader in its initial state on a live connection.
\<close>

theorem http_open_ready:
  assumes "gc_http_open ops url a cancel w = (True, h, w1)"
  shows "http_ready a h \<and> h_conn h \<noteq> None \<and> \<not> h_fault h"
proof -
  obtain ok2 h2 w2 where l: "open_loop ops a cancel 5 url w = (ok2, h2, w2)" by (metis surj_pair)
  with assms have "ok2 \<and> h = h2"
    by (auto simp: gc_http_open_def Let_def split: if_splits option.splits prod.splits)
  with open_loop_ready [OF l] show ?thesis by simp
qed

theorem http_open_ready_witness:
  "\<exists>h w1. gc_http_open script_ops ''http://nas/a'' demo_args None demo_world = (True, h, w1) \<and> http_ready demo_args h"
proof -
  obtain h w1 where r: "gc_http_open script_ops ''http://nas/a'' demo_args None demo_world = (True, h, w1)"
    using http_demo by (auto split: prod.splits)
  from http_open_ready [OF r] r show ?thesis by auto
qed

text \<open>
  (C2) The body arrives intact: for each of the three framings (chunked with any sizes, extensions and
  trailers; Content-Length; until close), however the network fragments the bytes and whatever
  positive sizes the caller asks for, the reads in order return exactly the message body.
\<close>

theorem http_body_delivered:
  assumes "http_body ops b (h, w)" and "\<forall>l\<in>set lens. 0 < l" and "length b \<le> length lens"
  shows "fst (read_seq (http_rd ops) lens (h, w)) = b"
  using assms by (rule http_src.read_all)

theorem http_body_delivered_witness:
  "fst (read_seq (http_rd script_ops) [2, 1, 9, 9, 9]
     (http_zero\<lparr>h_conn := Some \<lparr>conn_fd = 5, conn_tls = False, conn_cancel = None\<rparr>, h_chunked := True\<rparr>,
      \<lparr>clock = 0, net = [''5'', crlf @ ''hel'', ''lo'' @ crlf @ ''0'' @ crlf, crlf], dns = dns_start\<rparr>)) = ''hello''"
proof -
  let ?frs = "[''5'', crlf @ ''hel'', ''lo'' @ crlf @ ''0'' @ crlf, crlf]"
  have "chunk_stream (''0'' @ crlf @ concat (map (\<lambda>t. t @ crlf) []) @ crlf @ []) []"
    by (rule last_chunk) (code_simp | simp)+
  then have "chunk_stream (''5'' @ crlf @ ''hello'' @ crlf @ (''0'' @ crlf @ crlf)) (''hello'' @ [])"
    by (intro chunk_stream.next_chunk) (code_simp | simp)+
  moreover have "feeds script_ops \<lparr>conn_fd = 5, conn_tls = False, conn_cancel = None\<rparr> (concat ?frs) \<lparr>clock = 0, net = ?frs, dns = dns_start\<rparr>"
    by (rule script_feeds) (auto simp: crlf_def)
  ultimately show ?thesis
    by (intro http_body_delivered http_body.first_chunk) (auto simp: http_zero_def holds_def pending_def)
qed

lemma read_body_bound:
  assumes "read_body ops h len w = (a, h1, w1)" and "\<not> h_chunked h" and "h_remaining h \<ge> 0" and "len \<le> h_remaining h"
    and "0 < len" "h_begin h \<le> h_end h" "h_end h = length (h_buffer h)"
  shows "int (length (snd a)) \<le> h_remaining h \<and> \<not> h_chunked h1 \<and> h_begin h1 \<le> h_end h1 \<and> h_end h1 = length (h_buffer h1) \<and>
    0 \<le> h_remaining h1 \<and> h_remaining h1 + int (length (snd a)) = h_remaining h"
proof -
  obtain n bs h2 w2 where r: "raw_read ops h len w = ((n, bs), h2, w2)" by (metis surj_pair)
  note f = strip_fields(2,4) [OF raw_read_strip [OF r]]
  have "h_begin h2 \<le> h_end h2 \<and> h_end h2 = length (h_buffer h2) \<and> (n \<ge> 0 \<longrightarrow> n = int (length bs) \<and> n \<le> len)"
    using r assms gc_net_read_ok [of 4096 ops "the (h_conn h)" w]
    by (auto simp: raw_read_def Let_def read_ok_def split: if_splits option.splits prod.splits)
  with assms r f show ?thesis by (auto simp: read_body_def split: if_splits)
qed

lemma http_read_bound:
  assumes "gc_http_read ops h len w = (a, h1, w1)" and "\<not> h_chunked h" "h_remaining h \<ge> 0"
    "h_begin h \<le> h_end h" "h_end h = length (h_buffer h)"
  shows "\<not> h_chunked h1 \<and> h_begin h1 \<le> h_end h1 \<and> h_end h1 = length (h_buffer h1) \<and>
    0 \<le> h_remaining h1 \<and> h_remaining h1 + int (length (snd a)) = h_remaining h"
proof (cases "h_failed h \<or> h_eof h \<or> len \<le> 0 \<or> h_remaining h = 0")
  case True
  with assms show ?thesis by (auto simp: gc_http_read_def split: if_splits)
next
  case False
  with assms have "read_body ops h (min len (h_remaining h)) w = (a, h1, w1)" by (simp add: gc_http_read_def)
  from read_body_bound [OF this] assms False show ?thesis by auto
qed

lemma read_seq_bound:
  "\<not> h_chunked h \<Longrightarrow> h_remaining h \<ge> 0 \<Longrightarrow> h_begin h \<le> h_end h \<Longrightarrow> h_end h = length (h_buffer h) \<Longrightarrow>
   int (length (fst (read_seq (http_rd ops) lens (h, w)))) \<le> h_remaining h"
proof (induction lens arbitrary: h w)
  case (Cons l ls)
  obtain n bs h1 w1 where r: "gc_http_read ops h l w = ((n, bs), h1, w1)" by (metis surj_pair)
  note b = http_read_bound [OF r Cons.prems]
  from Cons.IH [of h1 w1] b r show ?case
    by (auto simp: http_rd_def split: prod.splits)
qed simp

text \<open>
  A hostile server cannot make the reader overrun: with a Content-Length, in any environment and
  for any sequence of reads, no more bytes than that are ever delivered.
\<close>

theorem http_content_length_bound:
  assumes "gc_http_open ops url a cancel w = (True, h, w1)" and "0 \<le> h_length h"
  shows "int (length (fst (read_seq (http_rd ops) lens (h, w1)))) \<le> h_length h"
proof -
  obtain ok2 h2 w2 where l: "open_loop ops a cancel 5 url w = (ok2, h2, w2)" by (metis surj_pair)
  with assms have "ok2 \<and> h = h2"
    by (auto simp: gc_http_open_def Let_def split: if_splits option.splits prod.splits)
  with open_loop_ready [OF l] assms(2) read_seq_bound [of h ops lens w1] show ?thesis
    by (auto simp: http_ready_def)
qed

theorem http_content_length_bound_witness:
  "\<exists>h w1. gc_http_open script_ops ''http://nas/a'' demo_args None demo_world = (True, h, w1) \<and>
     int (length (fst (read_seq (http_rd script_ops) [1, 7, 9] (h, w1)))) \<le> 2"
proof -
  obtain h w1 where r: "gc_http_open script_ops ''http://nas/a'' demo_args None demo_world = (True, h, w1)" "h_length h = 2"
    using http_demo by (auto split: prod.splits)
  from http_content_length_bound [OF r(1), of "[1, 7, 9]"] r show ?thesis by auto
qed

lemma trailers_sess:
  assumes k: "net_kept ops c Q"
  shows "sess c Q h w \<Longrightarrow> trailers_loop ops tot h w = (ok, h1, w1) \<Longrightarrow> sess c Q h1 w1"
proof (induction "nat (16385 - tot)" arbitrary: tot h w rule: less_induct)
  case less
  obtain n t h2 w2 where l: "line ops h 256 w = ((n, t), h2, w2)" by (metis surj_pair)
  note ls = line_sess [OF k less.prems(1) l]
  show ?case
  proof (cases "n < 0 \<or> tot + n > 16384 \<or> n \<le> 1")
    case True
    with less.prems l ls show ?thesis by (subst (asm) trailers_loop.simps) (auto split: if_splits)
  next
    case False
    with less.prems l have r: "trailers_loop ops (tot + n) h2 w2 = (ok, h1, w1)"
      by (subst (asm) trailers_loop.simps) simp
    have "nat (16385 - (tot + n)) < nat (16385 - tot)" using False by linarith
    from less.hyps [OF this _ r] ls show ?thesis by blast
  qed
qed

lemma next_chunk_sess:
  assumes k: "net_kept ops c Q" and s: "sess c Q h w" and n: "next_chunk ops h w = (ok, h1, w1)"
  shows "sess c Q h1 w1"
proof -
  obtain ok1 h2 w2 where 1: "(if h_chunk_crlf h then let ((n, t), h1, w1) = line ops h 256 w in (n = 1, h1, w1) else (True, h, w))
      = (ok1, h2, w2)" by (metis surj_pair)
  have s2: "sess c Q h2 w2" using 1 s line_sess [OF k s] by (auto split: if_splits prod.splits)
  obtain m t h3 w3 where 2: "line ops h2 256 w2 = ((m, t), h3, w3)" by (metis surj_pair)
  have s3: "sess c Q h3 w3" using line_sess [OF k s2 2] by simp
  let ?h4 = "h3\<lparr>h_chunk_left := 0, h_chunk_crlf := True\<rparr>"
  obtain ok5 h5 w5 where 5: "trailers_loop ops 0 ?h4 w3 = (ok5, h5, w5)" by (metis surj_pair)
  have "sess c Q h5 w5" using trailers_sess [OF k _ 5] s3 by simp
  then show ?thesis
    using n 1 2 5 s2 s3
    unfolding next_chunk_def by (auto simp: Let_def split: if_splits option.splits)
qed

lemma http_read_sess:
  assumes k: "net_kept ops c Q" and s: "sess c Q h w" and r: "gc_http_read ops h len w = (a, h1, w1)"
  shows "sess c Q h1 w1"
proof -
  have body: "sess c Q h3 w3" if "sess c Q h2 w2" "read_body ops h2 l w2 = (b, h3, w3)" for h2 w2 l b h3 w3
    using that raw_read_sess [OF k that(1)] by (auto simp: read_body_def Let_def split: prod.splits if_splits)
  show ?thesis
    using r s next_chunk_sess [OF k s] body
    by (auto simp: gc_http_read_def Let_def split: if_splits prod.splits)
qed

lemma read_seq_sess:
  "net_kept ops c Q \<Longrightarrow> sess c Q h w \<Longrightarrow> read_seq (http_rd ops) lens (h, w) = (x, h1, w1) \<Longrightarrow> sess c Q h1 w1"
  by (induction lens arbitrary: h w x)
     (auto simp: http_rd_def split: prod.splits dest: http_read_sess)

lemma read_seq_failed:
  "h_failed h \<Longrightarrow> read_seq (http_rd ops) lens (h, w) = ([], h, w)"
  by (induction lens) (auto simp: http_rd_def gc_http_read_def)

text \<open>
  No null connection is ever used: after \<open>gc_http_open\<close>, successful or not, and any reads, in any
  environment, the client has not dereferenced a null connection; and once the open has failed every
  read just fails, without touching the network or the clock.
\<close>

theorem http_never_faults:
  assumes "gc_http_open ops url a cancel w = (ok, h, w1)" and "read_seq (http_rd ops) lens (h, w1) = (x, h2, w2)"
  shows "\<not> h_fault h2 \<and> (\<not> ok \<longrightarrow> x = [] \<and> w2 = w1)"
proof (cases ok)
  case True
  obtain ok2 h2' w2' where l: "open_loop ops a cancel 5 url w = (ok2, h2', w2')" by (metis surj_pair)
  with assms(1) True have "ok2 \<and> h = h2'"
    by (auto simp: gc_http_open_def Let_def split: if_splits option.splits prod.splits)
  with open_loop_ready [OF l] obtain c where "sess c (\<lambda>w. True) h w1" by (auto simp: sess_def)
  moreover have "net_kept ops c (\<lambda>w. True)" for c by (simp add: net_kept_def)
  ultimately have "sess c (\<lambda>w. True) h2 w2" using read_seq_sess assms(2) by blast
  with True show ?thesis by (simp add: sess_def)
next
  case False
  obtain ok2 h2' w2' where l: "open_loop ops a cancel 5 url w = (ok2, h2', w2')" by (metis surj_pair)
  have "h_failed h \<and> \<not> h_fault h"
    using assms(1) False l open_loop_ready [OF l]
    by (auto simp: gc_http_open_def Let_def gc_http_close_def http_zero_def fail_def split: if_splits option.splits)
  with read_seq_failed [of h ops lens w1] assms(2) False show ?thesis by simp
qed

theorem http_never_faults_witness:
  "\<exists>h w1. gc_http_open script_ops ''http://nas/a'' demo_args None demo_world = (True, h, w1) \<and>
     \<not> h_fault (fst (snd (read_seq (http_rd script_ops) [5, 5] (h, w1))))"
proof -
  obtain h w1 where r: "gc_http_open script_ops ''http://nas/a'' demo_args None demo_world = (True, h, w1)"
    using http_demo by (auto split: prod.splits)
  obtain x h2 w2 where "read_seq (http_rd script_ops) [5, 5] (h, w1) = (x, h2, w2)" by (metis surj_pair)
  with http_never_faults [OF r this] r show ?thesis by auto
qed

end
