(* ===== verification/Radio_Stream.thy ===== *)
theory Radio_Stream
  imports Http_Client
begin

text \<open>
  Internet radio (\<^verbatim>\<open>src/source/utils/radio_stream.c\<close>) and its MPlayer stream
  (\<^verbatim>\<open>src/source/mplayer/stream/stream_gc_http.c\<close>): the ICY protocol interleaves a metadata block after
  every \<open>icy-metaint\<close> bytes of audio. \<open>icy_raw\<close> specifies that interleaving; the theorem is that the
  player receives the audio and nothing else.
\<close>

section \<open>Definitions\<close>

record 'n gc_radio =
  r_http :: "'n gc_http"
  r_audio_left :: int
  r_title :: string
  r_title_changed :: bool

definition gc_radio_close :: "('n, 'z) net_ops_scheme \<Rightarrow> 'n gc_radio \<Rightarrow> 'n world \<Rightarrow> 'n gc_radio \<times> 'n world" where
  "gc_radio_close ops r w = (let (h, w1) = gc_http_close ops (r_http r) w in (r\<lparr>r_http := h\<rparr>, w1))"

definition radio_args :: http_args where
  "radio_args = \<lparr>a_method = ''GET'', a_auth = None, a_body = None, a_depth = - 1, a_offset = - 1, a_icy = True\<rparr>"

definition gc_radio_open ::
  "('n, 'z) net_ops_scheme \<Rightarrow> string \<Rightarrow> 'n cancel_fn \<Rightarrow> 'n world \<Rightarrow> bool \<times> 'n gc_radio \<times> 'n world" where
  "gc_radio_open ops url cancel w =
     (let (ok, h, w1) = gc_http_open ops url radio_args cancel w;
          r = \<lparr>r_http = h, r_audio_left = 0, r_title = [], r_title_changed = False\<rparr>
      in if \<not> ok then (False, r, w1)
         else if h_status h \<noteq> 200 then
           let (r2, w2) = gc_radio_close ops
                 (r\<lparr>r_http := h\<lparr>h_error := c_trunc 160 (''Unexpected radio HTTP status '' @ show_int (h_status h))\<rparr>\<rparr>) w1
           in (False, r2, w2)
         else (True, r\<lparr>r_audio_left := h_icy_interval h\<rparr>, w1))"

text \<open>The loop that fills the metadata block; \<open>need\<close> is \<open>len - used\<close>. \<open>None\<close> is a failed read.\<close>

function meta_loop ::
  "('n, 'z) net_ops_scheme \<Rightarrow> nat \<Rightarrow> 'n gc_http \<Rightarrow> 'n world \<Rightarrow> string option \<times> 'n gc_http \<times> 'n world" where
  "meta_loop ops need h w =
     (if need = 0 then (Some [], h, w)
      else let ((n, bs), h1, w1) = gc_http_read ops h (int need) w
      in if n \<le> 0 then (None, h1, w1)
         else let (r, h2, w2) = meta_loop ops (need - nat n) h1 w1 in (map_option ((@) bs) r, h2, w2))"
  by pat_completeness auto
termination by (relation "measure (\<lambda>(ops, need, h, w). need)") auto

declare meta_loop.simps [simp del]

text \<open>The title inside a metadata text, which is read as a C string.\<close>

definition icy_title :: "string \<Rightarrow> string option" where
  "icy_title m =
     (let s = takeWhile (\<lambda>c. c \<noteq> CHR 0x00) m
      in case c_strstr s (''StreamTitle='' @ [CHR 0x27]) of None \<Rightarrow> None
         | Some i \<Rightarrow> let t = drop (i + 13) s
             in case c_strstr t [CHR 0x27, CHR '';''] of None \<Rightarrow> None | Some j \<Rightarrow> Some (take j t))"

definition metadata :: "('n, 'z) net_ops_scheme \<Rightarrow> 'n gc_radio \<Rightarrow> 'n world \<Rightarrow> bool \<times> 'n gc_radio \<times> 'n world" where
  "metadata ops r w =
     (let ((n, bs), h1, w1) = gc_http_read ops (r_http r) 1 w; r1 = r\<lparr>r_http := h1\<rparr>
      in if n \<noteq> 1 then (False, r1, w1)
         else let blocks = ccode (hd bs)
         in if blocks = 0 then (True, r1\<lparr>r_audio_left := h_icy_interval h1\<rparr>, w1)
            else let (m, h2, w2) = meta_loop ops (blocks * 16) h1 w1; r2 = r1\<lparr>r_http := h2\<rparr>
            in case m of None \<Rightarrow> (False, r2, w2)
               | Some text \<Rightarrow>
                   let r3 = (case icy_title text of None \<Rightarrow> r2
                        | Some t \<Rightarrow> r2\<lparr>r_title := c_trunc 128 t, r_title_changed := True\<rparr>)
                   in (True, r3\<lparr>r_audio_left := h_icy_interval h2\<rparr>, w2))"

text \<open>The last part of \<open>gc_radio_read\<close>, once the audio count is known.\<close>

definition radio_audio ::
  "('n, 'z) net_ops_scheme \<Rightarrow> 'n gc_radio \<Rightarrow> int \<Rightarrow> 'n world \<Rightarrow> (int \<times> string) \<times> 'n gc_radio \<times> 'n world" where
  "radio_audio ops r len w =
     (let ((n, bs), h1, w1) = gc_http_read ops (r_http r) len w
      in ((n, bs), r\<lparr>r_http := h1, r_audio_left := (if n > 0 \<and> h_icy_interval h1 \<noteq> 0 then r_audio_left r - n else r_audio_left r)\<rparr>, w1))"

definition gc_radio_read ::
  "('n, 'z) net_ops_scheme \<Rightarrow> 'n gc_radio \<Rightarrow> int \<Rightarrow> 'n world \<Rightarrow> (int \<times> string) \<times> 'n gc_radio \<times> 'n world" where
  "gc_radio_read ops r len w =
     (if h_icy_interval (r_http r) \<noteq> 0 then
        (let (ok, r1, w1) = (if r_audio_left r = 0 then metadata ops r w else (True, r, w))
         in if \<not> ok then ((- 1, []), r1\<lparr>r_http := fail (r_http r1) ''Truncated ICY metadata''\<rparr>, w1)
            else radio_audio ops r1 (min len (r_audio_left r1)) w1)
      else radio_audio ops r len w)"

subsection \<open>The MPlayer stream\<close>

text \<open>The fields of \<open>stream_t\<close> that this stream uses, and the player's globals that it sets.\<close>

record 'n radio_stream =
  rs_radio :: "'n gc_radio"
  rs_eof :: bool
  rs_error :: bool
  rs_end_pos :: int
  rs_title :: string
  rs_title_changed :: bool
  rs_name :: string
  rs_name_changed :: bool
  rs_net_error :: "string option"

definition fill :: "('n, 'z) net_ops_scheme \<Rightarrow> 'n radio_stream \<Rightarrow> int \<Rightarrow> 'n world \<Rightarrow> (int \<times> string) \<times> 'n radio_stream \<times> 'n world" where
  "fill ops s len w =
     (let ((n, bs), r1, w1) = gc_radio_read ops (rs_radio s) len w;
          s1 = (if r_title_changed r1
                then s\<lparr>rs_radio := r1\<lparr>r_title_changed := False\<rparr>, rs_title := c_trunc 128 (r_title r1), rs_title_changed := True\<rparr>
                else s\<lparr>rs_radio := r1\<rparr>)
      in if n \<le> 0
         then ((- 1, []), s1\<lparr>rs_eof := True, rs_error := n < 0,
                 rs_net_error := (if n < 0 then Some (h_error (r_http r1)) else rs_net_error s1)\<rparr>, w1)
         else ((n, bs), s1, w1))"

text \<open>\<open>open_http\<close> in read mode; \<open>None\<close> is STREAM_ERROR, with the network error it reports.\<close>

definition open_http ::
  "('n, 'z) net_ops_scheme \<Rightarrow> string \<Rightarrow> 'n cancel_fn \<Rightarrow> 'n world \<Rightarrow> (string + 'n radio_stream) \<times> 'n world" where
  "open_http ops url cancel w =
     (let (ok, r, w1) = gc_radio_open ops url cancel w; h = r_http r
      in if \<not> ok then (Inl (h_error h), w1)
         else (Inr \<lparr>rs_radio = r, rs_eof = False, rs_error = False,
                 rs_end_pos = (if h_icy_interval h = 0 \<and> h_length h > 0 then h_length h else 0),
                 rs_title = [], rs_title_changed = True, rs_name = c_trunc 128 (h_icy_name h), rs_name_changed = True,
                 rs_net_error = None\<rparr>, w1))"

definition close_http :: "('n, 'z) net_ops_scheme \<Rightarrow> 'n radio_stream \<Rightarrow> 'n world \<Rightarrow> 'n world" where
  "close_http ops s w = snd (gc_radio_close ops (rs_radio s) w)"

section \<open>The interleaving\<close>

text \<open>
  \<open>icy_raw iv left raw audio\<close>: with \<open>left\<close> audio bytes before the next metadata block and one block after
  every \<open>iv\<close> bytes, the body \<open>raw\<close> carries \<open>audio\<close>. The stream ends inside an audio block.
\<close>

inductive icy_raw :: "nat \<Rightarrow> nat \<Rightarrow> string \<Rightarrow> string \<Rightarrow> bool" for iv where
  icy_end: "length a < left \<Longrightarrow> icy_raw iv left a a"
| icy_meta: "length a = left \<Longrightarrow> length m = ccode k * 16 \<Longrightarrow> icy_raw iv iv raw b \<Longrightarrow>
     icy_raw iv left (a @ k # m @ raw) (a @ b)"

definition radio_body :: "('n, 'z) net_ops_scheme \<Rightarrow> string \<Rightarrow> 'n gc_radio \<times> 'n world \<Rightarrow> bool" where
  "radio_body ops b s = (\<exists>raw. http_body ops raw (r_http (fst s), snd s) \<and>
     (let iv = h_icy_interval (r_http (fst s))
      in if iv = 0 then raw = b
         else 0 < iv \<and> 0 \<le> r_audio_left (fst s) \<and> r_audio_left (fst s) \<le> iv \<and> icy_raw (nat iv) (nat (r_audio_left (fst s))) raw b))"

section \<open>Facts\<close>

lemma http_step:
  assumes "http_body ops b (h, w)" and "0 < len"
  obtains x b1 h1 w1 where "b = x @ b1" "gc_http_read ops h len w = ((int (length x), x), h1, w1)" "http_body ops b1 (h1, w1)"
    "int (length x) \<le> len" "x = [] \<longrightarrow> b = []" "h_icy_interval h1 = h_icy_interval h"
proof -
  from http_src.step [OF assms] obtain x b1 s1 where
    "b = x @ b1" "http_rd ops len (h, w) = ((int (length x), x), s1)" "http_body ops b1 s1" "int (length x) \<le> len"
    "x = [] \<longrightarrow> b = []"
    by blast
  moreover from this have "gc_http_read ops h len w = ((int (length x), x), fst s1, snd s1)" by (simp add: http_rd_def)
  moreover from http_read_frame [OF this] have "h_icy_interval (fst s1) = h_icy_interval h" by (simp add: frame_def)
  ultimately show ?thesis using that [of x b1 "fst s1" "snd s1"] by simp
qed

lemma meta_loop_ok:
  assumes "http_body ops (m @ raw) (h, w)" and "length m = need"
  shows "\<exists>h1 w1. meta_loop ops need h w = (Some m, h1, w1) \<and> http_body ops raw (h1, w1) \<and> h_icy_interval h1 = h_icy_interval h"
  using assms
proof (induction need arbitrary: m h w rule: less_induct)
  case (less need)
  show ?case
  proof (cases "need = 0")
    case True
    with less.prems show ?thesis by (subst meta_loop.simps) simp
  next
    case False
    then have "0 < int need" by simp
    from http_step [OF less.prems(1) this] obtain x b1 h1 w1 where
      x: "m @ raw = x @ b1" "gc_http_read ops h (int need) w = ((int (length x), x), h1, w1)" "http_body ops b1 (h1, w1)"
        "int (length x) \<le> int need" "x = [] \<longrightarrow> m @ raw = []" "h_icy_interval h1 = h_icy_interval h"
      by metis
    then obtain m1 where m1: "m = x @ m1" "b1 = m1 @ raw" using less.prems(2) by (auto simp: append_eq_append_conv2)
    have "x \<noteq> []" using x(5) less.prems(2) False by auto
    with less.IH [of "length m1" m1 h1 w1] m1 x(3) less.prems(2) obtain h2 w2 where
      "meta_loop ops (length m1) h1 w1 = (Some m1, h2, w2)" "http_body ops raw (h2, w2)" "h_icy_interval h2 = h_icy_interval h1"
      by auto
    moreover have "need - nat (int (length x)) = length m1" using m1 less.prems(2) by simp
    ultimately show ?thesis using x m1 False \<open>x \<noteq> []\<close> by (subst meta_loop.simps) simp
  qed
qed

lemma metadata_ok:
  assumes "http_body ops (k # m @ raw) (r_http r, w)" and "length m = ccode k * 16"
  shows "\<exists>r1 w1. metadata ops r w = (True, r1, w1) \<and> http_body ops raw (r_http r1, w1) \<and>
    h_icy_interval (r_http r1) = h_icy_interval (r_http r) \<and> r_audio_left r1 = h_icy_interval (r_http r) \<and>
    r_title r1 = (case icy_title m of None \<Rightarrow> r_title r | Some t \<Rightarrow> c_trunc 128 t)"
proof -
  from http_step [OF assms(1), of 1] obtain x b1 h1 w1 where
    x: "k # m @ raw = x @ b1" "gc_http_read ops (r_http r) 1 w = ((int (length x), x), h1, w1)" "http_body ops b1 (h1, w1)"
      "int (length x) \<le> 1" "x = [] \<longrightarrow> k # m @ raw = []" "h_icy_interval h1 = h_icy_interval (r_http r)"
    by (metis zero_less_one)
  then have x2: "x = [k]" "b1 = m @ raw" by (cases x; auto)+
  show ?thesis
  proof (cases "ccode k = 0")
    case True
    then have "m = []" using assms(2) by simp
    moreover have "icy_title [] = None" by code_simp
    ultimately show ?thesis using x x2 True by (simp add: metadata_def)
  next
    case False
    from meta_loop_ok [OF x(3) [unfolded x2(2)] assms(2)] obtain h2 w2 where
      "meta_loop ops (ccode k * 16) h1 w1 = (Some m, h2, w2)" "http_body ops raw (h2, w2)" "h_icy_interval h2 = h_icy_interval h1"
      by blast
    with x x2 False show ?thesis by (simp add: metadata_def Let_def split: option.split)
  qed
qed

lemma icy_raw_split:
  assumes "icy_raw iv left raw b" and "raw = x @ raw1" and "length x \<le> left" and "0 < left"
  shows "\<exists>b1. b = x @ b1 \<and> icy_raw iv (left - length x) raw1 b1"
  using assms
proof (cases rule: icy_raw.cases)
  case icy_end
  with assms show ?thesis by (auto intro!: icy_raw.icy_end)
next
  case (icy_meta a m k raw2 b2)
  then obtain a1 where a1: "a = x @ a1" "raw1 = a1 @ k # m @ raw2"
    using assms by (auto simp: append_eq_append_conv2)
  have "icy_raw iv (left - length x) (a1 @ k # m @ raw2) (a1 @ b2)"
    using icy_meta a1 by (intro icy_raw.icy_meta) auto
  with icy_meta a1 show ?thesis by auto
qed

lemma icy_raw_empty: "icy_raw iv left [] b \<Longrightarrow> b = []"
  by (erule icy_raw.cases) auto

lemma icy_raw_none_left: "icy_raw iv 0 raw b \<Longrightarrow> \<exists>k m raw1. raw = k # m @ raw1 \<and> length m = ccode k * 16 \<and> icy_raw iv iv raw1 b"
  by (erule icy_raw.cases) auto

lemma radio_audio_step:
  assumes "http_body ops raw (r_http r, w)" and "icy_raw (nat iv) (nat (r_audio_left r)) raw b" and "h_icy_interval (r_http r) = iv"
    and "0 < r_audio_left r" "r_audio_left r \<le> iv" "0 < len"
  shows "\<exists>x b1 r1 w1. b = x @ b1 \<and> radio_audio ops r (min len (r_audio_left r)) w = ((int (length x), x), r1, w1) \<and>
    radio_body ops b1 (r1, w1) \<and> int (length x) \<le> len \<and> (x = [] \<longrightarrow> b = [])"
proof -
  have "0 < min len (r_audio_left r)" using assms by simp
  from http_step [OF assms(1) this] obtain x raw1 h1 w1 where
    x: "raw = x @ raw1" "gc_http_read ops (r_http r) (min len (r_audio_left r)) w = ((int (length x), x), h1, w1)"
      "http_body ops raw1 (h1, w1)" "int (length x) \<le> min len (r_audio_left r)" "x = [] \<longrightarrow> raw = []"
      "h_icy_interval h1 = iv"
    using assms(3) by metis
  have "length x \<le> nat (r_audio_left r)" "0 < nat (r_audio_left r)" using x(4) assms(4) by linarith+
  from icy_raw_split [OF assms(2) x(1) this] obtain b1 where
    b1: "b = x @ b1" "icy_raw (nat iv) (nat (r_audio_left r) - length x) raw1 b1"
    by blast
  let ?r1 = "r\<lparr>r_http := h1, r_audio_left := r_audio_left r - int (length x)\<rparr>"
  have "radio_audio ops r (min len (r_audio_left r)) w = ((int (length x), x), ?r1, w1)"
    using x assms(4,5) by (auto simp: radio_audio_def)
  moreover have "radio_body ops b1 (?r1, w1)"
    using x(3,4,6) b1(2) assms(4,5) by (auto simp: radio_body_def nat_diff_distrib intro!: exI [of _ raw1])
  moreover have "x = [] \<longrightarrow> b = []" using x(5) icy_raw_empty assms(2) by auto
  ultimately show ?thesis using b1(1) x(4) by (intro exI [of _ x] exI [of _ b1]) auto
qed

definition radio_rd :: "('n, 'z) net_ops_scheme \<Rightarrow> int \<Rightarrow> 'n gc_radio \<times> 'n world \<Rightarrow> (int \<times> string) \<times> 'n gc_radio \<times> 'n world" where
  "radio_rd ops len s = gc_radio_read ops (fst s) len (snd s)"

lemma radio_step:
  assumes "radio_body ops b (r, w)" and "0 < len"
  shows "\<exists>x b1 r1 w1. b = x @ b1 \<and> gc_radio_read ops r len w = ((int (length x), x), r1, w1) \<and>
    radio_body ops b1 (r1, w1) \<and> int (length x) \<le> len \<and> (x = [] \<longrightarrow> b = [])"
proof -
  define iv where "iv = h_icy_interval (r_http r)"
  from assms(1) obtain raw where raw: "http_body ops raw (r_http r, w)"
    and alt: "if iv = 0 then raw = b else 0 < iv \<and> 0 \<le> r_audio_left r \<and> r_audio_left r \<le> iv \<and> icy_raw (nat iv) (nat (r_audio_left r)) raw b"
    using assms(1) unfolding radio_body_def Let_def fst_conv snd_conv iv_def [symmetric] by blast
  consider "iv = 0" | "iv \<noteq> 0" "r_audio_left r = 0" | "iv \<noteq> 0" "0 < r_audio_left r" using alt by fastforce
  then show ?thesis
  proof cases
    case 1
    from http_step [OF raw assms(2)] obtain x b1 h1 w1 where
      "raw = x @ b1" "gc_http_read ops (r_http r) len w = ((int (length x), x), h1, w1)" "http_body ops b1 (h1, w1)"
      "int (length x) \<le> len" "x = [] \<longrightarrow> raw = []" "h_icy_interval h1 = iv"
      using iv_def by metis
    then show ?thesis using alt 1 iv_def
      by (intro exI [of _ x] exI [of _ b1] exI [of _ "r\<lparr>r_http := h1\<rparr>"] exI [of _ w1])
         (auto simp: gc_radio_read_def radio_audio_def radio_body_def)
  next
    case 2
    with alt icy_raw_none_left [of "nat iv" raw b] obtain k m raw1 where
      k: "raw = k # m @ raw1" "length m = ccode k * 16" "icy_raw (nat iv) (nat iv) raw1 b"
      by auto
    from metadata_ok [OF raw [unfolded k(1)] k(2)] obtain r1 w1 where
      m: "metadata ops r w = (True, r1, w1)" "http_body ops raw1 (r_http r1, w1)" "h_icy_interval (r_http r1) = iv" "r_audio_left r1 = iv"
      using iv_def by auto
    have "gc_radio_read ops r len w = radio_audio ops r1 (min len (r_audio_left r1)) w1"
      using 2 m by (simp add: gc_radio_read_def iv_def)
    with radio_audio_step [OF m(2) _ m(3) _ _ assms(2)] k(3) m(4) alt 2 show ?thesis by auto
  next
    case 3
    then have "gc_radio_read ops r len w = radio_audio ops r (min len (r_audio_left r)) w"
      by (simp add: gc_radio_read_def iv_def)
    with radio_audio_step [OF raw _ iv_def [symmetric] 3(2) _ assms(2)] alt 3 show ?thesis by auto
  qed
qed

interpretation radio_src: byte_source "radio_rd ops" "radio_body ops" for ops
proof
  fix b and s :: "'a gc_radio \<times> 'a world" and len :: int
  assume "radio_body ops b s" "0 < len"
  then have "radio_body ops b (fst s, snd s)" by simp
  from radio_step [OF this \<open>0 < len\<close>]
  show "\<exists>x b1 s1. b = x @ b1 \<and> radio_rd ops len s = ((int (length x), x), s1) \<and> radio_body ops b1 s1 \<and>
      int (length x) \<le> len \<and> (x = [] \<longrightarrow> b = [])"
    unfolding radio_rd_def by auto
qed

text \<open>
  (C9) The player hears the audio and nothing else: for any interleaving of audio and metadata blocks,
  with or without chunked framing, fragmented in any way and read in any sizes, the bytes returned by
  the radio stream are exactly the audio; no metadata byte is ever returned and no audio byte lost.
\<close>

theorem radio_audio_only:
  assumes "radio_body ops audio (r, w)" and "\<forall>l\<in>set lens. 0 < l" and "length audio \<le> length lens"
  shows "fst (read_seq (radio_rd ops) lens (r, w)) = audio"
  using assms by (rule radio_src.read_all)

theorem radio_audio_only_witness:
  "fst (read_seq (radio_rd script_ops) [3, 3, 9, 9, 9, 9]
     (\<lparr>r_http = http_zero\<lparr>h_conn := Some \<lparr>conn_fd = 5, conn_tls = False, conn_cancel = None\<rparr>, h_remaining := - 1,
        h_icy_interval := 4\<rparr>, r_audio_left = 4, r_title = [], r_title_changed = False\<rparr>,
      \<lparr>clock = 0, net = [''abcd'' @ [CHR 0x01] @ ''StreamTi'', ''tle='' @ [CHR 0x27] @ ''T'' @ [CHR 0x27] @ '';ef''], dns = dns_start\<rparr>)) = ''abcdef''"
proof -
  let ?c = "\<lparr>conn_fd = 5, conn_tls = False, conn_cancel = None\<rparr> :: string list gc_connection"
  let ?frs = "[''abcd'' @ [CHR 0x01] @ ''StreamTi'', ''tle='' @ [CHR 0x27] @ ''T'' @ [CHR 0x27] @ '';ef'']"
  let ?m = "''StreamTitle='' @ [CHR 0x27] @ ''T'' @ [CHR 0x27] @ '';''"
  have "icy_raw 4 4 ''ef'' ''ef''" by (rule icy_end) simp
  then have i: "icy_raw 4 4 (''abcd'' @ CHR 0x01 # ?m @ ''ef'') (''abcd'' @ ''ef'')"
    by (intro icy_meta) (simp_all add: of_char_def)
  have "feeds script_ops ?c (concat ?frs) \<lparr>clock = 0, net = ?frs, dns = dns_start\<rparr>"
    by (rule script_feeds) auto
  then have "http_body script_ops (concat ?frs) (http_zero\<lparr>h_conn := Some ?c, h_remaining := - 1, h_icy_interval := 4\<rparr>,
      \<lparr>clock = 0, net = ?frs, dns = dns_start\<rparr>)"
    by (intro http_body.by_close) (auto simp: http_zero_def holds_def pending_def)
  with i show ?thesis
    by (intro radio_audio_only) (auto simp: radio_body_def intro!: exI [of _ "concat ?frs"])
qed

lemma c_strstr_quote:
  "q \<notin> set t \<Longrightarrow> c_strstr (t @ q # d # post) [q, d] = Some (length t)"
  by (induction t) (subst c_strstr.simps; auto)+

lemma icy_title_plain:
  assumes "CHR 0x27 \<notin> set t" and "CHR 0x00 \<notin> set t"
  shows "icy_title (''StreamTitle='' @ [CHR 0x27] @ t @ [CHR 0x27, CHR '';''] @ post) = Some t"
proof -
  let ?s = "takeWhile (\<lambda>c. c \<noteq> CHR 0x00) (''StreamTitle='' @ [CHR 0x27] @ t @ [CHR 0x27, CHR '';''] @ post)"
  have "takeWhile (\<lambda>c. c \<noteq> CHR 0x00) (t @ u) = t @ takeWhile (\<lambda>c. c \<noteq> CHR 0x00) u" for u
    using assms(2) by (intro takeWhile_append2) auto
  then have s: "?s = (''StreamTitle='' @ [CHR 0x27]) @ t @ CHR 0x27 # CHR '';'' # takeWhile (\<lambda>c. c \<noteq> CHR 0x00) post"
    by simp
  have "c_strstr ((''StreamTitle='' @ [CHR 0x27]) @ u) (''StreamTitle='' @ [CHR 0x27]) = Some 0" for u
    by (subst c_strstr.simps) simp
  then show ?thesis
    unfolding icy_title_def Let_def s
    using c_strstr_quote [OF assms(1), of "CHR '';''" "takeWhile (\<lambda>c. c \<noteq> CHR 0x00) post"] by simp
qed

text \<open>
  The song title follows the stream: when the metadata block that comes next names a title, a read
  at the block boundary skips the whole block, leaves the reader at the audio after it, and
  the title is the announced one, cut to the 127 bytes of its field.
\<close>

theorem radio_title_follows:
  assumes "http_body ops (k # (''StreamTitle='' @ [CHR 0x27] @ t @ [CHR 0x27, CHR '';''] @ pad) @ raw) (r_http r, w)"
    and "length (''StreamTitle='' @ [CHR 0x27] @ t @ [CHR 0x27, CHR '';''] @ pad) = ccode k * 16"
    and "CHR 0x27 \<notin> set t" "CHR 0x00 \<notin> set t"
  shows "\<exists>r1 w1. metadata ops r w = (True, r1, w1) \<and> r_title r1 = take 127 t \<and> http_body ops raw (r_http r1, w1) \<and>
    r_audio_left r1 = h_icy_interval (r_http r)"
  using metadata_ok [OF assms(1,2)] icy_title_plain [OF assms(3,4), of pad] by (auto simp: c_trunc_def)

theorem radio_title_follows_witness:
  "\<exists>r1 w1. metadata script_ops
     \<lparr>r_http = http_zero\<lparr>h_conn := Some \<lparr>conn_fd = 5, conn_tls = False, conn_cancel = None\<rparr>, h_remaining := - 1, h_icy_interval := 4\<rparr>,
      r_audio_left = 0, r_title = [], r_title_changed = False\<rparr>
     \<lparr>clock = 0, net = [CHR 0x01 # ''StreamTitle='' @ [CHR 0x27] @ ''T'' @ [CHR 0x27] @ '';ef''], dns = dns_start\<rparr> = (True, r1, w1) \<and>
     r_title r1 = ''T''"
proof -
  let ?c = "\<lparr>conn_fd = 5, conn_tls = False, conn_cancel = None\<rparr> :: string list gc_connection"
  let ?h = "http_zero\<lparr>h_conn := Some ?c, h_remaining := - 1, h_icy_interval := 4\<rparr>"
  let ?r = "\<lparr>r_http = ?h, r_audio_left = 0, r_title = [], r_title_changed = False\<rparr>"
  let ?frs = "[CHR 0x01 # ''StreamTitle='' @ [CHR 0x27] @ ''T'' @ [CHR 0x27] @ '';ef'']"
  have "feeds script_ops ?c (concat ?frs) \<lparr>clock = 0, net = ?frs, dns = dns_start\<rparr>" by (rule script_feeds) auto
  then have b: "http_body script_ops (CHR 0x01 # (''StreamTitle='' @ [CHR 0x27] @ ''T'' @ [CHR 0x27, CHR '';''] @ []) @ ''ef'')
      (r_http ?r, \<lparr>clock = 0, net = ?frs, dns = dns_start\<rparr>)"
    by (intro http_body.by_close) (auto simp: http_zero_def holds_def pending_def)
  from radio_title_follows [OF b] show ?thesis by (simp add: of_char_def) blast
qed

end
