(* ===== verification/Webdav_Client.thy ===== *)
theory Webdav_Client
  imports Http_Client
begin

text \<open>
  The read-only WebDAV client (\<^verbatim>\<open>src/source/utils/webdav_client.c\<close>): configuration, path checks, the PROPFIND
  query with its hash-checked entry table, and files read over ranged GET requests. Mini-XML is not
  part of the repository: its tree is an abstract type \<open>'x\<close> with the accessors the code calls, in the
  record \<open>mxml_ops\<close>. Memory allocation succeeds.
\<close>

section \<open>Definitions\<close>

record 'n gc_dav_config =
  c_url :: string
  c_name :: string
  c_authorization :: string
  c_cancel :: "'n cancel_fn"

record gc_dav_entry =
  e_name :: string
  e_directory :: bool
  e_size :: int

record 'n gc_dav_file =
  d_config :: "'n gc_dav_config"
  d_http :: "'n gc_http option"
  d_url :: string
  d_size :: int
  d_position :: int

text \<open>An error is the \<open>errno\<close> value and the text.\<close>

type_synonym dav_error = "int \<times> string"

subsection \<open>Configuration\<close>

definition trim :: "string \<Rightarrow> string" where
  "trim s = rev (dropWhile c_isspace (rev (dropWhile c_isspace s)))"

text \<open>\<open>fgets(line, cap, f)\<close> on the unread file: the line, the rest, and whether the end of the file was hit.\<close>

definition fgets :: "nat \<Rightarrow> string \<Rightarrow> string \<times> string \<times> bool" where
  "fgets cap s =
     (let k = length (takeWhile (\<lambda>c. c \<noteq> CHR 0x0A) s)
      in if k < length s \<and> Suc k \<le> cap - 1 then (take (Suc k) s, drop (Suc k) s, False)
         else if length s < cap - 1 then (s, [], True)
         else (take (cap - 1) s, drop (cap - 1) s, False))"

definition c_string :: "string \<Rightarrow> string" where
  "c_string s = takeWhile (\<lambda>c. c \<noteq> CHR 0x00) s"

record conf_state =
  k_url :: string
  k_name :: string
  k_user :: string
  k_password :: string

text \<open>One non-empty setting line, already trimmed.\<close>

definition conf_line :: "string \<Rightarrow> conf_state \<Rightarrow> dav_error + conf_state" where
  "conf_line l k =
     (if CHR ''='' \<notin> set l then Inl (EINVAL, ''Expected key=value in webdav.conf'')
      else let key = trim (c_before CHR ''='' l); value = trim (tl (c_from CHR ''='' l));
               store = (\<lambda>cap upd. if length value \<ge> cap then Inl (EINVAL, ''WebDAV setting is too long'') else Inr upd)
      in if key = ''url'' then store GC_HTTP_URL_MAX (k\<lparr>k_url := value\<rparr>)
         else if key = ''name'' then store 80 (k\<lparr>k_name := value\<rparr>)
         else if key = ''username'' then store 256 (k\<lparr>k_user := value\<rparr>)
         else if key = ''password'' then store 256 (k\<lparr>k_password := value\<rparr>)
         else Inl (EINVAL, ''Unknown key in webdav.conf''))"

text \<open>The line loop; \<open>n\<close> is \<open>64 - lines\<close>.\<close>

fun conf_loop :: "nat \<Rightarrow> string \<Rightarrow> conf_state \<Rightarrow> dav_error + conf_state" where
  "conf_loop n s k =
     (if s = [] then Inr k
      else case n of 0 \<Rightarrow> Inl (EINVAL, ''WebDAV configuration is too large'')
      | Suc m \<Rightarrow>
        let (raw, rest, eof) = fgets 4096 s; l = c_string raw
        in if CHR 0x0A \<notin> set l \<and> \<not> eof then Inl (EINVAL, ''WebDAV configuration is too large'')
           else let key = trim l
           in if key = [] \<or> hd key = CHR ''#'' \<or> hd key = CHR '';'' then conf_loop m rest k
              else case conf_line key k of Inl e \<Rightarrow> Inl e | Inr k1 \<Rightarrow> conf_loop m rest k1)"

declare conf_loop.simps [simp del]

text \<open>\<open>file\<close> is the content of the configuration file, \<open>None\<close> when it cannot be opened.\<close>

definition gc_dav_config_load :: "string option \<Rightarrow> dav_error + 'n gc_dav_config" where
  "gc_dav_config_load file =
     (case file of None \<Rightarrow> Inl (ENOENT, ''No webdav.conf'')
      | Some s \<Rightarrow>
        (case conf_loop 64 s \<lparr>k_url = [], k_name = ''WebDAV'', k_user = [], k_password = []\<rparr> of
           Inl e \<Rightarrow> Inl e
         | Inr k \<Rightarrow>
           let bad_url = Inl (EINVAL, ''WebDAV requires an http:// LAN URL without query or credentials'')
           in case gc_http_parse_url (k_url k) of None \<Rightarrow> bad_url
              | Some u \<Rightarrow>
                if tls u \<or> CHR ''?'' \<in> set (path u) \<or> CHR ''#'' \<in> set (k_url k) then bad_url
                else if length (k_url k) + 1 \<ge> GC_HTTP_URL_MAX then Inl (EINVAL, ''WebDAV URL is too long'')
                else let url = if last (k_url k) \<noteq> CHR ''/'' then k_url k @ ''/'' else k_url k;
                         config = \<lparr>c_url = url, c_name = k_name k, c_authorization = [], c_cancel = None\<rparr>
                in if k_user k \<noteq> [] \<or> k_password k \<noteq> []
                   then (case gc_http_basic (k_user k) (k_password k) 1025 of
                           None \<Rightarrow> Inl (EINVAL, ''Invalid WebDAV credentials'')
                         | Some a \<Rightarrow> Inr (config\<lparr>c_authorization := a\<rparr>))
                   else Inr config))"

subsection \<open>Paths\<close>

text \<open>The characters after a slash that make a segment empty, \<open>.\<close> or \<open>..\<close>.\<close>

definition bad_segment :: "string \<Rightarrow> bool" where
  "bad_segment p = (take 1 p = ''/'' \<or> p = ''.'' \<or> take 2 p = ''./'' \<or> p = ''..'' \<or> take 3 p = ''../'')"

fun valid_path_loop :: "string \<Rightarrow> bool" where
  "valid_path_loop [] = True"
| "valid_path_loop (c # p) =
     (if c = CHR ''/'' \<and> bad_segment p then False
      else if ccode c < 32 \<or> c = CHR 0x5C then False
      else valid_path_loop p)"

definition valid_path :: "string \<Rightarrow> bool" where
  "valid_path p = (p \<noteq> [] \<and> hd p = CHR ''/'' \<and> valid_path_loop p)"

definition make_url :: "'n gc_dav_config \<Rightarrow> string \<Rightarrow> string option" where
  "make_url c p =
     (if valid_path p then
        (case gc_http_encode_path (tl p) GC_HTTP_URL_MAX of None \<Rightarrow> None
         | Some e \<Rightarrow> if length (c_url c @ e) < GC_HTTP_URL_MAX then Some (c_url c @ e) else None)
      else None)"

subsection \<open>Multistatus documents\<close>

text \<open>
  What the code uses of Mini-XML: the element name (of element nodes), an attribute, the children in order,
  the node followed by its ancestors, the opaque text, and the parser.
\<close>

record 'x mxml_ops =
  mx_element :: "'x \<Rightarrow> string option"
  mx_attr :: "'x \<Rightarrow> string \<Rightarrow> string option"
  mx_children :: "'x \<Rightarrow> 'x list"
  mx_ancestors :: "'x \<Rightarrow> 'x list"
  mx_opaque :: "'x \<Rightarrow> string option"
  mx_load :: "string \<Rightarrow> 'x option"

fun namespace_of :: "'x mxml_ops \<Rightarrow> string \<Rightarrow> 'x list \<Rightarrow> string option" where
  "namespace_of mx key [] = None"
| "namespace_of mx key (p # ps) =
     (if mx_element mx p = None then namespace_of mx key ps
      else case mx_attr mx p key of Some ns \<Rightarrow> Some ns | None \<Rightarrow> namespace_of mx key ps)"

definition dav_node :: "'x mxml_ops \<Rightarrow> 'x \<Rightarrow> string \<Rightarrow> bool" where
  "dav_node mx node name =
     (case mx_element mx node of None \<Rightarrow> False
      | Some tag \<Rightarrow>
        let prefix = c_before CHR '':'' tag; colon = c_from CHR '':'' tag
        in if (if colon \<noteq> [] then tl colon else tag) \<noteq> name then False
           else if colon \<noteq> [] \<and> length prefix + 7 > 128 then False
           else namespace_of mx (if colon \<noteq> [] then ''xmlns:'' @ prefix else ''xmlns'') (mx_ancestors mx node) = Some ''DAV:'')"

definition child :: "'x mxml_ops \<Rightarrow> 'x \<Rightarrow> string \<Rightarrow> 'x option" where
  "child mx node name = List.find (\<lambda>p. dav_node mx p name) (mx_children mx node)"

definition text_of :: "'x mxml_ops \<Rightarrow> 'x option \<Rightarrow> string option" where
  "text_of mx node =
     (case node of None \<Rightarrow> None
      | Some x \<Rightarrow> (case mx_children mx x of [] \<Rightarrow> None | t # _ \<Rightarrow> mx_opaque mx t))"

definition scan_http1 :: "string \<Rightarrow> int option" where
  "scan_http1 s =
     (case scan_lit ''HTTP/1.'' s of None \<Rightarrow> None
      | Some r \<Rightarrow> (case scan_int int32_min int32_max r of None \<Rightarrow> None
         | Some (v, r2) \<Rightarrow> map_option fst (scan_int int32_min int32_max r2)))"

definition success :: "'x mxml_ops \<Rightarrow> 'x \<Rightarrow> bool" where
  "success mx node =
     (case text_of mx (child mx node ''status'') of None \<Rightarrow> False
      | Some s \<Rightarrow> (case scan_http1 s of None \<Rightarrow> False | Some st \<Rightarrow> 200 \<le> st \<and> st < 300))"

subsection \<open>The entry table\<close>

definition name_hash :: "string \<Rightarrow> u32" where
  "name_hash name = foldl (\<lambda>h c. (h XOR of_nat (ccode c)) * 16777619) 2166136261 name"

definition name_slot :: "string \<Rightarrow> nat" where
  "name_slot name = unat (name_hash name AND 2047)"

text \<open>
  \<open>name_slots\<close> is the array of 2048 slots, 0 for an empty one and otherwise the index of an entry plus one.
  The probe returns the slot where it stopped and whether it found the name; \<open>fuel\<close> bounds the turns
  of the loop, and \<open>None\<close> is a loop that has not ended.
\<close>

fun probe :: "nat \<Rightarrow> (nat \<Rightarrow> nat) \<Rightarrow> gc_dav_entry list \<Rightarrow> string \<Rightarrow> nat \<Rightarrow> (nat \<times> bool) option" where
  "probe 0 slots es name slot = None"
| "probe (Suc fuel) slots es name slot =
     (if slots slot = 0 then Some (slot, False)
      else if e_name (es ! (slots slot - 1)) = name then Some (slot, True)
      else probe fuel slots es name ((slot + 1) mod 2048))"

record dav_table =
  t_entries :: "gc_dav_entry list"
  t_slots :: "nat \<Rightarrow> nat"

abbreviation GC_DAV_MAX_ENTRIES :: nat where "GC_DAV_MAX_ENTRIES \<equiv> 1024"

text \<open>Adding an entry; the outer \<open>None\<close> is the endless loop, which does not happen.\<close>

definition add_entry :: "gc_dav_entry \<Rightarrow> dav_table \<Rightarrow> (dav_error + dav_table) option" where
  "add_entry e t =
     (case probe 2048 (t_slots t) (t_entries t) (e_name e) (name_slot (e_name e)) of
        None \<Rightarrow> None
      | Some (slot, True) \<Rightarrow> Some (Inr t)
      | Some (slot, False) \<Rightarrow>
          if length (t_entries t) \<ge> GC_DAV_MAX_ENTRIES then Some (Inl (EOVERFLOW, ''WebDAV folder exceeds 1024 entries''))
          else Some (Inr \<lparr>t_entries = t_entries t @ [e], t_slots = (t_slots t)(slot := length (t_entries t) + 1)\<rparr>))"

subsection \<open>One response element\<close>

text \<open>The accumulated properties: \<open>entry.directory\<close>, \<open>entry.size\<close>, \<open>found_type\<close>.\<close>

definition propstat_step :: "'x mxml_ops \<Rightarrow> bool \<times> int \<times> bool \<Rightarrow> 'x \<Rightarrow> bool \<times> int \<times> bool" where
  "propstat_step mx acc node =
     (case acc of (dir, sz, found) \<Rightarrow>
      if \<not> dav_node mx node ''propstat'' \<or> \<not> success mx node then acc
      else case child mx node ''prop'' of None \<Rightarrow> acc
      | Some prop \<Rightarrow>
          let (dir1, found1) = (case child mx prop ''resourcetype'' of None \<Rightarrow> (dir, found)
                | Some t \<Rightarrow> (child mx t ''collection'' \<noteq> None, True));
              sz1 = (case text_of mx (child mx prop ''getcontentlength'') of None \<Rightarrow> sz
                | Some v \<Rightarrow> let (n, erange, rest) = c_strtol int64_min int64_max v
                    in if \<not> erange \<and> rest \<noteq> v \<and> rest = [] \<and> n \<ge> 0 then n else sz)
          in (dir1, sz1, found1))"

definition strip_slashes :: "string \<Rightarrow> string" where
  "strip_slashes p = (let q = rev (dropWhile (\<lambda>c. c = CHR ''/'') (rev p)) in if q = [] then take 1 p else q)"

text \<open>The name of an item relative to the listed folder; \<open>None\<close> skips the item.\<close>

definition item_name :: "nat \<Rightarrow> string \<Rightarrow> string \<Rightarrow> string option" where
  "item_name depth basepath itempath =
     (if depth = 0 then
        (if itempath \<noteq> basepath then None else Some (rev (takeWhile (\<lambda>c. c \<noteq> CHR ''/'') (rev itempath))))
      else if itempath = basepath then None
      else let name = (if length basepath = 1 then Some (tl itempath)
             else if take (length basepath) itempath \<noteq> basepath \<or> take 1 (drop (length basepath) itempath) \<noteq> ''/'' then None
             else Some (drop (length basepath + 1) itempath))
        in case name of None \<Rightarrow> None
           | Some nm \<Rightarrow> if nm = [] \<or> CHR ''/'' \<in> set nm then None else Some nm)"

text \<open>
  The path of an item from its \<open>href\<close>: resolved against the effective URL, of the same origin, without a query,
  decoded and checked.
\<close>

definition item_path :: "string \<Rightarrow> gc_http_url \<Rightarrow> string \<Rightarrow> string option" where
  "item_path base u value =
     (case gc_http_resolve_url base value GC_HTTP_URL_MAX of None \<Rightarrow> None
      | Some href \<Rightarrow> (case gc_http_parse_url href of None \<Rightarrow> None
         | Some v \<Rightarrow>
           if tls u \<noteq> tls v \<or> port u \<noteq> port v \<or> \<not> c_strcasecmp (host u) (host v) \<or> CHR ''?'' \<in> set (path v) then None
           else (case gc_http_decode_path (path v) 2048 of None \<Rightarrow> None
             | Some p \<Rightarrow> if valid_path p then Some (strip_slashes p) else None)))"

text \<open>\<open>None\<close> skips the response, \<open>Some (Inl e)\<close> ends the listing.\<close>

definition response_entry ::
  "'x mxml_ops \<Rightarrow> nat \<Rightarrow> string \<Rightarrow> gc_http_url \<Rightarrow> string \<Rightarrow> 'x \<Rightarrow> (dav_error + gc_dav_entry) option" where
  "response_entry mx depth base u basepath response =
     (if \<not> dav_node mx response ''response'' then None
      else case text_of mx (child mx response ''href'') of None \<Rightarrow> None
      | Some value \<Rightarrow>
        (case item_path base u value of None \<Rightarrow> None
         | Some itempath \<Rightarrow>
           (case item_name depth basepath itempath of None \<Rightarrow> None
            | Some name \<Rightarrow>
              if length name \<ge> 256 then Some (Inl (ENAMETOOLONG, ''WebDAV filename exceeds 255 bytes''))
              else let (dir, sz, found) = foldl (propstat_step mx) (False, - 1, False) (mx_children mx response)
              in if \<not> found \<or> (\<not> dir \<and> sz < 0) then None
                 else Some (Inr \<lparr>e_name = name, e_directory = dir, e_size = (if dir then 0 else sz)\<rparr>))))"

text \<open>The callback that paces a listing against playback.\<close>

type_synonym 'n dav_wait = "('n world \<Rightarrow> 'n world) option"

definition call_wait :: "'n dav_wait \<Rightarrow> 'n world \<Rightarrow> 'n world" where
  "call_wait f w = (case f of None \<Rightarrow> w | Some g \<Rightarrow> g w)"

fun responses_loop ::
  "'x mxml_ops \<Rightarrow> nat \<Rightarrow> string \<Rightarrow> gc_http_url \<Rightarrow> string \<Rightarrow> 'n dav_wait \<Rightarrow> 'x list \<Rightarrow> dav_table \<Rightarrow> 'n world
     \<Rightarrow> (dav_error + dav_table) option \<times> 'n world" where
  "responses_loop mx depth base u basepath wait [] t w = (Some (Inr t), w)"
| "responses_loop mx depth base u basepath wait (x # xs) t w =
     (let w1 = if length (t_entries t) mod 32 = 0 then call_wait wait w else w
      in case response_entry mx depth base u basepath x of
           None \<Rightarrow> responses_loop mx depth base u basepath wait xs t w1
         | Some (Inl e) \<Rightarrow> (Some (Inl e), w1)
         | Some (Inr e) \<Rightarrow>
             (case add_entry e t of
                Some (Inr t1) \<Rightarrow> responses_loop mx depth base u basepath wait xs t1 w1
              | r \<Rightarrow> (r, w1)))"

subsection \<open>The query\<close>

definition propfind_body :: string where
  "propfind_body = ''<?xml version='' @ [CHR 0x22] @ ''1.0'' @ [CHR 0x22] @ ''?><D:propfind xmlns:D='' @ [CHR 0x22] @ ''DAV:'' @
     [CHR 0x22] @ ''><D:prop><D:resourcetype/><D:getcontentlength/></D:prop></D:propfind>''"

text \<open>The loop that collects the document: \<open>xml\<close> is what was read, \<open>used\<close> its length, \<open>allocated\<close> the size of its buffer.\<close>

function collect ::
  "('n, 'z) net_ops_scheme \<Rightarrow> 'n dav_wait \<Rightarrow> nat \<Rightarrow> nat \<Rightarrow> string \<Rightarrow> 'n gc_http \<Rightarrow> 'n world
     \<Rightarrow> (dav_error + string) \<times> 'n gc_http \<times> 'n world" where
  "collect ops wait allocated used xml h w =
     (let grow = used + 4096 + 1 > allocated;
          allocated1 = (if grow then min (if allocated \<noteq> 0 then allocated * 2 else 8192) (512 * 1024 + 1) else allocated)
      in if grow \<and> allocated \<ge> 512 * 1024 + 1 then (Inl (EOVERFLOW, ''WebDAV listing exceeds 512 KiB''), h, w)
         else let ((n, bs), h1, w1) = gc_http_read ops h (int (allocated1 - used - 1)) (call_wait wait w)
         in if n < 0 then (Inl (EIO, h_error h1), h1, w1)
            else if n = 0 then (Inr xml, h1, w1)
            else collect ops wait allocated1 (used + nat n) (xml @ bs) h1 w1)"
  by pat_completeness auto
termination
  by (relation "measures [\<lambda>(ops, wait, allocated, used, xml, h, w). 512 * 1024 + 1 - allocated,
        \<lambda>(ops, wait, allocated, used, xml, h, w). allocated - used]") (auto simp: not_le)

declare collect.simps [simp del]

definition dav_args :: "'n gc_dav_config \<Rightarrow> string \<Rightarrow> string option \<Rightarrow> int \<Rightarrow> int \<Rightarrow> http_args" where
  "dav_args c method body depth offset =
     \<lparr>a_method = method, a_auth = Some (c_authorization c), a_body = body, a_depth = depth, a_offset = offset, a_icy = False\<rparr>"

definition bad_xml :: "string \<Rightarrow> bool" where
  "bad_xml xml = (c_strstr xml ''<!DOCTYPE'' \<noteq> None \<or> c_strstr xml ''<!ENTITY'' \<noteq> None \<or> CHR 0x00 \<in> set xml)"

text \<open>From the complete document to the entries.\<close>

definition query_document ::
  "'x mxml_ops \<Rightarrow> nat \<Rightarrow> string \<Rightarrow> gc_http_url \<Rightarrow> string \<Rightarrow> 'n dav_wait \<Rightarrow> string \<Rightarrow> 'n world
     \<Rightarrow> (dav_error + gc_dav_entry list) option \<times> 'n world" where
  "query_document mx depth base u basepath wait xml w =
     (if bad_xml xml then (Some (Inl (EINVAL, ''Unsupported WebDAV XML declaration'')), w)
      else let w1 = call_wait wait w
      in case mx_load mx xml of None \<Rightarrow> (Some (Inl (EIO, ''Invalid WebDAV XML'')), w1)
         | Some tree \<Rightarrow>
           (case (if dav_node mx tree ''multistatus'' then Some tree else child mx tree ''multistatus'') of
              None \<Rightarrow> (Some (Inl (EIO, ''Missing DAV:multistatus'')), w1)
            | Some multi \<Rightarrow>
              let (r, w2) = responses_loop mx depth base u basepath wait (mx_children mx multi) \<lparr>t_entries = [], t_slots = (\<lambda>_. 0)\<rparr> w1
              in (case r of None \<Rightarrow> None | Some (Inl e) \<Rightarrow> Some (Inl e)
                  | Some (Inr t) \<Rightarrow>
                      if depth = 0 \<and> length (t_entries t) \<noteq> 1 then Some (Inl (ENOENT, ''WebDAV resource not found''))
                      else Some (Inr (t_entries t)), w2)))"

text \<open>The response of an open PROPFIND, before the label \<open>done\<close>.\<close>

definition query_response ::
  "('n, 'z) net_ops_scheme \<Rightarrow> 'x mxml_ops \<Rightarrow> nat \<Rightarrow> 'n dav_wait \<Rightarrow> 'n gc_http \<Rightarrow> 'n world
     \<Rightarrow> (dav_error + gc_dav_entry list) option \<times> 'n gc_http \<times> 'n world" where
  "query_response ops mx depth wait h w =
     (let bad_base = (Some (Inl (EIO, ''Invalid WebDAV response URL'')), h, w)
      in if h_status h \<noteq> 207
         then (Some (Inl (EIO, ''Server does not support WebDAV PROPFIND (expected HTTP 207)'')), h, w)
         else case gc_http_parse_url (h_url h) of None \<Rightarrow> bad_base
         | Some u \<Rightarrow>
           (case gc_http_decode_path (path u) 2048 of None \<Rightarrow> bad_base
            | Some p \<Rightarrow>
              if \<not> valid_path p then bad_base
              else let (x, h1, w1) = collect ops wait 0 0 [] h w
              in case x of Inl e \<Rightarrow> (Some (Inl e), h1, w1)
                 | Inr xml \<Rightarrow>
                     let (r, w2) = query_document mx depth (h_url h) u (strip_slashes p) wait xml w1 in (r, h1, w2)))"

definition query ::
  "('n, 'z) net_ops_scheme \<Rightarrow> 'x mxml_ops \<Rightarrow> 'n gc_dav_config \<Rightarrow> string \<Rightarrow> nat \<Rightarrow> 'n dav_wait \<Rightarrow> 'n world
     \<Rightarrow> (dav_error + gc_dav_entry list) option \<times> 'n world" where
  "query ops mx c pth depth wait w =
     (case make_url c pth of None \<Rightarrow> (Some (Inl (EINVAL, ''Invalid WebDAV path'')), w)
      | Some target \<Rightarrow>
        let (ok, h, w1) = gc_http_open ops target (dav_args c ''PROPFIND'' (Some propfind_body) (int depth) (- 1)) (c_cancel c)
              (call_wait wait w)
        in if \<not> ok then
             (Some (Inl (if h_status h = 404 then ENOENT else if h_status h = 401 \<or> h_status h = 403 then EACCES else EIO, h_error h)), w1)
           else let (r, h2, w2) = query_response ops mx depth wait h w1; (h3, w3) = gc_http_close ops h2 w2 in (r, w3))"

definition gc_dav_list ::
  "('n, 'z) net_ops_scheme \<Rightarrow> 'x mxml_ops \<Rightarrow> 'n gc_dav_config \<Rightarrow> string \<Rightarrow> 'n world \<Rightarrow> (dav_error + gc_dav_entry list) option \<times> 'n world" where
  "gc_dav_list ops mx c pth w = query ops mx c pth 1 None w"

definition gc_dav_list_wait ::
  "('n, 'z) net_ops_scheme \<Rightarrow> 'x mxml_ops \<Rightarrow> 'n gc_dav_config \<Rightarrow> string \<Rightarrow> 'n dav_wait \<Rightarrow> 'n world
     \<Rightarrow> (dav_error + gc_dav_entry list) option \<times> 'n world" where
  "gc_dav_list_wait ops mx c pth wait w = query ops mx c pth 1 wait w"

definition gc_dav_stat ::
  "('n, 'z) net_ops_scheme \<Rightarrow> 'x mxml_ops \<Rightarrow> 'n gc_dav_config \<Rightarrow> string \<Rightarrow> 'n world \<Rightarrow> (dav_error + gc_dav_entry) option \<times> 'n world" where
  "gc_dav_stat ops mx c pth w =
     (let (r, w1) = query ops mx c pth 0 None w
      in (case r of None \<Rightarrow> None | Some (Inl e) \<Rightarrow> Some (Inl e) | Some (Inr es) \<Rightarrow> Some (Inr (hd es)), w1))"

subsection \<open>Files\<close>

definition gc_dav_open ::
  "('n, 'z) net_ops_scheme \<Rightarrow> 'x mxml_ops \<Rightarrow> 'n gc_dav_config \<Rightarrow> string \<Rightarrow> 'n world \<Rightarrow> (dav_error + 'n gc_dav_file) option \<times> 'n world" where
  "gc_dav_open ops mx c pth w =
     (let (r, w1) = gc_dav_stat ops mx c pth w
      in (case r of None \<Rightarrow> None | Some (Inl e) \<Rightarrow> Some (Inl e)
          | Some (Inr st) \<Rightarrow>
              if e_directory st then Some (Inl (EISDIR, ''Cannot play a WebDAV directory''))
              else (case make_url c pth of None \<Rightarrow> Some (Inl (EINVAL, ''Invalid WebDAV path''))
                | Some url \<Rightarrow> Some (Inr \<lparr>d_config = c, d_http = Some http_zero, d_url = url, d_size = e_size st, d_position = 0\<rparr>)), w1))"

text \<open>The read on a connected file.\<close>

definition dav_read_body ::
  "('n, 'z) net_ops_scheme \<Rightarrow> 'n gc_dav_file \<Rightarrow> 'n gc_http \<Rightarrow> int \<Rightarrow> 'n world \<Rightarrow> (int \<times> string) \<times> 'n gc_dav_file \<times> 'n world" where
  "dav_read_body ops f h len w =
     (let ((n, bs), h1, w1) = gc_http_read ops h (min len (d_size f - d_position f)) w
      in if n \<le> 0 then ((- 1, []), f\<lparr>d_http := Some h1\<rparr>, w1)
         else ((n, bs), f\<lparr>d_http := Some h1, d_position := d_position f + n\<rparr>, w1))"

definition gc_dav_read ::
  "('n, 'z) net_ops_scheme \<Rightarrow> 'n gc_dav_file \<Rightarrow> int \<Rightarrow> 'n world \<Rightarrow> (int \<times> string) \<times> 'n gc_dav_file \<times> 'n world" where
  "gc_dav_read ops f len w =
     (case d_http f of None \<Rightarrow> ((- 1, []), f, w)
      | Some h \<Rightarrow>
        if len \<le> 0 \<or> d_position f \<ge> d_size f then ((0, []), f, w)
        else if h_conn h = None then
          (let (ok, h1, w1) = gc_http_open ops (d_url f) (dav_args (d_config f) ''GET'' None (- 1) (d_position f)) (c_cancel (d_config f)) w
           in if \<not> ok then ((- 1, []), f\<lparr>d_http := Some h1\<rparr>, w1)
              else if (h_total h1 \<ge> 0 \<and> h_total h1 \<noteq> d_size f) \<or> (h_length h1 \<ge> 0 \<and> h_length h1 \<noteq> d_size f - d_position f)
              then let (h2, w2) = gc_http_close ops h1 w1 in ((- 1, []), f\<lparr>d_http := Some h2\<rparr>, w2)
              else dav_read_body ops f h1 len w1)
        else dav_read_body ops f h len w)"

definition dav_file_close :: "('n, 'z) net_ops_scheme \<Rightarrow> 'n gc_dav_file \<Rightarrow> 'n world \<Rightarrow> 'n gc_dav_file \<times> 'n world" where
  "dav_file_close ops f w =
     (case d_http f of None \<Rightarrow> (f, w) | Some h \<Rightarrow> let (h1, w1) = gc_http_close ops h w in (f\<lparr>d_http := Some h1\<rparr>, w1))"

text \<open>\<open>whence\<close> is 0, 1 or 2 for SEEK_SET, SEEK_CUR and SEEK_END; \<open>None\<close> is the error return.\<close>

definition gc_dav_seek ::
  "('n, 'z) net_ops_scheme \<Rightarrow> 'n gc_dav_file \<Rightarrow> int \<Rightarrow> int \<Rightarrow> 'n world \<Rightarrow> int option \<times> 'n gc_dav_file \<times> 'n world" where
  "gc_dav_seek ops f offset whence w =
     (let base = (if whence = 0 then Some 0 else if whence = 1 then Some (d_position f) else if whence = 2 then Some (d_size f) else None)
      in case base of None \<Rightarrow> (None, f, w)
         | Some b \<Rightarrow>
           if (offset > 0 \<and> b > int64_max - offset) \<or> (offset < 0 \<and> offset < - b) then (None, f, w)
           else let pos = b + offset; (f1, w1) = (if pos \<noteq> d_position f then dav_file_close ops f w else (f, w))
                in (Some pos, f1\<lparr>d_position := pos\<rparr>, w1))"

definition gc_dav_close :: "('n, 'z) net_ops_scheme \<Rightarrow> 'n gc_dav_file \<Rightarrow> 'n world \<Rightarrow> 'n gc_dav_file \<times> 'n world" where
  "gc_dav_close ops f w = (let (f1, w1) = dav_file_close ops f w in (f1\<lparr>d_http := None\<rparr>, w1))"

section \<open>The entry table\<close>

lemma name_slot_less [simp]: "name_slot name < 2048"
proof -
  have "name_hash name AND 2047 \<le> 2047" by (rule word_and_le1)
  then have "unat (name_hash name AND 2047) \<le> unat (2047 :: u32)" by (rule word_le_nat_alt [THEN iffD1])
  then show ?thesis by (simp add: name_slot_def)
qed

text \<open>
  Every entry is found from its hash slot through occupied slots only; the occupied slots are as many as
  the entries.
\<close>

definition chain :: "(nat \<Rightarrow> nat) \<Rightarrow> nat \<Rightarrow> nat \<Rightarrow> bool" where
  "chain slots s k = (\<forall>j<k. slots ((s + j) mod 2048) \<noteq> 0)"

definition table_ok :: "dav_table \<Rightarrow> bool" where
  "table_ok t = (length (t_entries t) \<le> GC_DAV_MAX_ENTRIES \<and> distinct (map e_name (t_entries t)) \<and>
     (\<forall>s<2048. t_slots t s \<le> length (t_entries t)) \<and>
     card {s. s < 2048 \<and> t_slots t s \<noteq> 0} = length (t_entries t) \<and>
     (\<forall>i<length (t_entries t). \<exists>k<2048. chain (t_slots t) (name_slot (e_name (t_entries t ! i))) k \<and>
        t_slots t ((name_slot (e_name (t_entries t ! i)) + k) mod 2048) = i + 1))"

lemma probe_spec:
  assumes "slots ((s + k) mod 2048) = 0" and "k < fuel" and "s < 2048"
  shows "(\<exists>slot<2048. probe fuel slots es name s = Some (slot, True) \<and> slots slot \<noteq> 0 \<and> e_name (es ! (slots slot - 1)) = name) \<or>
    (\<exists>m\<le>k. probe fuel slots es name s = Some ((s + m) mod 2048, False) \<and> slots ((s + m) mod 2048) = 0 \<and>
       (\<forall>j<m. slots ((s + j) mod 2048) \<noteq> 0 \<and> e_name (es ! (slots ((s + j) mod 2048) - 1)) \<noteq> name))"
  using assms
proof (induction fuel arbitrary: s k)
  case (Suc fuel)
  show ?case
  proof (cases "slots s = 0 \<or> e_name (es ! (slots s - 1)) = name")
    case True
    then show ?thesis using Suc.prems(3) by (cases "slots s = 0") (auto intro!: exI [of _ "0 :: nat"])
  next
    case False
    with Suc.prems obtain k1 where k1: "k = Suc k1" by (cases k) auto
    let ?s1 = "(s + 1) mod 2048"
    have shift: "(?s1 + j) mod 2048 = (s + Suc j) mod 2048" for j by (simp add: mod_add_left_eq)
    have "slots ((?s1 + k1) mod 2048) = 0" using Suc.prems(1) k1 shift by simp
    from Suc.IH [OF this] Suc.prems(2) k1
    consider slot where "slot < 2048" "probe fuel slots es name ?s1 = Some (slot, True)" "slots slot \<noteq> 0" "e_name (es ! (slots slot - 1)) = name"
      | m where "m \<le> k1" "probe fuel slots es name ?s1 = Some ((?s1 + m) mod 2048, False)" "slots ((?s1 + m) mod 2048) = 0"
          "\<forall>j<m. slots ((?s1 + j) mod 2048) \<noteq> 0 \<and> e_name (es ! (slots ((?s1 + j) mod 2048) - 1)) \<noteq> name"
      by auto
    then show ?thesis
    proof cases
      case (2 m)
      have "\<forall>j<Suc m. slots ((s + j) mod 2048) \<noteq> 0 \<and> e_name (es ! (slots ((s + j) mod 2048) - 1)) \<noteq> name"
        using 2(4) False Suc.prems(3) unfolding shift by (auto simp: less_Suc_eq_0_disj)
      moreover have "probe (Suc fuel) slots es name s = Some ((s + Suc m) mod 2048, False)"
        using 2(2) False shift by simp
      moreover have "slots ((s + Suc m) mod 2048) = 0" using 2(3) shift by simp
      ultimately show ?thesis using 2(1) k1 by (intro disjI2 exI [of _ "Suc m"]) simp
    qed (use False in auto)
  qed
qed simp

lemma table_gap:
  assumes "table_ok t" and "s < 2048"
  shows "\<exists>k<2048. t_slots t ((s + k) mod 2048) = 0"
proof -
  have "card {z. z < 2048 \<and> t_slots t z \<noteq> 0} < card {z :: nat. z < 2048}"
    using assms(1) by (simp add: table_ok_def)
  then have "{z. z < 2048 \<and> t_slots t z \<noteq> 0} \<noteq> {z. z < 2048}" by (metis less_irrefl)
  then obtain z where z: "z < 2048" "t_slots t z = 0" by blast
  have "(s + (z + 2048 - s) mod 2048) mod 2048 = z"
    using assms(2) z(1) by (simp add: mod_add_right_eq)
  then show ?thesis using z by (intro exI [of _ "(z + 2048 - s) mod 2048"]) simp
qed

lemma add_entry_spec:
  assumes "table_ok t"
  shows "if e_name e \<in> e_name ` set (t_entries t) then add_entry e t = Some (Inr t)
    else if length (t_entries t) \<ge> GC_DAV_MAX_ENTRIES
      then add_entry e t = Some (Inl (EOVERFLOW, ''WebDAV folder exceeds 1024 entries''))
    else \<exists>t1. add_entry e t = Some (Inr t1) \<and> table_ok t1 \<and> t_entries t1 = t_entries t @ [e]"
proof -
  let ?es = "t_entries t" and ?sl = "t_slots t" and ?s = "name_slot (e_name e)"
  obtain k where k: "k < 2048" "?sl ((?s + k) mod 2048) = 0" using table_gap [OF assms name_slot_less] by blast
  consider
    (found) slot where "slot < 2048" "probe 2048 ?sl ?es (e_name e) ?s = Some (slot, True)" "?sl slot \<noteq> 0" "e_name (?es ! (?sl slot - 1)) = e_name e"
  | (gap) m where "m \<le> k" "probe 2048 ?sl ?es (e_name e) ?s = Some ((?s + m) mod 2048, False)" "?sl ((?s + m) mod 2048) = 0"
      "\<forall>j<m. ?sl ((?s + j) mod 2048) \<noteq> 0 \<and> e_name (?es ! (?sl ((?s + j) mod 2048) - 1)) \<noteq> e_name e"
    using probe_spec [where slots = ?sl and s = ?s and k = k and fuel = 2048 and es = ?es and name = "e_name e", OF k(2,1) name_slot_less]
    by blast
  then show ?thesis
  proof cases
    case found
    have "?sl slot \<le> length ?es" using assms found(1) by (simp add: table_ok_def)
    then have "?sl slot - 1 < length ?es" using found(3) by linarith
    then have "e_name e \<in> e_name ` set ?es" using found(4) by (metis image_eqI nth_mem)
    with found(2) show ?thesis by (simp add: add_entry_def)
  next
    case gap
    have new: "e_name e \<notin> e_name ` set ?es"
    proof
      assume "e_name e \<in> e_name ` set ?es"
      then obtain i where i: "i < length ?es" "e_name (?es ! i) = e_name e" by (auto simp: in_set_conv_nth)
      with assms obtain q where q: "chain ?sl ?s q" "?sl ((?s + q) mod 2048) = i + 1"
        by (auto simp: table_ok_def)
      show False
      proof (cases "q < m")
        case True
        with gap(4) q(2) i show False by auto
      next
        case False
        then have "m = q \<or> m < q" by linarith
        with q gap(3) show False by (auto simp: chain_def)
      qed
    qed
    show ?thesis
    proof (cases "length ?es \<ge> GC_DAV_MAX_ENTRIES")
      case True
      with gap(2) new show ?thesis by (simp add: add_entry_def)
    next
      case False
      let ?g = "(?s + m) mod 2048"
      let ?t1 = "\<lparr>t_entries = ?es @ [e], t_slots = ?sl(?g := length ?es + 1)\<rparr>"
      have "{s. s < 2048 \<and> t_slots ?t1 s \<noteq> 0} = insert ?g {s. s < 2048 \<and> ?sl s \<noteq> 0}" by auto
      moreover have "finite {s. s < 2048 \<and> ?sl s \<noteq> 0}" by simp
      ultimately have card: "card {s. s < 2048 \<and> t_slots ?t1 s \<noteq> 0} = length ?es + 1"
        using gap(3) assms by (simp add: table_ok_def)
      have keep: "chain (?sl(?g := length ?es + 1)) s0 q" if "chain ?sl s0 q" for s0 q
        using that by (auto simp: chain_def)
      have "\<exists>q<2048. chain (t_slots ?t1) (name_slot (e_name (t_entries ?t1 ! i))) q \<and>
          t_slots ?t1 ((name_slot (e_name (t_entries ?t1 ! i)) + q) mod 2048) = i + 1" if "i < length (t_entries ?t1)" for i
      proof (cases "i = length ?es")
        case True
        then show ?thesis using gap k(1) by (intro exI [of _ m]) (auto simp: chain_def)
      next
        case F: False
        with that have i: "i < length ?es" by simp
        with assms obtain q where q: "q < 2048" "chain ?sl (name_slot (e_name (?es ! i))) q"
          "?sl ((name_slot (e_name (?es ! i)) + q) mod 2048) = i + 1"
          by (auto simp: table_ok_def)
        then have "(name_slot (e_name (?es ! i)) + q) mod 2048 \<noteq> ?g" using gap(3) by auto
        with q i keep show ?thesis by (intro exI [of _ q]) (simp add: nth_append)
      qed
      then have "table_ok ?t1"
        using assms card new False by (auto simp: table_ok_def intro: le_SucI)
      with gap(2) new False show ?thesis by (simp add: add_entry_def)
    qed
  qed
qed

section \<open>Names\<close>

text \<open>A name that denotes a child of the listed folder and nothing else.\<close>

definition child_name :: "string \<Rightarrow> bool" where
  "child_name n = (n \<noteq> [] \<and> CHR ''/'' \<notin> set n \<and> n \<noteq> ''.'' \<and> n \<noteq> ''..'' \<and> length n < 256 \<and> (\<forall>c\<in>set n. ccode c \<ge> 32 \<and> c \<noteq> CHR 0x5C))"

lemma valid_path_loop_append: "valid_path_loop (a @ b) \<Longrightarrow> valid_path_loop b"
  by (induction a) (auto split: if_splits)

lemma valid_path_loop_chars: "valid_path_loop p \<Longrightarrow> c \<in> set p \<Longrightarrow> ccode c \<ge> 32 \<and> c \<noteq> CHR 0x5C"
  by (induction p) (auto split: if_splits)

lemma strip_slashes_split:
  assumes "valid_path p"
  shows "\<exists>k. p = strip_slashes p @ replicate k (CHR ''/'')"
proof -
  let ?d = "dropWhile (\<lambda>c. c = CHR ''/'') (rev p)" and ?t = "takeWhile (\<lambda>c. c = CHR ''/'') (rev p)"
  have "rev p = ?t @ ?d" by simp
  then have p: "p = rev ?d @ rev ?t" by (metis rev_append rev_rev_ident)
  have "set ?t \<subseteq> {CHR ''/''}" by (auto dest: set_takeWhileD)
  then have t: "rev ?t = replicate (length ?t) (CHR ''/'')"
    by (metis length_rev replicate_length_same set_rev singletonD subsetD)
  show ?thesis
  proof (cases "?d = []")
    case False
    then have "strip_slashes p = rev ?d" by (auto simp: strip_slashes_def Let_def)
    with p t show ?thesis by metis
  next
    case True
    have "p = rev [] @ replicate (length ?t) (CHR ''/'')" using p unfolding True t .
    then have "p = replicate (length ?t) (CHR ''/'')" by simp
    moreover have "p \<noteq> []" using assms by (simp add: valid_path_def)
    ultimately obtain n where "p = CHR ''/'' # replicate n (CHR ''/'')" by (cases "length ?t") auto
    moreover from this True have "strip_slashes p = [CHR ''/'']" by (simp add: strip_slashes_def)
    ultimately show ?thesis by (metis append_Cons append_Nil)
  qed
qed

lemma last_segment_ok:
  assumes "valid_path p" and "strip_slashes p = a @ CHR ''/'' # n"
  shows "n \<noteq> ''.'' \<and> n \<noteq> ''..''"
proof -
  from strip_slashes_split [OF assms(1)] obtain k where "p = (a @ CHR ''/'' # n) @ replicate k (CHR ''/'')"
    using assms(2) by auto
  then have "p = a @ CHR ''/'' # (n @ replicate k (CHR ''/''))" by simp
  with assms(1) valid_path_loop_append [of a "CHR ''/'' # (n @ replicate k (CHR ''/''))"]
  have "\<not> bad_segment (n @ replicate k (CHR ''/''))" by (auto simp: valid_path_def split: if_splits)
  then show ?thesis by (cases k) (auto simp: bad_segment_def)
qed

lemma item_name_ok:
  assumes "item_name (Suc d) basepath (strip_slashes p) = Some n" and "valid_path p" and "length n < 256"
  shows "child_name n"
proof -
  let ?i = "strip_slashes p"
  from strip_slashes_split [OF assms(2)] obtain k where k: "p = ?i @ replicate k (CHR ''/'')" ..
  have n: "n \<noteq> []" "CHR ''/'' \<notin> set n" using assms(1) by (auto simp: item_name_def Let_def split: if_splits option.splits)
  have "\<exists>a. ?i = a @ CHR ''/'' # n"
  proof (cases "length basepath = 1")
    case True
    then have "n = tl ?i" using assms(1) by (auto simp: item_name_def Let_def split: if_splits option.splits)
    then have ne: "?i = hd ?i # n" using n(1) by (cases ?i) auto
    moreover have "hd ?i = CHR ''/''"
      using assms(2) k ne unfolding valid_path_def by (metis append_Cons list.sel(1))
    ultimately show ?thesis by (metis append_Nil)
  next
    case False
    then have b: "take (length basepath) ?i = basepath" "take 1 (drop (length basepath) ?i) = ''/''" "n = drop (length basepath + 1) ?i"
      using assms(1) by (auto simp: item_name_def Let_def split: if_splits option.splits)
    have "?i = take (length basepath) ?i @ take 1 (drop (length basepath) ?i) @ drop 1 (drop (length basepath) ?i)"
      by (metis append_take_drop_id)
    with b have "?i = basepath @ CHR ''/'' # n" by (simp add: drop_drop add.commute)
    then show ?thesis by blast
  qed
  then obtain a where a: "?i = a @ CHR ''/'' # n" ..
  then have "set n \<subseteq> set p" using k by (metis Un_upper1 append_assoc order_trans set_append set_subset_Cons sup_ge2)
  then have "\<forall>c\<in>set n. ccode c \<ge> 32 \<and> c \<noteq> CHR 0x5C"
    using assms(2) valid_path_loop_chars [of p] by (auto simp: valid_path_def)
  with n last_segment_ok [OF assms(2) a] assms(3) show ?thesis by (simp add: child_name_def)
qed

text \<open>What an entry of a folder listing satisfies.\<close>

definition entry_ok :: "gc_dav_entry \<Rightarrow> bool" where
  "entry_ok e = (child_name (e_name e) \<and> 0 \<le> e_size e \<and> (e_directory e \<longrightarrow> e_size e = 0))"

lemma response_entry_ok:
  assumes "response_entry mx (Suc d) base u basepath x = Some (Inr e)"
  shows "entry_ok e"
proof -
  from assms obtain v0 itempath name where
    i: "item_path base u v0 = Some itempath" "item_name (Suc d) basepath itempath = Some name" "length name < 256" "e_name e = name"
    and sz: "0 \<le> e_size e \<and> (e_directory e \<longrightarrow> e_size e = 0)"
    by (auto simp: response_entry_def Let_def not_less split: if_splits option.splits prod.splits)
  from i(1) obtain p where "valid_path p" "itempath = strip_slashes p"
    by (auto simp: item_path_def split: if_splits option.splits)
  with item_name_ok i sz show ?thesis by (auto simp: entry_ok_def)
qed

lemma responses_loop_ok:
  assumes "table_ok t" and "\<forall>e\<in>set (t_entries t). P e"
    and "\<And>x e. response_entry mx depth base u basepath x = Some (Inr e) \<Longrightarrow> P e"
  shows "\<exists>r w1. responses_loop mx depth base u basepath wait xs t w = (Some r, w1) \<and>
    (\<forall>t1. r = Inr t1 \<longrightarrow> table_ok t1 \<and> (\<forall>e\<in>set (t_entries t1). P e))"
  using assms(1,2)
proof (induction xs arbitrary: t w)
  case (Cons x xs)
  let ?w1 = "if length (t_entries t) mod 32 = 0 then call_wait wait w else w"
  show ?case
  proof (cases "response_entry mx depth base u basepath x")
    case None
    with Cons.IH [OF Cons.prems, of ?w1] show ?thesis by (simp add: Let_def)
  next
    case (Some r)
    show ?thesis
    proof (cases r)
      case (Inl e)
      with Some show ?thesis by (simp add: Let_def)
    next
      case (Inr e)
      then have "P e" using assms(3) Some by blast
      from add_entry_spec [OF Cons.prems(1), of e] consider
        "add_entry e t = Some (Inr t)" | m where "add_entry e t = Some (Inl m)"
        | t1 where "add_entry e t = Some (Inr t1)" "table_ok t1" "t_entries t1 = t_entries t @ [e]"
        by (auto split: if_splits)
      then show ?thesis
      proof cases
        case 1
        with Some Inr Cons.IH [OF Cons.prems, of ?w1] show ?thesis by (simp add: Let_def)
      next
        case 2
        with Some Inr show ?thesis by (simp add: Let_def)
      next
        case 3
        with Some Inr Cons.IH [OF 3(2), of ?w1] Cons.prems(2) \<open>P e\<close> show ?thesis by (simp add: Let_def)
      qed
    qed
  qed
qed simp

lemma table_ok_empty: "table_ok \<lparr>t_entries = [], t_slots = (\<lambda>_. 0)\<rparr>"
  by (simp add: table_ok_def)

definition listing_ok :: "nat \<Rightarrow> (gc_dav_entry \<Rightarrow> bool) \<Rightarrow> gc_dav_entry list \<Rightarrow> bool" where
  "listing_ok depth P es = (length es \<le> GC_DAV_MAX_ENTRIES \<and> distinct (map e_name es) \<and> (\<forall>e\<in>set es. P e) \<and>
     (depth = 0 \<longrightarrow> length es = 1))"

lemma query_document_entries:
  assumes "\<And>x e. response_entry mx depth base u basepath x = Some (Inr e) \<Longrightarrow> P e"
  shows "\<exists>r w1. query_document mx depth base u basepath wait xml w = (Some r, w1) \<and> (\<forall>es. r = Inr es \<longrightarrow> listing_ok depth P es)"
proof -
  show ?thesis
  proof (cases "mx_load mx xml")
    case None
    then show ?thesis by (simp add: query_document_def Let_def)
  next
    case (Some tree)
    let ?multi = "if dav_node mx tree ''multistatus'' then Some tree else child mx tree ''multistatus''"
    show ?thesis
    proof (cases ?multi)
      case None
      with Some show ?thesis by (simp add: query_document_def Let_def)
    next
      case m: (Some multi)
      from responses_loop_ok [OF table_ok_empty, of P mx depth base u basepath wait "mx_children mx multi" "call_wait wait w"] assms
      obtain r w1 where r: "responses_loop mx depth base u basepath wait (mx_children mx multi) \<lparr>t_entries = [], t_slots = (\<lambda>_. 0)\<rparr>
          (call_wait wait w) = (Some r, w1)" "\<forall>t1. r = Inr t1 \<longrightarrow> table_ok t1 \<and> (\<forall>e\<in>set (t_entries t1). P e)"
        by auto
      have "query_document mx depth base u basepath wait xml w =
          (if bad_xml xml then (Some (Inl (EINVAL, ''Unsupported WebDAV XML declaration'')), w)
           else (case r of Inl e \<Rightarrow> Some (Inl e)
              | Inr t \<Rightarrow> if depth = 0 \<and> length (t_entries t) \<noteq> 1 then Some (Inl (ENOENT, ''WebDAV resource not found''))
                         else Some (Inr (t_entries t)), w1))"
        unfolding query_document_def Let_def Some option.case m r(1) prod.case by (simp split: sum.split)
      then show ?thesis using r(2) by (cases r) (auto simp: listing_ok_def table_ok_def)
    qed
  qed
qed

lemma query_entries:
  assumes "\<And>base u basepath x e. response_entry mx depth base u basepath x = Some (Inr e) \<Longrightarrow> P e"
  shows "\<exists>r w1. query ops mx c pth depth wait w = (Some r, w1) \<and> (\<forall>es. r = Inr es \<longrightarrow> listing_ok depth P es)"
proof (cases "make_url c pth")
  case (Some target)
  obtain ok h w1 where o: "gc_http_open ops target (dav_args c ''PROPFIND'' (Some propfind_body) (int depth) (- 1)) (c_cancel c)
      (call_wait wait w) = (ok, h, w1)" by (metis surj_pair)
  have "\<exists>r h2 w2. query_response ops mx depth wait h w1 = (Some r, h2, w2) \<and> (\<forall>es. r = Inr es \<longrightarrow> listing_ok depth P es)"
  proof (cases "collect ops wait 0 0 [] h w1")
    case (fields x h1 w2)
    have doc: "\<exists>r w3. query_document mx depth (h_url h) u q wait xml w2 = (Some r, w3) \<and> (\<forall>es. r = Inr es \<longrightarrow> listing_ok depth P es)" for u q xml
      by (rule query_document_entries) (rule assms)
    obtain q where q: "q = (case gc_http_parse_url (h_url h) of None \<Rightarrow> None | Some u \<Rightarrow>
        (case gc_http_decode_path (path u) 2048 of None \<Rightarrow> None | Some p \<Rightarrow> if valid_path p then Some (u, p) else None))" by blast
    show ?thesis
    proof (cases "h_status h \<noteq> 207 \<or> q = None")
      case True
      with q show ?thesis by (auto simp: query_response_def Let_def split: option.splits)
    next
      case False
      with q obtain u p where u: "gc_http_parse_url (h_url h) = Some u" "gc_http_decode_path (path u) 2048 = Some p" "valid_path p"
        by (auto split: option.splits if_splits)
      show ?thesis
      proof (cases x)
        case (Inl e)
        with False u fields show ?thesis by (simp add: query_response_def)
      next
        case (Inr xml)
        from doc [of u "strip_slashes p" xml] False u fields Inr show ?thesis by (auto simp: query_response_def)
      qed
    qed
  qed
  with Some o show ?thesis by (auto simp: query_def Let_def split: prod.split)
qed (simp add: query_def)

section \<open>Files as byte sources\<close>

definition dav_rd :: "('n, 'z) net_ops_scheme \<Rightarrow> int \<Rightarrow> 'n gc_dav_file \<times> 'n world \<Rightarrow> (int \<times> string) \<times> 'n gc_dav_file \<times> 'n world" where
  "dav_rd ops len s = gc_dav_read ops (fst s) len (snd s)"

definition dav_body :: "('n, 'z) net_ops_scheme \<Rightarrow> string \<Rightarrow> 'n gc_dav_file \<times> 'n world \<Rightarrow> bool" where
  "dav_body ops b s = (\<exists>h. d_http (fst s) = Some h \<and> h_conn h \<noteq> None \<and> http_body ops b (h, snd s) \<and>
     d_size (fst s) - d_position (fst s) = int (length b))"

lemma dav_read_body_step:
  assumes "http_body ops b (h, w)" and "h_conn h \<noteq> None" and "d_size f - d_position f = int (length b)" and "0 < len" and "b \<noteq> []"
  shows "\<exists>x b1 f1 w1. b = x @ b1 \<and> dav_read_body ops f h len w = ((int (length x), x), f1, w1) \<and> dav_body ops b1 (f1, w1) \<and>
    int (length x) \<le> len \<and> x \<noteq> []"
proof -
  have "0 < min len (d_size f - d_position f)" using assms by simp
  from http_src.step [OF assms(1) this] assms(5) obtain x b1 s1 where
    x: "b = x @ b1" "http_rd ops (min len (d_size f - d_position f)) (h, w) = ((int (length x), x), s1)" "http_body ops b1 s1"
      "int (length x) \<le> min len (d_size f - d_position f)" "x \<noteq> []"
    by blast
  obtain h1 w1 where s1: "s1 = (h1, w1)" by fastforce
  then have r: "gc_http_read ops h (min len (d_size f - d_position f)) w = ((int (length x), x), h1, w1)"
    using x(2) by (simp add: http_rd_def)
  then have "h_conn h1 \<noteq> None" using http_read_frame [OF r] assms(2) by (simp add: frame_def)
  let ?f1 = "f\<lparr>d_http := Some h1, d_position := d_position f + int (length x)\<rparr>"
  have "dav_read_body ops f h len w = ((int (length x), x), ?f1, w1)" using r x(5) by (simp add: dav_read_body_def)
  moreover have "dav_body ops b1 (?f1, w1)" using x(1,3) s1 \<open>h_conn h1 \<noteq> None\<close> assms(3) by (simp add: dav_body_def)
  ultimately show ?thesis using x(1,4,5) by (intro exI [of _ x] exI [of _ b1] exI [of _ ?f1] exI [of _ w1]) simp
qed

interpretation dav_src: byte_source "dav_rd ops" "dav_body ops" for ops
proof
  fix b and s :: "'a gc_dav_file \<times> 'a world" and len :: int
  assume "dav_body ops b s" and len: "0 < len"
  then obtain h where h: "d_http (fst s) = Some h" "h_conn h \<noteq> None" "http_body ops b (h, snd s)"
    "d_size (fst s) - d_position (fst s) = int (length b)"
    by (auto simp: dav_body_def)
  show "\<exists>x b1 s1. b = x @ b1 \<and> dav_rd ops len s = ((int (length x), x), s1) \<and> dav_body ops b1 s1 \<and>
      int (length x) \<le> len \<and> (x = [] \<longrightarrow> b = [])"
  proof (cases "b = []")
    case True
    then show ?thesis using h len \<open>dav_body ops b s\<close> by (auto simp: dav_rd_def gc_dav_read_def)
  next
    case False
    then have "d_position (fst s) < d_size (fst s)" using h(4) by (cases b) auto
    then have "dav_rd ops len s = dav_read_body ops (fst s) h len (snd s)"
      using h len by (auto simp: dav_rd_def gc_dav_read_def)
    with dav_read_body_step [OF h(3,2,4) len False] show ?thesis by auto
  qed
qed

lemma dav_first_read:
  assumes "d_http f = Some h0" "h_conn h0 = None" "d_position f < d_size f" "0 < len"
    and "gc_http_open ops (d_url f) (dav_args (d_config f) ''GET'' None (- 1) (d_position f)) (c_cancel (d_config f)) w = (True, h, w1)"
    and "h_total h < 0 \<or> h_total h = d_size f" "h_length h < 0 \<or> h_length h = d_size f - d_position f" "h_conn h \<noteq> None"
  shows "dav_rd ops len (f, w) = dav_rd ops len (f\<lparr>d_http := Some h\<rparr>, w1)"
proof -
  have "dav_read_body ops (f\<lparr>d_http := Some h\<rparr>) h len w1 = dav_read_body ops f h len w1"
    by (cases "gc_http_read ops h (min len (d_size f - d_position f)) w1") (auto simp: dav_read_body_def)
  with assms show ?thesis by (auto simp: dav_rd_def gc_dav_read_def)
qed

section \<open>A concrete run\<close>

text \<open>A concrete server for the witnesses: a file of five bytes, asked for from its third byte on.\<close>

definition demo_config :: "string list gc_dav_config" where
  "demo_config = \<lparr>c_url = ''http://nas/'', c_name = ''NAS'', c_authorization = [], c_cancel = None\<rparr>"

definition demo_file :: "string list gc_dav_file" where
  "demo_file = \<lparr>d_config = demo_config, d_http = Some http_zero, d_url = ''http://nas/a'', d_size = 5, d_position = 2\<rparr>"

definition demo_range :: "string list world" where
  "demo_range = \<lparr>clock = 0, net = [''HTTP/1.1 206 P'' @ crlf @ ''Content-Range: bytes 2-4/5'' @ crlf @ ''Content-Length: 3'' @ crlf @ crlf @ ''l'', ''lo''],
     dns = dns_start\<rparr>"

lemma dav_demo:
  "case gc_http_open script_ops (d_url demo_file) (dav_args (d_config demo_file) ''GET'' None (- 1) (d_position demo_file))
      (c_cancel (d_config demo_file)) demo_range of
     (ok, h, w1) \<Rightarrow> ok \<and> h_total h = 5 \<and> h_length h = 3 \<and> \<not> h_eof h \<and> \<not> h_chunked h \<and> h_remaining h = 3 \<and> \<not> h_failed h \<and>
       h_begin h \<le> h_end h \<and> h_end h = length (h_buffer h) \<and> drop (h_begin h) (h_buffer h) = ''l'' \<and> net w1 = [''lo''] \<and>
       (case h_conn h of None \<Rightarrow> False | Some c \<Rightarrow> \<not> conn_tls c \<and> (case conn_cancel c of None \<Rightarrow> True | Some _ \<Rightarrow> False))"
  by code_simp

lemma dav_demo_body:
  obtains h w1 where "gc_http_open script_ops (d_url demo_file) (dav_args (d_config demo_file) ''GET'' None (- 1) (d_position demo_file))
      (c_cancel (d_config demo_file)) demo_range = (True, h, w1)"
    "h_total h = 5" "h_length h = 3" "http_body script_ops ''llo'' (h, w1)" "h_conn h \<noteq> None"
proof -
  from dav_demo obtain h w1 c where o: "gc_http_open script_ops (d_url demo_file) (dav_args (d_config demo_file) ''GET'' None (- 1)
      (d_position demo_file)) (c_cancel (d_config demo_file)) demo_range = (True, h, w1)" and
    h: "h_total h = 5" "h_length h = 3" "\<not> h_eof h" "\<not> h_chunked h" "h_remaining h = 3" "\<not> h_failed h"
       "h_begin h \<le> h_end h" "h_end h = length (h_buffer h)" "drop (h_begin h) (h_buffer h) = ''l''" "net w1 = [''lo'']"
       "h_conn h = Some c" "\<not> conn_tls c" "conn_cancel c = None"
    by (auto split: prod.splits option.splits)
  have "feeds script_ops c ''lo'' w1" by (rule script_feeds) (use h in auto)
  then have "holds script_ops (''llo'' @ []) h w1" using h by (auto simp: holds_def pending_def)
  then have "http_body script_ops ''llo'' (h, w1)" using h by (intro http_body.by_length) auto
  with o h show ?thesis by (intro that [of h w1]) auto
qed

section \<open>Properties\<close>

text \<open>
  (C10) Playing a file reads the file: when the server answers the ranged request with the bytes from the
  current position on, in any HTTP framing and fragmentation, then the reads from that position, of
  any positive sizes, return exactly the rest of the file's content.
\<close>

theorem dav_reads_the_file:
  assumes "d_http f = Some h0" "h_conn h0 = None" "d_size f = int (length content)" "0 \<le> d_position f" "d_position f < d_size f"
    and "gc_http_open ops (d_url f) (dav_args (d_config f) ''GET'' None (- 1) (d_position f)) (c_cancel (d_config f)) w = (True, h, w1)"
    and "h_total h < 0 \<or> h_total h = d_size f" "h_length h < 0 \<or> h_length h = d_size f - d_position f"
    and "http_body ops (drop (nat (d_position f)) content) (h, w1)"
    and "\<forall>l\<in>set lens. 0 < l" "length content \<le> length lens"
  shows "fst (read_seq (dav_rd ops) lens (f, w)) = drop (nat (d_position f)) content"
proof -
  from assms(3,4,5,11) obtain l ls where l: "lens = l # ls" by (cases lens) auto
  obtain ok2 h2 w2 where "open_loop ops (dav_args (d_config f) ''GET'' None (- 1) (d_position f)) (c_cancel (d_config f)) 5 (d_url f) w = (ok2, h2, w2)"
    by (metis surj_pair)
  with assms(6) open_loop_ready have c: "h_conn h \<noteq> None"
    by (fastforce simp: gc_http_open_def Let_def split: if_splits option.splits prod.splits)
  have "read_seq (dav_rd ops) lens (f, w) = read_seq (dav_rd ops) lens (f\<lparr>d_http := Some h\<rparr>, w1)"
    using dav_first_read [OF assms(1,2,5) _ assms(6,7,8) c, of l] assms(10) l by simp
  moreover have "dav_body ops (drop (nat (d_position f)) content) (f\<lparr>d_http := Some h\<rparr>, w1)"
    using assms(3,4,5,9) c by (auto simp: dav_body_def of_nat_diff)
  ultimately show ?thesis using assms(10,11) by (simp add: dav_src.read_all)
qed

theorem dav_reads_the_file_witness:
  "fst (read_seq (dav_rd script_ops) [2, 1, 7, 7, 7] (demo_file, demo_range)) = ''llo''"
proof -
  obtain h w1 where "gc_http_open script_ops (d_url demo_file) (dav_args (d_config demo_file) ''GET'' None (- 1) (d_position demo_file))
      (c_cancel (d_config demo_file)) demo_range = (True, h, w1)" "h_total h = 5" "h_length h = 3" "http_body script_ops ''llo'' (h, w1)"
    using dav_demo_body by blast
  with dav_reads_the_file [of demo_file http_zero "''hello''" script_ops demo_range h w1 "[2, 1, 7, 7, 7]"] show ?thesis
    by (simp add: demo_file_def http_zero_def)
qed

text \<open>
  (C40) A listing is safe to use as a folder: whatever XML the server sends and whatever the XML parser makes of
  it, the query ends, and the entries of a successful listing are at most 1024, with pairwise distinct
  names, each a plain child name (not empty, no slash or backslash, no control byte, not \<open>.\<close> or \<open>..\<close>,
  shorter than the 256-byte field) and with a non-negative size.
\<close>

theorem dav_list_wellformed:
  "case fst (gc_dav_list_wait ops mx c pth wait w) of
     None \<Rightarrow> False
   | Some (Inl e) \<Rightarrow> True
   | Some (Inr es) \<Rightarrow> length es \<le> GC_DAV_MAX_ENTRIES \<and> distinct (map e_name es) \<and> list_all entry_ok es"
proof -
  have "\<exists>r w1. query ops mx c pth 1 wait w = (Some r, w1) \<and> (\<forall>es. r = Inr es \<longrightarrow> listing_ok 1 entry_ok es)"
    by (rule query_entries) (use response_entry_ok [of mx 0] in auto)
  then show ?thesis by (auto simp: gc_dav_list_wait_def listing_ok_def list_all_iff split: sum.splits)
qed

text \<open>
  The entry table is a set keyed by name: with the hash table in its invariant, adding an entry
  always ends; a name already present changes nothing; a new name is refused only when 1024 entries are
  present, and is otherwise appended with the invariant kept.
\<close>

theorem dav_table_is_a_set:
  assumes "table_ok t"
  shows "if e_name e \<in> e_name ` set (t_entries t) then add_entry e t = Some (Inr t)
    else if length (t_entries t) = GC_DAV_MAX_ENTRIES then (\<exists>m. add_entry e t = Some (Inl (EOVERFLOW, m)))
    else \<exists>t1. add_entry e t = Some (Inr t1) \<and> table_ok t1 \<and> t_entries t1 = t_entries t @ [e]"
  using add_entry_spec [OF assms, of e] assms by (auto simp: table_ok_def)

theorem dav_table_is_a_set_witness:
  "\<exists>t1. add_entry \<lparr>e_name = ''a'', e_directory = False, e_size = 3\<rparr> \<lparr>t_entries = [], t_slots = (\<lambda>_. 0)\<rparr> = Some (Inr t1) \<and>
     table_ok t1 \<and> t_entries t1 = [\<lparr>e_name = ''a'', e_directory = False, e_size = 3\<rparr>]"
  using dav_table_is_a_set [OF table_ok_empty, of "\<lparr>e_name = ''a'', e_directory = False, e_size = 3\<rparr>"] by simp

text \<open>
  Seeking is exact and never overflows: for a file whose position and size are non-negative 64-bit values,
  a seek succeeds precisely when \<open>whence\<close> is valid and the target is a non-negative 64-bit value; then the
  file stands at the target, and the connection is kept exactly when the position does not change.
\<close>

theorem dav_seek_exact:
  assumes "0 \<le> d_position f" "d_position f \<le> int64_max" "0 \<le> d_size f" "d_size f \<le> int64_max" "int64_min \<le> offset" "offset \<le> int64_max"
    and base: "base = (if whence = 0 then 0 else if whence = 1 then d_position f else d_size f)"
  shows "if whence \<in> {0, 1, 2} \<and> 0 \<le> base + offset \<and> base + offset \<le> int64_max
    then gc_dav_seek ops f offset whence w =
      (Some (base + offset),
       (if base + offset = d_position f then f else fst (dav_file_close ops f w))\<lparr>d_position := base + offset\<rparr>,
       if base + offset = d_position f then w else snd (dav_file_close ops f w))
    else gc_dav_seek ops f offset whence w = (None, f, w)"
proof (cases "whence \<in> {0, 1, 2}")
  case True
  have "0 \<le> base" "base \<le> int64_max" using assms(1-4) base by simp_all
  then have c: "((offset > 0 \<and> base > int64_max - offset) \<or> (offset < 0 \<and> offset < - base)) = (\<not> (0 \<le> base + offset \<and> base + offset \<le> int64_max))"
    by linarith
  have "(if whence = 0 then Some 0 else if whence = 1 then Some (d_position f) else if whence = 2 then Some (d_size f) else None) = Some base"
    using True base by auto
  then show ?thesis using True unfolding gc_dav_seek_def Let_def by (simp only: option.case c) (simp split: prod.split)
next
  case False
  then show ?thesis by (simp add: gc_dav_seek_def)
qed

theorem dav_seek_exact_witness:
  "gc_dav_seek script_ops \<lparr>d_config = \<lparr>c_url = ''http://nas/'', c_name = ''n'', c_authorization = [], c_cancel = None\<rparr>,
      d_http = None, d_url = ''http://nas/a'', d_size = 10, d_position = 4\<rparr> (- 7) 2 demo_world =
     (Some 3, \<lparr>d_config = \<lparr>c_url = ''http://nas/'', c_name = ''n'', c_authorization = [], c_cancel = None\<rparr>,
      d_http = None, d_url = ''http://nas/a'', d_size = 10, d_position = 3\<rparr>, demo_world)"
  using dav_seek_exact [of "\<lparr>d_config = \<lparr>c_url = ''http://nas/'', c_name = ''n'', c_authorization = [], c_cancel = None\<rparr>,
      d_http = None, d_url = ''http://nas/a'', d_size = 10, d_position = 4\<rparr>" "- 7" 10 2 script_ops demo_world]
  by (simp add: dav_file_close_def)

text \<open>
  Only the right bytes are accepted: when a read opens a new connection at a positive position and delivers
  data, the server answered 206 with a range that starts exactly there and with a total and a
  length that agree with the file's size, and the position advances by what was delivered.
\<close>

theorem dav_read_right_range:
  assumes "gc_dav_read ops f len w = ((n, bs), f1, w1)" and "0 < n" and "d_http f = Some h0" "h_conn h0 = None" and "0 < d_position f"
  shows "\<exists>h w2. gc_http_open ops (d_url f) (dav_args (d_config f) ''GET'' None (- 1) (d_position f)) (c_cancel (d_config f)) w = (True, h, w2) \<and>
    h_status h = 206 \<and> h_range_start h = d_position f \<and>
    (h_total h = d_size f \<or> h_total h < 0) \<and> (h_length h = d_size f - d_position f \<or> h_length h < 0) \<and>
    d_position f1 = d_position f + n"
proof -
  let ?a = "dav_args (d_config f) ''GET'' None (- 1) (d_position f)"
  obtain ok h w2 where o: "gc_http_open ops (d_url f) ?a (c_cancel (d_config f)) w = (ok, h, w2)" by (metis surj_pair)
  have g: "\<not> (len \<le> 0 \<or> d_position f \<ge> d_size f)"
  proof
    assume "len \<le> 0 \<or> d_position f \<ge> d_size f"
    with assms(1,3) have "n = 0" by (simp add: gc_dav_read_def)
    with assms(2) show False by simp
  qed
  let ?bad = "(h_total h \<ge> 0 \<and> h_total h \<noteq> d_size f) \<or> (h_length h \<ge> 0 \<and> h_length h \<noteq> d_size f - d_position f)"
  have "gc_dav_read ops f len w =
      (if \<not> ok then ((- 1, []), f\<lparr>d_http := Some h\<rparr>, w2)
       else if ?bad then (let (h3, w3) = gc_http_close ops h w2 in ((- 1, []), f\<lparr>d_http := Some h3\<rparr>, w3))
       else dav_read_body ops f h len w2)"
    using g assms(3,4) o by (simp add: gc_dav_read_def)
  with assms(1,2) have ok: "ok" "\<not> ?bad" and b: "dav_read_body ops f h len w2 = ((n, bs), f1, w1)"
    by (auto split: if_splits simp: gc_http_close_def)
  obtain ok2 h2 w3 where l: "open_loop ops ?a (c_cancel (d_config f)) 5 (d_url f) w = (ok2, h2, w3)" by (metis surj_pair)
  with o ok(1) have "ok2 \<and> h = h2" by (auto simp: gc_http_open_def Let_def split: if_splits option.splits prod.splits)
  with open_loop_ready [OF l] have "http_ready ?a h" by simp
  then have "h_status h = 206" "h_range_start h = d_position f"
    using assms(5) by (auto simp: http_ready_def dav_args_def)
  moreover have "d_position f1 = d_position f + n"
    using b assms(2) by (auto simp: dav_read_body_def split: prod.splits if_splits)
  ultimately show ?thesis using o ok by (auto simp: not_le)
qed

theorem dav_read_right_range_witness:
  "\<exists>h w2. gc_http_open script_ops (d_url demo_file) (dav_args (d_config demo_file) ''GET'' None (- 1) (d_position demo_file))
      (c_cancel (d_config demo_file)) demo_range = (True, h, w2) \<and> h_status h = 206 \<and> h_range_start h = 2"
proof -
  obtain n bs f1 w1 where r: "gc_dav_read script_ops demo_file 2 demo_range = ((n, bs), f1, w1)" by (metis surj_pair)
  obtain h w2 where o: "gc_http_open script_ops (d_url demo_file) (dav_args (d_config demo_file) ''GET'' None (- 1) (d_position demo_file))
      (c_cancel (d_config demo_file)) demo_range = (True, h, w2)" "h_total h = 5" "h_length h = 3" "http_body script_ops ''llo'' (h, w2)" "h_conn h \<noteq> None"
    using dav_demo_body by blast
  have "dav_rd script_ops 2 (demo_file, demo_range) = dav_rd script_ops 2 (demo_file\<lparr>d_http := Some h\<rparr>, w2)"
    by (rule dav_first_read [where ?h0.0 = http_zero, OF _ _ _ _ o(1)]) (use o in \<open>simp_all add: demo_file_def http_zero_def\<close>)
  moreover have "dav_body script_ops ''llo'' (demo_file\<lparr>d_http := Some h\<rparr>, w2)"
    using o by (simp add: dav_body_def demo_file_def)
  ultimately have "0 < n" using dav_src.step [of script_ops "''llo''" "(demo_file\<lparr>d_http := Some h\<rparr>, w2)" 2] r by (auto simp: dav_rd_def)
  from dav_read_right_range [OF r this, of http_zero] show ?thesis by (auto simp: demo_file_def http_zero_def)
qed

text \<open>A property of the world that the pacing callback keeps.\<close>

definition wait_kept :: "'n dav_wait \<Rightarrow> ('n world \<Rightarrow> bool) \<Rightarrow> bool" where
  "wait_kept wait Q = (\<forall>w. Q w \<longrightarrow> Q (call_wait wait w))"

lemma collect_sess:
  assumes k: "net_kept ops c Q" and wt: "wait_kept wait Q"
  shows "sess c Q h w \<Longrightarrow> collect ops wait al us xml h w = (r, h1, w1) \<Longrightarrow> sess c Q h1 w1 \<and> h_url h1 = h_url h"
proof (induction "(512 * 1024 + 1 - al, al - us)" arbitrary: al us xml h w
    rule: wf_induct_rule [OF wf_lex_prod [OF wf_less_than wf_less_than]])
  case 1
  let ?grow = "us + 4096 + 1 > al"
  let ?al1 = "if ?grow then min (if al \<noteq> 0 then al * 2 else 8192) (512 * 1024 + 1) else al"
  obtain n bs h2 w2 where r: "gc_http_read ops h (int (?al1 - us - 1)) (call_wait wait w) = ((n, bs), h2, w2)" by (metis surj_pair)
  have "sess c Q h (call_wait wait w)" using 1 wt by (auto simp: sess_def wait_kept_def)
  from http_read_sess [OF k this r] http_read_frame [OF r] have s2: "sess c Q h2 w2" "h_url h2 = h_url h" by (simp_all add: frame_def)
  show ?case
  proof (cases "?grow \<and> al \<ge> 512 * 1024 + 1 \<or> n \<le> 0")
    case True
    with 1 r s2 show ?thesis by (subst (asm) (2) collect.simps) (auto simp: Let_def split: if_splits)
  next
    case False
    then have "collect ops wait ?al1 (us + nat n) (xml @ bs) h2 w2 = (r, h1, w1)"
      using 1 r by (subst (asm) (2) collect.simps) (auto simp: Let_def split: if_splits)
    moreover have "((512 * 1024 + 1 - ?al1, ?al1 - (us + nat n)), (512 * 1024 + 1 - al, al - us)) \<in> less_than <*lex*> less_than"
      using False by auto
    ultimately show ?thesis using 1(1) s2 by metis
  qed
qed

lemma responses_loop_kept:
  "wait_kept wait Q \<Longrightarrow> Q w \<Longrightarrow> responses_loop mx depth base u basepath wait xs t w = (r, w1) \<Longrightarrow> Q w1"
proof (induction xs arbitrary: t w)
  case (Cons x xs)
  let ?w1 = "if length (t_entries t) mod 32 = 0 then call_wait wait w else w"
  have w1: "Q ?w1" using Cons.prems by (simp add: wait_kept_def)
  from Cons.prems(3) w1 Cons.IH [OF Cons.prems(1) w1] show ?case
    by (auto simp: Let_def simp del: if_split_asm if_split split: option.splits sum.splits)
qed simp

lemma query_document_kept:
  "wait_kept wait Q \<Longrightarrow> Q w \<Longrightarrow> query_document mx depth base u basepath wait xml w = (r, w1) \<Longrightarrow> Q w1"
  unfolding query_document_def Let_def
  by (auto split: if_splits option.splits prod.splits simp: wait_kept_def dest!: responses_loop_kept [of wait Q, rotated 2])

lemma query_response_sess:
  assumes k: "net_kept ops c Q" "wait_kept wait Q" and s: "sess c Q h w" and r: "query_response ops mx depth wait h w = (r, h1, w1)"
  shows "sess c Q h1 w1"
proof -
  obtain x h2 w2 where x: "collect ops wait 0 0 [] h w = (x, h2, w2)" by (metis surj_pair)
  note c = collect_sess [OF k s x]
  have doc: "sess c Q h2 w3" if "query_document mx depth base u q wait xml w2 = (r3, w3)" for base u q xml r3 w3
    using query_document_kept [OF k(2) _ that] c by (simp add: sess_def)
  show ?thesis
    using r x c s doc
    unfolding query_response_def Let_def by (auto split: if_splits option.splits sum.splits prod.splits)
qed

lemma http_open_conn:
  assumes "gc_http_open (track ops) url a (track_cancel cc) w = (ok, h, w1)"
  shows "if ok then \<exists>c. sess c (\<lambda>v. resources v = resources w1) h w1 \<and> conn_cancel c = track_cancel cc \<and> conn_fd c \<ge> 0 \<and>
      resources w1 = (conn_fd c # fst (resources w), if conn_tls c then conn_fd c # snd (resources w) else snd (resources w))
    else resources w1 = resources w"
proof -
  obtain ok2 h2 w2 where l: "open_loop (track ops) a (track_cancel cc) 5 url w = (ok2, h2, w2)" by (metis surj_pair)
  note r = open_loop_resources [OF l] and e = open_loop_ready [OF l]
  have closed: "resources (snd (gc_http_close (track ops) h2 w2)) = resources w"
    using r by (cases "h_conn h2") (auto simp: gc_http_close_def net_close_releases prod_eq_iff)
  show ?thesis
  proof (cases ok)
    case True
    with assms l have "ok2 \<and> h = h2 \<and> w1 = w2"
      by (auto simp: gc_http_open_def Let_def split: if_splits option.splits prod.splits)
    with r e True show ?thesis by (auto simp: sess_def split: option.splits)
  next
    case False
    with assms l closed show ?thesis
      by (auto simp: gc_http_open_def Let_def split: if_splits option.splits prod.splits)
  qed
qed

text \<open>
  A directory query leaves no connection behind: on every path (bad path, refused request, wrong status,
  oversized or malformed document, listing error, success) the sockets and TLS sessions open after the
  query are those open before it, provided only that the pacing callback opens none.
\<close>

theorem dav_query_no_leak:
  assumes "c_cancel c = track_cancel cc" and "\<forall>S. wait_kept wait (\<lambda>w. resources w = S)"
    and "query (track ops) mx c pth depth wait w0 = (r, w1)"
  shows "resources w1 = resources w0"
proof (cases "make_url c pth")
  case (Some target)
  let ?a = "dav_args c ''PROPFIND'' (Some propfind_body) (int depth) (- 1)"
  obtain ok h w2 where o: "gc_http_open (track ops) target ?a (track_cancel cc) (call_wait wait w0) = (ok, h, w2)" by (metis surj_pair)
  have w0: "resources (call_wait wait w0) = resources w0" using assms(2) unfolding wait_kept_def by blast
  note oc = http_open_conn [OF o, unfolded w0]
  obtain r3 h3 w3 where q: "query_response (track ops) mx depth wait h w2 = (r3, h3, w3)" by (metis surj_pair)
  show ?thesis
  proof (cases ok)
    case True
    with oc obtain k where k: "sess k (\<lambda>v. resources v = resources w2) h w2" "conn_cancel k = track_cancel cc" "conn_fd k \<ge> 0"
      "resources w2 = (conn_fd k # fst (resources w0), if conn_tls k then conn_fd k # snd (resources w0) else snd (resources w0))"
      by auto
    from query_response_sess [OF tracked_kept [OF k(2)] _ k(1) q] assms(2) have "h_conn h3 = Some k" "resources w3 = resources w2"
      by (auto simp: sess_def)
    with True assms(1,3) Some o q k show ?thesis
      by (auto simp: query_def gc_http_close_def net_close_releases prod_eq_iff)
  next
    case False
    with oc assms(1,3) Some o show ?thesis by (simp add: query_def)
  qed
qed (use assms(3) in \<open>simp add: query_def\<close>)

theorem dav_query_no_leak_witness:
  "resources (snd (query (track script_ops) \<lparr>mx_element = (\<lambda>x :: unit. None), mx_attr = (\<lambda>_ _. None), mx_children = (\<lambda>_. []),
       mx_ancestors = (\<lambda>_. []), mx_opaque = (\<lambda>_. None), mx_load = (\<lambda>_. None)\<rparr>
     \<lparr>c_url = ''http://nas/'', c_name = ''NAS'', c_authorization = [], c_cancel = track_cancel None\<rparr> ''/music'' 1 None
     \<lparr>clock = 0, net = ([''HTTP/1.1 207 M'' @ crlf @ crlf @ ''<x/>''], [8], []), dns = dns_start\<rparr>)) = ([8], [])"
  (is "resources (snd (query _ ?mx ?c _ _ _ ?w)) = _")
proof -
  have k: "\<forall>S. wait_kept None (\<lambda>w :: string list tracked world. resources w = S)" by (simp add: wait_kept_def call_wait_def)
  from dav_query_no_leak [of ?c None, OF _ k, of script_ops ?mx "''/music''" 1 ?w] show ?thesis
    by (metis gc_dav_config.select_convs(4) prod.collapse snd_conv world.select_convs(2))
qed

end
