(* ===== verification/Webdav_Device.thy ===== *)
theory Webdav_Device
  imports Complex_Main Webdav_Client
begin

text \<open>
  The \<open>dav1:\<close> device (\<^verbatim>\<open>src/source/utils/webdav_device.c\<close>): the directory cache with its byte budget and pinned
  root, the priority gate between metadata and audio, the registration of playback files and the
  newlib device operations. The functions that take the lock are atomic steps; \<open>dcache_steps\<close> lets any
  number of threads interleave them. The LRU clock counts operations and does not wrap here.
\<close>

section \<open>The directory cache\<close>

record dcache_item =
  ci_path :: string
  ci_entries :: "gc_dav_entry list"
  ci_bytes :: nat
  ci_stamp :: nat

record dcache =
  dc_items :: "dcache_item list"
  dc_bytes :: nat
  dc_clock :: nat

abbreviation DAV_DIRECTORY_CACHE_LIMIT :: nat where "DAV_DIRECTORY_CACHE_LIMIT \<equiv> 1024 * 1024"

text \<open>\<open>cache_remove\<close>; the victim is named by its position in the list.\<close>

definition cache_remove :: "nat \<Rightarrow> dcache \<Rightarrow> dcache" where
  "cache_remove i c =
     (if i < length (dc_items c)
      then c\<lparr>dc_items := take i (dc_items c) @ drop (Suc i) (dc_items c), dc_bytes := dc_bytes c - ci_bytes (dc_items c ! i)\<rparr>
      else c)"

fun copy_loop :: "nat \<Rightarrow> string \<Rightarrow> dcache_item list \<Rightarrow> (gc_dav_entry list \<times> dcache_item list) option" where
  "copy_loop stamp p [] = None"
| "copy_loop stamp p (it # its) =
     (if ci_path it \<noteq> p then map_option (\<lambda>(es, r). (es, it # r)) (copy_loop stamp p its)
      else Some (ci_entries it, it\<lparr>ci_stamp := stamp\<rparr> # its))"

definition cache_copy :: "string \<Rightarrow> dcache \<Rightarrow> gc_dav_entry list option \<times> dcache" where
  "cache_copy p c =
     (case copy_loop (dc_clock c + 1) p (dc_items c) of
        None \<Rightarrow> (None, c)
      | Some (es, its) \<Rightarrow> (Some es, c\<lparr>dc_items := its, dc_clock := dc_clock c + 1\<rparr>))"

text \<open>The search for the victim: the oldest stamp, except the root.\<close>

fun victim_loop :: "(nat \<times> nat) option \<Rightarrow> nat \<Rightarrow> dcache_item list \<Rightarrow> nat option" where
  "victim_loop v i [] = map_option fst v"
| "victim_loop v i (it # its) =
     (if ci_path it = ''/'' then victim_loop v (Suc i) its
      else victim_loop (case v of None \<Rightarrow> Some (i, ci_stamp it)
                        | Some (j, s) \<Rightarrow> if ci_stamp it < s then Some (i, ci_stamp it) else v) (Suc i) its)"

definition find_victim :: "dcache_item list \<Rightarrow> nat option" where
  "find_victim its = victim_loop None 0 its"

lemma victim_loop_bound:
  "victim_loop v i its = Some k \<Longrightarrow> (\<And>j s. v = Some (j, s) \<Longrightarrow> j < i) \<Longrightarrow> k < i + length its"
proof (induction its arbitrary: v i)
  case (Cons it its)
  show ?case
  proof (cases "ci_path it = ''/''")
    case True
    with Cons.IH [of v "Suc i"] Cons.prems show ?thesis by (auto intro: less_SucI)
  next
    case False
    let ?v = "case v of None \<Rightarrow> Some (i, ci_stamp it) | Some (j, s) \<Rightarrow> if ci_stamp it < s then Some (i, ci_stamp it) else v"
    have "j < Suc i" if "?v = Some (j, s)" for j s
      using that Cons.prems(2) by (auto split: option.splits if_splits intro: less_SucI)
    with Cons.IH [of ?v "Suc i"] Cons.prems(1) False show ?thesis by simp
  qed
qed auto

lemma find_victim_bound: "find_victim its = Some k \<Longrightarrow> k < length its"
  using victim_loop_bound [of None 0 its k] by (simp add: find_victim_def)

text \<open>The eviction loop; the boolean is whether there is room at its end.\<close>

function evict_loop :: "nat \<Rightarrow> dcache \<Rightarrow> bool \<times> dcache" where
  "evict_loop bytes c =
     (if dc_bytes c + bytes > DAV_DIRECTORY_CACHE_LIMIT
      then case find_victim (dc_items c) of None \<Rightarrow> (False, c) | Some i \<Rightarrow> evict_loop bytes (cache_remove i c)
      else (True, c))"
  by pat_completeness auto
termination
  by (relation "measure (\<lambda>(bytes, c). length (dc_items c))")
     (auto simp: cache_remove_def dest: find_victim_bound)

declare evict_loop.simps [simp del]

text \<open>\<open>sizeof(dav_cache_entry)\<close> is 24 and \<open>sizeof(gc_dav_entry)\<close> 272 on the console.\<close>

definition item_bytes :: "string \<Rightarrow> gc_dav_entry list \<Rightarrow> nat" where
  "item_bytes p es = 24 + length p + 1 + length es * 272"

definition cache_store :: "string \<Rightarrow> gc_dav_entry list \<Rightarrow> dcache \<Rightarrow> dcache" where
  "cache_store p es c =
     (let bytes = item_bytes p es
      in if bytes > DAV_DIRECTORY_CACHE_LIMIT then c
         else let (room, c1) = evict_loop bytes c
         in if \<not> room then c1
            else c1\<lparr>dc_items := \<lparr>ci_path = p, ci_entries = es, ci_bytes = bytes, ci_stamp = dc_clock c1 + 1\<rparr> # dc_items c1,
                    dc_bytes := dc_bytes c1 + bytes, dc_clock := dc_clock c1 + 1\<rparr>)"

section \<open>The priority gate and playback files\<close>

record dav_gate =
  playback_files :: int
  playback_cache_ready :: bool

text \<open>One poll of the wait loop: whether it returns. \<open>fill\<close> is the fill of the audio cache in percent.\<close>

definition gate_open :: "dav_gate \<Rightarrow> bool \<Rightarrow> rat \<Rightarrow> bool" where
  "gate_open g stop fill_pc =
     (\<not> (playback_files g \<noteq> 0 \<and> playback_cache_ready g \<and> \<not> stop) \<or> fill_pc < 0 \<or> fill_pc \<ge> 60)"

text \<open>
  The loop, over what the other threads do: \<open>obs k\<close> is the gate, the stop flag and the fill at the \<open>k\<close>-th poll.
  The result is the number of sleeps; \<open>None\<close> is a wait longer than the fuel.
\<close>

fun wait_for_audio_priority :: "nat \<Rightarrow> (nat \<Rightarrow> dav_gate \<times> bool \<times> rat) \<Rightarrow> nat \<Rightarrow> nat option" where
  "wait_for_audio_priority 0 obs k = None"
| "wait_for_audio_priority (Suc fuel) obs k =
     (case obs k of (g, stop, fill_pc) \<Rightarrow>
        if gate_open g stop fill_pc then Some k else wait_for_audio_priority fuel obs (Suc k))"

definition playback_cancelled :: "dav_gate \<Rightarrow> bool \<Rightarrow> bool" where
  "playback_cancelled g stop = (playback_cache_ready g \<and> stop)"

definition WebDAVPlaybackCacheReady :: "dav_gate \<Rightarrow> dav_gate" where
  "WebDAVPlaybackCacheReady g = g\<lparr>playback_cache_ready := True\<rparr>"

definition playback_register :: "dav_gate \<Rightarrow> dav_gate" where
  "playback_register g =
     \<lparr>playback_files = playback_files g + 1, playback_cache_ready = (if playback_files g = 0 then False else playback_cache_ready g)\<rparr>"

definition playback_unregister :: "dav_gate \<Rightarrow> dav_gate" where
  "playback_unregister g =
     (let n = if playback_files g > 0 then playback_files g - 1 else playback_files g
      in \<lparr>playback_files = n, playback_cache_ready = (if n = 0 then False else playback_cache_ready g)\<rparr>)"

section \<open>The device\<close>

record 'n dav_device =
  dv_config :: "'n gc_dav_config"
  dv_error :: string
  dv_mounted :: bool
  dv_cache :: dcache
  dv_gate :: dav_gate

record 'n dav_handle =
  fh_file :: "'n gc_dav_file"
  fh_registered :: bool

record dav_dir =
  dd_entries :: "gc_dav_entry list"
  dd_index :: nat

record dav_statbuf =
  st_is_dir :: bool
  st_size :: int

text \<open>\<open>failure\<close>: the error is published and the call returns -1 with the errno.\<close>

definition failure :: "'n dav_device \<Rightarrow> int \<Rightarrow> string \<Rightarrow> 'n dav_device \<times> int" where
  "failure d err text = (d\<lparr>dv_error := c_trunc 160 text\<rparr>, if err \<noteq> 0 then err else EIO)"

definition local_path :: "string \<Rightarrow> string" where
  "local_path p = (if c_strncmp p ''dav1:/'' 6 then drop 5 p else p)"

definition fill_stat :: "gc_dav_entry \<Rightarrow> dav_statbuf" where
  "fill_stat e = \<lparr>st_is_dir = e_directory e, st_size = e_size e\<rparr>"

text \<open>\<open>readonly\<close> is the test of the open flags; \<open>Inl\<close> is the errno.\<close>

definition dav_open ::
  "('n, 'z) net_ops_scheme \<Rightarrow> 'x mxml_ops \<Rightarrow> 'n dav_device \<Rightarrow> string \<Rightarrow> bool \<Rightarrow> 'n world
     \<Rightarrow> (int + 'n dav_handle) option \<times> 'n dav_device \<times> 'n world" where
  "dav_open ops mx d p readonly w =
     (if \<not> readonly then (Some (Inl EROFS), d, w)
      else let (r, w1) = gc_dav_open ops mx (dv_config d) (local_path p) w
      in case r of None \<Rightarrow> (None, d, w1)
         | Some (Inl (err, text)) \<Rightarrow> let (d1, e) = failure d err (c_trunc 160 text) in (Some (Inl e), d1, w1)
         | Some (Inr f) \<Rightarrow> (Some (Inr \<lparr>fh_file = f, fh_registered = True\<rparr>), d\<lparr>dv_gate := playback_register (dv_gate d)\<rparr>, w1))"

definition dav_close ::
  "('n, 'z) net_ops_scheme \<Rightarrow> 'n dav_device \<Rightarrow> 'n dav_handle \<Rightarrow> 'n world \<Rightarrow> 'n dav_device \<times> 'n dav_handle \<times> 'n world" where
  "dav_close ops d h w =
     (let d1 = if fh_registered h then d\<lparr>dv_gate := playback_unregister (dv_gate d)\<rparr> else d;
          (f, w1) = gc_dav_close ops (fh_file h) w
      in (d1, h\<lparr>fh_registered := False, fh_file := f\<rparr>, w1))"

definition dav_read ::
  "('n, 'z) net_ops_scheme \<Rightarrow> 'n dav_device \<Rightarrow> 'n dav_handle \<Rightarrow> nat \<Rightarrow> 'n world
     \<Rightarrow> (int + string) \<times> 'n dav_device \<times> 'n dav_handle \<times> 'n world" where
  "dav_read ops d h len w =
     (let ((n, bs), f, w1) = gc_dav_read ops (fh_file h) (min (int len) int32_max) w; h1 = h\<lparr>fh_file := f\<rparr>
      in if n < 0 then
           let (d1, e) = failure d (if d_http (fh_file h) = None then EBADF else EIO)
                 (case d_http f of None \<Rightarrow> ''WebDAV read failed'' | Some hh \<Rightarrow> h_error hh)
           in (Inl e, d1, h1, w1)
         else (Inr bs, d, h1, w1))"

definition dav_seek ::
  "('n, 'z) net_ops_scheme \<Rightarrow> 'n dav_device \<Rightarrow> 'n dav_handle \<Rightarrow> int \<Rightarrow> int \<Rightarrow> 'n world
     \<Rightarrow> (int + int) \<times> 'n dav_device \<times> 'n dav_handle \<times> 'n world" where
  "dav_seek ops d h offset whence w =
     (let (r, f, w1) = gc_dav_seek ops (fh_file h) offset whence w; h1 = h\<lparr>fh_file := f\<rparr>
      in case r of Some n \<Rightarrow> (Inr n, d, h1, w1)
         | None \<Rightarrow> let (d1, e) = failure d EINVAL ''WebDAV seek failed'' in (Inl e, d1, h1, w1))"

definition dav_fstat :: "'n dav_handle \<Rightarrow> dav_statbuf" where
  "dav_fstat h = fill_stat \<lparr>e_name = [], e_directory = False, e_size = d_size (fh_file h)\<rparr>"

definition dav_stat ::
  "('n, 'z) net_ops_scheme \<Rightarrow> 'x mxml_ops \<Rightarrow> 'n dav_device \<Rightarrow> string \<Rightarrow> 'n world \<Rightarrow> (int + dav_statbuf) option \<times> 'n dav_device \<times> 'n world" where
  "dav_stat ops mx d p w =
     (let (r, w1) = gc_dav_stat ops mx (dv_config d) (local_path p) w
      in case r of None \<Rightarrow> (None, d, w1)
         | Some (Inl (err, text)) \<Rightarrow> let (d1, e) = failure d err (c_trunc 160 text) in (Some (Inl e), d1, w1)
         | Some (Inr e) \<Rightarrow> (Some (Inr (fill_stat e)), d, w1))"

definition dav_chdir ::
  "('n, 'z) net_ops_scheme \<Rightarrow> 'x mxml_ops \<Rightarrow> 'n dav_device \<Rightarrow> string \<Rightarrow> 'n world \<Rightarrow> (int + unit) option \<times> 'n dav_device \<times> 'n world" where
  "dav_chdir ops mx d p w =
     (let (r, d1, w1) = dav_stat ops mx d p w
      in (case r of None \<Rightarrow> None | Some (Inl e) \<Rightarrow> Some (Inl e)
          | Some (Inr st) \<Rightarrow> if st_is_dir st then Some (Inr ()) else Some (Inl ENOTDIR), d1, w1))"

definition dav_diropen ::
  "('n, 'z) net_ops_scheme \<Rightarrow> 'x mxml_ops \<Rightarrow> 'n dav_wait \<Rightarrow> 'n dav_device \<Rightarrow> string \<Rightarrow> 'n world
     \<Rightarrow> (int + dav_dir) option \<times> 'n dav_device \<times> 'n world" where
  "dav_diropen ops mx wait d p w =
     (let q = local_path p; (hit, c1) = cache_copy q (dv_cache d); d1 = d\<lparr>dv_cache := c1\<rparr>
      in case hit of Some es \<Rightarrow> (Some (Inr \<lparr>dd_entries = es, dd_index = 0\<rparr>), d1, w)
         | None \<Rightarrow>
           let (r, w1) = gc_dav_list_wait ops mx (dv_config d1) q wait w
           in case r of None \<Rightarrow> (None, d1, w1)
              | Some (Inl (err, text)) \<Rightarrow> let (d2, e) = failure d1 err (c_trunc 160 text) in (Some (Inl e), d2, w1)
              | Some (Inr es) \<Rightarrow>
                  (Some (Inr \<lparr>dd_entries = es, dd_index = 0\<rparr>), d1\<lparr>dv_cache := cache_store q es (dv_cache d1)\<rparr>, w1))"

definition dav_dirreset :: "dav_dir \<Rightarrow> dav_dir" where
  "dav_dirreset d = d\<lparr>dd_index := 0\<rparr>"

definition dav_dirnext :: "dav_dir \<Rightarrow> (int + string \<times> dav_statbuf) \<times> dav_dir" where
  "dav_dirnext d =
     (if dd_index d = length (dd_entries d) then (Inl ENOENT, d)
      else let e = dd_entries d ! dd_index d in (Inr (e_name e, fill_stat e), d\<lparr>dd_index := dd_index d + 1\<rparr>))"

text \<open>
  \<open>WebDAVInit\<close>: the cancel callback is stored first, then the configuration is loaded into the same structure.
  \<open>registered\<close> is the result of \<open>AddDevice\<close>.
\<close>

definition WebDAVInit :: "'n cancel_fn \<Rightarrow> string option \<Rightarrow> bool \<Rightarrow> 'n dav_device \<Rightarrow> 'n dav_device" where
  "WebDAVInit cancelled_cb file registered d =
     (let d0 = d\<lparr>dv_config := (dv_config d)\<lparr>c_cancel := cancelled_cb\<rparr>\<rparr>
      in case gc_dav_config_load file of
           Inl (err, text) \<Rightarrow>
             d0\<lparr>dv_config := \<lparr>c_url = [], c_name = [], c_authorization = [], c_cancel = None\<rparr>, dv_error := c_trunc 160 (c_trunc 160 text)\<rparr>
         | Inr cfg \<Rightarrow>
             if \<not> registered then d0\<lparr>dv_config := cfg, dv_error := ''Cannot register dav1:''\<rparr>
             else d0\<lparr>dv_config := cfg, dv_mounted := True, dv_error := []\<rparr>)"

section \<open>The interface of the cache\<close>

text \<open>
  What the device relies on, as an interface: a bounded cache may forget, but it never answers with anything
  that was not stored under the very key, and it never forgets its pinned key.
\<close>

datatype 'v cache_op = Put string 'v | Get string

fun cache_run :: "(string \<Rightarrow> 'v \<Rightarrow> 's \<Rightarrow> 's) \<Rightarrow> (string \<Rightarrow> 's \<Rightarrow> 'v option \<times> 's) \<Rightarrow> 'v cache_op list \<Rightarrow> 's \<Rightarrow> 's" where
  "cache_run put get [] s = s"
| "cache_run put get (Put p v # os) s = cache_run put get os (put p v s)"
| "cache_run put get (Get p # os) s = cache_run put get os (snd (get p s))"

locale dir_cache =
  fixes inv :: "'s \<Rightarrow> bool"
    and look :: "string \<Rightarrow> 's \<Rightarrow> 'v option"
    and put :: "string \<Rightarrow> 'v \<Rightarrow> 's \<Rightarrow> 's"
    and get :: "string \<Rightarrow> 's \<Rightarrow> 'v option \<times> 's"
    and pinned :: string
  assumes inv_put: "inv s \<Longrightarrow> inv (put p v s)"
    and inv_get: "inv s \<Longrightarrow> inv (snd (get p s))"
    and get_look: "fst (get p s) = look p s"
    and look_get: "look q (snd (get p s)) = look q s"
    and put_sound: "inv s \<Longrightarrow> look q (put p v s) = Some x \<Longrightarrow> q = p \<and> x = v \<or> look q s = Some x"
    and pinned_kept: "inv s \<Longrightarrow> look pinned s \<noteq> None \<Longrightarrow> look pinned (put p v s) \<noteq> None"
begin

lemma inv_run: "inv s \<Longrightarrow> inv (cache_run put get os s)"
proof (induction os arbitrary: s)
  case (Cons op os)
  then show ?case by (cases op) (simp_all add: inv_put inv_get)
qed simp

lemma run_sound: "inv s \<Longrightarrow> look q (cache_run put get os s) = Some x \<Longrightarrow> Put q x \<in> set os \<or> look q s = Some x"
proof (induction os arbitrary: s)
  case (Cons op os)
  then show ?case
    by (cases op) (auto simp: inv_put inv_get look_get dest!: Cons.IH [rotated] dest: put_sound)
qed simp

lemma run_pinned: "inv s \<Longrightarrow> look pinned s \<noteq> None \<Longrightarrow> look pinned (cache_run put get os s) \<noteq> None"
proof (induction os arbitrary: s)
  case (Cons op os)
  show ?case
  proof (cases op)
    case (Put p v)
    with Cons.IH [OF inv_put [OF Cons.prems(1)] pinned_kept [OF Cons.prems]] show ?thesis by simp
  next
    case (Get p)
    with Cons.IH [OF inv_get [OF Cons.prems(1)]] Cons.prems show ?thesis by (simp add: look_get)
  qed
qed simp

lemma get_after_run: "inv s \<Longrightarrow> fst (get q (cache_run put get os s)) = Some x \<Longrightarrow> Put q x \<in> set os \<or> look q s = Some x"
  using run_sound by (simp add: get_look)

end

section \<open>The cache meets it\<close>

definition item_order :: "dcache_item \<Rightarrow> dcache_item \<Rightarrow> bool" where
  "item_order a b = (ci_path a = ci_path b \<longrightarrow> ci_stamp b < ci_stamp a)"

text \<open>
  The counter is the sum of the items, it is within the budget, no stamp is in the future, and of two snapshots of
  one folder the one that is found first is the younger.
\<close>

definition dcache_ok :: "dcache \<Rightarrow> bool" where
  "dcache_ok c = (dc_bytes c = (\<Sum>it\<leftarrow>dc_items c. ci_bytes it) \<and> dc_bytes c \<le> DAV_DIRECTORY_CACHE_LIMIT \<and>
     (\<forall>it\<in>set (dc_items c). ci_stamp it \<le> dc_clock c) \<and> sorted_wrt item_order (dc_items c))"

definition dcache_look :: "string \<Rightarrow> dcache \<Rightarrow> gc_dav_entry list option" where
  "dcache_look p c = map_option ci_entries (List.find (\<lambda>it. ci_path it = p) (dc_items c))"

lemma victim_loop_min:
  "victim_loop v i its = Some k \<Longrightarrow>
   (\<exists>s. v = Some (k, s) \<and> (\<forall>it\<in>set its. ci_path it \<noteq> ''/'' \<longrightarrow> s \<le> ci_stamp it)) \<or>
   (i \<le> k \<and> k < i + length its \<and> ci_path (its ! (k - i)) \<noteq> ''/'' \<and>
      (\<forall>it\<in>set its. ci_path it \<noteq> ''/'' \<longrightarrow> ci_stamp (its ! (k - i)) \<le> ci_stamp it) \<and>
      (\<forall>j s. v = Some (j, s) \<longrightarrow> ci_stamp (its ! (k - i)) < s))"
proof (induction its arbitrary: v i)
  case (Cons it its)
  let ?v = "if ci_path it = ''/'' then v else case v of None \<Rightarrow> Some (i, ci_stamp it)
      | Some (j, s) \<Rightarrow> if ci_stamp it < s then Some (i, ci_stamp it) else v"
  have "victim_loop ?v (Suc i) its = Some k" using Cons.prems by (simp split: if_splits)
  from Cons.IH [OF this] consider
    (old) s where "?v = Some (k, s)" "\<forall>x\<in>set its. ci_path x \<noteq> ''/'' \<longrightarrow> s \<le> ci_stamp x"
  | (new) "Suc i \<le> k" "k < Suc i + length its" "ci_path (its ! (k - Suc i)) \<noteq> ''/''"
      "\<forall>x\<in>set its. ci_path x \<noteq> ''/'' \<longrightarrow> ci_stamp (its ! (k - Suc i)) \<le> ci_stamp x"
      "\<forall>j s. ?v = Some (j, s) \<longrightarrow> ci_stamp (its ! (k - Suc i)) < s"
    by blast
  then show ?case
  proof cases
    case old
    then show ?thesis by (fastforce split: if_splits option.splits prod.splits)
  next
    case new
    then have n: "(it # its) ! (k - i) = its ! (k - Suc i)" by (simp add: nth_Cons')
    have lt: "ci_path it \<noteq> ''/'' \<longrightarrow> ci_stamp (its ! (k - Suc i)) < ci_stamp it"
    proof
      assume "ci_path it \<noteq> ''/''"
      then have "\<exists>j s. ?v = Some (j, s) \<and> s \<le> ci_stamp it" by (auto split: option.split)
      with new(5) show "ci_stamp (its ! (k - Suc i)) < ci_stamp it" by fastforce
    qed
    have "\<forall>j s. v = Some (j, s) \<longrightarrow> ci_stamp (its ! (k - Suc i)) < s"
    proof (intro allI impI)
      fix j s assume "v = Some (j, s)"
      then have "\<exists>j s1. ?v = Some (j, s1) \<and> s1 \<le> s" by auto
      with new(5) show "ci_stamp (its ! (k - Suc i)) < s" by fastforce
    qed
    with new n lt show ?thesis by (intro disjI2) auto
  qed
qed simp

lemma find_victim_min:
  assumes "find_victim its = Some k"
  shows "k < length its" "ci_path (its ! k) \<noteq> ''/''" "it \<in> set its \<Longrightarrow> ci_path it \<noteq> ''/'' \<Longrightarrow> ci_stamp (its ! k) \<le> ci_stamp it"
  using victim_loop_min [of None 0 its k] assms by (auto simp: find_victim_def)

lemma find_append: "List.find P (xs @ ys) = (case List.find P xs of None \<Rightarrow> List.find P ys | Some x \<Rightarrow> Some x)"
  by (induction xs) auto

lemma find_Some_set: "List.find P xs = Some x \<Longrightarrow> x \<in> set xs \<and> P x"
  by (induction xs) (auto split: if_splits)

lemma cache_remove_victim:
  assumes ok: "dcache_ok c" and v: "find_victim (dc_items c) = Some k"
  shows "dcache_ok (cache_remove k c)"
    and "dcache_look q (cache_remove k c) = Some x \<Longrightarrow> dcache_look q c = Some x"
    and "dcache_look ''/'' (cache_remove k c) = dcache_look ''/'' c"
proof -
  note m = find_victim_min [OF v]
  let ?a = "take k (dc_items c)" and ?v = "dc_items c ! k" and ?b = "drop (Suc k) (dc_items c)"
  have its: "dc_items c = ?a @ ?v # ?b" using m(1) by (rule id_take_nth_drop)
  have r: "cache_remove k c = c\<lparr>dc_items := ?a @ ?b, dc_bytes := dc_bytes c - ci_bytes ?v\<rparr>" using m(1) by (simp add: cache_remove_def)
  have sum: "(\<Sum>it\<leftarrow>dc_items c. ci_bytes it) = (\<Sum>it\<leftarrow>?a @ ?b. ci_bytes it) + ci_bytes ?v" by (subst its) simp
  have sub: "set (?a @ ?b) \<subseteq> set (dc_items c)" by (metis in_set_dropD in_set_takeD Un_iff set_append subsetI)
  have srt: "sorted_wrt item_order (?a @ ?v # ?b)" using ok its unfolding dcache_ok_def by metis
  show "dcache_ok (cache_remove k c)"
    unfolding r using ok sum sub srt by (auto simp: dcache_ok_def sorted_wrt_append)
  show "dcache_look ''/'' (cache_remove k c) = dcache_look ''/'' c"
    unfolding r dcache_look_def using m(2) by (subst (2) its) (simp add: find_append split: option.split)
  assume l: "dcache_look q (cache_remove k c) = Some x"
  show "dcache_look q c = Some x"
  proof (cases "List.find (\<lambda>it. ci_path it = q) ?a = None \<and> ci_path ?v = q")
    case True
    with l r obtain y where y: "List.find (\<lambda>it. ci_path it = q) ?b = Some y" by (auto simp: dcache_look_def find_append)
    with find_Some_set [OF y] True srt have "ci_stamp y < ci_stamp ?v" by (auto simp: sorted_wrt_append item_order_def)
    moreover have "y \<in> set (dc_items c)" "ci_path y \<noteq> ''/''" using find_Some_set [OF y] True m(2) by (auto dest: in_set_dropD)
    ultimately show ?thesis using m(3) by fastforce
  next
    case False
    with l r show ?thesis unfolding dcache_look_def by (subst its) (auto simp: find_append split: option.splits)
  qed
qed

lemma evict_loop_keeps:
  "dcache_ok c \<Longrightarrow> evict_loop b c = (room, c1) \<Longrightarrow>
   dcache_ok c1 \<and> dc_clock c1 = dc_clock c \<and> (room \<longrightarrow> dc_bytes c1 + b \<le> DAV_DIRECTORY_CACHE_LIMIT) \<and>
   (\<forall>q x. dcache_look q c1 = Some x \<longrightarrow> dcache_look q c = Some x) \<and> dcache_look ''/'' c1 = dcache_look ''/'' c"
proof (induction "length (dc_items c)" arbitrary: c rule: less_induct)
  case less
  show ?case
  proof (cases "dc_bytes c + b > DAV_DIRECTORY_CACHE_LIMIT \<and> find_victim (dc_items c) \<noteq> None")
    case True
    then obtain k where k: "find_victim (dc_items c) = Some k" by blast
    note rem = cache_remove_victim [OF less.prems(1) k]
    have "evict_loop b (cache_remove k c) = (room, c1)"
      using less.prems(2) True k by (subst (asm) evict_loop.simps) simp
    moreover have "length (dc_items (cache_remove k c)) < length (dc_items c)" "dc_clock (cache_remove k c) = dc_clock c"
      using find_victim_bound [OF k] by (simp_all add: cache_remove_def)
    ultimately show ?thesis using less.hyps rem by metis
  next
    case False
    with less.prems show ?thesis by (subst (asm) evict_loop.simps) (auto split: if_splits option.splits)
  qed
qed

lemma cache_store_keeps:
  assumes "dcache_ok c"
  shows "dcache_ok (cache_store p es c)"
    and "dcache_look q (cache_store p es c) = Some x \<Longrightarrow> q = p \<and> x = es \<or> dcache_look q c = Some x"
    and "dcache_look ''/'' c \<noteq> None \<Longrightarrow> dcache_look ''/'' (cache_store p es c) \<noteq> None"
proof -
  obtain room c1 where e: "evict_loop (item_bytes p es) c = (room, c1)" by fastforce
  note k = evict_loop_keeps [OF assms e]
  have st: "cache_store p es c = (if item_bytes p es > DAV_DIRECTORY_CACHE_LIMIT then c else if \<not> room then c1
      else c1\<lparr>dc_items := \<lparr>ci_path = p, ci_entries = es, ci_bytes = item_bytes p es, ci_stamp = dc_clock c1 + 1\<rparr> # dc_items c1,
              dc_bytes := dc_bytes c1 + item_bytes p es, dc_clock := dc_clock c1 + 1\<rparr>)"
    using e by (simp add: cache_store_def Let_def)
  show "dcache_ok (cache_store p es c)"
    using assms k by (auto simp: st dcache_ok_def item_order_def intro: le_SucI le_imp_less_Suc)
  show "dcache_look q (cache_store p es c) = Some x \<Longrightarrow> q = p \<and> x = es \<or> dcache_look q c = Some x"
    using k by (auto simp: st dcache_look_def split: if_splits)
  show "dcache_look ''/'' c \<noteq> None \<Longrightarrow> dcache_look ''/'' (cache_store p es c) \<noteq> None"
    using k by (auto simp: st dcache_look_def)
qed

lemma copy_loop_None: "copy_loop n p its = None \<Longrightarrow> List.find (\<lambda>it. ci_path it = p) its = None"
  by (induction its) (auto split: if_splits)

lemma copy_loop_Some:
  "copy_loop n p its = Some (es, its1) \<Longrightarrow> \<exists>a v b. its = a @ v # b \<and> (\<forall>y\<in>set a. ci_path y \<noteq> p) \<and> ci_path v = p \<and>
     es = ci_entries v \<and> its1 = a @ v\<lparr>ci_stamp := n\<rparr> # b"
proof (induction its arbitrary: its1)
  case (Cons it its)
  show ?case
  proof (cases "ci_path it = p")
    case True
    with Cons.prems show ?thesis by (intro exI [of _ "[]"] exI [of _ it] exI [of _ its]) auto
  next
    case False
    with Cons.prems obtain r where r: "copy_loop n p its = Some (es, r)" "its1 = it # r" by auto
    from Cons.IH [OF r(1)] obtain a v b where
      "its = a @ v # b" "\<forall>y\<in>set a. ci_path y \<noteq> p" "ci_path v = p" "es = ci_entries v" "r = a @ v\<lparr>ci_stamp := n\<rparr> # b"
      by blast
    with r(2) False show ?thesis by (intro exI [of _ "it # a"] exI [of _ v] exI [of _ b]) simp
  qed
qed simp

lemma find_none: "\<forall>y\<in>set a. ci_path y \<noteq> q \<Longrightarrow> List.find (\<lambda>it. ci_path it = q) a = None"
  by (induction a) auto

lemma cache_copy_keeps:
  shows "fst (cache_copy p c) = dcache_look p c" (is ?A)
    and "dcache_look q (snd (cache_copy p c)) = dcache_look q c" (is ?B)
    and "dcache_ok c \<Longrightarrow> dcache_ok (snd (cache_copy p c))" (is "_ \<Longrightarrow> ?C")
proof -
  have "?A \<and> ?B \<and> (dcache_ok c \<longrightarrow> ?C)"
  proof (cases "copy_loop (dc_clock c + 1) p (dc_items c)")
    case None
    with copy_loop_None [OF None] show ?thesis by (simp add: cache_copy_def dcache_look_def)
  next
    case (Some r)
    obtain es its1 where r: "r = (es, its1)" by fastforce
    from copy_loop_Some [OF Some [unfolded r]] obtain a v b where
      v: "dc_items c = a @ v # b" "\<forall>y\<in>set a. ci_path y \<noteq> p" "ci_path v = p" "es = ci_entries v" "its1 = a @ v\<lparr>ci_stamp := dc_clock c + 1\<rparr> # b"
      by blast
    have ?A using Some r v find_none [OF v(2)] by (simp add: cache_copy_def dcache_look_def find_append)
    moreover have ?B using Some r v by (auto simp: cache_copy_def dcache_look_def find_append split: option.split)
    moreover have "dcache_ok c \<longrightarrow> ?C"
      using Some r v by (auto simp: cache_copy_def dcache_ok_def sorted_wrt_append item_order_def intro: le_SucI le_imp_less_Suc)
    ultimately show ?thesis by blast
  qed
  then show ?A ?B "dcache_ok c \<Longrightarrow> ?C" by blast+
qed

interpretation dav_dir_cache: dir_cache dcache_ok dcache_look cache_store cache_copy "''/''"
  by unfold_locales (fact cache_store_keeps cache_copy_keeps)+

definition dcache_empty :: dcache where
  "dcache_empty = \<lparr>dc_items = [], dc_bytes = 0, dc_clock = 0\<rparr>"

lemma dcache_empty_ok: "dcache_ok dcache_empty" "dcache_look q dcache_empty = None"
  by (simp_all add: dcache_empty_def dcache_ok_def dcache_look_def)

section \<open>Properties\<close>

text \<open>
  The directory cache stays within its megabyte under every interleaving: after any sequence of the two
  locked operations, from any number of threads, the byte counter is exactly the sum of the stored
  snapshots and at most the limit, no stamp is ahead of the clock, and of two snapshots of one folder the
  younger is found.
\<close>

theorem dav_cache_invariant: "dcache_ok (cache_run cache_store cache_copy os dcache_empty)"
  using dcache_empty_ok(1) by (rule dav_dir_cache.inv_run)

text \<open>
  (C12) The cache never lies and never forgets the root: after any sequence of operations a hit returns a listing
  that was stored for exactly that path, and once the root folder is cached it stays cached, whatever is
  stored afterwards.
\<close>

theorem dav_cache_coherent:
  assumes "dcache_ok c" and "dcache_look ''/'' c \<noteq> None"
    and "fst (cache_copy q (cache_run cache_store cache_copy os c)) = Some es"
  shows "(Put q es \<in> set os \<or> dcache_look q c = Some es) \<and> dcache_look ''/'' (cache_run cache_store cache_copy os c) \<noteq> None"
  using dav_dir_cache.get_after_run [OF assms(1,3)] dav_dir_cache.run_pinned [OF assms(1,2)] by blast

theorem dav_cache_coherent_witness:
  "Put ''/a'' [] \<in> set [Put ''/a'' [], Get ''/'' :: gc_dav_entry list cache_op] \<and>
   dcache_look ''/'' (cache_run cache_store cache_copy [Put ''/a'' [], Get ''/''] (cache_store ''/'' [] dcache_empty)) \<noteq> None"
proof -
  have 1: "dcache_ok (cache_store ''/'' [] dcache_empty)" using cache_store_keeps(1) [OF dcache_empty_ok(1)] .
  have 2: "dcache_look ''/'' (cache_store ''/'' [] dcache_empty) \<noteq> None" by code_simp
  have 3: "fst (cache_copy ''/a'' (cache_run cache_store cache_copy [Put ''/a'' [], Get ''/''] (cache_store ''/'' [] dcache_empty))) = Some []"
    by code_simp
  from dav_cache_coherent [OF 1 2 3] show ?thesis by simp
qed

text \<open>
  Returning to a folder costs no network traffic: when a folder has been opened and its listing is in the
  cache, opening it again succeeds with the same entries and leaves the network, the clock and the
  resolver untouched.
\<close>

theorem dav_diropen_again:
  assumes "dcache_ok (dv_cache d)" and "dav_diropen ops mx wait d p w = (Some (Inr dir), d1, w1)"
    and "dcache_look (local_path p) (dv_cache d1) \<noteq> None"
  shows "\<exists>d2. dav_diropen ops mx wait d1 p w2 = (Some (Inr \<lparr>dd_entries = dd_entries dir, dd_index = 0\<rparr>), d2, w2)"
proof -
  let ?q = "local_path p" and ?c1 = "snd (cache_copy (local_path p) (dv_cache d))"
  have c1: "dcache_ok ?c1" "dcache_look ?q ?c1 = dcache_look ?q (dv_cache d)" "fst (cache_copy ?q (dv_cache d)) = dcache_look ?q (dv_cache d)"
    using cache_copy_keeps assms(1) by blast+
  have "dcache_look ?q (dv_cache d1) = Some (dd_entries dir)"
  proof (cases "dcache_look ?q (dv_cache d)")
    case (Some es)
    with c1 assms(2) show ?thesis by (auto simp: dav_diropen_def Let_def split: prod.splits)
  next
    case None
    obtain r w3 where r: "gc_dav_list_wait ops mx (dv_config d) ?q wait w = (r, w3)" by fastforce
    from None c1(3) r assms(2) obtain es where es: "r = Some (Inr es)" "dd_entries dir = es" "dv_cache d1 = cache_store ?q es ?c1"
      by (auto simp: dav_diropen_def Let_def split: prod.splits option.splits sum.splits)
    with assms(3) cache_store_keeps(2) [OF c1(1), of ?q ?q es] None c1(2) show ?thesis by auto
  qed
  then have "fst (cache_copy ?q (dv_cache d1)) = Some (dd_entries dir)" using cache_copy_keeps(1) by simp
  then show ?thesis by (auto simp: dav_diropen_def Let_def split: prod.splits)
qed

theorem dav_diropen_again_witness:
  "\<exists>d2. dav_diropen script_ops \<lparr>mx_element = (\<lambda>x :: unit. None), mx_attr = (\<lambda>_ _. None), mx_children = (\<lambda>_. []),
       mx_ancestors = (\<lambda>_. []), mx_opaque = (\<lambda>_. None), mx_load = (\<lambda>_. None)\<rparr> None
     \<lparr>dv_config = demo_config, dv_error = [], dv_mounted = True, dv_cache = cache_store ''/m'' [] dcache_empty,
      dv_gate = \<lparr>playback_files = 0, playback_cache_ready = False\<rparr>\<rparr> ''dav1:/m'' demo_world =
     (Some (Inr \<lparr>dd_entries = [], dd_index = 0\<rparr>), d2, demo_world)"
proof -
  let ?mx = "\<lparr>mx_element = (\<lambda>x :: unit. None), mx_attr = (\<lambda>_ _. None), mx_children = (\<lambda>_. []),
       mx_ancestors = (\<lambda>_. []), mx_opaque = (\<lambda>_. None), mx_load = (\<lambda>_. None)\<rparr>"
  let ?d0 = "\<lparr>dv_config = demo_config, dv_error = [], dv_mounted = True, dv_cache = cache_store ''/m'' [] dcache_empty,
      dv_gate = \<lparr>playback_files = 0, playback_cache_ready = False\<rparr>\<rparr>"
  let ?c1 = "snd (cache_copy ''/m'' (cache_store ''/m'' [] dcache_empty))"
  have ok: "dcache_ok (dv_cache ?d0)" using cache_store_keeps(1) [OF dcache_empty_ok(1)] by simp
  have p: "local_path ''dav1:/m'' = ''/m''" by code_simp
  have h: "fst (cache_copy ''/m'' (cache_store ''/m'' [] dcache_empty)) = Some []" by code_simp
  then have o: "dav_diropen script_ops ?mx None ?d0 ''dav1:/m'' demo_world =
      (Some (Inr \<lparr>dd_entries = [], dd_index = 0\<rparr>), ?d0\<lparr>dv_cache := ?c1\<rparr>, demo_world)"
    using p by (auto simp: dav_diropen_def Let_def split: prod.splits)
  have "dcache_look (local_path ''dav1:/m'') (dv_cache (?d0\<lparr>dv_cache := ?c1\<rparr>)) \<noteq> None"
    using h p cache_copy_keeps(1,2) by simp
  from dav_diropen_again [OF ok o this] have "\<exists>d2. dav_diropen script_ops ?mx None (?d0\<lparr>dv_cache := ?c1\<rparr>) ''dav1:/m'' demo_world =
      (Some (Inr \<lparr>dd_entries = [], dd_index = 0\<rparr>), d2, demo_world)" by simp
  with o show ?thesis by blast
qed

text \<open>
  The gate opens and never wedges: if at some poll no playback file is open, no cache is published, the
  cache is being stopped, or the audio buffer is unavailable or at least sixty percent full, then the wait returns, and it
  returns at the first such poll.
\<close>

theorem dav_gate_releases:
  assumes "case obs (start + k) of (g, stop, fill_pc) \<Rightarrow> gate_open g stop fill_pc"
    and "\<forall>j<k. case obs (start + j) of (g, stop, fill_pc) \<Rightarrow> \<not> gate_open g stop fill_pc"
    and "k < fuel"
  shows "wait_for_audio_priority fuel obs start = Some (start + k)"
  using assms
proof (induction fuel arbitrary: start k)
  case (Suc fuel)
  show ?case
  proof (cases k)
    case 0
    with Suc.prems(1) show ?thesis by (simp split: prod.splits)
  next
    case (Suc m)
    have "\<forall>j<m. case obs (Suc start + j) of (g, stop, fill_pc) \<Rightarrow> \<not> gate_open g stop fill_pc"
      using Suc.prems(2) Suc by auto
    with Suc.IH [of "Suc start" m] Suc.prems(1,3) Suc have "wait_for_audio_priority fuel obs (Suc start) = Some (start + k)" by simp
    moreover have "case obs start of (g, stop, fill_pc) \<Rightarrow> \<not> gate_open g stop fill_pc" using Suc.prems(2) Suc by force
    ultimately show ?thesis by (simp split: prod.splits)
  qed
qed simp

theorem dav_gate_releases_witness:
  "wait_for_audio_priority 9 (\<lambda>k. (\<lparr>playback_files = 1, playback_cache_ready = True\<rparr>, False, of_nat k * 20)) 0 = Some 3"
proof -
  have "\<forall>j<3. case (\<lambda>k. (\<lparr>playback_files = 1, playback_cache_ready = True\<rparr>, False, of_nat k * 20)) (0 + j) of
      (g, stop, fill_pc) \<Rightarrow> \<not> gate_open g stop (fill_pc :: rat)"
    by (auto simp: gate_open_def less_Suc_eq numeral_3_eq_3)
  with dav_gate_releases [of "\<lambda>k. (\<lparr>playback_files = 1, playback_cache_ready = True\<rparr>, False, of_nat k * 20)" 0 3 9] show ?thesis
    by (simp add: gate_open_def)
qed

text \<open>
  The cancel callback is lost at start-up: \<open>WebDAVInit\<close> stores \<open>playback_cancelled\<close> in the configuration and then loads
  the configuration file into the same structure, which clears it. Whatever callback was stored and whatever
  the file says, no request of the device can be cancelled.
\<close>

theorem webdav_init_loses_cancel:
  "c_cancel (dv_config (WebDAVInit cb file registered d)) = None"
proof -
  have "gc_dav_config_load file = Inr cfg \<Longrightarrow> c_cancel cfg = None" for cfg :: "'a gc_dav_config"
    by (auto simp: gc_dav_config_load_def Let_def split: option.splits sum.splits if_splits)
  then show ?thesis by (auto simp: WebDAVInit_def Let_def split: sum.splits prod.splits)
qed

end
