(* ===== verification/Mp_Stream.thy ===== *)
theory Mp_Stream
  imports Complex_Main Byte_Source
begin

text \<open>
  The stream layer of the player (src/source/mplayer/stream/stream.c and the driver of plain files,
  stream_file.c): a stream is a position, a small buffer and a table of driver callbacks. The record
  \<open>stream\<close> has the fields of stream_t that the layer reads or writes; the callbacks, which C keeps in the
  same structure, are the record \<open>stream_ops\<close> over the driver's own state \<open>'d\<close>. A callback that C gives
  the stream returns what it changes of it: a fill sets only eof and error, a seek and a control call may
  set any field. Positions (off_t, 64 bits) and counters are \<open>int\<close>; the 32-bit readers are words.
  The compile-time configuration is that of the GameCube port (GEKKO, CONFIG_NETWORKING,
  CONFIG_STREAM_CACHE).
\<close>

section \<open>Constants\<close>

abbreviation (input) STREAMTYPE_FILE :: int where "STREAMTYPE_FILE \<equiv> 0"
abbreviation (input) STREAMTYPE_STREAM :: int where "STREAMTYPE_STREAM \<equiv> 2"
abbreviation (input) STREAMTYPE_MEMORY :: int where "STREAMTYPE_MEMORY \<equiv> 4"
abbreviation (input) STREAMTYPE_DS :: int where "STREAMTYPE_DS \<equiv> 8"
abbreviation (input) STREAMTYPE_DVDNAV :: int where "STREAMTYPE_DVDNAV \<equiv> 9"
abbreviation (input) STREAM_BUFFER_SIZE :: int where "STREAM_BUFFER_SIZE \<equiv> 2048"
abbreviation (input) STREAM_MAX_SECTOR_SIZE :: int where "STREAM_MAX_SECTOR_SIZE \<equiv> 8192"
abbreviation (input) STREAM_READ :: int where "STREAM_READ \<equiv> 0"
abbreviation (input) STREAM_WRITE :: int where "STREAM_WRITE \<equiv> 1"
abbreviation (input) STREAM_UNSUPPORTED :: int where "STREAM_UNSUPPORTED \<equiv> - 1"
abbreviation (input) STREAM_OK :: int where "STREAM_OK \<equiv> 1"
abbreviation (input) STREAM_CTRL_RESET :: int where "STREAM_CTRL_RESET \<equiv> 0"
abbreviation (input) STREAM_CTRL_GET_TIME_LENGTH :: int where "STREAM_CTRL_GET_TIME_LENGTH \<equiv> 1"
abbreviation (input) STREAM_CTRL_SEEK_TO_CHAPTER :: int where "STREAM_CTRL_SEEK_TO_CHAPTER \<equiv> 2"
abbreviation (input) STREAM_CTRL_GET_CURRENT_CHAPTER :: int where "STREAM_CTRL_GET_CURRENT_CHAPTER \<equiv> 3"
abbreviation (input) STREAM_CTRL_GET_NUM_CHAPTERS :: int where "STREAM_CTRL_GET_NUM_CHAPTERS \<equiv> 4"
abbreviation (input) STREAM_CTRL_GET_CURRENT_TIME :: int where "STREAM_CTRL_GET_CURRENT_TIME \<equiv> 5"
abbreviation (input) STREAM_CTRL_SEEK_TO_TIME :: int where "STREAM_CTRL_SEEK_TO_TIME \<equiv> 6"
abbreviation (input) STREAM_CTRL_GET_SIZE :: int where "STREAM_CTRL_GET_SIZE \<equiv> 7"
abbreviation (input) STREAM_CTRL_GET_ASPECT_RATIO :: int where "STREAM_CTRL_GET_ASPECT_RATIO \<equiv> 8"
abbreviation (input) STREAM_CTRL_GET_NUM_ANGLES :: int where "STREAM_CTRL_GET_NUM_ANGLES \<equiv> 9"
abbreviation (input) STREAM_CTRL_GET_ANGLE :: int where "STREAM_CTRL_GET_ANGLE \<equiv> 10"
abbreviation (input) STREAM_CTRL_SET_ANGLE :: int where "STREAM_CTRL_SET_ANGLE \<equiv> 11"
abbreviation (input) STREAM_CTRL_GET_LANG :: int where "STREAM_CTRL_GET_LANG \<equiv> 13"
abbreviation (input) ENOSYS :: int where "ENOSYS \<equiv> 88"

section \<open>Streams and their drivers\<close>

record stream_lang_req =
  lang_type :: int
  lang_id :: int
  lang_buf :: string

text \<open>What the untyped argument of a control call points to.\<close>

datatype ctrl_arg = Ctrl_none | Ctrl_double real | Ctrl_uint "32 word" | Ctrl_off int | Ctrl_lang stream_lang_req

record stream =
  st_type :: int
  st_flags :: int
  st_sector_size :: int
  st_read_chunk :: int
  buf_pos :: int
  buf_len :: int
  st_pos :: int
  end_pos :: int
  st_eof :: bool
  st_error :: int
  st_mode :: int
  cache_pid :: bool
  st_buffer :: string

record 'd stream_ops =
  fill_buffer :: "(stream \<Rightarrow> nat \<Rightarrow> 'd \<Rightarrow> (int + string) \<times> (bool \<times> int) \<times> 'd) option"
  write_buffer :: "(stream \<Rightarrow> string \<Rightarrow> 'd \<Rightarrow> int \<times> 'd) option"
  seek :: "(stream \<Rightarrow> int \<Rightarrow> 'd \<Rightarrow> bool \<times> stream \<times> 'd) option"
  control :: "(stream \<Rightarrow> int \<Rightarrow> ctrl_arg \<Rightarrow> 'd \<Rightarrow> int \<times> ctrl_arg \<times> stream \<times> 'd) option"
  streaming_read :: "(nat \<Rightarrow> 'd \<Rightarrow> (int + string) \<times> 'd) option"
  streaming_seek :: "(int \<Rightarrow> 'd \<Rightarrow> int \<times> 'd) option"
  streaming_stopped :: "'d \<Rightarrow> bool"
  fd_read :: "nat \<Rightarrow> 'd \<Rightarrow> (int + string) \<times> 'd"
  demux_read_data :: "nat \<Rightarrow> 'd \<Rightarrow> (int + string) \<times> 'd"
  io_errno :: "'d \<Rightarrow> int"

text \<open>The driver's state, with the counter \<open>_try\<close> that stream_read_internal keeps between calls.\<close>

record 'd stream_io =
  drv :: 'd
  read_try :: int

section \<open>Reading and seeking a driver\<close>

definition stream_reset :: "'d stream_ops \<Rightarrow> stream \<Rightarrow> 'd stream_io \<Rightarrow> stream \<times> 'd stream_io" where
  "stream_reset ops s io =
     (let s1 = (if st_eof s then s\<lparr>st_pos := 0, buf_pos := 0, buf_len := 0, st_eof := False\<rparr> else s)
      in case control ops of
           None \<Rightarrow> (s1, io)
         | Some ctl \<Rightarrow> (let (_, _, s2, d) = ctl s1 STREAM_CTRL_RESET Ctrl_none (drv io) in (s2, io\<lparr>drv := d\<rparr>)))"

text \<open>The result is C's: \<open>- 1\<close> when the driver is at the new position, 0 or 1 when it could not seek.\<close>

definition driver_seek ::
  "(stream \<Rightarrow> int \<Rightarrow> 'd \<Rightarrow> bool \<times> stream \<times> 'd) \<Rightarrow> stream \<Rightarrow> int \<Rightarrow> 'd stream_io \<Rightarrow> int \<times> stream \<times> 'd stream_io" where
  "driver_seek sk s newpos io =
     (let (ok, s1, d) = sk s newpos (drv io) in (if ok then - 1 else 0, s1, io\<lparr>drv := d\<rparr>))"

definition stream_seek_internal ::
  "'d stream_ops \<Rightarrow> stream \<Rightarrow> int \<Rightarrow> 'd stream_io \<Rightarrow> int \<times> stream \<times> 'd stream_io" where
  "stream_seek_internal ops s newpos io =
     (if newpos = 0 \<or> newpos \<noteq> st_pos s then
        if st_type s = STREAMTYPE_STREAM then
          case seek ops of
            Some sk \<Rightarrow> driver_seek sk s newpos io
          | None \<Rightarrow>
              (case streaming_seek ops of
                 Some ssk \<Rightarrow> (let (r, d) = ssk newpos (drv io) in (if r < 0 then 1 else - 1, s, io\<lparr>drv := d\<rparr>))
               | None \<Rightarrow> (if newpos < st_pos s then 1 else - 1, s, io))
        else
          case seek ops of None \<Rightarrow> (0, s, io) | Some sk \<Rightarrow> driver_seek sk s newpos io
      else (- 1, s, io))"

definition fill_source ::
  "'d stream_ops \<Rightarrow> stream \<Rightarrow> nat \<Rightarrow> 'd \<Rightarrow> ((int \<times> string) \<times> stream \<times> 'd) option" where
  "fill_source ops s len d =
     (case fill_buffer ops of
        None \<Rightarrow> None
      | Some f \<Rightarrow> (let (a, (e, err), d1) = f s len d in
          Some (read_result len a, s\<lparr>st_eof := e, st_error := err\<rparr>, d1)))"

definition read_source ::
  "'d stream_ops \<Rightarrow> stream \<Rightarrow> nat \<Rightarrow> 'd \<Rightarrow> (int \<times> string) \<times> stream \<times> 'd" where
  "read_source ops s len d =
     (if st_type s = STREAMTYPE_STREAM then
        case streaming_read ops of
          Some sr \<Rightarrow>
            (let (a, d1) = sr len d;
                 s1 = (if streaming_stopped ops d1 \<and> (end_pos s = 0 \<or> st_pos s = end_pos s)
                       then s\<lparr>st_eof := True\<rparr> else s)
             in (read_result len a, s1, d1))
        | None \<Rightarrow>
            (case fill_source ops s len d of
               Some r \<Rightarrow> r
             | None \<Rightarrow> (let (a, d1) = fd_read ops len d in (read_result len a, s, d1)))
      else if st_type s = STREAMTYPE_DS then
        (let (a, d1) = demux_read_data ops len d in (read_result len a, s, d1))
      else
        case fill_source ops s len d of Some r \<Rightarrow> r | None \<Rightarrow> ((0, []), s, d))"

definition reset_and_return :: "'d stream_ops \<Rightarrow> stream \<Rightarrow> 'd stream_io \<Rightarrow> stream \<times> 'd stream_io" where
  "reset_and_return ops s io =
     (let (s1, io1) = stream_reset ops s io; (_, s2, io2) = stream_seek_internal ops s1 (st_pos s) io1 in (s2, io2))"

definition stream_read_internal ::
  "'d stream_ops \<Rightarrow> stream \<Rightarrow> int \<Rightarrow> 'd stream_io \<Rightarrow> (int \<times> string) \<times> stream \<times> 'd stream_io" where
  "stream_read_internal ops s len io =
     (let ((n, bs), s1, d) = read_source ops s (nat len) (drv io); io1 = io\<lparr>drv := d\<rparr> in
      if n = 0 then
        let (s2, io2) =
              (if 3 < read_try io then (s1\<lparr>st_eof := True\<rparr>, io1)
               else if read_try io = 0 then reset_and_return ops s1 io1
               else (s1, io1))
        in ((0, []), s2\<lparr>buf_pos := 0, buf_len := 0\<rparr>, io2\<lparr>read_try := read_try io + 1\<rparr>)
      else if n < 0 then
        let s2 = s1\<lparr>st_eof := True\<rparr> in
        if st_type s = STREAMTYPE_DVDNAV then ((0, []), s2, io1)
        else
          let s3 = s2\<lparr>buf_pos := 0, buf_len := 0\<rparr> in
          if st_error s3 = 0 \<and> (io_errno ops d = EIO \<or> io_errno ops d = ENOSYS) then
            let (s4, io2) = reset_and_return ops (s3\<lparr>st_error := 1\<rparr>) io1 in ((0, []), s4, io2)
          else ((0, []), s3, io1)
      else ((n, bs), s1\<lparr>st_eof := False, st_pos := st_pos s1 + n\<rparr>, io1\<lparr>read_try := 0\<rparr>))"

text \<open>\<open>mem_store buf i bs\<close> is memcpy of \<open>bs\<close> to \<open>buf + i\<close>.\<close>

definition mem_store :: "string \<Rightarrow> int \<Rightarrow> string \<Rightarrow> string" where
  "mem_store buf i bs = take (nat i) buf @ bs @ drop (nat i + length bs) buf"

definition stream_fill_buffer ::
  "'d stream_ops \<Rightarrow> stream \<Rightarrow> 'd stream_io \<Rightarrow> int \<times> stream \<times> 'd stream_io" where
  "stream_fill_buffer ops s io =
     (let ((n, bs), s1, io1) = stream_read_internal ops s STREAM_BUFFER_SIZE io in
      if n \<le> 0 then (0, s1, io1)
      else (n, s1\<lparr>st_buffer := mem_store (st_buffer s1) 0 bs, buf_pos := 0, buf_len := n\<rparr>, io1))"

definition stream_write_buffer ::
  "'d stream_ops \<Rightarrow> stream \<Rightarrow> string \<Rightarrow> 'd stream_io \<Rightarrow> int \<times> stream \<times> 'd stream_io" where
  "stream_write_buffer ops s bs io =
     (case write_buffer ops of
        None \<Rightarrow> (- 1, s, io)
      | Some wr \<Rightarrow>
          (let (rd, d) = wr s bs (drv io); io1 = io\<lparr>drv := d\<rparr> in
           if rd < 0 then (- 1, s, io1)
           else (if rd \<noteq> int (length bs) then - 1 else rd, s\<lparr>st_pos := st_pos s + rd\<rparr>, io1)))"

section \<open>Facts the loops need\<close>

lemma read_source_ok: "read_source ops s len d = (r, s1, d1) \<Longrightarrow> read_ok len r"
proof -
  have "read_ok len (0, [])" by (simp add: read_ok_def)
  then show "read_source ops s len d = (r, s1, d1) \<Longrightarrow> read_ok len r"
    by (auto simp: read_source_def fill_source_def read_result_ok split: if_splits option.splits prod.splits)
qed

lemma read_source_keeps:
  "read_source ops s len d = (r, s1, d1) \<Longrightarrow> s1 = s\<lparr>st_eof := st_eof s1, st_error := st_error s1\<rparr>"
  by (auto simp: read_source_def fill_source_def split: if_splits option.splits prod.splits)

lemma stream_read_internal_ok:
  assumes "stream_read_internal ops s len io = ((n, bs), s1, io1)"
  shows "0 \<le> n" "n = int (length bs)" "n \<le> max 0 len"
proof -
  obtain m cs s2 d where r: "read_source ops s (nat len) (drv io) = ((m, cs), s2, d)" by (metis surj_pair)
  from read_source_ok [OF r] show "0 \<le> n" "n = int (length bs)" "n \<le> max 0 len"
    using assms by (auto simp: stream_read_internal_def r read_ok_def Let_def split: if_splits prod.splits)
qed

lemma stream_read_internal_pos:
  assumes "stream_read_internal ops s len io = ((n, bs), s1, io1)" "0 < n"
  shows "s1 = s\<lparr>st_eof := False, st_error := st_error s1, st_pos := st_pos s + n\<rparr>" "read_try io1 = 0"
proof -
  obtain m cs s2 d where r: "read_source ops s (nat len) (drv io) = ((m, cs), s2, d)" by (metis surj_pair)
  from read_source_keeps [OF r] obtain e er where s2: "s2 = s\<lparr>st_eof := e, st_error := er\<rparr>" by blast
  show "s1 = s\<lparr>st_eof := False, st_error := st_error s1, st_pos := st_pos s + n\<rparr>" "read_try io1 = 0"
    using assms by (auto simp: stream_read_internal_def r s2 Let_def split: if_splits prod.splits)
qed

lemma stream_fill_buffer_step:
  assumes "stream_fill_buffer ops s io = (n, s1, io1)" "0 < n"
  shows "st_pos s1 = st_pos s + n" "buf_pos s1 = 0" "buf_len s1 = n" "n \<le> STREAM_BUFFER_SIZE"
proof -
  obtain m bs s2 io2 where r: "stream_read_internal ops s STREAM_BUFFER_SIZE io = ((m, bs), s2, io2)"
    by (metis surj_pair)
  have "0 < m" "n = m" using assms by (auto simp: stream_fill_buffer_def r split: if_splits)
  moreover from arg_cong [OF stream_read_internal_pos(1) [OF r \<open>0 < m\<close>], of st_pos]
  have "st_pos s2 = st_pos s + m" by simp
  moreover note stream_read_internal_ok(3) [OF r]
  ultimately show "st_pos s1 = st_pos s + n" "buf_pos s1 = 0" "buf_len s1 = n" "n \<le> STREAM_BUFFER_SIZE"
    using assms by (auto simp: stream_fill_buffer_def r split: if_splits)
qed

section \<open>Long seeks\<close>

text \<open>C division of an off_t by a positive int, rounding towards zero.\<close>

definition off_div :: "int \<Rightarrow> int \<Rightarrow> int" where
  "off_div a b = (if 0 \<le> a then a div b else - ((- a) div b))"

function seek_skip :: "'d stream_ops \<Rightarrow> int \<Rightarrow> stream \<Rightarrow> 'd stream_io \<Rightarrow> stream \<times> 'd stream_io" where
  "seek_skip ops newpos s io =
     (if st_pos s < newpos then
        let (n, s1, io1) = stream_fill_buffer ops s io in
        if n \<le> 0 then (s1, io1) else seek_skip ops newpos s1 io1
      else (s, io))"
  by pat_completeness auto
termination
  by (relation "measure (\<lambda>(ops, newpos, s, io). nat (newpos - st_pos s))")
     (auto dest: stream_fill_buffer_step [OF sym])

function seek_take :: "'d stream_ops \<Rightarrow> int \<Rightarrow> stream \<Rightarrow> 'd stream_io \<Rightarrow> bool \<times> stream \<times> 'd stream_io" where
  "seek_take ops pos s io =
     (let (n, s1, io1) = stream_fill_buffer ops s io in
      if 0 < n \<and> 0 \<le> pos then
        if pos \<le> buf_len s1 then (True, s1\<lparr>buf_pos := pos\<rparr>, io1)
        else seek_take ops (pos - buf_len s1) s1 io1
      else (False, s1, io1))"
  by pat_completeness auto
termination
  by (relation "measure (\<lambda>(ops, pos, s, io). nat pos)") (auto dest: stream_fill_buffer_step [OF sym])

declare seek_skip.simps [simp del] seek_take.simps [simp del]

definition stream_seek_long ::
  "'d stream_ops \<Rightarrow> stream \<Rightarrow> int \<Rightarrow> 'd stream_io \<Rightarrow> int \<times> stream \<times> 'd stream_io" where
  "stream_seek_long ops s0 pos io =
     (let s = s0\<lparr>buf_pos := 0, buf_len := 0\<rparr> in
      if st_mode s = STREAM_WRITE then
        (case seek ops of
           None \<Rightarrow> (0, s, io)
         | Some sk \<Rightarrow> (let (ok, s1, d) = sk s pos (drv io) in (of_bool ok, s1, io\<lparr>drv := d\<rparr>)))
      else
        let newpos = (if st_sector_size s \<noteq> 0 then off_div pos (st_sector_size s) * st_sector_size s
                      else pos div STREAM_BUFFER_SIZE * STREAM_BUFFER_SIZE);
            (res, s1, io1) = stream_seek_internal ops s newpos io
        in if 0 \<le> res then (res, s1, io1)
           else let (s2, io2) = seek_skip ops newpos s1 io1;
                    (ok, s3, io3) = seek_take ops (pos - newpos) s2 io2
                in (of_bool ok, s3, io3))"

section \<open>Memory streams\<close>

definition new_stream :: "int \<Rightarrow> stream" where
  "new_stream ty = \<lparr>st_type = ty, st_flags = 0, st_sector_size = 0, st_read_chunk = 0, buf_pos = 0, buf_len = 0,
     st_pos = 0, end_pos = 0, st_eof = False, st_error = 0, st_mode = 0, cache_pid = False,
     st_buffer = replicate (nat STREAM_MAX_SECTOR_SIZE) (CHR 0x00)\<rparr>"

text \<open>calloc gives the structure \<open>len\<close> further bytes, so that the data fits behind the header.\<close>

definition new_memory_stream :: "string \<Rightarrow> int \<Rightarrow> stream option" where
  "new_memory_stream data len =
     (if len < 0 then None
      else let s = new_stream STREAMTYPE_MEMORY in
        Some (s\<lparr>buf_len := len, end_pos := len, st_pos := len,
                st_buffer := mem_store (st_buffer s @ replicate (nat len) (CHR 0x00)) 0 (take (nat len) data)\<rparr>))"

section \<open>Plain files\<close>

text \<open>
  stream_file.c over a descriptor: \<open>file_read\<close> and \<open>file_lseek\<close> are the system calls on its state (\<open>None\<close>
  is failure; lseek with SEEK_END measures the file).
\<close>

record 'f file_ops =
  file_read :: "nat \<Rightarrow> 'f \<Rightarrow> (int + string) \<times> 'f"
  file_write :: "string \<Rightarrow> 'f \<Rightarrow> int \<times> 'f"
  file_lseek :: "int \<Rightarrow> 'f \<Rightarrow> bool \<times> 'f"
  file_size :: "'f \<Rightarrow> int option"
  file_errno :: "'f \<Rightarrow> int"

definition file_fill_buffer ::
  "'f file_ops \<Rightarrow> stream \<Rightarrow> nat \<Rightarrow> 'f \<Rightarrow> (int + string) \<times> (bool \<times> int) \<times> 'f" where
  "file_fill_buffer fs s len f =
     (let (a, f1) = file_read fs len f; (r, bs) = read_result len a
      in (if r \<le> 0 then Inl (- 1) else Inr bs, (st_eof s, st_error s), f1))"

definition file_seek :: "'f file_ops \<Rightarrow> stream \<Rightarrow> int \<Rightarrow> 'f \<Rightarrow> bool \<times> stream \<times> 'f" where
  "file_seek fs s newpos f =
     (let (ok, f1) = file_lseek fs newpos f in
      if ok then (True, s\<lparr>st_pos := newpos\<rparr>, f1) else (False, s\<lparr>st_pos := newpos, st_eof := True\<rparr>, f1))"

definition file_control ::
  "'f file_ops \<Rightarrow> stream \<Rightarrow> int \<Rightarrow> ctrl_arg \<Rightarrow> 'f \<Rightarrow> int \<times> ctrl_arg \<times> stream \<times> 'f" where
  "file_control fs s cmd arg f =
     (if cmd = STREAM_CTRL_GET_SIZE then
        let (_, f1) = file_lseek fs (st_pos s) f in
        case file_size fs f of Some n \<Rightarrow> (1, Ctrl_off n, s, f1) | None \<Rightarrow> (STREAM_UNSUPPORTED, arg, s, f1)
      else (STREAM_UNSUPPORTED, arg, s, f))"

text \<open>The callbacks open_f installs on a file that lseek can measure. Streams opened for writing are not modelled.\<close>

definition file_stream_ops :: "'f file_ops \<Rightarrow> 'f stream_ops" where
  "file_stream_ops fs = \<lparr>fill_buffer = Some (file_fill_buffer fs), write_buffer = None, seek = Some (file_seek fs),
     control = Some (file_control fs), streaming_read = None, streaming_seek = None,
     streaming_stopped = (\<lambda>_. False), fd_read = file_read fs, demux_read_data = (\<lambda>_ f. (Inr [], f)),
     io_errno = file_errno fs\<rparr>"

definition open_f :: "'f file_ops \<Rightarrow> 'f \<Rightarrow> (stream \<times> 'f) option" where
  "open_f fs f =
     (case file_size fs f of
        None \<Rightarrow> None
      | Some len \<Rightarrow>
          (let (_, f1) = file_lseek fs 0 f in
           Some ((new_stream STREAMTYPE_FILE)\<lparr>end_pos := len, st_read_chunk := 64 * 1024\<rparr>, f1)))"

section \<open>The contract of a seekable driver\<close>

text \<open>
  \<open>placed q d\<close>: the driver is positioned at byte \<open>q\<close> of the data \<open>fl\<close>. A successful fill at the driver's position
  returns bytes of the data from there and moves past them, a failed one stays; a seek succeeds and moves;
  a reset and the queries of the time change nothing the stream layer sees.
\<close>

locale seekable_driver =
  fixes ops :: "'d stream_ops" and fl :: string and placed :: "int \<Rightarrow> 'd \<Rightarrow> bool"
    and fill :: "stream \<Rightarrow> nat \<Rightarrow> 'd \<Rightarrow> (int + string) \<times> (bool \<times> int) \<times> 'd"
    and sk :: "stream \<Rightarrow> int \<Rightarrow> 'd \<Rightarrow> bool \<times> stream \<times> 'd"
  assumes fill_op: "fill_buffer ops = Some fill"
    and seek_op: "seek ops = Some sk"
    and fill_law: "placed q d \<Longrightarrow> 0 \<le> q \<Longrightarrow> fill s len d = (a, fe, d1) \<Longrightarrow> read_result len a = (n, bs) \<Longrightarrow>
      (0 < n \<longrightarrow> bs = take (nat n) (drop (nat q) fl)) \<and> placed (q + max 0 n) d1"
    and seek_law: "0 \<le> q \<Longrightarrow> sk s q d = (ok, s1, d1) \<Longrightarrow> ok \<and> s1 = s\<lparr>st_pos := q\<rparr> \<and> placed q d1"
    and quiet_law: "control ops = Some ctl \<Longrightarrow>
      cmd \<in> {STREAM_CTRL_RESET, STREAM_CTRL_GET_TIME_LENGTH, STREAM_CTRL_GET_CURRENT_TIME} \<Longrightarrow>
      ctl s cmd arg d = (r, arg1, s1, d1) \<Longrightarrow> s1 = s \<and> (placed q d \<longrightarrow> placed q d1)"
begin

definition seekable :: "stream \<Rightarrow> bool" where
  "seekable s \<longleftrightarrow> st_type s \<noteq> STREAMTYPE_STREAM \<and> st_type s \<noteq> STREAMTYPE_DS \<and> 0 \<le> st_pos s"

definition same_conf :: "stream \<Rightarrow> stream \<Rightarrow> bool" where
  "same_conf s s1 \<longleftrightarrow> st_type s1 = st_type s \<and> st_sector_size s1 = st_sector_size s \<and>
     st_read_chunk s1 = st_read_chunk s"

lemma seek_to:
  assumes "0 \<le> q" "st_type s \<noteq> STREAMTYPE_STREAM" "q \<noteq> 0 \<longrightarrow> q = st_pos s \<longrightarrow> placed q (drv io)"
    "stream_seek_internal ops s q io = (r, s1, io1)"
  shows "r = - 1 \<and> s1 = s\<lparr>st_pos := q\<rparr> \<and> placed q (drv io1) \<and> read_try io1 = read_try io"
proof (cases "q = 0 \<or> q \<noteq> st_pos s")
  case True
  obtain ok s2 d where sk: "sk s q (drv io) = (ok, s2, d)" by (metis surj_pair)
  from seek_law [OF assms(1) sk] True assms(2,4) show ?thesis
    by (auto simp: stream_seek_internal_def seek_op driver_seek_def sk)
qed (use assms in \<open>auto simp: stream_seek_internal_def\<close>)

lemma reset_cases:
  assumes "stream_reset ops s io = (s1, io1)"
  shows "s1 = (if st_eof s then s\<lparr>st_pos := 0, buf_pos := 0, buf_len := 0, st_eof := False\<rparr> else s) \<and>
    (placed q (drv io) \<longrightarrow> placed q (drv io1)) \<and> read_try io1 = read_try io"
proof (cases "control ops")
  case (Some ctl)
  obtain s' where s': "s' = (if st_eof s then s\<lparr>st_pos := 0, buf_pos := 0, buf_len := 0, st_eof := False\<rparr> else s)"
    by simp
  obtain r a s2 d where c: "ctl s' STREAM_CTRL_RESET Ctrl_none (drv io) = (r, a, s2, d)" by (metis surj_pair)
  from assms c have "s1 = s2 \<and> io1 = io\<lparr>drv := d\<rparr>" by (simp add: stream_reset_def Some s' [symmetric])
  with quiet_law [OF Some _ c, of q] show ?thesis by (simp add: s' [symmetric])
qed (use assms in \<open>auto simp: stream_reset_def\<close>)

lemma return_keeps:
  assumes "seekable s" "placed (st_pos s) (drv io)" "reset_and_return ops s io = (s1, io1)"
  shows "placed (st_pos s) (drv io1) \<and> st_pos s1 = st_pos s \<and> same_conf s s1"
proof -
  obtain s2 io2 where r: "stream_reset ops s io = (s2, io2)" by fastforce
  obtain c s3 io3 where k: "stream_seek_internal ops s2 (st_pos s) io2 = (c, s3, io3)" by (metis surj_pair)
  note reset_cases [OF r, of "st_pos s"]
  moreover from this have "c = - 1 \<and> s3 = s2\<lparr>st_pos := st_pos s\<rparr> \<and> placed (st_pos s) (drv io3)"
    using seek_to [OF _ _ _ k] assms(1,2) by (auto simp: seekable_def split: if_splits)
  moreover from assms(3) have "s1 = s3 \<and> io1 = io3" by (simp add: reset_and_return_def r k)
  ultimately show ?thesis by (auto simp: same_conf_def)
qed

lemma read_law:
  assumes "seekable s" "placed (st_pos s) (drv io)" "stream_read_internal ops s len io = ((n, bs), s1, io1)"
  shows "bs = take (nat n) (drop (nat (st_pos s)) fl)" "placed (st_pos s1) (drv io1)" "st_pos s1 = st_pos s + n"
    "same_conf s s1" "seekable s1"
proof -
  obtain m cs s2 d where r: "read_source ops s (nat len) (drv io) = ((m, cs), s2, d)" by (metis surj_pair)
  obtain a e er d' where f: "fill s (nat len) (drv io) = (a, (e, er), d')" by (metis surj_pair)
  have r': "read_result (nat len) a = (m, cs)" "s2 = s\<lparr>st_eof := e, st_error := er\<rparr>" "d = d'"
    using r assms(1) by (auto simp: read_source_def fill_source_def fill_op f seekable_def)
  have pos: "0 \<le> st_pos s" using assms(1) by (simp add: seekable_def)
  note law = fill_law [OF assms(2) pos f r'(1)]
  define s3 where "s3 = s2\<lparr>st_eof := True, buf_pos := 0, buf_len := 0, st_error := 1\<rparr>"
  have ret2: "placed (st_pos s) (drv i1) \<and> st_pos t = st_pos s \<and> same_conf s t"
    if "reset_and_return ops s2 (io\<lparr>drv := d\<rparr>) = (t, i1)" "m = 0" for t i1
    using return_keeps [OF _ _ that(1)] assms(1) law that(2) r'(2,3) by (simp add: seekable_def same_conf_def)
  have ret3: "placed (st_pos s) (drv i1) \<and> st_pos t = st_pos s \<and> same_conf s t"
    if "reset_and_return ops s3 (io\<lparr>drv := d\<rparr>) = (t, i1)" "m < 0" for t i1
    using return_keeps [OF _ _ that(1)] assms(1) law that(2) r'(2,3) by (simp add: seekable_def same_conf_def s3_def)
  have all: "bs = take (nat n) (drop (nat (st_pos s)) fl) \<and> placed (st_pos s + n) (drv io1) \<and>
    st_pos s1 = st_pos s + n \<and> same_conf s s1 \<and> 0 \<le> n"
  proof (cases "m = 0")
    case True
    obtain t i1 where t: "reset_and_return ops s2 (io\<lparr>drv := d\<rparr>) = (t, i1)" by fastforce
    from assms(3) True have "n = 0 \<and> bs = [] \<and>
      (s1 = s2\<lparr>st_eof := True, buf_pos := 0, buf_len := 0\<rparr> \<and> drv io1 = d \<or>
       s1 = s2\<lparr>buf_pos := 0, buf_len := 0\<rparr> \<and> drv io1 = d \<or>
       s1 = t\<lparr>buf_pos := 0, buf_len := 0\<rparr> \<and> drv io1 = drv i1)"
      by (auto simp: stream_read_internal_def r t Let_def split: if_splits)
    with ret2 [OF t True] law True show ?thesis by (auto simp: r'(2,3) same_conf_def)
  next
    case False
    obtain t i1 where t: "reset_and_return ops s3 (io\<lparr>drv := d\<rparr>) = (t, i1)" by fastforce
    show ?thesis
    proof (cases "m < 0")
      case True
      with assms(3) have "n = 0 \<and> bs = [] \<and>
        ((s1, io1) = (s2\<lparr>st_eof := True\<rparr>, io\<lparr>drv := d\<rparr>) \<or> (s1, io1) = (t, i1) \<or>
         (s1, io1) = (s2\<lparr>st_eof := True, buf_pos := 0, buf_len := 0\<rparr>, io\<lparr>drv := d\<rparr>))"
        using t by (auto simp: stream_read_internal_def r s3_def Let_def split: if_splits)
      with ret3 [OF t True] law True show ?thesis by (auto simp: r'(2,3) same_conf_def)
    next
      case False
      with \<open>m \<noteq> 0\<close> show ?thesis using assms(3) law r'(2,3)
        by (auto simp: stream_read_internal_def r same_conf_def Let_def split: if_splits)
    qed
  qed
  then show "bs = take (nat n) (drop (nat (st_pos s)) fl)" "placed (st_pos s1) (drv io1)" "st_pos s1 = st_pos s + n"
    "same_conf s s1" "seekable s1"
    using assms(1) by (auto simp: seekable_def same_conf_def)
qed

end

section \<open>Files of the operating system are seekable drivers\<close>

text \<open>
  The documented behaviour of read and lseek on a regular file with contents \<open>fl\<close>: a read returns bytes
  from the file offset and advances it, a failed read leaves it, lseek to a non-negative offset succeeds.
\<close>

locale posix_file =
  fixes fs :: "'f file_ops" and fl :: string and placed :: "int \<Rightarrow> 'f \<Rightarrow> bool"
  assumes file_read_law: "placed q f \<Longrightarrow> 0 \<le> q \<Longrightarrow> file_read fs len f = (a, f1) \<Longrightarrow> read_result len a = (n, bs) \<Longrightarrow>
      (0 < n \<longrightarrow> bs = take (nat n) (drop (nat q) fl)) \<and> placed (q + max 0 n) f1"
    and file_lseek_law: "0 \<le> q \<Longrightarrow> file_lseek fs q f = (ok, f1) \<Longrightarrow> ok \<and> placed q f1"

sublocale posix_file \<subseteq> seekable_driver "file_stream_ops fs" fl placed "file_fill_buffer fs" "file_seek fs"
proof
  fix q f s len a fe f1 n bs
  assume h: "placed q f" "0 \<le> q" "file_fill_buffer fs s len f = (a, fe, f1)" "read_result len a = (n, bs)"
  obtain a' f' where r: "file_read fs len f = (a', f')" by fastforce
  obtain n' bs' where r': "read_result len a' = (n', bs')" by fastforce
  from h(3) have a: "a = (if n' \<le> 0 then Inl (- 1) else Inr bs')" "f1 = f'"
    by (simp_all add: file_fill_buffer_def r r')
  from read_result_ok [of len a'] have "0 < n' \<longrightarrow> n' = int (length bs') \<and> length bs' \<le> len"
    by (auto simp: r' read_ok_def)
  with h(4) a(1) have "n' \<le> 0 \<and> n \<le> 0 \<or> n = n' \<and> bs = bs'"
    by (auto simp: read_result_def split: if_splits)
  with file_read_law [OF h(1,2) r r'] a(2)
  show "(0 < n \<longrightarrow> bs = take (nat n) (drop (nat q) fl)) \<and> placed (q + max 0 n) f1"
    by auto
next
  fix q s d ok s1 d1
  assume "0 \<le> q" "file_seek fs s q d = (ok, s1, d1)"
  then show "ok \<and> s1 = s\<lparr>st_pos := q\<rparr> \<and> placed q d1"
    by (auto simp: file_seek_def split: prod.splits if_splits dest: file_lseek_law)
qed (auto simp: file_stream_ops_def file_control_def)

text \<open>A file held in memory, for concrete runs; its state is the offset.\<close>

definition mem_file :: "string \<Rightarrow> int file_ops" where
  "mem_file fl = \<lparr>file_read = (\<lambda>len q. let bs = take len (drop (nat q) fl) in (Inr bs, q + int (length bs))),
     file_write = (\<lambda>_ q. (- 1, q)), file_lseek = (\<lambda>q _. (0 \<le> q, q)), file_size = (\<lambda>_. Some (int (length fl))),
     file_errno = (\<lambda>_. 0)\<rparr>"

interpretation mem_file: posix_file "mem_file fl" fl "(=)" for fl
  by unfold_locales (auto simp: mem_file_def read_result_def Let_def min_def)

end
