(* ===== verification/Stream_Cache.thy ===== *)
theory Stream_Cache
  imports Mp_Stream
begin

text \<open>
  The read-ahead cache of the player (src/source/mplayer/stream/cache2.c, GameCube configuration): a ring
  buffer filled by a worker thread (\<open>cache_fill\<close>, \<open>cache_execute_control\<close>, driven by \<open>ThreadProc\<close>) and emptied
  by the player (\<open>cache_read\<close>). The two share \<open>cache_vars\<close>; every access to the four positions is one
  critical section of cache_pos_mutex, so the sections are the atomic steps of the model.

  The worker is a machine with a program counter (\<open>filler_pc\<close>): one step runs from one critical section or
  blocking call to the next. The player's loops take a schedule, a list of \<open>turn\<close>s: each says how many steps
  the worker makes at each point where the player can be preempted, how much time passes, and what the
  player sees of the stop flags. A run that needs more turns than the schedule has is \<open>None\<close>; the number of
  turns that always suffices is a theorem.

  \<open>int\<close> variables of C that receive a difference of off_t go through \<open>c_int\<close>, the conversion to 32 bits.
  The worker's copy of the stream, its driver state and the status percentage are in \<open>cache_sys\<close>. Floating
  point values are reals. Message output is left out.
\<close>

section \<open>State\<close>

definition c_int :: "int \<Rightarrow> int" where
  "c_int x = (x + 2 ^ 31) mod 2 ^ 32 - 2 ^ 31"

record cache_vars =
  ring :: string
  buffer_size :: int
  sector_size :: int
  back_size :: int
  fill_limit :: int
  seek_limit :: int
  c_eof :: bool
  min_filepos :: int
  max_filepos :: int
  offset :: int
  read_filepos :: int
  c_control :: int
  control_uint_arg :: "32 word"
  control_double_arg :: real
  control_lang_arg :: stream_lang_req
  control_res :: int
  stream_time_length :: real
  stream_time_pos :: real

record cache_pos =
  p_min :: int
  p_max :: int
  p_read :: int
  p_offset :: int

definition cache_pos_get :: "cache_vars \<Rightarrow> cache_pos" where
  "cache_pos_get s = \<lparr>p_min = min_filepos s, p_max = max_filepos s, p_read = read_filepos s, p_offset = offset s\<rparr>"

definition cache_pos_set_read :: "cache_vars \<Rightarrow> int \<Rightarrow> cache_vars" where
  "cache_pos_set_read s pos = s\<lparr>read_filepos := pos\<rparr>"

definition cache_pos_advance_read :: "cache_vars \<Rightarrow> int \<Rightarrow> cache_vars" where
  "cache_pos_advance_read s len = s\<lparr>read_filepos := read_filepos s + len\<rparr>"

definition cache_pos_set_min :: "cache_vars \<Rightarrow> int \<Rightarrow> cache_vars" where
  "cache_pos_set_min s pos = s\<lparr>min_filepos := pos\<rparr>"

definition cache_pos_commit_fill :: "cache_vars \<Rightarrow> int \<Rightarrow> bool \<Rightarrow> cache_vars" where
  "cache_pos_commit_fill s len wrapped =
     s\<lparr>max_filepos := max_filepos s + len, offset := (if wrapped then offset s + buffer_size s else offset s)\<rparr>"

definition cache_pos_reset :: "cache_vars \<Rightarrow> int \<Rightarrow> cache_vars" where
  "cache_pos_reset s pos = s\<lparr>offset := pos, min_filepos := pos, max_filepos := pos, read_filepos := pos\<rparr>"

definition cache_flush :: "cache_vars \<Rightarrow> cache_vars" where
  "cache_flush s = cache_pos_reset s (p_read (cache_pos_get s))"

lemmas cache_pos_defs = cache_pos_get_def cache_pos_set_read_def cache_pos_advance_read_def
  cache_pos_set_min_def cache_pos_commit_fill_def cache_pos_reset_def cache_flush_def

text \<open>
  What the worker does next: look at eof, take its snapshot, act on the snapshot (flush, seek, publish the
  new minimum), read into the ring, publish the bytes, execute a control request, or nothing any more.
  A \<open>fill_plan\<close> is the target of the read: ring index, size, and whether it goes through the bounce buffer.
\<close>

record fill_plan =
  f_pos :: int
  f_space :: int
  f_wrap :: bool

datatype filler_pc = F_check | F_snap | F_act cache_pos | F_read fill_plan | F_commit fill_plan int | F_control | F_exit

record 'd cache_sys =
  vars :: cache_vars
  cstream :: stream
  cio :: "'d stream_io"
  fill_status :: real
  filler :: filler_pc
  timer :: nat
  ctl_last :: nat

text \<open>
  The driver callbacks and, from the player, the path of the file being played, the repair of the network
  connection (CheckMplayerNetwork, on the driver's state), and the stop flag of the worker.
\<close>

record 'd cache_env =
  cops :: "'d stream_ops"
  fileplaying :: string
  check_network :: "'d \<Rightarrow> 'd"

definition cache_update_fill_status :: "cache_vars \<Rightarrow> real" where
  "cache_update_fill_status s =
     (if c_eof s then - 1
      else let p = cache_pos_get s in real_of_int (p_max p - p_read p) * 100 / real_of_int (buffer_size s))"

definition update_status :: "'d cache_sys \<Rightarrow> 'd cache_sys" where
  "update_status y = y\<lparr>fill_status := cache_update_fill_status (vars y)\<rparr>"

section \<open>Filling the ring\<close>

definition fill_check :: "'d cache_env \<Rightarrow> 'd cache_sys \<Rightarrow> bool \<times> 'd cache_sys" where
  "fill_check E y =
     (if c_eof (vars y) then
        let e = cache_pos_get (vars y) in
        if p_min e \<le> p_read e \<and> p_read e \<le> p_max e then (False, y\<lparr>fill_status := - 1\<rparr>)
        else let (s, io) = stream_reset (cops E) (cstream y) (cio y)
             in (True, y\<lparr>vars := (vars y)\<lparr>c_eof := False\<rparr>, cstream := s, cio := io\<rparr>)
      else (True, y))"

definition fill_seek :: "'d cache_env \<Rightarrow> cache_pos \<Rightarrow> 'd cache_sys \<Rightarrow> cache_pos \<times> 'd cache_sys" where
  "fill_seek E p y =
     (if (p_read p < p_min p \<or> p_max p < p_read p) \<and>
         (st_type (cstream y) \<noteq> STREAMTYPE_STREAM \<or> p_read p < p_min p \<or> p_max p + seek_limit (vars y) \<le> p_read p) then
        let c = cache_flush (vars y);
            (s1, io1) = (if st_eof (cstream y) then stream_reset (cops E) (cstream y) (cio y) else (cstream y, cio y));
            (_, s2, io2) = stream_seek_internal (cops E) s1 (p_read p) io1
        in (cache_pos_get c, y\<lparr>vars := c, cstream := s2, cio := io2\<rparr>)
      else (p, y))"

text \<open>
  The arithmetic of one fill from the snapshot \<open>p\<close> and the reader's position \<open>rd\<close>: \<open>None\<close> when the ring is
  full, otherwise the plan and, if it moves, the new minimum.
\<close>

definition fill_compute :: "cache_vars \<Rightarrow> int \<Rightarrow> int \<Rightarrow> cache_pos \<Rightarrow> (fill_plan \<times> int option) option" where
  "fill_compute c chunk rd p =
     (let back0 = c_int (rd - p_min p);
          back1 = (if back0 < 0 then 0 else back0);
          back = (if back_size c < back1 then back_size c else back1);
          newb0 = c_int (p_max p - rd);
          newb = (if newb0 < 0 then 0 else newb0);
          space0 = buffer_size c - (newb + back)
      in if space0 < fill_limit c then None
         else
           let pos0 = c_int (p_max p - p_offset p);
               pos = (if buffer_size c \<le> pos0 then pos0 - buffer_size c else pos0);
               wrap = (buffer_size c - pos < space0 \<and> \<not> sector_size c \<le> buffer_size c - pos);
               space1 = (if buffer_size c - pos < space0 then
                           if sector_size c \<le> buffer_size c - pos then buffer_size c - pos else sector_size c
                         else space0);
               read_chunk = (if chunk = 0 then 4 * sector_size c else chunk);
               space = min space1 read_chunk;
               back2 = buffer_size c - (space + newb)
           in Some (\<lparr>f_pos = pos, f_space = space, f_wrap = wrap\<rparr>,
                    if p_min p < rd - back2 then Some (rd - back2) else None))"

definition fill_act :: "'d cache_env \<Rightarrow> cache_pos \<Rightarrow> 'd cache_sys \<Rightarrow> fill_plan option \<times> 'd cache_sys" where
  "fill_act E p0 y0 =
     (let (p, y) = fill_seek E p0 y0 in
      case fill_compute (vars y) (st_read_chunk (cstream y)) (p_read p0) p of
        None \<Rightarrow> (None, update_status y)
      | Some (pl, None) \<Rightarrow> (Some pl, y)
      | Some (pl, Some m) \<Rightarrow> (Some pl, y\<lparr>vars := cache_pos_set_min (vars y) m\<rparr>))"

definition fill_read :: "'d cache_env \<Rightarrow> fill_plan \<Rightarrow> 'd cache_sys \<Rightarrow> int \<times> 'd cache_sys" where
  "fill_read E pl y =
     (let ((len, bs), s, io) = stream_read_internal (cops E) (cstream y) (f_space pl) (cio y);
          c = vars y
      in if f_wrap pl then
           let to_copy = min len (buffer_size c - f_pos pl);
               ring1 = mem_store (ring c) (f_pos pl) (take (nat to_copy) bs);
               ring2 = mem_store ring1 0 (drop (nat to_copy) bs)
           in (len, y\<lparr>vars := c\<lparr>ring := ring2\<rparr>, cstream := s\<lparr>st_buffer := mem_store (st_buffer s) 0 bs\<rparr>, cio := io\<rparr>)
         else (len, y\<lparr>vars := c\<lparr>ring := mem_store (ring c) (f_pos pl) bs\<rparr>, cstream := s, cio := io\<rparr>))"

text \<open>A read of no bytes: end of file, or an error that is retried while the ring has data.\<close>

definition fill_empty :: "'d cache_env \<Rightarrow> 'd cache_sys \<Rightarrow> 'd cache_sys" where
  "fill_empty E y =
     (if 0 < st_error (cstream y) then
        let y1 = y\<lparr>cstream := (cstream y)\<lparr>st_error := st_error (cstream y) + 1\<rparr>\<rparr> in
        if 500 < st_error (cstream y1) then y1\<lparr>vars := (vars y1)\<lparr>c_eof := True\<rparr>\<rparr>
        else
          let y2 = update_status y1 in
          if fill_status y2 < 5 then y2\<lparr>vars := (vars y2)\<lparr>c_eof := True\<rparr>, fill_status := - 1\<rparr>
          else if 3 < st_error (cstream y2) \<and> c_strncmp (fileplaying E) ''smb'' 3
            then y2\<lparr>cio := (cio y2)\<lparr>drv := check_network E (drv (cio y2))\<rparr>\<rparr>
            else y2
      else y\<lparr>vars := (vars y)\<lparr>c_eof := True\<rparr>, fill_status := - 1\<rparr>)"

definition fill_commit :: "'d cache_env \<Rightarrow> fill_plan \<Rightarrow> int \<Rightarrow> 'd cache_sys \<Rightarrow> 'd cache_sys" where
  "fill_commit E pl len y =
     (let y1 = (if len = 0 then fill_empty E y else y\<lparr>cstream := (cstream y)\<lparr>st_error := 0\<rparr>\<rparr>)
      in update_status (y1\<lparr>vars := cache_pos_commit_fill (vars y1) len (buffer_size (vars y1) \<le> f_pos pl + len)\<rparr>))"

definition cache_fill :: "'d cache_env \<Rightarrow> 'd cache_sys \<Rightarrow> int \<times> 'd cache_sys" where
  "cache_fill E y =
     (let (go, y1) = fill_check E y in
      if \<not> go then (0, y1)
      else
        let (pl, y2) = fill_act E (cache_pos_get (vars y1)) y1 in
        case pl of
          None \<Rightarrow> (0, y2)
        | Some pl \<Rightarrow> (let (len, y3) = fill_read E pl y2 in (len, fill_commit E pl len y3)))"

section \<open>Control requests\<close>

definition MP_NOPTS_VALUE :: real where
  "MP_NOPTS_VALUE = - (2 ^ 63)"

text \<open>A request for a value starts from an uninitialised variable; a driver that does not set it leaves it so.\<close>

definition call_control :: "'d cache_env \<Rightarrow> int \<Rightarrow> ctrl_arg \<Rightarrow> 'd cache_sys \<Rightarrow> int \<times> ctrl_arg \<times> 'd cache_sys" where
  "call_control E cmd arg y =
     (case control (cops E) of
        None \<Rightarrow> (STREAM_UNSUPPORTED, arg, y)
      | Some ctl \<Rightarrow> (let (r, a, s, d) = ctl (cstream y) cmd arg (drv (cio y))
                     in (r, a, y\<lparr>cstream := s, cio := (cio y)\<lparr>drv := d\<rparr>\<rparr>)))"

fun got_double :: "ctrl_arg \<Rightarrow> real \<Rightarrow> real" where
  "got_double (Ctrl_double v) _ = v"
| "got_double _ old = old"

fun got_uint :: "ctrl_arg \<Rightarrow> 32 word \<Rightarrow> 32 word" where
  "got_uint (Ctrl_uint v) _ = v"
| "got_uint _ old = old"

fun got_lang :: "ctrl_arg \<Rightarrow> stream_lang_req \<Rightarrow> stream_lang_req" where
  "got_lang (Ctrl_lang v) _ = v"
| "got_lang _ old = old"

definition poll_times :: "'d cache_env \<Rightarrow> 'd cache_sys \<Rightarrow> 'd cache_sys" where
  "poll_times E y =
     (if 99 < timer y - ctl_last y then
        let (r1, a1, y1) = call_control E STREAM_CTRL_GET_TIME_LENGTH Ctrl_none y;
            y2 = y1\<lparr>vars := (vars y1)\<lparr>stream_time_length := (if r1 = STREAM_OK then got_double a1 0 else 0)\<rparr>\<rparr>;
            (r2, a2, y3) = call_control E STREAM_CTRL_GET_CURRENT_TIME Ctrl_none y2;
            y4 = y3\<lparr>vars := (vars y3)\<lparr>stream_time_pos := (if r2 = STREAM_OK then got_double a2 0 else MP_NOPTS_VALUE)\<rparr>\<rparr>
        in y4\<lparr>ctl_last := timer y\<rparr>
      else y)"

definition run_control :: "'d cache_env \<Rightarrow> 'd cache_sys \<Rightarrow> bool \<times> 'd cache_sys" where
  "run_control E y =
     (let c = vars y; cmd = c_control c in
      if cmd \<in> {STREAM_CTRL_SEEK_TO_TIME, STREAM_CTRL_GET_CURRENT_TIME, STREAM_CTRL_GET_ASPECT_RATIO} then
        let arg = (if cmd = STREAM_CTRL_SEEK_TO_TIME then Ctrl_double (control_double_arg c) else Ctrl_none);
            (r, a, y1) = call_control E cmd arg y
        in (cmd = STREAM_CTRL_SEEK_TO_TIME,
            y1\<lparr>vars := (vars y1)\<lparr>control_res := r, control_double_arg := got_double a (control_double_arg c)\<rparr>\<rparr>)
      else if cmd \<in> {STREAM_CTRL_SEEK_TO_CHAPTER, STREAM_CTRL_SET_ANGLE, STREAM_CTRL_GET_NUM_CHAPTERS,
                     STREAM_CTRL_GET_CURRENT_CHAPTER, STREAM_CTRL_GET_NUM_ANGLES, STREAM_CTRL_GET_ANGLE} then
        let moves = (cmd = STREAM_CTRL_SEEK_TO_CHAPTER \<or> cmd = STREAM_CTRL_SET_ANGLE);
            arg = (if moves then Ctrl_uint (control_uint_arg c) else Ctrl_none);
            (r, a, y1) = call_control E cmd arg y
        in (moves, y1\<lparr>vars := (vars y1)\<lparr>control_res := r, control_uint_arg := got_uint a (control_uint_arg c)\<rparr>\<rparr>)
      else if cmd = STREAM_CTRL_GET_LANG then
        let (r, a, y1) = call_control E cmd (Ctrl_lang (control_lang_arg c)) y
        in (False, y1\<lparr>vars := (vars y1)\<lparr>control_res := r, control_lang_arg := got_lang a (control_lang_arg c)\<rparr>\<rparr>)
      else (False, y\<lparr>vars := c\<lparr>control_res := STREAM_UNSUPPORTED\<rparr>\<rparr>))"

definition cache_execute_control :: "'d cache_env \<Rightarrow> 'd cache_sys \<Rightarrow> bool \<times> 'd cache_sys" where
  "cache_execute_control E y =
     (let quit = (c_control (vars y) = - 2) in
      if quit \<or> control (cops E) = None then
        (\<not> quit, y\<lparr>vars := (vars y)\<lparr>stream_time_length := 0, stream_time_pos := MP_NOPTS_VALUE,
                       control_res := STREAM_UNSUPPORTED, c_control := - 1\<rparr>\<rparr>)
      else
        let y1 = poll_times E y in
        if c_control (vars y1) = - 1 then (True, y1)
        else
          let (needs_flush, y2) = run_control E y1;
              c2 = vars y2;
              c3 = (if control_res c2 = STREAM_OK \<and> needs_flush
                    then cache_flush ((cache_pos_set_read c2 (st_pos (cstream y2)))\<lparr>c_eof := st_eof (cstream y2)\<rparr>)
                    else c2)
          in (True, y2\<lparr>vars := c3\<lparr>c_control := - 1\<rparr>\<rparr>))"

section \<open>The worker thread\<close>

text \<open>
  One step of the worker. \<open>stop\<close> is stop_cache_thread as the loop condition of ThreadProc reads it; the
  sleeps between fills only let time pass and have no step of their own.
\<close>

fun filler_step :: "'d cache_env \<Rightarrow> bool \<Rightarrow> 'd cache_sys \<Rightarrow> 'd cache_sys" where
  "filler_step E stop y =
     (case filler y of
        F_check \<Rightarrow> (let (go, y1) = fill_check E y in y1\<lparr>filler := (if go then F_snap else F_control)\<rparr>)
      | F_snap \<Rightarrow> y\<lparr>filler := F_act (cache_pos_get (vars y))\<rparr>
      | F_act p \<Rightarrow> (let (pl, y1) = fill_act E p y
                   in y1\<lparr>filler := (case pl of None \<Rightarrow> F_control | Some pl \<Rightarrow> F_read pl)\<rparr>)
      | F_read pl \<Rightarrow> (let (len, y1) = fill_read E pl y in y1\<lparr>filler := F_commit pl len\<rparr>)
      | F_commit pl len \<Rightarrow> (fill_commit E pl len y)\<lparr>filler := F_control\<rparr>
      | F_control \<Rightarrow> (let (again, y1) = cache_execute_control E y
                     in y1\<lparr>filler := (if again \<and> \<not> stop then F_check else F_exit)\<rparr>)
      | F_exit \<Rightarrow> y)"

declare filler_step.simps [simp del]

fun filler_run :: "'d cache_env \<Rightarrow> nat \<Rightarrow> 'd cache_sys \<Rightarrow> 'd cache_sys" where
  "filler_run E 0 y = y"
| "filler_run E (Suc k) y = filler_run E k (filler_step E False y)"

text \<open>\<open>ThreadProc\<close> alone: \<open>stops\<close> is what each turn of its loop sees of the stop flag.\<close>

fun ThreadProc :: "'d cache_env \<Rightarrow> bool list \<Rightarrow> 'd cache_sys \<Rightarrow> 'd cache_sys option" where
  "ThreadProc E [] y = None"
| "ThreadProc E (stop # stops) y =
     (let (len, y1) = cache_fill E y; (again, y2) = cache_execute_control E y1
      in if again \<and> \<not> stop then ThreadProc E stops y2 else Some y2)"

section \<open>Reading from the ring\<close>

record turn =
  t_ms :: nat
  t_stop :: bool
  t_interrupt :: bool
  t_before :: nat
  t_during :: nat
  t_after :: nat

text \<open>The ring index and the size of one copy, from the snapshot.\<close>

definition read_extent :: "cache_vars \<Rightarrow> cache_pos \<Rightarrow> int \<Rightarrow> int \<times> int" where
  "read_extent c p size0 =
     (let newb0 = c_int (p_max p - p_read p);
          pos0 = c_int (p_read p - p_offset p);
          pos = (if pos0 < 0 then pos0 + buffer_size c
                 else if buffer_size c \<le> pos0 then pos0 - buffer_size c else pos0);
          newb1 = (if buffer_size c - pos < newb0 then buffer_size c - pos else newb0);
          newb = (if size0 < newb1 then size0 else newb1)
      in (pos, newb))"

text \<open>
  \<open>since\<close> is the timer at the last progress. A turn lets the worker run before the snapshot, between the
  snapshot and the copy, and between the copy and the advance; \<open>t_stop\<close> is the test of getMESS,
  controlledbygui and stop_cache_thread. The result has the bytes, the state and the rest of the schedule.
\<close>

fun cache_read_loop ::
  "'d cache_env \<Rightarrow> turn list \<Rightarrow> nat \<Rightarrow> int \<Rightarrow> 'd cache_sys \<Rightarrow> (string \<times> 'd cache_sys \<times> turn list) option" where
  "cache_read_loop E ts since size0 y =
     (if size0 \<le> 0 then Some ([], update_status y, ts)
      else case ts of
        [] \<Rightarrow> None
      | t # ts1 \<Rightarrow>
          if t_stop t then Some ([], filler_run E (t_before t) y, ts1)
          else
            let y1 = filler_run E (t_before t) y;
                p = cache_pos_get (vars y1);
                y2 = filler_run E (t_during t) y1
            in if p_max p \<le> p_read p \<or> p_read p < p_min p then
                 if c_eof (vars y2) \<and> p_max p \<le> p_read p then Some ([], update_status y2, ts1)
                 else if 30000 \<le> timer y2 - since then Some ([], y2, ts1)
                 else cache_read_loop E ts1 since size0 (y2\<lparr>timer := timer y2 + t_ms t\<rparr>)
               else
                 let (pos, newb) = read_extent (vars y2) p size0 in
                 if newb \<le> 0 \<or> pos < 0 \<or> buffer_size (vars y2) < pos + newb
                 then cache_read_loop E ts1 since size0 (y2\<lparr>timer := timer y2 + t_ms t\<rparr>)
                 else
                   let bs = take (nat newb) (drop (nat pos) (ring (vars y2)));
                       y3 = filler_run E (t_after t) y2;
                       y4 = y3\<lparr>vars := cache_pos_advance_read (vars y3) newb, timer := timer y3 + t_ms t\<rparr>
                   in map_option (\<lambda>(r, z). (bs @ r, z)) (cache_read_loop E ts1 (timer y4) (size0 - newb) y4))"

declare cache_read_loop.simps [simp del]

definition cache_read ::
  "'d cache_env \<Rightarrow> turn list \<Rightarrow> int \<Rightarrow> 'd cache_sys \<Rightarrow> (string \<times> 'd cache_sys \<times> turn list) option" where
  "cache_read E ts size0 y = cache_read_loop E ts (timer y) size0 y"

end
