(* ===== verification/Stream_Cache_Inv.thy ===== *)
theory Stream_Cache_Inv
  imports Stream_Cache
begin

text \<open>
  The safety of the read-ahead cache: the invariant that ties the ring to the data behind the driver, its
  preservation by every step of the worker and of the reader, and from it what the reader receives.
\<close>

section \<open>The invariant of the ring\<close>

text \<open>
  The ring holds the bytes \<open>[min, max)\<close> of the data \<open>fl\<close>, byte \<open>q\<close> at index \<open>slot c q\<close>. The worker's part says
  where its stream is: at \<open>max\<close> (\<open>sync\<close>), unless the reader is outside the window and a seek will follow; what
  its snapshot still means, although the reader has moved; that the place it reads into is free; and that
  the bytes it has read but not published are those that follow the window.
\<close>

definition slot :: "cache_vars \<Rightarrow> int \<Rightarrow> nat" where
  "slot c q = nat ((q - offset c) mod buffer_size c)"

definition cache_conf :: "cache_vars \<Rightarrow> bool" where
  "cache_conf c \<longleftrightarrow> 0 < sector_size c \<and> sector_size c \<le> fill_limit c \<and> 0 \<le> back_size c \<and>
     back_size c + fill_limit c \<le> buffer_size c \<and> buffer_size c < 2 ^ 31 \<and> length (ring c) = nat (buffer_size c)"

definition ring_ok :: "string \<Rightarrow> cache_vars \<Rightarrow> bool" where
  "ring_ok fl c \<longleftrightarrow> 0 \<le> min_filepos c \<and> min_filepos c \<le> max_filepos c \<and>
     max_filepos c - min_filepos c \<le> buffer_size c \<and> offset c \<le> max_filepos c \<and>
     max_filepos c < offset c + buffer_size c \<and> 0 \<le> read_filepos c \<and>
     (\<forall>q. min_filepos c \<le> q \<and> q < max_filepos c \<longrightarrow> q < int (length fl) \<and> ring c ! slot c q = fl ! nat q)"

definition in_window :: "cache_vars \<Rightarrow> bool" where
  "in_window c \<longleftrightarrow> min_filepos c \<le> read_filepos c \<and> read_filepos c \<le> max_filepos c"

definition sync :: "(int \<Rightarrow> 'd \<Rightarrow> bool) \<Rightarrow> int \<Rightarrow> 'd cache_sys \<Rightarrow> bool" where
  "sync placed q y \<longleftrightarrow> st_pos (cstream y) = q \<and> placed q (drv (cio y))"

definition plan_ok :: "fill_plan \<Rightarrow> cache_vars \<Rightarrow> bool" where
  "plan_ok pl c \<longleftrightarrow> f_pos pl = max_filepos c - offset c \<and> 0 < f_space pl \<and>
     (if f_wrap pl then f_space pl \<le> sector_size c else f_pos pl + f_space pl \<le> buffer_size c) \<and>
     max_filepos c + f_space pl - min_filepos c \<le> buffer_size c"

definition snap_ok :: "cache_pos \<Rightarrow> cache_vars \<Rightarrow> bool" where
  "snap_ok p c \<longleftrightarrow> p_min p = min_filepos c \<and> p_max p = max_filepos c \<and> p_offset p = offset c \<and> 0 \<le> p_read p \<and>
     p_read p \<le> read_filepos c \<and> (p_read p < p_min p \<or> p_max p < p_read p \<longrightarrow> p_read p = read_filepos c)"

fun filler_ok :: "string \<Rightarrow> (int \<Rightarrow> 'd \<Rightarrow> bool) \<Rightarrow> 'd cache_sys \<Rightarrow> bool" where
  "filler_ok fl placed y =
     (let c = vars y in
      case filler y of
        F_snap \<Rightarrow> sync placed (max_filepos c) y \<or> \<not> in_window c
      | F_act p \<Rightarrow> snap_ok p c \<and> (sync placed (max_filepos c) y \<or> p_read p < p_min p \<or> p_max p < p_read p)
      | F_read pl \<Rightarrow> plan_ok pl c \<and> sync placed (max_filepos c) y
      | F_commit pl len \<Rightarrow> plan_ok pl c \<and> sync placed (max_filepos c + len) y \<and> 0 \<le> len \<and> len \<le> f_space pl \<and>
          (\<forall>q. max_filepos c \<le> q \<and> q < max_filepos c + len \<longrightarrow> q < int (length fl) \<and> ring c ! slot c q = fl ! nat q)
      | _ \<Rightarrow> sync placed (max_filepos c) y)"

definition cache_inv :: "string \<Rightarrow> (int \<Rightarrow> 'd \<Rightarrow> bool) \<Rightarrow> 'd cache_sys \<Rightarrow> bool" where
  "cache_inv fl placed y \<longleftrightarrow> cache_conf (vars y) \<and> ring_ok fl (vars y) \<and> filler_ok fl placed y \<and>
     st_type (cstream y) \<noteq> STREAMTYPE_STREAM \<and> st_type (cstream y) \<noteq> STREAMTYPE_DS \<and> 0 \<le> st_pos (cstream y) \<and>
     (st_pos (cstream y) = 0 \<or> placed (st_pos (cstream y)) (drv (cio y))) \<and>
     0 \<le> st_read_chunk (cstream y) \<and> c_control (vars y) = - 1"

text \<open>What a step of the worker may do to the reader: its position stays, and a window that holds it only grows around it.\<close>

definition reader_kept :: "cache_vars \<Rightarrow> cache_vars \<Rightarrow> bool" where
  "reader_kept c c1 \<longleftrightarrow> read_filepos c1 = read_filepos c \<and> buffer_size c1 = buffer_size c \<and>
     (in_window c \<longrightarrow> in_window c1 \<and> max_filepos c \<le> max_filepos c1 \<and> (offset c1 - offset c) mod buffer_size c = 0)"

section \<open>Arithmetic of the ring\<close>

lemma c_int_id: "- (2 ^ 31) \<le> x \<Longrightarrow> x < 2 ^ 31 \<Longrightarrow> c_int x = x"
  by (simp add: c_int_def)

lemma c_int_range: "- (2 ^ 31) \<le> c_int x \<and> c_int x < 2 ^ 31"
  using pos_mod_bound [of "2 ^ 32" "x + 2 ^ 31"] pos_mod_sign [of "2 ^ 32" "x + 2 ^ 31"] by (simp add: c_int_def)

lemma length_mem_store: "0 \<le> i \<Longrightarrow> nat i + length bs \<le> length buf \<Longrightarrow> length (mem_store buf i bs) = length buf"
  by (simp add: mem_store_def)

lemma nth_mem_store:
  assumes "0 \<le> i" "i + int (length bs) \<le> int (length buf)" "k < length buf"
  shows "mem_store buf i bs ! k = (if i \<le> int k \<and> int k < i + int (length bs) then bs ! nat (int k - i) else buf ! k)"
proof -
  obtain n where n: "i = int n" using assms(1) nonneg_int_cases by blast
  have "n + length bs \<le> length buf" using assms(2) n by simp
  then have "mem_store buf i bs ! k = (if n \<le> k \<and> k < n + length bs then bs ! (k - n) else buf ! k)"
    using assms(3) by (auto simp: mem_store_def nth_append min_def n)
  moreover have "k - n = nat (int k - i)" "n \<le> k \<longleftrightarrow> i \<le> int k" "k < n + length bs \<longleftrightarrow> int k < i + int (length bs)"
    by (auto simp: n)
  ultimately show ?thesis by simp
qed

lemma mod_inj_window:
  fixes a b m n :: int
  assumes "a mod n = b mod n" "m \<le> a" "a < m + n" "m \<le> b" "b < m + n"
  shows "a = b"
proof -
  have "n dvd (a - b)" using assms(1) by (simp add: mod_eq_dvd_iff)
  moreover have "\<bar>a - b\<bar> < n" using assms(2-) by auto
  ultimately show ?thesis using zdvd_imp_le [of n "\<bar>a - b\<bar>"] by (metis abs_ge_zero abs_of_nonneg dvd_abs_iff eq_iff_diff_eq_0 leD le_less zero_less_abs_iff)
qed

lemma slot_less: "0 < buffer_size c \<Longrightarrow> slot c q < nat (buffer_size c)"
  by (simp add: slot_def)

lemma slot_at: "0 \<le> q - offset c \<Longrightarrow> q - offset c < buffer_size c \<Longrightarrow> slot c q = nat (q - offset c)"
  by (simp add: slot_def)

lemma slot_wrap:
  "buffer_size c \<le> q - offset c \<Longrightarrow> q - offset c < 2 * buffer_size c \<Longrightarrow> slot c q = nat (q - offset c - buffer_size c)"
  using mod_pos_pos_trivial [of "q - offset c - buffer_size c" "buffer_size c"]
  by (simp add: slot_def)

lemma slot_inj:
  "slot c a = slot c b \<Longrightarrow> 0 < buffer_size c \<Longrightarrow> m \<le> a \<Longrightarrow> a < m + buffer_size c \<Longrightarrow> m \<le> b \<Longrightarrow> b < m + buffer_size c \<Longrightarrow> a = b"
  by (rule mod_inj_window [of "a" "buffer_size c" b m])
     (auto simp: slot_def eq_nat_nat_iff mod_eq_dvd_iff)

section \<open>The worker keeps the invariant\<close>

text \<open>Fields of the shared variables that the invariant does not look at.\<close>

lemma vars_keep [simp]:
  "ring_ok fl (c\<lparr>c_eof := e\<rparr>) = ring_ok fl c" "cache_conf (c\<lparr>c_eof := e\<rparr>) = cache_conf c"
  "in_window (c\<lparr>c_eof := e\<rparr>) = in_window c" "slot (c\<lparr>c_eof := e\<rparr>) = slot c" "plan_ok pl (c\<lparr>c_eof := e\<rparr>) = plan_ok pl c"
  by (auto simp: ring_ok_def cache_conf_def in_window_def slot_def plan_ok_def fun_eq_iff)

lemma times_keep [simp]:
  "ring_ok fl (c\<lparr>stream_time_length := x\<rparr>) = ring_ok fl c" "ring_ok fl (c\<lparr>stream_time_pos := x\<rparr>) = ring_ok fl c"
  "ring_ok fl (c\<lparr>control_res := r\<rparr>) = ring_ok fl c" "ring_ok fl (c\<lparr>c_control := k\<rparr>) = ring_ok fl c"
  "cache_conf (c\<lparr>stream_time_length := x\<rparr>) = cache_conf c" "cache_conf (c\<lparr>stream_time_pos := x\<rparr>) = cache_conf c"
  "cache_conf (c\<lparr>control_res := r\<rparr>) = cache_conf c" "cache_conf (c\<lparr>c_control := k\<rparr>) = cache_conf c"
  by (auto simp: ring_ok_def cache_conf_def slot_def)

lemma reset_ok:
  "cache_conf c \<Longrightarrow> 0 \<le> q \<Longrightarrow> ring_ok fl (cache_pos_reset c q)"
  "cache_conf (cache_pos_reset c q) = cache_conf c"
  by (auto simp: ring_ok_def cache_conf_def cache_pos_reset_def)

lemmas cache_inv_defs = cache_inv_def Let_def sync_def

lemma fill_compute_ok:
  assumes "cache_conf c" "ring_ok fl c" "p = \<lparr>p_min = min_filepos c, p_max = max_filepos c, p_read = r, p_offset = offset c\<rparr>"
    "min_filepos c \<le> rd" "rd \<le> max_filepos c" "0 \<le> chunk" "fill_compute c chunk rd p = Some (pl, m)"
  defines "m1 \<equiv> (case m of None \<Rightarrow> min_filepos c | Some q \<Rightarrow> q)"
  shows "plan_ok pl (c\<lparr>min_filepos := m1\<rparr>)" "min_filepos c \<le> m1" "m1 \<le> rd"
proof -
  have w: "max_filepos c - min_filepos c \<le> buffer_size c" "buffer_size c < 2 ^ 31" "0 < sector_size c"
    "offset c \<le> max_filepos c" "max_filepos c < offset c + buffer_size c" "sector_size c \<le> fill_limit c"
    "0 \<le> back_size c"
    using assms(1,2) by (auto simp: cache_conf_def ring_ok_def)
  have i: "c_int (rd - min_filepos c) = rd - min_filepos c" "c_int (max_filepos c - rd) = max_filepos c - rd"
    "c_int (max_filepos c - offset c) = max_filepos c - offset c"
    using w assms(4,5) by (auto intro!: c_int_id)
  define kept where "kept = (if back_size c < rd - min_filepos c then back_size c else rd - min_filepos c)"
  define space0 where "space0 = buffer_size c - (max_filepos c - rd + kept)"
  define pos where "pos = max_filepos c - offset c"
  have b: "0 \<le> kept" "kept \<le> rd - min_filepos c" using w(7) assms(4) by (auto simp: kept_def)
  define wr where "wr = (buffer_size c - pos < space0 \<and> \<not> sector_size c \<le> buffer_size c - pos)"
  define sp where "sp = min (if buffer_size c - pos < space0 then
      if sector_size c \<le> buffer_size c - pos then buffer_size c - pos else sector_size c else space0)
    (if chunk = 0 then 4 * sector_size c else chunk)"
  define x where "x = rd - (buffer_size c - (sp + (max_filepos c - rd)))"
  have neg: "\<not> rd < min_filepos c" "\<not> max_filepos c < rd" "\<not> buffer_size c \<le> pos"
    using assms(4,5) w(5) by (auto simp: pos_def)
  have "fill_compute c chunk rd p = (if space0 < fill_limit c then None
    else Some (\<lparr>f_pos = pos, f_space = sp, f_wrap = wr\<rparr>, if min_filepos c < x then Some x else None))"
    unfolding fill_compute_def assms(3) cache_pos.simps i Let_def kept_def space0_def pos_def sp_def wr_def x_def
    by (simp only: neg [unfolded pos_def] if_False less_iff_diff_less_0 [symmetric] if_cancel)
  with assms(7) have lim: "fill_limit c \<le> space0" and pl: "f_pos pl = pos" "f_wrap pl = wr" "f_space pl = sp"
    and m: "m = (if min_filepos c < x then Some x else None)"
    by (auto split: if_splits)
  have sp: "0 < f_space pl" "f_space pl \<le> space0" using w lim assms(6) neg(3) by (auto simp: pl(3) sp_def split: if_splits)
  show "min_filepos c \<le> m1" "m1 \<le> rd" using sp b by (auto simp: m1_def m x_def pl(3) [symmetric] space0_def assms(4))
  have "max_filepos c + f_space pl - m1 \<le> buffer_size c" by (auto simp: m1_def m x_def pl(3))
  moreover have "if wr then sp \<le> sector_size c else pos + sp \<le> buffer_size c" by (auto simp: wr_def sp_def)
  ultimately show "plan_ok pl (c\<lparr>min_filepos := m1\<rparr>)" using sp(1) by (simp add: plan_ok_def pl pos_def split: if_splits)
qed

lemma fill_check_cases:
  assumes "fill_check E y = (go, y1)" "stream_reset (cops E) (cstream y) (cio y) = (s, io)"
  obtains "\<not> go" "y1 = y\<lparr>fill_status := - 1\<rparr>" | "go" "y1 = y"
    | "go" "\<not> in_window (vars y)" "y1 = y\<lparr>vars := (vars y)\<lparr>c_eof := False\<rparr>, cstream := s, cio := io\<rparr>"
proof -
  have "fill_check E y = (if c_eof (vars y) then if in_window (vars y) then (False, y\<lparr>fill_status := - 1\<rparr>)
      else (True, y\<lparr>vars := (vars y)\<lparr>c_eof := False\<rparr>, cstream := s, cio := io\<rparr>) else (True, y))"
    unfolding fill_check_def by (simp add: assms(2) Let_def in_window_def cache_pos_get_def)
  with assms(1) that show thesis by (metis prod.inject)
qed

locale cached_driver = seekable_driver "cops E" fl placed fill sk
  for E :: "'d cache_env" and fl :: string and placed :: "int \<Rightarrow> 'd \<Rightarrow> bool"
    and fill :: "stream \<Rightarrow> nat \<Rightarrow> 'd \<Rightarrow> (int + string) \<times> (bool \<times> int) \<times> 'd"
    and sk :: "stream \<Rightarrow> int \<Rightarrow> 'd \<Rightarrow> bool \<times> stream \<times> 'd" +
  assumes net_law: "placed q d \<Longrightarrow> placed q (check_network E d)"
begin

abbreviation inv :: "'d cache_sys \<Rightarrow> bool" where
  "inv \<equiv> cache_inv fl placed"

lemma check_keeps:
  assumes "inv y" "filler y = F_check" "fill_check E y = (go, y1)"
  shows "inv (y1\<lparr>filler := (if go then F_snap else F_control)\<rparr>) \<and> reader_kept (vars y) (vars y1)"
proof -
  obtain s io where r: "stream_reset (cops E) (cstream y) (cio y) = (s, io)" by fastforce
  note reset = reset_cases [OF r, of "st_pos (cstream y)"]
  from assms(3) r consider "\<not> go" "y1 = y\<lparr>fill_status := - 1\<rparr>" | "go" "y1 = y"
    | "go" "\<not> in_window (vars y)" "y1 = y\<lparr>vars := (vars y)\<lparr>c_eof := False\<rparr>, cstream := s, cio := io\<rparr>"
    by (rule fill_check_cases)
  then show ?thesis
  proof cases
    case 1
    with assms(1,2) show ?thesis by (simp add: cache_inv_defs reader_kept_def)
  next
    case 2
    with assms(1,2) show ?thesis by (simp add: cache_inv_defs reader_kept_def)
  next
    case 3
    with assms(1,2) reset show ?thesis
      by (simp add: cache_inv_defs reader_kept_def split: if_splits)
  qed
qed

lemma snap_keeps:
  "inv y \<Longrightarrow> filler y = F_snap \<Longrightarrow> inv (y\<lparr>filler := F_act (cache_pos_get (vars y))\<rparr>) \<and> reader_kept (vars y) (vars y)"
  by (auto simp: cache_inv_defs snap_ok_def cache_pos_get_def in_window_def reader_kept_def ring_ok_def)

lemma seek_keeps:
  assumes "inv y" "filler y = F_act p0" "fill_seek E p0 y = (p, y1)"
  shows "p = \<lparr>p_min = min_filepos (vars y1), p_max = max_filepos (vars y1), p_read = p_read p, p_offset = offset (vars y1)\<rparr>"
    "min_filepos (vars y1) \<le> p_read p0" "p_read p0 \<le> max_filepos (vars y1)" "p_read p0 \<le> read_filepos (vars y1)"
    "inv (y1\<lparr>filler := F_control\<rparr>)" "reader_kept (vars y) (vars y1)"
proof -
  have i: "snap_ok p0 (vars y)" "cache_conf (vars y)" "ring_ok fl (vars y)"
    "sync placed (max_filepos (vars y)) y \<or> p_read p0 < p_min p0 \<or> p_max p0 < p_read p0"
    "st_type (cstream y) \<noteq> STREAMTYPE_STREAM"
    using assms(1,2) by (auto simp: cache_inv_defs)
  have "p = \<lparr>p_min = min_filepos (vars y1), p_max = max_filepos (vars y1), p_read = p_read p, p_offset = offset (vars y1)\<rparr> \<and>
    min_filepos (vars y1) \<le> p_read p0 \<and> p_read p0 \<le> max_filepos (vars y1) \<and> p_read p0 \<le> read_filepos (vars y1) \<and>
    inv (y1\<lparr>filler := F_control\<rparr>) \<and> reader_kept (vars y) (vars y1)"
  proof (cases "p_read p0 < p_min p0 \<or> p_max p0 < p_read p0")
    case False
    with assms(3) have "p = p0 \<and> y1 = y" by (auto simp: fill_seek_def)
    with False i assms(1,2) show ?thesis
      by (auto simp: cache_inv_defs snap_ok_def reader_kept_def)
  next
    case True
    then have rd: "p_read p0 = read_filepos (vars y)" "0 \<le> p_read p0" using i(1) by (auto simp: snap_ok_def)
    obtain s1 io1 where r: "(if st_eof (cstream y) then stream_reset (cops E) (cstream y) (cio y) else (cstream y, cio y)) = (s1, io1)"
      by fastforce
    have s1: "st_type s1 = st_type (cstream y)" "st_read_chunk s1 = st_read_chunk (cstream y)"
      using r reset_cases [of "cstream y" "cio y" s1 io1] by (auto split: if_splits)
    obtain e s2 io2 where k: "stream_seek_internal (cops E) s1 (p_read p0) io1 = (e, s2, io2)" by (metis surj_pair)
    have y1: "y1 = y\<lparr>vars := cache_flush (vars y), cstream := s2, cio := io2\<rparr>" "p = cache_pos_get (cache_flush (vars y))"
      using assms(3) True i(5) r k by (auto simp: fill_seek_def Let_def)
    have "p_read p0 \<noteq> 0 \<longrightarrow> p_read p0 = st_pos s1 \<longrightarrow> placed (p_read p0) (drv io1)"
      using r reset_cases [of "cstream y" "cio y" s1 io1 "st_pos (cstream y)"] assms(1)
      by (auto simp: cache_inv_def split: if_splits)
    from seek_to [OF rd(2) _ this k] i(5) s1 have
      "s2 = s1\<lparr>st_pos := p_read p0\<rparr>" "placed (p_read p0) (drv io2)" by auto
    then have s2: "st_type s2 = st_type (cstream y)" "st_read_chunk s2 = st_read_chunk (cstream y)"
      "st_pos s2 = p_read p0" "placed (p_read p0) (drv io2)" using s1 by auto
    have c: "vars y1 = cache_pos_reset (vars y) (p_read p0)" "c_control (vars y) = - 1"
      using y1 rd assms(1) by (auto simp: cache_flush_def cache_pos_get_def cache_inv_def)
    have "\<not> in_window (vars y)" using True i(1) rd(1) by (auto simp: snap_ok_def in_window_def)
    with y1 c rd s2 i reset_ok(1) [OF i(2) rd(2)] reset_ok(2) [of "vars y" "p_read p0"] assms(1) show ?thesis
      by (simp add: cache_inv_defs cache_pos_get_def cache_pos_reset_def reader_kept_def)
  qed
  then show "p = \<lparr>p_min = min_filepos (vars y1), p_max = max_filepos (vars y1), p_read = p_read p, p_offset = offset (vars y1)\<rparr>"
    "min_filepos (vars y1) \<le> p_read p0" "p_read p0 \<le> max_filepos (vars y1)" "p_read p0 \<le> read_filepos (vars y1)"
    "inv (y1\<lparr>filler := F_control\<rparr>)" "reader_kept (vars y) (vars y1)"
    by blast+
qed

end

lemma plan_slots:
  assumes "cache_conf c" "plan_ok pl c" "offset c \<le> max_filepos c" "max_filepos c < offset c + buffer_size c"
  shows "0 \<le> f_pos pl" "f_pos pl < buffer_size c" "f_space pl \<le> buffer_size c"
    "f_pos pl + f_space pl < 2 * buffer_size c"
    "0 \<le> j \<Longrightarrow> j < f_space pl \<Longrightarrow> slot c (max_filepos c + j) =
       nat (if f_pos pl + j < buffer_size c then f_pos pl + j else f_pos pl + j - buffer_size c)"
proof -
  show b: "0 \<le> f_pos pl" "f_pos pl < buffer_size c" "f_space pl \<le> buffer_size c" "f_pos pl + f_space pl < 2 * buffer_size c"
    using assms by (auto simp: plan_ok_def cache_conf_def split: if_splits)
  assume "0 \<le> j" "j < f_space pl"
  with b assms(2) show "slot c (max_filepos c + j) =
       nat (if f_pos pl + j < buffer_size c then f_pos pl + j else f_pos pl + j - buffer_size c)"
    using slot_at [of "max_filepos c + j" c] slot_wrap [of c "max_filepos c + j"] by (auto simp: plan_ok_def add_diff_eq)
qed

text \<open>Storing \<open>bs\<close> at the end of the window, with or without the bounce buffer, puts byte \<open>j\<close> at its slot and leaves the window alone.\<close>

definition fill_store :: "fill_plan \<Rightarrow> string \<Rightarrow> cache_vars \<Rightarrow> string" where
  "fill_store pl bs c =
     (if f_wrap pl then
        let to_copy = min (int (length bs)) (buffer_size c - f_pos pl)
        in mem_store (mem_store (ring c) (f_pos pl) (take (nat to_copy) bs)) 0 (drop (nat to_copy) bs)
      else mem_store (ring c) (f_pos pl) bs)"

lemma fill_store_nth:
  assumes "cache_conf c" "plan_ok pl c" "offset c \<le> max_filepos c" "max_filepos c < offset c + buffer_size c"
    "int (length bs) \<le> f_space pl" "k < nat (buffer_size c)"
  shows "length (fill_store pl bs c) = length (ring c)"
    "fill_store pl bs c ! k =
      (if f_pos pl \<le> int k \<and> int k < f_pos pl + int (length bs) then bs ! nat (int k - f_pos pl)
       else if int k + buffer_size c < f_pos pl + int (length bs) then bs ! nat (int k + buffer_size c - f_pos pl)
       else ring c ! k)"
proof -
  note pb = plan_slots(1-4) [OF assms(1-4)]
  have rl: "length (ring c) = nat (buffer_size c)" using assms(1) by (simp add: cache_conf_def)
  define tc where "tc = min (int (length bs)) (buffer_size c - f_pos pl)"
  have tc: "0 \<le> tc" "nat (f_pos pl) + length (take (nat tc) bs) \<le> length (ring c)"
    "length (drop (nat tc) bs) \<le> nat (f_pos pl)" "nat tc \<le> length bs"
    using pb rl assms(5) assms(2) by (auto simp: tc_def min_def plan_ok_def)
  have nw: "\<not> f_wrap pl \<Longrightarrow> nat (f_pos pl) + length bs \<le> length (ring c)"
    using pb(1) rl assms(2,5) by (auto simp: plan_ok_def)
  show "length (fill_store pl bs c) = length (ring c)"
    using tc nw pb(1) by (auto simp: fill_store_def tc_def [symmetric] length_mem_store Let_def)
  show "fill_store pl bs c ! k =
      (if f_pos pl \<le> int k \<and> int k < f_pos pl + int (length bs) then bs ! nat (int k - f_pos pl)
       else if int k + buffer_size c < f_pos pl + int (length bs) then bs ! nat (int k + buffer_size c - f_pos pl)
       else ring c ! k)"
  proof (cases "f_wrap pl")
    case False
    with assms(2,5) have "f_pos pl + int (length bs) \<le> buffer_size c" by (simp add: plan_ok_def)
    with False rl pb(1) assms(6) show ?thesis by (simp add: fill_store_def nth_mem_store)
  next
    case True
    let ?r = "mem_store (ring c) (f_pos pl) (take (nat tc) bs)" and ?d = "drop (nat tc) bs"
    have len: "length ?r = length (ring c)" using tc(2) pb(1) by (intro length_mem_store) auto
    have tk: "int (length (take (nat tc) bs)) = tc" "f_pos pl + tc \<le> int (length (ring c))" "int (length ?d) \<le> int (length (ring c))"
      using tc rl pb(1,2) by auto
    have "int k < f_pos pl + tc \<longleftrightarrow> int k < f_pos pl + int (length bs)" using assms(6) by (auto simp: tc_def min_def)
    then have lo: "?r ! k = (if f_pos pl \<le> int k \<and> int k < f_pos pl + int (length bs) then bs ! nat (int k - f_pos pl) else ring c ! k)"
      using nth_mem_store [of "f_pos pl" "take (nat tc) bs" "ring c" k, unfolded tk(1), OF pb(1) tk(2)] rl assms(6)
      by auto
    have "fill_store pl bs c ! k = (if k < length ?d then ?d ! k else ?r ! k)"
      using True tk(3) rl assms(6) by (simp add: fill_store_def tc_def [symmetric] nth_mem_store len)
    moreover have "k < length ?d \<longleftrightarrow> int k + buffer_size c < f_pos pl + int (length bs)"
    proof (cases "int (length bs) \<le> buffer_size c - f_pos pl")
      case True
      then show ?thesis by (auto simp: tc_def)
    next
      case False
      then have "tc = buffer_size c - f_pos pl" by (simp add: tc_def)
      with pb(2) show ?thesis by auto
    qed
    moreover have "?d ! k = bs ! nat (int k + buffer_size c - f_pos pl)" "int k < f_pos pl" if "k < length ?d"
    proof -
      have "tc = buffer_size c - f_pos pl" using that by (auto simp: tc_def min_def)
      then have "nat tc + k = nat (int k + buffer_size c - f_pos pl)" using pb(2) by auto
      then show "?d ! k = bs ! nat (int k + buffer_size c - f_pos pl)" using tc(4) by simp
      show "int k < f_pos pl" using that tc(3) pb(1) by linarith
    qed
    ultimately show ?thesis by (auto simp: lo)
  qed
qed

lemma fill_store_slot:
  assumes "cache_conf c" "plan_ok pl c" "offset c \<le> max_filepos c" "max_filepos c < offset c + buffer_size c"
    "int (length bs) \<le> f_space pl"
  shows "0 \<le> j \<Longrightarrow> j < int (length bs) \<Longrightarrow> fill_store pl bs c ! slot c (max_filepos c + j) = bs ! nat j"
    "min_filepos c \<le> q \<Longrightarrow> q < max_filepos c \<Longrightarrow> fill_store pl bs c ! slot c q = ring c ! slot c q"
proof -
  note pb = plan_slots [OF assms(1-4)]
  have bs: "0 < buffer_size c" using pb(1,2) by simp
  note nth = fill_store_nth(2) [OF assms(1-5) slot_less [OF bs]]
  show "fill_store pl bs c ! slot c (max_filepos c + j) = bs ! nat j" if "0 \<le> j" "j < int (length bs)"
    using nth [of "max_filepos c + j"] pb(5) [of j] that assms(5) pb(1,3) by auto
  show "fill_store pl bs c ! slot c q = ring c ! slot c q" if q: "min_filepos c \<le> q" "q < max_filepos c"
  proof -
    have no: "slot c (max_filepos c + j) \<noteq> slot c q" if "0 \<le> j" "j < int (length bs)" for j
      using slot_inj [of c "max_filepos c + j" q "min_filepos c"] bs that q assms(2,5)
      by (auto simp: plan_ok_def)
    have "\<not> (f_pos pl \<le> int (slot c q) \<and> int (slot c q) < f_pos pl + int (length bs))"
      using no [of "int (slot c q) - f_pos pl"] pb(5) [of "int (slot c q) - f_pos pl"] slot_less [OF bs, of q] assms(5)
      by (auto split: if_splits)
    moreover have "\<not> int (slot c q) + buffer_size c < f_pos pl + int (length bs)"
      using no [of "int (slot c q) + buffer_size c - f_pos pl"] pb(2) pb(5) [of "int (slot c q) + buffer_size c - f_pos pl"] assms(5)
      by (auto split: if_splits)
    ultimately show ?thesis by (auto simp: nth)
  qed
qed

context cached_driver
begin

lemma act_keeps:
  assumes "inv y" "filler y = F_act p" "fill_act E p y = (pl, y1)"
  shows "inv (y1\<lparr>filler := (case pl of None \<Rightarrow> F_control | Some pl \<Rightarrow> F_read pl)\<rparr>) \<and> reader_kept (vars y) (vars y1)"
proof -
  obtain p1 y2 where s: "fill_seek E p y = (p1, y2)" by fastforce
  note sk = seek_keeps [OF assms(1,2) s]
  have i: "cache_conf (vars y2)" "ring_ok fl (vars y2)" "0 \<le> st_read_chunk (cstream y2)" "sync placed (max_filepos (vars y2)) y2"
    using sk(5) by (auto simp: cache_inv_def Let_def sync_def)
  show ?thesis
  proof (cases "fill_compute (vars y2) (st_read_chunk (cstream y2)) (p_read p) p1")
    case None
    with assms(3) have "pl = None \<and> y1 = update_status y2" by (simp add: fill_act_def s)
    with sk(5,6) show ?thesis by (simp add: update_status_def cache_inv_def sync_def)
  next
    case (Some r)
    obtain pl1 m where r: "r = (pl1, m)" by fastforce
    define m1 where "m1 = (case m of None \<Rightarrow> min_filepos (vars y2) | Some q \<Rightarrow> q)"
    note fc = fill_compute_ok [OF i(1,2) sk(1-3) i(3) Some [unfolded r], folded m1_def]
    have y1: "pl = Some pl1" "y1 = y2\<lparr>vars := (vars y2)\<lparr>min_filepos := m1\<rparr>\<rparr>"
      using assms(3) by (auto simp: fill_act_def s Some r m1_def cache_pos_set_min_def split: option.splits)
    have "cache_conf ((vars y2)\<lparr>min_filepos := m1\<rparr>)" using i(1) by (simp add: cache_conf_def)
    moreover have "ring_ok fl ((vars y2)\<lparr>min_filepos := m1\<rparr>)"
      using i(2) fc(2,3) sk(3) by (auto simp: ring_ok_def slot_def)
    moreover have "reader_kept (vars y) ((vars y2)\<lparr>min_filepos := m1\<rparr>)"
      using sk(4,6) fc(2,3) by (auto simp: reader_kept_def in_window_def)
    ultimately show ?thesis using sk(5) fc(1) i(4) by (simp add: y1 cache_inv_def Let_def sync_def)
  qed
qed

lemma read_keeps:
  assumes "inv y" "filler y = F_read pl" "fill_read E pl y = (len, y1)"
  shows "inv (y1\<lparr>filler := F_commit pl len\<rparr>) \<and> reader_kept (vars y) (vars y1)"
proof -
  let ?c = "vars y"
  obtain n bs s io where r: "stream_read_internal (cops E) (cstream y) (f_space pl) (cio y) = ((n, bs), s, io)"
    by (metis surj_pair)
  have i: "plan_ok pl ?c" "cache_conf ?c" "ring_ok fl ?c" "st_pos (cstream y) = max_filepos ?c"
    "placed (st_pos (cstream y)) (drv (cio y))" "seekable (cstream y)" "0 \<le> st_read_chunk (cstream y)" "c_control ?c = - 1"
    using assms(1,2) by (auto simp: cache_inv_def Let_def sync_def seekable_def)
  note law = read_law [OF i(6,5) r]
  note ok = stream_read_internal_ok [OF r]
  have off: "offset ?c \<le> max_filepos ?c" "max_filepos ?c < offset ?c + buffer_size ?c" "0 \<le> max_filepos ?c"
    using i(3) by (auto simp: ring_ok_def)
  have n: "n \<le> f_space pl" "int (length bs) \<le> f_space pl" using ok i(1) by (auto simp: plan_ok_def)
  note st = fill_store_slot [OF i(2,1) off(1,2) n(2)]
  have y1: "len = n" "vars y1 = ?c\<lparr>ring := fill_store pl bs ?c\<rparr>" "cio y1 = io" "st_pos (cstream y1) = st_pos s"
    "st_type (cstream y1) = st_type s" "st_read_chunk (cstream y1) = st_read_chunk s"
    using assms(3) ok(2) by (auto simp: fill_read_def r fill_store_def Let_def split: if_splits)
  have new: "q < int (length fl) \<and> fill_store pl bs ?c ! slot ?c q = fl ! nat q"
    if "max_filepos ?c \<le> q" "q < max_filepos ?c + n" for q
  proof -
    have e: "bs = take (nat n) (drop (nat (max_filepos ?c)) fl)" using law(1) i(4) by simp
    from arg_cong [OF this, of length] have "nat (max_filepos ?c) + nat n \<le> length fl"
      using ok(2) that by (simp add: min_def split: if_splits)
    moreover from this have "bs ! k = fl ! (nat (max_filepos ?c) + k)" if "k < nat n" for k
      using that by (subst e) simp
    moreover have "nat (q - max_filepos ?c) < nat n" "nat (max_filepos ?c) + nat (q - max_filepos ?c) = nat q" using that off by auto
    ultimately show ?thesis using st(1) [of "q - max_filepos ?c"] that ok(2) off(3) by force
  qed
  have bsz: "0 < nat (buffer_size ?c)" using off by simp
  have "cache_conf (?c\<lparr>ring := fill_store pl bs ?c\<rparr>)"
    using i(2) fill_store_nth(1) [OF i(2,1) off(1,2) n(2) bsz] by (simp add: cache_conf_def)
  moreover have "ring_ok fl (?c\<lparr>ring := fill_store pl bs ?c\<rparr>)"
    using i(3) st(2) by (simp add: ring_ok_def slot_def)
  moreover have "plan_ok pl (?c\<lparr>ring := fill_store pl bs ?c\<rparr>)" using i(1) by (auto simp: plan_ok_def)
  ultimately show ?thesis using law ok(1) n(1) i(4,6,7,8) new y1
    by (simp add: cache_inv_def Let_def sync_def reader_kept_def in_window_def slot_def seekable_def same_conf_def)
qed

end

text \<open>Publishing \<open>len\<close> bytes keeps the index of every byte.\<close>

lemma commit_slot:
  "slot (cache_pos_commit_fill c len w) q = slot c q"
proof -
  have "(q - (offset c + buffer_size c)) mod buffer_size c = (q - offset c) mod buffer_size c"
    using minus_mod_self2 [of "q - offset c" "buffer_size c"] by (simp add: algebra_simps)
  then show ?thesis by (simp add: slot_def cache_pos_commit_fill_def)
qed

lemma commit_ok:
  assumes "cache_conf c" "ring_ok fl c" "plan_ok pl c" "0 \<le> len" "len \<le> f_space pl"
    "\<forall>q. max_filepos c \<le> q \<and> q < max_filepos c + len \<longrightarrow> q < int (length fl) \<and> ring c ! slot c q = fl ! nat q"
  defines "c1 \<equiv> cache_pos_commit_fill c len (buffer_size c \<le> f_pos pl + len)"
  shows "cache_conf c1" "ring_ok fl c1" "reader_kept c c1"
proof -
  show "cache_conf c1" using assms(1) by (simp add: c1_def cache_pos_commit_fill_def cache_conf_def)
  have off: "offset c \<le> max_filepos c" "max_filepos c < offset c + buffer_size c" using assms(2) by (auto simp: ring_ok_def)
  note pb = plan_slots(1-4) [OF assms(1,3) off]
  have b: "offset c1 \<le> max_filepos c1" "max_filepos c1 < offset c1 + buffer_size c1"
    using pb assms(3-5) off by (auto simp: c1_def cache_pos_commit_fill_def plan_ok_def)
  have "\<forall>q. min_filepos c1 \<le> q \<and> q < max_filepos c1 \<longrightarrow> q < int (length fl) \<and> ring c1 ! slot c1 q = fl ! nat q"
    using assms(2,6) unfolding c1_def commit_slot by (auto simp: ring_ok_def cache_pos_commit_fill_def) (metis not_le)+
  with b assms(2-5) show "ring_ok fl c1" by (auto simp: ring_ok_def c1_def cache_pos_commit_fill_def plan_ok_def)
  show "reader_kept c c1" using assms(4) by (auto simp: reader_kept_def in_window_def c1_def cache_pos_commit_fill_def)
qed

context cached_driver
begin

lemma empty_keeps:
  obtains e er where "vars (fill_empty E y) = (vars y)\<lparr>c_eof := e\<rparr>"
    "cstream (fill_empty E y) = (cstream y)\<lparr>st_error := er\<rparr>"
    "placed q (drv (cio y)) \<longrightarrow> placed q (drv (cio (fill_empty E y)))"
proof (rule that [of "c_eof (vars (fill_empty E y))" "st_error (cstream (fill_empty E y))"])
  show "vars (fill_empty E y) = (vars y)\<lparr>c_eof := c_eof (vars (fill_empty E y))\<rparr>"
    "cstream (fill_empty E y) = (cstream y)\<lparr>st_error := st_error (cstream (fill_empty E y))\<rparr>"
    "placed q (drv (cio y)) \<longrightarrow> placed q (drv (cio (fill_empty E y)))"
    by (simp_all add: fill_empty_def update_status_def Let_def net_law)
qed

lemma commit_keeps:
  assumes "inv y" "filler y = F_commit pl len"
  shows "inv ((fill_commit E pl len y)\<lparr>filler := F_control\<rparr>) \<and> reader_kept (vars y) (vars (fill_commit E pl len y))"
proof -
  define y1 where "y1 = (if len = 0 then fill_empty E y else y\<lparr>cstream := (cstream y)\<lparr>st_error := 0\<rparr>\<rparr>)"
  obtain e er where v: "vars y1 = (vars y)\<lparr>c_eof := e\<rparr>" and s: "cstream y1 = (cstream y)\<lparr>st_error := er\<rparr>"
    and d: "placed (max_filepos (vars y) + len) (drv (cio y)) \<longrightarrow> placed (max_filepos (vars y) + len) (drv (cio y1))"
  proof (cases "len = 0")
    case True
    show thesis
      by (rule empty_keeps [of y "max_filepos (vars y) + len"], rule that) (simp_all add: y1_def True)
  next
    case False
    then show thesis using that [of "c_eof (vars y)" 0] by (simp add: y1_def)
  qed
  have i: "plan_ok pl (vars y)" "cache_conf (vars y)" "ring_ok fl (vars y)" "0 \<le> len" "len \<le> f_space pl"
    "st_pos (cstream y) = max_filepos (vars y) + len" "placed (max_filepos (vars y) + len) (drv (cio y))"
    "\<forall>q. max_filepos (vars y) \<le> q \<and> q < max_filepos (vars y) + len \<longrightarrow>
       q < int (length fl) \<and> ring (vars y) ! slot (vars y) q = fl ! nat q"
    using assms by (auto simp: cache_inv_def Let_def sync_def)
  have pl: "placed (max_filepos (vars y) + len) (drv (cio y1))" using d i(7) by simp
  let ?c = "cache_pos_commit_fill (vars y1) len (buffer_size (vars y1) \<le> f_pos pl + len)"
  have f: "fill_commit E pl len y = update_status (y1\<lparr>vars := ?c\<rparr>)" by (simp add: fill_commit_def y1_def Let_def)
  have "cache_conf (vars y1)" "ring_ok fl (vars y1)" "plan_ok pl (vars y1)"
    "\<forall>q. max_filepos (vars y1) \<le> q \<and> q < max_filepos (vars y1) + len \<longrightarrow>
       q < int (length fl) \<and> ring (vars y1) ! slot (vars y1) q = fl ! nat q"
    using i by (auto simp: v)
  from commit_ok [OF this(1-3) i(4,5) this(4)]
  have "cache_conf ?c" "ring_ok fl ?c" "reader_kept (vars y1) ?c" by auto
  with i pl assms(1) s show ?thesis
    by (simp add: f update_status_def cache_inv_def Let_def sync_def reader_kept_def)
       (simp add: v in_window_def cache_pos_commit_fill_def)
qed

end

lemma reader_kept_refl: "reader_kept c c"
  by (simp add: reader_kept_def)

lemma reader_kept_trans:
  assumes "reader_kept c c1" "reader_kept c1 c2"
  shows "reader_kept c c2"
proof -
  have "(offset c2 - offset c) mod n = 0" if "(offset c2 - offset c1) mod n = 0" "(offset c1 - offset c) mod n = 0" for n
    using that mod_add_cong [of "offset c2 - offset c1" n 0 "offset c1 - offset c" 0] by simp
  with assms show ?thesis by (auto simp: reader_kept_def)
qed

context cached_driver
begin

lemma quiet_control:
  assumes "call_control E cmd arg y = (r, a, y1)" "cmd \<in> {STREAM_CTRL_GET_TIME_LENGTH, STREAM_CTRL_GET_CURRENT_TIME}"
  shows "\<exists>io. y1 = y\<lparr>cio := io\<rparr> \<and> (placed q (drv (cio y)) \<longrightarrow> placed q (drv io))"
proof (cases "control (cops E)")
  case None
  then show ?thesis using assms(1) by (intro exI [of _ "cio y"]) (simp add: call_control_def)
next
  case (Some ctl)
  obtain r' a' s d where c: "ctl (cstream y) cmd arg (drv (cio y)) = (r', a', s, d)" by (metis surj_pair)
  with quiet_law [OF Some _ c, of q] assms show ?thesis
    by (intro exI [of _ "(cio y)\<lparr>drv := d\<rparr>"]) (auto simp: call_control_def Some)
qed

lemma poll_keeps:
  obtains l p where "vars (poll_times E y) = (vars y)\<lparr>stream_time_length := l, stream_time_pos := p\<rparr>"
    "cstream (poll_times E y) = cstream y" "placed q (drv (cio y)) \<longrightarrow> placed q (drv (cio (poll_times E y)))"
proof (cases "99 < timer y - ctl_last y")
  case True
  obtain r1 a1 y1 where c1: "call_control E STREAM_CTRL_GET_TIME_LENGTH Ctrl_none y = (r1, a1, y1)" by (metis surj_pair)
  from quiet_control [OF c1, of q] obtain io1 where
    y1: "y1 = y\<lparr>cio := io1\<rparr>" "placed q (drv (cio y)) \<longrightarrow> placed q (drv io1)" by auto
  define l where "l = (if r1 = STREAM_OK then got_double a1 0 else 0)"
  define y2 where "y2 = y\<lparr>cio := io1, vars := (vars y)\<lparr>stream_time_length := l\<rparr>\<rparr>"
  obtain r2 a2 y3 where c2: "call_control E STREAM_CTRL_GET_CURRENT_TIME Ctrl_none y2 = (r2, a2, y3)" by (metis surj_pair)
  from quiet_control [OF c2, of q] obtain io2 where
    y3: "y3 = y2\<lparr>cio := io2\<rparr>" "placed q (drv (cio y2)) \<longrightarrow> placed q (drv io2)" by auto
  define p where "p = (if r2 = STREAM_OK then got_double a2 0 else MP_NOPTS_VALUE)"
  have "y1\<lparr>vars := (vars y1)\<lparr>stream_time_length := l\<rparr>\<rparr> = y2" by (simp add: y1(1) y2_def)
  then have "poll_times E y = y3\<lparr>vars := (vars y3)\<lparr>stream_time_pos := p\<rparr>, ctl_last := timer y\<rparr>"
    using True c2 by (simp add: poll_times_def c1 Let_def l_def [symmetric] p_def)
  with y1(2) y3 show thesis by (intro that [of p l]) (simp_all add: y2_def)
next
  case False
  then have "poll_times E y = y" by (simp add: poll_times_def)
  then show thesis using that [of "stream_time_pos (vars y)" "stream_time_length (vars y)"] by simp
qed

lemma control_keeps:
  assumes "inv y" "filler y = F_control" "cache_execute_control E y = (again, y1)"
  shows "inv (y1\<lparr>filler := F_check\<rparr>) \<and> inv (y1\<lparr>filler := F_exit\<rparr>) \<and> reader_kept (vars y) (vars y1)"
proof (cases "control (cops E)")
  case None
  with assms show ?thesis
    by (auto simp: cache_execute_control_def cache_inv_def Let_def sync_def reader_kept_def in_window_def)
next
  case (Some ctl)
  obtain l p where v: "vars (poll_times E y) = (vars y)\<lparr>stream_time_length := l, stream_time_pos := p\<rparr>"
    "cstream (poll_times E y) = cstream y"
    "placed (st_pos (cstream y)) (drv (cio y)) \<longrightarrow> placed (st_pos (cstream y)) (drv (cio (poll_times E y)))"
    by (rule poll_keeps)
  from assms(1) have "c_control (vars y) = - 1" by (simp add: cache_inv_def)
  with assms(3) Some v(1) have "y1 = poll_times E y" by (simp add: cache_execute_control_def Let_def)
  with assms(1,2) v show ?thesis
    by (auto simp: cache_inv_def Let_def sync_def reader_kept_def in_window_def)
qed

theorem filler_step_keeps:
  assumes "inv y"
  shows "inv (filler_step E stop y) \<and> reader_kept (vars y) (vars (filler_step E stop y))"
proof (cases "filler y")
  case F_check
  obtain r y1 where f: "fill_check E y = (r, y1)" by fastforce
  from check_keeps [OF assms F_check f] show ?thesis by (simp add: filler_step.simps F_check f)
next
  case (F_act p)
  obtain r y1 where f: "fill_act E p y = (r, y1)" by fastforce
  from act_keeps [OF assms F_act f] show ?thesis by (simp add: filler_step.simps F_act f)
next
  case (F_read pl)
  obtain r y1 where f: "fill_read E pl y = (r, y1)" by fastforce
  from read_keeps [OF assms F_read f] show ?thesis by (simp add: filler_step.simps F_read f)
next
  case F_control
  obtain r y1 where f: "cache_execute_control E y = (r, y1)" by fastforce
  from control_keeps [OF assms F_control f] show ?thesis by (simp add: filler_step.simps F_control f)
qed (use assms snap_keeps commit_keeps reader_kept_refl in \<open>simp_all add: filler_step.simps\<close>)

lemma filler_run_keeps:
  "inv y \<Longrightarrow> inv (filler_run E k y) \<and> reader_kept (vars y) (vars (filler_run E k y))"
proof (induction k arbitrary: y)
  case (Suc k)
  from Suc.IH [of "filler_step E False y"] filler_step_keeps [OF Suc.prems, of False] show ?case
    by (auto intro: reader_kept_trans)
qed (simp add: reader_kept_refl)

end

section \<open>What the reader receives\<close>

lemma wait_div: "0 < a \<Longrightarrow> 10 \<le> m \<Longrightarrow> (a - m + 9) div 10 < (a + 9) div (10 :: nat)"
proof (cases "a \<le> m")
  case False
  assume "10 \<le> m"
  with False have "(a - m + 9) + 10 \<le> a + 9" by simp
  then have "((a - m + 9) + 10) div 10 \<le> (a + 9) div 10" by (rule div_le_mono)
  then show ?thesis by simp
qed simp

lemma extent_ok:
  assumes "cache_conf c1" "ring_ok fl c1" "min_filepos c1 \<le> read_filepos c1" "read_filepos c1 < max_filepos c1"
    "buffer_size c = buffer_size c1" "0 < n" "read_extent c (cache_pos_get c1) n = (pos, newb)"
  shows "0 \<le> pos" "0 < newb" "pos + newb \<le> buffer_size c1" "newb \<le> n" "newb \<le> max_filepos c1 - read_filepos c1"
    "0 \<le> i \<Longrightarrow> i < newb \<Longrightarrow> slot c1 (read_filepos c1 + i) = nat (pos + i)"
proof -
  let ?b = "buffer_size c1" and ?x = "read_filepos c1 - offset c1"
  have w: "max_filepos c1 - min_filepos c1 \<le> ?b" "offset c1 \<le> max_filepos c1" "max_filepos c1 < offset c1 + ?b" "?b < 2 ^ 31"
    using assms(1,2) by (auto simp: ring_ok_def cache_conf_def)
  have x: "- ?b \<le> ?x" "?x < ?b" using w assms(3,4) by auto
  have i: "c_int (max_filepos c1 - read_filepos c1) = max_filepos c1 - read_filepos c1" "c_int ?x = ?x"
    using w x assms(3,4) by (auto intro!: c_int_id)
  have pos: "pos = (if ?x < 0 then ?x + ?b else ?x)" and
    newb: "newb = min n (min (?b - pos) (max_filepos c1 - read_filepos c1))"
    using assms(7) x by (auto simp: read_extent_def cache_pos_get_def i assms(5) Let_def)
  show p: "0 \<le> pos" "0 < newb" "pos + newb \<le> ?b" "newb \<le> n" "newb \<le> max_filepos c1 - read_filepos c1"
    using pos newb x assms(4,6) by auto
  assume "0 \<le> i" "i < newb"
  with p have "0 \<le> pos + i" "pos + i < ?b" by auto
  moreover have "(?x + i) mod ?b = (pos + i) mod ?b"
    using pos mod_add_self2 [of "?x + i" ?b] by (auto simp: algebra_simps)
  ultimately show "slot c1 (read_filepos c1 + i) = nat (pos + i)"
    by (simp add: slot_def algebra_simps)
qed

text \<open>The worker has no effect on the player's clock.\<close>

lemma timer_fill [simp]:
  "timer (update_status y) = timer y" "timer (fill_empty E y) = timer y" "timer (fill_commit E pl len y) = timer y"
  "fill_check E y = (go, y1) \<Longrightarrow> timer y1 = timer y" "fill_read E pl y = (n, y1) \<Longrightarrow> timer y1 = timer y"
  by (auto simp: fill_check_def fill_read_def fill_commit_def fill_empty_def update_status_def Let_def
      split: prod.splits if_splits)

lemma timer_act [simp]: "fill_act E p y = (pl, y1) \<Longrightarrow> timer y1 = timer y"
proof -
  have "fill_seek E p y = (p1, y2) \<Longrightarrow> timer y2 = timer y" for p1 y2
    by (auto simp: fill_seek_def Let_def split: prod.splits if_splits)
  then show "fill_act E p y = (pl, y1) \<Longrightarrow> timer y1 = timer y"
    by (auto simp: fill_act_def split: prod.splits option.splits)
qed

lemma timer_call [simp]: "call_control E cmd arg y = (r, a, y1) \<Longrightarrow> timer y1 = timer y"
  by (auto simp: call_control_def split: option.splits prod.splits)

lemma timer_poll [simp]: "timer (poll_times E y) = timer y"
  by (auto simp: poll_times_def Let_def dest!: timer_call split: prod.splits)

lemma timer_run_control [simp]: "run_control E y = (f, y1) \<Longrightarrow> timer y1 = timer y"
proof -
  have "timer (snd (snd (call_control E k a y))) = timer y" for k a
    using timer_call [of E k a y] by (metis surj_pair snd_conv)
  then have "timer (snd (run_control E y)) = timer y"
    unfolding run_control_def Let_def split_def if_distrib [of snd] if_distrib [of timer] snd_conv cache_sys.simps by simp
  then show "run_control E y = (f, y1) \<Longrightarrow> timer y1 = timer y" by simp
qed

lemma timer_execute [simp]: "cache_execute_control E y = (again, y1) \<Longrightarrow> timer y1 = timer y"
  using timer_run_control [of E "poll_times E y"]
  by (auto simp: cache_execute_control_def Let_def split: prod.splits if_splits)

lemma filler_step_timer: "timer (filler_step E stop y) = timer y"
  by (cases "filler y") (simp_all add: filler_step.simps split: prod.splits)

lemma filler_run_timer: "timer (filler_run E k y) = timer y"
  by (induction k arbitrary: y) (simp_all add: filler_step_timer)

lemma vars_status [simp]: "vars (update_status y) = vars y"
  by (simp add: update_status_def)

lemma inv_status [simp]: "cache_inv fl placed (update_status y) = cache_inv fl placed y"
  by (cases "filler y") (simp_all add: update_status_def cache_inv_def sync_def Let_def)

lemma inv_timer [simp]: "cache_inv fl placed (y\<lparr>timer := k\<rparr>) = cache_inv fl placed y"
  by (cases "filler y") (simp_all add: cache_inv_def sync_def Let_def)

lemma advance_keeps:
  assumes "cache_inv fl placed y" "in_window (vars y)" "0 \<le> n" "read_filepos (vars y) + n \<le> max_filepos (vars y)"
  shows "cache_inv fl placed (y\<lparr>vars := cache_pos_advance_read (vars y) n\<rparr>)"
proof -
  have "cache_conf (cache_pos_advance_read (vars y) n)" "ring_ok fl (cache_pos_advance_read (vars y) n)"
    "plan_ok pl (cache_pos_advance_read (vars y) n) = plan_ok pl (vars y)" for pl
    using assms by (auto simp: cache_inv_def cache_conf_def ring_ok_def plan_ok_def cache_pos_advance_read_def slot_def)
  with assms show ?thesis
    by (cases "filler y")
       (auto simp: cache_inv_def Let_def sync_def in_window_def snap_ok_def cache_pos_advance_read_def slot_def)
qed

context cached_driver
begin

text \<open>One copy: the extent is inside the ring and holds the bytes at the reader's position, whatever the worker did meanwhile.\<close>

lemma copy_step:
  assumes "inv y1" "\<not> (max_filepos (vars y1) \<le> read_filepos (vars y1) \<or> read_filepos (vars y1) < min_filepos (vars y1))"
    "y2 = filler_run E d y1" "y3 = filler_run E a y2" "0 < n"
    "read_extent (vars y2) (cache_pos_get (vars y1)) n = (pos, newb)"
  shows "0 < newb" "newb \<le> n" "0 \<le> pos" "pos + newb \<le> buffer_size (vars y2)"
    "take (nat newb) (drop (nat pos) (ring (vars y2))) = take (nat newb) (drop (nat (read_filepos (vars y1))) fl)"
    "nat (read_filepos (vars y1)) + nat newb \<le> length fl"
    "inv (y3\<lparr>vars := cache_pos_advance_read (vars y3) newb\<rparr>)" "read_filepos (vars y3) = read_filepos (vars y1)"
proof -
  let ?c = "vars y1" and ?c2 = "vars y2"
  have w: "min_filepos ?c \<le> read_filepos ?c" "read_filepos ?c < max_filepos ?c" "in_window ?c"
    using assms(2) by (auto simp: in_window_def)
  have i1: "cache_conf ?c" "ring_ok fl ?c" using assms(1) by (auto simp: cache_inv_def)
  from filler_run_keeps [OF assms(1), of d] assms(3) have i2: "inv y2" "reader_kept ?c ?c2" by auto
  from filler_run_keeps [OF i2(1), of a] assms(4) have i3: "inv y3" "reader_kept ?c (vars y3)"
    using reader_kept_trans [OF i2(2)] by auto
  have k: "read_filepos ?c2 = read_filepos ?c" "buffer_size ?c2 = buffer_size ?c" "in_window ?c2"
    "max_filepos ?c \<le> max_filepos ?c2" "(offset ?c2 - offset ?c) mod buffer_size ?c = 0"
    using i2(2) w(3) by (auto simp: reader_kept_def)
  note ex = extent_ok [OF i1 w(1,2) k(2) assms(5,6)]
  show "0 < newb" "newb \<le> n" "0 \<le> pos" "pos + newb \<le> buffer_size ?c2" using ex k by auto
  have ring: "length (ring ?c2) = nat (buffer_size ?c)" "0 \<le> read_filepos ?c"
    using i2(1) i1 k(2) by (auto simp: cache_inv_def cache_conf_def ring_ok_def)
  have byte: "read_filepos ?c + i < int (length fl) \<and> ring ?c2 ! nat (pos + i) = fl ! nat (read_filepos ?c + i)"
    if "0 \<le> i" "i < newb" for i
  proof -
    have "slot ?c2 q = slot ?c q" for q
    proof -
      have "(q - offset ?c2) mod buffer_size ?c = (q - offset ?c) mod buffer_size ?c"
        using k(5) by (metis diff_diff_eq2 mod_diff_right_eq diff_zero add_diff_cancel_left' diff_add_cancel)
      then show ?thesis by (simp add: slot_def k(2))
    qed
    moreover have "min_filepos ?c2 \<le> read_filepos ?c + i" "read_filepos ?c + i < max_filepos ?c2"
      using that ex(5) k(1,3,4) by (auto simp: in_window_def)
    ultimately show ?thesis using i2(1) ex(6) [OF that] by (auto simp: cache_inv_def ring_ok_def)
  qed
  from byte [of "newb - 1"] ex(2) ring(2) show fl: "nat (read_filepos ?c) + nat newb \<le> length fl" by linarith
  show "take (nat newb) (drop (nat pos) (ring ?c2)) = take (nat newb) (drop (nat (read_filepos ?c)) fl)"
  proof (rule nth_equalityI)
    show "length (take (nat newb) (drop (nat pos) (ring ?c2))) = length (take (nat newb) (drop (nat (read_filepos ?c)) fl))"
      using ex(1,3) ring fl by auto
    fix j assume "j < length (take (nat newb) (drop (nat pos) (ring ?c2)))"
    then have j: "j < nat newb" by simp
    with byte [of "int j"] ex(1,3) ring fl
    show "take (nat newb) (drop (nat pos) (ring ?c2)) ! j = take (nat newb) (drop (nat (read_filepos ?c)) fl) ! j"
      by (simp add: nat_add_distrib)
  qed
  have "in_window (vars y3)" "max_filepos ?c \<le> max_filepos (vars y3)" and r3: "read_filepos (vars y3) = read_filepos ?c"
    using i3(2) w(3) by (auto simp: reader_kept_def)
  with ex(2,5) show "inv (y3\<lparr>vars := cache_pos_advance_read (vars y3) newb\<rparr>)"
    by (intro advance_keeps [OF i3(1)]) auto
  from r3 show "read_filepos (vars y3) = read_filepos ?c" .
qed

definition delivered :: "int \<Rightarrow> 'd cache_sys \<Rightarrow> string \<Rightarrow> 'd cache_sys \<Rightarrow> bool" where
  "delivered n y out y1 \<longleftrightarrow> inv y1 \<and> read_filepos (vars y1) = read_filepos (vars y) + int (length out) \<and>
     int (length out) \<le> max 0 n \<and> out = take (length out) (drop (nat (read_filepos (vars y))) fl)"

lemma delivered_nil: "inv y1 \<Longrightarrow> read_filepos (vars y1) = read_filepos (vars y) \<Longrightarrow> delivered n y [] y1"
  by (simp add: delivered_def)

lemma delivered_append:
  assumes "nat (read_filepos (vars y)) + nat k \<le> length fl" "0 < k" "k \<le> n" "0 \<le> read_filepos (vars y)"
    "read_filepos (vars y4) = read_filepos (vars y) + k" "delivered (n - k) y4 r y5"
  shows "delivered n y (take (nat k) (drop (nat (read_filepos (vars y))) fl) @ r) y5"
proof -
  let ?q = "nat (read_filepos (vars y))"
  have l: "length (take (nat k) (drop ?q fl)) = nat k" using assms(1) by simp
  have r: "r = take (length r) (drop (nat k) (drop ?q fl))" "inv y5"
    "read_filepos (vars y5) = read_filepos (vars y) + k + int (length r)" "int (length r) \<le> max 0 (n - k)"
    using assms(2,4,5,6) by (auto simp: delivered_def nat_add_distrib add.commute)
  let ?o = "take (nat k) (drop ?q fl) @ r"
  have lo: "length ?o = nat k + length r" using l by simp
  have "?o = take (length ?o) (drop ?q fl)" unfolding lo using r(1) by (metis take_add)
  moreover have "int (length ?o) = k + int (length r)" using lo assms(2) by simp
  ultimately show ?thesis unfolding delivered_def using r(2-4) assms(2,3) by (intro conjI) (assumption | linarith)+
qed

text \<open>One turn of the loop: the end of the stream, thirty seconds without data, a wait, or a copy.\<close>

lemma loop_step:
  assumes "inv y" "0 < n" "\<not> t_stop t" "L = cache_read_loop E (t # ts) since n y"
  obtains
    (eof) y2 where "L = Some ([], update_status y2, ts)" "inv y2" "read_filepos (vars y2) = read_filepos (vars y)"
      "timer y2 = timer y" "c_eof (vars y2)" "t_during t = 0 \<longrightarrow> max_filepos (vars y2) \<le> read_filepos (vars y2)"
  | (stall) y2 where "L = Some ([], y2, ts)" "inv y2" "read_filepos (vars y2) = read_filepos (vars y)"
      "timer y2 = timer y" "30000 \<le> timer y - since"
  | (wait) y2 where "L = cache_read_loop E ts since n y2" "inv y2" "read_filepos (vars y2) = read_filepos (vars y)"
      "timer y2 = timer y + t_ms t" "timer y - since < 30000"
  | (copy) k y4 where "L = map_option (\<lambda>(r, z). (take (nat k) (drop (nat (read_filepos (vars y))) fl) @ r, z))
        (cache_read_loop E ts (timer y4) (n - k) y4)" "inv y4" "read_filepos (vars y4) = read_filepos (vars y) + k"
      "timer y4 = timer y + t_ms t" "0 < k" "k \<le> n" "nat (read_filepos (vars y)) + nat k \<le> length fl"
proof -
  define y1 where "y1 = filler_run E (t_before t) y"
  define y2 where "y2 = filler_run E (t_during t) y1"
  define y3 where "y3 = filler_run E (t_after t) y2"
  have tm: "timer y1 = timer y" "timer y2 = timer y" "timer y3 = timer y"
    by (simp_all add: y1_def y2_def y3_def filler_run_timer)
  have k1: "inv y1" "read_filepos (vars y1) = read_filepos (vars y)"
    using filler_run_keeps [OF assms(1)] by (auto simp: y1_def reader_kept_def)
  have k2: "inv y2" "read_filepos (vars y2) = read_filepos (vars y)"
    using filler_run_keeps [OF k1(1)] k1(2) by (auto simp: y2_def reader_kept_def)
  obtain pos newb where ex: "read_extent (vars y2) (cache_pos_get (vars y1)) n = (pos, newb)" by fastforce
  let ?gap = "max_filepos (vars y1) \<le> read_filepos (vars y1) \<or> read_filepos (vars y1) < min_filepos (vars y1)"
  have L: "L = (if ?gap then
      if c_eof (vars y2) \<and> max_filepos (vars y1) \<le> read_filepos (vars y1) then Some ([], update_status y2, ts)
      else if 30000 \<le> timer y - since then Some ([], y2, ts)
      else cache_read_loop E ts since n (y2\<lparr>timer := timer y + t_ms t\<rparr>)
    else if newb \<le> 0 \<or> pos < 0 \<or> buffer_size (vars y2) < pos + newb
    then cache_read_loop E ts since n (y2\<lparr>timer := timer y + t_ms t\<rparr>)
    else map_option (\<lambda>(r, z). (take (nat newb) (drop (nat pos) (ring (vars y2))) @ r, z))
      (cache_read_loop E ts (timer y + t_ms t) (n - newb)
        (y3\<lparr>vars := cache_pos_advance_read (vars y3) newb, timer := timer y + t_ms t\<rparr>)))"
    using assms(2,3) ex unfolding assms(4)
    by (subst cache_read_loop.simps)
       (simp add: y1_def [symmetric] y2_def [symmetric] y3_def [symmetric] Let_def tm cache_pos_get_def)
  show thesis
  proof (cases ?gap)
    case True
    have "t_during t = 0 \<longrightarrow> y2 = y1" by (simp add: y2_def)
    note during = this
    consider (e) "c_eof (vars y2)" "max_filepos (vars y1) \<le> read_filepos (vars y1)"
      | (s) "\<not> (c_eof (vars y2) \<and> max_filepos (vars y1) \<le> read_filepos (vars y1))" "30000 \<le> timer y - since"
      | (w) "\<not> (c_eof (vars y2) \<and> max_filepos (vars y1) \<le> read_filepos (vars y1))" "timer y - since < 30000" by linarith
    then show thesis
    proof cases
      case e
      with True L have "L = Some ([], update_status y2, ts)" by simp
      with k1 k2 tm e during show thesis by (intro eof [of y2]) auto
    next
      case s
      with True L have "L = Some ([], y2, ts)" by simp
      with k2 tm s show thesis by (intro stall [of y2]) auto
    next
      case w
      with True L have "L = cache_read_loop E ts since n (y2\<lparr>timer := timer y + t_ms t\<rparr>)" by auto
      with k2 w show thesis by (intro wait [of "y2\<lparr>timer := timer y + t_ms t\<rparr>"]) auto
    qed
  next
    case False
    note cs = copy_step [OF k1(1) False y2_def y3_def assms(2) ex]
    define y4 where "y4 = y3\<lparr>vars := cache_pos_advance_read (vars y3) newb, timer := timer y + t_ms t\<rparr>"
    have "inv y4" "read_filepos (vars y4) = read_filepos (vars y) + newb" "timer y4 = timer y + t_ms t"
      using cs(7,8) k1(2) by (auto simp: y4_def cache_pos_advance_read_def)
    moreover have "L = map_option (\<lambda>(r, z). (take (nat newb) (drop (nat (read_filepos (vars y))) fl) @ r, z))
        (cache_read_loop E ts (timer y4) (n - newb) y4)"
      using False cs(1-5) k1(2) by (simp add: L y4_def)
    ultimately show thesis using cs(1,2,6) k1(2) by (intro copy [of newb y4]) auto
  qed
qed

theorem cache_read_loop_law:
  "inv y \<Longrightarrow> cache_read_loop E ts since n y = Some (out, y5, ts5) \<Longrightarrow> delivered n y out y5"
proof (induction ts arbitrary: since n y out y5 ts5)
  case Nil
  then show ?case by (auto simp: cache_read_loop.simps delivered_def split: if_splits)
next
  case (Cons t ts)
  show ?case
  proof (cases "n \<le> 0 \<or> t_stop t")
    case True
    with Cons.prems filler_run_keeps [OF Cons.prems(1), of "t_before t"] show ?thesis
      by (auto simp: cache_read_loop.simps reader_kept_def intro!: delivered_nil split: if_splits)
  next
    case False
    then have n: "0 < n" "\<not> t_stop t" by auto
    show ?thesis
    proof (cases rule: loop_step [OF Cons.prems(1) n refl, of ts since])
      case wait: (3 y2)
      with Cons.IH [of y2 since n out y5 ts5] Cons.prems(2) show ?thesis by (simp add: delivered_def)
    next
      case copy: (4 k y4)
      with Cons.prems(2) obtain r where r: "cache_read_loop E ts (timer y4) (n - k) y4 = Some (r, y5, ts5)"
        "out = take (nat k) (drop (nat (read_filepos (vars y))) fl) @ r" by auto
      from Cons.IH [OF copy(2) r(1)] copy r(2) Cons.prems(1) show ?thesis
        using delivered_append [of y k n y4 r y5] by (auto simp: cache_inv_def ring_ok_def)
    qed (use Cons.prems(2) delivered_nil in auto)
  qed
qed

text \<open>
  Fewer bytes than asked for: a stop, thirty seconds without data, or the end of the stream, which is right
  about the window if the worker does not run between the reader's snapshot and its look at eof.
\<close>

theorem cache_read_loop_short:
  "inv y \<Longrightarrow> cache_read_loop E ts since n y = Some (out, y5, ts5) \<Longrightarrow> since \<le> timer y \<Longrightarrow> int (length out) < n \<Longrightarrow>
   (\<exists>t\<in>set ts. t_stop t) \<or> 30000 \<le> timer y5 - since \<or>
   c_eof (vars y5) \<and> ((\<forall>t\<in>set ts. t_during t = 0) \<longrightarrow> max_filepos (vars y5) \<le> read_filepos (vars y5))"
proof (induction ts arbitrary: since n y out y5 ts5)
  case Nil
  then show ?case by (auto simp: cache_read_loop.simps split: if_splits)
next
  case (Cons t ts)
  show ?case
  proof (cases "t_stop t")
    case False
    have n: "0 < n" using Cons.prems(4) by simp
    show ?thesis
    proof (cases rule: loop_step [OF Cons.prems(1) n False refl, of ts since])
      case wait: (3 y2)
      have "since \<le> timer y2" using wait(4) Cons.prems(3) by simp
      from Cons.IH [OF wait(2) Cons.prems(2) [unfolded wait(1)] this Cons.prems(4)] show ?thesis unfolding list.set by blast
    next
      case copy: (4 k y4)
      with Cons.prems(2) obtain r where r: "cache_read_loop E ts (timer y4) (n - k) y4 = Some (r, y5, ts5)"
        "out = take (nat k) (drop (nat (read_filepos (vars y))) fl) @ r" by auto
      have "int (length r) < n - k" "since \<le> timer y4" using r(2) copy(4,5,7) Cons.prems(3,4) by auto
      moreover from this(2) have "30000 \<le> timer y5 - timer y4 \<longrightarrow> 30000 \<le> timer y5 - since" by linarith
      moreover note Cons.IH [OF copy(2) r(1) le_refl]
      ultimately show ?thesis unfolding list.set by blast
    qed (use Cons.prems(2) in auto)
  qed simp
qed

text \<open>
  The loop ends: a wait takes at least ten milliseconds, so between two copies there are at most 3000 of them.
\<close>

theorem cache_read_loop_returns:
  "inv y \<Longrightarrow> since \<le> timer y \<Longrightarrow> \<forall>t\<in>set ts. 10 \<le> t_ms t \<Longrightarrow>
   nat n * 3002 + (30000 - (timer y - since) + 9) div 10 < length ts \<Longrightarrow>
   \<exists>out y1 k. cache_read_loop E ts since n y = Some (out, y1, drop k ts) \<and>
     k \<le> nat n * 3002 + (30000 - (timer y - since) + 9) div 10 + 1"
proof (induction ts arbitrary: since n y)
  case (Cons t ts)
  show ?case
  proof (cases "n \<le> 0 \<or> t_stop t")
    case True
    then have "\<exists>k\<le>1. \<exists>out y1. cache_read_loop E (t # ts) since n y = Some (out, y1, drop k (t # ts))"
      by (subst cache_read_loop.simps) (auto intro: exI [of _ 0] exI [of _ "Suc 0"])
    then show ?thesis by (meson le_add2 order_trans)
  next
    case False
    then have n: "0 < n" "\<not> t_stop t" by auto
    show ?thesis
    proof (cases rule: loop_step [OF Cons.prems(1) n refl, of ts since])
      case wait: (3 y2)
      have less: "(30000 - (timer y2 - since) + 9) div 10 < (30000 - (timer y - since) + 9) div 10"
        using wait(4,5) Cons.prems(2,3) wait_div [of "30000 - (timer y - since)" "t_ms t"] by simp
      have "since \<le> timer y2" "\<forall>t\<in>set ts. 10 \<le> t_ms t" using wait(4) Cons.prems(2,3) by auto
      moreover have "nat n * 3002 + (30000 - (timer y2 - since) + 9) div 10 < length ts"
        using less Cons.prems(4) unfolding length_Cons by linarith
      ultimately have "since \<le> timer y2" "\<forall>t\<in>set ts. 10 \<le> t_ms t"
        "nat n * 3002 + (30000 - (timer y2 - since) + 9) div 10 < length ts" .
      from Cons.IH [OF wait(2) this] obtain out y1 k where
        "cache_read_loop E (t # ts) since n y = Some (out, y1, drop (Suc k) (t # ts))" and
        "k \<le> nat n * 3002 + (30000 - (timer y2 - since) + 9) div 10 + 1" using wait(1) by auto
      moreover from this(2) less have "Suc k \<le> nat n * 3002 + (30000 - (timer y - since) + 9) div 10 + 1" by linarith
      ultimately show ?thesis by blast
    next
      case copy: (4 k y4)
      have less: "nat (n - k) * 3002 + 3002 \<le> nat n * 3002" using copy(5,6) by (simp add: nat_diff_distrib)
      from Cons.IH [OF copy(2), of "timer y4" "n - k"] less copy Cons.prems(3,4) obtain out y1 j where
        "cache_read_loop E (t # ts) since n y = Some (out, y1, drop (Suc j) (t # ts))" "j \<le> nat (n - k) * 3002 + 3001" by auto
      with less show ?thesis by (intro exI [of _ out] exI [of _ y1] exI [of _ "Suc j"]) simp
    qed (rule exI, rule exI, rule exI [of _ "Suc 0"], simp)+
  qed
qed simp

end

end
