(* ===== verification/Cached_Stream.thy ===== *)
theory Cached_Stream
  imports Stream_Cache_Inv
begin

text \<open>
  The player's side of a stream: starting, prefilling and stopping the cache (the rest of cache2.c), the
  start-up buffer of WebDAV tracks (src/source/utils/playback_buffer.h), and the readers of stream.h over a
  cached or uncached stream. A \<open>player\<close> is the player's stream, the cache if there is one, and the driver while
  there is none; the cache owns the driver while its worker runs. \<open>turn list\<close> is the schedule of
  \<open>Stream_Cache\<close>; an operation returns the turns it did not use, or \<open>None\<close> when it needed more.
\<close>

section \<open>The start-up buffer\<close>

abbreviation DAV_AUDIO_CACHE_BYTES :: int where "DAV_AUDIO_CACHE_BYTES \<equiv> 524288"
abbreviation DAV_AUDIO_PROBE_BYTES :: int where "DAV_AUDIO_PROBE_BYTES \<equiv> 16384"

definition dav_audio_start_bytes :: "int \<Rightarrow> int" where
  "dav_audio_start_bytes bytes_per_second =
     (let bps = (if bytes_per_second \<le> 0 then 40000 else bytes_per_second) in
      if DAV_AUDIO_CACHE_BYTES div 2 div 3 \<le> bps then DAV_AUDIO_CACHE_BYTES div 2
      else let bytes = bps * 3 in if bytes < DAV_AUDIO_PROBE_BYTES then DAV_AUDIO_PROBE_BYTES else bytes)"

section \<open>Starting and stopping the cache\<close>

record 'd player =
  strm :: stream
  cache :: "'d cache_sys option"
  pio :: "'d stream_io"

text \<open>\<open>alloc\<close> says whether the allocations succeed; the ring's first contents are never read.\<close>

definition cache_init :: "bool \<Rightarrow> int \<Rightarrow> int \<Rightarrow> cache_vars option" where
  "cache_init alloc sz sector =
     (if \<not> alloc then None
      else
        let num0 = off_div sz sector; num = (if num0 < 16 then 16 else num0); bsize = num * sector
        in Some \<lparr>ring = replicate (nat bsize) (CHR 0x00), buffer_size = bsize, sector_size = sector,
                 back_size = bsize div 4, fill_limit = 8 * sector, seek_limit = 0, c_eof = False,
                 min_filepos = 0, max_filepos = 0, offset = 0, read_filepos = 0, c_control = - 1,
                 control_uint_arg = 0, control_double_arg = 0,
                 control_lang_arg = \<lparr>lang_type = 0, lang_id = 0, lang_buf = []\<rparr>, control_res = 0,
                 stream_time_length = 0, stream_time_pos = 0\<rparr>)"

text \<open>
  Stopping raises stop_cache_thread and waits until the worker is suspended: it finishes what it is doing and
  leaves at the end of its turn. The wait ends because every step brings the worker closer to the loop's test.
  Then the cache is freed, and the driver goes back to the player.
\<close>

fun pc_rank :: "filler_pc \<Rightarrow> nat" where
  "pc_rank F_check = 6"
| "pc_rank F_snap = 5"
| "pc_rank (F_act _) = 4"
| "pc_rank (F_read _) = 3"
| "pc_rank (F_commit _ _) = 2"
| "pc_rank F_control = 1"
| "pc_rank F_exit = 0"

lemma stop_rank: "filler y \<noteq> F_exit \<Longrightarrow> pc_rank (filler (filler_step E True y)) < pc_rank (filler y)"
  by (cases "filler y") (auto simp: filler_step.simps split: prod.splits option.splits)

function stop_worker :: "'d cache_env \<Rightarrow> 'd cache_sys \<Rightarrow> 'd cache_sys" where
  "stop_worker E y = (if filler y = F_exit then y else stop_worker E (filler_step E True y))"
  by pat_completeness auto
termination
  by (relation "measure (\<lambda>(E, y). pc_rank (filler y))") (auto simp: stop_rank)

declare stop_worker.simps [simp del]

definition cache_uninit :: "'d cache_env \<Rightarrow> 'd player \<Rightarrow> 'd player" where
  "cache_uninit E P =
     P\<lparr>strm := (strm P)\<lparr>cache_pid := False\<rparr>, cache := None,
       pio := (case cache P of None \<Rightarrow> pio P | Some y \<Rightarrow> cio (stop_worker E y))\<rparr>"

definition MPlayerCacheFillPercent :: "'d player \<Rightarrow> real" where
  "MPlayerCacheFillPercent P = (case cache P of None \<Rightarrow> - 1 | Some y \<Rightarrow> fill_status y)"

text \<open>
  The prefill loop: the worker runs before each snapshot, \<open>t_stop\<close> is the test of getMESS and controlledbygui,
  \<open>t_interrupt\<close> that of the input callback.
\<close>

definition prefill_done :: "'d cache_sys \<Rightarrow> turn \<Rightarrow> int" where
  "prefill_done y t =
     (if t_stop t then 0
      else let p = cache_pos_get (vars y) in
        if c_eof (vars y) \<and> p_max p = p_read p \<and> st_error (cstream y) \<noteq> 0 then - 1 else 1)"

fun prefill_loop ::
  "'d cache_env \<Rightarrow> turn list \<Rightarrow> int \<Rightarrow> nat \<Rightarrow> int \<Rightarrow> 'd cache_sys \<Rightarrow> (int \<times> 'd cache_sys \<times> turn list) option" where
  "prefill_loop E [] mn since pos y0 = None"
| "prefill_loop E (t # ts) mn since pos y0 =
     (let y = filler_run E (t_before t) y0; p = cache_pos_get (vars y) in
      if \<not> (p_read p < p_min p \<or> p_max p - p_read p < mn) then Some (prefill_done y t, y, ts)
      else if t_stop t \<or> t_interrupt t then Some (0, y, ts)
      else if c_eof (vars y) then Some (prefill_done y t, y, ts)
      else if p_max p \<noteq> pos then
        prefill_loop E ts mn (timer y) (p_max p) (y\<lparr>timer := timer y + t_ms t\<rparr>)
      else if 30000 \<le> timer y - since then Some (- 1, y, ts)
      else prefill_loop E ts mn since pos (y\<lparr>timer := timer y + t_ms t\<rparr>))"

definition stream_cache_prefill ::
  "'d cache_env \<Rightarrow> turn list \<Rightarrow> int \<Rightarrow> 'd player \<Rightarrow> (int \<times> 'd player \<times> turn list) option" where
  "stream_cache_prefill E ts mn P =
     (case cache P of
        None \<Rightarrow> Some (- 1, P, ts)
      | Some y \<Rightarrow>
          (let forward_limit = buffer_size (vars y) - back_size (vars y) - fill_limit (vars y)
           in map_option (\<lambda>(r, y1, ts1). (r, P\<lparr>cache := Some y1\<rparr>, ts1))
                (prefill_loop E ts (min mn forward_limit) (timer y) (max_filepos (vars y)) y)))"

text \<open>\<open>avail\<close> is CacheThreadAvailable; \<open>alloc\<close> and \<open>alloc2\<close> are the allocations of the ring and of the worker's stream.\<close>

definition stream_enable_cache ::
  "'d cache_env \<Rightarrow> bool \<Rightarrow> bool \<Rightarrow> bool \<Rightarrow> nat \<Rightarrow> turn list \<Rightarrow> int \<Rightarrow> int \<Rightarrow> int \<Rightarrow> 'd player \<Rightarrow>
   (int \<times> 'd player \<times> turn list) option" where
  "stream_enable_cache E avail alloc alloc2 now ts sz mn slimit P =
     (let ss = (if st_sector_size (strm P) \<noteq> 0 then st_sector_size (strm P) else STREAM_BUFFER_SIZE) in
      if \<not> avail then Some (- 1, P, ts)
      else if bit (st_flags (strm P)) 3 then Some (1, P, ts)
      else case cache_init alloc sz ss of
        None \<Rightarrow> Some (- 1, P, ts)
      | Some c0 \<Rightarrow>
          let st = (strm P)\<lparr>st_error := 0\<rparr>;
              c1 = cache_pos_reset c0 (st_pos st);
              c = c1\<lparr>seek_limit := min slimit (buffer_size c1 - fill_limit c1)\<rparr>;
              mn1 = min mn (buffer_size c - fill_limit c);
              y = \<lparr>vars = c, cstream = st, cio = pio P, fill_status = - 1, filler = F_check, timer = now, ctl_last = 0\<rparr>;
              P1 = P\<lparr>strm := st\<lparr>cache_pid := True\<rparr>, cache := Some y\<rparr>
          in if \<not> alloc2 then Some (- 1, cache_uninit E (P\<lparr>strm := st\<rparr>), ts)
             else map_option (\<lambda>(res, P2, ts1). if res \<le> 0 then (res, cache_uninit E P2, ts1) else (1, P2, ts1))
                    (stream_cache_prefill E ts mn1 P1))"

section \<open>Filling the player's buffer\<close>

definition cache_stream_fill_buffer ::
  "'d cache_env \<Rightarrow> turn list \<Rightarrow> 'd player \<Rightarrow> (int \<times> 'd player \<times> turn list) option" where
  "cache_stream_fill_buffer E ts P =
     (case cache P of
        None \<Rightarrow> (let (n, s, io) = stream_fill_buffer (cops E) (strm P) (pio P) in Some (n, P\<lparr>strm := s, pio := io\<rparr>, ts))
      | Some y \<Rightarrow>
          let sector = (if STREAM_MAX_SECTOR_SIZE < sector_size (vars y) then STREAM_MAX_SECTOR_SIZE else sector_size (vars y))
          in map_option (\<lambda>(bs, y1, ts1).
               let len = int (length bs); s = strm P in
               if len \<le> 0 then (0, P\<lparr>strm := s\<lparr>st_eof := True, buf_pos := 0, buf_len := 0\<rparr>, cache := Some y1\<rparr>, ts1)
               else (len, P\<lparr>strm := s\<lparr>st_eof := False, buf_pos := 0, buf_len := len, st_pos := st_pos s + len,
                                    st_buffer := mem_store (st_buffer s) 0 bs\<rparr>, cache := Some y1\<rparr>, ts1))
             (cache_read E ts sector y))"

definition cache_stream_seek_long ::
  "'d cache_env \<Rightarrow> turn list \<Rightarrow> int \<Rightarrow> 'd player \<Rightarrow> (int \<times> 'd player \<times> turn list) option" where
  "cache_stream_seek_long E ts pos P =
     (case cache P of
        None \<Rightarrow> (let (r, s, io) = stream_seek_long (cops E) (strm P) pos (pio P) in Some (r, P\<lparr>strm := s, pio := io\<rparr>, ts))
      | Some y \<Rightarrow>
          let newpos = off_div pos (sector_size (vars y)) * sector_size (vars y);
              c = (cache_pos_set_read (vars y) newpos)\<lparr>c_eof := False\<rparr>;
              P1 = P\<lparr>strm := (strm P)\<lparr>st_pos := newpos\<rparr>, cache := Some (y\<lparr>vars := c\<rparr>)\<rparr>
          in map_option (\<lambda>(_, P2, ts1).
               let x = pos - newpos in
               if 0 \<le> x \<and> x \<le> buf_len (strm P2) then (1, P2\<lparr>strm := (strm P2)\<lparr>buf_pos := x\<rparr>\<rparr>, ts1) else (0, P2, ts1))
             (cache_stream_fill_buffer E ts P1))"

section \<open>The readers of stream.h\<close>

definition stream_tell :: "stream \<Rightarrow> int" where
  "stream_tell s = st_pos s + buf_pos s - buf_len s"

text \<open>
  The loop of stream_read. \<open>None\<close> also stands for a buffer position beyond the buffer's length, where the
  C subtraction would not give a size.
\<close>

function stream_read_loop ::
  "'d cache_env \<Rightarrow> turn list \<Rightarrow> int \<Rightarrow> 'd player \<Rightarrow> (string \<times> 'd player \<times> turn list) option" where
  "stream_read_loop E ts len P =
     (if len \<le> 0 then Some ([], P, ts)
      else
        case (if buf_len (strm P) - buf_pos (strm P) = 0 then cache_stream_fill_buffer E ts P else Some (1, P, ts)) of
          None \<Rightarrow> None
        | Some (r, P1, ts1) \<Rightarrow>
            if r = 0 then Some ([], P1, ts1)
            else
              let s = strm P1; x0 = buf_len s - buf_pos s; x = (if len < x0 then len else x0) in
              if x0 \<le> 0 then None
              else map_option (\<lambda>(bs, z). (take (nat x) (drop (nat (buf_pos s)) (st_buffer s)) @ bs, z))
                     (stream_read_loop E ts1 (len - x) (P1\<lparr>strm := s\<lparr>buf_pos := buf_pos s + x\<rparr>\<rparr>)))"
  by pat_completeness auto
termination
  by (relation "measure (\<lambda>(E, ts, len, P). nat len)") (auto split: if_splits)

declare stream_read_loop.simps [simp del]

definition stream_read ::
  "'d cache_env \<Rightarrow> turn list \<Rightarrow> int \<Rightarrow> 'd player \<Rightarrow> (string \<times> 'd player \<times> turn list) option" where
  "stream_read E ts total_len P = stream_read_loop E ts total_len P"

definition stream_seek ::
  "'d cache_env \<Rightarrow> turn list \<Rightarrow> int \<Rightarrow> 'd player \<Rightarrow> (int \<times> 'd player \<times> turn list) option" where
  "stream_seek E ts pos0 P =
     (let pos = (if pos0 < 0 then 0 else pos0); s = strm P; x = pos - (st_pos s - buf_len s) in
      if pos < st_pos s \<and> 0 \<le> x then Some (1, P\<lparr>strm := s\<lparr>buf_pos := x\<rparr>\<rparr>, ts)
      else cache_stream_seek_long E ts pos P)"

function skip_loop ::
  "'d cache_env \<Rightarrow> turn list \<Rightarrow> int \<Rightarrow> 'd player \<Rightarrow> (int \<times> 'd player \<times> turn list) option" where
  "skip_loop E ts len P =
     (if len \<le> 0 then Some (1, P, ts)
      else
        case (if buf_len (strm P) - buf_pos (strm P) = 0 then cache_stream_fill_buffer E ts P else Some (1, P, ts)) of
          None \<Rightarrow> None
        | Some (r, P1, ts1) \<Rightarrow>
            if r = 0 then Some (0, P1, ts1)
            else
              let s = strm P1; x0 = buf_len s - buf_pos s; x = (if len < x0 then len else x0) in
              if x0 \<le> 0 then None
              else skip_loop E ts1 (len - x) (P1\<lparr>strm := s\<lparr>buf_pos := buf_pos s + x\<rparr>\<rparr>))"
  by pat_completeness auto
termination
  by (relation "measure (\<lambda>(E, ts, len, P). nat len)") (auto split: if_splits)

declare skip_loop.simps [simp del]

definition stream_skip ::
  "'d cache_env \<Rightarrow> turn list \<Rightarrow> int \<Rightarrow> 'd player \<Rightarrow> (int \<times> 'd player \<times> turn list) option" where
  "stream_skip E ts len P =
     (if len < 0 \<or> 2 * STREAM_BUFFER_SIZE < len \<and> bit (st_flags (strm P)) 2
      then stream_seek E ts (stream_tell (strm P) + len) P
      else skip_loop E ts len P)"

definition stream_error :: "'d player \<Rightarrow> int" where
  "stream_error P = (case cache P of None \<Rightarrow> 0 | Some y \<Rightarrow> st_error (cstream y))"

text \<open>
  The fixed-width readers. A byte at the end of the stream reads as \<open>- 256\<close>, whose sign extension reaches the
  upper bits of the result, as in C.
\<close>

definition stream_read_char :: "'d cache_env \<Rightarrow> turn list \<Rightarrow> 'd player \<Rightarrow> (int \<times> 'd player \<times> turn list) option" where
  "stream_read_char E ts P =
     (let take1 = (\<lambda>Q ts1. (int (ccode (st_buffer (strm Q) ! nat (buf_pos (strm Q)))),
                           Q\<lparr>strm := (strm Q)\<lparr>buf_pos := buf_pos (strm Q) + 1\<rparr>\<rparr>, ts1)) in
      if buf_pos (strm P) < buf_len (strm P) then Some (take1 P ts)
      else map_option (\<lambda>(r, P1, ts1). if r \<noteq> 0 then take1 P1 ts1 else (- 256, P1, ts1)) (cache_stream_fill_buffer E ts P))"

fun read_chars :: "'d cache_env \<Rightarrow> nat \<Rightarrow> turn list \<Rightarrow> 'd player \<Rightarrow> (int list \<times> 'd player \<times> turn list) option" where
  "read_chars E 0 ts P = Some ([], P, ts)"
| "read_chars E (Suc k) ts P =
     (case stream_read_char E ts P of
        None \<Rightarrow> None
      | Some (b, P1, ts1) \<Rightarrow> map_option (\<lambda>(bs, z). (b # bs, z)) (read_chars E k ts1 P1))"

text \<open>\<open>y = (y << 8) | c\<close> in the width of the result, from the first character on; the little-endian readers shift the character.\<close>

definition be_word :: "int list \<Rightarrow> 'w::len word" where
  "be_word cs = foldl (\<lambda>y b. push_bit 8 y OR word_of_int b) 0 cs"

definition le_word :: "int list \<Rightarrow> 'w::len word" where
  "le_word cs = foldr (\<lambda>b y. word_of_int b OR push_bit 8 y) cs 0"

definition stream_read_word :: "'d cache_env \<Rightarrow> turn list \<Rightarrow> 'd player \<Rightarrow> (32 word \<times> 'd player \<times> turn list) option" where
  "stream_read_word E ts P = map_option (map_prod be_word id) (read_chars E 2 ts P)"

definition stream_read_dword :: "'d cache_env \<Rightarrow> turn list \<Rightarrow> 'd player \<Rightarrow> (32 word \<times> 'd player \<times> turn list) option" where
  "stream_read_dword E ts P = map_option (map_prod be_word id) (read_chars E 4 ts P)"

definition stream_read_word_le :: "'d cache_env \<Rightarrow> turn list \<Rightarrow> 'd player \<Rightarrow> (32 word \<times> 'd player \<times> turn list) option" where
  "stream_read_word_le E ts P = map_option (map_prod le_word id) (read_chars E 2 ts P)"

definition stream_read_dword_le :: "'d cache_env \<Rightarrow> turn list \<Rightarrow> 'd player \<Rightarrow> (32 word \<times> 'd player \<times> turn list) option" where
  "stream_read_dword_le E ts P = map_option (map_prod le_word id) (read_chars E 4 ts P)"

definition stream_read_qword :: "'d cache_env \<Rightarrow> turn list \<Rightarrow> 'd player \<Rightarrow> (64 word \<times> 'd player \<times> turn list) option" where
  "stream_read_qword E ts P = map_option (map_prod be_word id) (read_chars E 8 ts P)"

definition stream_read_qword_le :: "'d cache_env \<Rightarrow> turn list \<Rightarrow> 'd player \<Rightarrow> (64 word \<times> 'd player \<times> turn list) option" where
  "stream_read_qword_le E ts P =
     (case stream_read_dword_le E ts P of
        None \<Rightarrow> None
      | Some (lo, P1, ts1) \<Rightarrow>
          map_option (\<lambda>(hi, z). (ucast lo OR push_bit 32 (ucast hi), z)) (stream_read_dword_le E ts1 P1))"

definition stream_read_int24 :: "'d cache_env \<Rightarrow> turn list \<Rightarrow> 'd player \<Rightarrow> (32 word \<times> 'd player \<times> turn list) option" where
  "stream_read_int24 E ts P = map_option (map_prod be_word id) (read_chars E 3 ts P)"

section \<open>Control requests of the player\<close>

fun control_wait :: "'d cache_env \<Rightarrow> turn list \<Rightarrow> 'd cache_sys \<Rightarrow> (bool \<times> 'd cache_sys \<times> turn list) option" where
  "control_wait E ts y =
     (if c_control (vars y) = - 1 then Some (True, y, ts)
      else case ts of
        [] \<Rightarrow> None
      | t # ts1 \<Rightarrow>
          let y1 = filler_run E (t_before t) y in
          if t_stop t then Some (False, y1, ts1) else control_wait E ts1 y1)"

declare control_wait.simps [simp del]

text \<open>The request as it is put into the shared variables, and whether it moves the stream; \<open>Inl\<close> is answered at once.\<close>

definition control_request :: "int \<Rightarrow> ctrl_arg \<Rightarrow> cache_vars \<Rightarrow> (int \<times> ctrl_arg) + (cache_vars \<times> bool)" where
  "control_request cmd arg c =
     (if cmd = STREAM_CTRL_SEEK_TO_TIME then Inr (c\<lparr>control_double_arg := got_double arg 0, c_control := cmd\<rparr>, True)
      else if cmd = STREAM_CTRL_SEEK_TO_CHAPTER \<or> cmd = STREAM_CTRL_SET_ANGLE then
        Inr (c\<lparr>control_uint_arg := got_uint arg 0, c_control := cmd\<rparr>, True)
      else if cmd = STREAM_CTRL_GET_TIME_LENGTH then
        Inl (if stream_time_length c \<noteq> 0 then STREAM_OK else STREAM_UNSUPPORTED, Ctrl_double (stream_time_length c))
      else if cmd = STREAM_CTRL_GET_CURRENT_TIME then
        Inl (if stream_time_pos c \<noteq> MP_NOPTS_VALUE then STREAM_OK else STREAM_UNSUPPORTED, Ctrl_double (stream_time_pos c))
      else if cmd = STREAM_CTRL_GET_LANG then
        Inr (c\<lparr>control_lang_arg := got_lang arg (control_lang_arg c), c_control := cmd\<rparr>, False)
      else if cmd \<in> {STREAM_CTRL_GET_NUM_CHAPTERS, STREAM_CTRL_GET_CURRENT_CHAPTER, STREAM_CTRL_GET_ASPECT_RATIO,
                     STREAM_CTRL_GET_NUM_ANGLES, STREAM_CTRL_GET_ANGLE, - 2} then Inr (c\<lparr>c_control := cmd\<rparr>, False)
      else Inl (STREAM_UNSUPPORTED, arg))"

definition control_answer :: "int \<Rightarrow> ctrl_arg \<Rightarrow> cache_vars \<Rightarrow> ctrl_arg" where
  "control_answer cmd arg c =
     (if cmd = STREAM_CTRL_GET_ASPECT_RATIO then Ctrl_double (control_double_arg c)
      else if cmd \<in> {STREAM_CTRL_GET_NUM_CHAPTERS, STREAM_CTRL_GET_CURRENT_CHAPTER, STREAM_CTRL_GET_NUM_ANGLES,
                     STREAM_CTRL_GET_ANGLE} then Ctrl_uint (control_uint_arg c)
      else if cmd = STREAM_CTRL_GET_LANG then Ctrl_lang (control_lang_arg c) else arg)"

definition cache_do_control ::
  "'d cache_env \<Rightarrow> turn list \<Rightarrow> int \<Rightarrow> ctrl_arg \<Rightarrow> 'd player \<Rightarrow> (int \<times> ctrl_arg \<times> 'd player \<times> turn list) option" where
  "cache_do_control E ts cmd arg P =
     (case cache P of
        None \<Rightarrow> None
      | Some y \<Rightarrow>
          (case control_request cmd arg (vars y) of
             Inl (r, a) \<Rightarrow> Some (r, a, P, ts)
           | Inr (c, pos_change) \<Rightarrow>
               map_option (\<lambda>(answered, y1, ts1).
                 let P1 = P\<lparr>cache := Some y1\<rparr>; c1 = vars y1 in
                 if \<not> answered then (0, arg, P1, ts1)
                 else if control_res c1 \<noteq> STREAM_OK then (control_res c1, arg, P1, ts1)
                 else
                   let P2 = (if pos_change
                             then P1\<lparr>strm := (strm P)\<lparr>st_pos := p_read (cache_pos_get c1), st_eof := c_eof c1\<rparr>\<rparr>
                             else P1)
                   in (control_res c1, control_answer cmd arg c1, P2, ts1))
               (control_wait E ts (y\<lparr>vars := c\<rparr>))))"

definition stream_control ::
  "'d cache_env \<Rightarrow> turn list \<Rightarrow> int \<Rightarrow> ctrl_arg \<Rightarrow> 'd player \<Rightarrow> (int \<times> ctrl_arg \<times> 'd player \<times> turn list) option" where
  "stream_control E ts cmd arg P =
     (case control (cops E) of
        None \<Rightarrow> Some (STREAM_UNSUPPORTED, arg, P, ts)
      | Some ctl \<Rightarrow>
          if cache P \<noteq> None then cache_do_control E ts cmd arg P
          else let (r, a, s, d) = ctl (strm P) cmd arg (drv (pio P))
               in Some (r, a, P\<lparr>strm := s, pio := (pio P)\<lparr>drv := d\<rparr>\<rparr>, ts))"

section \<open>A cached stream is its data and a position\<close>

text \<open>
  The player's buffer holds the bytes before its position, and the position is where the cache's reader is.
\<close>

definition buffer_ok :: "string \<Rightarrow> stream \<Rightarrow> bool" where
  "buffer_ok fl s \<longleftrightarrow> 0 \<le> buf_pos s \<and> buf_pos s \<le> buf_len s \<and> buf_len s \<le> st_pos s \<and> buf_len s \<le> STREAM_MAX_SECTOR_SIZE \<and>
     length (st_buffer s) = nat STREAM_MAX_SECTOR_SIZE \<and>
     (\<forall>i. 0 \<le> i \<and> i < buf_len s \<longrightarrow> st_pos s - buf_len s + i < int (length fl) \<and>
        st_buffer s ! nat i = fl ! nat (st_pos s - buf_len s + i))"

definition player_inv :: "string \<Rightarrow> (int \<Rightarrow> 'd \<Rightarrow> bool) \<Rightarrow> 'd player \<Rightarrow> bool" where
  "player_inv fl placed P \<longleftrightarrow>
     (case cache P of
        None \<Rightarrow> False
      | Some y \<Rightarrow> cache_inv fl placed y \<and> read_filepos (vars y) = st_pos (strm P) \<and> buffer_ok fl (strm P))"

text \<open>
  Nothing in the code keeps the player from moving the position while the worker is between its look at
  eof and the publication of the minimum. \<open>seek_safe\<close> says that this does no harm: the byte is in the player's own buffer, or
  the worker is elsewhere, or it has found the reader inside the window and the seek does not go behind the position of
  its snapshot. (With such a snapshot \<open>F_act\<close> is a single section, \<open>cache_pos_set_min\<close>; outside the window it is the
  flush and the seek of the driver, during which the reader waits.)
\<close>

definition seek_safe :: "int \<Rightarrow> 'd player \<Rightarrow> bool" where
  "seek_safe pos P =
     (let s = strm P; x = max 0 pos in
      st_pos s - buf_len s \<le> x \<and> x < st_pos s \<or>
      (case cache P of
         None \<Rightarrow> True
       | Some y \<Rightarrow>
         (case filler y of
            F_snap \<Rightarrow> min_filepos (vars y) \<le> read_filepos (vars y) \<and> read_filepos (vars y) \<le> max_filepos (vars y)
          | F_act p \<Rightarrow> p_min p \<le> p_read p \<and> p_read p \<le> p_max p \<and>
              p_read p \<le> off_div x (sector_size (vars y)) * sector_size (vars y)
          | _ \<Rightarrow> True)))"

definition may_move :: "int \<Rightarrow> 'd cache_sys \<Rightarrow> bool" where
  "may_move q y =
     (case filler y of F_snap \<Rightarrow> in_window (vars y) | F_act p \<Rightarrow> p_min p \<le> p_read p \<and> p_read p \<le> p_max p \<and> p_read p \<le> q | _ \<Rightarrow> True)"

text \<open>
  The number of turns that always suffices for one fill of the player's buffer: at most 8192 copies, with at
  most 3000 waits of ten milliseconds before each.
\<close>

abbreviation FILL_TURNS :: nat where "FILL_TURNS \<equiv> 8192 * 3002 + 3001"

context cached_driver
begin

lemma cache_read_law:
  "inv y \<Longrightarrow> cache_read E ts n y = Some (out, y1, ts1) \<Longrightarrow>
   inv y1 \<and> read_filepos (vars y1) = read_filepos (vars y) + int (length out) \<and> int (length out) \<le> max 0 n \<and>
   out = take (length out) (drop (nat (read_filepos (vars y))) fl)"
  using cache_read_loop_law [of y ts "timer y" n out y1 ts1] by (simp add: cache_read_def delivered_def)

lemma fill_any:
  assumes y: "cache P = Some y" "inv y" "read_filepos (vars y) = st_pos (strm P)"
    and pos: "0 \<le> st_pos (strm P)" "length (st_buffer (strm P)) = nat STREAM_MAX_SECTOR_SIZE"
    and fb: "cache_stream_fill_buffer E ts P = Some (r, P1, ts1)"
  shows "player_inv fl placed P1" "st_pos (strm P1) - buf_len (strm P1) = st_pos (strm P)" "buf_pos (strm P1) = 0"
    "buf_len (strm P1) = r" "0 \<le> r"
proof -
  define sector where "sector = (if STREAM_MAX_SECTOR_SIZE < sector_size (vars y) then STREAM_MAX_SECTOR_SIZE else sector_size (vars y))"
  obtain bs y1 where rd: "cache_read E ts sector y = Some (bs, y1, ts1)"
    using fb by (auto simp: cache_stream_fill_buffer_def y(1) sector_def [symmetric] Let_def split: if_splits)
  note law = cache_read_law [OF y(2) rd]
  have len: "int (length bs) \<le> STREAM_MAX_SECTOR_SIZE" using law by (auto simp: sector_def split: if_splits)
  let ?s = "(strm P)\<lparr>st_eof := False, buf_pos := 0, buf_len := int (length bs), st_pos := st_pos (strm P) + int (length bs),
    st_buffer := mem_store (st_buffer (strm P)) 0 bs\<rparr>"
  have P1: "P1 = (if bs = [] then P\<lparr>strm := (strm P)\<lparr>st_eof := True, buf_pos := 0, buf_len := 0\<rparr>, cache := Some y1\<rparr>
      else P\<lparr>strm := ?s, cache := Some y1\<rparr>)" "r = int (length bs)"
    using fb rd by (auto simp: cache_stream_fill_buffer_def y(1) sector_def [symmetric] Let_def split: if_splits)
  have bytes: "st_pos (strm P) + i < int (length fl) \<and> mem_store (st_buffer (strm P)) 0 bs ! nat i = fl ! nat (st_pos (strm P) + i)"
    if "0 \<le> i" "i < int (length bs)" for i
  proof -
    have e: "bs = take (length bs) (drop (nat (st_pos (strm P))) fl)" using law y(3) by simp
    from arg_cong [OF this, of length] that have l: "nat (st_pos (strm P)) + length bs \<le> length fl" by (simp add: min_def split: if_splits)
    have "bs ! nat i = fl ! (nat (st_pos (strm P)) + nat i)" using that l by (subst e) simp
    moreover have "st_pos (strm P) + i < int (length fl)" "nat i < length bs" using that l pos by linarith+
    ultimately show ?thesis using that pos by (simp add: mem_store_def nth_append nat_add_distrib)
  qed
  have "buffer_ok fl ?s" using bytes pos len by (simp add: buffer_ok_def mem_store_def)
  moreover have "buffer_ok fl ((strm P)\<lparr>st_eof := True, buf_pos := 0, buf_len := 0\<rparr>)"
    using pos by (auto simp: buffer_ok_def)
  ultimately show "player_inv fl placed P1" using law y(3) by (simp add: player_inv_def P1)
  show "st_pos (strm P1) - buf_len (strm P1) = st_pos (strm P)" "buf_pos (strm P1) = 0" "buf_len (strm P1) = r" "0 \<le> r"
    by (auto simp: P1)
qed

lemma player_fill:
  assumes "player_inv fl placed P" "cache_stream_fill_buffer E ts P = Some (r, P1, ts1)" "buf_pos (strm P) = buf_len (strm P)"
  shows "player_inv fl placed P1" "stream_tell (strm P1) = stream_tell (strm P)" "buf_pos (strm P1) = 0"
    "buf_len (strm P1) = r" "0 \<le> r"
proof -
  obtain y where "cache P = Some y" "inv y" "read_filepos (vars y) = st_pos (strm P)" "0 \<le> st_pos (strm P)"
    "length (st_buffer (strm P)) = nat STREAM_MAX_SECTOR_SIZE"
    using assms(1) by (auto simp: player_inv_def buffer_ok_def split: option.splits)
  note fa = fill_any [OF this assms(2)]
  from fa(1,3-5) show "player_inv fl placed P1" "buf_pos (strm P1) = 0" "buf_len (strm P1) = r" "0 \<le> r" .
  from fa(2,3) assms(3) show "stream_tell (strm P1) = stream_tell (strm P)" by (simp add: stream_tell_def)
qed

lemma take_buffer:
  assumes "buffer_ok fl s" "0 \<le> x" "x \<le> buf_len s - buf_pos s"
  shows "take (nat x) (drop (nat (buf_pos s)) (st_buffer s)) = take (nat x) (drop (nat (stream_tell s)) fl)"
    "nat (stream_tell s) + nat x \<le> length fl \<or> x = 0" "0 \<le> stream_tell s"
proof -
  have b: "0 \<le> buf_pos s" "buf_len s \<le> st_pos s" "buf_pos s \<le> buf_len s" "buf_len s \<le> int (length (st_buffer s))"
    using assms(1) by (auto simp: buffer_ok_def)
  have at: "stream_tell s + i < int (length fl) \<and> st_buffer s ! nat (buf_pos s + i) = fl ! nat (stream_tell s + i)"
    if "0 \<le> i" "i < x" for i
    using assms(1) that assms(3) b(1) unfolding buffer_ok_def stream_tell_def
    by (elim conjE allE [of _ "buf_pos s + i"]) (auto simp: algebra_simps)
  show t: "0 \<le> stream_tell s" using b by (simp add: stream_tell_def)
  show fl: "nat (stream_tell s) + nat x \<le> length fl \<or> x = 0" using at [of "x - 1"] assms(2) t by linarith
  show "take (nat x) (drop (nat (buf_pos s)) (st_buffer s)) = take (nat x) (drop (nat (stream_tell s)) fl)"
  proof (rule nth_equalityI)
    show "length (take (nat x) (drop (nat (buf_pos s)) (st_buffer s))) = length (take (nat x) (drop (nat (stream_tell s)) fl))"
      using fl b assms(2,3) by auto
    fix j assume "j < length (take (nat x) (drop (nat (buf_pos s)) (st_buffer s)))"
    then have "j < nat x" "nat (stream_tell s) + j < length fl" using fl by auto
    with at [of "int j"] fl b assms(3) t
    show "take (nat x) (drop (nat (buf_pos s)) (st_buffer s)) ! j = take (nat x) (drop (nat (stream_tell s)) fl) ! j"
      by (simp add: nat_add_distrib)
  qed
qed

text \<open>
  What an operation that delivers \<open>out\<close> leaves: the position behind those bytes of the data, nothing of the
  state's meaning changed.
\<close>

definition moved :: "'d player \<Rightarrow> string \<Rightarrow> 'd player \<Rightarrow> bool" where
  "moved P out P1 \<longleftrightarrow> player_inv fl placed P1 \<and> stream_tell (strm P1) = stream_tell (strm P) + int (length out) \<and>
     out = take (length out) (drop (nat (stream_tell (strm P))) fl)"

lemma moved_refl: "player_inv fl placed P1 \<Longrightarrow> stream_tell (strm P1) = stream_tell (strm P) \<Longrightarrow> moved P [] P1"
  by (simp add: moved_def)

lemma moved_trans:
  assumes "moved P a P1" "moved P1 b P2" "0 \<le> stream_tell (strm P)"
  shows "moved P (a @ b) P2"
proof -
  let ?q = "nat (stream_tell (strm P))"
  have "a = take (length a) (drop ?q fl)" "b = take (length b) (drop (length a) (drop ?q fl))"
    using assms by (auto simp: moved_def nat_add_distrib add.commute)
  then have "a @ b = take (length (a @ b)) (drop ?q fl)" by (metis length_append take_add)
  moreover have "player_inv fl placed P2" "stream_tell (strm P2) = stream_tell (strm P) + int (length (a @ b))"
    using assms(1,2) by (simp_all add: moved_def)
  ultimately show ?thesis unfolding moved_def by blast
qed

lemma tell_nonneg: "player_inv fl placed P \<Longrightarrow> 0 \<le> stream_tell (strm P)"
  by (auto simp: player_inv_def buffer_ok_def stream_tell_def split: option.splits)

lemma fill_moved:
  assumes "player_inv fl placed P"
    "(if buf_len (strm P) - buf_pos (strm P) = 0 then cache_stream_fill_buffer E ts P else Some (1, P, ts)) = Some (r, P1, ts1)"
  shows "moved P [] P1" "r \<noteq> 0 \<longrightarrow> 0 < buf_len (strm P1) - buf_pos (strm P1)"
proof (atomize (full), cases "buf_len (strm P) - buf_pos (strm P) = 0")
  case True
  with player_fill [OF assms(1), of ts r P1 ts1] assms(2)
  show "moved P [] P1 \<and> (r \<noteq> 0 \<longrightarrow> 0 < buf_len (strm P1) - buf_pos (strm P1))" by (simp add: moved_refl)
next
  case False
  with assms show "moved P [] P1 \<and> (r \<noteq> 0 \<longrightarrow> 0 < buf_len (strm P1) - buf_pos (strm P1))"
    by (auto simp: player_inv_def buffer_ok_def moved_refl split: option.splits)
qed

lemma take_moved:
  assumes "player_inv fl placed P" "0 \<le> x" "x \<le> buf_len (strm P) - buf_pos (strm P)"
  shows "moved P (take (nat x) (drop (nat (buf_pos (strm P))) (st_buffer (strm P))))
    (P\<lparr>strm := (strm P)\<lparr>buf_pos := buf_pos (strm P) + x\<rparr>\<rparr>)"
proof -
  have b: "buffer_ok fl (strm P)" using assms(1) by (auto simp: player_inv_def split: option.splits)
  note tb = take_buffer [OF b assms(2,3)]
  from b assms(2,3) have "buffer_ok fl ((strm P)\<lparr>buf_pos := buf_pos (strm P) + x\<rparr>)" by (simp add: buffer_ok_def)
  with tb assms show ?thesis by (auto simp: moved_def player_inv_def stream_tell_def split: option.splits)
qed

lemma read_loop_unfold:
  assumes "\<not> n \<le> 0"
    "(if buf_len (strm P) - buf_pos (strm P) = 0 then cache_stream_fill_buffer E ts P else Some (1, P, ts)) = Some (r, P2, ts2)"
    "x0 = buf_len (strm P2) - buf_pos (strm P2)" "x = (if n < x0 then n else x0)"
    "P3 = P2\<lparr>strm := (strm P2)\<lparr>buf_pos := buf_pos (strm P2) + x\<rparr>\<rparr>"
  shows "stream_read_loop E ts n P = (if r = 0 then Some ([], P2, ts2) else if x0 \<le> 0 then None
    else map_option (\<lambda>(bs, z). (take (nat x) (drop (nat (buf_pos (strm P2))) (st_buffer (strm P2))) @ bs, z))
           (stream_read_loop E ts2 (n - x) P3))"
  unfolding stream_read_loop.simps [of E ts n P] assms(2) using assms(1) by (simp add: Let_def assms(3-5))

theorem stream_read_law:
  "player_inv fl placed P \<Longrightarrow> stream_read_loop E ts n P = Some (out, P1, ts1) \<Longrightarrow>
   moved P out P1 \<and> int (length out) \<le> max 0 n"
proof (induction "nat n" arbitrary: n P ts out rule: less_induct)
  case less
  show ?case
  proof (cases "n \<le> 0")
    case True
    with less.prems show ?thesis by (auto simp: stream_read_loop.simps moved_refl)
  next
    case False
    obtain r P2 ts2 where f: "(if buf_len (strm P) - buf_pos (strm P) = 0 then cache_stream_fill_buffer E ts P
        else Some (1, P, ts)) = Some (r, P2, ts2)"
      using less.prems(2) False by (subst (asm) stream_read_loop.simps) (auto split: option.splits)
    note fm = fill_moved [OF less.prems(1) f]
    define x0 where "x0 = buf_len (strm P2) - buf_pos (strm P2)"
    define x where "x = (if n < x0 then n else x0)"
    define P3 where "P3 = P2\<lparr>strm := (strm P2)\<lparr>buf_pos := buf_pos (strm P2) + x\<rparr>\<rparr>"
    note eq = read_loop_unfold [OF False f x0_def x_def P3_def]
    show ?thesis
    proof (cases "r = 0")
      case True
      with less.prems(2) eq fm False show ?thesis by auto
    next
      case r: False
      with fm have x: "0 < x0" "0 < x" "x \<le> n" "x \<le> x0" using False by (auto simp: x0_def x_def)
      with less.prems(2) eq r obtain bs where bs: "stream_read_loop E ts2 (n - x) P3 = Some (bs, P1, ts1)"
        "out = take (nat x) (drop (nat (buf_pos (strm P2))) (st_buffer (strm P2))) @ bs" by auto
      have P2: "player_inv fl placed P2" using fm(1) by (simp add: moved_def)
      have m3: "moved P2 (take (nat x) (drop (nat (buf_pos (strm P2))) (st_buffer (strm P2)))) P3"
        unfolding P3_def by (rule take_moved [OF P2]) (use x in \<open>auto simp: x0_def\<close>)
      then have "player_inv fl placed P3" by (simp add: moved_def)
      from less.hyps [OF _ this bs(1)] x have "moved P3 bs P1" "int (length bs) \<le> max 0 (n - x)" by auto
      then show ?thesis
        using moved_trans [OF moved_trans [OF fm(1) m3 tell_nonneg [OF less.prems(1)]] _ tell_nonneg [OF less.prems(1)]] bs(2) x
        by auto
    qed
  qed
qed

lemma set_read_keeps:
  assumes "inv y" "0 \<le> q" "may_move q y"
  shows "inv (y\<lparr>vars := (cache_pos_set_read (vars y) q)\<lparr>c_eof := False\<rparr>\<rparr>)"
proof -
  let ?c = "cache_pos_set_read (vars y) q"
  have c: "ring_ok fl ?c" "cache_conf ?c" "plan_ok pl ?c = plan_ok pl (vars y)" "slot ?c = slot (vars y)"
    "max_filepos ?c = max_filepos (vars y)" "ring ?c = ring (vars y)" "c_control ?c = c_control (vars y)" for pl
    using assms(1,2) by (auto simp: cache_inv_def ring_ok_def cache_conf_def plan_ok_def slot_def cache_pos_set_read_def fun_eq_iff)
  have same: "sync placed x (y\<lparr>vars := ?c\<lparr>c_eof := False\<rparr>\<rparr>) = sync placed x y" for x by (simp add: sync_def)
  have ok: "filler_ok fl placed y" using assms(1) by (simp add: cache_inv_def)
  have "filler_ok fl placed (y\<lparr>vars := ?c\<lparr>c_eof := False\<rparr>\<rparr>)"
  proof (cases "filler y")
    case F_snap
    then show ?thesis using ok assms(3) by (simp add: Let_def same c may_move_def)
  next
    case (F_act p)
    then have r: "p_min p \<le> p_read p" "p_read p \<le> p_max p" "p_read p \<le> q" and s: "snap_ok p (vars y)" "sync placed (max_filepos (vars y)) y"
      using ok assms(3) by (auto simp: Let_def may_move_def)
    have "snap_ok p (?c\<lparr>c_eof := False\<rparr>)" using s(1) r by (simp add: snap_ok_def cache_pos_set_read_def)
    then show ?thesis using F_act s(2) by (simp add: Let_def same c)
  qed (use ok in \<open>simp_all add: Let_def same c\<close>)
  then show ?thesis using assms(1) c by (simp add: cache_inv_def)
qed

lemma off_div_bounds: "0 \<le> pos \<Longrightarrow> 0 < b \<Longrightarrow> 0 \<le> off_div pos b * b \<and> off_div pos b * b \<le> pos"
  by (simp add: off_div_def pos_imp_zdiv_nonneg_iff minus_mod_eq_div_mult [symmetric] zmod_le_nonneg_dividend)

lemma seek_long_law:
  assumes "player_inv fl placed P" "\<forall>y. cache P = Some y \<longrightarrow> may_move (off_div pos (sector_size (vars y)) * sector_size (vars y)) y" "0 \<le> pos"
    "cache_stream_seek_long E ts pos P = Some (r, P1, ts1)"
  shows "player_inv fl placed P1" "r \<noteq> 0 \<longrightarrow> stream_tell (strm P1) = pos"
proof -
  obtain y where y: "cache P = Some y" "inv y" "length (st_buffer (strm P)) = nat STREAM_MAX_SECTOR_SIZE" "0 < sector_size (vars y)"
    using assms(1) by (auto simp: player_inv_def buffer_ok_def cache_inv_def cache_conf_def split: option.splits)
  define q where "q = off_div pos (sector_size (vars y)) * sector_size (vars y)"
  define y0 where "y0 = y\<lparr>vars := (cache_pos_set_read (vars y) q)\<lparr>c_eof := False\<rparr>\<rparr>"
  define P0 where "P0 = P\<lparr>strm := (strm P)\<lparr>st_pos := q\<rparr>, cache := Some y0\<rparr>"
  have q: "0 \<le> q" "q \<le> pos" using off_div_bounds [OF assms(3) y(4)] by (auto simp: q_def)
  have y0: "inv y0" "read_filepos (vars y0) = q"
    using set_read_keeps [OF y(2) q(1)] assms(2) y(1) by (auto simp: q_def y0_def cache_pos_set_read_def)
  have eq: "cache_stream_seek_long E ts pos P = map_option (\<lambda>(_, P2, ts2).
      if pos - q \<le> buf_len (strm P2) then (1, P2\<lparr>strm := (strm P2)\<lparr>buf_pos := pos - q\<rparr>\<rparr>, ts2) else (0, P2, ts2))
      (cache_stream_fill_buffer E ts P0)"
    using q by (simp add: cache_stream_seek_long_def y(1) q_def [symmetric] y0_def [symmetric] P0_def [symmetric] Let_def)
  obtain n P2 ts2 where f: "cache_stream_fill_buffer E ts P0 = Some (n, P2, ts2)" using assms(4) eq by auto
  have P1: "P1 = (if pos - q \<le> buf_len (strm P2) then P2\<lparr>strm := (strm P2)\<lparr>buf_pos := pos - q\<rparr>\<rparr> else P2)"
      "r = (if pos - q \<le> buf_len (strm P2) then 1 else 0)"
    using assms(4) eq f by auto
  have "player_inv fl placed P2" "st_pos (strm P2) - buf_len (strm P2) = q"
    using fill_any [OF _ y0(1) _ _ _ f] y0(2) q(1) y(3) by (auto simp: P0_def)
  with q(2) show "player_inv fl placed P1" "r \<noteq> 0 \<longrightarrow> stream_tell (strm P1) = pos"
    by (auto simp: P1 player_inv_def buffer_ok_def stream_tell_def split: option.splits)
qed

lemma safe_move:
  assumes "seek_safe pos P" "\<not> (max 0 pos < st_pos (strm P) \<and> 0 \<le> max 0 pos - (st_pos (strm P) - buf_len (strm P)))"
  shows "\<forall>y. cache P = Some y \<longrightarrow> may_move (off_div (max 0 pos) (sector_size (vars y)) * sector_size (vars y)) y"
  using assms by (auto simp: seek_safe_def may_move_def in_window_def Let_def split: filler_pc.splits)

theorem stream_seek_law:
  assumes "player_inv fl placed P" "seek_safe pos P" "stream_seek E ts pos P = Some (r, P1, ts1)"
  shows "player_inv fl placed P1" "r \<noteq> 0 \<longrightarrow> stream_tell (strm P1) = max 0 pos"
proof (atomize (full))
  let ?x = "max 0 pos - (st_pos (strm P) - buf_len (strm P))"
  have m: "(if pos < 0 then 0 else pos) = max 0 pos" by simp
  show "player_inv fl placed P1 \<and> (r \<noteq> 0 \<longrightarrow> stream_tell (strm P1) = max 0 pos)"
  proof (cases "max 0 pos < st_pos (strm P) \<and> 0 \<le> ?x")
    case True
    with assms(3) have "P1 = P\<lparr>strm := (strm P)\<lparr>buf_pos := ?x\<rparr>\<rparr>" by (simp add: stream_seek_def m Let_def)
    with assms(1) True show ?thesis by (auto simp: player_inv_def buffer_ok_def stream_tell_def split: option.splits)
  next
    case False
    with assms(3) have "cache_stream_seek_long E ts (max 0 pos) P = Some (r, P1, ts1)" by (auto simp: stream_seek_def m Let_def)
    from seek_long_law [OF assms(1) safe_move [OF assms(2) False] _ this] show ?thesis by simp
  qed
qed

lemma prefill_loop_keeps:
  "inv y \<Longrightarrow> prefill_loop E ts mn since q y = Some (r, y1, ts1) \<Longrightarrow>
   inv y1 \<and> read_filepos (vars y1) = read_filepos (vars y)"
proof (induction ts arbitrary: since q y)
  case (Cons t ts)
  define y2 where "y2 = filler_run E (t_before t) y"
  have k: "inv y2" "read_filepos (vars y2) = read_filepos (vars y)"
    using filler_run_keeps [OF Cons.prems(1)] by (auto simp: y2_def reader_kept_def)
  let ?y = "y2\<lparr>timer := timer y2 + t_ms t\<rparr>"
  from Cons.prems(2) consider "y1 = y2" | s p where "prefill_loop E ts mn s p ?y = Some (r, y1, ts1)"
    by (auto simp: y2_def [symmetric] Let_def split: if_splits)
  then show ?case using Cons.IH [of ?y] k by cases auto
qed simp

lemma cache_read_total:
  assumes "inv y" "\<forall>t\<in>set ts. 10 \<le> t_ms t" "nat n * 3002 + 3000 < length ts"
  shows "\<exists>out y1 k. cache_read E ts n y = Some (out, y1, drop k ts) \<and> k \<le> nat n * 3002 + 3001"
proof -
  have "nat n * 3002 + (30000 - (timer y - timer y) + 9) div 10 < length ts" using assms(3) by simp
  from cache_read_loop_returns [OF assms(1) le_refl assms(2) this] obtain out y1 k where
    "cache_read_loop E ts (timer y) n y = Some (out, y1, drop k ts)" "k \<le> nat n * 3002 + 3001" by auto
  then show ?thesis unfolding cache_read_def by blast
qed

lemma fill_total:
  assumes y: "cache P = Some y" "inv y" and ts: "\<forall>t\<in>set ts. 10 \<le> t_ms t" "FILL_TURNS \<le> length ts"
  shows "\<exists>r P1 k. cache_stream_fill_buffer E ts P = Some (r, P1, drop k ts) \<and> k \<le> FILL_TURNS \<and> (r = 0 \<longrightarrow> st_eof (strm P1))"
proof -
  define sector where "sector = (if STREAM_MAX_SECTOR_SIZE < sector_size (vars y) then STREAM_MAX_SECTOR_SIZE else sector_size (vars y))"
  have s: "nat sector \<le> 8192" by (auto simp: sector_def)
  then have "nat sector * 3002 + 3000 < length ts" using ts(2) by linarith
  from cache_read_total [OF y(2) ts(1) this] obtain out y1 k where
    r: "cache_read E ts sector y = Some (out, y1, drop k ts)" "k \<le> nat sector * 3002 + 3001" by blast
  have k: "k \<le> FILL_TURNS" using r(2) s by linarith
  obtain n P1 where "cache_stream_fill_buffer E ts P = Some (n, P1, drop k ts)" "n = 0 \<longrightarrow> st_eof (strm P1)"
    by (cases "out = []") (auto simp: cache_stream_fill_buffer_def y(1) sector_def [symmetric] r(1) Let_def)
  with k show ?thesis by blast
qed

theorem stream_read_total:
  "player_inv fl placed P \<Longrightarrow> \<forall>t\<in>set ts. 10 \<le> t_ms t \<Longrightarrow> nat n * FILL_TURNS \<le> length ts \<Longrightarrow>
   \<exists>out P1 ts1. stream_read_loop E ts n P = Some (out, P1, ts1) \<and> (int (length out) < n \<longrightarrow> st_eof (strm P1))"
proof (induction "nat n" arbitrary: n P ts rule: less_induct)
  case less
  show ?case
  proof (cases "n \<le> 0")
    case True
    then show ?thesis by (auto simp: stream_read_loop.simps)
  next
    case False
    then have one: "FILL_TURNS \<le> length ts" "nat (n - 1) * FILL_TURNS + FILL_TURNS \<le> length ts"
      using less.prems(3) by (simp_all add: nat_diff_distrib algebra_simps)
    obtain r P2 k where f: "(if buf_len (strm P) - buf_pos (strm P) = 0 then cache_stream_fill_buffer E ts P
        else Some (1, P, ts)) = Some (r, P2, drop k ts)" and k: "k \<le> FILL_TURNS" "r = 0 \<longrightarrow> st_eof (strm P2)"
    proof (cases "buf_len (strm P) - buf_pos (strm P) = 0")
      case True
      obtain y where "cache P = Some y" "inv y" using less.prems(1) by (auto simp: player_inv_def split: option.splits)
      from fill_total [OF this less.prems(2) one(1)] True that show thesis by auto
    next
      case False
      with that [of 1 P 0] show thesis by simp
    qed
    note fm = fill_moved [OF less.prems(1) f]
    define x0 where "x0 = buf_len (strm P2) - buf_pos (strm P2)"
    define x where "x = (if n < x0 then n else x0)"
    define P3 where "P3 = P2\<lparr>strm := (strm P2)\<lparr>buf_pos := buf_pos (strm P2) + x\<rparr>\<rparr>"
    note eq = read_loop_unfold [OF False f x0_def x_def P3_def]
    show ?thesis
    proof (cases "r = 0")
      case True
      with eq k(2) show ?thesis by simp
    next
      case r: False
      with fm have x: "0 < x0" "0 < x" "x \<le> n" "x \<le> x0" using False by (auto simp: x0_def x_def)
      have m3: "moved P2 (take (nat x) (drop (nat (buf_pos (strm P2))) (st_buffer (strm P2)))) P3"
        unfolding P3_def by (rule take_moved) (use x fm(1) in \<open>auto simp: x0_def moved_def\<close>)
      then have P3: "player_inv fl placed P3" by (simp add: moved_def)
      have "nat (n - x) \<le> nat (n - 1)" using x by simp
      then have "nat (n - x) * FILL_TURNS \<le> length (drop k ts)" using one(2) k(1) mult_le_mono1 [of "nat (n - x)" "nat (n - 1)" FILL_TURNS]
        by simp
      moreover have "\<forall>t\<in>set (drop k ts). 10 \<le> t_ms t" using less.prems(2) by (auto dest: in_set_dropD)
      ultimately obtain out P1 ts1 where IH: "stream_read_loop E (drop k ts) (n - x) P3 = Some (out, P1, ts1)"
        "int (length out) < n - x \<longrightarrow> st_eof (strm P1)"
        using less.hyps [of "n - x" P3 "drop k ts"] P3 x by auto
      have "int (length (take (nat x) (drop (nat (buf_pos (strm P2))) (st_buffer (strm P2))))) = x"
      proof -
        have "stream_tell (strm P3) = stream_tell (strm P2) + x" by (simp add: P3_def stream_tell_def)
        with m3 show ?thesis unfolding moved_def by linarith
      qed
      with IH eq r x show ?thesis by auto
    qed
  qed
qed

theorem stream_seek_total:
  assumes "player_inv fl placed P" "seek_safe pos P" "\<forall>t\<in>set ts. 10 \<le> t_ms t" "FILL_TURNS \<le> length ts"
  shows "\<exists>r P1 ts1. stream_seek E ts pos P = Some (r, P1, ts1)"
proof (cases "max 0 pos < st_pos (strm P) \<and> 0 \<le> max 0 pos - (st_pos (strm P) - buf_len (strm P))")
  case True
  have "(if pos < 0 then 0 else pos) = max 0 pos" by simp
  then show ?thesis using True by (auto simp: stream_seek_def Let_def)
next
  case False
  obtain y where y: "cache P = Some y" "inv y" "0 < sector_size (vars y)"
    using assms(1) by (auto simp: player_inv_def cache_inv_def cache_conf_def split: option.splits)
  define q where "q = off_div (max 0 pos) (sector_size (vars y)) * sector_size (vars y)"
  define y0 where "y0 = y\<lparr>vars := (cache_pos_set_read (vars y) q)\<lparr>c_eof := False\<rparr>\<rparr>"
  have "0 \<le> q" using off_div_bounds [OF _ y(3), of "max 0 pos"] by (simp add: q_def)
  then have y0: "inv y0" using set_read_keeps [OF y(2)] safe_move [OF assms(2) False] y(1) by (simp add: q_def y0_def)
  define P0 where "P0 = P\<lparr>strm := (strm P)\<lparr>st_pos := q\<rparr>, cache := Some y0\<rparr>"
  obtain n P2 ts2 where f: "cache_stream_fill_buffer E ts P0 = Some (n, P2, ts2)"
    using fill_total [of P0 y0 ts, OF _ y0 assms(3,4)] by (auto simp: P0_def)
  have "(if pos < 0 then 0 else pos) = max 0 pos" by simp
  then have "stream_seek E ts pos P \<noteq> None"
    by (simp add: stream_seek_def cache_stream_seek_long_def y(1) q_def [symmetric] y0_def [symmetric] P0_def [symmetric] Let_def f)
  then show ?thesis by (metis not_Some_eq surj_pair)
qed

text \<open>The prefill ends: the window grows around the reader up to the target, with at most 3000 waits before each growth.\<close>

lemma prefill_loop_returns:
  "inv y \<Longrightarrow> in_window (vars y) \<Longrightarrow> q \<le> max_filepos (vars y) \<Longrightarrow> since \<le> timer y \<Longrightarrow> \<forall>t\<in>set ts. 10 \<le> t_ms t \<Longrightarrow>
   nat (read_filepos (vars y) + mn - q) * 3002 + (30000 - (timer y - since) + 9) div 10 < length ts \<Longrightarrow>
   prefill_loop E ts mn since q y \<noteq> None"
proof (induction ts arbitrary: since q y)
  case (Cons t ts)
  define y2 where "y2 = filler_run E (t_before t) y"
  have k: "inv y2" "read_filepos (vars y2) = read_filepos (vars y)" "in_window (vars y2)"
    "max_filepos (vars y) \<le> max_filepos (vars y2)" "timer y2 = timer y"
    using filler_run_keeps [OF Cons.prems(1)] Cons.prems(2) by (auto simp: y2_def reader_kept_def filler_run_timer)
  let ?y = "y2\<lparr>timer := timer y2 + t_ms t\<rparr>" and ?m = "max_filepos (vars y2)" and ?r = "read_filepos (vars y)"
  have ms: "10 \<le> t_ms t" "\<forall>t\<in>set ts. 10 \<le> t_ms t" using Cons.prems(5) by auto
  show ?case
  proof (cases "\<not> (?m - ?r < mn) \<or> t_stop t \<or> t_interrupt t \<or> c_eof (vars y2) \<or> ?m = q \<and> 30000 \<le> timer y - since")
    case True
    then show ?thesis using k
      by (auto simp: y2_def [symmetric] Let_def cache_pos_get_def in_window_def)
  next
    case False
    then have eq: "prefill_loop E (t # ts) mn since q y =
      (if ?m \<noteq> q then prefill_loop E ts mn (timer y) ?m ?y else prefill_loop E ts mn since q ?y)"
      using k by (simp add: y2_def [symmetric] Let_def cache_pos_get_def in_window_def)
    show ?thesis
    proof (cases "?m = q")
      case True
      then have "timer y - since < 30000" using False by simp
      then have "(30000 - (timer ?y - since) + 9) div 10 < (30000 - (timer y - since) + 9) div 10"
        using Cons.prems(4) ms(1) k(5) wait_div [of "30000 - (timer y - since)" "t_ms t"] by simp
      then have "nat (?r + mn - q) * 3002 + (30000 - (timer ?y - since) + 9) div 10 < length ts"
        using Cons.prems(6) unfolding length_Cons by linarith
      with Cons.IH [of ?y q since] k Cons.prems(3,4) ms(2) eq True show ?thesis by simp
    next
      case grew: False
      have "nat (?r + mn - ?m) * 3002 + 3002 \<le> nat (?r + mn - q) * 3002"
        using grew False k(4) Cons.prems(3) by auto
      then have "nat (?r + mn - ?m) * 3002 + 3001 < length ts" using Cons.prems(6) unfolding length_Cons by linarith
      moreover have "(30000 - (timer ?y - timer y) + 9) div 10 \<le> (3000 :: nat)" using ms(1) k(5) by simp
      ultimately have "nat (?r + mn - ?m) * 3002 + (30000 - (timer ?y - timer y) + 9) div 10 < length ts" by linarith
      with Cons.IH [of ?y ?m "timer y"] k ms(2) eq grew show ?thesis by simp
    qed
  qed
qed simp

text \<open>Starting the cache on a driver that is where the stream says it is.\<close>

definition startable :: "'d player \<Rightarrow> bool" where
  "startable P \<longleftrightarrow> cache P = None \<and> buffer_ok fl (strm P) \<and> placed (st_pos (strm P)) (drv (pio P)) \<and>
     st_type (strm P) \<noteq> STREAMTYPE_STREAM \<and> st_type (strm P) \<noteq> STREAMTYPE_DS \<and> 0 \<le> st_read_chunk (strm P) \<and>
     0 \<le> st_sector_size (strm P) \<and> st_sector_size (strm P) \<le> STREAM_MAX_SECTOR_SIZE"

lemma cache_init_conf:
  assumes "cache_init True sz sector = Some c" "0 < sector" "sector \<le> STREAM_MAX_SECTOR_SIZE" "sz < 2 ^ 31"
  shows "cache_conf c" "c_control c = - 1" "sector_size c = sector"
proof -
  define num where "num = (if off_div sz sector < 16 then 16 else off_div sz sector)"
  have c: "buffer_size c = num * sector" "sector_size c = sector" "back_size c = num * sector div 4" "fill_limit c = 8 * sector"
    "ring c = replicate (nat (num * sector)) (CHR 0x00)" "c_control c = - 1"
    using assms(1) by (auto simp: cache_init_def num_def Let_def)
  have "16 \<le> num" by (simp add: num_def)
  then have lo: "16 * sector \<le> num * sector" using assms(2) by (intro mult_right_mono) auto
  have "num * sector < 2 ^ 31"
  proof (cases "off_div sz sector < 16")
    case True
    then show ?thesis using assms(3) by (simp add: num_def)
  next
    case False
    then have "0 \<le> sz" using assms(2) pos_imp_zdiv_nonneg_iff [of sector "- sz"]
      by (cases "0 \<le> sz") (auto simp: off_div_def)
    with off_div_bounds [of sz sector] assms(2,4) False show ?thesis by (simp add: num_def)
  qed
  moreover define N where "N = num * sector"
  moreover have "0 \<le> N div 4" "N div 4 + 8 * sector \<le> N" using lo assms(2) by (simp_all add: N_def [symmetric])
  ultimately show "cache_conf c" "c_control c = - 1" "sector_size c = sector"
    using assms(2) by (simp_all add: cache_conf_def c)
qed

theorem enable_law:
  assumes "startable P" "sz < 2 ^ 31" "\<not> bit (st_flags (strm P)) 3" "\<forall>t\<in>set ts. 10 \<le> t_ms t" "nat mn * 3002 + 3000 < length ts"
  shows "\<exists>r P1 ts1. stream_enable_cache E avail alloc alloc2 now ts sz mn slimit P = Some (r, P1, ts1) \<and>
    (if r = 1 then player_inv fl placed P1 \<and> stream_tell (strm P1) = stream_tell (strm P) else cache P1 = None)"
proof -
  define ss where "ss = (if st_sector_size (strm P) \<noteq> 0 then st_sector_size (strm P) else STREAM_BUFFER_SIZE)"
  have ss: "0 < ss" "ss \<le> STREAM_MAX_SECTOR_SIZE" using assms(1) by (auto simp: startable_def ss_def)
  have P: "cache P = None" "buffer_ok fl (strm P)" "0 \<le> st_pos (strm P)" using assms(1) by (auto simp: startable_def buffer_ok_def)
  show ?thesis
  proof (cases "avail \<and> alloc \<and> alloc2")
    case False
    with assms(3) P(1) show ?thesis by (auto simp: stream_enable_cache_def cache_init_def cache_uninit_def Let_def)
  next
    case True
    obtain c0 where c0: "cache_init True sz ss = Some c0" by (simp add: cache_init_def Let_def)
    define st where "st = (strm P)\<lparr>st_error := 0\<rparr>"
    define c where "c = (cache_pos_reset c0 (st_pos st))\<lparr>seek_limit := min slimit (buffer_size c0 - fill_limit c0)\<rparr>"
    define y where "y = \<lparr>vars = c, cstream = st, cio = pio P, fill_status = - 1, filler = F_check, timer = now, ctl_last = 0\<rparr>"
    define P2 where "P2 = P\<lparr>strm := st\<lparr>cache_pid := True\<rparr>, cache := Some y\<rparr>"
    define k where "k = min (min mn (buffer_size c - fill_limit c)) (buffer_size c - back_size c - fill_limit c)"
    note conf = cache_init_conf [OF c0 ss assms(2)]
    have "cache_conf c" using conf(1) by (simp add: c_def cache_conf_def cache_pos_reset_def)
    moreover have "ring_ok fl c" using reset_ok(1) [OF conf(1), of "st_pos st"] P(3) by (simp add: c_def st_def ring_ok_def slot_def)
    ultimately have y: "inv y" "read_filepos (vars y) = st_pos (strm P)" "in_window (vars y)" "max_filepos (vars y) = st_pos (strm P)"
      using assms(1) conf(2)
      by (auto simp: cache_inv_def y_def startable_def sync_def st_def c_def cache_pos_reset_def buffer_ok_def in_window_def)
    have eq: "stream_enable_cache E avail alloc alloc2 now ts sz mn slimit P =
      map_option (\<lambda>(res, P2, ts1). if res \<le> 0 then (res, cache_uninit E P2, ts1) else (1, P2, ts1))
        (stream_cache_prefill E ts (min mn (buffer_size c - fill_limit c)) P2)"
      using True assms(3) c0 by (simp add: stream_enable_cache_def ss_def [symmetric] Let_def P2_def y_def c_def st_def cache_pos_reset_def)
    have "nat k \<le> nat mn" by (simp add: k_def)
    then have "nat k * 3002 + 3000 < length ts" using assms(5) by linarith
    then have "nat (read_filepos (vars y) + k - max_filepos (vars y)) * 3002 + (30000 - (timer y - timer y) + 9) div 10 < length ts"
      using y(2,4) by simp
    from prefill_loop_returns [OF y(1,3) order_refl order_refl assms(4) this]
    obtain res y1 ts1 where l: "prefill_loop E ts k (timer y) (max_filepos (vars y)) y = Some (res, y1, ts1)"
      by (metis not_Some_eq surj_pair)
    from prefill_loop_keeps [OF y(1) l] y(2) have y1: "inv y1" "read_filepos (vars y1) = st_pos (strm P)" by auto
    define P3 where "P3 = P2\<lparr>cache := Some y1\<rparr>"
    have "buffer_ok fl (strm P3)" "stream_tell (strm P3) = stream_tell (strm P)" "st_pos (strm P3) = st_pos (strm P)"
      using P(2) by (auto simp: P3_def P2_def st_def buffer_ok_def stream_tell_def)
    moreover have "stream_cache_prefill E ts (min mn (buffer_size c - fill_limit c)) P2 = Some (res, P3, ts1)"
      using l by (simp add: stream_cache_prefill_def P2_def P3_def k_def y_def Let_def)
    ultimately show ?thesis using y1 by (simp add: eq) (simp add: P3_def player_inv_def cache_uninit_def)
  qed
qed

end

section \<open>Files behind the cache\<close>

definition file_env :: "'f file_ops \<Rightarrow> string \<Rightarrow> 'f cache_env" where
  "file_env fs path = \<lparr>cops = file_stream_ops fs, fileplaying = path, check_network = id\<rparr>"

sublocale posix_file \<subseteq> file_cache: cached_driver "file_env fs path" fl placed "file_fill_buffer fs" "file_seek fs" for path
  by unfold_locales (auto simp: file_env_def fill_op seek_op fill_law dest: seek_law quiet_law)

context posix_file
begin

lemma as_cached: "cached_driver (file_env fs path) fl placed (file_fill_buffer fs) (file_seek fs)"
  by (rule file_cache.cached_driver_axioms)

end

text \<open>
  A small file behind a cache with sectors of four bytes (a ring of 64), its worker about to start.
\<close>

definition demo_turn :: "nat \<Rightarrow> nat \<Rightarrow> turn" where
  "demo_turn before during = \<lparr>t_ms = 10, t_stop = False, t_interrupt = False, t_before = before, t_during = during, t_after = 0\<rparr>"

definition demo_env :: "int cache_env" where
  "demo_env = file_env (mem_file ''the quick brown fox'') ''sd:/fox.mp3''"

definition demo_stream :: stream where
  "demo_stream = \<lparr>st_type = STREAMTYPE_FILE, st_flags = 0, st_sector_size = 4, st_read_chunk = 64 * 1024, buf_pos = 0,
     buf_len = 0, st_pos = 0, end_pos = 19, st_eof = False, st_error = 0, st_mode = 0, cache_pid = False, st_buffer = []\<rparr>"

definition demo_cache :: "int cache_sys" where
  "demo_cache = \<lparr>vars = the (cache_init True 64 4), cstream = demo_stream, cio = \<lparr>drv = 0, read_try = 0\<rparr>,
     fill_status = - 1, filler = F_check, timer = 0, ctl_last = 0\<rparr>"

lemma demo_posix: "posix_file (mem_file fl) fl (=)"
  by (rule mem_file.posix_file_axioms)

lemma demo_inv: "cache_inv ''the quick brown fox'' (=) demo_cache"
  by (simp add: cache_inv_def demo_cache_def demo_stream_def cache_init_def off_div_def Let_def cache_conf_def ring_ok_def sync_def)

definition demo_player :: "int player" where
  "demo_player = \<lparr>strm = demo_stream\<lparr>st_buffer := replicate 8192 (CHR 0x00), cache_pid := True\<rparr>, cache = Some demo_cache,
     pio = \<lparr>drv = 0, read_try = 0\<rparr>\<rparr>"

lemma demo_player_inv: "player_inv ''the quick brown fox'' (=) demo_player"
  using demo_inv
  by (auto simp: player_inv_def demo_player_def buffer_ok_def demo_stream_def demo_cache_def cache_init_def Let_def)

lemma mem_read:
  assumes "st_type s = STREAMTYPE_FILE" "0 < n" "0 \<le> drv io" "drv io < int (length fl)"
  shows "stream_read_internal (file_stream_ops (mem_file fl)) s n io =
     ((min n (int (length fl) - drv io), take (nat n) (drop (nat (drv io)) fl)),
      s\<lparr>st_eof := False, st_error := st_error s, st_pos := st_pos s + min n (int (length fl) - drv io)\<rparr>,
      io\<lparr>drv := drv io + min n (int (length fl) - drv io), read_try := 0\<rparr>)"
  using assms
  by (auto simp: stream_read_internal_def read_source_def fill_source_def file_stream_ops_def file_fill_buffer_def mem_file_def read_result_def Let_def min_def)

text \<open>
  A larger file: the player at byte 60 behind a ring of 64 bytes that holds the first 64, and the worker with its
  snapshot taken (\<open>F_act\<close>). In the turns below the worker makes two steps, the act and the read of the driver,
  between the player's snapshot and its copy: \<open>race_ring\<close> is then the ring.
\<close>

definition race_file :: string where
  "race_file = map char_of [0..<200 :: nat]"

definition race_vars :: cache_vars where
  "race_vars = (the (cache_init True 64 4))\<lparr>ring := take 64 race_file, min_filepos := 0, max_filepos := 64, offset := 64, read_filepos := 60\<rparr>"

definition race_cache :: "int cache_sys" where
  "race_cache = \<lparr>vars = race_vars, cstream = demo_stream\<lparr>st_pos := 64, end_pos := 200\<rparr>, cio = \<lparr>drv = 64, read_try = 0\<rparr>,
     fill_status = 0, filler = F_act (cache_pos_get race_vars), timer = 0, ctl_last = 0\<rparr>"

definition race_player :: "int player" where
  "race_player = \<lparr>strm = demo_stream\<lparr>st_pos := 60, end_pos := 200, st_buffer := replicate 8192 (CHR 0x00), cache_pid := True\<rparr>,
     cache = Some race_cache, pio = \<lparr>drv = 0, read_try = 0\<rparr>\<rparr>"

lemma race_fields:
  "min_filepos race_vars = 0" "max_filepos race_vars = 64" "offset race_vars = 64" "read_filepos race_vars = 60"
  "ring race_vars = take 64 race_file" "buffer_size race_vars = 64" "sector_size race_vars = 4" "back_size race_vars = 16"
  "fill_limit race_vars = 32" "c_eof race_vars = False" "c_control race_vars = - 1"
  by (simp_all add: race_vars_def cache_init_def off_div_def Let_def)

lemma race_inv: "player_inv race_file (=) race_player"
proof -
  have "slot race_vars q = nat q" if "0 \<le> q" "q < 64" for q
  proof -
    have "(q - 64) mod 64 = q" using that by (simp add: mod_pos_pos_trivial flip: mod_diff_right_eq)
    then show ?thesis by (simp add: slot_def race_fields)
  qed
  then have "ring_ok race_file race_vars"
    by (auto simp: ring_ok_def race_fields race_file_def)
  moreover have "cache_conf race_vars" by (simp add: cache_conf_def race_fields race_file_def)
  ultimately show ?thesis
    by (auto simp: player_inv_def race_player_def race_cache_def cache_inv_def Let_def snap_ok_def sync_def buffer_ok_def demo_stream_def
        race_fields cache_pos_get_def)
qed

definition race_moved :: "int \<Rightarrow> int cache_sys" where
  "race_moved q = race_cache\<lparr>vars := (cache_pos_set_read race_vars q)\<lparr>c_eof := False\<rparr>\<rparr>"

lemma race_steps:
  "filler_run (file_env (mem_file race_file) path) 2 (race_moved q) =
   (race_moved q)\<lparr>vars := race_vars\<lparr>read_filepos := q, c_eof := False, min_filepos := 44,
        ring := mem_store (take 64 race_file) 0 (take 44 (drop 64 race_file))\<rparr>,
      cstream := (cstream (race_moved q))\<lparr>st_pos := 108\<rparr>, cio := \<lparr>drv = 108, read_try = 0\<rparr>,
      filler := F_commit \<lparr>f_pos = 0, f_space = 44, f_wrap = False\<rparr> 44\<rparr>"
  by (simp add: numeral_2_eq_2 filler_step.simps race_moved_def race_cache_def fill_act_def fill_seek_def cache_pos_get_def race_fields fill_compute_def
     demo_stream_def cache_pos_set_min_def cache_pos_set_read_def fill_read_def file_env_def mem_read c_int_def Let_def race_file_def)

definition race_ring :: string where
  "race_ring = mem_store (take 64 race_file) 0 (take 44 (drop 64 race_file))"

lemma race_overwritten:
  "take 4 (drop 8 race_ring) = take 4 (drop 72 race_file)" "take 4 (drop 60 race_ring) = take 4 (drop 60 race_file)"
  by (simp_all add: race_ring_def race_file_def mem_store_def take_map drop_map)

lemma race_ring_length: "length race_ring = 64"
  by (simp add: race_ring_def race_file_def mem_store_def)

lemma read_loop_zero: "cache_read_loop E ts since 0 y = Some ([], update_status y, ts)"
  by (simp add: cache_read_loop.simps)

lemma race_extent:
  "buffer_size c = 64 \<Longrightarrow> 0 \<le> q \<Longrightarrow> q \<le> 60 \<Longrightarrow> read_extent c \<lparr>p_min = 0, p_max = 64, p_read = q, p_offset = 64\<rparr> 4 = (q, 4)"
  by (simp add: read_extent_def c_int_def)

lemma race_read:
  assumes "0 \<le> q" "q \<le> 60"
  shows "\<exists>y1. cache_read (file_env (mem_file race_file) path) (demo_turn 0 2 # ts) 4 (race_moved q) = Some (take 4 (drop (nat q) race_ring), y1, ts)"
proof -
  have m: "cache_pos_get (vars (race_moved q)) = \<lparr>p_min = 0, p_max = 64, p_read = q, p_offset = 64\<rparr>"
    by (simp add: race_moved_def cache_pos_set_read_def cache_pos_get_def race_fields)
  show ?thesis unfolding cache_read_def using assms
    by (subst cache_read_loop.simps)
      (simp add: demo_turn_def race_steps Let_def m race_extent race_fields read_loop_zero flip: race_ring_def)
qed

lemma race_fill:
  assumes "0 \<le> q" "q \<le> 60"
  shows "\<exists>P1. cache_stream_fill_buffer (file_env (mem_file race_file) path) (demo_turn 0 2 # ts)
      (race_player\<lparr>strm := (strm race_player)\<lparr>st_pos := q\<rparr>, cache := Some (race_moved q)\<rparr>) = Some (4, P1, ts) \<and>
    buf_len (strm P1) = 4 \<and> buf_pos (strm P1) = 0 \<and> st_pos (strm P1) = q + 4 \<and>
    take 4 (st_buffer (strm P1)) = take 4 (drop (nat q) race_ring)"
proof -
  obtain y1 where y1: "cache_read (file_env (mem_file race_file) path) (demo_turn 0 2 # ts) 4 (race_moved q) =
      Some (take 4 (drop (nat q) race_ring), y1, ts)" using race_read [OF assms] by blast
  have "sector_size (vars (race_moved q)) = 4" by (simp add: race_moved_def cache_pos_set_read_def race_fields)
  moreover have "length (take 4 (drop (nat q) race_ring)) = 4" using assms by (simp add: race_ring_length)
  ultimately show ?thesis by (simp add: cache_stream_fill_buffer_def Let_def y1 mem_store_def)
qed

lemma race_seek:
  assumes "off_div pos 4 * 4 = q" "0 \<le> q" "q \<le> 60" "q \<le> pos" "pos \<le> q + 4" "pos < 60 \<or> 60 \<le> q"
  shows "\<exists>P1. stream_seek (file_env (mem_file race_file) path) (demo_turn 0 2 # ts) pos race_player = Some (1, P1, ts) \<and>
    stream_tell (strm P1) = pos \<and> buf_len (strm P1) = 4 \<and> buf_pos (strm P1) = pos - q \<and>
    take 4 (st_buffer (strm P1)) = take 4 (drop (nat q) race_ring)"
proof -
  have "\<not> pos < 0" "\<not> (pos < st_pos (strm race_player) \<and> 0 \<le> pos - (st_pos (strm race_player) - buf_len (strm race_player)))"
    using assms by (auto simp: race_player_def demo_stream_def)
  then have "stream_seek (file_env (mem_file race_file) path) (demo_turn 0 2 # ts) pos race_player =
      cache_stream_seek_long (file_env (mem_file race_file) path) (demo_turn 0 2 # ts) pos race_player"
    by (auto simp: stream_seek_def Let_def)
  moreover have "cache race_player = Some race_cache" "sector_size (vars race_cache) = 4" "vars race_cache = race_vars"
    by (simp_all add: race_player_def race_cache_def race_fields)
  moreover obtain P1 where P1: "cache_stream_fill_buffer (file_env (mem_file race_file) path) (demo_turn 0 2 # ts)
      (race_player\<lparr>strm := (strm race_player)\<lparr>st_pos := q\<rparr>, cache := Some (race_moved q)\<rparr>) = Some (4, P1, ts)"
    "buf_len (strm P1) = 4" "st_pos (strm P1) = q + 4" "take 4 (st_buffer (strm P1)) = take 4 (drop (nat q) race_ring)"
    using race_fill [OF assms(2,3), of path ts] by blast
  ultimately have "stream_seek (file_env (mem_file race_file) path) (demo_turn 0 2 # ts) pos race_player =
      Some (1, P1\<lparr>strm := (strm P1)\<lparr>buf_pos := pos - q\<rparr>\<rparr>, ts)"
    using assms(4,5) by (simp add: cache_stream_seek_long_def Let_def assms(1) flip: race_moved_def)
  with P1 show ?thesis by (simp add: stream_tell_def)
qed

section \<open>Properties\<close>

text \<open>
  (C1) Reading a cached file. Whatever the interleaving with the worker, \<open>stream_read\<close> returns (a schedule of
  \<open>FILL_TURNS\<close> turns per byte, each of at least ten milliseconds, is always enough), its result is the bytes
  of the file from the stream's position on, at most as many as asked for, the position moves behind them,
  the stream is again a consistent view of the file, and a shorter result sets the stream's eof.
\<close>

theorem cached_read_refines_file:
  assumes "posix_file fs fl placed" "player_inv fl placed P" "\<forall>t\<in>set ts. 10 \<le> t_ms t" "0 \<le> n"
    "nat n * FILL_TURNS \<le> length ts"
  shows "\<exists>out P1 ts1. stream_read (file_env fs path) ts n P = Some (out, P1, ts1) \<and>
    out = take (length out) (drop (nat (stream_tell (strm P))) fl) \<and> int (length out) \<le> n \<and>
    stream_tell (strm P1) = stream_tell (strm P) + int (length out) \<and> player_inv fl placed P1 \<and>
    (int (length out) < n \<longrightarrow> st_eof (strm P1))"
proof -
  note cd = posix_file.as_cached [OF assms(1), of path]
  from cached_driver.stream_read_total [OF cd assms(2,3,5)] obtain out P1 ts1 where
    r: "stream_read_loop (file_env fs path) ts n P = Some (out, P1, ts1)" "int (length out) < n \<longrightarrow> st_eof (strm P1)"
    by blast
  from cached_driver.stream_read_law [OF cd assms(2) r(1)] r assms(4) show ?thesis
    unfolding stream_read_def cached_driver.moved_def [OF cd] by auto
qed

lemma demo_tell: "stream_tell (strm demo_player) = 0"
  by (simp add: stream_tell_def demo_player_def demo_stream_def)

theorem cached_read_refines_file_witness:
  "\<exists>out P1 ts1. stream_read (file_env (mem_file ''the quick brown fox'') ''sd:/fox.mp3'')
      (replicate (5 * FILL_TURNS) (demo_turn 6 2)) 5 demo_player = Some (out, P1, ts1) \<and>
    out = take (length out) ''the quick brown fox'' \<and> int (length out) \<le> 5 \<and> stream_tell (strm P1) = int (length out)"
proof -
  have "\<forall>t\<in>set (replicate (5 * FILL_TURNS) (demo_turn 6 2)). 10 \<le> t_ms t" by (simp add: demo_turn_def)
  from cached_read_refines_file [OF demo_posix demo_player_inv this, of 5 "''sd:/fox.mp3''"] show ?thesis
    by (auto simp: demo_tell)
qed

text \<open>
  (C27) Seeking a cached file. A seek that the worker cannot disturb (\<open>seek_safe\<close>) returns and keeps the
  stream a consistent view of the file, and when it reports success the
  next byte is the one asked for (a negative position means the start); it reports failure when the player is stopped, when no data
  comes for thirty seconds, or at a position that cannot be reached. Not every seek is safe: one
  that goes back while the worker acts on a snapshot of the position is a race, with the effect that
  \<open>cached_seek_race\<close> shows.
\<close>

theorem cached_seek_lands:
  assumes "posix_file fs fl placed" "player_inv fl placed P" "seek_safe pos P" "\<forall>t\<in>set ts. 10 \<le> t_ms t" "FILL_TURNS \<le> length ts"
  shows "\<exists>r P1 ts1. stream_seek (file_env fs path) ts pos P = Some (r, P1, ts1) \<and> player_inv fl placed P1 \<and>
    (r \<noteq> 0 \<longrightarrow> stream_tell (strm P1) = max 0 pos)"
proof -
  note cd = posix_file.as_cached [OF assms(1), of path]
  from cached_driver.stream_seek_total [OF cd assms(2-5)] obtain r P1 ts1 where
    "stream_seek (file_env fs path) ts pos P = Some (r, P1, ts1)" by blast
  with cached_driver.stream_seek_law [OF cd assms(2,3) this] show ?thesis by blast
qed

lemma race_safe: "seek_safe 62 race_player"
  by (simp add: seek_safe_def race_player_def race_cache_def cache_pos_get_def race_fields demo_stream_def off_div_def)

theorem cached_seek_lands_witness:
  "\<exists>P1 ts1. stream_seek (file_env (mem_file race_file) ''sd:/fox.mp3'') (demo_turn 0 2 # replicate FILL_TURNS (demo_turn 0 2)) 62 race_player =
      Some (1, P1, ts1) \<and> player_inv race_file (=) P1 \<and> stream_tell (strm P1) = 62"
proof -
  let ?ts = "demo_turn 0 2 # replicate FILL_TURNS (demo_turn 0 2)"
  have "\<forall>t\<in>set ?ts. 10 \<le> t_ms t" by (simp add: demo_turn_def)
  from cached_seek_lands [OF demo_posix race_inv race_safe this, of "''sd:/fox.mp3''"]
    race_seek [of 62 60 "''sd:/fox.mp3''" "replicate FILL_TURNS (demo_turn 0 2)"] show ?thesis by (auto simp: off_div_def)
qed

text \<open>
  A seek that is not safe. The player is at byte 60 of a file, the ring holds the first 64 bytes, and the worker has taken its
  snapshot of the positions; the state is a consistent view of the file. A seek back to byte 8 is inside the
  window and moves the published position without excluding the worker, which goes on with the minimum of its old snapshot and
  writes over the bytes behind it. The seek reports success and the position is 8, but the next four
  bytes read are those at 72.
\<close>

theorem cached_seek_race:
  "player_inv race_file (=) race_player \<and> stream_tell (strm race_player) = 60 \<and>
   (\<exists>P1 P2. stream_seek (file_env (mem_file race_file) path) (demo_turn 0 2 # ts) 8 race_player = Some (1, P1, ts) \<and>
      stream_tell (strm P1) = 8 \<and>
      stream_read (file_env (mem_file race_file) path) ts 4 P1 = Some (take 4 (drop 72 race_file), P2, ts)) \<and>
   take 4 (drop 72 race_file) \<noteq> take 4 (drop 8 race_file)"
proof -
  have r: "take 4 (drop 72 race_file) \<noteq> take 4 (drop 8 race_file)" by (simp add: race_file_def take_map drop_map)
  obtain P1 where P1: "stream_seek (file_env (mem_file race_file) path) (demo_turn 0 2 # ts) 8 race_player = Some (1, P1, ts)"
    "stream_tell (strm P1) = 8" "buf_len (strm P1) = 4" "buf_pos (strm P1) = 0" "take 4 (st_buffer (strm P1)) = take 4 (drop 72 race_file)"
    using race_seek [of 8 8 path ts] by (auto simp: race_overwritten off_div_def)
  have "\<exists>P2. stream_read (file_env (mem_file race_file) path) ts 4 P1 = Some (take 4 (drop 72 race_file), P2, ts)"
    unfolding stream_read_def by (subst stream_read_loop.simps) (simp add: P1 Let_def stream_read_loop.simps)
  with race_inv r P1(1,2) show ?thesis by (auto simp: race_player_def demo_stream_def stream_tell_def)
qed

text \<open>
  Starting the cache on a file whose descriptor is at the stream's position: it always returns (the
  target's size bounds the number of turns), with success it leaves a consistent view of the file at the same
  position, and otherwise no cache: an interrupted, stalled or failed prefill has been undone.
\<close>

theorem cache_start_consistent:
  assumes "posix_file fs fl placed" "cache P = None" "buffer_ok fl (strm P)" "placed (st_pos (strm P)) (drv (pio P))"
    "st_type (strm P) = STREAMTYPE_FILE" "0 \<le> st_read_chunk (strm P)" "0 \<le> st_sector_size (strm P)"
    "st_sector_size (strm P) \<le> STREAM_MAX_SECTOR_SIZE" "\<not> bit (st_flags (strm P)) 3" "sz < 2 ^ 31"
    "\<forall>t\<in>set ts. 10 \<le> t_ms t" "nat mn * 3002 + 3000 < length ts"
  shows "\<exists>r P1 ts1. stream_enable_cache (file_env fs path) avail alloc alloc2 now ts sz mn slimit P = Some (r, P1, ts1) \<and>
    (if r = 1 then player_inv fl placed P1 \<and> stream_tell (strm P1) = stream_tell (strm P) else cache P1 = None)"
proof -
  note cd = posix_file.as_cached [OF assms(1), of path]
  have "cached_driver.startable fl placed P"
    unfolding cached_driver.startable_def [OF cd] using assms(2-8) by simp
  from cached_driver.enable_law [OF cd this assms(10,9,11,12)] show ?thesis .
qed

text \<open>The file, opened: its stream, and the prefill of its cache up to eight bytes.\<close>

definition demo_opened :: "int player" where
  "demo_opened = \<lparr>strm = fst (the (open_f (mem_file ''the quick brown fox'') 7)), cache = None,
     pio = \<lparr>drv = snd (the (open_f (mem_file ''the quick brown fox'') 7)), read_try = 0\<rparr>\<rparr>"

lemma demo_opened_fields:
  "cache demo_opened = None" "buffer_ok ''the quick brown fox'' (strm demo_opened)" "drv (pio demo_opened) = 0"
  "st_pos (strm demo_opened) = 0" "st_type (strm demo_opened) = STREAMTYPE_FILE" "st_read_chunk (strm demo_opened) = 65536"
  "st_sector_size (strm demo_opened) = 0" "st_flags (strm demo_opened) = 0" "stream_tell (strm demo_opened) = 0"
  by (auto simp: demo_opened_def open_f_def mem_file_def new_stream_def buffer_ok_def stream_tell_def)

theorem cache_start_consistent_witness:
  "\<exists>r P1 ts1. stream_enable_cache (file_env (mem_file ''the quick brown fox'') ''sd:/fox.mp3'') True True True 0
      (replicate 30000 (demo_turn 6 2)) 65536 8 0 demo_opened = Some (r, P1, ts1) \<and>
    (if r = 1 then player_inv ''the quick brown fox'' (=) P1 \<and> stream_tell (strm P1) = 0 else cache P1 = None)"
proof -
  have "\<forall>t\<in>set (replicate 30000 (demo_turn 6 2)). 10 \<le> t_ms t" by (simp add: demo_turn_def)
  from cache_start_consistent [OF demo_posix demo_opened_fields(1,2) _ demo_opened_fields(5) _ _ _ _ _ this,
      of 65536 8 "''sd:/fox.mp3''" True True True 0 0]
  show ?thesis unfolding demo_opened_fields by simp
qed

text \<open>
  When a read of the cache is short. A read that delivers fewer bytes than asked for was stopped, or waited
  thirty seconds, or found eof; and eof is the truth about the window, nothing left to read, as long as the worker does not
  run between the reader's snapshot of the positions and its look at eof.
\<close>

theorem cache_read_short_reason:
  assumes "posix_file fs fl placed" "cache_inv fl placed y" "cache_read (file_env fs path) ts n y = Some (out, y1, ts1)"
    "int (length out) < n"
  shows "(\<exists>t\<in>set ts. t_stop t) \<or> 30000 \<le> timer y1 - timer y \<or>
    c_eof (vars y1) \<and> ((\<forall>t\<in>set ts. t_during t = 0) \<longrightarrow> max_filepos (vars y1) \<le> read_filepos (vars y1))"
  using cached_driver.cache_read_loop_short [OF posix_file.as_cached [OF assms(1)] assms(2) _ order_refl assms(4)]
    assms(3) [unfolded cache_read_def] by blast

definition demo_schedule :: "turn list" where
  "demo_schedule = [demo_turn 6 0, demo_turn 0 0, demo_turn 12 0]"

lemma demo_short:
  "map_option fst (cache_read demo_env demo_schedule 20 demo_cache) = Some ''the quick brown fox''"
  by code_simp

theorem cache_read_short_reason_witness:
  "\<exists>y1 ts1. cache_read demo_env demo_schedule 20 demo_cache = Some (''the quick brown fox'', y1, ts1) \<and>
     (30000 \<le> timer y1 - timer demo_cache \<or> c_eof (vars y1) \<and> max_filepos (vars y1) \<le> read_filepos (vars y1))"
proof -
  from demo_short obtain y1 ts1 where r: "cache_read demo_env demo_schedule 20 demo_cache = Some (''the quick brown fox'', y1, ts1)"
    by auto
  from cache_read_short_reason [OF demo_posix demo_inv r [unfolded demo_env_def]]
  have "30000 \<le> timer y1 - timer demo_cache \<or> c_eof (vars y1) \<and> max_filepos (vars y1) \<le> read_filepos (vars y1)"
    by (simp add: demo_schedule_def demo_turn_def)
  with r show ?thesis by blast
qed

text \<open>
  The snapshot and the look at eof are two steps. If the worker reads the rest of the file between them, the
  reader reports the end of the stream although the ring holds data it has not read: here nineteen bytes.
\<close>

theorem cache_read_premature_eof:
  "map_option (\<lambda>(out, y1, ts). (out, c_eof (vars y1), in_window (vars y1), max_filepos (vars y1) - read_filepos (vars y1)))
     (cache_read demo_env [demo_turn 0 12] 4 demo_cache) = Some ([], True, True, 19)"
  by code_simp

text \<open>
  The start-up buffer of WebDAV tracks. For every bitrate the target of \<open>dav_audio_start_bytes\<close> is at least the
  probe size and at most half of the ring, it fits in front of the history the ring keeps, and in a ring of
  DAV_AUDIO_CACHE_BYTES the worker never takes the ring for full while the data ahead of the reader is below the target, or
  below the sixty percent that the metadata gate of the WebDAV device waits for.
\<close>

theorem dav_start_buffer_fits:
  assumes "cache_init True DAV_AUDIO_CACHE_BYTES STREAM_BUFFER_SIZE = Some c0"
    "buffer_size c = buffer_size c0" "back_size c = back_size c0" "fill_limit c = fill_limit c0"
    "min_filepos c \<le> rd" "rd \<le> max_filepos c" "max_filepos c - min_filepos c \<le> buffer_size c"
    "max_filepos c - rd < max (dav_audio_start_bytes bps) (buffer_size c * 60 div 100)"
  shows "DAV_AUDIO_PROBE_BYTES \<le> dav_audio_start_bytes bps \<and> dav_audio_start_bytes bps \<le> buffer_size c div 2 \<and>
    dav_audio_start_bytes bps \<le> buffer_size c - back_size c - fill_limit c \<and>
    fill_compute c chunk rd (cache_pos_get c) \<noteq> None"
proof -
  have c: "buffer_size c = 524288" "back_size c = 131072" "fill_limit c = 16384"
    using assms(1-4) by (auto simp: cache_init_def off_div_def Let_def)
  have s: "DAV_AUDIO_PROBE_BYTES \<le> dav_audio_start_bytes bps" "dav_audio_start_bytes bps \<le> 262144"
    by (auto simp: dav_audio_start_bytes_def Let_def)
  have "c_int (rd - min_filepos c) = rd - min_filepos c" "c_int (max_filepos c - rd) = max_filepos c - rd"
    using assms(5-7) by (auto simp: c intro!: c_int_id)
  then have "fill_compute c chunk rd (cache_pos_get c) \<noteq> None"
    using assms(5-8) s by (auto simp: fill_compute_def cache_pos_get_def Let_def c)
  with s show ?thesis by (simp add: c)
qed

theorem dav_start_buffer_fits_witness:
  "fill_compute (the (cache_init True DAV_AUDIO_CACHE_BYTES STREAM_BUFFER_SIZE)) 0 0
     (cache_pos_get (the (cache_init True DAV_AUDIO_CACHE_BYTES STREAM_BUFFER_SIZE))) \<noteq> None"
proof -
  let ?c = "the (cache_init True DAV_AUDIO_CACHE_BYTES STREAM_BUFFER_SIZE)"
  have "cache_init True DAV_AUDIO_CACHE_BYTES STREAM_BUFFER_SIZE = Some ?c" "min_filepos ?c = 0" "max_filepos ?c = 0"
    "buffer_size ?c = DAV_AUDIO_CACHE_BYTES"
    by (simp_all add: cache_init_def off_div_def Let_def)
  from dav_start_buffer_fits [OF this(1) refl refl refl, of 0 16000 0] this(2-4) show ?thesis
    by (simp add: dav_audio_start_bytes_def)
qed

end
