(* ===== verification/Ao_Gekko.thy ===== *)
theory Ao_Gekko
  imports Complex_Main C_Lib
begin

text \<open>
  The audio output (src/source/mplayer/libao2/ao_gekko.c): a ring of 32 buffers of 4096 bytes that \<open>play\<close> fills
  with stereo samples and the DMA interrupt (\<open>switch_buffers\<close>) hands to the hardware one after the other.
  A buffer is the list of its 2048 16-bit samples. The static variables of the file are the fields of \<open>ao\<close>;
  \<open>dma\<close> is the buffer AUDIO_InitDMA was last given (\<open>None\<close> the one of silence) and \<open>dma_on\<close> AUDIO_GetDMAEnableFlag.
  The wait for the end of a transfer in \<open>reset\<close> and \<open>uninit\<close> has no effect on this state. Floating point values are
  reals; cache maintenance is left out.
\<close>

section \<open>State\<close>

abbreviation BUFFER_SIZE :: int where "BUFFER_SIZE \<equiv> 4096"
abbreviation BUFFER_COUNT :: nat where "BUFFER_COUNT \<equiv> 32"
abbreviation HW_CHANNELS :: int where "HW_CHANNELS \<equiv> 2"

record ao =
  playing :: bool
  buffers :: "int list list"
  buffer_fill :: nat
  buffer_play :: nat
  buffered :: int
  channels :: int
  dma :: "nat option"
  dma_on :: bool
  vol_left :: real
  vol_right :: real

definition silent :: "int list" where
  "silent = replicate 2048 0"

definition switch_buffers :: "ao \<Rightarrow> ao" where
  "switch_buffers a =
     (if playing a \<and> 0 < buffered a then
        a\<lparr>dma := Some (buffer_play a), buffer_play := (buffer_play a + 1) mod BUFFER_COUNT,
          buffered := buffered a - BUFFER_SIZE\<rparr>
      else a\<lparr>dma := None\<rparr>)"

section \<open>Volume, start and stop\<close>

definition set_volume :: "real \<times> real \<Rightarrow> ao \<Rightarrow> ao" where
  "set_volume v a = a\<lparr>vol_left := fst v / 100 * 255, vol_right := snd v / 100 * 255\<rparr>"

definition get_volume :: "ao \<Rightarrow> real \<times> real" where
  "get_volume a = (vol_left a / 255 * 100, vol_right a / 255 * 100)"

definition clamp :: "int \<Rightarrow> int \<Rightarrow> int \<Rightarrow> int" where
  "clamp x lo hi = (if x < lo then lo else if hi < x then hi else x)"

definition empty_ring :: "ao \<Rightarrow> ao" where
  "empty_ring a = a\<lparr>playing := False, buffers := replicate BUFFER_COUNT silent, buffer_fill := 0, buffer_play := 0, buffered := 0\<rparr>"

definition init :: "int \<Rightarrow> ao \<Rightarrow> ao" where
  "init chans a = (empty_ring a)\<lparr>channels := clamp chans 2 6, dma_on := False\<rparr>"

definition reset :: "ao \<Rightarrow> ao" where
  "reset a = empty_ring a"

definition uninit :: "ao \<Rightarrow> ao" where
  "uninit a = (reset a)\<lparr>dma_on := False\<rparr>"

definition audio_pause :: "ao \<Rightarrow> ao" where
  "audio_pause a = a\<lparr>playing := False\<rparr>"

definition audio_resume :: "ao \<Rightarrow> ao" where
  "audio_resume a = (let a1 = a\<lparr>playing := True\<rparr> in if dma_on a1 then a1 else (switch_buffers a1)\<lparr>dma_on := True\<rparr>)"

text \<open>\<open>request_mult\<close> is channels / 2, so the products below are even; the quotient rounds towards zero.\<close>

definition request_size :: "ao \<Rightarrow> int" where
  "request_size a = BUFFER_SIZE * channels a div HW_CHANNELS"

definition get_space :: "ao \<Rightarrow> int" where
  "get_space a =
     (let x = (BUFFER_SIZE * (int BUFFER_COUNT - 2) - buffered a) * channels a
      in if 0 \<le> x then x div HW_CHANNELS else - ((- x) div HW_CHANNELS))"

definition bps :: "ao \<Rightarrow> int" where
  "bps a = channels a * 48000 * 2"

definition get_delay :: "int \<Rightarrow> ao \<Rightarrow> real" where
  "get_delay dma_bytes_left a =
     real_of_int (if playing a then buffered a + dma_bytes_left else buffered a) * (real_of_int (channels a) / 2) / real_of_int (bps a)"

section \<open>Down-mixing\<close>

definition trunc_real :: "real \<Rightarrow> int" where
  "trunc_real x = (if 0 \<le> x then \<lfloor>x\<rfloor> else \<lceil>x\<rceil>)"

definition PAN_CENTER :: real where "PAN_CENTER = 0.7071067811865475"
definition PAN_SIDE :: real where "PAN_SIDE = 0.871779788708134"
definition PAN_SIDE_INV :: real where "PAN_SIDE_INV = 0.4898979485566356"

text \<open>A sample of the source; the reads of the code stay inside it (\<open>mix_reads\<close> below), past it there is nothing to model.\<close>

definition smp :: "int list \<Rightarrow> int \<Rightarrow> int" where
  "smp src i = (if 0 \<le> i \<and> i < int (length src) then src ! nat i else 0)"

definition phased :: "int list \<Rightarrow> int \<Rightarrow> int \<Rightarrow> real" where
  "phased src i j = real_of_int (smp src i) * 0.75 + real_of_int (smp src j) * 0.25"

definition add_to :: "int \<Rightarrow> real \<Rightarrow> int" where
  "add_to acc x = trunc_real (real_of_int acc + x)"

text \<open>One output frame \<open>k\<close>: \<open>crs\<close>, \<open>prs\<close> and \<open>nrs\<close> are the indices of the code in its turn \<open>k\<close>.\<close>

definition mix_frame :: "int \<Rightarrow> int list \<Rightarrow> int \<Rightarrow> int list" where
  "mix_frame ch src k =
     (let crs = k * ch; prs = k - 1; nrs = k + 1;
          left0 = smp src crs; right0 = (if 1 < ch then smp src (crs + 1) else smp src crs);
          (left, right) =
            (if ch = 6 \<or> ch = 5 then
               let l1 = add_to left0 (phased src (crs + 2) (nrs + 2) * PAN_SIDE);
                   r1 = add_to right0 (phased src (crs + 2) (prs + 2) * PAN_SIDE_INV);
                   l2 = add_to l1 (phased src (crs + 3) (nrs + 3) * PAN_SIDE_INV);
                   r2 = add_to r1 (phased src (crs + 3) (prs + 3) * PAN_SIDE)
               in (add_to l2 (real_of_int (smp src (crs + 4)) * PAN_CENTER),
                   add_to r2 (real_of_int (smp src (crs + 4)) * PAN_CENTER))
             else if ch = 4 then
               let l1 = add_to left0 (phased src (crs + 2) (nrs + 2) * PAN_CENTER);
                   r1 = add_to right0 (phased src (crs + 2) (prs + 2) * PAN_CENTER)
               in (add_to l1 (real_of_int (smp src (crs + 3)) * PAN_CENTER),
                   add_to r1 (real_of_int (smp src (crs + 3)) * PAN_CENTER))
             else (left0, right0))
      in [clamp right (- 32768) 32767, clamp left (- 32768) 32767])"

definition copy_channels :: "int \<Rightarrow> int list \<Rightarrow> int \<Rightarrow> int list" where
  "copy_channels ch src len = concat (map (\<lambda>k. mix_frame ch src (int k)) [0..<nat len])"

section \<open>Playing\<close>

text \<open>
  Writing the samples \<open>xs\<close> to the start of a buffer. More samples than a buffer holds run over into the next
  ones: \<open>None\<close>.
\<close>

definition fill_buffer_at :: "nat \<Rightarrow> int list \<Rightarrow> ao \<Rightarrow> ao option" where
  "fill_buffer_at i xs a =
     (if length xs \<le> 2048 then Some (a\<lparr>buffers := (buffers a)[i := xs @ drop (length xs) (buffers a ! i)]\<rparr>) else None)"

definition queue_buffer :: "ao \<Rightarrow> ao" where
  "queue_buffer a = a\<lparr>buffer_fill := (buffer_fill a + 1) mod BUFFER_COUNT, buffered := buffered a + BUFFER_SIZE\<rparr>"

text \<open>
  The loop over whole requests: \<open>src\<close> are the samples from the source pointer on, \<open>remaining\<close> the bytes left.
  The result has the bytes processed, what is left, and the state.
\<close>

function play_loop :: "int list \<Rightarrow> int \<Rightarrow> int \<Rightarrow> ao \<Rightarrow> (int \<times> int list \<times> int \<times> ao) option" where
  "play_loop src remaining processed a =
     (if 0 < request_size a \<and> request_size a \<le> remaining \<and> request_size a \<le> get_space a then
        case fill_buffer_at (buffer_fill a) (copy_channels (channels a) src (BUFFER_SIZE div (2 * HW_CHANNELS))) a of
          None \<Rightarrow> None
        | Some a1 \<Rightarrow> play_loop (drop (nat (request_size a div 2)) src) (remaining - request_size a)
                       (processed + request_size a) (queue_buffer a1)
      else Some (processed, src, remaining, a))"
  by pat_completeness auto
termination
  by (relation "measure (\<lambda>(src, remaining, processed, a). nat remaining)") auto

declare play_loop.simps [simp del]

definition start_playing :: "ao \<Rightarrow> ao" where
  "start_playing a = (if playing a then a else (switch_buffers (a\<lparr>playing := True\<rparr>))\<lparr>dma_on := True\<rparr>)"

definition play :: "int list \<Rightarrow> int \<Rightarrow> bool \<Rightarrow> ao \<Rightarrow> (int \<times> ao) option" where
  "play data bytes final a =
     (case play_loop data bytes 0 a of
        None \<Rightarrow> None
      | Some (processed, src, remaining, a1) \<Rightarrow>
          if final \<and> 0 < remaining then
            case fill_buffer_at (buffer_fill a1) (copy_channels (channels a1) src (remaining div (2 * HW_CHANNELS)))
                   (a1\<lparr>buffers := (buffers a1)[buffer_fill a1 := silent]\<rparr>) of
              None \<Rightarrow> None
            | Some a2 \<Rightarrow> Some (processed + remaining, start_playing (queue_buffer a2))
          else Some (processed, start_playing a1))"

section \<open>The ring is a queue\<close>

definition ring_inv :: "ao \<Rightarrow> bool" where
  "ring_inv a \<longleftrightarrow> length (buffers a) = BUFFER_COUNT \<and> (\<forall>b\<in>set (buffers a). length b = 2048) \<and>
     buffer_fill a < BUFFER_COUNT \<and> buffer_play a < BUFFER_COUNT \<and> 2 \<le> channels a \<and> channels a \<le> 6 \<and>
     (\<exists>n\<le>30. buffered a = BUFFER_SIZE * int n \<and> buffer_fill a = (buffer_play a + n) mod BUFFER_COUNT) \<and>
     (\<forall>i. dma a = Some i \<longrightarrow> i < BUFFER_COUNT \<and> (i + 1) mod BUFFER_COUNT = buffer_play a)"

text \<open>The blocks that wait to be played, oldest first.\<close>

definition queued :: "ao \<Rightarrow> int list list" where
  "queued a = map (\<lambda>k. buffers a ! ((buffer_play a + k) mod BUFFER_COUNT)) [0..<nat (buffered a div BUFFER_SIZE)]"

text \<open>The blocks of \<open>k\<close> whole requests.\<close>

definition blocks :: "int \<Rightarrow> int list \<Rightarrow> nat \<Rightarrow> int list list" where
  "blocks ch src k = map (\<lambda>i. copy_channels ch (drop (i * nat (BUFFER_SIZE * ch div HW_CHANNELS div 2)) src) 1024) [0..<k]"

lemma length_mix_frame [simp]: "length (mix_frame ch src k) = 2"
  by (simp add: mix_frame_def Let_def split_def)

lemma length_copy_channels [simp]: "length (copy_channels ch src len) = 2 * nat len"
  by (simp add: copy_channels_def length_concat comp_def sum_list_triv)

lemma request_pos: "ring_inv a \<Longrightarrow> 4096 \<le> request_size a"
  by (auto simp: ring_inv_def request_size_def)

lemma ring_inv_count:
  assumes "ring_inv a"
  obtains n where "n \<le> 30" "buffered a = BUFFER_SIZE * int n" "buffer_fill a = (buffer_play a + n) mod BUFFER_COUNT"
    "nat (buffered a div BUFFER_SIZE) = n"
  using assms by (auto simp: ring_inv_def)

lemma get_space_room:
  assumes "ring_inv a" "buffered a = BUFFER_SIZE * int n"
  shows "request_size a \<le> get_space a \<longleftrightarrow> n \<le> 29"
proof -
  obtain c where c: "channels a = c" "2 \<le> c" "c \<le> 6" using assms(1) by (auto simp: ring_inv_def)
  then consider "c = 2" | "c = 3" | "c = 4" | "c = 5" | "c = 6" by linarith
  then show ?thesis by cases (auto simp: request_size_def get_space_def Let_def c(1) assms(2))
qed

lemma mod_neq: "p < (32 :: nat) \<Longrightarrow> j < 32 \<Longrightarrow> k < 32 \<Longrightarrow> j \<noteq> k \<Longrightarrow> (p + j) mod 32 \<noteq> (p + k) mod 32"
  by (auto simp: mod_if split: if_splits)

text \<open>
  The two buffers behind the play position: the one before the last interrupt's may still be in flight when the
  interrupt gives the next to the hardware.
\<close>

definition behind :: "ao \<Rightarrow> int list \<times> int list" where
  "behind a = (buffers a ! ((buffer_play a + 30) mod 32), buffers a ! ((buffer_play a + 31) mod 32))"

text \<open>One block into the ring: it goes to the end of the queue, and the buffer the hardware is playing is not touched.\<close>

lemma enqueue_step:
  assumes "ring_inv a" "length xs = 2048" "buffered a = BUFFER_SIZE * int n" "n \<le> 29"
  defines "a1 \<equiv> queue_buffer (a\<lparr>buffers := (buffers a)[buffer_fill a := xs]\<rparr>)"
  shows "fill_buffer_at (buffer_fill a) xs a = Some (a\<lparr>buffers := (buffers a)[buffer_fill a := xs]\<rparr>)"
    "ring_inv a1" "queued a1 = queued a @ [xs]" "buffered a1 = BUFFER_SIZE * int (Suc n)"
    "\<forall>i. dma a = Some i \<longrightarrow> buffers a1 ! i = buffers a ! i" "behind a1 = behind a"
proof -
  have r: "length (buffers a) = 32" "\<forall>b\<in>set (buffers a). length b = 2048" "buffer_fill a = (buffer_play a + n) mod 32"
    "buffer_play a < 32" "buffer_fill a < 32"
    using assms(1,3) by (auto simp: ring_inv_def)
  then have "length (buffers a ! buffer_fill a) = 2048" by simp
  then show "fill_buffer_at (buffer_fill a) xs a = Some (a\<lparr>buffers := (buffers a)[buffer_fill a := xs]\<rparr>)"
    using assms(2) by (simp add: fill_buffer_at_def)
  show b: "buffered a1 = BUFFER_SIZE * int (Suc n)" by (simp add: a1_def queue_buffer_def assms(3))
  have set: "\<forall>b\<in>set ((buffers a)[buffer_fill a := xs]). length b = 2048"
    using r(2) assms(2) set_update_subset_insert [of "buffers a" "buffer_fill a" xs] by auto
  have "Suc ((buffer_play a + n) mod 32) mod 32 = Suc (buffer_play a + n) mod 32" by (rule mod_Suc_eq)
  then have "\<exists>m\<le>30. buffered a1 = BUFFER_SIZE * int m \<and> buffer_fill a1 = (buffer_play a1 + m) mod 32"
    using b assms(4) r(3) by (intro exI [of _ "Suc n"]) (simp add: a1_def queue_buffer_def)
  with assms(1) set show "ring_inv a1" by (simp add: ring_inv_def a1_def queue_buffer_def)
  have "queued a1 = map (\<lambda>k. buffers a1 ! ((buffer_play a + k) mod 32)) [0..<n] @ [buffers a1 ! ((buffer_play a + n) mod 32)]"
  proof -
    have "nat (buffered a1 div BUFFER_SIZE) = Suc n" "buffer_play a1 = buffer_play a" by (simp add: b, simp add: a1_def queue_buffer_def)
    then show ?thesis by (simp add: queued_def)
  qed
  moreover have "buffers a1 ! ((buffer_play a + n) mod 32) = xs" using r by (simp add: a1_def queue_buffer_def)
  moreover have "buffers a1 ! ((buffer_play a + k) mod 32) = buffers a ! ((buffer_play a + k) mod 32)" if "k < n" for k
    using mod_neq [OF r(4), of k n] that assms(4) by (simp add: a1_def queue_buffer_def r(3))
  ultimately show "queued a1 = queued a @ [xs]" by (simp add: queued_def assms(3))
  show "\<forall>i. dma a = Some i \<longrightarrow> buffers a1 ! i = buffers a ! i"
  proof (intro allI impI)
    fix i assume "dma a = Some i"
    then have i: "i < 32" "(i + 1) mod 32 = buffer_play a" using assms(1) by (auto simp: ring_inv_def)
    have "i \<noteq> (buffer_play a + n) mod 32"
    proof
      assume e: "i = (buffer_play a + n) mod 32"
      have "(buffer_play a + (n + 1)) mod 32 = (buffer_play a + 0) mod 32"
        using i(2) r(4) by (simp add: e mod_Suc_eq)
      with mod_neq [OF r(4), of "n + 1" 0] assms(4) show False by simp
    qed
    then show "buffers a1 ! i = buffers a ! i" by (simp add: a1_def queue_buffer_def r(3))
  qed
  show "behind a1 = behind a"
    using mod_neq [OF r(4), of 30 n] mod_neq [OF r(4), of 31 n] assms(4)
    by (simp add: behind_def a1_def queue_buffer_def r(3))
qed

lemma fixed_by_enqueue [simp]:
  "channels (queue_buffer a) = channels a" "dma (queue_buffer a) = dma a" "playing (queue_buffer a) = playing a"
  "dma_on (queue_buffer a) = dma_on a" "buffer_play (queue_buffer a) = buffer_play a" "buffers (queue_buffer a) = buffers a"
  by (simp_all add: queue_buffer_def)

lemma blocks_Suc:
  "blocks ch src (Suc k) = copy_channels ch src 1024 # blocks ch (drop (nat (BUFFER_SIZE * ch div HW_CHANNELS div 2)) src) k"
  unfolding blocks_def by (subst upt_conv_Cons, simp) (simp add: map_Suc_upt [symmetric] del: upt_Suc map_Suc_upt add: add.commute)

text \<open>The loop queues the blocks of as many requests as there are, or as there is room for.\<close>

lemma play_loop_law:
  "ring_inv a \<Longrightarrow> \<exists>k a1. play_loop src remaining done a =
      Some (done + int k * request_size a, drop (k * nat (request_size a div 2)) src, remaining - int k * request_size a, a1) \<and>
    ring_inv a1 \<and> queued a1 = queued a @ blocks (channels a) src k \<and> channels a1 = channels a \<and> dma a1 = dma a \<and>
    playing a1 = playing a \<and> (\<forall>i. dma a = Some i \<longrightarrow> buffers a1 ! i = buffers a ! i) \<and> behind a1 = behind a \<and>
    (remaining - int k * request_size a < request_size a \<or> 29 < buffered a1 div BUFFER_SIZE) \<and> int k * request_size a \<le> max 0 remaining"
proof (induction "nat remaining" arbitrary: src remaining "done" a rule: less_induct)
  case less
  obtain n where n: "buffered a = BUFFER_SIZE * int n" "n \<le> 30" using ring_inv_count [OF less.prems] by metis
  note room = get_space_room [OF less.prems n(1)]
  note rp = request_pos [OF less.prems]
  show ?case
  proof (cases "request_size a \<le> remaining \<and> n \<le> 29")
    case False
    with room rp have "play_loop src remaining done a = Some (done, src, remaining, a)"
      by (subst play_loop.simps) auto
    with False less.prems n show ?thesis by (intro exI [of _ 0] exI [of _ a]) (auto simp: blocks_def)
  next
    case True
    let ?xs = "copy_channels (channels a) src 1024"
    define a1 where "a1 = queue_buffer (a\<lparr>buffers := (buffers a)[buffer_fill a := ?xs]\<rparr>)"
    have "length ?xs = 2048" "n \<le> 29" using True by simp_all
    note e = enqueue_step [OF less.prems this(1) n(1) this(2), folded a1_def]
    have rs: "request_size a1 = request_size a" by (simp add: request_size_def a1_def)
    have l: "play_loop src remaining done a = play_loop (drop (nat (request_size a div 2)) src) (remaining - request_size a)
        (done + request_size a) a1"
      using True room rp e(1) by (subst play_loop.simps) (simp add: a1_def)
    have "nat (remaining - request_size a) < nat remaining" using True rp by simp
    from less.hyps [OF this e(2), of "drop (nat (request_size a div 2)) src" "done + request_size a"]
    obtain k a2 where k: "play_loop src remaining done a =
      Some (done + request_size a + int k * request_size a, drop (k * nat (request_size a div 2)) (drop (nat (request_size a div 2)) src),
        remaining - request_size a - int k * request_size a, a2)" "ring_inv a2"
      "queued a2 = queued a1 @ blocks (channels a1) (drop (nat (request_size a div 2)) src) k" "channels a2 = channels a1"
      "dma a2 = dma a1" "playing a2 = playing a1" "\<forall>i. dma a1 = Some i \<longrightarrow> buffers a2 ! i = buffers a1 ! i" "behind a2 = behind a1"
      "remaining - request_size a - int k * request_size a < request_size a \<or> 29 < buffered a2 div BUFFER_SIZE"
      "int k * request_size a \<le> max 0 (remaining - request_size a)"
      unfolding l rs by auto
    have f: "channels a1 = channels a" "dma a1 = dma a" "playing a1 = playing a" by (simp_all add: a1_def)
    have "queued a2 = queued a @ blocks (channels a) src (Suc k)"
      using k(3) e(3) by (simp add: f blocks_Suc request_size_def)
    moreover have "play_loop src remaining done a =
      Some (done + int (Suc k) * request_size a, drop (Suc k * nat (request_size a div 2)) src, remaining - int (Suc k) * request_size a, a2)"
      using k(1) by (simp add: algebra_simps)
    moreover have "remaining - int (Suc k) * request_size a < request_size a \<or> 29 < buffered a2 div BUFFER_SIZE"
      "int (Suc k) * request_size a \<le> max 0 remaining"
      using k(9,10) True rp by (auto simp: algebra_simps)
    ultimately show ?thesis using k(2,4-8) e(5,6) f by (intro exI [of _ "Suc k"] exI [of _ a2]) auto
  qed
qed

text \<open>The interrupt takes the oldest block.\<close>

lemma switch_law:
  assumes "ring_inv a" "playing a" "queued a \<noteq> []"
  shows "ring_inv (switch_buffers a)" "queued (switch_buffers a) = tl (queued a)"
    "\<exists>i. dma (switch_buffers a) = Some i \<and> buffers (switch_buffers a) ! i = hd (queued a)"
proof -
  obtain n where n: "n \<le> 30" "buffered a = BUFFER_SIZE * int n" "buffer_fill a = (buffer_play a + n) mod 32"
    using ring_inv_count [OF assms(1)] by metis
  with assms(3) have "0 < n" by (auto simp: queued_def)
  then obtain m where m: "n = Suc m" by (cases n) auto
  have p: "buffer_play a < 32" using assms(1) by (simp add: ring_inv_def)
  have s: "switch_buffers a = a\<lparr>dma := Some (buffer_play a), buffer_play := (buffer_play a + 1) mod 32, buffered := BUFFER_SIZE * int m\<rparr>"
    using assms(2) n(2) by (simp add: switch_buffers_def m)
  have "((buffer_play a + 1) mod 32 + m) mod 32 = (buffer_play a + n) mod 32" by (simp add: m mod_add_left_eq)
  with assms(1) n m p show "ring_inv (switch_buffers a)" by (auto simp: ring_inv_def s intro!: exI [of _ m])
  have q: "queued a = buffers a ! buffer_play a # map (\<lambda>k. buffers a ! ((buffer_play a + Suc k) mod 32)) [0..<m]"
  proof -
    have "nat (buffered a div BUFFER_SIZE) = Suc m" by (simp add: n(2) m)
    moreover have "[0..<Suc m] = 0 # map Suc [0..<m]" by (simp add: upt_conv_Cons map_Suc_upt del: upt_Suc)
    ultimately show ?thesis using p by (simp add: queued_def comp_def del: upt_Suc map_Suc_upt)
  qed
  have "((buffer_play a + 1) mod 32 + k) mod 32 = (buffer_play a + Suc k) mod 32" for k by (simp add: mod_add_left_eq)
  then show "queued (switch_buffers a) = tl (queued a)" by (simp add: q) (simp add: queued_def s)
  show "\<exists>i. dma (switch_buffers a) = Some i \<and> buffers (switch_buffers a) ! i = hd (queued a)" by (simp add: q s)
qed

text \<open>
  Between the load and the store of \<open>buffered += BUFFER_SIZE\<close> in \<open>play\<close> the interrupt may run: the store then undoes
  its subtraction.
\<close>

definition queue_buffer_interrupted :: "ao \<Rightarrow> ao" where
  "queue_buffer_interrupted a =
     (let a1 = a\<lparr>buffer_fill := (buffer_fill a + 1) mod BUFFER_COUNT\<rparr>; v = buffered a1; a2 = switch_buffers a1
      in a2\<lparr>buffered := v + BUFFER_SIZE\<rparr>)"

section \<open>Properties\<close>

definition demo_ao :: ao where
  "demo_ao = \<lparr>playing = True, buffers = replicate 32 silent, buffer_fill = 1, buffer_play = 0, buffered = 4096, channels = 2,
     dma = None, dma_on = True, vol_left = 142, vol_right = 142\<rparr>"

lemma demo_ring: "ring_inv demo_ao" "playing demo_ao" "request_size demo_ao = 4096" "length (queued demo_ao) = 1"
  by (auto simp: ring_inv_def demo_ao_def silent_def request_size_def queued_def intro!: exI [of _ 1])

text \<open>
  (C11) The audio ring is a queue. A call of \<open>play\<close> that is not the final chunk, while the output plays and with the interrupts
  between the calls, appends the blocks of whole requests, in order and
  as many as the source has or the ring has room for, leaves the buffer that was given to the hardware and the one before it
  as they are, and returns the bytes of exactly those requests; and each interrupt hands the hardware the oldest block.
  The other cases are not like this: the final chunk takes no look at the room and may overrun its buffer
  (\<open>audio_final_chunk_overflows\<close>), and an interrupt inside the increment of the count breaks the invariant
  (\<open>audio_interrupted_increment\<close>).
\<close>

theorem audio_ring_is_fifo:
  assumes "ring_inv a" "playing a"
  shows "\<exists>k a1. play data bytes False a = Some (int k * request_size a, a1) \<and> ring_inv a1 \<and>
    queued a1 = queued a @ blocks (channels a) data k \<and> int k * request_size a \<le> max 0 bytes \<and>
    (bytes - int k * request_size a < request_size a \<or> 29 < buffered a1 div BUFFER_SIZE) \<and>
    (\<forall>i. dma a = Some i \<longrightarrow> dma a1 = Some i \<and> buffers a1 ! i = buffers a ! i) \<and> behind a1 = behind a \<and>
    (queued a1 \<noteq> [] \<longrightarrow> queued (switch_buffers a1) = tl (queued a1) \<and>
       (\<exists>i. dma (switch_buffers a1) = Some i \<and> buffers (switch_buffers a1) ! i = hd (queued a1)))"
proof -
  from play_loop_law [OF assms(1), of data bytes 0] obtain k a1 where
    l: "play_loop data bytes 0 a = Some (int k * request_size a, drop (k * nat (request_size a div 2)) data, bytes - int k * request_size a, a1)"
    and k: "ring_inv a1" "queued a1 = queued a @ blocks (channels a) data k" "dma a1 = dma a" "playing a1 = playing a"
      "\<forall>i. dma a = Some i \<longrightarrow> buffers a1 ! i = buffers a ! i" "behind a1 = behind a"
      "bytes - int k * request_size a < request_size a \<or> 29 < buffered a1 div BUFFER_SIZE" "int k * request_size a \<le> max 0 bytes"
    by auto
  have p: "play data bytes False a = Some (int k * request_size a, a1)"
    using assms(2) k(4) by (simp add: play_def l start_playing_def)
  have "playing a1" using assms(2) k(4) by simp
  note sw = switch_law [OF k(1) this]
  show ?thesis by (rule exI [of _ k], rule exI [of _ a1]) (use p k sw in auto)
qed

theorem audio_ring_is_fifo_witness:
  "\<exists>k a1. play (replicate 5000 7) 10000 False demo_ao = Some (int k * 4096, a1) \<and> ring_inv a1 \<and>
    queued a1 = queued demo_ao @ blocks 2 (replicate 5000 7) k"
proof -
  have "channels demo_ao = 2" by (simp add: demo_ao_def)
  with audio_ring_is_fifo [OF demo_ring(1,2), of "replicate 5000 7" 10000] show ?thesis unfolding demo_ring(3) by metis
qed

text \<open>
  The final chunk. A last call with less than one request of \<open>bytes\<close> writes past its buffer exactly when there are
  4100 bytes or more: the number of frames is computed as if the source were stereo. So it cannot happen with two
  channels, and it does with three to six.
\<close>

theorem audio_final_chunk_overflows:
  assumes "ring_inv a" "0 \<le> bytes" "bytes < request_size a"
  shows "play data bytes True a = None \<longleftrightarrow> 4100 \<le> bytes"
proof -
  have l: "play_loop data bytes 0 a = Some (0, data, bytes, a)" using assms(3) by (subst play_loop.simps) simp
  have "length (copy_channels (channels a) data (bytes div 4)) \<le> 2048 \<longleftrightarrow> bytes < 4100" by auto
  then show ?thesis using assms(2) by (auto simp: play_def l fill_buffer_at_def)
qed

theorem audio_final_chunk_overflows_witness:
  "play (replicate 3000 1) 6000 True (demo_ao\<lparr>channels := 6\<rparr>) = None"
proof -
  have "ring_inv (demo_ao\<lparr>channels := 6\<rparr>)" using demo_ring(1) by (auto simp: ring_inv_def)
  from audio_final_chunk_overflows [OF this, of 6000] show ?thesis by (simp add: request_size_def)
qed

text \<open>
  The count of queued bytes is shared with the interrupt without protection. If the interrupt runs inside the
  increment in \<open>play\<close>, the ring counts one buffer more than it holds from then on: the play position has moved past
  a block whose bytes are still counted, so the fill position is one block short of what the count says.
\<close>

theorem audio_interrupted_increment:
  assumes "ring_inv a" "playing a" "queued a \<noteq> []"
  defines "a1 \<equiv> queue_buffer_interrupted a"
  shows "buffered a1 = BUFFER_SIZE * (int (length (queued a)) + 1) \<and>
    buffer_fill a1 = (buffer_play a1 + length (queued a)) mod BUFFER_COUNT \<and> \<not> ring_inv a1"
proof -
  obtain n where n: "n \<le> 30" "buffered a = BUFFER_SIZE * int n" "buffer_fill a = (buffer_play a + n) mod 32"
    using ring_inv_count [OF assms(1)] by metis
  have len: "length (queued a) = n" by (simp add: queued_def n(2))
  then have "0 < n" using assms(3) by (cases n) auto
  then have a1: "buffered a1 = BUFFER_SIZE * (int n + 1)" "buffer_play a1 = (buffer_play a + 1) mod 32"
    "buffer_fill a1 = (buffer_fill a + 1) mod 32"
    using assms(2) n(2) by (simp_all add: a1_def queue_buffer_interrupted_def switch_buffers_def Let_def)
  have f: "buffer_fill a1 = (buffer_play a1 + n) mod 32" by (simp add: a1 n(3) mod_add_left_eq mod_Suc_eq)
  have "buffer_play a1 < 32" by (simp add: a1)
  then have "(buffer_play a1 + n) mod 32 \<noteq> (buffer_play a1 + (n + 1)) mod 32" using mod_neq [of "buffer_play a1" n "n + 1"] n(1) by simp
  moreover have "buffer_fill a1 = (buffer_play a1 + (n + 1)) mod 32" if r: "ring_inv a1"
  proof -
    obtain m where m: "buffered a1 = BUFFER_SIZE * int m" "buffer_fill a1 = (buffer_play a1 + m) mod 32"
      using ring_inv_count [OF r] by metis
    then have "m = n + 1" using a1(1) by simp
    with m(2) show ?thesis by simp
  qed
  ultimately have "\<not> ring_inv a1" using f by auto
  with a1(1) f len show ?thesis by simp
qed

theorem audio_interrupted_increment_witness:
  "buffered (queue_buffer_interrupted demo_ao) = 8192 \<and> \<not> ring_inv (queue_buffer_interrupted demo_ao)"
proof -
  have "queued demo_ao \<noteq> []" using demo_ring(4) by auto
  from audio_interrupted_increment [OF demo_ring(1,2) this] demo_ring(4) show ?thesis by simp
qed

end
