(* ===== verification/File_Names.thy ===== *)
theory File_Names
  imports Complex_Main C_Lib
begin

text \<open>
  File names and paths of the browser: the extension tables of source/settings.h, the extension
  tests, the device prefixes and \<open>CleanupPath\<close> of source/fileop.cpp.

  A path is a C string. \<open>CleanupPath\<close> works in place, so its model keeps the whole buffer, the
  bytes behind the terminating NUL included, and \<open>c_str\<close> reads the C string back from it.
\<close>

section \<open>Extension tables (settings.h)\<close>

definition validVideoExtensions :: "string list" where
  "validVideoExtensions = [''avi'', ''mov'', ''thp'']"

definition validAudioExtensions :: "string list" where
  "validAudioExtensions =
     [''aac'', ''ac3'', ''adx'', ''aif'', ''aiff'', ''amr'', ''ape'', ''apl'', ''asf'', ''bcstm'', ''bfstm'', ''brstm'',
      ''flac'', ''m4a'', ''m4b'', ''m4p'', ''mka'', ''mp2'', ''mp3'', ''mpc'', ''oga'', ''ogg'', ''wav'', ''wma'']"

definition validImageExtensions :: "string list" where
  "validImageExtensions = [''bmp'', ''gif'', ''jpeg'', ''jpg'', ''png'']"

definition validPlaylistExtensions :: "string list" where
  "validPlaylistExtensions = [''asx'', ''m3u'', ''pls'', ''plx'', ''ram'', ''smil'']"

definition validSubtitleExtensions :: "string list" where
  "validSubtitleExtensions = [''sub'', ''srt'', ''ssa'', ''ass'']"

definition validInternetProtocols :: "string list" where
  "validInternetProtocols = [''http'', ''https'']"

definition valid_ext :: "string list \<Rightarrow> string \<Rightarrow> bool" where
  "valid_ext table ext = (ext \<noteq> [] \<and> list_ex (c_strcasecmp ext) table)"

definition IsPlaylistExt :: "string \<Rightarrow> bool" where
  "IsPlaylistExt = valid_ext validPlaylistExtensions"

definition IsVideoExt :: "string \<Rightarrow> bool" where
  "IsVideoExt = valid_ext validVideoExtensions"

definition IsAudioExt :: "string \<Rightarrow> bool" where
  "IsAudioExt = valid_ext validAudioExtensions"

definition IsImageExt :: "string \<Rightarrow> bool" where
  "IsImageExt = valid_ext validImageExtensions"

definition IsSubtitleExt :: "string \<Rightarrow> bool" where
  "IsSubtitleExt = valid_ext validSubtitleExtensions"

datatype menu = MENU_BROWSE_VIDEOS | MENU_BROWSE_MUSIC | MENU_BROWSE_ONLINEMEDIA | MENU_OTHER

definition IsAllowedExt :: "menu \<Rightarrow> string \<Rightarrow> bool" where
  "IsAllowedExt menuCurrent ext =
     (ext \<noteq> [] \<and>
      ((menuCurrent = MENU_BROWSE_VIDEOS \<or> menuCurrent = MENU_BROWSE_ONLINEMEDIA) \<and> IsVideoExt ext \<or>
       (menuCurrent = MENU_BROWSE_MUSIC \<or> menuCurrent = MENU_BROWSE_ONLINEMEDIA) \<and> IsAudioExt ext))"

section \<open>Extensions of a file name\<close>

text \<open>\<open>strrchr\<close>: the text after the last \<open>c\<close> (\<open>None\<close> without one), and the text before it.\<close>

definition after_last :: "char \<Rightarrow> string \<Rightarrow> string option" where
  "after_last c s = (if c \<in> set s then Some (rev (c_before c (rev s))) else None)"

definition before_last :: "char \<Rightarrow> string \<Rightarrow> string" where
  "before_last c s = rev (drop 1 (c_from c (rev s)))"

definition StripExt :: "string \<Rightarrow> string" where
  "StripExt s = (if length s < 4 \<or> CHR ''.'' \<notin> set s then s else before_last CHR ''.'' s)"

text \<open>
  The empty name makes the code read the byte before the string; the model takes the branch of a
  byte other than a slash there (both branches leave the extension empty).
\<close>

definition GetExt :: "string \<Rightarrow> string" where
  "GetExt file =
     (if file \<noteq> [] \<and> last file = CHR ''/'' then []
      else case after_last CHR ''.'' file of None \<Rightarrow> []
      | Some e \<Rightarrow> if 6 < length e \<or> \<not> list_all c_isalnum (take 6 e) then [] else e)"

section \<open>Devices\<close>

datatype device = DEVICE_SD | DEVICE_SMB | DEVICE_INTERNET | DEVICE_WEBDAV

definition c_atoi :: "string \<Rightarrow> int" where
  "c_atoi s = fst (c_strtol int32_min int32_max s)"

text \<open>\<open>strchr(file, ':')\<close> with at most five bytes before it and \<open>//\<close> behind it.\<close>

definition IsAllowedProtocol :: "string \<Rightarrow> bool" where
  "IsAllowedProtocol file =
     (let p = c_before CHR '':'' file; r = c_from CHR '':'' file
      in r \<noteq> [] \<and> length p \<le> 5 \<and> take 2 (drop 1 r) = ''//'' \<and> list_ex (c_strcasecmp p) validInternetProtocols)"

definition IsInternetStream :: "string \<Rightarrow> bool" where
  "IsInternetStream file =
     (c_strncmp file ''http://'' 7 \<and>
      (let r = c_from CHR ''/'' (drop 7 file) in r = [] \<or> length r = 1))"

text \<open>
  \<open>FindDevice\<close>, with the device number where the code sets one. A name shorter than three bytes
  makes the code start \<open>atoi\<close> behind the terminating NUL; the model reads an empty number there.
\<close>

definition FindDevice :: "string \<Rightarrow> (device \<times> int option) option" where
  "FindDevice filepath =
     (if filepath = [] then None
      else if c_strncmp filepath ''dav1:'' 5 then Some (DEVICE_WEBDAV, Some 1)
      else if IsAllowedProtocol filepath then Some (DEVICE_INTERNET, None)
      else if c_strncmp filepath ''sd'' 2 then
        (let tmp = c_atoi (drop 2 filepath) in if 0 < tmp \<and> tmp < 10 then Some (DEVICE_SD, Some tmp) else None)
      else
        (let tmp = c_atoi (drop 3 filepath)
         in if 0 < tmp \<and> tmp < 10 \<and> c_strncmp filepath ''smb'' 3 then Some (DEVICE_SMB, Some tmp) else None))"

definition IsDeviceRoot :: "string \<Rightarrow> bool" where
  "IsDeviceRoot path =
     (path \<noteq> [] \<and>
      (c_strncmp path ''sd'' 2 \<and> length path = 5 \<or> c_strncmp path ''usb'' 3 \<and> length path = 6 \<or>
       path = ''dvd:/'' \<or> c_strncmp path ''smb'' 3 \<and> length path = 6 \<or>
       c_strncmp path ''ftp'' 3 \<and> length path = 6 \<or> path = ''dav1:/''))"

section \<open>CleanupPath\<close>

abbreviation NUL :: char where "NUL \<equiv> CHR 0x00"

definition c_str :: "char list \<Rightarrow> string" where
  "c_str buf = takeWhile (\<lambda>c. c \<noteq> NUL) buf"

definition unslash :: "char \<Rightarrow> char" where
  "unslash c = (if c = CHR 0x5C then CHR ''/'' else c)"

text \<open>The compressing loop: \<open>acc\<close> is the written part, reversed.\<close>

fun squeeze :: "string \<Rightarrow> string \<Rightarrow> string" where
  "squeeze acc [] = rev acc"
| "squeeze acc (c # cs) =
     (if acc \<noteq> [] \<and> hd acc = CHR ''/'' \<and> unslash c = CHR ''/'' then squeeze acc cs
      else squeeze (unslash c # acc) cs)"

text \<open>\<open>strtok\<close> with the separator \<open>/\<close>: the non-empty pieces.\<close>

fun tokens :: "string \<Rightarrow> string \<Rightarrow> string list" where
  "tokens cur [] = (if cur = [] then [] else [rev cur])"
| "tokens cur (c # cs) =
     (if c = CHR ''/'' then (if cur = [] then tokens [] cs else rev cur # tokens [] cs) else tokens (c # cur) cs)"

text \<open>
  The removal of \<open>../\<close>. \<open>None\<close> is the wiped path. The middle pieces with an index between
  \<open>firstParent - parentCount\<close> and \<open>firstParent + parentCount - 1\<close> are left out.
\<close>

definition remove_parents :: "string \<Rightarrow> string option" where
  "remove_parents s =
     (let ts = tokens [] s; total = length ts;
          parentCount = length (filter (\<lambda>t. t = ''..'') ts);
          firstParent = (if parentCount = 0 then 0 else length (takeWhile (\<lambda>t. t \<noteq> ''..'') ts));
          dirCount = int total - int parentCount - 2
      in if 20 < total then None
         else if dirCount < int parentCount then None
         else
           let keep = filter (\<lambda>i. \<not> (int firstParent - int parentCount - 1 < int i \<and> i < firstParent + parentCount))
                        [1..<total - 1]
           in Some (ts ! 0 @ ''/'' @ concat (map (\<lambda>i. ts ! i @ ''/'') keep) @ ts ! (total - 1)))"

text \<open>
  The buffer starts as the path and its NUL. The loop overwrites the first \<open>j\<close> bytes only, so until
  the last line the string still ends with the old bytes from \<open>j\<close> on; the tests on \<open>../\<close> and on
  the extension read them.
\<close>

definition set_byte :: "char list \<Rightarrow> nat \<Rightarrow> char \<Rightarrow> char list" where
  "set_byte buf i c = (if i < length buf then buf[i := c] else buf @ [c])"

definition overwrite :: "char list \<Rightarrow> char list \<Rightarrow> char list" where
  "overwrite buf s = s @ drop (length s) buf"

text \<open>\<open>strtok\<close> writes a NUL over the first separator behind each piece.\<close>

definition strtok_bytes :: "char list \<Rightarrow> char list" where
  "strtok_bytes buf =
     (let s = c_str buf
      in map (\<lambda>(p, c). if c = CHR ''/'' \<and> p \<noteq> CHR ''/'' then NUL else c) (zip (CHR ''/'' # s) s) @ drop (length s) buf)"

definition cleanup_device_path :: "string \<Rightarrow> string" where
  "cleanup_device_path path =
     (let out = squeeze [] (take 1024 path); j = length out;
          buf = overwrite (map unslash (take 1024 path) @ drop 1024 path @ [NUL]) out;
          buf2 = (if c_strstr (c_str buf) ''../'' = None then Some buf
                  else map_option (\<lambda>s. overwrite (strtok_bytes buf) (s @ [NUL])) (remove_parents (c_str buf)))
      in case buf2 of None \<Rightarrow> []
         | Some b \<Rightarrow>
           if GetExt (c_str b) = [] \<and> b ! (j - 1) \<noteq> CHR ''/''
           then c_str (set_byte (set_byte b j CHR ''/'') (Suc j) NUL)
           else c_str (set_byte b j NUL))"

definition CleanupPath :: "string \<Rightarrow> string" where
  "CleanupPath path =
     (if path = [] then []
      else if FindDevice path = None then []
      else if IsAllowedProtocol path then
        (if CHR ''/'' \<in> set (drop 2 (c_from CHR '':'' path)) then path else path @ ''/'')
      else cleanup_device_path path)"


end
