(* ===== verification/Browser_List.thy ===== *)
theory Browser_List
  imports File_Names "HOL-Library.Multiset"
begin

text \<open>
  The browser lists of source/filebrowser.h and source/filebrowser.cpp: doubly linked lists of
  \<open>BROWSERENTRY\<close> cells, their construction, deletion, release and the in-place merge sort, and the
  sort callback of source/fileop.cpp.

  The cells live in an explicit heap from addresses to entries. A pointer is an \<open>addr option\<close>, NULL
  being \<open>None\<close>. Every operation returns an option: \<open>None\<close> is a dereference of NULL or of a freed
  cell, or a loop that does not end. The five global browsers are the components of a function on
  \<open>which_list\<close>.

  The allocator is part of the state: \<open>calloc_at n\<close> is the address the n-th allocation of a cell is
  given (\<open>None\<close> when memory has run out; an address that is in use is refused as well), and
  \<open>strdup_at n\<close> whether the n-th copy of a string succeeds. Every theorem holds for all of them.
\<close>

section \<open>Types (filebrowser.h)\<close>

type_synonym addr = nat

datatype entry_type = TYPE_FILE | TYPE_FOLDER | TYPE_PLAYLIST | TYPE_SEARCH

datatype icon = ICON_NONE | ICON_FOLDER | ICON_FOLDER_CHECKED | ICON_FILE | ICON_FILE_CHECKED | ICON_CHECK
  | ICON_PLAY | ICON_SD | ICON_USB | ICON_DVD | ICON_SMB | ICON_FTP

record bentry =
  e_length :: nat
  e_type :: entry_type
  e_file :: "string option"
  e_url :: "string option"
  e_display :: "string option"
  e_xml :: "string option"
  e_image :: "string option"
  e_tunein :: "string option"
  e_year :: "string option"
  e_desc :: "string option"
  e_icon :: icon
  e_pos :: int
  e_next :: "addr option"
  e_prior :: "addr option"

record browser_t =
  b_dir :: string
  b_menu :: int
  b_lastdir :: string
  b_numEntries :: int
  b_selIndex :: "addr option"
  b_pageIndex :: int
  b_first :: "addr option"
  b_last :: "addr option"

type_synonym heap = "addr \<Rightarrow> bentry option"

datatype which_list = Files | Subs | Videos | Music | OnlineMedia

record ui =
  br :: "which_list \<Rightarrow> browser_t"
  cells :: heap
  ticks :: nat
  calloc_at :: "nat \<Rightarrow> addr option"
  strdup_at :: "nat \<Rightarrow> bool"
  browserHistory :: "string list"
  sub_list :: "addr option"

definition calloc_entry :: bentry where
  "calloc_entry = \<lparr>e_length = 0, e_type = TYPE_FILE, e_file = None, e_url = None, e_display = None, e_xml = None,
     e_image = None, e_tunein = None, e_year = None, e_desc = None, e_icon = ICON_NONE, e_pos = 0,
     e_next = None, e_prior = None\<rparr>"

definition set_br :: "which_list \<Rightarrow> browser_t \<Rightarrow> ('a) ui_scheme \<Rightarrow> 'a ui_scheme" where
  "set_br w b u = u\<lparr>br := (br u)(w := b)\<rparr>"

text \<open>A store through a pointer faults when the cell is not allocated.\<close>

definition upd :: "heap \<Rightarrow> addr \<Rightarrow> (bentry \<Rightarrow> bentry) \<Rightarrow> heap option" where
  "upd h a f = (case h a of None \<Rightarrow> None | Some e \<Rightarrow> Some (h(a \<mapsto> f e)))"

definition load :: "heap \<Rightarrow> addr option \<Rightarrow> bentry option" where
  "load h p = (case p of None \<Rightarrow> None | Some a \<Rightarrow> h a)"

definition upd_cell :: "addr \<Rightarrow> (bentry \<Rightarrow> bentry) \<Rightarrow> 'a ui_scheme \<Rightarrow> 'a ui_scheme option" where
  "upd_cell a f u = map_option (\<lambda>h. u\<lparr>cells := h\<rparr>) (upd (cells u) a f)"

section \<open>Construction and release\<close>

definition BrowserInit :: "browser_t \<Rightarrow> browser_t" where
  "BrowserInit info = info\<lparr>b_first := None, b_last := None, b_selIndex := None, b_numEntries := 0, b_pageIndex := 0,
     b_dir := [], b_lastdir := []\<rparr>"

text \<open>The loop of \<open>Reset\<close> frees cell after cell.\<close>

partial_function (option) free_all :: "addr option \<Rightarrow> heap \<Rightarrow> heap option" where
  "free_all p h =
     (case p of None \<Rightarrow> Some h
      | Some a \<Rightarrow> (case h a of None \<Rightarrow> None | Some e \<Rightarrow> free_all (e_next e) (h(a := None))))"

definition Reset :: "which_list \<Rightarrow> 'a ui_scheme \<Rightarrow> 'a ui_scheme option" where
  "Reset w u =
     (case free_all (b_first (br u w)) (cells u) of None \<Rightarrow> None
      | Some h \<Rightarrow> Some (set_br w ((br u w)\<lparr>b_numEntries := 0, b_selIndex := None, b_pageIndex := 0,
                                    b_first := None, b_last := None\<rparr>) (u\<lparr>cells := h\<rparr>)))"

definition ResetFiles :: "'a ui_scheme \<Rightarrow> 'a ui_scheme option" where
  "ResetFiles u = (case Reset Subs u of None \<Rightarrow> None | Some u1 \<Rightarrow> Reset Files u1)"

definition AddEntry :: "which_list \<Rightarrow> 'a ui_scheme \<Rightarrow> (addr option \<times> 'a ui_scheme) option" where
  "AddEntry w u0 =
     (let u = u0\<lparr>ticks := Suc (ticks u0)\<rparr>; info = br u w; last_entry = b_last info in
      case calloc_at u (ticks u0) of
        None \<Rightarrow> Some (None, u)
      | Some a \<Rightarrow>
        if cells u a \<noteq> None then Some (None, u)
        else
          let h0 = (cells u)(a \<mapsto> calloc_entry) in
          case (case last_entry of
                  None \<Rightarrow> Some (info\<lparr>b_first := Some a\<rparr>, h0)
                | Some l \<Rightarrow> map_option (Pair info) (upd h0 l (\<lambda>e. e\<lparr>e_next := Some a\<rparr>)))
          of None \<Rightarrow> None
           | Some (info1, h1) \<Rightarrow>
             (case upd h1 a (\<lambda>e. e\<lparr>e_prior := last_entry, e_pos := b_numEntries info\<rparr>) of None \<Rightarrow> None
              | Some h2 \<Rightarrow>
                Some (Some a, set_br w (info1\<lparr>b_last := Some a, b_numEntries := b_numEntries info + 1\<rparr>)
                  (u\<lparr>cells := h2\<rparr>))))"

text \<open>Unlinking a cell, as \<open>DeleteEntry\<close> does it: through \<open>prior\<close> and \<open>next\<close> of the cell.\<close>

definition unlink :: "addr \<Rightarrow> bentry \<Rightarrow> browser_t \<Rightarrow> heap \<Rightarrow> (browser_t \<times> heap) option" where
  "unlink a e info h =
     (case (case e_prior e of None \<Rightarrow> Some (info\<lparr>b_first := e_next e\<rparr>, h)
            | Some p \<Rightarrow> map_option (Pair info) (upd h p (\<lambda>c. c\<lparr>e_next := e_next e\<rparr>)))
      of None \<Rightarrow> None
       | Some (info1, h1) \<Rightarrow>
         (case e_next e of None \<Rightarrow> Some (info1\<lparr>b_last := e_prior e\<rparr>, h1)
          | Some n \<Rightarrow> map_option (Pair info1) (upd h1 n (\<lambda>c. c\<lparr>e_prior := e_prior e\<rparr>))))"

partial_function (option) delete_loop ::
  "which_list \<Rightarrow> addr option \<Rightarrow> addr \<Rightarrow> 'a ui_scheme \<Rightarrow> (bool \<times> 'a ui_scheme) option" where
  "delete_loop w i entry u =
     (case i of None \<Rightarrow> Some (False, u)
      | Some a \<Rightarrow>
        (case cells u a of None \<Rightarrow> None
         | Some e \<Rightarrow>
           if a = entry then
             (case unlink a e (br u w) (cells u) of None \<Rightarrow> None
              | Some (info, h) \<Rightarrow> Some (True, set_br w info (u\<lparr>cells := h(a := None)\<rparr>)))
           else delete_loop w (e_next e) entry u))"

definition DeleteEntry :: "which_list \<Rightarrow> addr option \<Rightarrow> 'a ui_scheme \<Rightarrow> (bool \<times> 'a ui_scheme) option" where
  "DeleteEntry w entry u =
     (case entry of None \<Rightarrow> Some (False, u) | Some a \<Rightarrow> delete_loop w (b_first (br u w)) a u)"

text \<open>\<open>strdup\<close> of a string; \<open>None\<close> when memory has run out.\<close>

definition c_strdup :: "string \<Rightarrow> 'a ui_scheme \<Rightarrow> string option \<times> 'a ui_scheme" where
  "c_strdup s u = (if strdup_at u (ticks u) then Some s else None, u\<lparr>ticks := Suc (ticks u)\<rparr>)"

section \<open>SortBrowser\<close>

text \<open>Stepping over the first run: at most \<open>w\<close> cells. The result counts them.\<close>

fun skip_run :: "heap \<Rightarrow> nat \<Rightarrow> addr option \<Rightarrow> nat \<Rightarrow> (nat \<times> addr option) option" where
  "skip_run h 0 q n = Some (n, q)"
| "skip_run h (Suc w) q n =
     (case q of None \<Rightarrow> Some (n, None)
      | Some a \<Rightarrow> (case h a of None \<Rightarrow> None | Some e \<Rightarrow> skip_run h w (e_next e) (Suc n)))"

text \<open>The choice of the next cell: its address and the state of the two runs behind it.\<close>

definition pick :: "(bentry \<Rightarrow> bentry \<Rightarrow> int) \<Rightarrow> heap \<Rightarrow> addr option \<Rightarrow> nat \<Rightarrow> addr option \<Rightarrow> nat
    \<Rightarrow> (addr \<times> addr option \<times> nat \<times> addr option \<times> nat) option" where
  "pick comparator h p pCount q qCount =
     (if pCount = 0 then
        (case q of None \<Rightarrow> None
         | Some b \<Rightarrow> (case h b of None \<Rightarrow> None | Some f \<Rightarrow> Some (b, p, pCount, e_next f, qCount - 1)))
      else
        (case p of None \<Rightarrow> None
         | Some a \<Rightarrow>
           (case h a of None \<Rightarrow> None
            | Some e \<Rightarrow>
              if qCount = 0 then Some (a, e_next e, pCount - 1, q, qCount)
              else
                (case q of None \<Rightarrow> Some (a, e_next e, pCount - 1, q, qCount)
                 | Some b \<Rightarrow>
                   (case h b of None \<Rightarrow> None
                    | Some f \<Rightarrow> if comparator e f \<le> 0 then Some (a, e_next e, pCount - 1, q, qCount)
                               else Some (b, p, pCount, e_next f, qCount - 1))))))"

text \<open>Appending the chosen cell to the output list.\<close>

definition append_cell :: "heap \<Rightarrow> addr option \<Rightarrow> addr option \<Rightarrow> addr \<Rightarrow> (heap \<times> addr option) option" where
  "append_cell h tail newHead entry =
     (case upd h entry (\<lambda>e. e\<lparr>e_prior := tail\<rparr>) of None \<Rightarrow> None
      | Some h1 \<Rightarrow>
        (case tail of None \<Rightarrow> Some (h1, Some entry)
         | Some t \<Rightarrow> map_option (\<lambda>h2. (h2, newHead)) (upd h1 t (\<lambda>e. e\<lparr>e_next := Some entry\<rparr>))))"

function merge_runs :: "(bentry \<Rightarrow> bentry \<Rightarrow> int) \<Rightarrow> heap \<Rightarrow> addr option \<Rightarrow> nat \<Rightarrow> addr option \<Rightarrow> nat
    \<Rightarrow> addr option \<Rightarrow> addr option \<Rightarrow> (heap \<times> addr option \<times> addr option \<times> addr option) option" where
  "merge_runs comparator h p pCount q qCount tail newHead =
     (if 0 < pCount \<or> (0 < qCount \<and> q \<noteq> None) then
        (case pick comparator h p pCount q qCount of None \<Rightarrow> None
         | Some (entry, p1, pc1, q1, qc1) \<Rightarrow>
           (case append_cell h tail newHead entry of None \<Rightarrow> None
            | Some (h1, head1) \<Rightarrow> merge_runs comparator h1 p1 pc1 q1 qc1 (Some entry) head1))
      else Some (h, q, tail, newHead))"
  by pat_completeness auto
termination
proof (relation "measure (\<lambda>(c, h, p, pc, q, qc, t, n). pc + qc)", goal_cases)
  case (2 comparator h p pCount q qCount tail newHead t entry u p1 v pc1 x q1 qc1)
  then show ?case by (auto simp: pick_def split: if_splits option.splits)
qed simp

declare merge_runs.simps [simp del]

text \<open>One pass over the list with runs of \<open>w\<close> cells; the last component counts the merges.\<close>

partial_function (option) merge_pass :: "(bentry \<Rightarrow> bentry \<Rightarrow> int) \<Rightarrow> nat \<Rightarrow> heap \<Rightarrow> addr option \<Rightarrow> addr option
    \<Rightarrow> addr option \<Rightarrow> nat \<Rightarrow> (heap \<times> addr option \<times> addr option \<times> nat) option" where
  "merge_pass comparator w h p tail newHead merges =
     (case p of None \<Rightarrow> Some (h, tail, newHead, merges)
      | Some _ \<Rightarrow>
        (case skip_run h w p 0 of None \<Rightarrow> None
         | Some pq \<Rightarrow>
           (case merge_runs comparator h p (fst pq) (snd pq) w tail newHead of None \<Rightarrow> None
            | Some r \<Rightarrow> merge_pass comparator w (fst r) (fst (snd r)) (fst (snd (snd r))) (snd (snd (snd r))) (Suc merges))))"

text \<open>The passes; \<open>width\<close> is a 32-bit \<open>size_t\<close>.\<close>

partial_function (option) sort_passes ::
  "(bentry \<Rightarrow> bentry \<Rightarrow> int) \<Rightarrow> nat \<Rightarrow> heap \<Rightarrow> addr option \<Rightarrow> (heap \<times> addr option \<times> addr) option" where
  "sort_passes comparator width h head =
     (case merge_pass comparator width h head None None 0 of None \<Rightarrow> None
      | Some r \<Rightarrow>
        (case fst (snd r) of None \<Rightarrow> None
         | Some t \<Rightarrow>
           (case upd (fst r) t (\<lambda>e. e\<lparr>e_next := None\<rparr>) of None \<Rightarrow> None
            | Some h1 \<Rightarrow>
              if snd (snd (snd r)) \<le> 1 then Some (h1, fst (snd (snd r)), t)
              else sort_passes comparator (width * 2 mod 2 ^ 32) h1 (fst (snd (snd r))))))"

partial_function (option) number_entries :: "addr option \<Rightarrow> int \<Rightarrow> heap \<Rightarrow> heap option" where
  "number_entries p pos h =
     (case p of None \<Rightarrow> Some h
      | Some a \<Rightarrow> (case h a of None \<Rightarrow> None
                 | Some e \<Rightarrow> number_entries (e_next e) (pos + 1) (h(a \<mapsto> e\<lparr>e_pos := pos\<rparr>))))"

definition sort_list :: "(bentry \<Rightarrow> bentry \<Rightarrow> int) \<Rightarrow> browser_t \<Rightarrow> heap \<Rightarrow> (browser_t \<times> heap) option" where
  "sort_list comparator b h =
     (case b_first b of None \<Rightarrow> Some (b, h)
      | Some a \<Rightarrow>
        (case h a of None \<Rightarrow> None
         | Some e \<Rightarrow>
           if e_next e = None then Some (b, h)
           else
             (case sort_passes comparator 1 h (Some a) of None \<Rightarrow> None
              | Some (h1, head, t) \<Rightarrow>
                (case number_entries head 0 h1 of None \<Rightarrow> None
                 | Some h2 \<Rightarrow> Some (b\<lparr>b_first := head, b_last := Some t\<rparr>, h2)))))"

definition SortBrowser :: "which_list \<Rightarrow> (bentry \<Rightarrow> bentry \<Rightarrow> int) \<Rightarrow> 'a ui_scheme \<Rightarrow> 'a ui_scheme option" where
  "SortBrowser w comparator u =
     (case sort_list comparator (br u w) (cells u) of None \<Rightarrow> None
      | Some (b, h) \<Rightarrow> Some (set_br w b (u\<lparr>cells := h\<rparr>)))"

section \<open>Positions\<close>

definition EntryDistance :: "heap \<Rightarrow> addr option \<Rightarrow> addr option \<Rightarrow> int option" where
  "EntryDistance h p1 p2 =
     (if p1 = None \<or> p2 = None then Some 0
      else (case load h p1 of None \<Rightarrow> None
            | Some e \<Rightarrow> (case load h p2 of None \<Rightarrow> None
                       | Some f \<Rightarrow> Some (if e_pos e - e_pos f < 0 then - (e_pos e - e_pos f) else e_pos e - e_pos f))))"

definition EntryPosition :: "heap \<Rightarrow> addr option \<Rightarrow> int option" where
  "EntryPosition h i = (if i = None then Some (- 1) else map_option e_pos (load h i))"

fun walk :: "heap \<Rightarrow> nat \<Rightarrow> addr option \<Rightarrow> addr option option" where
  "walk h 0 p = Some p"
| "walk h (Suc n) p =
     (case p of None \<Rightarrow> Some None | Some a \<Rightarrow> (case h a of None \<Rightarrow> None | Some e \<Rightarrow> walk h n (e_next e)))"

definition PositionToEntry :: "which_list \<Rightarrow> int \<Rightarrow> 'a ui_scheme \<Rightarrow> addr option option" where
  "PositionToEntry w pos u = walk (cells u) (nat pos) (b_first (br u w))"

section \<open>Subtitles and history\<close>

definition BrowserGetSubInit :: "'a ui_scheme \<Rightarrow> 'a ui_scheme" where
  "BrowserGetSubInit u = u\<lparr>sub_list := b_first (br u Subs)\<rparr>"

definition BrowserGetSub :: "'a ui_scheme \<Rightarrow> (string option \<times> 'a ui_scheme) option" where
  "BrowserGetSub u =
     (case sub_list u of None \<Rightarrow> Some (None, u)
      | Some a \<Rightarrow>
        (case cells u a of None \<Rightarrow> None
         | Some e \<Rightarrow>
           (case e_file e of None \<Rightarrow> Some (None, u)
            | Some f \<Rightarrow> Some (Some f, u\<lparr>sub_list := e_next e\<rparr>))))"

partial_function (option) find_sub :: "heap \<Rightarrow> addr option \<Rightarrow> string \<Rightarrow> bool option" where
  "find_sub h i path =
     (case i of None \<Rightarrow> Some False
      | Some a \<Rightarrow>
        (case h a of None \<Rightarrow> None
         | Some e \<Rightarrow>
           (case e_file e of None \<Rightarrow> None
            | Some f \<Rightarrow> if c_strcasecmp f path then Some True else find_sub h (e_next e) path)))"

definition BrowserFindSub :: "string \<Rightarrow> 'a ui_scheme \<Rightarrow> bool option" where
  "BrowserFindSub path u = (if path = [] then Some False else find_sub (cells u) (b_first (br u Subs)) path)"

definition BrowserHistoryStore :: "string \<Rightarrow> 'a ui_scheme \<Rightarrow> 'a ui_scheme" where
  "BrowserHistoryStore path u = u\<lparr>browserHistory := browserHistory u @ [path]\<rparr>"

definition BrowserHistoryRetrieve :: "'a ui_scheme \<Rightarrow> string" where
  "BrowserHistoryRetrieve u = (if browserHistory u = [] then [] else last (browserHistory u))"

definition BrowserHistoryDiscard :: "'a ui_scheme \<Rightarrow> 'a ui_scheme" where
  "BrowserHistoryDiscard u = u\<lparr>browserHistory := butlast (browserHistory u)\<rparr>"

definition BrowserHistoryClear :: "'a ui_scheme \<Rightarrow> 'a ui_scheme" where
  "BrowserHistoryClear u = u\<lparr>browserHistory := []\<rparr>"

section \<open>The sort callback of file listings (fileop.cpp)\<close>

text \<open>\<open>strcasecmp\<close> with its sign: the difference of the first bytes that differ in lower case.\<close>

fun casediff :: "string \<Rightarrow> string \<Rightarrow> int" where
  "casediff [] [] = 0"
| "casediff (c # cs) [] = int (ccode (c_tolower c))"
| "casediff [] (d # ds) = - int (ccode (c_tolower d))"
| "casediff (c # cs) (d # ds) =
     (if c_tolower c = c_tolower d then (if c = NUL then 0 else casediff cs ds)
      else int (ccode (c_tolower c)) - int (ccode (c_tolower d)))"

definition FileSortCallback :: "bentry \<Rightarrow> bentry \<Rightarrow> int" where
  "FileSortCallback f1 f2 =
     (case (e_file f1, e_file f2) of
        (Some a, Some b) \<Rightarrow>
          let dots = (take 1 a = ''.'' \<or> take 1 b = ''.'') in
          if dots \<and> a = ''.'' then - 1
          else if dots \<and> b = ''.'' then 1
          else if dots \<and> a = ''..'' then - 1
          else if dots \<and> b = ''..'' then 1
          else if e_type f1 = TYPE_FOLDER \<and> e_type f2 \<noteq> TYPE_FOLDER then - 1
          else if e_type f1 \<noteq> TYPE_FOLDER \<and> e_type f2 = TYPE_FOLDER then 1
          else casediff a b
      | _ \<Rightarrow> - 1)"

end
