(* ===== verification/Browser_Sort.thy ===== *)
theory Browser_Sort
  imports Browser_List
begin

text \<open>
  The merge sort of source/filebrowser.cpp. First a merge sort on lists of runs and its correctness
  for any comparison that behaves like a total preorder on the pairs it is asked about; then the
  proof that the in-place sort of the linked list computes it: \<open>SortBrowser\<close> ends for every
  comparator, loses no cell, and leaves a list whose links and positions are right.
\<close>

section \<open>Merging on lists\<close>

fun merge_by :: "('a \<Rightarrow> 'a \<Rightarrow> bool) \<Rightarrow> 'a list \<Rightarrow> 'a list \<Rightarrow> 'a list" where
  "merge_by le [] ys = ys"
| "merge_by le (x # xs) [] = x # xs"
| "merge_by le (x # xs) (y # ys) =
     (if le x y then x # merge_by le xs (y # ys) else y # merge_by le (x # xs) ys)"

fun merge_pairs :: "('a \<Rightarrow> 'a \<Rightarrow> bool) \<Rightarrow> 'a list list \<Rightarrow> 'a list list" where
  "merge_pairs le [] = []"
| "merge_pairs le [r] = [r]"
| "merge_pairs le (r # s # rs) = merge_by le r s # merge_pairs le rs"

lemma length_merge_pairs [simp]: "length (merge_pairs le rs) = (length rs + 1) div 2"
  by (induction le rs rule: merge_pairs.induct) auto

fun merge_rounds :: "('a \<Rightarrow> 'a \<Rightarrow> bool) \<Rightarrow> 'a list list \<Rightarrow> 'a list" where
  "merge_rounds le [] = []"
| "merge_rounds le [r] = r"
| "merge_rounds le (r # s # rs) = merge_rounds le (merge_pairs le (r # s # rs))"

definition merge_sort :: "('a \<Rightarrow> 'a \<Rightarrow> bool) \<Rightarrow> 'a list \<Rightarrow> 'a list" where
  "merge_sort le xs = merge_rounds le (map (\<lambda>x. [x]) xs)"

lemma merge_by_Nil2 [simp]: "merge_by le xs [] = xs"
  by (cases xs) auto

text \<open>Induction over the two runs of a merge, one element less at a time.\<close>

lemma merge_induct [case_names left right step]:
  assumes "\<And>ys. P [] ys" "\<And>x xs. P (x # xs) []"
    "\<And>x xs y ys. P xs (y # ys) \<Longrightarrow> P (x # xs) ys \<Longrightarrow> P (x # xs) (y # ys)"
  shows "P xs ys"
proof (induction ys arbitrary: xs)
  case Nil
  show ?case using assms(1,2) by (cases xs) auto
next
  case (Cons y ys)
  note outer = Cons.IH
  show ?case
  proof (induction xs)
    case (Cons x xs)
    show ?case using assms(3) [OF Cons.IH outer] .
  qed (rule assms(1))
qed

lemma merge_by_eq_Nil [simp]: "merge_by le xs ys = [] \<longleftrightarrow> xs = [] \<and> ys = []"
  by (cases "(le, xs, ys)" rule: merge_by.cases) auto

lemma mset_merge_by [simp]: "mset (merge_by le xs ys) = mset xs + mset ys"
  by (induction le xs ys rule: merge_by.induct) auto

lemma set_merge_by [simp]: "set (merge_by le xs ys) = set xs \<union> set ys"
  by (induction le xs ys rule: merge_by.induct) auto

lemma length_merge_by [simp]: "length (merge_by le xs ys) = length xs + length ys"
  by (induction le xs ys rule: merge_by.induct) auto

lemma distinct_merge_by: "distinct (merge_by le xs ys) = distinct (xs @ ys)"
  by (rule mset_eq_imp_distinct_iff) simp

lemma mset_merge_pairs [simp]: "mset (concat (merge_pairs le rs)) = mset (concat rs)"
  by (induction le rs rule: merge_pairs.induct) auto

lemma mset_merge_rounds [simp]: "mset (merge_rounds le rs) = mset (concat rs)"
proof (induction le rs rule: merge_rounds.induct)
  case (3 le r s rs)
  then show ?case using mset_merge_pairs [of le "r # s # rs"] by simp
qed auto

lemma mset_merge_sort [simp]: "mset (merge_sort le xs) = mset xs"
  by (simp add: merge_sort_def)

lemma set_merge_sort [simp]: "set (merge_sort le xs) = set xs"
  by (metis mset_merge_sort set_mset_mset)

lemma length_merge_sort [simp]: "length (merge_sort le xs) = length xs"
  by (metis mset_merge_sort size_mset)

lemma distinct_merge_sort [simp]: "distinct (merge_sort le xs) = distinct xs"
  by (metis mset_merge_sort distinct_count_atmost_1 set_merge_sort)

subsection \<open>Comparisons that agree on what is asked\<close>

text \<open>A merge only compares a cell of an earlier run with a cell of a later one.\<close>

definition agree :: "('a \<Rightarrow> 'a \<Rightarrow> bool) \<Rightarrow> ('a \<Rightarrow> 'a \<Rightarrow> bool) \<Rightarrow> 'a list \<Rightarrow> 'a list \<Rightarrow> bool" where
  "agree c le xs ys = (\<forall>x \<in> set xs. \<forall>y \<in> set ys. c x y = le x y)"

lemma merge_by_agree: "agree c le xs ys \<Longrightarrow> merge_by c xs ys = merge_by le xs ys"
  by (induction c xs ys rule: merge_by.induct) (auto simp: agree_def)

lemma set_merge_pairs: "(\<Union>r \<in> set (merge_pairs le rs). set r) = (\<Union>r \<in> set rs. set r)"
  by (induction le rs rule: merge_pairs.induct) auto

lemma agree_all: "(\<forall>r \<in> set rs. agree c le xs r) \<longleftrightarrow> (\<forall>x \<in> set xs. \<forall>y \<in> (\<Union>r \<in> set rs. set r). c x y = le x y)"
  by (auto simp: agree_def)

lemma agree_merge_pairs:
  "sorted_wrt (agree c le) rs \<Longrightarrow> merge_pairs c rs = merge_pairs le rs \<and> sorted_wrt (agree c le) (merge_pairs le rs)"
proof (induction c rs rule: merge_pairs.induct)
  case (3 c r s rs)
  then have "\<forall>t \<in> set rs. agree c le r t" and "\<forall>t \<in> set rs. agree c le s t" by auto
  then have "\<forall>t \<in> set (merge_pairs le rs). agree c le (merge_by le r s) t"
    by (auto simp: agree_all set_merge_pairs)
  with 3 show ?case by (simp add: merge_by_agree)
qed auto

lemma agree_merge_rounds: "sorted_wrt (agree c le) rs \<Longrightarrow> merge_rounds c rs = merge_rounds le rs"
proof (induction le rs rule: merge_rounds.induct)
  case (3 le r s rs)
  then show ?case using agree_merge_pairs [of c le "r # s # rs"] by (metis merge_rounds.simps(3))
qed auto

lemma agree_merge_sort:
  "sorted_wrt (\<lambda>x y. c x y = le x y) xs \<Longrightarrow> merge_sort c xs = merge_sort le xs"
  unfolding merge_sort_def by (rule agree_merge_rounds) (simp add: sorted_wrt_map agree_def)

subsection \<open>Sorting by a total preorder\<close>

definition tied :: "('a \<Rightarrow> 'a \<Rightarrow> bool) \<Rightarrow> 'a \<Rightarrow> 'a \<Rightarrow> bool" where
  "tied le x y = (le x y \<and> le y x)"

text \<open>
  A stable sorted arrangement: a permutation in order in which the elements that are tied with any
  given one keep their order.
\<close>

definition stable_sorted :: "('a \<Rightarrow> 'a \<Rightarrow> bool) \<Rightarrow> 'a list \<Rightarrow> 'a list \<Rightarrow> bool" where
  "stable_sorted le xs ys =
     (mset ys = mset xs \<and> sorted_wrt le ys \<and> (\<forall>x. filter (tied le x) ys = filter (tied le x) xs))"

locale total_preorder =
  fixes le :: "'a \<Rightarrow> 'a \<Rightarrow> bool"
  assumes le_trans: "le x y \<Longrightarrow> le y z \<Longrightarrow> le x z"
    and le_total: "le x y \<or> le y x"
begin

lemma le_refl: "le x x"
  using le_total by blast

lemma tied_trans: "tied le x y \<Longrightarrow> tied le x z \<Longrightarrow> le y z"
  unfolding tied_def using le_trans by blast

lemma sorted_merge_by: "sorted_wrt le xs \<Longrightarrow> sorted_wrt le ys \<Longrightarrow> sorted_wrt le (merge_by le xs ys)"
proof (induction xs ys rule: merge_induct)
  case (step x xs y ys)
  show ?case
  proof (cases "le x y")
    case True
    then have "\<forall>z \<in> set ys. le x z" using step.prems(2) le_trans by auto
    with True step show ?thesis by auto
  next
    case False
    then have yx: "le y x" using le_total by blast
    then have "\<forall>z \<in> set xs. le y z" using step.prems(1) le_trans by auto
    with False yx step show ?thesis by auto
  qed
qed auto

lemma filter_merge_by:
  "sorted_wrt le xs \<Longrightarrow> sorted_wrt le ys \<Longrightarrow>
     filter (tied le z) (merge_by le xs ys) = filter (tied le z) xs @ filter (tied le z) ys"
proof (induction xs ys rule: merge_induct)
  case (step x xs y ys)
  show ?case
  proof (cases "le x y")
    case True
    with step show ?thesis by simp
  next
    case False
    have none: "filter (tied le z) (x # xs) = []" if "tied le z y"
    proof -
      have "\<not> le u y" if "u \<in> set (x # xs)" for u
        using that step.prems False le_trans by auto
      then have "\<not> tied le z u" if "u \<in> set (x # xs)" for u
        using that \<open>tied le z y\<close> tied_trans by blast
      then show ?thesis by (metis filter_empty_conv)
    qed
    have "filter (tied le z) (merge_by le (x # xs) ys) = filter (tied le z) (x # xs) @ filter (tied le z) ys"
      using step by auto
    with none False show ?thesis by auto
  qed
qed auto

lemma runs_sorted:
  "(\<forall>r \<in> set rs. sorted_wrt le r) \<Longrightarrow>
     sorted_wrt le (merge_rounds le rs) \<and> filter (tied le z) (merge_rounds le rs) = filter (tied le z) (concat rs)"
proof (induction "length rs" arbitrary: rs rule: less_induct)
  case less
  have pairs: "(\<forall>r \<in> set (merge_pairs le rs). sorted_wrt le r) \<and>
      filter (tied le z) (concat (merge_pairs le rs)) = filter (tied le z) (concat rs)"
    if "\<forall>r \<in> set rs. sorted_wrt le r" for rs
    using that
  proof (induction rs rule: induct_list012)
    case (3 r s rs)
    then show ?case by (simp add: sorted_merge_by filter_merge_by)
  qed auto
  show ?case
  proof (cases "(le, rs)" rule: merge_rounds.cases [case_names Nil Single More])
    case (More l r s rs')
    then have "length (merge_pairs le rs) < length rs" by simp
    with less(1) [of "merge_pairs le rs"] pairs [of rs] less(2) More show ?thesis
      by (metis Pair_inject merge_rounds.simps(3))
  qed (use less(2) in auto)
qed

theorem merge_sort_stable: "stable_sorted le xs (merge_sort le xs)"
proof -
  have "concat (map (\<lambda>x. [x]) xs) = xs" by (induction xs) auto
  then show ?thesis
    using runs_sorted [of "map (\<lambda>x. [x]) xs"] by (simp add: stable_sorted_def merge_sort_def)
qed

text \<open>There is only one stable sorted arrangement.\<close>

lemma stable_sorted_hd:
  assumes "stable_sorted le xs (y # ys)" "stable_sorted le xs (z # zs)"
  shows "y = z"
proof -
  have m: "mset (y # ys) = mset (z # zs)" using assms by (simp add: stable_sorted_def)
  then have "y \<in> set (z # zs)" and "z \<in> set (y # ys)"
    by (metis list.set_intros(1) set_mset_mset)+
  then have "le z y" "le y z" using assms le_refl by (auto simp: stable_sorted_def)
  then have "tied le y y" "tied le y z" using le_refl by (auto simp: tied_def)
  moreover have "filter (tied le y) (y # ys) = filter (tied le y) (z # zs)"
    using assms by (simp add: stable_sorted_def)
  ultimately show ?thesis by simp
qed

lemma stable_sorted_unique: "stable_sorted le xs ys \<Longrightarrow> stable_sorted le xs zs \<Longrightarrow> ys = zs"
proof (induction ys arbitrary: xs zs)
  case Nil
  then show ?case by (metis mset_zero_iff stable_sorted_def)
next
  case (Cons y ys)
  then obtain z zs' where zs: "zs = z # zs'"
    by (metis list.exhaust mset_zero_iff_right stable_sorted_def list.distinct(1))
  with Cons.prems have "y = z" by (auto intro: stable_sorted_hd)
  have "stable_sorted le ys ys" using Cons.prems(1) by (simp add: stable_sorted_def)
  moreover have "stable_sorted le ys zs'"
    using Cons.prems zs \<open>y = z\<close> unfolding stable_sorted_def
    by (metis (no_types, lifting) add_mset_remove_trivial filter.simps(2) list.inject mset.simps(2) sorted_wrt.simps(2))
  ultimately show ?case using Cons.IH zs \<open>y = z\<close> by blast
qed

end

end
