(* ===== verification/Browser_Heap.thy ===== *)
theory Browser_Heap
  imports Browser_Sort
begin

text \<open>
  The linked lists of the browser as lists of addresses: reading them, appending a cell, and the
  proof that the in-place merge sort of source/filebrowser.cpp computes \<open>merge_sort\<close>.
\<close>

section \<open>Paths in the heap\<close>

text \<open>\<open>nexts h p xs q\<close>: the cells \<open>xs\<close> are reached from \<open>p\<close> over \<open>next\<close>, and \<open>q\<close> stands behind them.\<close>

fun nexts :: "heap \<Rightarrow> addr option \<Rightarrow> addr list \<Rightarrow> addr option \<Rightarrow> bool" where
  "nexts h p [] q = (p = q)"
| "nexts h p (a # as) q = (p = Some a \<and> (\<exists>e. h a = Some e \<and> nexts h (e_next e) as q))"

text \<open>
  \<open>linked h pr xs\<close>: the cells \<open>xs\<close> are linked both ways, with \<open>pr\<close> before the first; nothing is said
  of the \<open>next\<close> of the last one.
\<close>

fun linked :: "heap \<Rightarrow> addr option \<Rightarrow> addr list \<Rightarrow> bool" where
  "linked h pr [] = True"
| "linked h pr (a # as) =
     (\<exists>e. h a = Some e \<and> e_prior e = pr \<and> (as = [] \<or> e_next e = Some (hd as)) \<and> linked h (Some a) as)"

definition headp :: "addr list \<Rightarrow> addr option" where
  "headp xs = (if xs = [] then None else Some (hd xs))"

definition lastp :: "addr list \<Rightarrow> addr option" where
  "lastp xs = (if xs = [] then None else Some (last xs))"

lemma headp_simps [simp]: "headp [] = None" "headp (x # xs) = Some x"
  by (simp_all add: headp_def)

lemma lastp_simps [simp]: "lastp [] = None" "lastp (xs @ [x]) = Some x"
  by (simp_all add: lastp_def)

lemma headp_append: "headp (xs @ ys) = (if xs = [] then headp ys else headp xs)"
  by (simp add: headp_def)

lemma nexts_append: "nexts h p (xs @ ys) q \<longleftrightarrow> (\<exists>r. nexts h p xs r \<and> nexts h r ys q)"
  by (induction xs arbitrary: p) auto

lemma nexts_head: "nexts h p xs None \<Longrightarrow> p = headp xs"
  by (cases xs) auto

lemma nexts_alloc: "nexts h p xs q \<Longrightarrow> a \<in> set xs \<Longrightarrow> h a \<noteq> None"
  by (induction xs arbitrary: p) auto

definition next_of :: "heap \<Rightarrow> addr \<Rightarrow> addr option option" where
  "next_of h a = map_option e_next (h a)"

lemma nexts_cong: "(\<And>a. a \<in> set xs \<Longrightarrow> next_of h' a = next_of h a) \<Longrightarrow> nexts h' p xs q = nexts h p xs q"
proof (induction xs arbitrary: p)
  case (Cons a xs)
  from Cons.prems [of a] have "next_of h' a = next_of h a" by simp
  then show ?case using Cons.IH Cons.prems by (cases "h a"; cases "h' a") (auto simp: next_of_def)
qed simp

lemma linked_append:
  "linked h pr (xs @ ys) \<longleftrightarrow>
     linked h pr xs \<and> (xs \<noteq> [] \<and> ys \<noteq> [] \<longrightarrow> next_of h (last xs) = Some (Some (hd ys))) \<and>
     linked h (if xs = [] then pr else Some (last xs)) ys"
proof (induction xs arbitrary: pr)
  case (Cons a xs)
  then show ?case by (cases "h a"; cases xs; cases ys) (auto simp: next_of_def)
qed simp

lemma linked_cong: "(\<And>a. a \<in> set xs \<Longrightarrow> h' a = h a) \<Longrightarrow> linked h' pr xs = linked h pr xs"
  by (induction xs arbitrary: pr) auto

lemma linked_nexts: "linked h pr xs \<Longrightarrow> xs \<noteq> [] \<Longrightarrow> next_of h (last xs) = Some q \<Longrightarrow> nexts h (headp xs) xs q"
proof (induction xs arbitrary: pr)
  case (Cons a xs)
  then show ?case by (cases xs) (auto simp: next_of_def)
qed simp

section \<open>Contents of the cells\<close>

text \<open>
  A cell without its links. The sort changes the links of the cells in \<open>X\<close>, and nothing else.
\<close>

definition bare :: "bentry \<Rightarrow> bentry" where
  "bare e = e\<lparr>e_next := None, e_prior := None\<rparr>"

lemma bare_upd [simp]:
  "bare (e\<lparr>e_next := x\<rparr>) = bare e" "bare (e\<lparr>e_prior := x\<rparr>) = bare e"
  by (simp_all add: bare_def)

definition same_bare :: "addr set \<Rightarrow> heap \<Rightarrow> heap \<Rightarrow> bool" where
  "same_bare X h h' = (\<forall>a. map_option bare (h' a) = map_option bare (h a) \<and> (a \<notin> X \<longrightarrow> h' a = h a))"

lemma same_bare_refl [simp]: "same_bare X h h"
  by (simp add: same_bare_def)

lemma same_bare_trans: "same_bare X h h1 \<Longrightarrow> same_bare X h1 h2 \<Longrightarrow> same_bare X h h2"
  by (simp add: same_bare_def)

lemma same_bare_alloc: "same_bare X h h' \<Longrightarrow> (h' a = None) = (h a = None)"
  unfolding same_bare_def by (metis map_option_is_None)

text \<open>A comparator that does not look at the links.\<close>

definition link_free :: "(bentry \<Rightarrow> bentry \<Rightarrow> int) \<Rightarrow> bool" where
  "link_free cmp = (\<forall>e f. cmp e f = cmp (bare e) (bare f))"

definition before :: "(bentry \<Rightarrow> bentry \<Rightarrow> int) \<Rightarrow> heap \<Rightarrow> addr \<Rightarrow> addr \<Rightarrow> bool" where
  "before cmp h a b = (cmp (the (h a)) (the (h b)) \<le> 0)"

lemma before_same:
  assumes "link_free cmp" "same_bare X h h'" "h a \<noteq> None" "h b \<noteq> None"
  shows "before cmp h' a b = before cmp h a b"
proof -
  obtain e f where h: "h a = Some e" "h b = Some f" using assms(3,4) by auto
  obtain e' f' where h': "h' a = Some e'" "h' b = Some f'"
    using same_bare_alloc [OF assms(2)] h by fastforce
  have "bare e' = bare e" "bare f' = bare f"
    using assms(2) h h' unfolding same_bare_def by (metis option.map(2) option.inject)+
  then show ?thesis using assms(1) h h' unfolding before_def link_free_def by (metis option.sel)
qed

section \<open>The steps of the sort\<close>

lemma skip_run_spec:
  "nexts h q xs None \<Longrightarrow> skip_run h w q n = Some (n + min w (length xs), headp (drop w xs))"
proof (induction h w q n arbitrary: xs rule: skip_run.induct)
  case (2 h w q n)
  then show ?case by (cases xs) auto
qed (auto dest: nexts_head)

lemma append_cell_spec:
  assumes "linked h None os" "distinct (os @ [a])" "h a \<noteq> None" "set (os @ [a]) \<subseteq> X"
  obtains h' where "append_cell h (lastp os) (headp os) a = Some (h', headp (os @ [a]))"
    "linked h' None (os @ [a])" "same_bare X h h'" "\<And>b. b \<notin> set os \<Longrightarrow> next_of h' b = next_of h b"
proof -
  obtain e where e: "h a = Some e" using assms(3) by auto
  define h1 where "h1 = h(a \<mapsto> e\<lparr>e_prior := lastp os\<rparr>)"
  have b1: "same_bare X h h1" using e assms(4) by (auto simp: same_bare_def h1_def)
  show thesis
  proof (cases os rule: rev_cases)
    case Nil
    have "append_cell h (lastp os) (headp os) a = Some (h1, headp (os @ [a]))"
      by (simp add: Nil append_cell_def upd_def e h1_def)
    then show ?thesis
      by (rule that) (use b1 e in \<open>auto simp: Nil h1_def next_of_def\<close>)
  next
    case (snoc ps t)
    obtain et where et: "h t = Some et"
      using assms(1) snoc by (auto simp: linked_append)
    have "t \<noteq> a" "t \<notin> set ps" "a \<notin> set ps" using assms(2) snoc by auto
    define h2 where "h2 = h1(t \<mapsto> et\<lparr>e_next := Some a\<rparr>)"
    have "append_cell h (lastp os) (headp os) a = Some (h2, headp (os @ [a]))"
      using \<open>t \<noteq> a\<close> by (simp add: snoc append_cell_def upd_def e et h1_def h2_def headp_append)
    moreover have "linked h2 None (os @ [a])"
    proof -
      have "linked h2 None ps = linked h None ps"
        using \<open>t \<notin> set ps\<close> \<open>a \<notin> set ps\<close> by (intro linked_cong) (auto simp: h2_def h1_def)
      moreover have "next_of h2 (last ps) = next_of h (last ps)" if "ps \<noteq> []"
        using that \<open>t \<notin> set ps\<close> \<open>a \<notin> set ps\<close> last_in_set [OF that] by (auto simp: h2_def h1_def next_of_def)
      ultimately show ?thesis
        using assms(1) \<open>t \<noteq> a\<close> et by (auto simp: snoc linked_append h2_def h1_def next_of_def)
    qed
    moreover have "same_bare X h h2" using e et \<open>t \<noteq> a\<close> assms(4) snoc by (auto simp: same_bare_def h2_def h1_def)
    moreover have "next_of h2 b = next_of h b" if "b \<notin> set os" for b
      using that e by (auto simp: snoc h2_def h1_def next_of_def)
    ultimately show ?thesis by (rule that)
  qed
qed

lemma merge_runs_spec:
  assumes "link_free cmp" "same_bare X h0 h" "linked h None os"
    "nexts h p ps r" "nexts h q qs None" "distinct (os @ ps @ qs)" "set (os @ ps @ qs) \<subseteq> X"
  obtains h' where
    "merge_runs cmp h p (length ps) q k (lastp os) (headp os) =
       Some (h', headp (drop k qs), lastp (os @ merge_by (before cmp h0) ps (take k qs)),
             headp (os @ merge_by (before cmp h0) ps (take k qs)))"
    "linked h' None (os @ merge_by (before cmp h0) ps (take k qs))" "same_bare X h0 h'"
    "nexts h' (headp (drop k qs)) (drop k qs) None"
  using assms(2-)
proof (induction "length ps + k" arbitrary: h p ps q qs k os thesis rule: less_induct)
  case less
  note pre = less.prems(2-7)
  have qh: "q = headp qs" using pre(4) by (rule nexts_head)
  show ?case
  proof (cases "ps = [] \<and> (k = 0 \<or> qs = [])")
    case True
    have "merge_runs cmp h p (length ps) q k (lastp os) (headp os) = Some (h, q, lastp os, headp os)"
      using True qh by (subst merge_runs.simps) auto
    moreover have "take k qs = []" "drop k qs = qs" using True by auto
    ultimately show ?thesis
      using pre True qh by (intro less.prems(1) [of h]) auto
  next
    case False
    have step: thesis
      if pk: "pick cmp h p (length ps) q k = Some (a, p', length ps', q', k')"
        and ps': "nexts h p' ps' r" and qs': "nexts h q' qs' None"
        and sm: "length ps' + k' < length ps + k"
        and mg: "merge_by (before cmp h0) ps (take k qs) = a # merge_by (before cmp h0) ps' (take k' qs')"
        and dr: "drop k qs = drop k' qs'" and ds: "distinct (os @ [a] @ ps' @ qs')" "set (os @ [a] @ ps' @ qs') \<subseteq> X" and al: "h a \<noteq> None"
      for a p' ps' q' qs' k'
    proof -
      obtain h1 where h1: "append_cell h (lastp os) (headp os) a = Some (h1, headp (os @ [a]))"
        "linked h1 None (os @ [a])" "same_bare X h h1" "\<And>b. b \<notin> set os \<Longrightarrow> next_of h1 b = next_of h b"
        using append_cell_spec [of h os a X] pre(2) ds al by auto
      have "nexts h1 p' ps' r = nexts h p' ps' r" "nexts h1 q' qs' None = nexts h q' qs' None"
        using ds by (intro nexts_cong h1(4); auto)+
      then have n: "nexts h1 p' ps' r" "nexts h1 q' qs' None" using ps' qs' by auto
      obtain h2 where h2: "merge_runs cmp h1 p' (length ps') q' k' (lastp (os @ [a])) (headp (os @ [a])) =
          Some (h2, headp (drop k' qs'), lastp ((os @ [a]) @ merge_by (before cmp h0) ps' (take k' qs')),
             headp ((os @ [a]) @ merge_by (before cmp h0) ps' (take k' qs')))"
        "linked h2 None ((os @ [a]) @ merge_by (before cmp h0) ps' (take k' qs'))" "same_bare X h0 h2"
        "nexts h2 (headp (drop k' qs')) (drop k' qs') None"
        by (rule less.hyps [OF sm _ same_bare_trans [OF pre(1) h1(3)] h1(2) n]) (use ds in auto)
      have c: "0 < length ps \<or> (0 < k \<and> q \<noteq> None)" using False qh by (cases qs) auto
      have "merge_runs cmp h p (length ps) q k (lastp os) (headp os) =
          merge_runs cmp h1 p' (length ps') q' k' (lastp (os @ [a])) (headp (os @ [a]))"
        using c pk h1(1) by (subst merge_runs.simps) simp
      with h2 show thesis by (intro less.prems(1) [of h2]) (auto simp: mg dr)
    qed
    show ?thesis
    proof (cases ps)
      case Nil
      with False obtain b qs' k' where q: "qs = b # qs'" "k = Suc k'" by (cases qs; cases k) auto
      then obtain f where f: "h b = Some f" "nexts h (e_next f) qs' None" using pre(4) by auto
      show ?thesis
        by (rule step [of b p "[]" "e_next f" k' qs'])
          (use Nil q f qh pre in \<open>auto simp: pick_def\<close>)
    next
      case (Cons a ps')
      then obtain e where e: "p = Some a" "h a = Some e" "nexts h (e_next e) ps' r" using pre(3) by auto
      show ?thesis
      proof (cases "k = 0 \<or> qs = []")
        case True
        show ?thesis
          by (rule step [of a "e_next e" ps' q k qs])
            (use Cons e qh pre True in \<open>auto simp: pick_def\<close>)
      next
        case F: False
        then obtain b qs' k' where q: "qs = b # qs'" "k = Suc k'" by (cases qs; cases k) auto
        then obtain f where f: "h b = Some f" "nexts h (e_next f) qs' None" using pre(4) by auto
        have "before cmp h0 a b = before cmp h a b"
          using before_same [OF assms(1) pre(1)] same_bare_alloc [OF pre(1)] e f by (metis option.distinct(1))
        then have bf: "before cmp h0 a b \<longleftrightarrow> cmp e f \<le> 0" by (simp add: before_def e f)
        show ?thesis
        proof (cases "cmp e f \<le> 0")
          case True
          show ?thesis
            by (rule step [of a "e_next e" ps' q k qs])
              (use Cons e f q qh pre bf True in \<open>auto simp: pick_def\<close>)
        next
          case False
          show ?thesis
            by (rule step [of b p ps "e_next f" k' qs'])
              (use Cons e f q qh pre bf False in \<open>auto simp: pick_def\<close>)
        qed
      qed
    qed
  qed
qed

section \<open>One pass and the whole sort\<close>

text \<open>The runs a pass finds: all but the last have \<open>w\<close> cells, the last one at most \<open>w\<close>.\<close>

fun runs_ok :: "nat \<Rightarrow> 'a list list \<Rightarrow> bool" where
  "runs_ok w [] = True"
| "runs_ok w [r] = (r \<noteq> [] \<and> length r \<le> w)"
| "runs_ok w (r # s # rs) = (length r = w \<and> runs_ok w (s # rs))"

lemma runs_ok_take: "runs_ok w (s # rs) \<Longrightarrow> take w (s @ concat rs) = s \<and> drop w (s @ concat rs) = concat rs"
  by (cases rs) auto

lemma runs_ok_merge_pairs: "runs_ok w rs \<Longrightarrow> 0 < w \<Longrightarrow> runs_ok (w * 2) (merge_pairs le rs)"
proof (induction rs rule: induct_list012)
  case (3 r s rs)
  show ?case
  proof (cases rs)
    case (Cons t ts)
    then obtain m ms where "merge_pairs le rs = m # ms" by (cases ts) auto
    with 3 Cons show ?thesis by auto
  qed (use 3 in auto)
qed auto

lemma merge_pass_spec:
  assumes "link_free cmp" "0 < w" "runs_ok w rs" "same_bare X h0 h" "linked h None os"
    "nexts h p (concat rs) None" "distinct (os @ concat rs)" "set (os @ concat rs) \<subseteq> X"
  obtains h' where
    "merge_pass cmp w h p (lastp os) (headp os) m =
       Some (h', lastp (os @ concat (merge_pairs (before cmp h0) rs)),
             headp (os @ concat (merge_pairs (before cmp h0) rs)), m + length (merge_pairs (before cmp h0) rs))"
    "linked h' None (os @ concat (merge_pairs (before cmp h0) rs))" "same_bare X h0 h'"
  using assms(3-)
proof (induction rs arbitrary: h p os m thesis rule: induct_list012)
  case 1
  then show ?case by (intro 1(1) [of h]) (auto simp: merge_pass.simps)
next
  case (2 r)
  then have r: "r \<noteq> []" "length r \<le> w" and n: "nexts h p r None" and p: "p = Some (hd r)"
    by (auto dest: nexts_head simp: headp_def)
  have sk: "skip_run h w p 0 = Some (length r, None)"
    using skip_run_spec [OF n, of w 0] r by simp
  obtain h1 where h1: "merge_runs cmp h p (length r) None w (lastp os) (headp os) =
      Some (h1, None, lastp (os @ r), headp (os @ r))" "linked h1 None (os @ r)" "same_bare X h0 h1"
    using merge_runs_spec [OF assms(1) 2(3,4) n, of None "[]" w] 2(6,7) by auto
  show ?case
    using p sk h1 by (intro 2(1) [of h1]) (simp_all add: merge_pass.simps [of cmp w h] merge_pass.simps [of cmp w h1])
next
  case (3 r s rs)
  let ?le = "before cmp h0" and ?qs = "s @ concat rs"
  have r: "length r = w" "r \<noteq> []" and rk: "runs_ok w (s # rs)" "runs_ok w rs"
    using 3(4) assms(2) by (auto elim: runs_ok.elims)
  obtain q where n: "nexts h p r q" "nexts h q ?qs None" and na: "nexts h p (r @ ?qs) None"
    using 3(7) by (auto simp: nexts_append)
  have p: "p = Some (hd r)" using n(1) r by (cases r) auto
  have q: "q = headp ?qs" using n(2) by (rule nexts_head)
  have sk: "skip_run h w p 0 = Some (length r, q)"
    using skip_run_spec [OF na, of w 0] r q by simp
  obtain h1 where h1: "merge_runs cmp h p (length r) q w (lastp os) (headp os) =
      Some (h1, headp (concat rs), lastp (os @ merge_by ?le r s), headp (os @ merge_by ?le r s))"
    "linked h1 None (os @ merge_by ?le r s)" "same_bare X h0 h1" "nexts h1 (headp (concat rs)) (concat rs) None"
    using merge_runs_spec [OF assms(1) 3(5,6) n, of w] runs_ok_take [OF rk(1)] 3(8,9) by auto
  have ds: "distinct ((os @ merge_by ?le r s) @ concat rs)" "set ((os @ merge_by ?le r s) @ concat rs) \<subseteq> X"
    using 3(8,9) by (auto simp: distinct_merge_by)
  obtain h2 where h2: "merge_pass cmp w h1 (headp (concat rs)) (lastp (os @ merge_by ?le r s)) (headp (os @ merge_by ?le r s)) (Suc m) =
       Some (h2, lastp ((os @ merge_by ?le r s) @ concat (merge_pairs ?le rs)),
             headp ((os @ merge_by ?le r s) @ concat (merge_pairs ?le rs)), Suc m + length (merge_pairs ?le rs))"
    "linked h2 None ((os @ merge_by ?le r s) @ concat (merge_pairs ?le rs))" "same_bare X h0 h2"
    by (rule "3.IH"(1) [OF _ rk(2) h1(3,2,4) ds])
  show ?case
    using p sk h1(1) h2 by (intro 3(3) [of h2]) (simp_all add: merge_pass.simps [of cmp w h])
qed

text \<open>A whole list: linked both ways and ended by NULL.\<close>

definition dlist :: "heap \<Rightarrow> addr list \<Rightarrow> bool" where
  "dlist h xs = (linked h None xs \<and> (xs \<noteq> [] \<longrightarrow> next_of h (last xs) = Some None) \<and> distinct xs)"

lemma dlist_nexts: "dlist h xs \<Longrightarrow> nexts h (headp xs) xs None"
  by (cases "xs = []") (auto simp: dlist_def intro: linked_nexts)

lemma dlist_end:
  assumes "linked h None xs" "distinct xs" "xs \<noteq> []" "h (last xs) = Some e"
  shows "dlist (h(last xs \<mapsto> e\<lparr>e_next := None\<rparr>)) xs"
proof -
  obtain ys t where xs: "xs = ys @ [t]" using assms(3) by (metis append_butlast_last_id)
  let ?h = "h(t \<mapsto> e\<lparr>e_next := None\<rparr>)"
  have t: "t \<notin> set ys" using assms(2) xs by simp
  then have "linked ?h None ys = linked h None ys" by (intro linked_cong) auto
  moreover have "next_of ?h (last ys) = next_of h (last ys)" if "ys \<noteq> []"
  proof -
    have "last ys \<noteq> t" using that t by (metis last_in_set)
    then show ?thesis by (simp add: next_of_def)
  qed
  ultimately have "linked ?h None (ys @ [t])" using assms(1,4) xs by (auto simp: linked_append)
  then show ?thesis using xs assms(2) by (simp add: dlist_def next_of_def)
qed

lemma sort_passes_spec:
  assumes "link_free cmp" "0 < w" "runs_ok w rs" "rs \<noteq> []" "same_bare X h0 h"
    "nexts h p (concat rs) None" "distinct (concat rs)" "length (concat rs) \<le> 2 ^ 31" "set (concat rs) \<subseteq> X"
  obtains h' where
    "sort_passes cmp w h p =
       Some (h', headp (merge_rounds (before cmp h0) rs), last (merge_rounds (before cmp h0) rs))"
    "dlist h' (merge_rounds (before cmp h0) rs)" "same_bare X h0 h'"
  using assms(2-)
proof (induction "length rs" arbitrary: h p rs w thesis rule: less_induct)
  case less
  let ?le = "before cmp h0"
  let ?ms = "merge_pairs ?le rs"
  note pre = less.prems(2-)
  obtain h1 where h1: "merge_pass cmp w h p None None 0 = Some (h1, lastp (concat ?ms), headp (concat ?ms), length ?ms)"
    "linked h1 None (concat ?ms)" "same_bare X h0 h1"
    using merge_pass_spec [OF assms(1) pre(1,2,4), of "[]" p 0] pre(5,6,8) by auto
  have mok: "runs_ok (w * 2) ?ms" using pre(1,2) by (rule runs_ok_merge_pairs [rotated])
  have mm: "mset (concat ?ms) = mset (concat rs)" by simp
  have ne: "concat ?ms \<noteq> []"
  proof -
    have "concat rs \<noteq> []" using pre(2,3) by (cases rs; cases "tl rs") (use pre(1) in auto)
    then show ?thesis using mm by (metis mset_zero_iff)
  qed
  have dm: "distinct (concat ?ms)" using pre(6) mm by (metis distinct_count_atmost_1 mset_eq_setD)
  let ?t = "last (concat ?ms)"
  obtain e where e: "h1 ?t = Some e"
    using h1(2) ne by (cases "concat ?ms" rule: rev_cases) (auto simp: linked_append)
  define h2 where "h2 = h1(?t \<mapsto> e\<lparr>e_next := None\<rparr>)"
  have tX: "?t \<in> X" using ne mm pre(8) by (metis last_in_set mset_eq_setD subsetD)
  have sb: "same_bare X h0 h2"
    using h1(3) e tX unfolding same_bare_def h2_def by (metis bare_upd(1) fun_upd_apply option.map(2))
  have sX: "set (concat ?ms) \<subseteq> X" using mm pre(8) by (metis mset_eq_setD)
  have dl: "dlist h2 (concat ?ms)"
    unfolding h2_def by (rule dlist_end [OF h1(2) dm ne e])
  have go: "sort_passes cmp w h p =
      (if length ?ms \<le> 1 then Some (h2, headp (concat ?ms), ?t) else sort_passes cmp (w * 2 mod 2 ^ 32) h2 (headp (concat ?ms)))"
    using h1(1) ne e by (subst sort_passes.simps) (auto simp: lastp_def upd_def h2_def)
  show ?case
  proof (cases "length ?ms \<le> 1")
    case True
    obtain r where "rs = [r] \<or> (\<exists>s. rs = [r, s])"
      using True pre(3) by (cases rs; cases "tl rs"; cases "tl (tl rs)") auto
    then have "merge_rounds ?le rs = concat ?ms" by auto
    with True go dl sb show ?thesis by (intro less.prems(1) [of h2]) auto
  next
    case False
    then obtain r s t rs' where rs: "rs = r # s # t # rs'"
      by (cases rs; cases "tl rs"; cases "tl (tl rs)") auto
    have w: "w * 2 < 2 ^ 32"
      using pre(2,7) rs by (cases rs') (auto simp: le_less_trans)
    have mr: "merge_rounds ?le ?ms = merge_rounds ?le rs" by (simp add: rs)
    have "length ?ms < length rs" by (simp add: rs)
    from less.hyps [OF this _ _ mok _ sb dlist_nexts [OF dl] dm] 
    obtain h3 where "sort_passes cmp (w * 2) h2 (headp (concat ?ms)) =
         Some (h3, headp (merge_rounds ?le ?ms), last (merge_rounds ?le ?ms))"
      "dlist h3 (merge_rounds ?le ?ms)" "same_bare X h0 h3"
      using pre(1,7) mm rs sX by (metis (no_types, lifting) concat.simps(1) mult_pos_pos ne size_mset zero_less_numeral)
    with go False w mr show ?thesis by (intro less.prems(1) [of h3]) auto
  qed
qed

lemma number_entries_spec:
  "nexts h p xs None \<Longrightarrow> distinct xs \<Longrightarrow>
     \<exists>h'. number_entries p k h = Some h' \<and> (\<forall>a. a \<notin> set xs \<longrightarrow> h' a = h a) \<and>
       (\<forall>i < length xs. h' (xs ! i) = map_option (\<lambda>e. e\<lparr>e_pos := k + int i\<rparr>) (h (xs ! i)))"
proof (induction xs arbitrary: h p k)
  case Nil
  then show ?case by (simp add: number_entries.simps)
next
  case (Cons a xs)
  then obtain e where e: "p = Some a" "h a = Some e" "nexts h (e_next e) xs None" by auto
  let ?h = "h(a \<mapsto> e\<lparr>e_pos := k\<rparr>)"
  have "nexts ?h (e_next e) xs None = nexts h (e_next e) xs None"
    using Cons.prems(2) by (intro nexts_cong) (auto simp: next_of_def)
  then obtain h' where h': "number_entries (e_next e) (k + 1) ?h = Some h'" "\<forall>b. b \<notin> set xs \<longrightarrow> h' b = ?h b"
    "\<forall>i < length xs. h' (xs ! i) = map_option (\<lambda>e. e\<lparr>e_pos := k + 1 + int i\<rparr>) (?h (xs ! i))"
    using Cons.IH [of ?h "e_next e" "k + 1"] Cons.prems(2) e(3) unfolding distinct.simps by blast
  have "number_entries p k h = Some h'" using e h'(1) by (subst number_entries.simps) simp
  moreover have "\<forall>b. b \<notin> set (a # xs) \<longrightarrow> h' b = h b" using h'(2) by auto
  moreover have "h' ((a # xs) ! i) = map_option (\<lambda>e. e\<lparr>e_pos := k + int i\<rparr>) (h ((a # xs) ! i))"
    if "i < length (a # xs)" for i
  proof (cases i)
    case 0
    then show ?thesis using h'(2) Cons.prems(2) e(2) by simp
  next
    case (Suc j)
    then have "xs ! j \<noteq> a" using that Cons.prems(2) by auto
    then show ?thesis using h'(3) Suc that by (auto simp: algebra_simps)
  qed
  ultimately show ?case by blast
qed

section \<open>Browsers\<close>

definition browser_list :: "heap \<Rightarrow> browser_t \<Rightarrow> addr list \<Rightarrow> bool" where
  "browser_list h b xs = (dlist h xs \<and> b_first b = headp xs \<and> b_last b = lastp xs)"

definition numbered :: "heap \<Rightarrow> addr list \<Rightarrow> bool" where
  "numbered h xs = (\<forall>i < length xs. map_option e_pos (h (xs ! i)) = Some (int i))"

text \<open>What an entry says, apart from its place in the list.\<close>

definition content :: "bentry \<Rightarrow> bentry" where
  "content e = e\<lparr>e_next := None, e_prior := None, e_pos := 0\<rparr>"

definition contents :: "heap \<Rightarrow> addr list \<Rightarrow> bentry list" where
  "contents h xs = map (\<lambda>a. content (the (h a))) xs"

text \<open>Changes of the cells in \<open>X\<close> that keep what the entries say.\<close>

definition rearranged :: "addr set \<Rightarrow> heap \<Rightarrow> heap \<Rightarrow> bool" where
  "rearranged X h h' = (\<forall>a. map_option content (h' a) = map_option content (h a) \<and> (a \<notin> X \<longrightarrow> h' a = h a))"

lemma content_of_bare: "map_option content z = map_option content (map_option bare z)"
  by (cases z) (auto simp: content_def bare_def)

lemma same_bare_rearranged: "same_bare X h h' \<Longrightarrow> rearranged X h h'"
  unfolding same_bare_def rearranged_def by (metis content_of_bare)

lemma rearranged_trans: "rearranged X h h1 \<Longrightarrow> rearranged X h1 h2 \<Longrightarrow> rearranged X h h2"
  by (simp add: rearranged_def)

lemma rearranged_alloc: "rearranged X h h' \<Longrightarrow> dom h' = dom h"
  unfolding rearranged_def dom_def by (metis map_option_is_None)

lemma rearranged_contents: "rearranged X h h' \<Longrightarrow> contents h' xs = contents h xs"
proof -
  assume r: "rearranged X h h'"
  have "content (the (h' a)) = content (the (h a))" for a
    using r unfolding rearranged_def by (metis option.map_sel rearranged_alloc [OF r] domIff option.exhaust_sel)
  then show ?thesis by (simp add: contents_def)
qed

lemma dlist_alloc: "dlist h xs \<Longrightarrow> a \<in> set xs \<Longrightarrow> h a \<noteq> None"
  using dlist_nexts nexts_alloc by blast

lemma numbered_heap:
  assumes "dlist h xs" "\<forall>a. a \<notin> set xs \<longrightarrow> h' a = h a"
    "\<forall>i < length xs. h' (xs ! i) = map_option (\<lambda>e. e\<lparr>e_pos := 0 + int i\<rparr>) (h (xs ! i))"
  shows "dlist h' xs" "numbered h' xs" "rearranged (set xs) h h'"
proof -
  have at: "\<exists>p. h' a = map_option (\<lambda>e. e\<lparr>e_pos := p\<rparr>) (h a)" if "a \<in> set xs" for a
    using that assms(3) by (metis in_set_conv_nth)
  have keep: "map_option f (h' a) = map_option f (h a)" if "\<And>e p. f (e\<lparr>e_pos := p\<rparr>) = f e" for f :: "bentry \<Rightarrow> 'x" and a
  proof (cases "a \<in> set xs")
    case True
    then obtain p where "h' a = map_option (\<lambda>e. e\<lparr>e_pos := p\<rparr>) (h a)" using at by blast
    then show ?thesis using that by (cases "h a") simp_all
  qed (use assms(2) in simp)
  have n: "next_of h' a = next_of h a" for a
    unfolding next_of_def by (rule keep) simp
  have l: "linked h' pr ys = linked h pr ys" if "set ys \<subseteq> set xs" for pr ys
    using that
  proof (induction ys arbitrary: pr)
    case (Cons a ys)
    then show ?case using at [of a] by (cases "h a") auto
  qed simp
  show "dlist h' xs" using assms(1) n l by (simp add: dlist_def)
  show "numbered h' xs" unfolding numbered_def
  proof (intro allI impI)
    fix i assume i: "i < length xs"
    then obtain e where "h (xs ! i) = Some e" using dlist_alloc [OF assms(1)] by fastforce
    then show "map_option e_pos (h' (xs ! i)) = Some (int i)" using assms(3) i by simp
  qed
  have "map_option content (h' a) = map_option content (h a)" for a
    by (rule keep) (simp add: content_def)
  then show "rearranged (set xs) h h'" using assms(2) by (simp add: rearranged_def)
qed

lemma runs_ok_singletons: "runs_ok 1 (map (\<lambda>x. [x]) xs)"
  by (induction xs rule: induct_list012) auto

lemma concat_singletons: "concat (map (\<lambda>x. [x]) xs) = xs"
  by (induction xs) auto

lemma sort_passes_singletons:
  assumes "link_free cmp" "dlist h xs" "xs \<noteq> []" "length xs \<le> 2 ^ 31"
  obtains h' where
    "sort_passes cmp 1 h (headp xs) = Some (h', headp (merge_sort (before cmp h) xs), last (merge_sort (before cmp h) xs))"
    "dlist h' (merge_sort (before cmp h) xs)" "same_bare (set xs) h h'"
proof -
  let ?rs = "map (\<lambda>x. [x]) xs"
  have "nexts h (headp xs) (concat ?rs) None" "distinct (concat ?rs)" "length (concat ?rs) \<le> 2 ^ 31" "set (concat ?rs) \<subseteq> set xs"
    using dlist_nexts [OF assms(2)] assms(2,4) by (simp_all only: concat_singletons dlist_def subset_refl)
  from sort_passes_spec [OF assms(1) zero_less_one runs_ok_singletons _ same_bare_refl this] assms(3) that
  show ?thesis by (auto simp: merge_sort_def)
qed


text \<open>
  \<open>SortBrowser\<close> on one list: it ends, and the list is the merge sort of the old one. A list of at
  most one cell is left alone, its position included.
\<close>

lemma sort_list_spec:
  assumes "link_free cmp" "browser_list h b xs" "length xs \<le> 2 ^ 31"
  obtains h' where
    "sort_list cmp b h = Some (b\<lparr>b_first := headp (merge_sort (before cmp h) xs), b_last := lastp (merge_sort (before cmp h) xs)\<rparr>, h')"
    "dlist h' (merge_sort (before cmp h) xs)" "rearranged (set xs) h h'"
    "1 < length xs \<Longrightarrow> numbered h' (merge_sort (before cmp h) xs)" "length xs \<le> 1 \<Longrightarrow> h' = h"
proof (cases "length xs \<le> 1")
  case True
  then obtain a where "xs = [] \<or> xs = [a]" by (cases xs; cases "tl xs") auto
  then have ms: "merge_sort (before cmp h) xs = xs" by (auto simp: merge_sort_def)
  have "sort_list cmp b h = Some (b, h)"
    using \<open>xs = [] \<or> xs = [a]\<close> assms(2)
    by (auto simp: sort_list_def browser_list_def dlist_def next_of_def split: option.splits)
  moreover have "b\<lparr>b_first := headp xs, b_last := lastp xs\<rparr> = b"
    using assms(2) by (simp add: browser_list_def)
  ultimately show ?thesis
    using True assms(2) ms by (intro that [of h]) (auto simp: browser_list_def rearranged_def)
next
  case False
  then obtain a c ys where xs: "xs = a # c # ys" by (cases xs; cases "tl xs") auto
  let ?ys = "merge_sort (before cmp h) xs"
  have d: "dlist h xs" and first: "b_first b = Some a"
    using assms(2) xs by (auto simp: browser_list_def)
  obtain h1 where h1: "sort_passes cmp 1 h (headp xs) = Some (h1, headp ?ys, last ?ys)" "dlist h1 ?ys" "same_bare (set xs) h h1"
    by (rule sort_passes_singletons [OF assms(1) d _ assms(3)]) (simp add: xs)
  obtain h2 where h2: "number_entries (headp ?ys) 0 h1 = Some h2" "\<forall>a. a \<notin> set ?ys \<longrightarrow> h2 a = h1 a"
    "\<forall>i < length ?ys. h2 (?ys ! i) = map_option (\<lambda>e. e\<lparr>e_pos := 0 + int i\<rparr>) (h1 (?ys ! i))"
    using number_entries_spec [OF dlist_nexts [OF h1(2)], of 0] h1(2) by (auto simp: dlist_def)
  note nm = numbered_heap [OF h1(2) h2(2,3)]
  obtain e where e: "h a = Some e" "e_next e = Some c" using d xs by (auto simp: dlist_def)
  have ne: "?ys \<noteq> []" using xs by (metis length_merge_sort list.size(3) length_0_conv list.distinct(1))
  have "sort_list cmp b h = Some (b\<lparr>b_first := headp ?ys, b_last := lastp ?ys\<rparr>, h2)"
    using first e h1(1) h2(1) ne xs by (simp add: sort_list_def lastp_def)
  moreover have "rearranged (set xs) h h2"
    using rearranged_trans [OF same_bare_rearranged [OF h1(3)]] nm(3) by simp
  ultimately show ?thesis using nm False by (intro that [of h2]) auto
qed

end
