(* ===== verification/Browser_Files.thy ===== *)
theory Browser_Files
  imports Browser_Heap
begin

text \<open>
  File listings: the order of \<open>FileSortCallback\<close> (source/fileop.cpp) is a total preorder on entries
  with a name, so a sorted listing is the one stable arrangement of its entries.
\<close>

section \<open>The order of strcasecmp\<close>

text \<open>The value of a byte in the comparison; it is 0 for NUL alone.\<close>

definition lower_code :: "char \<Rightarrow> int" where
  "lower_code c = int (ccode (c_tolower c))"

lemma lower_code_nonneg [simp]: "0 \<le> lower_code c"
  by (simp add: lower_code_def)

lemma lower_code_eq: "lower_code c = lower_code d \<longleftrightarrow> c_tolower c = c_tolower d"
  by (simp add: lower_code_def)

lemma lower_code_0: "lower_code c = 0 \<longleftrightarrow> c = NUL"
proof
  assume "lower_code c = 0"
  then have "ccode (c_tolower c) = 0" by (simp add: lower_code_def)
  then have "\<not> c_isupper c \<and> ccode c = 0"
    by (cases "c_isupper c") (auto simp: c_tolower_def ctype_simps of_char_of)
  then show "c = NUL" using ccode_inject [of c NUL] by simp
qed (simp add: lower_code_def c_tolower_def ctype_simps)

lemma casediff_codes:
  "casediff [] [] = 0" "casediff (c # cs) [] = lower_code c" "casediff [] (d # ds) = - lower_code d"
  "casediff (c # cs) (d # ds) =
     (if lower_code c = lower_code d then (if lower_code c = 0 then 0 else casediff cs ds)
      else lower_code c - lower_code d)"
  by (auto simp: lower_code_eq lower_code_0) (auto simp: lower_code_def)

declare casediff.simps [simp del]

lemma casediff_swap: "casediff b a = - casediff a b"
proof (induction a arbitrary: b)
  case Nil
  show ?case by (cases b) (auto simp: casediff_codes)
next
  case (Cons x xs)
  then show ?case by (cases b) (auto simp: casediff_codes)
qed

lemma casediff_trans: "casediff a b \<le> 0 \<Longrightarrow> casediff b c \<le> 0 \<Longrightarrow> casediff a c \<le> 0"
proof (induction a arbitrary: b c)
  case Nil
  show ?case by (cases c) (auto simp: casediff_codes)
next
  case (Cons x xs)
  have n: "y = 0" if "y \<le> 0" "0 \<le> y" for y :: int using that by simp
  show ?case
  proof (cases b)
    case Nil
    with Cons.prems(1) have "lower_code x = 0" by (simp add: casediff_codes n)
    then show ?thesis by (cases c) (auto simp: casediff_codes)
  next
    case b: (Cons y ys)
    show ?thesis
    proof (cases c)
      case Nil
      with Cons.prems b have "lower_code y = 0" "casediff (x # xs) (y # ys) \<le> 0" by (simp_all add: casediff_codes n)
      then have "lower_code x = 0" by (auto simp: casediff_codes n split: if_splits)
      then show ?thesis using Nil by (simp add: casediff_codes)
    next
      case c: (Cons z zs)
      show ?thesis
        using Cons.prems Cons.IH [of ys zs] unfolding b c casediff_codes(4) by (simp split: if_splits)
    qed
  qed
qed

section \<open>The order of file entries\<close>

definition named :: "bentry \<Rightarrow> bentry" where
  "named e = e\<lparr>e_file := Some (case e_file e of None \<Rightarrow> [] | Some s \<Rightarrow> s)\<rparr>"

definition file_le :: "bentry \<Rightarrow> bentry \<Rightarrow> bool" where
  "file_le e f = (FileSortCallback (named e) (named f) \<le> 0)"


text \<open>The rank of a name: \<open>.\<close>, then \<open>..\<close>, then all others.\<close>

definition dot_rank :: "string \<Rightarrow> nat" where
  "dot_rank s = (if s = ''.'' then 0 else if s = ''..'' then 1 else 2)"

abbreviation name_of :: "bentry \<Rightarrow> string" where
  "name_of e \<equiv> (case e_file e of None \<Rightarrow> [] | Some s \<Rightarrow> s)"

lemma file_le_rank:
  "file_le e f \<longleftrightarrow>
     dot_rank (name_of e) < dot_rank (name_of f) \<or>
     dot_rank (name_of e) = dot_rank (name_of f) \<and>
       (dot_rank (name_of e) < 2 \<or> e_type e = TYPE_FOLDER \<and> e_type f \<noteq> TYPE_FOLDER \<or>
        (e_type e = TYPE_FOLDER) = (e_type f = TYPE_FOLDER) \<and> casediff (name_of e) (name_of f) \<le> 0)"
  by (auto simp: file_le_def named_def FileSortCallback_def Let_def dot_rank_def)

interpretation listing: total_preorder file_le
proof
  fix e f g :: bentry
  show "file_le e f \<Longrightarrow> file_le f g \<Longrightarrow> file_le e g"
    unfolding file_le_rank using casediff_trans [of "name_of e" "name_of f" "name_of g"] by auto
  show "file_le e f \<or> file_le f e"
    unfolding file_le_rank using casediff_swap [of "name_of f" "name_of e"] by auto
qed

lemma FileSort_link_free: "link_free FileSortCallback"
  unfolding link_free_def
proof (intro allI)
  fix e f :: bentry
  show "FileSortCallback e f = FileSortCallback (bare e) (bare f)"
    by (cases "e_file e"; cases "e_file f") (simp_all add: FileSortCallback_def bare_def Let_def)
qed

lemma FileSort_named: "e_file e \<noteq> None \<Longrightarrow> e_file f \<noteq> None \<Longrightarrow> (FileSortCallback e f \<le> 0) = file_le (content e) (content f)"
  by (cases "e_file e"; cases "e_file f") (simp_all add: file_le_def named_def content_def FileSortCallback_def Let_def)

section \<open>Sorting the addresses sorts the entries\<close>

lemma merge_by_map: "map f (merge_by (\<lambda>a b. le (f a) (f b)) xs ys) = merge_by le (map f xs) (map f ys)"
  by (induction xs ys rule: merge_induct) auto

lemma merge_pairs_map:
  "map (map f) (merge_pairs (\<lambda>a b. le (f a) (f b)) rs) = merge_pairs le (map (map f) rs)"
  by (induction rs rule: induct_list012) (auto simp: merge_by_map)

lemma merge_rounds_map: "map f (merge_rounds (\<lambda>a b. le (f a) (f b)) rs) = merge_rounds le (map (map f) rs)"
proof (induction "length rs" arbitrary: rs rule: less_induct)
  case less
  let ?g = "\<lambda>a b. le (f a) (f b)"
  consider "rs = []" | r where "rs = [r]" | r s rs' where "rs = r # s # rs'"
    by (cases rs; cases "tl rs") auto
  then show ?case
  proof cases
    case 3
    have "map f (merge_rounds ?g (merge_pairs ?g rs)) = merge_rounds le (map (map f) (merge_pairs ?g rs))"
      by (rule less) (simp add: 3)
    then show ?thesis unfolding merge_pairs_map by (simp add: 3)
  qed auto
qed

lemma merge_sort_map: "map f (merge_sort (\<lambda>a b. le (f a) (f b)) xs) = merge_sort le (map f xs)"
  by (simp add: merge_sort_def merge_rounds_map [of f le] comp_def)

text \<open>A comparator that agrees with a total preorder on the pairs in list order sorts by it.\<close>

lemma sorted_contents:
  assumes "total_preorder le"
    "sorted_wrt (\<lambda>a b. (cmp (the (h a)) (the (h b)) \<le> 0) = le (content (the (h a))) (content (the (h b)))) xs"
  shows "contents h (merge_sort (before cmp h) xs) = merge_sort le (contents h xs)"
    "stable_sorted le (contents h xs) (contents h (merge_sort (before cmp h) xs))"
proof -
  let ?f = "\<lambda>a. content (the (h a))"
  have "merge_sort (before cmp h) xs = merge_sort (\<lambda>a b. le (?f a) (?f b)) xs"
    using assms(2) by (intro agree_merge_sort) (simp add: before_def)
  then show c: "contents h (merge_sort (before cmp h) xs) = merge_sort le (contents h xs)"
    unfolding contents_def using merge_sort_map [of ?f le xs] by simp
  show "stable_sorted le (contents h xs) (contents h (merge_sort (before cmp h) xs))"
    unfolding c using total_preorder.merge_sort_stable [OF assms(1)] .
qed

end
