(* ===== verification/Browser_Ops.thy ===== *)
theory Browser_Ops
  imports Browser_Files
begin

text \<open>
  The operations of source/filebrowser.cpp on the whole state: the five lists stay well linked and
  disjoint, every allocated cell is in exactly one of them, and each operation has its effect on the
  list of entries.
\<close>

section \<open>Well-formed lists\<close>

definition lists_ok :: "'a ui_scheme \<Rightarrow> (which_list \<Rightarrow> addr list) \<Rightarrow> bool" where
  "lists_ok u L =
     ((\<forall>w. browser_list (cells u) (br u w) (L w)) \<and> (\<forall>v w. v \<noteq> w \<longrightarrow> set (L v) \<inter> set (L w) = {}) \<and>
      dom (cells u) = (\<Union>w. set (L w)))"

lemma browser_list_cong:
  assumes "\<And>a. a \<in> set xs \<Longrightarrow> h' a = h a"
  shows "browser_list h' b xs = browser_list h b xs"
proof -
  have "next_of h' (last xs) = next_of h (last xs)" if "xs \<noteq> []"
    using assms that by (simp add: next_of_def)
  with linked_cong [of xs h' h None] assms show ?thesis by (auto simp: browser_list_def dlist_def)
qed

lemma lists_ok_list: "lists_ok u L \<Longrightarrow> browser_list (cells u) (br u w) (L w)"
  by (simp add: lists_ok_def)

lemma lists_ok_dlist: "lists_ok u L \<Longrightarrow> dlist (cells u) (L w)"
  by (simp add: lists_ok_def browser_list_def)

lemma lists_ok_alloc: "lists_ok u L \<Longrightarrow> a \<in> set (L w) \<Longrightarrow> cells u a \<noteq> None"
  using lists_ok_dlist dlist_alloc by blast

text \<open>A change of one list that leaves the cells of the others alone.\<close>

lemma lists_ok_update:
  assumes "lists_ok u L" "browser_list h b xs" "\<And>a. a \<notin> set (L w) \<union> set xs \<Longrightarrow> h a = cells u a"
    "dom h = (dom (cells u) - set (L w)) \<union> set xs" "\<And>a. a \<in> set xs \<Longrightarrow> a \<in> set (L w) \<or> cells u a = None"
  shows "lists_ok (set_br w b (u\<lparr>cells := h\<rparr>)) (L(w := xs))"
proof -
  have disj: "set (L v) \<inter> set (L v') = {}" if "v \<noteq> v'" for v v'
    using assms(1) that by (simp add: lists_ok_def)
  have dis: "set (L v) \<inter> set xs = {}" if "v \<noteq> w" for v
  proof -
    have "a \<notin> set xs" if a: "a \<in> set (L v)" for a
      using assms(5) [of a] a disj [OF \<open>v \<noteq> w\<close>] lists_ok_alloc [OF assms(1) a] by auto
    then show ?thesis by blast
  qed
  have other: "browser_list h (br u v) (L v)" if "v \<noteq> w" for v
  proof -
    have "h a = cells u a" if "a \<in> set (L v)" for a
      using assms(3) [of a] dis [OF \<open>v \<noteq> w\<close>] disj [OF \<open>v \<noteq> w\<close>] that by auto
    then have "browser_list h (br u v) (L v) = browser_list (cells u) (br u v) (L v)" by (rule browser_list_cong)
    then show ?thesis using lists_ok_list [OF assms(1)] by blast
  qed
  have "dom h = (\<Union>v. set ((L(w := xs)) v))"
  proof -
    have "(\<Union>v. set (L v)) - set (L w) = (\<Union>v \<in> UNIV - {w}. set (L v))"
      using disj by blast
    moreover have "(\<Union>v. set ((L(w := xs)) v)) = set xs \<union> (\<Union>v \<in> UNIV - {w}. set (L v))"
    proof -
      have "(\<Union>v. set ((L(w := xs)) v)) = set ((L(w := xs)) w) \<union> (\<Union>v \<in> UNIV - {w}. set ((L(w := xs)) v))"
        by blast
      also have "(\<Union>v \<in> UNIV - {w}. set ((L(w := xs)) v)) = (\<Union>v \<in> UNIV - {w}. set (L v))"
        by (intro SUP_cong) auto
      finally show ?thesis by simp
    qed
    moreover have "dom (cells u) = (\<Union>v. set (L v))" using assms(1) by (simp add: lists_ok_def)
    ultimately show ?thesis using assms(4) by (metis Un_commute)
  qed
  moreover have "browser_list h (((br u)(w := b)) v) ((L(w := xs)) v)" for v
    using other [of v] assms(2) by simp
  moreover have "set ((L(w := xs)) v) \<inter> set ((L(w := xs)) v') = {}" if "v \<noteq> v'" for v v'
  proof (cases "v = w \<or> v' = w")
    case True
    then show ?thesis using dis [of v] dis [of v'] that by (auto simp: Int_commute)
  next
    case False
    then show ?thesis using assms(1) that by (simp add: lists_ok_def)
  qed
  ultimately show ?thesis by (simp add: lists_ok_def set_br_def)
qed

section \<open>Sorting\<close>

lemma SortBrowser_spec:
  assumes "lists_ok u L" "link_free cmp" "length (L w) \<le> 2 ^ 31"
  defines "ys \<equiv> merge_sort (before cmp (cells u)) (L w)"
  obtains u' where "SortBrowser w cmp u = Some u'" "lists_ok u' (L(w := ys))"
    "rearranged (set (L w)) (cells u) (cells u')" "1 < length (L w) \<Longrightarrow> numbered (cells u') ys"
    "length (L w) \<le> 1 \<Longrightarrow> cells u' = cells u"
    "u' = set_br w ((br u w)\<lparr>b_first := headp ys, b_last := lastp ys\<rparr>) (u\<lparr>cells := cells u'\<rparr>)"
proof -
  let ?b = "(br u w)\<lparr>b_first := headp ys, b_last := lastp ys\<rparr>"
  obtain h' where h': "sort_list cmp (br u w) (cells u) = Some (?b, h')" "dlist h' ys"
    "rearranged (set (L w)) (cells u) h'" "1 < length (L w) \<Longrightarrow> numbered h' ys" "length (L w) \<le> 1 \<Longrightarrow> h' = cells u"
    using sort_list_spec [OF assms(2) lists_ok_list [OF assms(1)] assms(3)] unfolding ys_def by blast
  have "browser_list h' ?b ys" using h'(2) by (simp add: browser_list_def)
  then have "lists_ok (set_br w ?b (u\<lparr>cells := h'\<rparr>)) (L(w := ys))"
  proof (rule lists_ok_update [OF assms(1)])
    show "dom h' = dom (cells u) - set (L w) \<union> set ys"
      using rearranged_alloc [OF h'(3)] assms(1) unfolding ys_def lists_ok_def by auto
  qed (use h'(3) in \<open>auto simp: ys_def rearranged_def\<close>)
  then show thesis
    using h' by (intro that [of "set_br w ?b (u\<lparr>cells := h'\<rparr>)"]) (auto simp: SortBrowser_def set_br_def)
qed

section \<open>Adding and removing cells\<close>

lemma dlist_snoc:
  assumes "dlist h xs" "a \<notin> set xs" "e_prior e = lastp xs" "e_next e = None"
    and h': "h' = (if xs = [] then h(a \<mapsto> e) else h(last xs \<mapsto> l\<lparr>e_next := Some a\<rparr>, a \<mapsto> e))"
    and "xs \<noteq> [] \<Longrightarrow> h (last xs) = Some l"
  shows "dlist h' (xs @ [a])"
proof (cases xs rule: rev_cases)
  case Nil
  then show ?thesis using assms(3,4) h' by (simp add: dlist_def next_of_def)
next
  case (snoc ys t)
  then have t: "t \<notin> set ys" "t \<noteq> a" "a \<notin> set ys" using assms(1,2) by (auto simp: dlist_def)
  have "linked h' None ys = linked h None ys" using t snoc h' by (intro linked_cong) auto
  moreover have "next_of h' (last ys) = next_of h (last ys)" if "ys \<noteq> []"
  proof -
    have "last ys \<noteq> t" "last ys \<noteq> a" using that t by (metis last_in_set)+
    then show ?thesis using snoc h' by (simp add: next_of_def)
  qed
  ultimately show ?thesis
    using assms t snoc by (auto simp: dlist_def linked_append next_of_def)
qed

text \<open>\<open>AddEntry\<close> returns NULL and changes nothing, or appends one blank cell.\<close>

definition fresh_entry :: "addr list \<Rightarrow> int \<Rightarrow> bentry" where
  "fresh_entry xs n = calloc_entry\<lparr>e_prior := lastp xs, e_pos := n\<rparr>"

lemma AddEntry_spec:
  assumes "lists_ok u L"
  obtains (no_memory) "AddEntry w u = Some (None, u\<lparr>ticks := Suc (ticks u)\<rparr>)"
  | (added) a h where "AddEntry w u = Some (Some a, set_br w ((br u w)\<lparr>b_first := headp (L w @ [a]), b_last := Some a,
        b_numEntries := b_numEntries (br u w) + 1\<rparr>) (u\<lparr>ticks := Suc (ticks u), cells := h\<rparr>))"
      "lists_ok (set_br w ((br u w)\<lparr>b_first := headp (L w @ [a]), b_last := Some a,
        b_numEntries := b_numEntries (br u w) + 1\<rparr>) (u\<lparr>ticks := Suc (ticks u), cells := h\<rparr>)) (L(w := L w @ [a]))"
      "cells u a = None" "h a = Some (fresh_entry (L w) (b_numEntries (br u w)))"
      "same_bare (insert a (set (L w))) ((cells u)(a := h a)) h"
proof (cases "calloc_at u (ticks u) = None \<or> (\<exists>a. calloc_at u (ticks u) = Some a \<and> cells u a \<noteq> None)")
  case True
  then show ?thesis by (intro no_memory) (auto simp: AddEntry_def Let_def)
next
  case False
  then obtain a where a: "calloc_at u (ticks u) = Some a" "cells u a = None" by auto
  let ?e = "fresh_entry (L w) (b_numEntries (br u w))"
  let ?info = "(br u w)\<lparr>b_first := headp (L w @ [a]), b_last := Some a, b_numEntries := b_numEntries (br u w) + 1\<rparr>"
  have bl: "browser_list (cells u) (br u w) (L w)" using assms by (rule lists_ok_list)
  then have d: "dlist (cells u) (L w)" "b_first (br u w) = headp (L w)" "b_last (br u w) = lastp (L w)"
    by (simp_all add: browser_list_def)
  have na: "a \<notin> set (L w)" using lists_ok_alloc [OF assms, of a w] a(2) by auto
  obtain l where l: "L w \<noteq> [] \<Longrightarrow> cells u (last (L w)) = Some l"
    using lists_ok_alloc [OF assms, of "last (L w)" w] by (cases "L w = []") auto
  define h where "h = (if L w = [] then (cells u)(a \<mapsto> ?e)
     else (cells u)(last (L w) \<mapsto> l\<lparr>e_next := Some a\<rparr>, a \<mapsto> ?e))"
  have la: "L w \<noteq> [] \<Longrightarrow> last (L w) \<noteq> a" using na by (metis last_in_set)
  have first: "(br u w)\<lparr>b_first := headp (L w), b_last := x, b_numEntries := n\<rparr> = (br u w)\<lparr>b_last := x, b_numEntries := n\<rparr>" for x n
    using d(2) by (cases "br u w") simp
  have "AddEntry w u = Some (Some a, set_br w ?info (u\<lparr>ticks := Suc (ticks u), cells := h\<rparr>))"
    using a d l la
    by (cases "L w = []")
      (simp_all add: first AddEntry_def Let_def lastp_def upd_def h_def fresh_entry_def headp_append fun_upd_twist)
  moreover have "dlist h (L w @ [a])"
    by (rule dlist_snoc [OF d(1) na _ _ h_def l]) (simp_all add: fresh_entry_def calloc_entry_def)
  then have "lists_ok (set_br w ?info (u\<lparr>cells := h\<rparr>)) (L(w := L w @ [a]))"
  proof (intro lists_ok_update [OF assms])
    show "browser_list h ?info (L w @ [a])" using \<open>dlist h (L w @ [a])\<close> by (simp add: browser_list_def)
    have "set (L w) \<subseteq> dom (cells u)" using assms by (auto simp: lists_ok_def)
    then show "dom h = dom (cells u) - set (L w) \<union> set (L w @ [a])"
      by (auto simp: h_def dest: last_in_set split: if_splits)
  qed (use a(2) in \<open>auto simp: h_def\<close>)
  then have "lists_ok (set_br w ?info (u\<lparr>ticks := Suc (ticks u), cells := h\<rparr>)) (L(w := L w @ [a]))"
    by (simp add: lists_ok_def set_br_def)
  moreover have "h a = Some ?e" by (simp add: h_def)
  moreover have "same_bare (insert a (set (L w))) ((cells u)(a := h a)) h"
    using l la by (auto simp: h_def same_bare_def)
  ultimately show ?thesis using a(2) by (intro added [of a h])
qed

text \<open>A list is well linked when every cell knows its two neighbours.\<close>

lemma all_splits_Cons:
  "(\<forall>ps a qs. b # xs = ps @ a # qs \<longrightarrow> Q ps a qs) \<longleftrightarrow> Q [] b xs \<and> (\<forall>ps a qs. xs = ps @ a # qs \<longrightarrow> Q (b # ps) a qs)"
proof
  assume r: "Q [] b xs \<and> (\<forall>ps a qs. xs = ps @ a # qs \<longrightarrow> Q (b # ps) a qs)"
  show "\<forall>ps a qs. b # xs = ps @ a # qs \<longrightarrow> Q ps a qs"
  proof (intro allI impI)
    fix ps a qs assume "b # xs = ps @ a # qs"
    then show "Q ps a qs" using r by (cases ps) auto
  qed
qed (metis append_Cons append_Nil)

lemma lastp_Cons: "lastp (b # ps) = (if ps = [] then Some b else lastp ps)"
  by (simp add: lastp_def)

lemma if_lastp: "(if ps = [] then None else lastp ps) = lastp ps"
  by (simp add: lastp_def)

lemma linked_splits:
  "linked h pr xs \<and> (xs \<noteq> [] \<longrightarrow> next_of h (last xs) = Some None) \<longleftrightarrow>
     (\<forall>ps a qs. xs = ps @ a # qs \<longrightarrow>
       (\<exists>e. h a = Some e \<and> e_prior e = (if ps = [] then pr else lastp ps) \<and> e_next e = headp qs))"
proof (induction xs arbitrary: pr)
  case (Cons b xs)
  have "linked h pr (b # xs) \<and> next_of h (last (b # xs)) = Some None \<longleftrightarrow>
      (\<exists>e. h b = Some e \<and> e_prior e = pr \<and> e_next e = headp xs) \<and>
      (linked h (Some b) xs \<and> (xs \<noteq> [] \<longrightarrow> next_of h (last xs) = Some None))"
    by (cases xs) (auto simp: next_of_def)
  then show ?case unfolding Cons.IH all_splits_Cons by (simp add: lastp_Cons)
qed simp

lemma dlist_splits:
  "dlist h xs \<longleftrightarrow> distinct xs \<and>
     (\<forall>ps a qs. xs = ps @ a # qs \<longrightarrow> (\<exists>e. h a = Some e \<and> e_prior e = lastp ps \<and> e_next e = headp qs))"
  using linked_splits [of h None xs] unfolding dlist_def if_lastp by blast

lemma dlist_cell:
  "dlist h (ps @ a # qs) \<Longrightarrow> \<exists>e. h a = Some e \<and> e_prior e = lastp ps \<and> e_next e = headp qs"
  by (auto simp: dlist_splits)

text \<open>Removing a cell: its neighbours are joined.\<close>

definition bridge :: "addr list \<Rightarrow> addr list \<Rightarrow> addr \<Rightarrow> bentry \<Rightarrow> bentry" where
  "bridge ys zs c f = f\<lparr>e_next := (if ys \<noteq> [] \<and> c = last ys then headp zs else e_next f),
     e_prior := (if zs \<noteq> [] \<and> c = hd zs then lastp ys else e_prior f)\<rparr>"

lemma dlist_remove:
  assumes d: "dlist h (ys @ a # zs)" and h': "\<And>c. c \<in> set (ys @ zs) \<Longrightarrow> h' c = map_option (bridge ys zs c) (h c)"
  shows "dlist h' (ys @ zs)"
  unfolding dlist_splits
proof (intro conjI allI impI)
  have dis: "distinct (ys @ a # zs)" using d by (simp add: dlist_def)
  then show "distinct (ys @ zs)" by simp
  fix ps c qs assume s: "ys @ zs = ps @ c # qs"
  then consider us where "ys = ps @ c # us" "qs = us @ zs" | us where "zs = us @ c # qs" "ps = ys @ us"
    by (auto simp: append_eq_append_conv2 append_eq_Cons_conv Cons_eq_append_conv)
  then show "\<exists>e. h' c = Some e \<and> e_prior e = lastp ps \<and> e_next e = headp qs"
  proof cases
    case 1
    then obtain e where e: "h c = Some e" "e_prior e = lastp ps" "e_next e = headp (us @ a # zs)"
      using dlist_cell [of h ps c "us @ a # zs"] d by auto
    have "(c = last ys) = (us = [])" using dis 1 by (cases us rule: rev_cases) auto
    moreover have "zs \<noteq> [] \<Longrightarrow> c \<noteq> hd zs" using dis 1 by (cases zs) auto
    ultimately show ?thesis using h' [of c] e 1 by (auto simp: bridge_def headp_append)
  next
    case 2
    then obtain e where e: "h c = Some e" "e_prior e = lastp (ys @ a # us)" "e_next e = headp qs"
      using dlist_cell [of h "ys @ a # us" c qs] d by auto
    have "(c = hd zs) = (us = [])" using dis 2 by (cases us) auto
    moreover have "ys \<noteq> [] \<Longrightarrow> c \<noteq> last ys" using dis 2 by (cases ys rule: rev_cases) auto
    ultimately show ?thesis using h' [of c] e 2 by (auto simp: bridge_def lastp_def)
  qed
qed

lemma unlink_spec:
  assumes "browser_list h b (ys @ a # zs)" "h a = Some e"
  obtains h' where "unlink a e b h = Some (b\<lparr>b_first := headp (ys @ zs), b_last := lastp (ys @ zs)\<rparr>, h')"
    "dlist (h'(a := None)) (ys @ zs)" "same_bare (set (ys @ zs)) h h'"
proof -
  have d: "dlist h (ys @ a # zs)" and b: "b_first b = headp (ys @ a # zs)" "b_last b = lastp (ys @ a # zs)"
    using assms(1) by (simp_all add: browser_list_def)
  have dis: "distinct (ys @ a # zs)" using d by (simp add: dlist_def)
  have e: "e_prior e = lastp ys" "e_next e = headp zs" using dlist_cell [OF d] assms(2) by auto
  define h' where "h' = (\<lambda>c. if c \<in> set (ys @ zs) then map_option (bridge ys zs c) (h c) else h c)"
  have only: "h' c = h c" if "ys \<noteq> [] \<Longrightarrow> c \<noteq> last ys" "zs \<noteq> [] \<Longrightarrow> c \<noteq> hd zs" for c
  proof -
    have "\<not> (ys \<noteq> [] \<and> c = last ys)" "\<not> (zs \<noteq> [] \<and> c = hd zs)" using that by blast+
    then have "bridge ys zs c f = f" for f by (simp only: bridge_def if_False) simp
    then show ?thesis by (cases "h c") (simp_all add: h'_def)
  qed
  have sb: "same_bare (set (ys @ zs)) h h'"
  proof -
    have "map_option bare (map_option (bridge ys zs c) (h c)) = map_option bare (h c)" for c
      by (cases "h c") (simp_all add: bridge_def)
    then show ?thesis by (simp add: same_bare_def h'_def)
  qed
  have dl: "dlist (h'(a := None)) (ys @ zs)"
    by (rule dlist_remove [OF d]) (use dis in \<open>auto simp: h'_def\<close>)
  have "unlink a e b h = Some (b\<lparr>b_first := headp (ys @ zs), b_last := lastp (ys @ zs)\<rparr>, h')"
  proof (cases ys rule: rev_cases)
    case Nil
    show ?thesis
    proof (cases zs)
      case Nil
      with \<open>ys = []\<close> have "h' = h" by (intro ext only) auto
      with Nil \<open>ys = []\<close> e show ?thesis by (simp add: unlink_def)
    next
      case (Cons n zs')
      obtain f where f: "h n = Some f" using dlist_alloc [OF d, of n] Cons by auto
      have "h' = h(n \<mapsto> f\<lparr>e_prior := None\<rparr>)"
      proof
        fix c
        show "h' c = (h(n \<mapsto> f\<lparr>e_prior := None\<rparr>)) c"
        proof (cases "c = n")
          case True
          then show ?thesis using f Cons Nil by (simp add: h'_def bridge_def)
        next
          case False
          then show ?thesis using Cons Nil only [of c] by simp
        qed
      qed
      with Nil Cons e f b show ?thesis by (cases b) (simp add: unlink_def upd_def lastp_def)
    qed
  next
    case (snoc ys' p)
    obtain g where g: "h p = Some g" using dlist_alloc [OF d, of p] snoc by auto
    show ?thesis
    proof (cases zs)
      case Nil
      have "h' = h(p \<mapsto> g\<lparr>e_next := None\<rparr>)"
      proof
        fix c
        show "h' c = (h(p \<mapsto> g\<lparr>e_next := None\<rparr>)) c"
        proof (cases "c = p")
          case True
          then show ?thesis using g Nil snoc by (simp add: h'_def bridge_def)
        next
          case False
          then show ?thesis using Nil snoc only [of c] by simp
        qed
      qed
      with Nil snoc e g b show ?thesis by (cases b) (simp add: unlink_def upd_def headp_append)
    next
      case (Cons n zs')
      obtain f where f: "h n = Some f" using dlist_alloc [OF d, of n] Cons by auto
      have "p \<noteq> n" using dis snoc Cons by auto
      have "h' = h(p \<mapsto> g\<lparr>e_next := Some n\<rparr>, n \<mapsto> f\<lparr>e_prior := Some p\<rparr>)"
      proof
        fix c
        show "h' c = (h(p \<mapsto> g\<lparr>e_next := Some n\<rparr>, n \<mapsto> f\<lparr>e_prior := Some p\<rparr>)) c"
        proof (cases "c = p \<or> c = n")
          case True
          then show ?thesis using f g Cons snoc \<open>p \<noteq> n\<close> by (auto simp: h'_def bridge_def)
        next
          case False
          then show ?thesis using Cons snoc only [of c] by simp
        qed
      qed
      with Cons snoc e f g b \<open>p \<noteq> n\<close> show ?thesis
        by (cases b) (simp add: unlink_def upd_def headp_append lastp_def)
    qed
  qed
  with sb dl show thesis by (intro that)
qed

lemma list_nexts: "browser_list h b xs \<Longrightarrow> nexts h (b_first b) xs None"
  using dlist_nexts by (auto simp: browser_list_def)

lemma delete_loop_skip:
  "nexts (cells u) p (ys @ zs) None \<Longrightarrow> a \<notin> set ys \<Longrightarrow> delete_loop w p a u = delete_loop w (headp zs) a u"
proof (induction ys arbitrary: p)
  case Nil
  then show ?case by (auto dest: nexts_head)
next
  case (Cons b ys)
  then show ?case by (auto simp: delete_loop.simps [of w "Some b"])
qed

text \<open>
  \<open>unlinked\<close>: the state after cell \<open>a\<close> was taken out of list \<open>w\<close> and freed; \<open>n\<close> is the new
  count, which \<open>DeleteEntry\<close> leaves as it was.
\<close>

definition unlinked :: "which_list \<Rightarrow> addr list \<Rightarrow> addr \<Rightarrow> 'a ui_scheme \<Rightarrow> heap \<Rightarrow> bool" where
  "unlinked w xs a u h = (h a = None \<and> dlist h xs \<and> same_bare (insert a (set xs)) ((cells u)(a := None)) h)"

lemma unlinked_ok:
  assumes "lists_ok u L" "a \<in> set (L w)" "unlinked w (remove1 a (L w)) a u h"
    "b_first b = headp (remove1 a (L w))" "b_last b = lastp (remove1 a (L w))"
  shows "lists_ok (set_br w b (u\<lparr>cells := h\<rparr>)) (L(w := remove1 a (L w)))"
proof (rule lists_ok_update [OF assms(1)])
  have dis: "distinct (L w)" using lists_ok_dlist [OF assms(1)] by (simp add: dlist_def)
  have al: "set (L w) \<subseteq> dom (cells u)" using assms(1) by (auto simp: lists_ok_def)
  have sb: "same_bare (insert a (set (remove1 a (L w)))) ((cells u)(a := None)) h"
    using assms(3) by (simp add: unlinked_def)
  show "browser_list h b (remove1 a (L w))" using assms(3,4,5) by (simp add: browser_list_def unlinked_def)
  show "h c = cells u c" if "c \<notin> set (L w) \<union> set (remove1 a (L w))" for c
    using that sb assms(2) dis unfolding same_bare_def by (metis Un_iff fun_upd_other insert_iff notin_set_remove1)
  have "dom h = dom ((cells u)(a := None))" using same_bare_alloc [OF sb] by (simp add: set_eq_iff domIff)
  then show "dom h = dom (cells u) - set (L w) \<union> set (remove1 a (L w))"
    using dis al assms(2) by auto
qed (meson notin_set_remove1)

lemma DeleteEntry_spec:
  assumes "lists_ok u L" "a \<in> set (L w)"
  obtains h where "DeleteEntry w (Some a) u = Some (True, set_br w ((br u w)\<lparr>b_first := headp (remove1 a (L w)),
      b_last := lastp (remove1 a (L w))\<rparr>) (u\<lparr>cells := h\<rparr>))" "unlinked w (remove1 a (L w)) a u h"
proof -
  have bl: "browser_list (cells u) (br u w) (L w)" using assms(1) by (rule lists_ok_list)
  obtain ys zs where s: "L w = ys @ a # zs" "a \<notin> set ys" using assms(2) split_list_first by metis
  then have r: "remove1 a (L w) = ys @ zs" by (simp add: remove1_append)
  obtain e where e: "cells u a = Some e" using lists_ok_alloc [OF assms] by auto
  obtain h' where h': "unlink a e (br u w) (cells u) = Some ((br u w)\<lparr>b_first := headp (ys @ zs), b_last := lastp (ys @ zs)\<rparr>, h')"
    "dlist (h'(a := None)) (ys @ zs)" "same_bare (set (ys @ zs)) (cells u) h'"
    using unlink_spec [OF bl [unfolded s(1)] e] by blast
  have "nexts (cells u) (b_first (br u w)) (ys @ a # zs) None" using list_nexts [OF bl] s(1) by simp
  from delete_loop_skip [OF this s(2)]
  have "DeleteEntry w (Some a) u = delete_loop w (Some a) a u" by (simp add: DeleteEntry_def)
  also have "\<dots> = Some (True, set_br w ((br u w)\<lparr>b_first := headp (ys @ zs), b_last := lastp (ys @ zs)\<rparr>)
      (u\<lparr>cells := h'(a := None)\<rparr>))"
    using e h'(1) by (subst delete_loop.simps) simp
  finally show thesis
    using h' unfolding r [symmetric]
    by (intro that [of "h'(a := None)"]) (auto simp: unlinked_def same_bare_def)
qed

lemma DeleteEntry_absent:
  assumes "lists_ok u L" "a \<notin> set (L w)"
  shows "DeleteEntry w (Some a) u = Some (False, u)"
proof -
  have "nexts (cells u) (b_first (br u w)) (L w @ []) None" using list_nexts [OF lists_ok_list [OF assms(1)]] by simp
  from delete_loop_skip [OF this assms(2)] show ?thesis by (simp add: DeleteEntry_def delete_loop.simps [of w None])
qed

lemma free_all_spec:
  "nexts h p xs None \<Longrightarrow> distinct xs \<Longrightarrow> free_all p h = Some (\<lambda>c. if c \<in> set xs then None else h c)"
proof (induction xs arbitrary: h p)
  case Nil
  then show ?case by (simp add: free_all.simps)
next
  case (Cons a xs)
  then obtain e where e: "p = Some a" "h a = Some e" "nexts h (e_next e) xs None" by auto
  have "nexts (h(a := None)) (e_next e) xs None = nexts h (e_next e) xs None"
    using Cons.prems(2) by (intro nexts_cong) (auto simp: next_of_def)
  then have "free_all (e_next e) (h(a := None)) = Some (\<lambda>c. if c \<in> set xs then None else (h(a := None)) c)"
    using Cons.IH [of "h(a := None)" "e_next e"] Cons.prems(2) e(3) unfolding distinct.simps by blast
  then show ?case using e by (subst free_all.simps) (auto simp: fun_eq_iff)
qed

lemma Reset_spec:
  assumes "lists_ok u L"
  obtains u' where "Reset w u = Some u'" "lists_ok u' (L(w := []))" "b_numEntries (br u' w) = 0"
    "u' = set_br w ((br u w)\<lparr>b_numEntries := 0, b_selIndex := None, b_pageIndex := 0, b_first := None, b_last := None\<rparr>)
            (u\<lparr>cells := (\<lambda>c. if c \<in> set (L w) then None else cells u c)\<rparr>)"
proof -
  let ?h = "\<lambda>c. if c \<in> set (L w) then None else cells u c"
  let ?b = "(br u w)\<lparr>b_numEntries := 0, b_selIndex := None, b_pageIndex := 0, b_first := None, b_last := None\<rparr>"
  have bl: "browser_list (cells u) (br u w) (L w)" using assms by (rule lists_ok_list)
  have "free_all (b_first (br u w)) (cells u) = Some ?h"
    using free_all_spec [OF list_nexts [OF bl]] bl by (simp add: browser_list_def dlist_def)
  then have "Reset w u = Some (set_br w ?b (u\<lparr>cells := ?h\<rparr>))" by (simp add: Reset_def)
  moreover have "lists_ok (set_br w ?b (u\<lparr>cells := ?h\<rparr>)) (L(w := []))"
    by (rule lists_ok_update [OF assms]) (auto simp: browser_list_def dlist_def split: if_splits)
  ultimately show thesis by (intro that) (simp_all add: set_br_def)
qed

section \<open>Sequences of operations\<close>

datatype list_op = Op_Add which_list | Op_Delete which_list "addr option" | Op_Reset which_list | Op_ResetFiles
  | Op_Sort which_list "bentry \<Rightarrow> bentry \<Rightarrow> int"

definition list_step :: "list_op \<Rightarrow> 'a ui_scheme \<Rightarrow> 'a ui_scheme option" where
  "list_step x u =
     (case x of
        Op_Add w \<Rightarrow> map_option snd (AddEntry w u)
      | Op_Delete w p \<Rightarrow> map_option snd (DeleteEntry w p u)
      | Op_Reset w \<Rightarrow> Reset w u
      | Op_ResetFiles \<Rightarrow> ResetFiles u
      | Op_Sort w cmp \<Rightarrow> SortBrowser w cmp u)"

fun list_run :: "list_op list \<Rightarrow> 'a ui_scheme \<Rightarrow> 'a ui_scheme option" where
  "list_run [] u = Some u"
| "list_run (x # xs) u = (case list_step x u of None \<Rightarrow> None | Some u1 \<Rightarrow> list_run xs u1)"

definition sorts_by_content :: "list_op \<Rightarrow> bool" where
  "sorts_by_content x = (case x of Op_Sort w cmp \<Rightarrow> link_free cmp | _ \<Rightarrow> True)"

lemma list_step_ok:
  assumes "lists_ok u L" "sorts_by_content x" "\<And>w. length (L w) \<le> 2 ^ 31"
  shows "\<exists>u' L'. list_step x u = Some u' \<and> lists_ok u' L' \<and> (\<forall>w. length (L' w) \<le> Suc (length (L w)))"
proof (cases x)
  case (Op_Add w)
  have t: "lists_ok (u\<lparr>ticks := n\<rparr>) L" for n using assms(1) by (simp add: lists_ok_def)
  show ?thesis
  proof (rule AddEntry_spec [OF assms(1), of w], goal_cases)
    case 1
    then show ?thesis using t Op_Add by (auto simp: list_step_def intro!: exI [of _ L])
  next
    case (2 a h)
    then show ?thesis unfolding list_step_def Op_Add by (intro exI conjI) (auto simp: 2(1))
  qed
next
  case (Op_Delete w p)
  show ?thesis
  proof (cases "\<exists>a. p = Some a \<and> a \<in> set (L w)")
    case True
    then obtain a where a: "p = Some a" "a \<in> set (L w)" by auto
    from DeleteEntry_spec [OF assms(1) a(2)] obtain h where h:
      "DeleteEntry w (Some a) u = Some (True, set_br w ((br u w)\<lparr>b_first := headp (remove1 a (L w)),
        b_last := lastp (remove1 a (L w))\<rparr>) (u\<lparr>cells := h\<rparr>))" "unlinked w (remove1 a (L w)) a u h" by blast
    have "length (remove1 a (L w)) \<le> Suc (length (L w))" by (auto simp: length_remove1)
    then show ?thesis
      unfolding list_step_def Op_Delete a(1) list_op.case h(1) option.map(2) snd_conv
      by (intro exI conjI) (rule refl, rule unlinked_ok [OF assms(1) a(2) h(2)], auto)
  next
    case False
    then have "DeleteEntry w p u = Some (False, u)"
      using DeleteEntry_absent [OF assms(1)] by (cases p) (auto simp: DeleteEntry_def)
    then show ?thesis using assms(1) Op_Delete by (auto simp: list_step_def)
  qed
next
  case (Op_Reset w)
  obtain u' where "Reset w u = Some u'" "lists_ok u' (L(w := []))"
    using Reset_spec [OF assms(1)] by blast
  then show ?thesis using Op_Reset by (auto simp: list_step_def)
next
  case Op_ResetFiles
  obtain u1 where u1: "Reset Subs u = Some u1" "lists_ok u1 (L(Subs := []))"
    using Reset_spec [OF assms(1)] by blast
  then obtain u2 where "Reset Files u1 = Some u2" "lists_ok u2 (L(Subs := [], Files := []))"
    using Reset_spec [OF u1(2)] by blast
  then show ?thesis using u1 Op_ResetFiles by (auto simp: list_step_def ResetFiles_def)
next
  case (Op_Sort w cmp)
  then have "link_free cmp" using assms(2) by (simp add: sorts_by_content_def)
  then obtain u' where "SortBrowser w cmp u = Some u'" "lists_ok u' (L(w := merge_sort (before cmp (cells u)) (L w)))"
    using SortBrowser_spec [OF assms(1)] assms(3) by metis
  then show ?thesis using Op_Sort by (auto simp: list_step_def)
qed

section \<open>The texts of the entries\<close>

text \<open>
  An entry owns the texts its pointers lead to. \<open>DeleteEntry\<close> frees all eight; in the loop of \<open>Reset\<close> the frees of four
  are commented out. \<open>reset_loop\<close> walks like that loop and collects what \<open>sel\<close> picks of each entry; \<open>run_texts\<close> does so for a
  sequence of operations: \<open>freed_texts\<close> are the texts it frees, \<open>lost_texts\<close> those of the entries that \<open>Reset\<close> gives up without
  freeing them. \<open>all_texts\<close> are the texts of all entries there are.
\<close>

definition somes :: "'a option list \<Rightarrow> 'a list" where
  "somes ps = map the (filter (\<lambda>p. p \<noteq> None) ps)"

definition freed_by_delete :: "bentry \<Rightarrow> string list" where
  "freed_by_delete e = somes [e_file e, e_url e, e_display e, e_xml e, e_year e, e_desc e, e_image e, e_tunein e]"

definition freed_by_reset :: "bentry \<Rightarrow> string list" where
  "freed_by_reset e = somes [e_file e, e_url e, e_display e, e_image e]"

definition kept_by_reset :: "bentry \<Rightarrow> string list" where
  "kept_by_reset e = somes [e_xml e, e_year e, e_desc e, e_tunein e]"

partial_function (option) reset_loop :: "(bentry \<Rightarrow> string list) \<Rightarrow> addr option \<Rightarrow> heap \<Rightarrow> string multiset \<Rightarrow> string multiset option" where
  "reset_loop sel p h T =
     (case p of None \<Rightarrow> Some T
      | Some a \<Rightarrow>
        (case h a of None \<Rightarrow> None | Some e \<Rightarrow> reset_loop sel (e_next e) (h(a := None)) (T + mset (sel e))))"

definition reset_texts :: "(bentry \<Rightarrow> string list) \<Rightarrow> which_list \<Rightarrow> 'a ui_scheme \<Rightarrow> string multiset" where
  "reset_texts sel w u = the (reset_loop sel (b_first (br u w)) (cells u) {#})"

definition step_texts :: "(bentry \<Rightarrow> string list) \<Rightarrow> (bentry \<Rightarrow> string list) \<Rightarrow> list_op \<Rightarrow> 'a ui_scheme \<Rightarrow> string multiset" where
  "step_texts res del x u =
     (case x of
        Op_Delete w p \<Rightarrow>
          (case DeleteEntry w p u of Some (True, _) \<Rightarrow> mset (del (the (load (cells u) p))) | _ \<Rightarrow> {#})
      | Op_Reset w \<Rightarrow> reset_texts res w u
      | Op_ResetFiles \<Rightarrow>
          reset_texts res Subs u +
          (case Reset Subs u of None \<Rightarrow> {#} | Some u1 \<Rightarrow> reset_texts res Files u1)
      | _ \<Rightarrow> {#})"

fun run_texts :: "(bentry \<Rightarrow> string list) \<Rightarrow> (bentry \<Rightarrow> string list) \<Rightarrow> list_op list \<Rightarrow> 'a ui_scheme \<Rightarrow> string multiset" where
  "run_texts res del [] u = {#}"
| "run_texts res del (x # xs) u =
     step_texts res del x u + (case list_step x u of None \<Rightarrow> {#} | Some u1 \<Rightarrow> run_texts res del xs u1)"

definition all_texts :: "heap \<Rightarrow> string multiset" where
  "all_texts h = (\<Sum>a\<in>dom h. mset (freed_by_delete (the (h a))))"

abbreviation freed_texts :: "list_op list \<Rightarrow> 'a ui_scheme \<Rightarrow> string multiset" where
  "freed_texts \<equiv> run_texts freed_by_reset freed_by_delete"

abbreviation lost_texts :: "list_op list \<Rightarrow> 'a ui_scheme \<Rightarrow> string multiset" where
  "lost_texts \<equiv> run_texts kept_by_reset (\<lambda>_. [])"

lemma freed_and_kept: "mset (freed_by_delete e) = mset (freed_by_reset e) + mset (kept_by_reset e)"
  by (simp add: freed_by_delete_def freed_by_reset_def kept_by_reset_def somes_def)

lemma texts_of_content: "content e = content e' \<Longrightarrow> freed_by_delete e = freed_by_delete e'"
  by (cases e; cases e') (simp add: freed_by_delete_def content_def)

lemma all_texts_cong:
  assumes "\<And>a. map_option content (h' a) = map_option content (h a)"
  shows "all_texts h' = all_texts h"
proof -
  have d: "dom h' = dom h" using assms by (metis (mono_tags) domIff map_option_is_None subsetI subset_antisym)
  have "freed_by_delete (the (h' a)) = freed_by_delete (the (h a))" if "a \<in> dom h" for a
  proof -
    from that obtain e where e: "h a = Some e" by auto
    then obtain e' where e': "h' a = Some e'" "content e' = content e" using assms [of a] by auto
    show ?thesis using texts_of_content [OF e'(2)] e e'(1) by simp
  qed
  with d show ?thesis unfolding all_texts_def by (metis (mono_tags, lifting) sum.cong)
qed

lemma all_texts_remove:
  assumes "finite (dom h)" "set xs \<subseteq> dom h" "distinct xs"
  shows "all_texts h = all_texts (\<lambda>c. if c \<in> set xs then None else h c) + (\<Sum>a\<leftarrow>xs. mset (freed_by_delete (the (h a))))"
proof -
  have "dom (\<lambda>c. if c \<in> set xs then None else h c) = dom h - set xs" by (auto split: if_splits)
  moreover have "(\<Sum>a\<in>dom h - set xs. mset (freed_by_delete (the (if a \<in> set xs then None else h a)))) =
      (\<Sum>a\<in>dom h - set xs. mset (freed_by_delete (the (h a))))" by (intro sum.cong) auto
  ultimately show ?thesis using sum.subset_diff [OF assms(2,1), of "\<lambda>a. mset (freed_by_delete (the (h a)))"] assms(3)
    by (simp add: all_texts_def sum_list_distinct_conv_sum_set)
qed

lemma reset_loop_list:
  "nexts h p xs None \<Longrightarrow> distinct xs \<Longrightarrow> set xs \<subseteq> dom h \<Longrightarrow> reset_loop sel p h T = Some (T + (\<Sum>a\<leftarrow>xs. mset (sel (the (h a)))))"
proof (induction xs arbitrary: h p T)
  case Nil
  then show ?case by (subst reset_loop.simps) simp
next
  case (Cons a xs)
  then obtain e where e: "p = Some a" "h a = Some e" "nexts h (e_next e) xs None" by (auto simp: next_of_def)
  have "nexts (h(a := None)) (e_next e) xs None = nexts h (e_next e) xs None"
    using Cons.prems(2) by (intro nexts_cong) (auto simp: next_of_def)
  with e(3) have n: "nexts (h(a := None)) (e_next e) xs None" by simp
  have d: "set xs \<subseteq> dom (h(a := None))" "distinct xs" using Cons.prems(2,3) by auto
  from Cons.IH [OF n d(2,1), of "T + mset (sel e)"] have "reset_loop sel (e_next e) (h(a := None)) (T + mset (sel e)) =
      Some (T + mset (sel e) + (\<Sum>b\<leftarrow>xs. mset (sel (the ((h(a := None)) b)))))" .
  moreover have "(\<Sum>b\<leftarrow>xs. mset (sel (the ((h(a := None)) b)))) = (\<Sum>b\<leftarrow>xs. mset (sel (the (h b))))"
    using Cons.prems(2) by (intro arg_cong [where f = sum_list] map_cong) auto
  ultimately show ?case using e by (subst reset_loop.simps) simp
qed

lemma lists_ok_finite: "lists_ok u L \<Longrightarrow> finite (dom (cells u))"
proof -
  have "(UNIV :: which_list set) = {Files, Subs, Videos, Music, OnlineMedia}" using which_list.nchotomy by auto
  then have "finite (UNIV :: which_list set)" by (metis finite.emptyI finite_insert)
  then show "lists_ok u L \<Longrightarrow> finite (dom (cells u))" by (simp add: lists_ok_def)
qed

lemma reset_texts_ok:
  assumes "lists_ok u L"
  shows "reset_texts sel w u = (\<Sum>a\<leftarrow>L w. mset (sel (the (cells u a))))"
proof -
  have "set (L w) \<subseteq> dom (cells u)" using assms by (auto simp: lists_ok_def)
  with reset_loop_list [OF list_nexts [OF lists_ok_list [OF assms]]] lists_ok_dlist [OF assms] show ?thesis
    by (simp add: dlist_def reset_texts_def)
qed

lemma Reset_texts:
  assumes "lists_ok u L" "Reset w u = Some u1"
  shows "all_texts (cells u) = all_texts (cells u1) + reset_texts freed_by_reset w u + reset_texts kept_by_reset w u"
proof -
  have c: "cells u1 = (\<lambda>c. if c \<in> set (L w) then None else cells u c)"
    by (rule Reset_spec [OF assms(1), of w]) (use assms(2) in \<open>simp add: set_br_def\<close>)
  have "set (L w) \<subseteq> dom (cells u)" "distinct (L w)" using assms(1) lists_ok_dlist [OF assms(1)] by (auto simp: lists_ok_def dlist_def)
  note r = all_texts_remove [OF lists_ok_finite [OF assms(1)] this]
  have "(\<Sum>a\<leftarrow>xs. mset (freed_by_delete (the (h a)))) = (\<Sum>a\<leftarrow>xs. mset (freed_by_reset (the (h a)))) + (\<Sum>a\<leftarrow>xs. mset (kept_by_reset (the (h a))))"
    for xs :: "addr list" and h :: heap by (induction xs) (simp_all add: freed_and_kept)
  with r show ?thesis by (simp add: c reset_texts_ok [OF assms(1)] add.assoc)
qed

lemma step_texts_law:
  assumes "lists_ok u L" "sorts_by_content x" "\<And>w. length (L w) \<le> 2 ^ 31" "list_step x u = Some u1"
  shows "all_texts (cells u) = all_texts (cells u1) + step_texts freed_by_reset freed_by_delete x u + step_texts kept_by_reset (\<lambda>_. []) x u"
proof (cases x)
  case (Op_Add w)
  show ?thesis
  proof (rule AddEntry_spec [OF assms(1), of w], goal_cases)
    case 1
    then show ?thesis using assms(4) Op_Add by (auto simp: list_step_def step_texts_def)
  next
    case (2 a h)
    have c: "cells u1 = h" using assms(4) Op_Add 2(1) by (auto simp: list_step_def set_br_def)
    have "all_texts h = all_texts ((cells u)(a := h a))"
      using same_bare_rearranged [OF 2(5)] by (intro all_texts_cong) (simp add: rearranged_def)
    also have "\<dots> = all_texts (cells u)"
    proof -
      have "all_texts ((cells u)(a := h a)) = mset (freed_by_delete (the (h a))) + all_texts (cells u)"
        using 2(3,4) lists_ok_finite [OF assms(1)] sum.insert [of "dom (cells u)" a] 
        by (auto simp: all_texts_def domIff intro!: sum.cong)
      then show ?thesis by (simp add: 2(4) fresh_entry_def calloc_entry_def freed_by_delete_def somes_def)
    qed
    finally show ?thesis using Op_Add by (simp add: c step_texts_def)
  qed
next
  case (Op_Delete w p)
  show ?thesis
  proof (cases "\<exists>a. p = Some a \<and> a \<in> set (L w)")
    case True
    then obtain a where a: "p = Some a" "a \<in> set (L w)" by auto
    from DeleteEntry_spec [OF assms(1) a(2)] obtain b h where h:
      "DeleteEntry w (Some a) u = Some (True, set_br w b (u\<lparr>cells := h\<rparr>))" "unlinked w (remove1 a (L w)) a u h" by metis
    have c: "cells u1 = h" using assms(4) Op_Delete a(1) h(1) by (auto simp: list_step_def set_br_def)
    obtain e where e: "cells u a = Some e" using lists_ok_alloc [OF assms(1) a(2)] by auto
    have "all_texts h = all_texts ((cells u)(a := None))"
      using h(2) unfolding unlinked_def by (intro all_texts_cong) (metis same_bare_rearranged rearranged_def)
    moreover have "(\<lambda>c. if c \<in> set [a] then None else cells u c) = (cells u)(a := None)" by auto
    ultimately have "all_texts (cells u) = all_texts h + mset (freed_by_delete e)"
      using all_texts_remove [OF lists_ok_finite [OF assms(1)], of "[a]"] e by auto
    then show ?thesis using Op_Delete a(1) h(1) e by (simp add: c step_texts_def load_def)
  next
    case False
    then have "DeleteEntry w p u = Some (False, u)"
      using DeleteEntry_absent [OF assms(1)] by (cases p) (auto simp: DeleteEntry_def)
    then show ?thesis using assms(4) Op_Delete by (simp add: list_step_def step_texts_def)
  qed
next
  case (Op_Reset w)
  then show ?thesis using Reset_texts [OF assms(1)] assms(4) by (simp add: list_step_def step_texts_def)
next
  case Op_ResetFiles
  obtain u2 where u2: "Reset Subs u = Some u2" "lists_ok u2 (L(Subs := []))"
    using Reset_spec [OF assms(1)] by blast
  then have "Reset Files u2 = Some u1" using assms(4) Op_ResetFiles by (simp add: list_step_def ResetFiles_def)
  from Reset_texts [OF assms(1) u2(1)] Reset_texts [OF u2(2) this] show ?thesis
    using u2(1) Op_ResetFiles by (simp add: step_texts_def ac_simps)
next
  case (Op_Sort w cmp)
  then have "link_free cmp" using assms(2) by (simp add: sorts_by_content_def)
  then obtain u' where "SortBrowser w cmp u = Some u'" "rearranged (set (L w)) (cells u) (cells u')"
    using SortBrowser_spec [OF assms(1)] assms(3) by metis
  then show ?thesis using Op_Sort assms(4) all_texts_cong [of "cells u1" "cells u"]
    by (simp add: list_step_def step_texts_def rearranged_def)
qed

text \<open>
  (C24) Any sequence of additions, deletions, releases and sorts of the five browser lists, from a
  well-linked state and under every outcome of the allocator, runs without touching NULL or a freed
  cell and without looping, and ends with five well-linked, disjoint lists that hold every allocated
  cell: no link dangles and no cell leaks. Of the texts of the entries at the start each is afterwards
  a text of an entry, or was freed by the run, or, and this is what the code loses, was the xml, year, desc or tunein of an entry
  released by \<open>Reset\<close>, whose frees are commented out. (The selection of a list and the entry remembered for the subtitles are not
  links of the lists: nothing is said of them.)
\<close>

theorem browser_lists_invariant:
  assumes "lists_ok u L" "\<forall>x \<in> set xs. sorts_by_content x" "\<forall>w. length (L w) + length xs \<le> 2 ^ 31"
  shows "\<exists>u' L'. list_run xs u = Some u' \<and> lists_ok u' L' \<and>
    all_texts (cells u) = all_texts (cells u') + freed_texts xs u + lost_texts xs u"
  using assms
proof (induction xs arbitrary: u L)
  case (Cons x xs)
  have "length (L w) \<le> 2 ^ 31" for w using Cons.prems(3) by (meson add_leD1)
  then obtain u1 L1 where u1: "list_step x u = Some u1" "lists_ok u1 L1" "\<forall>w. length (L1 w) \<le> Suc (length (L w))"
    "all_texts (cells u) = all_texts (cells u1) + step_texts freed_by_reset freed_by_delete x u + step_texts kept_by_reset (\<lambda>_. []) x u"
    using list_step_ok [OF Cons.prems(1)] step_texts_law [OF Cons.prems(1)] Cons.prems(2) by fastforce
  have "length (L1 w) + length xs \<le> 2 ^ 31" for w
  proof -
    have "length (L1 w) + length xs \<le> length (L w) + length (x # xs)" using u1(3) by simp
    also have "\<dots> \<le> 2 ^ 31" using Cons.prems(3) by blast
    finally show ?thesis .
  qed
  then obtain u' L' where "list_run xs u1 = Some u'" "lists_ok u' L'"
    "all_texts (cells u1) = all_texts (cells u') + freed_texts xs u1 + lost_texts xs u1"
    using Cons.IH [OF u1(2)] Cons.prems(2) by auto
  then show ?case using u1(1,4) by (intro exI [of _ u'] exI [of _ L']) (simp add: ac_simps)
qed auto

definition blank_browser :: browser_t where
  "blank_browser = BrowserInit \<lparr>b_dir = [], b_menu = 0, b_lastdir = [], b_numEntries = 0, b_selIndex = None,
     b_pageIndex = 0, b_first = None, b_last = None\<rparr>"

text \<open>The state after start-up; the allocator hands out ascending addresses.\<close>

definition blank_ui :: ui where
  "blank_ui = \<lparr>br = (\<lambda>_. blank_browser), cells = Map.empty, ticks = 0, calloc_at = Some, strdup_at = (\<lambda>_. True),
     browserHistory = [], sub_list = None\<rparr>"

lemma blank_ok: "lists_ok blank_ui (\<lambda>_. [])"
  by (simp add: lists_ok_def blank_ui_def browser_list_def dlist_def blank_browser_def BrowserInit_def)

text \<open>
  (C23) Sorting a file listing whose entries all have a name ends and gives the one stable
  arrangement by the order of the callback, with the links, the ends and the positions of the list
  right, no entry changed and nothing else touched.
\<close>

theorem file_listing_sorted:
  assumes "lists_ok u L" "length (L w) \<le> 2 ^ 31" "\<forall>a \<in> set (L w). e_file (the (cells u a)) \<noteq> None"
  shows "\<exists>u' ys. SortBrowser w FileSortCallback u = Some u' \<and> lists_ok u' (L(w := ys)) \<and>
     (\<forall>es. stable_sorted file_le (contents (cells u) (L w)) es \<longleftrightarrow> es = contents (cells u') ys) \<and>
     (1 < length (L w) \<longrightarrow> numbered (cells u') ys) \<and> (\<forall>a. a \<notin> set (L w) \<longrightarrow> cells u' a = cells u a)"
proof -
  let ?h = "cells u" and ?ys = "merge_sort (before FileSortCallback (cells u)) (L w)"
  obtain u' where u': "SortBrowser w FileSortCallback u = Some u'" "lists_ok u' (L(w := ?ys))"
    "rearranged (set (L w)) ?h (cells u')" "1 < length (L w) \<longrightarrow> numbered (cells u') ?ys"
    using SortBrowser_spec [OF assms(1) FileSort_link_free assms(2)] by metis
  have "stable_sorted file_le (contents ?h (L w)) (contents ?h ?ys)"
    by (rule sorted_contents(2) [OF listing.total_preorder_axioms])
      (use assms(3) in \<open>auto simp: sorted_wrt_iff_nth_less FileSort_named\<close>)
  then have "stable_sorted file_le (contents ?h (L w)) (contents (cells u') ?ys)"
    using rearranged_contents [OF u'(3)] by simp
  then have "\<forall>es. stable_sorted file_le (contents ?h (L w)) es \<longleftrightarrow> es = contents (cells u') ?ys"
    using listing.stable_sorted_unique by blast
  then show ?thesis using u' by (intro exI [of _ u'] exI [of _ ?ys]) (simp add: rearranged_def)
qed

text \<open>A listing of three entries, out of order.\<close>

definition demo_cell :: "string \<Rightarrow> entry_type \<Rightarrow> int \<Rightarrow> addr option \<Rightarrow> addr option \<Rightarrow> bentry" where
  "demo_cell name t pos p n = calloc_entry\<lparr>e_file := Some name, e_type := t, e_pos := pos, e_prior := p, e_next := n\<rparr>"

definition demo_listing :: ui where
  "demo_listing = blank_ui\<lparr>
     cells := [1 \<mapsto> demo_cell ''b.mp3'' TYPE_FILE 0 None (Some 2), 2 \<mapsto> demo_cell ''A.mp3'' TYPE_FILE 1 (Some 1) (Some 3),
               3 \<mapsto> demo_cell ''Music'' TYPE_FOLDER 2 (Some 2) None],
     br := (\<lambda>_. blank_browser)(Files := blank_browser\<lparr>b_first := Some 1, b_last := Some 3, b_numEntries := 3\<rparr>)\<rparr>"

lemma demo_listing_ok: "lists_ok demo_listing ((\<lambda>_. [])(Files := [1, 2, 3]))"
proof -
  have "dom (cells demo_listing) = (\<Union>w. set (((\<lambda>_. [])(Files := [1, 2, 3])) w))"
    by (auto simp: demo_listing_def split: if_splits)
  moreover have "set (((\<lambda>_. [])(Files := [1, 2, 3])) v) \<inter> set (((\<lambda>_. [])(Files := [1, 2, 3])) w) = ({} :: addr set)"
    if "v \<noteq> w" for v w
    using that by auto
  ultimately show ?thesis
    by (simp add: lists_ok_def demo_listing_def blank_ui_def blank_browser_def browser_list_def dlist_def
        BrowserInit_def demo_cell_def next_of_def lastp_def)
qed

theorem browser_lists_invariant_witness:
  "\<exists>u' L'. list_run [Op_Add Music, Op_Sort Files FileSortCallback, Op_Delete Files (Some 1), Op_ResetFiles] demo_listing = Some u' \<and>
     lists_ok u' L' \<and> all_texts (cells demo_listing) = all_texts (cells u') +
       freed_texts [Op_Add Music, Op_Sort Files FileSortCallback, Op_Delete Files (Some 1), Op_ResetFiles] demo_listing +
       lost_texts [Op_Add Music, Op_Sort Files FileSortCallback, Op_Delete Files (Some 1), Op_ResetFiles] demo_listing"
  by (rule browser_lists_invariant [OF demo_listing_ok]) (simp_all add: sorts_by_content_def FileSort_link_free)

theorem file_listing_sorted_witness:
  "\<exists>u' ys. SortBrowser Files FileSortCallback demo_listing = Some u' \<and>
     (\<forall>es. stable_sorted file_le (contents (cells demo_listing) [1, 2, 3]) es \<longleftrightarrow> es = contents (cells u') ys)"
  using file_listing_sorted [OF demo_listing_ok, of Files] by (auto simp: demo_listing_def demo_cell_def)

end
