(* ===== verification/Browse_Dir.thy ===== *)
theory Browse_Dir
  imports Browser_Ops
begin

text \<open>
  Folders in the browser: the full path and display name of an entry, the change of folder
  (\<open>UpdateDirName\<close>, source/filebrowser.cpp) and the reading of a directory in pieces of twenty
  entries (\<open>ParseDirectory\<close>, \<open>ParseDirEntries\<close>, source/fileop.cpp).

  A directory that is open is the list of what \<open>readdir\<close> still returns: names with the folder flag of
  \<open>d_type\<close>. \<open>halt n\<close> is what the parser finds in \<open>parseHalt\<close> when \<open>n\<close> names are left; the GUI thread
  sets it. Drawing (\<open>UpdateBrowser\<close>, the prompts) is left out.
\<close>

section \<open>State\<close>

type_synonym dirent = "string \<times> bool"

record app = ui +
  menuCurrent :: menu
  loadedFile :: string
  findLoadedFile :: int
  selectLoadedFile :: bool
  foundArt :: bool
  dirHandle :: "dirent list option"

section \<open>Names of entries\<close>

text \<open>\<open>printf\<close> writes a missing name as \<open>(null)\<close>.\<close>

definition printed :: "string option \<Rightarrow> string" where
  "printed s = (case s of None \<Rightarrow> ''(null)'' | Some t \<Rightarrow> t)"

definition GetFullPath :: "'a ui_scheme \<Rightarrow> bentry option \<Rightarrow> string" where
  "GetFullPath u entry =
     (case entry of None \<Rightarrow> []
      | Some e \<Rightarrow>
        if e_file e \<noteq> None \<and> FindDevice (the (e_file e)) \<noteq> None then printed (e_file e)
        else b_dir (br u Files) @ printed (e_file e))"

definition GetDisplay :: "bool \<Rightarrow> bentry \<Rightarrow> nat \<Rightarrow> string" where
  "GetDisplay hideExtensions entry buflen =
     (case e_display entry of
        Some d \<Rightarrow> c_trunc buflen d
      | None \<Rightarrow> (let s = c_trunc buflen (printed (e_file entry)) in if hideExtensions then StripExt s else s))"

text \<open>The first cell of a list with a property.\<close>

partial_function (option) find_cell :: "(bentry \<Rightarrow> bool) \<Rightarrow> heap \<Rightarrow> addr option \<Rightarrow> addr option option" where
  "find_cell P h p =
     (case p of None \<Rightarrow> Some None
      | Some a \<Rightarrow> (case h a of None \<Rightarrow> None | Some e \<Rightarrow> if P e then Some (Some a) else find_cell P h (e_next e)))"

definition MusicPlaylistFindIndex :: "string \<Rightarrow> 'a ui_scheme \<Rightarrow> addr option option" where
  "MusicPlaylistFindIndex fullpath u = find_cell (\<lambda>e. e_file e = Some fullpath) (cells u) (b_first (br u Music))"

definition MusicPlaylistFind :: "addr option \<Rightarrow> 'a ui_scheme \<Rightarrow> bool option" where
  "MusicPlaylistFind index u =
     (case index of None \<Rightarrow> Some False
      | Some a \<Rightarrow>
        (case cells u a of None \<Rightarrow> None
         | Some e \<Rightarrow> map_option (\<lambda>r. r \<noteq> None) (MusicPlaylistFindIndex (GetFullPath u (Some e)) u)))"

definition IsOnlineMediaPath :: "string \<Rightarrow> 'a ui_scheme \<Rightarrow> bool option" where
  "IsOnlineMediaPath path u =
     (if length path < 2 \<or> last path \<noteq> CHR ''/'' then Some False
      else map_option (\<lambda>r. r \<noteq> None)
        (find_cell (\<lambda>e. case e_file e of None \<Rightarrow> False
             | Some f \<Rightarrow> length path \<le> length f \<and> c_strncmp path f (length path))
           (cells u) (b_first (br u OnlineMedia))))"

section \<open>Changing the folder\<close>

definition set_dir :: "string \<Rightarrow> 'a ui_scheme \<Rightarrow> 'a ui_scheme" where
  "set_dir d u = set_br Files ((br u Files)\<lparr>b_dir := d\<rparr>) u"

definition set_lastdir :: "string \<Rightarrow> 'a ui_scheme \<Rightarrow> 'a ui_scheme" where
  "set_lastdir d u = set_br Files ((br u Files)\<lparr>b_lastdir := d\<rparr>) u"

text \<open>
  Going up from a directory that is the empty string makes the code write before the buffer; that is
  the fault \<open>None\<close>. Result -1 is the refusal of a name that is too long.
\<close>

definition go_up :: "'a ui_scheme \<Rightarrow> 'a ui_scheme option" where
  "go_up u =
     (let d = b_dir (br u Files) in
      if IsDeviceRoot d then Some (set_dir [] (set_lastdir (butlast d) u))
      else if d = [] then None
      else
        (case after_last CHR ''/'' (butlast d) of
           None \<Rightarrow> Some (set_dir [] (set_lastdir (butlast d) u))
         | Some t \<Rightarrow> Some (set_dir (take (length d - 1 - length t) d) (set_lastdir t u))))"

definition UpdateDirName :: "'a ui_scheme \<Rightarrow> (int \<times> 'a ui_scheme) option" where
  "UpdateDirName u =
     (let b = br u Files in
      if b_first b = None \<or> b_selIndex b = None then Some (1, u)
      else
        (case load (cells u) (b_selIndex b) of None \<Rightarrow> None
         | Some e \<Rightarrow>
           if b_selIndex b = b_first b \<and> (e_file e = None \<or> e_file e = Some [])
           then Some (1, BrowserHistoryClear (set_dir [] u))
           else
             (case e_file e of None \<Rightarrow> Some (1, BrowserHistoryClear (set_dir [] u))
              | Some f \<Rightarrow>
                if b_selIndex b = b_first b \<and> take 1 f \<noteq> ''.'' \<and> b_dir b \<noteq> []
                then Some (1, BrowserHistoryDiscard (set_dir f (set_lastdir (b_dir b) u)))
                else if e_type e = TYPE_PLAYLIST \<or> c_strncmp f ''http:'' 5
                then Some (1, set_dir (GetFullPath u (Some e)) (BrowserHistoryStore (b_dir b) u))
                else if f = ''.'' then Some (0, u)
                else if f = ''..'' then map_option (Pair 1) (go_up u)
                else if length (b_dir b) + 1 + length f < 1024 then Some (1, set_dir (b_dir b @ f @ ''/'') u)
                else Some (- 1, u))))"

definition GetParentDir :: "'a ui_scheme \<Rightarrow> string option" where
  "GetParentDir u =
     (if b_dir (br u Files) = [] then None
      else let d = butlast (b_dir (br u Files)) in Some (if CHR ''/'' \<in> set d then before_last CHR ''/'' d else []))"

section \<open>Finding the last folder and file\<close>

definition page_of :: "int \<Rightarrow> int \<Rightarrow> int \<Rightarrow> int" where
  "page_of indexFound pagesize numEntries =
     (let newIndex = indexFound div pagesize * pagesize;
          new1 = (if newIndex + pagesize > numEntries then numEntries - pagesize else newIndex)
      in if new1 < 0 then 0 else new1)"

definition FindDirectory :: "int \<Rightarrow> 'a app_scheme \<Rightarrow> 'a app_scheme option" where
  "FindDirectory pagesize u =
     (let b = br u Files in
      (case find_cell (\<lambda>e. e_file e = Some (b_lastdir b)) (cells u) (b_first b) of None \<Rightarrow> None
       | Some None \<Rightarrow> Some (set_br Files (b\<lparr>b_lastdir := []\<rparr>) u)
       | Some (Some a) \<Rightarrow>
         (case cells u a of None \<Rightarrow> None
          | Some e \<Rightarrow>
            if 0 < e_pos e then
              Some (set_br Files (b\<lparr>b_lastdir := [], b_selIndex := Some a,
                  b_pageIndex := (if pagesize \<le> e_pos e then page_of (e_pos e) pagesize (b_numEntries b) else b_pageIndex b)\<rparr>)
                (u\<lparr>findLoadedFile := 2\<rparr>))
            else Some (set_br Files (b\<lparr>b_lastdir := []\<rparr>) u))))"

definition FindFile :: "int \<Rightarrow> 'a app_scheme \<Rightarrow> 'a app_scheme option" where
  "FindFile pagesize u =
     (let b = br u Files in
      if loadedFile u = [] \<or> (b_dir b = [] \<and> menuCurrent u \<noteq> MENU_BROWSE_ONLINEMEDIA) \<or> menuCurrent u = MENU_OTHER
      then Some (u\<lparr>findLoadedFile := 0\<rparr>)
      else
        (case find_cell (\<lambda>e. GetFullPath u (Some e) = loadedFile u) (cells u) (b_first b) of None \<Rightarrow> None
         | Some None \<Rightarrow> Some (u\<lparr>selectLoadedFile := False\<rparr>)
         | Some (Some a) \<Rightarrow>
           (case cells u a of None \<Rightarrow> None
            | Some e \<Rightarrow>
              if \<not> 0 < e_pos e then Some (u\<lparr>selectLoadedFile := False\<rparr>)
              else
                (case upd_cell a (\<lambda>c. c\<lparr>e_icon := ICON_PLAY\<rparr>) (u\<lparr>foundArt := True\<rparr>) of None \<Rightarrow> None
                 | Some u1 \<Rightarrow>
                   if \<not> selectLoadedFile u1 then Some u1
                   else
                     Some (set_br Files (b\<lparr>b_selIndex := Some a,
                         b_pageIndex := (if pagesize \<le> e_pos e then page_of (e_pos e) pagesize (b_numEntries b) else 0)\<rparr>)
                       (u1\<lparr>findLoadedFile := 2, selectLoadedFile := False\<rparr>))))))"

section \<open>Reading a directory\<close>

text \<open>
  Setting the file name of a new entry by \<open>strdup\<close>; when memory has run out the entry is deleted
  again. The boolean tells whether the name is set.
\<close>

definition name_entry :: "which_list \<Rightarrow> addr \<Rightarrow> string \<Rightarrow> 'a ui_scheme \<Rightarrow> (bool \<times> 'a ui_scheme) option" where
  "name_entry w a s u =
     (case c_strdup s u of
        (None, u1) \<Rightarrow> map_option (\<lambda>r. (False, snd r)) (DeleteEntry w (Some a) u1)
      | (Some t, u1) \<Rightarrow> map_option (Pair True) (upd_cell a (\<lambda>e. e\<lparr>e_file := Some t\<rparr>) u1))"

definition display_entry :: "which_list \<Rightarrow> addr \<Rightarrow> string \<Rightarrow> 'a ui_scheme \<Rightarrow> (bool \<times> 'a ui_scheme) option" where
  "display_entry w a s u =
     (case c_strdup s u of
        (None, u1) \<Rightarrow> map_option (\<lambda>r. (False, snd r)) (DeleteEntry w (Some a) u1)
      | (Some t, u1) \<Rightarrow> map_option (Pair True) (upd_cell a (\<lambda>e. e\<lparr>e_display := Some t\<rparr>) u1))"

text \<open>A new entry with a name; the boolean is false when memory has run out.\<close>

definition add_named :: "which_list \<Rightarrow> string \<Rightarrow> 'a ui_scheme \<Rightarrow> (addr option \<times> 'a ui_scheme) option" where
  "add_named w s u =
     (case AddEntry w u of None \<Rightarrow> None
      | Some (None, u1) \<Rightarrow> Some (None, u1)
      | Some (Some a, u1) \<Rightarrow>
        (case name_entry w a s u1 of None \<Rightarrow> None
         | Some (ok, u2) \<Rightarrow> Some (if ok then Some a else None, u2)))"

definition hidden_name :: "string \<Rightarrow> bool" where
  "hidden_name name = (name = ''..'' \<or> take 1 name = ''.'' \<or> take 1 name = ''$'')"

definition listed_ext :: "menu \<Rightarrow> string \<Rightarrow> bool" where
  "listed_ext m ext = (IsAllowedExt m ext \<or> IsPlaylistExt ext)"

text \<open>The icon of a file; \<open>watched\<close> is whether a restore point exists for the path.\<close>

definition file_icon :: "(string \<Rightarrow> bool) \<Rightarrow> addr \<Rightarrow> 'a app_scheme \<Rightarrow> icon option" where
  "file_icon watched a u =
     (case menuCurrent u of
        MENU_BROWSE_VIDEOS \<Rightarrow> map_option (\<lambda>e. if watched (GetFullPath u (Some e)) then ICON_CHECK else ICON_NONE) (cells u a)
      | MENU_BROWSE_MUSIC \<Rightarrow> map_option (\<lambda>found. if found then ICON_FILE_CHECKED else ICON_FILE) (MusicPlaylistFind (Some a) u)
      | _ \<Rightarrow> Some ICON_NONE)"

text \<open>The part of the loop that adds one name; the boolean is false when memory has run out.\<close>

definition add_dirent :: "(string \<Rightarrow> bool) \<Rightarrow> string \<Rightarrow> bool \<Rightarrow> 'a app_scheme \<Rightarrow> (bool \<times> 'a app_scheme) option" where
  "add_dirent watched name isdir u =
     (case add_named Files name u of None \<Rightarrow> None
      | Some (None, u1) \<Rightarrow> Some (False, u1)
      | Some (Some a, u1) \<Rightarrow>
        if isdir then
          (case upd_cell a (\<lambda>e. e\<lparr>e_length := 0, e_type := TYPE_FOLDER\<rparr>) u1 of None \<Rightarrow> None
           | Some u2 \<Rightarrow>
             (case display_entry Files a (take 254 name) u2 of None \<Rightarrow> None
              | Some (False, u3) \<Rightarrow> Some (False, u3)
              | Some (True, u3) \<Rightarrow> map_option (Pair True) (upd_cell a (\<lambda>e. e\<lparr>e_icon := ICON_FOLDER\<rparr>) u3)))
        else
          (case upd_cell a (\<lambda>e. if IsPlaylistExt (GetExt name) then e\<lparr>e_length := 0, e_type := TYPE_PLAYLIST\<rparr>
                                else e\<lparr>e_length := 0\<rparr>) u1 of None \<Rightarrow> None
           | Some u2 \<Rightarrow>
             (case file_icon watched a u2 of None \<Rightarrow> None
              | Some ic \<Rightarrow> map_option (Pair True) (upd_cell a (\<lambda>e. e\<lparr>e_icon := ic\<rparr>) u2))))"

text \<open>
  The loop over at most twenty new entries. The result is whether \<open>entry\<close> is not NULL behind the
  loop, the number of entries added, and the names left.
\<close>

fun parse_entries :: "(string \<Rightarrow> bool) \<Rightarrow> (nat \<Rightarrow> bool) \<Rightarrow> bool \<Rightarrow> nat \<Rightarrow> dirent list \<Rightarrow> 'a app_scheme
    \<Rightarrow> (bool \<times> nat \<times> dirent list \<times> 'a app_scheme) option" where
  "parse_entries watched halt got i [] u =
     (if 20 \<le> i \<or> halt 0 then Some (got, i, [], u) else Some (False, i, [], u))"
| "parse_entries watched halt got i ((name, isdir) # ds) u =
     (if 20 \<le> i \<or> halt (Suc (length ds)) then Some (got, i, (name, isdir) # ds, u)
      else if hidden_name name then parse_entries watched halt True i ds u
      else
        (case (if \<not> isdir \<and> menuCurrent u = MENU_BROWSE_VIDEOS \<and> IsSubtitleExt (GetExt name)
               then map_option (\<lambda>(r, u1). (r \<noteq> None, u1)) (add_named Subs name u) else Some (True, u))
         of None \<Rightarrow> None
          | Some (False, u1) \<Rightarrow> Some (False, i, ds, u1)
          | Some (True, u1) \<Rightarrow>
            if \<not> isdir \<and> \<not> listed_ext (menuCurrent u1) (GetExt name) then parse_entries watched halt True i ds u1
            else
              (case add_dirent watched name isdir u1 of None \<Rightarrow> None
               | Some (False, u2) \<Rightarrow> Some (False, i, ds, u2)
               | Some (True, u2) \<Rightarrow> parse_entries watched halt True (Suc i) ds u2)))"

definition ParseDirEntries :: "(string \<Rightarrow> bool) \<Rightarrow> int \<Rightarrow> (nat \<Rightarrow> bool) \<Rightarrow> bool \<Rightarrow> 'a app_scheme
    \<Rightarrow> (bool \<times> 'a app_scheme) option" where
  "ParseDirEntries watched pagesize halt halted u =
     (case dirHandle u of None \<Rightarrow> Some (False, u)
      | Some ds \<Rightarrow>
        (case parse_entries watched halt False 0 ds u of None \<Rightarrow> None
         | Some (got, i, ds1, u1) \<Rightarrow>
           (case (if 0 < i then SortBrowser Files FileSortCallback (u1\<lparr>dirHandle := Some ds1\<rparr>) else Some (u1\<lparr>dirHandle := Some ds1\<rparr>))
            of None \<Rightarrow> None
             | Some u2 \<Rightarrow>
               if got \<and> \<not> halted then Some (True, u2)
               else
                 (case (if halted then Some u2
                        else
                          (case (if b_lastdir (br u2 Files) \<noteq> [] then FindDirectory pagesize u2 else Some u2) of None \<Rightarrow> None
                           | Some u3 \<Rightarrow> if findLoadedFile u3 = 1 then FindFile pagesize u3 else Some u3))
                  of None \<Rightarrow> None | Some u4 \<Rightarrow> Some (False, u4\<lparr>dirHandle := None\<rparr>)))))"

text \<open>The parse thread: it reads on until a call says that nothing is left.\<close>

partial_function (option) parse_all :: "(string \<Rightarrow> bool) \<Rightarrow> int \<Rightarrow> 'a app_scheme \<Rightarrow> 'a app_scheme option" where
  "parse_all watched pagesize u =
     (case ParseDirEntries watched pagesize (\<lambda>_. False) False u of None \<Rightarrow> None
      | Some r \<Rightarrow> if fst r then parse_all watched pagesize (snd r) else Some (snd r))"

text \<open>
  Opening the directory. \<open>opendir n d\<close> is the result of the n-th call, on path \<open>d\<close>; \<open>retry n\<close> is the
  user's answer after the n-th failure. The loop ends with the number of calls made.
\<close>

partial_function (option) open_retry :: "(nat \<Rightarrow> string \<Rightarrow> dirent list option) \<Rightarrow> (nat \<Rightarrow> bool) \<Rightarrow> nat \<Rightarrow> string
    \<Rightarrow> (dirent list option \<times> nat) option" where
  "open_retry opendir retry n d =
     (case opendir n d of
        Some ds \<Rightarrow> Some (Some ds, Suc n)
      | None \<Rightarrow> if retry n then open_retry opendir retry (Suc n) d else Some (None, Suc n))"

lemma length_before_last: "c \<in> set s \<Longrightarrow> length (before_last c s) < length s"
proof -
  assume "c \<in> set s"
  then have "c_from c (rev s) \<noteq> []" by (simp add: c_from_def)
  moreover have "length (c_from c (rev s)) \<le> length s"
    unfolding c_from_def by (metis length_dropWhile_le length_rev)
  ultimately show ?thesis by (cases "c_from c (rev s)") (auto simp: before_last_def)
qed

text \<open>Trying the levels above. \<open>None\<close> is a write through the NULL that \<open>strrchr\<close> returned.\<close>

function open_above :: "(nat \<Rightarrow> string \<Rightarrow> dirent list option) \<Rightarrow> nat \<Rightarrow> string \<Rightarrow> (dirent list option \<times> string) option" where
  "open_above opendir n d =
     (if IsDeviceRoot d then Some (None, d)
      else if CHR ''/'' \<notin> set d then None
      else
        (let d1 = before_last CHR ''/'' d in
         if CHR ''/'' \<notin> set d1 then Some (None, d1)
         else
           (let d2 = before_last CHR ''/'' d1 @ ''/'' in
            (case opendir n d2 of Some ds \<Rightarrow> Some (Some ds, d2)
             | None \<Rightarrow> open_above opendir (Suc n) d2))))"
  by pat_completeness auto
termination
proof (relation "measure (\<lambda>(opendir, n, d). length d)", goal_cases)
  case (2 opendir n d d1 d2)
  then have "length (before_last CHR ''/'' d1) < length d1" "length d1 < length d"
    by (simp_all add: length_before_last)
  then show ?case using 2 by simp
qed simp

declare open_above.simps [simp del]

text \<open>\<open>ParseDirectory\<close> without the wait; the parse thread goes on from the state it returns.\<close>

definition ParseDirectory :: "(nat \<Rightarrow> string \<Rightarrow> dirent list option) \<Rightarrow> (nat \<Rightarrow> bool) \<Rightarrow> string \<Rightarrow> (string \<Rightarrow> bool) \<Rightarrow> int
    \<Rightarrow> 'a app_scheme \<Rightarrow> (int \<times> 'a app_scheme) option" where
  "ParseDirectory opendir retry up_text watched pagesize u0 =
     (case ResetFiles u0 of None \<Rightarrow> None
      | Some u \<Rightarrow>
        (case (case dirHandle u of Some ds \<Rightarrow> Some (Some ds, b_dir (br u Files))
               | None \<Rightarrow>
                 (case open_retry opendir retry 0 (b_dir (br u Files)) of None \<Rightarrow> None
                  | Some (Some ds, n) \<Rightarrow> Some (Some ds, b_dir (br u Files))
                  | Some (None, n) \<Rightarrow> open_above opendir n (b_dir (br u Files))))
         of None \<Rightarrow> None
          | Some (None, d) \<Rightarrow> Some (- 1, set_dir d u)
          | Some (Some ds, d) \<Rightarrow>
            (case add_named Files ''..'' (set_dir d u\<lparr>dirHandle := Some ds\<rparr>) of None \<Rightarrow> None
             | Some (None, u1) \<Rightarrow> Some (0, u1)
             | Some (Some a, u1) \<Rightarrow>
               (case display_entry Files a up_text u1 of None \<Rightarrow> None
                | Some (False, u2) \<Rightarrow> Some (0, u2)
                | Some (True, u2) \<Rightarrow>
                  (case upd_cell a (\<lambda>e. e\<lparr>e_length := 0, e_type := TYPE_FOLDER, e_icon := ICON_FOLDER\<rparr>) u2 of None \<Rightarrow> None
                   | Some u3 \<Rightarrow>
                     (case ParseDirEntries watched pagesize (\<lambda>_. False) False (u3\<lparr>findLoadedFile := 1\<rparr>) of None \<Rightarrow> None
                      | Some (_, u4) \<Rightarrow> Some (b_numEntries (br u4 Files), u4)))))))"

section \<open>Searching\<close>

lemma find_cell_spec: "nexts h p xs None \<Longrightarrow> find_cell P h p = Some (find (\<lambda>a. P (the (h a))) xs)"
proof (induction xs arbitrary: p)
  case Nil
  then show ?case by (simp add: find_cell.simps)
next
  case (Cons a xs)
  then show ?case by (auto simp: find_cell.simps [of P h "Some a"])
qed

lemma find_list: "lists_ok u L \<Longrightarrow> find_cell P (cells u) (b_first (br u w)) = Some (find (\<lambda>a. P (the (cells u a))) (L w))"
  by (rule find_cell_spec [OF list_nexts [OF lists_ok_list]])

definition files_of :: "heap \<Rightarrow> addr list \<Rightarrow> string option list" where
  "files_of h xs = map (\<lambda>a. e_file (the (h a))) xs"

lemma FindIndex_spec:
  assumes "lists_ok u L"
  shows "MusicPlaylistFindIndex s u = Some (find (\<lambda>a. e_file (the (cells u a)) = Some s) (L Music))"
  unfolding MusicPlaylistFindIndex_def by (rule find_list [OF assms])

lemma find_Some_iff_mem: "find P xs \<noteq> None \<longleftrightarrow> (\<exists>x \<in> set xs. P x)"
  by (induction xs) auto

lemma MusicFind_spec:
  assumes "lists_ok u L" "cells u a = Some e"
  shows "MusicPlaylistFind (Some a) u = Some (Some (GetFullPath u (Some e)) \<in> set (files_of (cells u) (L Music)))"
proof -
  let ?p = "GetFullPath u (Some e)"
  have "find (\<lambda>b. e_file (the (cells u b)) = Some ?p) (L Music) \<noteq> None \<longleftrightarrow> Some ?p \<in> set (files_of (cells u) (L Music))"
    unfolding find_Some_iff_mem files_of_def by (auto simp: image_iff) metis
  then show ?thesis using assms by (simp add: MusicPlaylistFind_def FindIndex_spec)
qed

end
