(* ===== verification/Browse_Nav.thy ===== *)
theory Browse_Nav
  imports Browse_Dir
begin

text \<open>
  Moving between folders (source/filebrowser.cpp, source/fileop.cpp): entering a folder and leaving
  it again, the page that shows the folder that was left.
\<close>

section \<open>Entering and leaving\<close>

lemma set_dir_simps [simp]:
  "b_dir (br (set_dir d u) Files) = d" "b_lastdir (br (set_dir d u) Files) = b_lastdir (br u Files)"
  "b_dir (br (set_lastdir d u) Files) = b_dir (br u Files)" "b_lastdir (br (set_lastdir d u) Files) = d"
  by (simp_all add: set_dir_def set_lastdir_def set_br_def)

lemma after_last_append: "c \<notin> set f \<Longrightarrow> after_last c (d @ c # f) = Some f"
proof -
  assume "c \<notin> set f"
  then have "takeWhile (\<lambda>x. x \<noteq> c) (rev f @ c # rev d) = rev f"
    by (subst takeWhile_append2) auto
  then show ?thesis by (simp add: after_last_def c_before_def)
qed

text \<open>A folder name as \<open>readdir\<close> gives it, and the directory it is in.\<close>

definition folder_name :: "string \<Rightarrow> bool" where
  "folder_name f = (f \<noteq> [] \<and> CHR ''/'' \<notin> set f \<and> f \<noteq> ''.'' \<and> f \<noteq> ''..'' \<and> \<not> c_strncmp f ''http:'' 5)"

definition directory :: "string \<Rightarrow> bool" where
  "directory d = (d = [] \<or> (5 \<le> length d \<and> last d = CHR ''/''))"

lemma IsDeviceRoot_short: "IsDeviceRoot p \<Longrightarrow> length p \<le> 6"
  by (auto simp: IsDeviceRoot_def)

lemma go_up_entered:
  assumes "folder_name f" "directory d" "b_dir (br u Files) = d @ f @ ''/''"
  shows "\<exists>u'. go_up u = Some u' \<and> b_dir (br u' Files) = d \<and> b_lastdir (br u' Files) = f"
proof (cases "d = []")
  case True
  have "after_last CHR ''/'' f = None" using assms(1) by (simp add: after_last_def folder_name_def)
  then show ?thesis using assms(1,3) True by (simp add: go_up_def Let_def butlast_append)
next
  case False
  then obtain d0 where d: "d = d0 @ ''/''" "5 \<le> length d"
    using assms(2) unfolding directory_def by (metis append_butlast_last_id)
  have nz: "length f \<noteq> 0" using assms(1) by (simp add: folder_name_def)
  have "\<not> IsDeviceRoot (d @ f @ ''/'')"
  proof
    assume r: "IsDeviceRoot (d @ f @ ''/'')"
    have "length (d @ f @ ''/'') = length d + length f + 1" by simp
    then have "7 \<le> length (d @ f @ ''/'')" using d(2) nz by linarith
    then show False using IsDeviceRoot_short [OF r] by linarith
  qed
  moreover have "after_last CHR ''/'' (butlast (d @ f @ ''/'')) = Some f"
    using assms(1) d(1) after_last_append [of "CHR ''/''" f d0] by (simp add: folder_name_def butlast_append)
  moreover have "take (length (d @ f @ ''/'') - 1 - length f) (d @ f @ ''/'') = d" by simp
  ultimately show ?thesis using assms(3) by (simp add: go_up_def Let_def)
qed

text \<open>
  Entering a folder and then choosing \<open>..\<close> leads back: the directory is the old one, and the
  folder that was left is remembered for the selection. It holds from the device list (the empty
  directory) as from any directory, whatever happens to the rest of the state in between.
\<close>

theorem folder_navigation_roundtrip:
  fixes u v :: "'a ui_scheme"
  assumes "b_first (br u Files) \<noteq> None" "b_selIndex (br u Files) = Some a" "b_selIndex (br u Files) \<noteq> b_first (br u Files)"
    "cells u a = Some e" "e_file e = Some f" "e_type e = TYPE_FOLDER" "folder_name f"
    "b_dir (br u Files) = d" "directory d" "length d + 1 + length f < 1024"
    "b_dir (br v Files) = d @ f @ ''/''" "b_first (br v Files) \<noteq> None" "b_selIndex (br v Files) = Some b"
    "cells v b = Some g" "e_file g = Some ''..''" "e_type g = TYPE_FOLDER"
  shows "(\<exists>u'. UpdateDirName u = Some (1, u') \<and> b_dir (br u' Files) = d @ f @ ''/'') \<and>
    (\<exists>v'. UpdateDirName v = Some (1, v') \<and> b_dir (br v' Files) = d \<and> b_lastdir (br v' Files) = f)"
proof (intro conjI)
  obtain c where c: "b_first (br u Files) = Some c" "c \<noteq> a" using assms(1-3) by fastforce
  obtain c' where c': "b_first (br v Files) = Some c'" using assms(12) by blast
  have "UpdateDirName u = Some (1, set_dir (d @ f @ ''/'') u)"
    using assms(2,4-10) c by (simp add: UpdateDirName_def Let_def load_def folder_name_def)
  then show "\<exists>u'. UpdateDirName u = Some (1, u') \<and> b_dir (br u' Files) = d @ f @ ''/''" by simp
  obtain v' where "go_up v = Some v'" "b_dir (br v' Files) = d" "b_lastdir (br v' Files) = f"
    using go_up_entered [OF assms(7,9,11)] by blast
  then show "\<exists>v'. UpdateDirName v = Some (1, v') \<and> b_dir (br v' Files) = d \<and> b_lastdir (br v' Files) = f"
    using assms(13-16) c' by (simp add: UpdateDirName_def Let_def load_def c_strncmp_def)
qed


definition demo_browser :: "string \<Rightarrow> addr \<Rightarrow> ui" where
  "demo_browser dir sel = blank_ui\<lparr>
     cells := [1 \<mapsto> demo_cell ''..'' TYPE_FOLDER 0 None (Some 2), 2 \<mapsto> demo_cell ''Albums'' TYPE_FOLDER 1 (Some 1) None],
     br := (\<lambda>_. blank_browser)(Files := blank_browser\<lparr>b_dir := dir, b_first := Some 1, b_last := Some 2, b_selIndex := Some sel,
       b_numEntries := 2\<rparr>)\<rparr>"

theorem folder_navigation_roundtrip_witness:
  "(\<exists>u'. UpdateDirName (demo_browser ''sd1:/'' 2) = Some (1, u') \<and> b_dir (br u' Files) = ''sd1:/Albums/'') \<and>
   (\<exists>v'. UpdateDirName (demo_browser ''sd1:/Albums/'' 1) = Some (1, v') \<and> b_dir (br v' Files) = ''sd1:/'' \<and>
      b_lastdir (br v' Files) = ''Albums'')"
  using folder_navigation_roundtrip [of "demo_browser ''sd1:/'' 2" 2 "demo_cell ''Albums'' TYPE_FOLDER 1 (Some 1) None"
      "''Albums''" "''sd1:/''" "demo_browser ''sd1:/Albums/'' 1" 1 "demo_cell ''..'' TYPE_FOLDER 0 None (Some 2)"]
  by (simp add: demo_browser_def demo_cell_def folder_name_def directory_def c_strncmp_def)

section \<open>The page of the folder that was left\<close>

lemma page_of_shows:
  assumes "0 < ps" "0 \<le> i" "i < n"
  shows "0 \<le> page_of i ps n \<and> page_of i ps n \<le> i \<and> i < page_of i ps n + ps"
proof -
  define k where "k = i div ps * ps"
  have "k \<le> i" "i < k + ps" "0 \<le> k"
    using assms pos_mod_sign [of ps i] pos_mod_bound [of ps i] div_mult_mod_eq [of i ps] unfolding k_def
    by (linarith, linarith, simp add: pos_imp_zdiv_nonneg_iff)
  then show ?thesis using assms by (auto simp: page_of_def Let_def k_def [symmetric])
qed

text \<open>
  When the list of the parent directory has been read, the folder that was left is selected and
  the page on the screen shows it: with the positions in order and the page at the top, the
  selected position lies between the first row of the page and its last one. The folder is searched
  once only.
\<close>

theorem left_folder_selected:
  fixes u :: "'a app_scheme"
  assumes "lists_ok u L" "numbered (cells u) (L Files)" "b_numEntries (br u Files) = int (length (L Files))"
    "b_pageIndex (br u Files) = 0" "0 < pagesize"
    "i < length (L Files)" "0 < i" "e_file (the (cells u (L Files ! i))) = Some (b_lastdir (br u Files))"
    "\<forall>j < i. e_file (the (cells u (L Files ! j))) \<noteq> Some (b_lastdir (br u Files))"
  shows "\<exists>u'. FindDirectory pagesize u = Some u' \<and> b_selIndex (br u' Files) = Some (L Files ! i) \<and>
     b_lastdir (br u' Files) = [] \<and> findLoadedFile u' = 2 \<and>
     b_pageIndex (br u' Files) \<le> int i \<and> int i < b_pageIndex (br u' Files) + pagesize"
proof -
  let ?P = "\<lambda>a. e_file (the (cells u a)) = Some (b_lastdir (br u Files))"
  have "find ?P (L Files) = Some (L Files ! i)"
    using assms(6,8,9) by (auto simp: find_Some_iff)
  then have f: "find_cell (\<lambda>e. e_file e = Some (b_lastdir (br u Files))) (cells u) (b_first (br u Files)) = Some (Some (L Files ! i))"
    using find_list [OF assms(1), of "\<lambda>e. e_file e = Some (b_lastdir (br u Files))" Files] by simp
  obtain e where e: "cells u (L Files ! i) = Some e" "e_pos e = int i"
    using assms(2,6) by (auto simp: numbered_def)
  have pg: "page_of (int i) pagesize (int (length (L Files))) \<le> int i \<and>
      int i < page_of (int i) pagesize (int (length (L Files))) + pagesize"
    using page_of_shows [OF assms(5), of "int i" "int (length (L Files))"] assms(6) by simp
  show ?thesis using f e assms(3,4,7) pg by (simp add: FindDirectory_def Let_def set_br_def)
qed

text \<open>The parent directory has been read again.\<close>

definition demo_parent :: app where
  "demo_parent = \<lparr>br = (\<lambda>_. blank_browser)(Files := blank_browser\<lparr>b_dir := ''sd1:/'', b_lastdir := ''Albums'',
       b_first := Some 1, b_last := Some 2, b_numEntries := 2\<rparr>),
     cells = [1 \<mapsto> demo_cell ''..'' TYPE_FOLDER 0 None (Some 2), 2 \<mapsto> demo_cell ''Albums'' TYPE_FOLDER 1 (Some 1) None],
     ticks = 0, calloc_at = Some, strdup_at = (\<lambda>_. True), browserHistory = [], sub_list = None,
     menuCurrent = MENU_BROWSE_MUSIC, loadedFile = [], findLoadedFile = 1, selectLoadedFile = False, foundArt = False,
     dirHandle = None\<rparr>"

lemma demo_parent_ok: "lists_ok demo_parent ((\<lambda>_. [])(Files := [1, 2]))"
proof -
  have "dom (cells demo_parent) = (\<Union>w. set (((\<lambda>_. [])(Files := [1, 2])) w))"
    by (auto simp: demo_parent_def split: if_splits)
  moreover have "set (((\<lambda>_. [])(Files := [1, 2])) v) \<inter> set (((\<lambda>_. [])(Files := [1, 2])) w) = ({} :: addr set)"
    if "v \<noteq> w" for v w
    using that by auto
  ultimately show ?thesis
    by (simp add: lists_ok_def demo_parent_def blank_browser_def browser_list_def dlist_def
        BrowserInit_def demo_cell_def next_of_def lastp_def)
qed

theorem left_folder_selected_witness:
  "\<exists>u'. FindDirectory 8 demo_parent = Some u' \<and> b_selIndex (br u' Files) = Some 2 \<and> b_pageIndex (br u' Files) \<le> 1"
  using left_folder_selected [OF demo_parent_ok, of 8 1]
  by (auto simp: demo_parent_def demo_cell_def blank_browser_def BrowserInit_def numbered_def less_Suc_eq)

section \<open>Opening the nearest folder\<close>

text \<open>A directory as the code writes it: the root of a device and the folders on the way, each with a slash.\<close>

definition dir_of :: "string \<Rightarrow> string list \<Rightarrow> string" where
  "dir_of r fs = r @ concat (map (\<lambda>f. f @ ''/'') fs)"

definition device_root :: "string \<Rightarrow> bool" where
  "device_root r = (IsDeviceRoot r \<and> last r = CHR ''/'')"

text \<open>The first folder above that opens, when the calls are numbered from \<open>n\<close> on.\<close>

fun nearest_open :: "(nat \<Rightarrow> string \<Rightarrow> dirent list option) \<Rightarrow> nat \<Rightarrow> string list \<Rightarrow> (dirent list \<times> string) option" where
  "nearest_open opendir n [] = None"
| "nearest_open opendir n (d # ds) =
     (case opendir n d of Some es \<Rightarrow> Some (es, d) | None \<Rightarrow> nearest_open opendir (Suc n) ds)"

lemma before_last_snoc: "CHR ''/'' \<notin> set f \<Longrightarrow> before_last CHR ''/'' (d @ ''/'' @ f) = d"
proof -
  assume "CHR ''/'' \<notin> set f"
  then have "dropWhile (\<lambda>x. x \<noteq> CHR ''/'') (rev f @ CHR ''/'' # rev d) = CHR ''/'' # rev d"
    by (subst dropWhile_append2) auto
  then show ?thesis by (simp add: before_last_def c_from_def)
qed

lemma device_root_length: "device_root r \<Longrightarrow> 5 \<le> length r"
  by (auto simp: device_root_def IsDeviceRoot_def)

lemma dir_of_ends: "device_root r \<Longrightarrow> \<exists>d. dir_of r fs = d @ ''/''"
proof (induction fs rule: rev_induct)
  case Nil
  then have "r \<noteq> []" "last r = CHR ''/''" by (auto simp: device_root_def IsDeviceRoot_def)
  then have "dir_of r [] = butlast r @ ''/''" by (simp add: dir_of_def) (metis append_butlast_last_id)
  then show ?case by blast
qed (simp add: dir_of_def)

text \<open>
  When a directory cannot be opened, the folders above it are tried from the nearest on until one
  opens or the root of the device is reached: the search ends, never writes through NULL, and leaves
  the directory at the nearest folder that opened, or at the root.
\<close>

theorem open_above_nearest:
  assumes "device_root r" "\<forall>f \<in> set fs. f \<noteq> [] \<and> CHR ''/'' \<notin> set f"
  shows "open_above opendir n (dir_of r fs) =
    Some (case nearest_open opendir n (map (\<lambda>k. dir_of r (take k fs)) (rev [0..<length fs])) of
        Some (es, d) \<Rightarrow> (Some es, d) | None \<Rightarrow> (None, r))"
  using assms(2)
proof (induction fs arbitrary: n rule: rev_induct)
  case Nil
  then show ?case using assms(1) by (subst open_above.simps) (simp add: dir_of_def device_root_def)
next
  case (snoc f fs)
  let ?D = "dir_of r fs"
  have d: "dir_of r (fs @ [f]) = ?D @ f @ ''/''" by (simp add: dir_of_def)
  have f: "f \<noteq> []" "CHR ''/'' \<notin> set f" using snoc.prems by simp_all
  obtain D0 where D0: "?D = D0 @ ''/''" using dir_of_ends [OF assms(1)] by blast
  have "5 \<le> length ?D" using device_root_length [OF assms(1)] by (simp add: dir_of_def)
  moreover have "1 \<le> length f" using f(1) by (cases f) auto
  ultimately have "\<not> IsDeviceRoot (?D @ f @ ''/'')" using IsDeviceRoot_short [of "?D @ f @ ''/''"] by auto
  moreover have "before_last CHR ''/'' (?D @ f @ ''/'') = ?D @ f" using before_last_snoc [of "[]" "?D @ f"] by simp
  moreover have "before_last CHR ''/'' (?D @ f) = D0" using before_last_snoc [OF f(2), of D0] D0 by simp
  ultimately have step: "open_above opendir n (?D @ f @ ''/'') =
      (case opendir n ?D of Some es \<Rightarrow> Some (Some es, ?D) | None \<Rightarrow> open_above opendir (Suc n) ?D)"
    by (subst open_above.simps, cases "opendir n ?D") (simp_all add: D0 Let_def)
  have ks: "map (\<lambda>k. dir_of r (take k (fs @ [f]))) (rev [0..<length (fs @ [f])]) =
      ?D # map (\<lambda>k. dir_of r (take k fs)) (rev [0..<length fs])"
    by simp
  show ?case unfolding d step ks using snoc.IH [of "Suc n"] snoc.prems by (cases "opendir n ?D") simp_all
qed

theorem open_above_nearest_witness:
  "open_above (\<lambda>n d. if d = ''sd1:/music/'' then Some [] else None) 2 ''sd1:/music/gone/deep/'' = Some (Some [], ''sd1:/music/'')"
proof -
  have h: "device_root ''sd1:/''" "\<forall>f \<in> set [''music'', ''gone'', ''deep'']. f \<noteq> [] \<and> CHR ''/'' \<notin> set f"
    by (simp_all add: device_root_def IsDeviceRoot_def c_strncmp_def)
  from open_above_nearest [OF h, of "\<lambda>n d. if d = ''sd1:/music/'' then Some [] else None" 2]
  show ?thesis by (simp add: dir_of_def upt_rec)
qed

end
