(* ===== verification/Path_Clean.thy ===== *)
theory Path_Clean
  imports File_Names
begin

text \<open>
  What \<open>CleanupPath\<close> (source/fileop.cpp) guarantees: its results have no backslash and no doubled
  slash, a path that is clean already only gets its trailing slash, and three inputs it does not
  treat as its comment says.
\<close>

section \<open>Clean paths\<close>

abbreviation slash :: char where "slash \<equiv> CHR ''/''"

definition single :: "char \<Rightarrow> char \<Rightarrow> bool" where
  "single c d = (\<not> (c = slash \<and> d = slash))"

definition clean :: "string \<Rightarrow> bool" where
  "clean s = (successively single s \<and> CHR 0x5C \<notin> set s)"

lemma clean_prefix: "clean (s @ t) \<Longrightarrow> clean s"
  by (auto simp: clean_def successively_append_iff)

lemma clean_take: "clean s \<Longrightarrow> clean (take n s)"
  by (metis append_take_drop_id clean_prefix)

lemma clean_snoc_slash: "clean s \<Longrightarrow> s \<noteq> [] \<Longrightarrow> last s \<noteq> slash \<Longrightarrow> clean (s @ [slash])"
  by (auto simp: clean_def successively_append_iff single_def)

lemma unslash_clean [simp]: "unslash c \<noteq> CHR 0x5C" "CHR 0x5C \<noteq> unslash c"
  by (simp_all add: unslash_def)

lemma squeeze_clean: "clean (rev acc) \<Longrightarrow> clean (squeeze acc cs)"
proof (induction acc cs rule: squeeze.induct)
  case (2 acc c cs)
  show ?case
  proof (cases "acc \<noteq> [] \<and> hd acc = slash \<and> unslash c = slash")
    case False
    then have "clean (rev (unslash c # acc))"
      using 2(3) by (cases acc) (auto simp: clean_def successively_append_iff single_def)
    with False 2 show ?thesis by simp
  qed (use 2 in auto)
qed simp

lemma squeeze_id: "clean (rev acc @ cs) \<Longrightarrow> squeeze acc cs = rev acc @ cs"
proof (induction acc cs rule: squeeze.induct)
  case (2 acc c cs)
  have c: "unslash c = c" using 2(3) by (auto simp: clean_def unslash_def)
  have "\<not> (acc \<noteq> [] \<and> hd acc = slash \<and> c = slash)"
    using 2(3) by (cases acc) (auto simp: clean_def successively_append_iff single_def)
  with 2 c show ?case by auto
qed simp

lemma squeeze_nonempty: "acc \<noteq> [] \<or> cs \<noteq> [] \<Longrightarrow> squeeze acc cs \<noteq> []"
  by (induction acc cs rule: squeeze.induct) auto

lemma length_squeeze: "length (squeeze acc cs) \<le> length acc + length cs"
  by (induction acc cs rule: squeeze.induct) auto

lemma set_squeeze: "set (squeeze acc cs) \<subseteq> set acc \<union> unslash ` set cs"
  by (induction acc cs rule: squeeze.induct) auto

section \<open>Pieces\<close>

definition piece :: "string \<Rightarrow> bool" where
  "piece t = (t \<noteq> [] \<and> slash \<notin> set t \<and> CHR 0x5C \<notin> set t)"

lemma tokens_pieces:
  "slash \<notin> set cur \<Longrightarrow> CHR 0x5C \<notin> set cur \<union> set s \<Longrightarrow> t \<in> set (tokens cur s) \<Longrightarrow> piece t"
proof (induction cur s rule: tokens.induct)
  case (2 cur c cs)
  then show ?case by (auto simp: piece_def split: if_splits)
qed (auto simp: piece_def split: if_splits)

lemma piece_clean: "piece t \<Longrightarrow> clean t"
proof -
  assume p: "piece t"
  then have "slash \<notin> set t" by (simp add: piece_def)
  then have "successively single t" by (induction t rule: induct_list012) (auto simp: single_def)
  with p show ?thesis by (simp add: clean_def piece_def)
qed

lemma joined_clean:
  "\<forall>t \<in> set ts. piece t \<Longrightarrow> piece v \<Longrightarrow> clean (concat (map (\<lambda>t. t @ [slash]) ts) @ v) \<and>
     hd (concat (map (\<lambda>t. t @ [slash]) ts) @ v) \<noteq> slash"
proof (induction ts)
  case Nil
  then show ?case using piece_clean [of v] by (cases v) (auto simp: piece_def)
next
  case (Cons t ts)
  let ?r = "concat (map (\<lambda>t. t @ [slash]) ts) @ v"
  have ih: "clean ?r" "hd ?r \<noteq> slash" and t: "piece t" "clean t" using Cons piece_clean by auto
  have "last t \<noteq> slash" "t \<noteq> []" using t by (auto simp: piece_def dest: last_in_set)
  then have "clean (t @ [slash] @ ?r)"
    using ih t(2) by (auto simp: clean_def successively_append_iff successively_Cons single_def)
  moreover have "hd (t @ [slash] @ ?r) \<noteq> slash" using \<open>t \<noteq> []\<close> t(1) by (cases t) (auto simp: piece_def)
  ultimately show ?case by simp
qed

lemma remove_parents_clean:
  assumes "remove_parents s = Some r" "CHR 0x5C \<notin> set s"
  shows "clean r"
proof -
  let ?ts = "tokens [] s"
  have pc: "piece t" if "t \<in> set ?ts" for t using tokens_pieces [of "[]" s t] assms(2) that by simp
  have "\<exists>C K. remove_parents s = (if 20 < length ?ts then None else if C then None else
      Some (?ts ! 0 @ ''/'' @ concat (map (\<lambda>i. ?ts ! i @ ''/'') (filter K [1..<length ?ts - 1])) @ ?ts ! (length ?ts - 1)))"
    unfolding remove_parents_def Let_def by (intro exI, rule refl)
  then obtain K where r: "r = ?ts ! 0 @ ''/'' @ concat (map (\<lambda>i. ?ts ! i @ ''/'') (filter K [1..<length ?ts - 1])) @ ?ts ! (length ?ts - 1)"
    using assms(1) by (auto split: if_splits)
  define keep where "keep = filter K [1..<length ?ts - 1]"
  have keep: "set keep \<subseteq> {1..<length ?ts - 1}" by (auto simp: keep_def)
  have two: "2 \<le> length ?ts"
  proof (rule ccontr)
    assume "\<not> 2 \<le> length ?ts"
    then show False using assms(1) by (simp add: remove_parents_def Let_def split: if_splits)
  qed
  then have kl: "i < length ?ts" if "i \<in> set keep" for i
    using keep that by fastforce
  have "r = concat (map (\<lambda>t. t @ [slash]) (?ts ! 0 # map (\<lambda>i. ?ts ! i) keep)) @ ?ts ! (length ?ts - 1)"
    by (simp add: r keep_def comp_def)
  moreover have "\<forall>t \<in> set (?ts ! 0 # map (\<lambda>i. ?ts ! i) keep). piece t" "piece (?ts ! (length ?ts - 1))"
    using kl two by (auto intro!: pc nth_mem)
  ultimately show ?thesis using joined_clean by metis
qed

section \<open>The buffer\<close>

lemma clean_c_str: "clean s \<Longrightarrow> clean (c_str s)"
  unfolding c_str_def by (metis clean_prefix takeWhile_dropWhile_id)

lemma c_str_NUL [simp]: "c_str (s @ NUL # t) = c_str s"
  by (induction s) (auto simp: c_str_def)

lemma c_str_id [simp]: "NUL \<notin> set s \<Longrightarrow> c_str s = s"
  unfolding c_str_def by (rule takeWhile_eq_all_conv [THEN iffD2]) auto

lemma set_byte_at: "j \<le> length b \<Longrightarrow> \<exists>t. set_byte b j c = take j b @ c # t"
  by (cases "j < length b") (auto simp: set_byte_def upd_conv_take_nth_drop)

lemma cut_at: "j \<le> length b \<Longrightarrow> c_str (set_byte b j NUL) = c_str (take j b)"
  using set_byte_at [of j b NUL] by auto

lemma slash_at: "j \<le> length b \<Longrightarrow> c_str (set_byte (set_byte b j slash) (Suc j) NUL) = c_str (take j b @ [slash])"
proof -
  assume "j \<le> length b"
  then obtain t where t: "set_byte b j slash = take j b @ slash # t" using set_byte_at by blast
  have l: "length (take j b) = j" using \<open>j \<le> length b\<close> by simp
  have "c_str (set_byte (set_byte b j slash) (Suc j) NUL) = c_str (take (Suc j) (take j b @ slash # t))"
    unfolding t using l by (intro cut_at) simp
  also have "take (Suc j) (take j b @ slash # t) = take j b @ [slash]" using l by simp
  finally show ?thesis .
qed

lemma unslash_NUL [simp]: "unslash c = NUL \<longleftrightarrow> c = NUL" "NUL = unslash c \<longleftrightarrow> c = NUL"
  by (auto simp: unslash_def)

text \<open>The last two lines of \<open>CleanupPath\<close>, on the buffer.\<close>

definition finish :: "char list \<Rightarrow> nat \<Rightarrow> string" where
  "finish b j =
     (if GetExt (c_str b) = [] \<and> b ! (j - 1) \<noteq> slash then c_str (set_byte (set_byte b j slash) (Suc j) NUL)
      else c_str (set_byte b j NUL))"

lemma finish_clean:
  assumes "clean s" "j \<noteq> 0" "j \<le> length b" "b = s @ NUL # t \<or> (b = s @ t \<and> j \<le> length s)"
  shows "clean (finish b j)"
proof -
  have tk: "take j b = take j s \<or> (\<exists>r. take j b = s @ NUL # r \<and> length s < j)"
    using assms(4) by (cases "j \<le> length s") (auto simp: take_Cons')
  have "clean (c_str (take j b))"
    using tk clean_c_str clean_take assms(1) by auto
  moreover have "clean (c_str (take j b @ [slash]))" if "b ! (j - 1) \<noteq> slash"
  proof (cases "j \<le> length s")
    case True
    then have "take j b = take j s" using tk by auto
    moreover have ne: "take j s \<noteq> []" using True assms(2) by auto
    moreover have "j - 1 < length s" using True assms(2) by simp
    then have "last (take j s) = b ! (j - 1)"
      using ne True assms(2,4) by (auto simp: last_conv_nth nth_append min_def)
    ultimately show ?thesis
      using that clean_c_str clean_snoc_slash [OF clean_take [OF assms(1)]] by metis
  next
    case False
    have "take j b \<noteq> take j s"
    proof
      assume "take j b = take j s"
      then have "length (take j b) = length (take j s)" by simp
      then show False using False assms(3) by simp
    qed
    then obtain r where "take j b = s @ NUL # r" using tk by blast
    then show ?thesis using clean_c_str [OF assms(1)] by simp
  qed
  ultimately show ?thesis using cut_at [OF assms(3)] slash_at [OF assms(3)] by (simp add: finish_def)
qed

lemma cleanup_device_path_finish:
  assumes "length p \<le> 1024" "p \<noteq> []" "NUL \<notin> set p"
  defines "out \<equiv> squeeze [] p"
  defines "buf \<equiv> out @ drop (length out) (map unslash p) @ [NUL]"
  shows "cleanup_device_path p =
     (if c_strstr (c_str buf) ''../'' = None then finish buf (length out)
      else case remove_parents (c_str buf) of None \<Rightarrow> []
        | Some s \<Rightarrow> finish (overwrite (strtok_bytes buf) (s @ [NUL])) (length out))"
proof -
  have "overwrite (map unslash (take 1024 p) @ drop 1024 p @ [NUL]) out = buf"
    using assms(1) length_squeeze [of "[]" p] by (simp add: overwrite_def buf_def out_def)
  then show ?thesis
    unfolding cleanup_device_path_def Let_def using assms(1)
    by (simp add: out_def finish_def split: option.splits)
qed

text \<open>
  The result of \<open>CleanupPath\<close> on a path of a device has no backslash and no doubled slash. A
  path that is clean and has no \<open>../\<close> is left as it is, but for the slash that is added to one
  without an extension; so cleaning twice is cleaning once there.
\<close>

theorem cleanup_path_clean:
  assumes "FindDevice p \<noteq> None" "\<not> IsAllowedProtocol p" "length p \<le> 1024" "NUL \<notin> set p"
  shows "clean (CleanupPath p) \<and>
    (clean p \<and> c_strstr p ''../'' = None \<longrightarrow>
       CleanupPath p = (if GetExt p = [] \<and> last p \<noteq> slash then p @ [slash] else p))"
proof -
  have ne: "p \<noteq> []" using assms(1) by (auto simp: FindDevice_def)
  define out where "out = squeeze [] p"
  define buf where "buf = out @ drop (length out) (map unslash p) @ [NUL]"
  have cp: "CleanupPath p = (if c_strstr (c_str buf) ''../'' = None then finish buf (length out)
      else case remove_parents (c_str buf) of None \<Rightarrow> []
        | Some s \<Rightarrow> finish (overwrite (strtok_bytes buf) (s @ [NUL])) (length out))"
  proof -
    have "CleanupPath p = cleanup_device_path p" using assms(1,2) ne by (auto simp: CleanupPath_def)
    then show ?thesis using cleanup_device_path_finish [OF assms(3) ne assms(4)] unfolding out_def buf_def by simp
  qed
  have jo: "length out \<noteq> 0" "length out \<le> length p" "clean out"
    using squeeze_nonempty [of "[]" p] ne length_squeeze [of "[]" p] squeeze_clean [of "[]" p]
    by (simp_all add: out_def clean_def)
  have nb: "CHR 0x5C \<notin> set (c_str buf)"
  proof -
    have "set (c_str buf) \<subseteq> set buf" unfolding c_str_def by (auto dest: set_takeWhileD)
    moreover have "CHR 0x5C \<notin> set (map unslash p)" by auto
    then have "CHR 0x5C \<notin> set (drop (length out) (map unslash p))" by (meson in_set_dropD)
    then have "CHR 0x5C \<notin> set buf" using jo(3) by (simp add: buf_def clean_def)
    ultimately show ?thesis by blast
  qed
  have "clean (CleanupPath p)"
  proof (cases "c_strstr (c_str buf) ''../'' = None")
    case True
    have "clean (finish buf (length out))"
      by (rule finish_clean [OF jo(3,1)]) (auto simp: buf_def)
    with True cp show ?thesis by simp
  next
    case False
    show ?thesis
    proof (cases "remove_parents (c_str buf)")
      case (Some s)
      let ?b = "overwrite (strtok_bytes buf) (s @ [NUL])"
      have len: "length (strtok_bytes buf) = length buf"
        unfolding strtok_bytes_def Let_def by (simp add: c_str_def length_takeWhile_le)
      have "length out \<le> length ?b" using len by (auto simp: overwrite_def buf_def)
      then have "clean (finish ?b (length out))"
        by (rule finish_clean [OF remove_parents_clean [OF Some nb] jo(1),
              where t = "drop (length s + 1) (strtok_bytes buf)"])
          (simp add: overwrite_def)
      then show ?thesis unfolding cp using False Some by (simp del: not_None_eq)
    next
      case None
      then show ?thesis unfolding cp using False by (simp add: clean_def del: not_None_eq)
    qed
  qed
  moreover have "CleanupPath p = (if GetExt p = [] \<and> last p \<noteq> slash then p @ [slash] else p)"
    if "clean p" "c_strstr p ''../'' = None"
  proof -
    have out: "out = p" using squeeze_id [of "[]" p] that(1) by (simp add: out_def)
    have buf: "buf = p @ [NUL]" by (simp add: buf_def out)
    have c: "c_str buf = p" using assms(4) by (simp add: buf)
    have "buf ! (length p - 1) = last p" using ne by (simp add: buf nth_append last_conv_nth)
    then show ?thesis
      using that(2) cp cut_at [of "length p" buf] slash_at [of "length p" buf] assms(4) by (simp add: c out finish_def) (simp add: buf)
  qed
  ultimately show ?thesis by blast
qed

theorem cleanup_path_clean_witness:
  "clean (CleanupPath ''sd1:/music/new'') \<and> CleanupPath ''sd1:/music/new'' = ''sd1:/music/new/''"
proof -
  have h: "FindDevice ''sd1:/music/new'' \<noteq> None" "\<not> IsAllowedProtocol ''sd1:/music/new''"
    "length ''sd1:/music/new'' \<le> 1024" "NUL \<notin> set ''sd1:/music/new''"
    by code_simp+
  let ?p = "''sd1:/music/new''"
  have c: "clean ?p \<and> c_strstr ?p ''../'' = None" by code_simp
  have e: "GetExt ?p = [] \<and> last ?p \<noteq> slash" by code_simp
  from cleanup_path_clean [OF h] have "clean (CleanupPath ?p)" by (rule conjunct1)
  moreover from cleanup_path_clean [OF h] c
  have "CleanupPath ?p = (if GetExt ?p = [] \<and> last ?p \<noteq> slash then ?p @ [slash] else ?p)" by (rule conjunct2 [THEN mp])
  then have "CleanupPath ?p = ?p @ [slash]" by (rule trans) (rule if_P [OF e])
  ultimately show ?thesis by simp
qed

text \<open>
  Three paths \<open>CleanupPath\<close> gets wrong. With two groups of \<open>..\<close> one stays in the result. After
  the removal of \<open>../\<close> a folder does not get its trailing slash, because the slash is written behind
  the end of the shortened string. And behind doubled slashes the extension is read together with
  the stale end of the old path, so a music file becomes a folder.
\<close>

theorem cleanup_path_surprises:
  "CleanupPath ''sd1:/a/../b/../c'' = ''sd1:/../c'' \<and>
   CleanupPath ''sd1:/music/../videos/'' = ''sd1:/videos'' \<and>
   CleanupPath ''sd1://music//song.brstm'' = ''sd1:/music/song.brstm/''"
  by (intro conjI; code_simp)

end
