(* ===== verification/Browse_Listing.thy ===== *)
theory Browse_Listing
  imports Browse_Dir
begin

text \<open>
  What the reading of a directory does to the lists: each piece of the parser appends the visible
  names and sorts, and reading on to the end gives the one sorted listing of the directory.
\<close>

section \<open>An allocator that does not run out\<close>

definition roomy :: "'a ui_scheme \<Rightarrow> bool" where
  "roomy u = ((\<forall>n \<ge> ticks u. strdup_at u n \<and> (\<exists>a. calloc_at u n = Some a \<and> cells u a = None)) \<and>
     inj_on (calloc_at u) {ticks u..})"

lemma roomy_tick:
  assumes "roomy u" "ticks u' = Suc (ticks u)" "calloc_at u' = calloc_at u" "strdup_at u' = strdup_at u"
    "\<And>a. Some a \<noteq> calloc_at u (ticks u) \<Longrightarrow> cells u a = None \<Longrightarrow> cells u' a = None"
  shows "roomy u'"
proof -
  have "strdup_at u' n \<and> (\<exists>a. calloc_at u' n = Some a \<and> cells u' a = None)" if n: "n \<ge> ticks u'" for n
  proof -
    have n1: "n \<ge> ticks u" "n \<noteq> ticks u" using n assms(2) by auto
    then obtain a where a: "calloc_at u n = Some a" "cells u a = None" "strdup_at u n"
      using assms(1) unfolding roomy_def by blast
    have "calloc_at u n \<noteq> calloc_at u (ticks u)"
      using assms(1) n1 unfolding roomy_def inj_on_def by (metis atLeast_iff order_refl)
    then show ?thesis using a assms(3,4,5) by metis
  qed
  moreover have "inj_on (calloc_at u') {ticks u'..}"
    using assms(1) unfolding roomy_def assms(2,3) by (auto intro: inj_on_subset)
  ultimately show ?thesis by (simp add: roomy_def)
qed

lemma roomy_upd:
  assumes "roomy u" "cells u a \<noteq> None"
  shows "roomy (u\<lparr>cells := (cells u)(a \<mapsto> x)\<rparr>)"
proof -
  have "\<exists>b. calloc_at u n = Some b \<and> ((cells u)(a \<mapsto> x)) b = None" if "n \<ge> ticks u" for n
    using assms that unfolding roomy_def by (metis fun_upd_other)
  then show ?thesis using assms(1) by (simp add: roomy_def)
qed

section \<open>Changes of single cells\<close>

definition keeps_links :: "(bentry \<Rightarrow> bentry) \<Rightarrow> bool" where
  "keeps_links f = (\<forall>e. e_next (f e) = e_next e \<and> e_prior (f e) = e_prior e)"

lemma upd_cell_Some: "cells u a = Some e \<Longrightarrow> upd_cell a f u = Some (u\<lparr>cells := (cells u)(a \<mapsto> f e)\<rparr>)"
  by (simp add: upd_cell_def upd_def)

lemma dlist_keep:
  assumes "\<And>a. map_option (\<lambda>e. (e_next e, e_prior e)) (h' a) = map_option (\<lambda>e. (e_next e, e_prior e)) (h a)"
  shows "dlist h' xs = dlist h xs"
proof -
  have "(\<exists>e. h' a = Some e \<and> e_prior e = p \<and> e_next e = n) = (\<exists>e. h a = Some e \<and> e_prior e = p \<and> e_next e = n)" for a p n
    using assms [of a] by (cases "h a"; cases "h' a") auto
  then show ?thesis by (simp add: dlist_splits)
qed

lemma upd_cell_ok:
  assumes "lists_ok u L" "cells u a = Some e" "keeps_links f"
  shows "lists_ok (u\<lparr>cells := (cells u)(a \<mapsto> f e)\<rparr>) L"
proof -
  have "dlist ((cells u)(a \<mapsto> f e)) xs = dlist (cells u) xs" for xs
    using assms(2,3) by (intro dlist_keep) (auto simp: keeps_links_def)
  moreover have "dom ((cells u)(a \<mapsto> f e)) = dom (cells u)" using assms(2) by auto
  ultimately show ?thesis using assms(1) by (simp add: lists_ok_def browser_list_def)
qed

section \<open>New entries\<close>

text \<open>What the parser leaves alone.\<close>

definition env :: "'a app_scheme \<Rightarrow> menu \<times> string \<times> string \<times> string \<times> int \<times> bool \<times> dirent list option" where
  "env u = (menuCurrent u, b_dir (br u Files), b_lastdir (br u Files), loadedFile u, findLoadedFile u, selectLoadedFile u,
            dirHandle u)"

text \<open>
  \<open>grown u L u' L' es\<close>: the list of files has got the new entries \<open>es\<close>; the subtitle list may have
  grown; all else is as before.
\<close>

definition grown :: "'a app_scheme \<Rightarrow> (which_list \<Rightarrow> addr list) \<Rightarrow> 'a app_scheme \<Rightarrow> (which_list \<Rightarrow> addr list)
    \<Rightarrow> bentry list \<Rightarrow> bool" where
  "grown u L u' L' es =
     (lists_ok u' L' \<and> roomy u' \<and> env u' = env u \<and>
      contents (cells u') (L' Files) = contents (cells u) (L Files) @ es \<and>
      b_numEntries (br u' Files) = b_numEntries (br u Files) + int (length es) \<and>
      L' Music = L Music \<and> contents (cells u') (L Music) = contents (cells u) (L Music))"

lemma grown_trans: "grown u L u1 L1 es \<Longrightarrow> grown u1 L1 u2 L2 fs \<Longrightarrow> grown u L u2 L2 (es @ fs)"
  by (simp add: grown_def)


definition kept :: "'a ui_scheme \<Rightarrow> 'b ui_scheme \<Rightarrow> bool" where
  "kept u u' = (\<forall>b. cells u b \<noteq> None \<longrightarrow> map_option content (cells u' b) = map_option content (cells u b))"

lemma kept_contents:
  assumes "kept u u'" "lists_ok u L"
  shows "contents (cells u') (L w) = contents (cells u) (L w)"
proof -
  have "content (the (cells u' a)) = content (the (cells u a))" if a: "a \<in> set (L w)" for a
  proof -
    obtain e where e: "cells u a = Some e" using lists_ok_alloc [OF assms(2) a] by auto
    then obtain e' where "cells u' a = Some e'" "content e' = content e" using assms(1) unfolding kept_def by fastforce
    then show ?thesis using e by simp
  qed
  then show ?thesis by (simp add: contents_def)
qed

lemma same_bare_content: "same_bare X h h' \<Longrightarrow> map_option content (h' a) = map_option content (h a)"
  using same_bare_rearranged [of X h h'] by (simp add: rearranged_def)

text \<open>With memory, \<open>add_named\<close> appends one entry that has the name and nothing else.\<close>

definition appended :: "which_list \<Rightarrow> addr list \<Rightarrow> addr \<Rightarrow> heap \<Rightarrow> 'a ui_scheme \<Rightarrow> 'a ui_scheme" where
  "appended w xs a h u = set_br w ((br u w)\<lparr>b_first := headp (xs @ [a]), b_last := Some a,
     b_numEntries := b_numEntries (br u w) + 1\<rparr>) (u\<lparr>ticks := Suc (Suc (ticks u)), cells := h\<rparr>)"

lemma appended_fields [simp]:
  "cells (appended w xs a h u) = h" "ticks (appended w xs a h u) = Suc (Suc (ticks u))"
  "b_numEntries (br (appended w xs a h u) w) = b_numEntries (br u w) + 1" "v \<noteq> w \<Longrightarrow> br (appended w xs a h u) v = br u v"
  "b_dir (br (appended w xs a h u) v) = b_dir (br u v)" "b_lastdir (br (appended w xs a h u) v) = b_lastdir (br u v)"
  "calloc_at (appended w xs a h u) = calloc_at u" "strdup_at (appended w xs a h u) = strdup_at u"
  by (simp_all add: appended_def set_br_def)

lemma add_named_exact:
  assumes "lists_ok u L" "roomy u"
  obtains a h where "add_named w s u = Some (Some a, appended w (L w) a h u)"
    "lists_ok (appended w (L w) a h u) (L(w := L w @ [a]))" "roomy (appended w (L w) a h u)"
    "cells u a = None" "h a = Some ((fresh_entry (L w) (b_numEntries (br u w)))\<lparr>e_file := Some s\<rparr>)"
    "same_bare (insert a (set (L w))) ((cells u)(a := h a)) h"
proof (rule AddEntry_spec [OF assms(1), of w], goal_cases)
  case 1
  obtain b where "calloc_at u (ticks u) = Some b" "cells u b = None" using assms(2) unfolding roomy_def by blast
  then have "fst (the (AddEntry w u)) = Some b"
    using 1 by (auto simp: AddEntry_def Let_def split: option.splits)
  with 1 show ?case by simp
next
  case (2 a h)
  let ?u1 = "set_br w ((br u w)\<lparr>b_first := headp (L w @ [a]), b_last := Some a, b_numEntries := b_numEntries (br u w) + 1\<rparr>)
     (u\<lparr>ticks := Suc (ticks u), cells := h\<rparr>)"
  let ?e = "fresh_entry (L w) (b_numEntries (br u w))"
  let ?f = "\<lambda>e. e\<lparr>e_file := Some s\<rparr>"
  let ?u2 = "(?u1\<lparr>ticks := Suc (Suc (ticks u))\<rparr>)\<lparr>cells := h(a \<mapsto> ?f ?e)\<rparr>"
  have al: "calloc_at u (ticks u) = Some a"
    using 2(2) by (auto simp: AddEntry_def Let_def split: option.splits if_splits)
  have hnone: "h b = None" if "b \<noteq> a" "cells u b = None" for b
    using 2(6) that same_bare_alloc [OF 2(6), of b] by simp
  have r1: "roomy ?u1"
    by (rule roomy_tick [OF assms(2)]) (use al hnone in \<open>auto simp: set_br_def\<close>)
  have r2: "roomy (?u1\<lparr>ticks := Suc (Suc (ticks u))\<rparr>)"
    by (rule roomy_tick [OF r1]) (auto simp: set_br_def)
  have r3: "roomy ?u2"
    using roomy_upd [OF r2, of a "?f ?e"] 2(5) by (simp add: set_br_def)
  have st: "?u2 = appended w (L w) a (h(a \<mapsto> ?f ?e)) u" by (simp add: set_br_def appended_def)
  have "strdup_at ?u1 (Suc (ticks u))" using r1 unfolding roomy_def by (simp add: set_br_def)
  then have run: "add_named w s u = Some (Some a, ?u2)"
    using 2(2,5) by (simp add: add_named_def name_entry_def c_strdup_def upd_cell_def upd_def set_br_def)
  have "lists_ok (?u1\<lparr>ticks := Suc (Suc (ticks u))\<rparr>) (L(w := L w @ [a]))"
    using 2(3) by (simp add: lists_ok_def set_br_def)
  from upd_cell_ok [OF this, of a ?e ?f] 2(5) have ok: "lists_ok ?u2 (L(w := L w @ [a]))"
    by (simp add: keeps_links_def set_br_def)
  have "same_bare (insert a (set (L w))) ((cells u)(a \<mapsto> ?f ?e)) (h(a \<mapsto> ?f ?e))"
    using 2(6) by (simp add: same_bare_def)
  then show ?case
    using run ok r3 2(4) unfolding st by (intro 2(1) [of a "h(a \<mapsto> ?f ?e)"]) simp_all
qed

lemma add_named_spec:
  fixes u :: "'a app_scheme"
  assumes "lists_ok u L" "roomy u"
  obtains a e u' where "add_named w s u = Some (Some a, u')" "lists_ok u' (L(w := L w @ [a]))" "roomy u'" "env u' = env u"
    "kept u u'" "cells u a = None" "cells u' a = Some e" "content e = content (calloc_entry\<lparr>e_file := Some s\<rparr>)"
    "b_numEntries (br u' w) = b_numEntries (br u w) + 1" "\<And>v. v \<noteq> w \<Longrightarrow> br u' v = br u v"
proof (rule add_named_exact [OF assms, of w s], goal_cases)
  case (1 a h)
  have "kept u (appended w (L w) a h u)"
    unfolding kept_def
  proof (intro allI impI)
    fix b assume "cells u b \<noteq> None"
    then have "b \<noteq> a" using 1(5) by auto
    then show "map_option content (cells (appended w (L w) a h u) b) = map_option content (cells u b)"
      using same_bare_content [OF 1(7), of b] by simp
  qed
  moreover have "env (appended w (L w) a h u) = env u" by (simp add: env_def appended_def set_br_def)
  moreover have "content ((fresh_entry (L w) (b_numEntries (br u w)))\<lparr>e_file := Some s\<rparr>) = content (calloc_entry\<lparr>e_file := Some s\<rparr>)"
    by (simp add: fresh_entry_def content_def)
  moreover have "cells (appended w (L w) a h u) a = Some ((fresh_entry (L w) (b_numEntries (br u w)))\<lparr>e_file := Some s\<rparr>)"
    using 1(6) by simp
  ultimately show ?case using 1(2-5) by - (rule 1(1), assumption+, simp_all)
qed

text \<open>
  \<open>adding_to w u L a u' e\<close>: since \<open>u\<close> the cell \<open>a\<close> has been appended to the list \<open>w\<close>; it holds \<open>e\<close>.
\<close>

definition adding_to :: "which_list \<Rightarrow> 'a app_scheme \<Rightarrow> (which_list \<Rightarrow> addr list) \<Rightarrow> addr \<Rightarrow> 'a app_scheme \<Rightarrow> bentry \<Rightarrow> bool" where
  "adding_to w u L a u' e =
     (lists_ok u' (L(w := L w @ [a])) \<and> roomy u' \<and> env u' = env u \<and> kept u u' \<and> cells u a = None \<and>
      cells u' a = Some e \<and> b_numEntries (br u' w) = b_numEntries (br u w) + 1)"

abbreviation adding :: "'a app_scheme \<Rightarrow> (which_list \<Rightarrow> addr list) \<Rightarrow> addr \<Rightarrow> 'a app_scheme \<Rightarrow> bentry \<Rightarrow> bool" where
  "adding \<equiv> adding_to Files"

lemmas adding_def = adding_to_def

lemma adding_upd:
  assumes "adding_to w u L a u' e" "keeps_links f"
  shows "\<exists>u''. upd_cell a f u' = Some u'' \<and> adding_to w u L a u'' (f e)"
proof -
  have e: "cells u' a = Some e" using assms(1) by (simp add: adding_def)
  let ?u = "u'\<lparr>cells := (cells u')(a \<mapsto> f e)\<rparr>"
  have "kept u ?u" using assms(1) by (auto simp: adding_def kept_def)
  moreover have "lists_ok ?u (L(w := L w @ [a]))"
    using upd_cell_ok [OF _ e assms(2)] assms(1) by (simp add: adding_def)
  moreover have "roomy ?u" using roomy_upd [of u' a "f e"] assms(1) by (simp add: adding_def)
  moreover have "env ?u = env u" using assms(1) by (simp add: adding_def env_def)
  ultimately have "adding_to w u L a ?u (f e)" using assms(1) by (simp add: adding_def)
  then show ?thesis using upd_cell_Some [of u' a e f, OF e] by blast
qed

lemma adding_contents:
  assumes "adding_to w u L a u' e" "lists_ok u L"
  shows "contents (cells u') (L w @ [a]) = contents (cells u) (L w) @ [content e]"
    "contents (cells u') (L v) = contents (cells u) (L v)"
proof -
  have k: "kept u u'" using assms(1) by (simp add: adding_def)
  show "contents (cells u') (L w @ [a]) = contents (cells u) (L w) @ [content e]"
    using kept_contents [OF k assms(2), of w] assms(1) by (simp add: contents_def adding_def)
  show "contents (cells u') (L v) = contents (cells u) (L v)" by (rule kept_contents [OF k assms(2)])
qed

lemma adding_display:
  assumes "adding u L a u' e"
  shows "\<exists>u''. display_entry Files a s u' = Some (True, u'') \<and> adding u L a u'' (e\<lparr>e_display := Some s\<rparr>)"
proof -
  let ?u = "u'\<lparr>ticks := Suc (ticks u')\<rparr>"
  have r: "roomy u'" using assms by (simp add: adding_def)
  have "roomy ?u" by (rule roomy_tick [OF r]) auto
  then have "adding u L a ?u e"
    using assms by (simp add: adding_def lists_ok_def env_def kept_def)
  from adding_upd [OF this, of "\<lambda>e. e\<lparr>e_display := Some s\<rparr>"]
  obtain u'' where "upd_cell a (\<lambda>e. e\<lparr>e_display := Some s\<rparr>) ?u = Some u''" "adding u L a u'' (e\<lparr>e_display := Some s\<rparr>)"
    by (auto simp: keeps_links_def)
  moreover have "strdup_at u' (ticks u')" using r unfolding roomy_def by simp
  ultimately show ?thesis by (simp add: display_entry_def c_strdup_def)
qed

lemma adding_grown:
  assumes "adding u L a u' e" "lists_ok u L"
  shows "grown u L u' (L(Files := L Files @ [a])) [content e]"
  using adding_contents [OF assms] assms(1) by (simp add: grown_def adding_def)

text \<open>The entry a listing shows for a name.\<close>

definition full_path :: "string \<Rightarrow> string \<Rightarrow> string" where
  "full_path dir name = (if FindDevice name \<noteq> None then name else dir @ name)"

definition dirent_entry :: "(string \<Rightarrow> bool) \<Rightarrow> menu \<Rightarrow> string \<Rightarrow> string option list \<Rightarrow> dirent \<Rightarrow> bentry" where
  "dirent_entry watched m dir playlist d =
     (case d of (name, isdir) \<Rightarrow>
        calloc_entry\<lparr>e_file := Some name,
          e_type := (if isdir then TYPE_FOLDER else if IsPlaylistExt (GetExt name) then TYPE_PLAYLIST else TYPE_FILE),
          e_display := (if isdir then Some (take 254 name) else None),
          e_icon := (if isdir then ICON_FOLDER else
             case m of
               MENU_BROWSE_VIDEOS \<Rightarrow> if watched (full_path dir name) then ICON_CHECK else ICON_NONE
             | MENU_BROWSE_MUSIC \<Rightarrow> if Some (full_path dir name) \<in> set playlist then ICON_FILE_CHECKED else ICON_FILE
             | _ \<Rightarrow> ICON_NONE)\<rparr>)"

lemma files_of_contents: "files_of h xs = map e_file (contents h xs)"
  by (simp add: files_of_def contents_def content_def)

lemma add_dirent_spec:
  fixes u :: "'a app_scheme"
  assumes "lists_ok u L" "roomy u"
  shows "\<exists>u' L'. add_dirent watched name isdir u = Some (True, u') \<and>
     grown u L u' L' [dirent_entry watched (menuCurrent u) (b_dir (br u Files)) (files_of (cells u) (L Music)) (name, isdir)]"
proof -
  obtain a e u1 where u1: "add_named Files name u = Some (Some a, u1)" "adding u L a u1 e"
    "content e = content (calloc_entry\<lparr>e_file := Some name\<rparr>)"
    using add_named_spec [OF assms, of Files name] unfolding adding_def by (smt (verit, best))
  have c: "content (e\<lparr>e_length := 0, e_type := t, e_display := d, e_icon := i\<rparr>) =
      calloc_entry\<lparr>e_file := Some name, e_type := t, e_display := d, e_icon := i\<rparr>" for t d i
    using u1(3) by (cases e) (simp add: content_def calloc_entry_def)
  show ?thesis
  proof (cases isdir)
    case True
    obtain u2 where u2: "upd_cell a (\<lambda>e. e\<lparr>e_length := 0, e_type := TYPE_FOLDER\<rparr>) u1 = Some u2"
      "adding u L a u2 (e\<lparr>e_length := 0, e_type := TYPE_FOLDER\<rparr>)"
      using adding_upd [OF u1(2), of "\<lambda>e. e\<lparr>e_length := 0, e_type := TYPE_FOLDER\<rparr>"] by (auto simp: keeps_links_def)
    obtain u3 where u3: "display_entry Files a (take 254 name) u2 = Some (True, u3)"
      "adding u L a u3 (e\<lparr>e_length := 0, e_type := TYPE_FOLDER, e_display := Some (take 254 name)\<rparr>)"
      using adding_display [OF u2(2)] by auto
    obtain u4 where u4: "upd_cell a (\<lambda>e. e\<lparr>e_icon := ICON_FOLDER\<rparr>) u3 = Some u4"
      "adding u L a u4 (e\<lparr>e_length := 0, e_type := TYPE_FOLDER, e_display := Some (take 254 name), e_icon := ICON_FOLDER\<rparr>)"
      using adding_upd [OF u3(2), of "\<lambda>e. e\<lparr>e_icon := ICON_FOLDER\<rparr>"] by (auto simp: keeps_links_def)
    have "add_dirent watched name isdir u = Some (True, u4)"
      using u1(1) u2(1) u3(1) u4(1) True by (simp add: add_dirent_def)
    then show ?thesis
      using adding_grown [OF u4(2) assms(1)] True by (auto simp: c dirent_entry_def)
  next
    case False
    define t where "t = (if IsPlaylistExt (GetExt name) then TYPE_PLAYLIST else TYPE_FILE)"
    let ?f = "\<lambda>e. if IsPlaylistExt (GetExt name) then e\<lparr>e_length := 0, e_type := TYPE_PLAYLIST\<rparr> else e\<lparr>e_length := 0\<rparr>"
    have fe: "?f e = e\<lparr>e_length := 0, e_type := t, e_display := None\<rparr>"
      using u1(3) by (cases e) (simp add: t_def content_def calloc_entry_def)
    have kl: "keeps_links ?f" by (simp add: keeps_links_def)
    obtain u2 where u2: "upd_cell a ?f u1 = Some u2" "adding u L a u2 (?f e)"
      using adding_upd [OF u1(2) kl] by blast
    have ok2: "lists_ok u2 (L(Files := L Files @ [a]))" and ce: "cells u2 a = Some (?f e)" and k: "kept u u2"
      and env: "env u2 = env u"
      using u2(2) by (simp_all add: adding_def)
    have nm: "e_file (?f e) = Some name" using u1(3) by (cases e) (simp add: content_def calloc_entry_def)
    have path: "GetFullPath u2 (Some (?f e)) = full_path (b_dir (br u Files)) name"
      using env unfolding GetFullPath_def full_path_def by (simp add: nm printed_def env_def)
    have music: "files_of (cells u2) (L Music) = files_of (cells u) (L Music)"
      unfolding files_of_contents using kept_contents [OF k assms(1)] by simp
    define ic where "ic = (case menuCurrent u of
               MENU_BROWSE_VIDEOS \<Rightarrow> if watched (full_path (b_dir (br u Files)) name) then ICON_CHECK else ICON_NONE
             | MENU_BROWSE_MUSIC \<Rightarrow> if Some (full_path (b_dir (br u Files)) name) \<in> set (files_of (cells u) (L Music))
                 then ICON_FILE_CHECKED else ICON_FILE
             | _ \<Rightarrow> ICON_NONE)"
    have "file_icon watched a u2 = Some ic"
      using MusicFind_spec [OF ok2 ce] env path music ce
      by (cases "menuCurrent u") (auto simp: file_icon_def ic_def env_def)
    moreover obtain u3 where u3: "upd_cell a (\<lambda>e. e\<lparr>e_icon := ic\<rparr>) u2 = Some u3" "adding u L a u3 ((?f e)\<lparr>e_icon := ic\<rparr>)"
      using adding_upd [OF u2(2), of "\<lambda>e. e\<lparr>e_icon := ic\<rparr>"] by (auto simp: keeps_links_def)
    ultimately have "add_dirent watched name isdir u = Some (True, u3)"
      using u1(1) u2(1) False by (simp add: add_dirent_def)
    moreover have "content ((?f e)\<lparr>e_icon := ic\<rparr>) =
        dirent_entry watched (menuCurrent u) (b_dir (br u Files)) (files_of (cells u) (L Music)) (name, isdir)"
      unfolding fe using False c [where t = t and d = None and i = ic] by (simp add: dirent_entry_def t_def ic_def)
    ultimately show ?thesis using adding_grown [OF u3(2) assms(1)] by auto
  qed
qed

section \<open>One piece of the parser\<close>

definition shown :: "menu \<Rightarrow> dirent \<Rightarrow> bool" where
  "shown m d = (\<not> hidden_name (fst d) \<and> (snd d \<or> listed_ext m (GetExt (fst d))))"

text \<open>The entries that the names \<open>ds\<close> give, in the state \<open>u\<close>.\<close>

definition new_entries :: "(string \<Rightarrow> bool) \<Rightarrow> 'a app_scheme \<Rightarrow> (which_list \<Rightarrow> addr list) \<Rightarrow> dirent list \<Rightarrow> bentry list" where
  "new_entries watched u L ds =
     map (dirent_entry watched (menuCurrent u) (b_dir (br u Files)) (files_of (cells u) (L Music)))
       (filter (shown (menuCurrent u)) ds)"

lemma new_entries_grown: "grown u L u' L' es \<Longrightarrow> new_entries watched u' L' = new_entries watched u L"
  by (rule ext) (simp add: new_entries_def grown_def env_def files_of_contents)

lemma new_entries_Cons:
  "new_entries watched u L (d # ds) =
     (if shown (menuCurrent u) d
      then [dirent_entry watched (menuCurrent u) (b_dir (br u Files)) (files_of (cells u) (L Music)) d] else [])
     @ new_entries watched u L ds"
  by (simp add: new_entries_def)

lemma new_entries_append: "new_entries watched u L (ds @ es) = new_entries watched u L ds @ new_entries watched u L es"
  by (simp add: new_entries_def)

lemma grown_refl: "lists_ok u L \<Longrightarrow> roomy u \<Longrightarrow> grown u L u L []"
  by (simp add: grown_def)

lemma subs_grown:
  fixes u :: "'a app_scheme"
  assumes "lists_ok u L" "roomy u"
  shows "\<exists>u' L'. (if c then map_option (\<lambda>(r, u1). (r \<noteq> None, u1)) (add_named Subs name u) else Some (True, u)) = Some (True, u')
     \<and> grown u L u' L' []"
proof (cases c)
  case True
  from add_named_spec [OF assms, of Subs name] obtain a u' where u':
    "add_named Subs name u = Some (Some a, u')" "lists_ok u' (L(Subs := L Subs @ [a]))" "roomy u'" "env u' = env u"
    "kept u u'" "br u' Files = br u Files" by (metis which_list.distinct(1))
  have "grown u L u' (L(Subs := L Subs @ [a])) []"
    using u' kept_contents [OF u'(5) assms(1)] by (simp add: grown_def)
  then show ?thesis using u'(1) True by auto
next
  case False
  then show ?thesis using grown_refl [OF assms] by auto
qed

lemma parse_entries_spec:
  fixes u :: "'a app_scheme"
  assumes "lists_ok u L" "roomy u" "20 \<le> i \<longrightarrow> got"
  shows "\<exists>got' pre ds' u' L'. parse_entries watched (\<lambda>_. False) got i ds u =
        Some (got', i + length (new_entries watched u L pre), ds', u') \<and> ds = pre @ ds' \<and>
      grown u L u' L' (new_entries watched u L pre) \<and> (\<not> got' \<longrightarrow> ds' = []) \<and> (got' \<longrightarrow> i < 20 \<longrightarrow> pre \<noteq> [])"
  using assms
proof (induction ds arbitrary: i got u L)
  case Nil
  have n: "new_entries watched u L [] = []" by (simp add: new_entries_def)
  show ?case
  proof (cases "20 \<le> i")
    case True
    then show ?thesis
      using grown_refl [OF Nil(1,2)] by (intro exI [of _ got] exI [of _ "[]"] exI [of _ u] exI [of _ L]) (auto simp: n)
  next
    case False
    then show ?thesis
      using grown_refl [OF Nil(1,2)] by (intro exI [of _ False] exI [of _ "[]"] exI [of _ u] exI [of _ L]) (auto simp: n)
  qed
next
  case (Cons d ds)
  obtain name isdir where d: "d = (name, isdir)" by (cases d)
  have n: "new_entries watched u L [] = []" by (simp add: new_entries_def)
  consider "20 \<le> i" | "i < 20" "hidden_name name" | "i < 20" "\<not> hidden_name name" by linarith
  then show ?case
  proof cases
    case 1
    then show ?thesis
      using grown_refl [OF Cons.prems(1,2)] Cons.prems(3)
      by (intro exI [of _ got] exI [of _ "[]"] exI [of _ "d # ds"] exI [of _ u] exI [of _ L]) (auto simp: n d)
  next
    case 2
    obtain got' pre ds' u' L' where r: "parse_entries watched (\<lambda>_. False) True i ds u =
          Some (got', i + length (new_entries watched u L pre), ds', u')" "ds = pre @ ds'"
        "grown u L u' L' (new_entries watched u L pre)" "\<not> got' \<longrightarrow> ds' = []"
      using Cons.IH [OF Cons.prems(1,2), of i True] by blast
    have "new_entries watched u L (d # pre) = new_entries watched u L pre"
      using 2 by (simp add: new_entries_Cons shown_def d)
    then show ?thesis
      using r 2 d by (intro exI [of _ got'] exI [of _ "d # pre"] exI [of _ ds'] exI [of _ u'] exI [of _ L']) auto
  next
    case 3
    let ?c = "\<not> isdir \<and> menuCurrent u = MENU_BROWSE_VIDEOS \<and> IsSubtitleExt (GetExt name)"
    obtain u1 L1 where u1: "(if ?c then map_option (\<lambda>(r, u1). (r \<noteq> None, u1)) (add_named Subs name u) else Some (True, u)) = Some (True, u1)"
      "grown u L u1 L1 []"
      using subs_grown [OF Cons.prems(1,2)] by blast
    have ok1: "lists_ok u1 L1" "roomy u1" and m1: "menuCurrent u1 = menuCurrent u"
      using u1(2) by (simp_all add: grown_def env_def)
    note ne1 = new_entries_grown [OF u1(2)]
    show ?thesis
    proof (cases "shown (menuCurrent u) d")
      case False
      obtain got' pre ds' u' L' where r: "parse_entries watched (\<lambda>_. False) True i ds u1 =
            Some (got', i + length (new_entries watched u L pre), ds', u')" "ds = pre @ ds'"
          "grown u1 L1 u' L' (new_entries watched u L pre)" "\<not> got' \<longrightarrow> ds' = []"
        using Cons.IH [OF ok1, of i True] unfolding ne1 by blast
      have "new_entries watched u L (d # pre) = new_entries watched u L pre"
        using False by (simp add: new_entries_Cons)
      moreover have "parse_entries watched (\<lambda>_. False) got i (d # ds) u = parse_entries watched (\<lambda>_. False) True i ds u1"
        using False 3 u1(1) m1 by (simp add: d shown_def)
      moreover have "grown u L u' L' (new_entries watched u L pre)"
        using grown_trans [OF u1(2) r(3)] by simp
      ultimately show ?thesis
        using r by (intro exI [of _ got'] exI [of _ "d # pre"] exI [of _ ds'] exI [of _ u'] exI [of _ L']) auto
    next
      case True
      let ?e = "dirent_entry watched (menuCurrent u) (b_dir (br u Files)) (files_of (cells u) (L Music)) d"
      have same: "dirent_entry watched (menuCurrent u1) (b_dir (br u1 Files)) (files_of (cells u1) (L1 Music)) d = ?e"
        using u1(2) by (simp add: grown_def env_def files_of_contents)
      obtain u2 L2 where u2: "add_dirent watched name isdir u1 = Some (True, u2)" "grown u1 L1 u2 L2 [?e]"
        using add_dirent_spec [OF ok1, of watched name isdir] same by (metis d)
      have g2: "grown u L u2 L2 [?e]" using grown_trans [OF u1(2) u2(2)] by simp
      then have ok2: "lists_ok u2 L2" "roomy u2" by (simp_all add: grown_def)
      obtain got' pre ds' u' L' where r: "parse_entries watched (\<lambda>_. False) True (Suc i) ds u2 =
            Some (got', Suc i + length (new_entries watched u L pre), ds', u')" "ds = pre @ ds'"
          "grown u2 L2 u' L' (new_entries watched u L pre)" "\<not> got' \<longrightarrow> ds' = []"
        using Cons.IH [OF ok2, of "Suc i" True] unfolding new_entries_grown [OF g2] by blast
      have "new_entries watched u L (d # pre) = ?e # new_entries watched u L pre"
        using True by (simp add: new_entries_Cons)
      moreover have "parse_entries watched (\<lambda>_. False) got i (d # ds) u = parse_entries watched (\<lambda>_. False) True (Suc i) ds u2"
        using True 3 u1(1) u2(1) m1 by (simp add: d shown_def) blast
      moreover have "grown u L u' L' (?e # new_entries watched u L pre)"
        using grown_trans [OF g2 r(3)] by simp
      ultimately show ?thesis
        using r by (intro exI [of _ got'] exI [of _ "d # pre"] exI [of _ ds'] exI [of _ u'] exI [of _ L']) auto
    qed
  qed
qed

section \<open>The whole directory\<close>

text \<open>Sorting a sorted part together with new entries is sorting everything.\<close>

lemma stable_sorted_extend:
  assumes "stable_sorted le X S" "stable_sorted le (S @ es) T"
  shows "stable_sorted le (X @ es) T"
  using assms by (simp add: stable_sorted_def)

text \<open>The state of a listing: \<open>X\<close> are the entries read so far, in the order of reading.\<close>

definition listing :: "'a app_scheme \<Rightarrow> (which_list \<Rightarrow> addr list) \<Rightarrow> bentry list \<Rightarrow> bool" where
  "listing u L X =
     (lists_ok u L \<and> roomy u \<and> loadedFile u = [] \<and> stable_sorted file_le X (contents (cells u) (L Files)) \<and>
      (\<forall>e \<in> set X. e_file e \<noteq> None) \<and> b_numEntries (br u Files) = int (length X))"

lemma listing_length: "listing u L X \<Longrightarrow> length (L Files) = length X"
  unfolding listing_def stable_sorted_def contents_def by (metis length_map size_mset)

lemma listing_named:
  assumes "listing u L X" "a \<in> set (L Files)"
  shows "e_file (the (cells u a)) \<noteq> None"
proof -
  have "set (contents (cells u) (L Files)) = set X"
    using assms(1) unfolding listing_def stable_sorted_def by (metis set_mset_mset)
  then have "content (the (cells u a)) \<in> set X" using assms(2) by (auto simp: contents_def)
  then show ?thesis using assms(1) by (auto simp: listing_def content_def)
qed

lemma new_entries_named: "e \<in> set (new_entries watched u L ds) \<Longrightarrow> e_file e \<noteq> None"
  by (auto simp: new_entries_def dirent_entry_def split: prod.splits)

lemma contents_grown:
  assumes "grown u L u' L' es" "listing u L X"
  shows "stable_sorted file_le (X @ es) (merge_sort file_le (contents (cells u') (L' Files)))"
proof -
  have c: "contents (cells u') (L' Files) = contents (cells u) (L Files) @ es" using assms(1) by (simp add: grown_def)
  have "stable_sorted file_le X (contents (cells u) (L Files))" using assms(2) by (simp add: listing_def)
  then show ?thesis unfolding c by (rule stable_sorted_extend) (rule listing.merge_sort_stable)
qed

text \<open>The search for the last folder moves the selection only.\<close>

lemma FindDirectory_keeps:
  assumes "lists_ok u L"
  shows "\<exists>u'. FindDirectory ps u = Some u' \<and> lists_ok u' L \<and> cells u' = cells u \<and> ticks u' = ticks u \<and>
     calloc_at u' = calloc_at u \<and> strdup_at u' = strdup_at u \<and> loadedFile u' = loadedFile u \<and>
     menuCurrent u' = menuCurrent u \<and> dirHandle u' = dirHandle u \<and>
     b_numEntries (br u' Files) = b_numEntries (br u Files) \<and> b_dir (br u' Files) = b_dir (br u Files)"
proof -
  let ?f = "find (\<lambda>a. e_file (the (cells u a)) = Some (b_lastdir (br u Files))) (L Files)"
  have f: "find_cell (\<lambda>e. e_file e = Some (b_lastdir (br u Files))) (cells u) (b_first (br u Files)) = Some ?f"
    by (rule find_list [OF assms])
  have bl: "browser_list (cells u) (((br u)(Files := b)) w) (L w)"
    if "b_first b = b_first (br u Files)" "b_last b = b_last (br u Files)" for b w
    using lists_ok_list [OF assms, of w] that by (cases "w = Files") (auto simp: browser_list_def)
  show ?thesis
  proof (cases ?f)
    case None
    then show ?thesis using f assms bl
      by (simp add: FindDirectory_def Let_def set_br_def lists_ok_def)
  next
    case (Some a)
    then have "a \<in> set (L Files)" by (auto simp: find_Some_iff)
    then obtain e where e: "cells u a = Some e" using lists_ok_alloc [OF assms] by blast
    then show ?thesis using Some f assms bl
      by (simp add: FindDirectory_def Let_def set_br_def lists_ok_def)
  qed
qed

lemma sort_step_full:
  fixes u :: "'a app_scheme"
  assumes "lists_ok u L" "roomy u" "\<forall>a \<in> set (L Files). e_file (the (cells u a)) \<noteq> None" "length (L Files) \<le> 2 ^ 31"
  shows "\<exists>u' L'. SortBrowser Files FileSortCallback u = Some u' \<and> lists_ok u' L' \<and> roomy u' \<and>
     contents (cells u') (L' Files) = merge_sort file_le (contents (cells u) (L Files)) \<and>
     env u' = env u \<and> L' Music = L Music \<and> contents (cells u') (L Music) = contents (cells u) (L Music) \<and>
     b_numEntries (br u' Files) = b_numEntries (br u Files) \<and>
     (\<forall>w. w \<noteq> Files \<longrightarrow> L' w = L w) \<and> (\<forall>xs. contents (cells u') xs = contents (cells u) xs)"
proof -
  let ?ys = "merge_sort (before FileSortCallback (cells u)) (L Files)"
  obtain u' where u': "SortBrowser Files FileSortCallback u = Some u'" "lists_ok u' (L(Files := ?ys))"
    "rearranged (set (L Files)) (cells u) (cells u')"
    "u' = set_br Files ((br u Files)\<lparr>b_first := headp ?ys, b_last := lastp ?ys\<rparr>) (u\<lparr>cells := cells u'\<rparr>)"
    using SortBrowser_spec [OF assms(1) FileSort_link_free assms(4)] by metis
  have al: "calloc_at u' = calloc_at u" "strdup_at u' = strdup_at u" "ticks u' = ticks u" "env u' = env u"
    "b_numEntries (br u' Files) = b_numEntries (br u Files)"
    by (subst u'(4), simp add: set_br_def env_def)+
  have "(cells u' a = None) = (cells u a = None)" for a
    using rearranged_alloc [OF u'(3)] by (metis domIff)
  then have "roomy u'" using assms(2) al by (simp add: roomy_def)
  moreover have "contents (cells u) ?ys = merge_sort file_le (contents (cells u) (L Files))"
    by (rule sorted_contents(1) [OF listing.total_preorder_axioms])
      (use assms(3) in \<open>auto simp: sorted_wrt_iff_nth_less FileSort_named\<close>)
  ultimately show ?thesis
    using u' al rearranged_contents [OF u'(3)] by (intro exI [of _ u'] exI [of _ "L(Files := ?ys)"]) simp
qed

lemma sort_step:
  fixes u :: "'a app_scheme"
  assumes "lists_ok u L" "roomy u" "\<forall>a \<in> set (L Files). e_file (the (cells u a)) \<noteq> None" "length (L Files) \<le> 2 ^ 31"
  shows "\<exists>u' L'. SortBrowser Files FileSortCallback u = Some u' \<and> lists_ok u' L' \<and> roomy u' \<and>
     contents (cells u') (L' Files) = merge_sort file_le (contents (cells u) (L Files)) \<and>
     env u' = env u \<and> L' Music = L Music \<and> contents (cells u') (L Music) = contents (cells u) (L Music) \<and>
     b_numEntries (br u' Files) = b_numEntries (br u Files)"
  using sort_step_full [OF assms] by blast

lemma FindFile_nothing: "loadedFile u = [] \<Longrightarrow> FindFile ps u = Some (u\<lparr>findLoadedFile := 0\<rparr>)"
  by (simp add: FindFile_def Let_def)

lemma listing_update:
  assumes "listing u L X" "lists_ok u' L" "cells u' = cells u" "ticks u' = ticks u" "calloc_at u' = calloc_at u"
    "strdup_at u' = strdup_at u" "loadedFile u' = loadedFile u" "b_numEntries (br u' Files) = b_numEntries (br u Files)"
  shows "listing u' L X"
  using assms by (simp add: listing_def roomy_def)

lemma new_entries_update:
  assumes "cells u' = cells u" "menuCurrent u' = menuCurrent u" "b_dir (br u' Files) = b_dir (br u Files)"
  shows "new_entries watched u' L = new_entries watched u L"
  using assms by (intro ext) (simp add: new_entries_def)

text \<open>The end of a directory: looking for the last folder, then for the loaded file.\<close>

lemma close_step:
  fixes u :: "'a app_scheme"
  assumes "listing u L X"
  shows "\<exists>u'. (case (if b_lastdir (br u Files) \<noteq> [] then FindDirectory ps u else Some u) of None \<Rightarrow> None
       | Some u3 \<Rightarrow> if findLoadedFile u3 = 1 then FindFile ps u3 else Some u3) = Some u' \<and>
     listing u' L X \<and> new_entries watched u' L = new_entries watched u L"
proof -
  have ok: "lists_ok u L" and lf: "loadedFile u = []" using assms by (simp_all add: listing_def)
  obtain u3 where u3: "(if b_lastdir (br u Files) \<noteq> [] then FindDirectory ps u else Some u) = Some u3"
    "listing u3 L X" "new_entries watched u3 L = new_entries watched u L"
  proof (cases "b_lastdir (br u Files) = []")
    case True
    then show ?thesis using assms that by simp
  next
    case False
    obtain v where v: "FindDirectory ps u = Some v" "lists_ok v L" "cells v = cells u" "ticks v = ticks u"
      "calloc_at v = calloc_at u" "strdup_at v = strdup_at u" "loadedFile v = loadedFile u" "menuCurrent v = menuCurrent u"
      "b_numEntries (br v Files) = b_numEntries (br u Files)" "b_dir (br v Files) = b_dir (br u Files)"
      using FindDirectory_keeps [OF ok] by blast
    show ?thesis
      using False v listing_update [OF assms v(2-7,9)] new_entries_update [OF v(3,8,10)] by (intro that [of v]) simp_all
  qed
  show ?thesis
  proof (cases "findLoadedFile u3 = 1")
    case True
    let ?u = "u3\<lparr>findLoadedFile := 0\<rparr>"
    have "loadedFile u3 = []" using u3(2) by (simp add: listing_def)
    moreover have "listing ?u L X"
      by (rule listing_update [OF u3(2)]) (use u3(2) in \<open>auto simp: listing_def lists_ok_def\<close>)
    moreover have "new_entries watched ?u L = new_entries watched u3 L" by (rule new_entries_update) auto
    ultimately show ?thesis using u3 True by (intro exI [of _ ?u]) (simp add: FindFile_nothing)
  qed (use u3 in auto)
qed

lemma listing_no_new: "new_entries watched u L pre = [] \<Longrightarrow> X @ new_entries watched u L pre = X"
  by simp

lemma ParseDirEntries_spec:
  fixes u :: "'a app_scheme"
  assumes "listing u L X" "dirHandle u = Some ds" "length X + length ds \<le> 2 ^ 31"
  shows "\<exists>more u' L' pre ds'. ParseDirEntries watched ps (\<lambda>_. False) False u = Some (more, u') \<and> ds = pre @ ds' \<and>
     listing u' L' (X @ new_entries watched u L pre) \<and> new_entries watched u' L' = new_entries watched u L \<and>
     (more \<longrightarrow> dirHandle u' = Some ds' \<and> pre \<noteq> []) \<and> (\<not> more \<longrightarrow> dirHandle u' = None \<and> ds' = [])"
proof -
  have ok: "lists_ok u L" "roomy u" using assms(1) by (simp_all add: listing_def)
  have zero20: "20 \<le> (0 :: nat) \<longrightarrow> False" by simp
  from parse_entries_spec [OF ok zero20, of watched ds]
  obtain got pre ds' u1 L1 where r0: "parse_entries watched (\<lambda>_. False) False 0 ds u =
        Some (got, 0 + length (new_entries watched u L pre), ds', u1) \<and> ds = pre @ ds' \<and>
      grown u L u1 L1 (new_entries watched u L pre) \<and> (\<not> got \<longrightarrow> ds' = []) \<and> (got \<longrightarrow> 0 < (20 :: nat) \<longrightarrow> pre \<noteq> [])"
    by (elim exE) (rule that)
  then have r: "parse_entries watched (\<lambda>_. False) False 0 ds u = Some (got, length (new_entries watched u L pre), ds', u1)"
      "ds = pre @ ds'" "grown u L u1 L1 (new_entries watched u L pre)" "\<not> got \<longrightarrow> ds' = []" "got \<longrightarrow> pre \<noteq> []"
    by (metis add_0 zero_less_numeral)+
  let ?es = "new_entries watched u L pre"
  let ?u1 = "u1\<lparr>dirHandle := Some ds'\<rparr>"
  have c1: "contents (cells u1) (L1 Files) = contents (cells u) (L Files) @ ?es" using r(3) by (simp add: grown_def)
  have ok1: "lists_ok ?u1 L1" "roomy ?u1" using r(3) by (simp_all add: grown_def lists_ok_def roomy_def)
  have n1: "length (L1 Files) = length X + length ?es"
    using c1 listing_length [OF assms(1)] by (metis contents_def length_append length_map)
  have "length ?es \<le> length pre" by (simp add: new_entries_def)
  then have len: "length (L1 Files) \<le> 2 ^ 31" using n1 assms(3) r(2) by simp
  have "set (contents (cells u1) (L1 Files)) = set X \<union> set ?es"
    using assms(1) unfolding c1 listing_def stable_sorted_def by (metis set_append set_mset_mset)
  then have nm: "\<forall>e \<in> set (contents (cells u1) (L1 Files)). e_file e \<noteq> None"
    using assms(1) new_entries_named by (auto simp: listing_def)
  have nm1: "\<forall>a \<in> set (L1 Files). e_file (the (cells ?u1 a)) \<noteq> None"
  proof
    fix a assume "a \<in> set (L1 Files)"
    then have "content (the (cells u1 a)) \<in> set (contents (cells u1) (L1 Files))" by (simp add: contents_def)
    then show "e_file (the (cells ?u1 a)) \<noteq> None" using nm by (auto simp: content_def)
  qed
  obtain u2 L2 where u2: "(if 0 < length ?es then SortBrowser Files FileSortCallback ?u1 else Some ?u1) = Some u2"
    "lists_ok u2 L2" "roomy u2" "stable_sorted file_le (X @ ?es) (contents (cells u2) (L2 Files))"
    "env u2 = env ?u1" "L2 Music = L1 Music" "contents (cells u2) (L1 Music) = contents (cells u1) (L1 Music)"
    "b_numEntries (br u2 Files) = b_numEntries (br u1 Files)"
  proof (cases "?es = []")
    case True
    then show ?thesis using that [of ?u1 L1] ok1 c1 assms(1) by (simp add: listing_def)
  next
    case False
    from sort_step [OF ok1 nm1 len] obtain v M where v: "SortBrowser Files FileSortCallback ?u1 = Some v" "lists_ok v M" "roomy v"
      "contents (cells v) (M Files) = merge_sort file_le (contents (cells u1) (L1 Files))" "env v = env ?u1" "M Music = L1 Music"
      "contents (cells v) (L1 Music) = contents (cells u1) (L1 Music)" "b_numEntries (br v Files) = b_numEntries (br u1 Files)"
      by auto
    have "stable_sorted file_le (X @ ?es) (contents (cells v) (M Files))"
      unfolding v(4) by (rule contents_grown [OF r(3) assms(1)])
    with v False show ?thesis by (intro that [of v M]) simp_all
  qed
  have l2: "listing u2 L2 (X @ ?es)"
    using u2 r(3) assms(1) new_entries_named by (auto simp: listing_def env_def grown_def)
  have ne: "new_entries watched u2 L2 = new_entries watched u L"
    using u2(5,6,7) new_entries_grown [OF r(3)] by (auto simp: new_entries_def env_def files_of_contents fun_eq_iff)
  have dh: "dirHandle u2 = Some ds'" using u2(5) by (simp add: env_def)
  show ?thesis
  proof (cases got)
    case True
    then have "ParseDirEntries watched ps (\<lambda>_. False) False u = Some (True, u2)"
      using assms(2) r(1) u2(1) by (simp add: ParseDirEntries_def)
    then show ?thesis using l2 ne r(2,5) True dh
      by (intro exI [of _ True] exI [of _ u2] exI [of _ L2] exI [of _ pre] exI [of _ ds']) simp
  next
    case False
    obtain u3 where u3: "(case (if b_lastdir (br u2 Files) \<noteq> [] then FindDirectory ps u2 else Some u2) of None \<Rightarrow> None
       | Some u3 \<Rightarrow> if findLoadedFile u3 = 1 then FindFile ps u3 else Some u3) = Some u3"
      "listing u3 L2 (X @ ?es)" "new_entries watched u3 L2 = new_entries watched u L"
      using close_step [OF l2, of ps watched] unfolding ne by blast
    let ?u = "u3\<lparr>dirHandle := None\<rparr>"
    have "ParseDirEntries watched ps (\<lambda>_. False) False u = Some (False, ?u)"
      using False assms(2) r(1) u2(1) u3(1) by (simp add: ParseDirEntries_def)
    moreover have "listing ?u L2 (X @ ?es)"
      by (rule listing_update [OF u3(2)]) (use u3(2) in \<open>auto simp: listing_def lists_ok_def\<close>)
    moreover have "new_entries watched ?u L2 = new_entries watched u L"
      using new_entries_update [of ?u u3] u3(3) by simp
    ultimately show ?thesis using r(2,4) False
      by (intro exI [of _ False] exI [of _ ?u] exI [of _ L2] exI [of _ pre] exI [of _ ds']) simp
  qed
qed

lemma parse_all_spec:
  fixes u :: "'a app_scheme"
  assumes "listing u L X" "dirHandle u = Some ds" "length X + length ds \<le> 2 ^ 31"
  shows "\<exists>u' L'. parse_all watched ps u = Some u' \<and> listing u' L' (X @ new_entries watched u L ds) \<and> dirHandle u' = None"
  using assms
proof (induction "length ds" arbitrary: u L X ds rule: less_induct)
  case less
  obtain more u1 L1 pre ds' where r: "ParseDirEntries watched ps (\<lambda>_. False) False u = Some (more, u1)" "ds = pre @ ds'"
     "listing u1 L1 (X @ new_entries watched u L pre)" "new_entries watched u1 L1 = new_entries watched u L"
     "more \<longrightarrow> dirHandle u1 = Some ds' \<and> pre \<noteq> []" "\<not> more \<longrightarrow> dirHandle u1 = None \<and> ds' = []"
    using ParseDirEntries_spec [OF less.prems] by blast
  show ?case
  proof (cases more)
    case True
    have "length (new_entries watched u L pre) \<le> length pre" by (simp add: new_entries_def)
    then have "length (X @ new_entries watched u L pre) + length ds' \<le> 2 ^ 31" using less.prems(3) r(2) by simp
    moreover have "length ds' < length ds" "dirHandle u1 = Some ds'" using True r(2,5) by auto
    ultimately obtain u2 L2 where "parse_all watched ps u1 = Some u2"
      "listing u2 L2 ((X @ new_entries watched u L pre) @ new_entries watched u1 L1 ds')" "dirHandle u2 = None"
      using less.hyps [of ds' u1 L1 "X @ new_entries watched u L pre"] r(3) by blast
    then show ?thesis using r(1,2,4) True by (subst parse_all.simps) (auto simp: new_entries_append)
  next
    case False
    then show ?thesis using r by (subst parse_all.simps) auto
  qed
qed

text \<open>
  (C4) Reading an open directory to its end, in the pieces of twenty entries that the parser and its
  thread make of it, each sorted into the list, ends and gives the one stable sorted arrangement of the
  entries that the list had, like the way back that \<open>ParseDirectory\<close> puts there first, and of the names
  of the directory that the current browser shows, each with its type, display name and icon; the
  count is right and the directory is closed. The old entries are in order and have names. The
  hypotheses are that memory lasts, that the reading is not halted, and that no file
  is loaded (which would mark its entry).
\<close>

theorem directory_listing_complete:
  fixes u :: "'a app_scheme"
  assumes "lists_ok u L" "roomy u" "loadedFile u = []" "dirHandle u = Some ds"
    "stable_sorted file_le old (contents (cells u) (L Files))" "\<forall>e \<in> set old. e_file e \<noteq> None"
    "b_numEntries (br u Files) = int (length (L Files))" "length (L Files) + length ds \<le> 2 ^ 31"
  shows "\<exists>u' L'. parse_all watched pagesize u = Some u' \<and> lists_ok u' L' \<and> dirHandle u' = None \<and>
     b_numEntries (br u' Files) = int (length (L' Files)) \<and>
     (\<forall>es. stable_sorted file_le
        (old @ map (dirent_entry watched (menuCurrent u) (b_dir (br u Files)) (files_of (cells u) (L Music)))
          (filter (shown (menuCurrent u)) ds)) es \<longleftrightarrow> es = contents (cells u') (L' Files))"
proof -
  have len: "length old = length (L Files)" using assms(5) unfolding stable_sorted_def contents_def by (metis length_map size_mset)
  have l: "listing u L old" using assms len by (simp add: listing_def)
  have "length old + length ds \<le> 2 ^ 31" using assms(8) len by simp
  from parse_all_spec [OF l assms(4) this] obtain u' L' where
    u': "parse_all watched pagesize u = Some u'" "listing u' L' (old @ new_entries watched u L ds)" "dirHandle u' = None" by blast
  then have "stable_sorted file_le (old @ new_entries watched u L ds) (contents (cells u') (L' Files))" by (simp add: listing_def)
  then have "stable_sorted file_le (old @ new_entries watched u L ds) es \<longleftrightarrow> es = contents (cells u') (L' Files)" for es
    using listing.stable_sorted_unique by blast
  then show ?thesis using u' listing_length [OF u'(2)]
    by (intro exI [of _ u'] exI [of _ L']) (auto simp: listing_def new_entries_def)
qed

text \<open>A music folder with a picture in it.\<close>

definition demo_folder :: app where
  "demo_folder = \<lparr>br = (\<lambda>_. blank_browser)(Files := blank_browser\<lparr>b_dir := ''sd1:/''\<rparr>), cells = Map.empty, ticks = 0,
     calloc_at = Some, strdup_at = (\<lambda>_. True), browserHistory = [], sub_list = None, menuCurrent = MENU_BROWSE_MUSIC,
     loadedFile = [], findLoadedFile = 1, selectLoadedFile = False, foundArt = False,
     dirHandle = Some [(''b.mp3'', False), (''Folder.jpg'', False), (''Albums'', True), (''.Trash'', True), (''a.MP3'', False)]\<rparr>"

lemma demo_folder_ok: "lists_ok demo_folder (\<lambda>_. [])" "roomy demo_folder"
  by (simp_all add: lists_ok_def demo_folder_def browser_list_def dlist_def blank_browser_def BrowserInit_def roomy_def)

text \<open>The same folder where the way back is in the list already.\<close>

definition demo_up :: bentry where
  "demo_up = calloc_entry\<lparr>e_file := Some ''..'', e_display := Some ''Up'', e_type := TYPE_FOLDER, e_icon := ICON_FOLDER\<rparr>"

definition demo_opened_folder :: app where
  "demo_opened_folder = demo_folder\<lparr>
     br := (\<lambda>_. blank_browser)(Files := blank_browser\<lparr>b_dir := ''sd1:/'', b_first := Some 0, b_last := Some 0, b_numEntries := 1\<rparr>),
     cells := [0 \<mapsto> demo_up], ticks := 1\<rparr>"

lemma demo_opened_folder_ok:
  "lists_ok demo_opened_folder ((\<lambda>_. [])(Files := [0]))" "roomy demo_opened_folder"
  "contents (cells demo_opened_folder) [0] = [demo_up]"
  by (auto simp: lists_ok_def demo_opened_folder_def demo_folder_def browser_list_def dlist_def blank_browser_def
      BrowserInit_def roomy_def demo_up_def calloc_entry_def contents_def content_def next_of_def lastp_def)

lemma demo_folder_sorted:
  "map e_file (merge_sort file_le (demo_up # map (dirent_entry (\<lambda>_. False) MENU_BROWSE_MUSIC ''sd1:/'' [])
     (filter (shown MENU_BROWSE_MUSIC) (the (dirHandle demo_folder))))) = [Some ''..'', Some ''Albums'', Some ''a.MP3'', Some ''b.mp3'']"
  by code_simp

theorem directory_listing_complete_witness:
  "\<exists>u' L'. parse_all (\<lambda>_. False) 8 demo_opened_folder = Some u' \<and> dirHandle u' = None \<and>
     map e_file (contents (cells u') (L' Files)) = [Some ''..'', Some ''Albums'', Some ''a.MP3'', Some ''b.mp3'']"
proof -
  let ?X = "[demo_up] @ map (dirent_entry (\<lambda>_. False) MENU_BROWSE_MUSIC ''sd1:/'' [])
     (filter (shown MENU_BROWSE_MUSIC) (the (dirHandle demo_folder)))"
  let ?L = "(\<lambda>_. [])(Files := [0]) :: which_list \<Rightarrow> addr list"
  have fields: "menuCurrent demo_opened_folder = MENU_BROWSE_MUSIC" "b_dir (br demo_opened_folder Files) = ''sd1:/''"
    "files_of (cells demo_opened_folder) (?L Music) = []" "dirHandle demo_opened_folder = Some (the (dirHandle demo_folder))"
    "loadedFile demo_opened_folder = []" "b_numEntries (br demo_opened_folder Files) = int (length (?L Files))"
    "length (?L Files) + length (the (dirHandle demo_folder)) \<le> 2 ^ 31"
    by (simp_all add: demo_opened_folder_def demo_folder_def files_of_def)
  have old: "stable_sorted file_le [demo_up] (contents (cells demo_opened_folder) (?L Files))" "\<forall>e \<in> set [demo_up]. e_file e \<noteq> None"
    using demo_opened_folder_ok(3) by (simp_all add: stable_sorted_def demo_up_def)
  from directory_listing_complete [OF demo_opened_folder_ok(1,2) fields(5,4) old fields(6,7), of "\<lambda>_. False" 8, unfolded fields(1,2,3)]
  obtain u' L' where u': "parse_all (\<lambda>_. False) 8 demo_opened_folder = Some u' \<and> lists_ok u' L' \<and> dirHandle u' = None \<and>
     b_numEntries (br u' Files) = int (length (L' Files)) \<and>
     (\<forall>es. stable_sorted file_le ?X es \<longleftrightarrow> es = contents (cells u') (L' Files))"
    by (elim exE) (rule that)
  have st: "stable_sorted file_le ?X (merge_sort file_le ?X)" by (rule listing.merge_sort_stable)
  from u' have "\<forall>es. stable_sorted file_le ?X es \<longleftrightarrow> es = contents (cells u') (L' Files)" by (elim conjE)
  then have c: "contents (cells u') (L' Files) = merge_sort file_le ?X" using st by (metis (no_types))
  have "map e_file (contents (cells u') (L' Files)) = [Some ''..'', Some ''Albums'', Some ''a.MP3'', Some ''b.mp3'']"
    unfolding c append_Cons append_Nil by (rule demo_folder_sorted)
  then show ?thesis using u' by (intro exI [of _ u'] exI [of _ L']) blast
qed

end
