(* ===== verification/Music_Playlist.thy ===== *)
theory Music_Playlist
  imports Browse_Listing
begin

text \<open>
  The music playlist (source/musicplaylist.cpp): shuffling, loading the playlist into the browser,
  adding songs, playlists and folders, and taking them out again.

  MPlayer's playlist parser is the parameter \<open>parse\<close>: it gives the first file name and the parameters
  of each item, or nothing when the file cannot be read. \<open>opendir again p\<close> is the content of folder
  \<open>p\<close> when it is opened for the first or for the second time.
\<close>

section \<open>State\<close>

record music_player = app +
  hideExtensions :: bool
  shuffleList :: "int list"
  shuffleIndex :: int
  RAND_MAX :: int
  rand_at :: "nat \<Rightarrow> int"
  rands :: nat

definition c_rand :: "'a music_player_scheme \<Rightarrow> int \<times> 'a music_player_scheme" where
  "c_rand u = (rand_at u (rands u), u\<lparr>rands := Suc (rands u)\<rparr>)"

definition c_malloc :: "'a ui_scheme \<Rightarrow> bool \<times> 'a ui_scheme" where
  "c_malloc u = (strdup_at u (ticks u), u\<lparr>ticks := Suc (ticks u)\<rparr>)"

section \<open>Shuffling\<close>

text \<open>Exchange of two elements; \<open>None\<close> outside the array.\<close>

definition exchange :: "int \<Rightarrow> int \<Rightarrow> 'a list \<Rightarrow> 'a list option" where
  "exchange i j t =
     (if 0 \<le> i \<and> i < int (length t) \<and> 0 \<le> j \<and> j < int (length t)
      then Some (t[nat i := t ! nat j, nat j := t ! nat i]) else None)"

function shuffle_swaps :: "int \<Rightarrow> int \<Rightarrow> int list \<Rightarrow> 'a music_player_scheme \<Rightarrow> (int list \<times> 'a music_player_scheme) option" where
  "shuffle_swaps num i t u =
     (if i < num - 1 then
        (case c_rand u of (r, u1) \<Rightarrow>
          (case exchange i (i + r div (RAND_MAX u div (num - i) + 1)) t of None \<Rightarrow> None
           | Some t1 \<Rightarrow> shuffle_swaps num (i + 1) t1 u1))
      else Some (t, u))"
  by pat_completeness auto
termination by (relation "measure (\<lambda>(num, i, t, u). nat (num - 1 - i))") auto

declare shuffle_swaps.simps [simp del]

definition new_shuffle :: "'a music_player_scheme \<Rightarrow> 'a music_player_scheme option" where
  "new_shuffle u0 =
     (let num = b_numEntries (br u0 Music) in
      (case c_malloc u0 of (ok, u) \<Rightarrow>
        if \<not> ok \<and> 0 < num then None
        else
          (case shuffle_swaps num 0 (map int [0..<nat num]) u of None \<Rightarrow> None
           | Some (t, u1) \<Rightarrow> Some (u1\<lparr>shuffleList := t, shuffleIndex := 0\<rparr>))))"

text \<open>Following \<open>next\<close> a number of times; \<open>None\<close> is a step from NULL.\<close>

fun walk_next :: "heap \<Rightarrow> nat \<Rightarrow> addr option \<Rightarrow> addr option option" where
  "walk_next h 0 p = Some p"
| "walk_next h (Suc n) p = (case load h p of None \<Rightarrow> None | Some e \<Rightarrow> walk_next h n (e_next e))"

definition MusicPlaylistGetNextShuffle :: "'a music_player_scheme \<Rightarrow> (addr option \<times> 'a music_player_scheme) option" where
  "MusicPlaylistGetNextShuffle u =
     (case (if shuffleIndex u = - 1 \<or> b_numEntries (br u Music) \<le> shuffleIndex u then new_shuffle u else Some u)
      of None \<Rightarrow> None
       | Some u1 \<Rightarrow>
         if 0 \<le> shuffleIndex u1 \<and> shuffleIndex u1 < int (length (shuffleList u1)) then
           (case walk_next (cells u1) (nat (shuffleList u1 ! nat (shuffleIndex u1))) (b_first (br u1 Music)) of None \<Rightarrow> None
            | Some s \<Rightarrow> Some (s, u1\<lparr>shuffleIndex := shuffleIndex u1 + 1\<rparr>))
         else None)"

section \<open>Loading the playlist into the browser\<close>

partial_function (option) load_songs :: "addr option \<Rightarrow> 'a ui_scheme \<Rightarrow> 'a ui_scheme option" where
  "load_songs i u =
     (case i of None \<Rightarrow> Some u
      | Some a \<Rightarrow>
        (case cells u a of None \<Rightarrow> None
         | Some s \<Rightarrow>
           (case AddEntry Files u of None \<Rightarrow> None
            | Some (None, u1) \<Rightarrow> Some u1
            | Some (Some b, u1) \<Rightarrow>
              (case e_file s of None \<Rightarrow> None
               | Some f \<Rightarrow>
                 (case name_entry Files b f u1 of None \<Rightarrow> None
                  | Some (ok, u2) \<Rightarrow>
                    if \<not> ok then Some u2
                    else
                      (case (case e_display s of None \<Rightarrow> Some (True, u2) | Some d \<Rightarrow> display_entry Files b d u2)
                       of None \<Rightarrow> None
                        | Some (ok, u3) \<Rightarrow>
                          if \<not> ok then Some u3
                          else
                            (case upd_cell b (\<lambda>e. e\<lparr>e_length := 0, e_type := TYPE_FILE, e_icon := ICON_FILE_CHECKED\<rparr>) u3
                             of None \<Rightarrow> None
                              | Some u4 \<Rightarrow>
                                (case cells u4 a of None \<Rightarrow> None | Some s1 \<Rightarrow> load_songs (e_next s1) u4))))))))"

definition MusicPlaylistLoad :: "'a ui_scheme \<Rightarrow> (int \<times> 'a ui_scheme) option" where
  "MusicPlaylistLoad u0 =
     (if b_numEntries (br u0 Music) = 0 then Some (0, u0)
      else
        (case ResetFiles (BrowserHistoryStore (b_dir (br u0 Files)) u0) of None \<Rightarrow> None
         | Some u \<Rightarrow>
           (case add_named Files (BrowserHistoryRetrieve u) u of None \<Rightarrow> None
            | Some (None, u1) \<Rightarrow> Some (0, u1)
            | Some (Some a, u1) \<Rightarrow>
              (case display_entry Files a ''Exit Playlist'' u1 of None \<Rightarrow> None
               | Some (ok, u2) \<Rightarrow>
                 if \<not> ok then Some (0, u2)
                 else
                   (case upd_cell a (\<lambda>e. e\<lparr>e_length := 0, e_icon := ICON_FOLDER,
                        e_type := (if IsPlaylistExt (GetExt (b_dir (br u2 Files))) \<or> c_strncmp (b_dir (br u2 Files)) ''http:'' 5
                                   then TYPE_PLAYLIST else TYPE_FOLDER)\<rparr>) u2 of None \<Rightarrow> None
                    | Some u3 \<Rightarrow>
                      (case load_songs (b_first (br u3 Music)) u3 of None \<Rightarrow> None
                       | Some u4 \<Rightarrow>
                         Some (b_numEntries (br u4 Files),
                           set_br Files ((br u4 Files)\<lparr>b_selIndex := b_first (br u4 Files)\<rparr>) u4)))))))"

section \<open>Adding\<close>

type_synonym pt_item = "string option \<times> (string \<times> string option) list"

text \<open>The part behind the last slash, if there is one.\<close>

definition base_name :: "string \<Rightarrow> string" where
  "base_name p = (case after_last CHR ''/'' p of None \<Rightarrow> p | Some t \<Rightarrow> if t = [] then p else t)"

definition pretty_title :: "(string \<times> string option) list \<Rightarrow> string option" where
  "pretty_title params =
     (case find (\<lambda>p. c_strcasecmp (fst p) ''pt_prettyformat_title'') params of None \<Rightarrow> None | Some p \<Rightarrow> snd p)"

text \<open>
  A new song: its path, and as display name the title, or else the last part of \<open>source\<close>, without
  the extension if the user wants so. The boolean is false when memory has run out.
\<close>

definition add_song :: "string \<Rightarrow> string option \<Rightarrow> string \<Rightarrow> 'a music_player_scheme \<Rightarrow> (bool \<times> 'a music_player_scheme) option" where
  "add_song path title source u =
     (case add_named Music path u of None \<Rightarrow> None
      | Some (None, u1) \<Rightarrow> Some (False, u1)
      | Some (Some a, u1) \<Rightarrow>
        (case title of Some t \<Rightarrow> display_entry Music a t u1
         | None \<Rightarrow>
           (case display_entry Music a (base_name source) u1 of None \<Rightarrow> None
            | Some (ok, u2) \<Rightarrow>
              if ok \<and> hideExtensions u2
              then map_option (Pair True) (upd_cell a (\<lambda>e. e\<lparr>e_display := map_option StripExt (e_display e)\<rparr>) u2)
              else Some (ok, u2))))"

definition playlist_song :: "menu \<Rightarrow> string option \<Rightarrow> string option" where
  "playlist_song m f =
     (case f of None \<Rightarrow> None
      | Some p \<Rightarrow>
        if 1024 \<le> length p \<or> FindDevice p = None \<or> \<not> IsAllowedExt m (GetExt p) \<or> CleanupPath p = [] then None
        else Some (CleanupPath p))"

fun enqueue_items :: "pt_item list \<Rightarrow> 'a music_player_scheme \<Rightarrow> (bool \<times> 'a music_player_scheme) option" where
  "enqueue_items [] u = Some (True, u)"
| "enqueue_items ((f, params) # its) u =
     (case playlist_song (menuCurrent u) f of None \<Rightarrow> enqueue_items its u
      | Some path \<Rightarrow>
        (case MusicPlaylistFindIndex path u of None \<Rightarrow> None
         | Some (Some _) \<Rightarrow> enqueue_items its u
         | Some None \<Rightarrow>
           (case add_song path (pretty_title params) (the f) u of None \<Rightarrow> None
            | Some (ok, u1) \<Rightarrow> if ok then enqueue_items its u1 else Some (False, u1))))"

definition EnqueueFile :: "(string \<Rightarrow> pt_item list option) \<Rightarrow> string \<Rightarrow> 'a music_player_scheme \<Rightarrow> (int \<times> 'a music_player_scheme) option" where
  "EnqueueFile parse path u =
     (case MusicPlaylistFindIndex path u of None \<Rightarrow> None
      | Some (Some _) \<Rightarrow> Some (0, u)
      | Some None \<Rightarrow>
        let ext = GetExt path in
        if \<not> IsAudioExt ext \<and> \<not> IsPlaylistExt ext \<or> ext = ''plx'' then Some (0, u)
        else if IsPlaylistExt ext \<and> parse path = None then Some (0, u)
        else
          (case (if IsPlaylistExt ext then enqueue_items (the (parse path)) u else add_song path None path u)
           of None \<Rightarrow> None
            | Some (ok, u1) \<Rightarrow> if ok then Some (1, u1\<lparr>shuffleIndex := - 1\<rparr>) else Some (- 1, u1)))"

text \<open>The order of a folder's songs: by display name, and only between \<open>start\<close> and \<open>stop\<close>.\<close>

definition MusicSortCallback :: "int \<Rightarrow> int \<Rightarrow> bentry \<Rightarrow> bentry \<Rightarrow> int" where
  "MusicSortCallback start stop f1 f2 =
     (if e_pos f1 < start \<or> stop < e_pos f1 \<or> e_pos f2 < start \<or> stop < e_pos f2 then 0
      else (case (e_display f1, e_display f2) of (Some a, Some b) \<Rightarrow> casediff a b | _ \<Rightarrow> 0))"

text \<open>Names that are skipped in a folder, and the path of the others.\<close>

definition skipped_in :: "string \<Rightarrow> string \<Rightarrow> bool" where
  "skipped_in path name = (take 1 name = ''.'' \<or> 1024 < length path + length name)"

definition path_in :: "string \<Rightarrow> string \<Rightarrow> string" where
  "path_in path name = take 1023 (path @ ''/'' @ name)"

fun enqueue_subdirs :: "(string \<Rightarrow> 'a music_player_scheme \<Rightarrow> (bool \<times> 'a music_player_scheme) option) \<Rightarrow> string \<Rightarrow> dirent list
    \<Rightarrow> 'a music_player_scheme \<Rightarrow> 'a music_player_scheme option" where
  "enqueue_subdirs rec path [] u = Some u"
| "enqueue_subdirs rec path ((name, isdir) # ds) u =
     (if skipped_in path name \<or> \<not> isdir then enqueue_subdirs rec path ds u
      else
        (case rec (path_in path name) u of None \<Rightarrow> None
         | Some (ok, u1) \<Rightarrow> if ok then enqueue_subdirs rec path ds u1 else Some u1))"

fun enqueue_files :: "(string \<Rightarrow> pt_item list option) \<Rightarrow> string \<Rightarrow> dirent list \<Rightarrow> 'a music_player_scheme \<Rightarrow> 'a music_player_scheme option" where
  "enqueue_files parse path [] u = Some u"
| "enqueue_files parse path ((name, isdir) # ds) u =
     (if skipped_in path name \<or> isdir then enqueue_files parse path ds u
      else
        (case EnqueueFile parse (path_in path name) u of None \<Rightarrow> None
         | Some (r, u1) \<Rightarrow> if r < 0 then Some u1 else enqueue_files parse path ds u1))"

definition sort_new_songs :: "int \<Rightarrow> 'a ui_scheme \<Rightarrow> 'a ui_scheme option" where
  "sort_new_songs start u =
     (if 1 < b_numEntries (br u Music) - start
      then SortBrowser Music (MusicSortCallback start (b_numEntries (br u Music) - 1)) u else Some u)"

text \<open>The first argument is the depth of the stack; \<open>None\<close> when it is used up.\<close>

primrec EnqueueFolder :: "nat \<Rightarrow> (bool \<Rightarrow> string \<Rightarrow> dirent list option) \<Rightarrow> (string \<Rightarrow> pt_item list option) \<Rightarrow> string
    \<Rightarrow> 'a music_player_scheme \<Rightarrow> (bool \<times> 'a music_player_scheme) option" where
  "EnqueueFolder 0 opendir parse path u = None"
| "EnqueueFolder (Suc k) opendir parse path u =
     (case opendir False path of None \<Rightarrow> Some (False, u)
      | Some ds \<Rightarrow>
        (case c_malloc u of (ok, u1) \<Rightarrow>
          if \<not> ok then Some (False, u1)
          else
            (case enqueue_subdirs (EnqueueFolder k opendir parse) path ds u1 of None \<Rightarrow> None
             | Some u2 \<Rightarrow>
               (case opendir True path of None \<Rightarrow> None
                | Some fs \<Rightarrow>
                  (case enqueue_files parse path fs u2 of None \<Rightarrow> None
                   | Some u3 \<Rightarrow> map_option (Pair True) (sort_new_songs (b_numEntries (br u2 Music)) u3))))))"

definition MusicPlaylistEnqueue :: "nat \<Rightarrow> (bool \<Rightarrow> string \<Rightarrow> dirent list option) \<Rightarrow> (string \<Rightarrow> pt_item list option) \<Rightarrow> addr
    \<Rightarrow> 'a music_player_scheme \<Rightarrow> (bool \<times> 'a music_player_scheme) option" where
  "MusicPlaylistEnqueue stack opendir parse index u =
     (case cells u index of None \<Rightarrow> None
      | Some e \<Rightarrow>
        let fullpath = GetFullPath u (Some e) in
        (case upd_cell index (\<lambda>c. c\<lparr>e_icon := (if e_type e = TYPE_FOLDER then ICON_FOLDER_CHECKED else ICON_FILE_CHECKED)\<rparr>) u
         of None \<Rightarrow> None
          | Some u1 \<Rightarrow>
            if e_type e = TYPE_FOLDER then EnqueueFolder stack opendir parse fullpath u1
            else map_option (\<lambda>(r, u2). (r = 1, u2)) (EnqueueFile parse fullpath u1)))"

section \<open>Removing\<close>

definition Remove :: "addr \<Rightarrow> 'a music_player_scheme \<Rightarrow> 'a music_player_scheme option" where
  "Remove i u =
     (case cells u i of None \<Rightarrow> None
      | Some e \<Rightarrow>
        let b = br u Music; n = e_next e; p = e_prior e;
            b1 = (if b_first b = Some i then b\<lparr>b_first := n\<rparr> else b);
            b2 = (if b_last b1 = Some i then b1\<lparr>b_last := p\<rparr> else b1);
            b3 = (if b_selIndex b2 = Some i then b2\<lparr>b_selIndex := None\<rparr> else b2);
            b4 = (if 0 < b_numEntries b3 then b3\<lparr>b_numEntries := b_numEntries b3 - 1\<rparr> else b3)
        in
        (case (case n of None \<Rightarrow> Some (cells u) | Some m \<Rightarrow> upd (cells u) m (\<lambda>c. c\<lparr>e_prior := p\<rparr>)) of None \<Rightarrow> None
         | Some h1 \<Rightarrow>
           (case (case p of None \<Rightarrow> Some h1 | Some m \<Rightarrow> upd h1 m (\<lambda>c. c\<lparr>e_next := n\<rparr>)) of None \<Rightarrow> None
            | Some h2 \<Rightarrow> Some (set_br Music b4 (u\<lparr>shuffleIndex := - 1, cells := h2(i := None)\<rparr>)))))"

text \<open>Removing the first song with a given path; \<open>strcmp\<close> reads every name on the way.\<close>

partial_function (option) remove_named :: "string \<Rightarrow> addr option \<Rightarrow> 'a music_player_scheme \<Rightarrow> 'a music_player_scheme option" where
  "remove_named path m u =
     (case m of None \<Rightarrow> Some u
      | Some a \<Rightarrow>
        (case cells u a of None \<Rightarrow> None
         | Some e \<Rightarrow>
           (case e_file e of None \<Rightarrow> None
            | Some f \<Rightarrow> if path = f then Remove a u else remove_named path (e_next e) u)))"

fun dequeue_items :: "pt_item list \<Rightarrow> 'a music_player_scheme \<Rightarrow> 'a music_player_scheme option" where
  "dequeue_items [] u = Some u"
| "dequeue_items ((f, params) # its) u =
     (case playlist_song (menuCurrent u) f of None \<Rightarrow> dequeue_items its u
      | Some path \<Rightarrow>
        (case remove_named path (b_first (br u Music)) u of None \<Rightarrow> None | Some u1 \<Rightarrow> dequeue_items its u1))"

text \<open>Removing every song whose path begins with \<open>path\<close>.\<close>

partial_function (option) remove_below :: "string \<Rightarrow> addr option \<Rightarrow> 'a music_player_scheme \<Rightarrow> 'a music_player_scheme option" where
  "remove_below path m u =
     (case m of None \<Rightarrow> Some u
      | Some a \<Rightarrow>
        (case cells u a of None \<Rightarrow> None
         | Some e \<Rightarrow>
           if (case e_file e of None \<Rightarrow> False | Some f \<Rightarrow> c_strncmp path f (length path))
           then (case Remove a u of None \<Rightarrow> None | Some u1 \<Rightarrow> remove_below path (e_next e) u1)
           else remove_below path (e_next e) u))"

definition MusicPlaylistDequeue :: "(string \<Rightarrow> pt_item list option) \<Rightarrow> addr \<Rightarrow> 'a music_player_scheme \<Rightarrow> 'a music_player_scheme option" where
  "MusicPlaylistDequeue parse index u =
     (case cells u index of None \<Rightarrow> None
      | Some e \<Rightarrow>
        let fullpath = GetFullPath u (Some e) in
        (case upd_cell index (\<lambda>c. c\<lparr>e_icon := (if e_type e = TYPE_FOLDER then ICON_FOLDER else ICON_FILE)\<rparr>) u of None \<Rightarrow> None
         | Some u1 \<Rightarrow>
           if e_type e = TYPE_PLAYLIST
           then (case parse fullpath of None \<Rightarrow> Some u1 | Some its \<Rightarrow> dequeue_items its u1)
           else remove_below fullpath (b_first (br u1 Music)) u1))"

end
