(* ===== verification/Music_Shuffle.thy ===== *)
theory Music_Shuffle
  imports Music_Playlist
begin

text \<open>
  The shuffle of the music playlist: a round of calls plays every song once.
\<close>

section \<open>The list of a round\<close>

text \<open>\<open>rand\<close> as the C standard has it.\<close>

definition rand_ok :: "'a music_player_scheme \<Rightarrow> bool" where
  "rand_ok u = (\<forall>n. 0 \<le> rand_at u n \<and> rand_at u n \<le> RAND_MAX u)"

lemma rand_step:
  fixes r m k :: int
  assumes "0 \<le> r" "r \<le> m" "0 < k"
  shows "0 \<le> r div (m div k + 1)" "r div (m div k + 1) < k"
proof -
  have m: "0 \<le> m" using assms by linarith
  then have "0 \<le> m div k" using assms(3) by (simp add: pos_imp_zdiv_nonneg_iff)
  then have p: "0 < m div k + 1" by linarith
  then show "0 \<le> r div (m div k + 1)" using assms(1) by (simp add: pos_imp_zdiv_nonneg_iff)
  have "m < k * (m div k + 1)" using assms(3) by (metis add.commute mult.commute mult_div_mod_eq
      add_strict_left_mono distrib_left mult.right_neutral pos_mod_bound)
  then have "r < k * (m div k + 1)" using assms(2) by linarith
  moreover have "r div (m div k + 1) * (m div k + 1) \<le> r"
    using pos_mod_sign [OF p, of r] by (simp add: minus_mod_eq_div_mult [symmetric])
  ultimately show "r div (m div k + 1) < k" using mult_right_mono [of k "r div (m div k + 1)" "m div k + 1"] p
    by (metis less_imp_le not_le order_le_less_trans)
qed

lemma exchange_spec:
  assumes "0 \<le> i" "i \<le> j" "j < int (length t)"
  obtains t' where "exchange i j t = Some t'" "mset t' = mset t" "length t' = length t"
proof
  show "exchange i j t = Some (t[nat i := t ! nat j, nat j := t ! nat i])"
    using assms by (simp add: exchange_def)
  have "nat j < length t" "nat i < length t" using assms by auto
  then show "mset (t[nat i := t ! nat j, nat j := t ! nat i]) = mset t" by (rule mset_swap)
qed simp

lemma shuffle_swaps_spec:
  assumes "rand_ok u" "length t = nat num" "0 \<le> i"
  shows "\<exists>t' n. shuffle_swaps num i t u = Some (t', u\<lparr>rands := n\<rparr>) \<and> mset t' = mset t"
  using assms
proof (induction num i t u rule: shuffle_swaps.induct)
  case (1 num i t u)
  show ?case
  proof (cases "i < num - 1")
    case True
    let ?r = "rand_at u (rands u)"
    let ?j = "i + ?r div (RAND_MAX u div (num - i) + 1)"
    have r: "0 \<le> ?r" "?r \<le> RAND_MAX u" using 1(2) by (auto simp: rand_ok_def)
    have j: "i \<le> ?j" "?j < num" using rand_step [OF r, of "num - i"] True by auto
    then obtain t1 where t1: "exchange i ?j t = Some t1" "mset t1 = mset t" "length t1 = length t"
      using exchange_spec [of i ?j t] 1(3,4) by auto
    have ok: "rand_ok (u\<lparr>rands := Suc (rands u)\<rparr>)" using 1(2) by (simp add: rand_ok_def)
    have c: "(?r, u\<lparr>rands := Suc (rands u)\<rparr>) = c_rand u" by (simp add: c_rand_def)
    from 1(1) [OF True c t1(1) ok] t1 1(3,4)
    show ?thesis using True t1 by (subst shuffle_swaps.simps) (auto simp: c_rand_def)
  next
    case False
    then show ?thesis by (subst shuffle_swaps.simps) (intro exI [of _ t] exI [of _ "rands u"], simp)
  qed
qed

section \<open>Walking the list\<close>

lemma walk_next_spec: "nexts h p xs None \<Longrightarrow> n < length xs \<Longrightarrow> walk_next h n p = Some (Some (xs ! n))"
proof (induction xs arbitrary: n p)
  case (Cons a xs)
  then show ?case by (cases n) (auto simp: load_def)
qed simp

text \<open>
  The state of the shuffle between calls: either the next call begins a round, or the list is an
  arrangement of all positions and part of it is played.
\<close>

definition shuffle_ok :: "'a music_player_scheme \<Rightarrow> bool" where
  "shuffle_ok u =
     (shuffleIndex u = - 1 \<or> b_numEntries (br u Music) \<le> shuffleIndex u \<or>
      0 \<le> shuffleIndex u \<and> mset (shuffleList u) = mset (map int [0..<nat (b_numEntries (br u Music))]))"

definition plays :: "'a music_player_scheme \<Rightarrow> (which_list \<Rightarrow> addr list) \<Rightarrow> bool" where
  "plays u L = (lists_ok u L \<and> L Music \<noteq> [] \<and> b_numEntries (br u Music) = int (length (L Music)) \<and> rand_ok u \<and>
     (\<forall>n. strdup_at u n))"

fun shuffle_run :: "nat \<Rightarrow> 'a music_player_scheme \<Rightarrow> (addr option list \<times> 'a music_player_scheme) option" where
  "shuffle_run 0 u = Some ([], u)"
| "shuffle_run (Suc n) u =
     (case MusicPlaylistGetNextShuffle u of None \<Rightarrow> None
      | Some (s, u1) \<Rightarrow> map_option (\<lambda>(ss, v). (s # ss, v)) (shuffle_run n u1))"

lemma lists_ok_cong: "br u' = br u \<Longrightarrow> cells u' = cells u \<Longrightarrow> lists_ok u' L = lists_ok u L"
  by (simp add: lists_ok_def)

lemma new_shuffle_spec:
  assumes "plays u L"
  obtains t n where "new_shuffle u = Some (u\<lparr>ticks := Suc (ticks u), rands := n, shuffleList := t, shuffleIndex := 0\<rparr>)"
    "mset t = mset (map int [0..<length (L Music)])"
proof -
  have "rand_ok (u\<lparr>ticks := Suc (ticks u)\<rparr>)" "length (map int [0..<length (L Music)]) = nat (int (length (L Music)))"
    using assms by (simp_all add: plays_def rand_ok_def)
  from shuffle_swaps_spec [OF this, of 0] obtain t n where
    "shuffle_swaps (int (length (L Music))) 0 (map int [0..<length (L Music)]) (u\<lparr>ticks := Suc (ticks u)\<rparr>) =
       Some (t, u\<lparr>ticks := Suc (ticks u), rands := n\<rparr>)" "mset t = mset (map int [0..<length (L Music)])"
    by auto
  with assms show thesis
    by (intro that [where n = n and t = t]) (simp_all add: new_shuffle_def plays_def c_malloc_def)
qed

text \<open>One call inside a round.\<close>

definition in_round :: "'a music_player_scheme \<Rightarrow> (which_list \<Rightarrow> addr list) \<Rightarrow> bool" where
  "in_round u L = (plays u L \<and> 0 \<le> shuffleIndex u \<and> mset (shuffleList u) = mset (map int [0..<length (L Music)]))"

lemma in_round_list:
  assumes "in_round u L"
  shows "length (shuffleList u) = length (L Music)" "x \<in> set (shuffleList u) \<Longrightarrow> 0 \<le> x \<and> nat x < length (L Music)"
proof -
  have m: "mset (shuffleList u) = mset (map int [0..<length (L Music)])" using assms by (simp add: in_round_def)
  from mset_eq_length [OF m] show "length (shuffleList u) = length (L Music)" by simp
  from mset_eq_setD [OF m] show "x \<in> set (shuffleList u) \<Longrightarrow> 0 \<le> x \<and> nat x < length (L Music)" by auto
qed

definition song_at :: "(which_list \<Rightarrow> addr list) \<Rightarrow> int \<Rightarrow> addr option" where
  "song_at L x = Some (L Music ! nat x)"

lemma shuffle_inside:
  assumes "in_round u L" "shuffleIndex u < int (length (L Music))"
  shows "MusicPlaylistGetNextShuffle u =
      Some (song_at L (shuffleList u ! nat (shuffleIndex u)), u\<lparr>shuffleIndex := shuffleIndex u + 1\<rparr>)"
proof -
  have p: "plays u L" and i: "0 \<le> shuffleIndex u" using assms(1) by (simp_all add: in_round_def)
  let ?x = "shuffleList u ! nat (shuffleIndex u)"
  have lt: "nat (shuffleIndex u) < length (shuffleList u)" using assms i in_round_list(1) [OF assms(1)] by simp
  then have "nat ?x < length (L Music)" using in_round_list(2) [OF assms(1)] by simp
  moreover have "nexts (cells u) (b_first (br u Music)) (L Music) None"
    using p list_nexts lists_ok_list unfolding plays_def by blast
  ultimately have w: "walk_next (cells u) (nat ?x) (b_first (br u Music)) = Some (song_at L ?x)"
    unfolding song_at_def by (simp add: walk_next_spec)
  then show ?thesis
    using assms(2) i p lt by (simp add: MusicPlaylistGetNextShuffle_def plays_def)
qed

lemma in_round_next: "in_round u L \<Longrightarrow> in_round (u\<lparr>shuffleIndex := shuffleIndex u + 1\<rparr>) L"
  by (auto simp: in_round_def plays_def rand_ok_def lists_ok_def)

text \<open>The rest of a round plays the rest of its list.\<close>

lemma shuffle_rest:
  assumes "in_round u L" "nat (shuffleIndex u) + n \<le> length (L Music)"
  shows "shuffle_run n u =
     Some (map (song_at L) (take n (drop (nat (shuffleIndex u)) (shuffleList u))), u\<lparr>shuffleIndex := shuffleIndex u + int n\<rparr>)"
  using assms
proof (induction n arbitrary: u)
  case (Suc n)
  let ?i = "nat (shuffleIndex u)"
  have i: "0 \<le> shuffleIndex u" "?i < length (shuffleList u)"
    using Suc.prems in_round_list(1) [OF Suc.prems(1)] by (auto simp: in_round_def)
  have s: "drop ?i (shuffleList u) = shuffleList u ! ?i # drop (Suc ?i) (shuffleList u)"
    using i(2) by (rule Cons_nth_drop_Suc [symmetric])
  have n: "nat (shuffleIndex u + 1) = Suc ?i" using i(1) by simp
  have "MusicPlaylistGetNextShuffle u =
      Some (song_at L (shuffleList u ! ?i), u\<lparr>shuffleIndex := shuffleIndex u + 1\<rparr>)"
    using shuffle_inside [OF Suc.prems(1)] Suc.prems(2) i by simp
  moreover have "shuffle_run n (u\<lparr>shuffleIndex := shuffleIndex u + 1\<rparr>) =
     Some (map (song_at L) (take n (drop (Suc ?i) (shuffleList u))), u\<lparr>shuffleIndex := shuffleIndex u + 1 + int n\<rparr>)"
    using Suc.IH [OF in_round_next [OF Suc.prems(1)]] Suc.prems(2) by (simp add: n)
  ultimately show ?case using s by (simp add: add.assoc)
qed simp

section \<open>A round\<close>

definition round_due :: "'a music_player_scheme \<Rightarrow> bool" where
  "round_due u = (shuffleIndex u = - 1 \<or> b_numEntries (br u Music) \<le> shuffleIndex u)"

lemma round_starts:
  assumes "plays u L" "round_due u"
  obtains u1 n t where "MusicPlaylistGetNextShuffle u = MusicPlaylistGetNextShuffle u1" "in_round u1 L" "shuffleIndex u1 = 0"
    "plays u1 L" "u1 = u\<lparr>ticks := Suc (ticks u), rands := n, shuffleList := t, shuffleIndex := 0\<rparr>"
proof -
  obtain t n where n: "new_shuffle u = Some (u\<lparr>ticks := Suc (ticks u), rands := n, shuffleList := t, shuffleIndex := 0\<rparr>)"
    "mset t = mset (map int [0..<length (L Music)])" by (rule new_shuffle_spec [OF assms(1)])
  let ?u = "u\<lparr>ticks := Suc (ticks u), rands := n, shuffleList := t, shuffleIndex := 0\<rparr>"
  have p: "plays ?u L" using assms(1) by (simp add: plays_def rand_ok_def lists_ok_def)
  then have "0 < b_numEntries (br ?u Music)" by (simp add: plays_def)
  then have "MusicPlaylistGetNextShuffle u = MusicPlaylistGetNextShuffle ?u"
    using n(1) assms(2) by (simp add: MusicPlaylistGetNextShuffle_def round_due_def)
  then show thesis using p n(2) by (intro that [of ?u t n]) (simp_all add: in_round_def)
qed

lemma song_at_all: "map (song_at L) (map int [0..<length (L Music)]) = map Some (L Music)"
  by (rule nth_equalityI) (simp_all add: song_at_def)

text \<open>
  (C26) A shuffled playlist plays every song exactly once before any song comes again: when a round
  is due, as many calls as there are songs return the songs in some order, whatever \<open>rand\<close> gives, and
  then a round is due again.
\<close>

theorem shuffle_plays_all_once:
  fixes u :: "'a music_player_scheme"
  assumes "plays u L" "round_due u"
  shows "\<exists>songs u'. shuffle_run (length (L Music)) u = Some (songs, u') \<and>
     mset songs = mset (map Some (L Music)) \<and> plays u' L \<and> round_due u'"
proof -
  obtain u1 where u1: "MusicPlaylistGetNextShuffle u = MusicPlaylistGetNextShuffle u1" "in_round u1 L" "shuffleIndex u1 = 0"
    "plays u1 L" by (rule round_starts [OF assms])
  let ?n = "length (L Music)"
  obtain m where m: "?n = Suc m" using assms(1) by (cases ?n) (auto simp: plays_def)
  have "shuffle_run ?n u = shuffle_run ?n u1" unfolding m using u1(1) by simp
  also have "\<dots> = Some (map (song_at L) (shuffleList u1), u1\<lparr>shuffleIndex := int ?n\<rparr>)"
    using shuffle_rest [OF u1(2), of ?n] u1(3) in_round_list(1) [OF u1(2)] by simp
  finally have r: "shuffle_run ?n u = Some (map (song_at L) (shuffleList u1), u1\<lparr>shuffleIndex := int ?n\<rparr>)" .
  have "mset (map (song_at L) (shuffleList u1)) = mset (map Some (L Music))"
    using u1(2) song_at_all [of L] unfolding in_round_def by (metis mset_map)
  moreover have "plays (u1\<lparr>shuffleIndex := int ?n\<rparr>) L" "round_due (u1\<lparr>shuffleIndex := int ?n\<rparr>)"
    using u1(4) by (simp_all add: plays_def rand_ok_def lists_ok_def round_due_def)
  ultimately show ?thesis using r by blast
qed

text \<open>A playlist of three songs, and the browser on a folder \<open>mus\<close>.\<close>

definition demo_song :: "string \<Rightarrow> string \<Rightarrow> int \<Rightarrow> addr option \<Rightarrow> addr option \<Rightarrow> bentry" where
  "demo_song path title pos p n = (demo_cell path TYPE_FILE pos p n)\<lparr>e_display := Some title\<rparr>"

definition demo_player :: music_player where
  "demo_player = \<lparr>br = (\<lambda>_. blank_browser)(Music := blank_browser\<lparr>b_first := Some 1, b_last := Some 3, b_numEntries := 3\<rparr>,
       Files := blank_browser\<lparr>b_dir := ''sd1:/'', b_first := Some 9, b_last := Some 9, b_numEntries := 1\<rparr>),
     cells = [1 \<mapsto> demo_song ''sd1:/mus/x.mp3'' ''x'' 0 None (Some 2), 2 \<mapsto> demo_song ''sd1:/music/b.mp3'' ''b'' 1 (Some 1) (Some 3),
       3 \<mapsto> demo_song ''sd1:/music/A.mp3'' ''A'' 2 (Some 2) None, 9 \<mapsto> demo_cell ''mus'' TYPE_FOLDER 0 None None],
     ticks = 0, calloc_at = Some, strdup_at = (\<lambda>_. True), browserHistory = [], sub_list = None,
     menuCurrent = MENU_BROWSE_MUSIC, loadedFile = [], findLoadedFile = 0, selectLoadedFile = False, foundArt = False,
     dirHandle = None, hideExtensions = True, shuffleList = [], shuffleIndex = - 1, RAND_MAX = 32767,
     rand_at = (\<lambda>n. if even n then 12345 else 30000), rands = 0\<rparr>"

abbreviation "demo_lists \<equiv> ((\<lambda>_. [])(Music := [1, 2, 3 :: addr], Files := [9]))"

lemma demo_player_ok: "lists_ok demo_player demo_lists"
proof -
  have "dom (cells demo_player) = (\<Union>w. set (demo_lists w))" by (auto simp: demo_player_def split: if_splits)
  moreover have "set (demo_lists v) \<inter> set (demo_lists w) = {}" if "v \<noteq> w" for v w
    using that by auto
  ultimately show ?thesis
    by (simp add: lists_ok_def demo_player_def blank_browser_def browser_list_def dlist_def
        BrowserInit_def demo_song_def demo_cell_def next_of_def lastp_def)
qed

theorem shuffle_plays_all_once_witness:
  "\<exists>songs u'. shuffle_run 3 demo_player = Some (songs, u') \<and> mset songs = {#Some 1, Some 2, Some 3#} \<and> round_due u'"
proof -
  have "plays demo_player demo_lists" "round_due demo_player"
    using demo_player_ok by (simp_all add: plays_def round_due_def rand_ok_def demo_player_def)
  moreover have "length (demo_lists Music) = 3" "mset (map Some (demo_lists Music)) = {#Some 1, Some 2, Some 3#}" by simp_all
  ultimately show ?thesis using shuffle_plays_all_once [of demo_player demo_lists] by metis
qed

end
