(* ===== verification/Music_Remove.thy ===== *)
theory Music_Remove
  imports Music_Shuffle "HOL-Library.Sublist"
begin

text \<open>
  Taking songs out of the playlist (\<open>Remove\<close>, \<open>MusicPlaylistDequeue\<close>): what goes is what begins with
  the path of the entry chosen.
\<close>

section \<open>One song\<close>

lemma relink:
  assumes "unlink a e b h = Some (b', h')" "e_prior e \<noteq> e_next e \<or> e_next e = None"
  shows "\<exists>h1. (case e_next e of None \<Rightarrow> Some h | Some m \<Rightarrow> upd h m (\<lambda>c. c\<lparr>e_prior := e_prior e\<rparr>)) = Some h1 \<and>
     (case e_prior e of None \<Rightarrow> Some h1 | Some m \<Rightarrow> upd h1 m (\<lambda>c. c\<lparr>e_next := e_next e\<rparr>)) = Some h'"
  using assms by (auto simp: unlink_def upd_def fun_upd_twist split: option.splits if_splits)

definition removed :: "addr list \<Rightarrow> addr \<Rightarrow> heap \<Rightarrow> 'a music_player_scheme \<Rightarrow> 'a music_player_scheme" where
  "removed xs a h u = set_br Music ((br u Music)\<lparr>b_first := headp xs, b_last := lastp xs,
     b_selIndex := (if b_selIndex (br u Music) = Some a then None else b_selIndex (br u Music)),
     b_numEntries := (if 0 < b_numEntries (br u Music) then b_numEntries (br u Music) - 1 else b_numEntries (br u Music))\<rparr>)
     (u\<lparr>shuffleIndex := - 1, cells := h\<rparr>)"

lemma Remove_spec:
  assumes "lists_ok u L" "L Music = ys @ a # zs"
  obtains h where "Remove a u = Some (removed (ys @ zs) a h u)" "lists_ok (removed (ys @ zs) a h u) (L(Music := ys @ zs))"
    "same_bare (insert a (set (ys @ zs))) ((cells u)(a := None)) h"
proof -
  have bl: "browser_list (cells u) (br u Music) (ys @ a # zs)" using lists_ok_list [OF assms(1)] assms(2) by metis
  then have b: "b_first (br u Music) = headp (ys @ a # zs)" "b_last (br u Music) = lastp (ys @ a # zs)"
    and d: "dlist (cells u) (ys @ a # zs)" by (simp_all add: browser_list_def)
  have dis: "distinct (ys @ a # zs)" using d by (simp add: dlist_def)
  obtain e where e: "cells u a = Some e" "e_prior e = lastp ys" "e_next e = headp zs"
    using dlist_cell [OF d] by auto
  obtain h' where h': "unlink a e (br u Music) (cells u) =
      Some ((br u Music)\<lparr>b_first := headp (ys @ zs), b_last := lastp (ys @ zs)\<rparr>, h')"
    "dlist (h'(a := None)) (ys @ zs)" "same_bare (set (ys @ zs)) (cells u) h'"
    using unlink_spec [OF bl e(1)] by blast
  have ne: "e_prior e \<noteq> e_next e \<or> e_next e = None"
    using dis unfolding e(2,3) by (cases ys rule: rev_cases; cases zs) auto
  have first: "(if b_first (br u Music) = Some a then e_next e else b_first (br u Music)) = headp (ys @ zs)"
    using dis unfolding e(3) b by (cases ys) auto
  have last: "(if b_last (br u Music) = Some a then e_prior e else b_last (br u Music)) = lastp (ys @ zs)"
    using dis unfolding e(2) b by (cases zs rule: rev_cases) (auto simp: lastp_def)
  let ?b = "br u Music"
  have b1: "(if b_first ?b = Some a then ?b\<lparr>b_first := e_next e\<rparr> else ?b) = ?b\<lparr>b_first := headp (ys @ zs)\<rparr>"
    unfolding first [symmetric] by simp
  have b2: "(if b_last (?b\<lparr>b_first := x\<rparr>) = Some a then ?b\<lparr>b_first := x, b_last := e_prior e\<rparr> else ?b\<lparr>b_first := x\<rparr>) =
      ?b\<lparr>b_first := x, b_last := lastp (ys @ zs)\<rparr>" for x
    unfolding last [symmetric] by (cases ?b) simp
  have run: "Remove a u = Some (removed (ys @ zs) a (h'(a := None)) u)"
  proof -
    obtain h1 where "(case e_next e of None \<Rightarrow> Some (cells u) | Some m \<Rightarrow> upd (cells u) m (\<lambda>c. c\<lparr>e_prior := e_prior e\<rparr>)) = Some h1"
      "(case e_prior e of None \<Rightarrow> Some h1 | Some m \<Rightarrow> upd h1 m (\<lambda>c. c\<lparr>e_next := e_next e\<rparr>)) = Some h'"
      using relink [OF h'(1) ne] by blast
    then show ?thesis
      unfolding Remove_def Let_def e(1) option.case b1 b2 by (simp only: option.case) (simp add: removed_def)
  qed
  have r: "remove1 a (L Music) = ys @ zs" using assms(2) dis by (simp add: remove1_append)
  have "unlinked Music (remove1 a (L Music)) a u (h'(a := None))"
    using h'(2,3) unfolding r by (auto simp: unlinked_def same_bare_def)
  let ?u = "removed (ys @ zs) a (h'(a := None)) u"
  have b: "b_first (br ?u Music) = headp (remove1 a (L Music))" "b_last (br ?u Music) = lastp (remove1 a (L Music))"
    and a: "a \<in> set (L Music)"
    using assms(2) unfolding r by (simp_all add: removed_def set_br_def)
  note unlinked_ok [OF assms(1) a \<open>unlinked _ _ _ _ _\<close> b, unfolded r]
  moreover have "lists_ok ?u (L(Music := ys @ zs)) = lists_ok (set_br Music (br ?u Music) (u\<lparr>cells := h'(a := None)\<rparr>)) (L(Music := ys @ zs))"
    by (rule lists_ok_cong) (simp_all add: removed_def set_br_def)
  ultimately have "lists_ok ?u (L(Music := ys @ zs))" by simp
  moreover have "same_bare (insert a (set (ys @ zs))) ((cells u)(a := None)) (h'(a := None))"
    using h'(3) by (auto simp: same_bare_def)
  ultimately show thesis using run by (intro that)
qed

lemma removed_fields [simp]:
  "cells (removed xs a h u) = h" "shuffleIndex (removed xs a h u) = - 1" "v \<noteq> Music \<Longrightarrow> br (removed xs a h u) v = br u v"
  "0 < b_numEntries (br u Music) \<Longrightarrow> b_numEntries (br (removed xs a h u) Music) = b_numEntries (br u Music) - 1"
  by (simp_all add: removed_def set_br_def)

section \<open>All songs below a path\<close>

definition below :: "string \<Rightarrow> heap \<Rightarrow> addr \<Rightarrow> bool" where
  "below path h a = (case e_file (the (h a)) of None \<Rightarrow> False | Some f \<Rightarrow> c_strncmp path f (length path))"

definition counted :: "'a ui_scheme \<Rightarrow> (which_list \<Rightarrow> addr list) \<Rightarrow> bool" where
  "counted u L = (b_numEntries (br u Music) = int (length (L Music)))"

text \<open>What removing songs leaves alone: the content of the cells that stay, and the other lists.\<close>

definition pruned :: "'a music_player_scheme \<Rightarrow> addr set \<Rightarrow> 'a music_player_scheme \<Rightarrow> bool" where
  "pruned u X u' = ((\<forall>b. b \<in> X \<longrightarrow> map_option bare (cells u' b) = map_option bare (cells u b)) \<and>
     (\<forall>v. v \<noteq> Music \<longrightarrow> br u' v = br u v))"

lemma pruned_trans: "pruned u X u1 \<Longrightarrow> pruned u1 Y u' \<Longrightarrow> Z \<subseteq> X \<Longrightarrow> Z \<subseteq> Y \<Longrightarrow> pruned u Z u'"
  unfolding pruned_def by (metis subsetD)

lemma pruned_below: "pruned u X u' \<Longrightarrow> a \<in> X \<Longrightarrow> cells u a \<noteq> None \<Longrightarrow> below path (cells u') a = below path (cells u) a"
proof -
  assume "pruned u X u'" "a \<in> X" "cells u a \<noteq> None"
  then obtain e where e: "cells u a = Some e" "map_option bare (cells u' a) = Some (bare e)"
    unfolding pruned_def by fastforce
  then obtain e' where "cells u' a = Some e'" "bare e' = bare e" by blast
  moreover from this(2) have "e_file e' = e_file e" by (cases e; cases e') (simp add: bare_def)
  ultimately show ?thesis using e(1) by (simp add: below_def)
qed

lemma remove_below_spec:
  assumes "lists_ok u L" "counted u L" "L Music = ys @ zs"
  shows "\<exists>u'. remove_below path (headp zs) u = Some u' \<and> lists_ok u' (L(Music := ys @ filter (\<lambda>a. \<not> below path (cells u) a) zs)) \<and>
    counted u' (L(Music := ys @ filter (\<lambda>a. \<not> below path (cells u) a) zs)) \<and> pruned u (- {a \<in> set zs. below path (cells u) a}) u' \<and>
    shuffleIndex u' = (if \<exists>a \<in> set zs. below path (cells u) a then - 1 else shuffleIndex u)"
  using assms
proof (induction zs arbitrary: u L ys)
  case Nil
  then have "L(Music := ys) = L" by auto
  then show ?case using Nil by (subst remove_below.simps) (simp add: pruned_def)
next
  case (Cons a zs)
  have d: "dlist (cells u) (ys @ a # zs)" using lists_ok_dlist [OF Cons.prems(1)] Cons.prems(3) by metis
  obtain e where e: "cells u a = Some e" "e_next e = headp zs" using dlist_cell [OF d] by auto
  have dis: "distinct (ys @ a # zs)" using d by (simp add: dlist_def)
  have bel: "below path (cells u) a = (case e_file e of None \<Rightarrow> False | Some f \<Rightarrow> c_strncmp path f (length path))"
    using e(1) by (simp add: below_def)
  show ?case
  proof (cases "below path (cells u) a")
    case True
    obtain h where h: "Remove a u = Some (removed (ys @ zs) a h u)" "lists_ok (removed (ys @ zs) a h u) (L(Music := ys @ zs))"
      "same_bare (insert a (set (ys @ zs))) ((cells u)(a := None)) h"
      using Remove_spec [OF Cons.prems(1,3)] by blast
    let ?u1 = "removed (ys @ zs) a h u" and ?L1 = "L(Music := ys @ zs)"
    have p: "pruned u (- {a}) ?u1" using h(3) by (auto simp: pruned_def same_bare_def)
    have c: "counted ?u1 ?L1" using Cons.prems(2,3) by (simp add: counted_def)
    have "\<exists>u'. remove_below path (headp zs) ?u1 = Some u' \<and> lists_ok u' (L(Music := ys @ filter (\<lambda>a. \<not> below path h a) zs)) \<and>
        counted u' (L(Music := ys @ filter (\<lambda>a. \<not> below path h a) zs)) \<and> pruned ?u1 (- {a \<in> set zs. below path h a}) u' \<and>
        shuffleIndex u' = (if \<exists>a \<in> set zs. below path h a then - 1 else - 1)"
      using Cons.IH [OF h(2) c, of ys] by (simp only: fun_upd_same fun_upd_upd removed_fields)
    then obtain u' where "remove_below path (headp zs) ?u1 = Some u'"
      "lists_ok u' (L(Music := ys @ filter (\<lambda>a. \<not> below path h a) zs))"
      "counted u' (L(Music := ys @ filter (\<lambda>a. \<not> below path h a) zs))"
      "pruned ?u1 (- {a \<in> set zs. below path h a}) u'" "shuffleIndex u' = - 1"
      by (elim exE conjE) (rule that; simp split: if_splits)
    note u' = this
    have same: "below path h b = below path (cells u) b" if "b \<in> set zs" for b
    proof -
      have "b \<noteq> a" using that dis by auto
      moreover have "cells u b \<noteq> None" using dlist_alloc [OF d, of b] that by simp
      ultimately show ?thesis using pruned_below [OF p, of b path] by simp
    qed
    then have f: "filter (\<lambda>a. \<not> below path h a) zs = filter (\<lambda>a. \<not> below path (cells u) a) zs"
      by (metis (mono_tags, lifting) filter_cong)
    have "pruned u (- {b \<in> set (a # zs). below path (cells u) b}) u'"
      by (rule pruned_trans [OF p u'(4)]) (use True same in auto)
    moreover have "remove_below path (headp (a # zs)) u = Some u'"
      using True h(1) u'(1) e by (subst remove_below.simps) (simp add: bel)
    ultimately show ?thesis using u'(2,3,5) True unfolding f by (simp del: fun_upd_apply)
  next
    case False
    from Cons.IH [OF Cons.prems(1,2), of "ys @ [a]"] Cons.prems(3)
    obtain u' where u': "remove_below path (headp zs) u = Some u'"
      "lists_ok u' (L(Music := ys @ a # filter (\<lambda>a. \<not> below path (cells u) a) zs))"
      "counted u' (L(Music := ys @ a # filter (\<lambda>a. \<not> below path (cells u) a) zs))"
      "pruned u (- {b \<in> set zs. below path (cells u) b}) u'"
      "shuffleIndex u' = (if \<exists>a \<in> set zs. below path (cells u) a then - 1 else shuffleIndex u)"
      by (auto simp del: fun_upd_apply)
    have "remove_below path (headp (a # zs)) u = Some u'"
      using False u'(1) e by (subst remove_below.simps) (simp add: bel)
    moreover have "{b \<in> set (a # zs). below path (cells u) b} = {b \<in> set zs. below path (cells u) b}" using False by auto
    ultimately show ?thesis using u' False by (simp del: fun_upd_apply)
  qed
qed

section \<open>What is removed\<close>

lemma below_prefix: "cells u a = Some e \<Longrightarrow> below path (cells u) a = (\<exists>f. e_file e = Some f \<and> prefix path f)"
  by (auto simp: below_def c_strncmp_def prefix_def split: option.splits) (metis append_take_drop_id)

lemma contents_filter:
  assumes "\<forall>a \<in> set xs. P a = Q (content (the (h a)))"
  shows "contents h (filter P xs) = filter Q (contents h xs)"
  using assms by (induction xs) (auto simp: contents_def)

text \<open>
  Taking an entry of the browser out of the playlist removes exactly the songs whose path begins
  with the path of the entry, in place and in order: the list stays well linked and counted, the songs
  that stay are untouched, and the shuffle starts anew if any was removed. The path of a folder has
  no slash at its end, so a folder takes the songs of every folder with it whose name begins with its
  own.
\<close>

theorem dequeue_removes_what_begins_so:
  fixes u :: "'a music_player_scheme"
  assumes "lists_ok u L" "counted u L" "i \<in> set (L Files)" "cells u i = Some e" "e_type e \<noteq> TYPE_PLAYLIST"
    "path = GetFullPath u (Some e)"
  shows "\<exists>u' L'. MusicPlaylistDequeue parse i u = Some u' \<and> lists_ok u' L' \<and> counted u' L' \<and>
    contents (cells u') (L' Music) =
      filter (\<lambda>s. \<not> (\<exists>f. e_file s = Some f \<and> prefix path f)) (contents (cells u) (L Music)) \<and>
    (L' Music \<noteq> L Music \<longrightarrow> shuffleIndex u' = - 1)"
proof -
  let ?f = "\<lambda>c. c\<lparr>e_icon := (if e_type e = TYPE_FOLDER then ICON_FOLDER else ICON_FILE)\<rparr>"
  let ?u = "u\<lparr>cells := (cells u)(i \<mapsto> ?f e)\<rparr>"
  have ok: "lists_ok ?u L" by (rule upd_cell_ok [OF assms(1,4)]) (simp add: keeps_links_def)
  have c: "counted ?u L" using assms(2) by (simp add: counted_def)
  have disj: "set (L Files) \<inter> set (L Music) = {}" using assms(1) by (auto simp: lists_ok_def)
  have same: "cells ?u a = cells u a" if "a \<in> set (L Music)" for a using that disj assms(3) by auto
  have first: "b_first (br ?u Music) = headp (L Music)"
    using lists_ok_list [OF ok, of Music] by (simp add: browser_list_def)
  let ?keep = "filter (\<lambda>a. \<not> below path (cells ?u) a) (L Music)"
  obtain u' where u': "remove_below path (headp (L Music)) ?u = Some u'" "lists_ok u' (L(Music := ?keep))"
    "counted u' (L(Music := ?keep))" "pruned ?u (- {a \<in> set (L Music). below path (cells ?u) a}) u'"
    "shuffleIndex u' = (if \<exists>a \<in> set (L Music). below path (cells ?u) a then - 1 else shuffleIndex ?u)"
    using remove_below_spec [OF ok c, of "[]" "L Music" path] by (auto simp del: fun_upd_apply)
  have run: "MusicPlaylistDequeue parse i u = Some u'"
    using u'(1) assms(4-6) first by (simp add: MusicPlaylistDequeue_def Let_def upd_cell_def upd_def)
  have cs: "content (the (cells u' a)) = content (the (cells u a))" if "a \<in> set ?keep" for a
  proof -
    have a: "a \<in> set (L Music)" "a \<in> - {a \<in> set (L Music). below path (cells ?u) a}" using that by simp_all
    from u'(4) have "\<forall>b. b \<in> - {a \<in> set (L Music). below path (cells ?u) a} \<longrightarrow> map_option bare (cells u' b) = map_option bare (cells ?u b)"
      unfolding pruned_def by (rule conjunct1)
    from this [rule_format, OF a(2)] have "map_option bare (cells u' a) = map_option bare (cells u a)"
      unfolding same [OF a(1)] .
    then show ?thesis
      using content_of_bare [of "cells u' a"] content_of_bare [of "cells u a"] lists_ok_alloc [OF assms(1) a(1)]
      by (cases "cells u a"; cases "cells u' a") auto
  qed
  then have "contents (cells u') ?keep = contents (cells u) ?keep" by (simp add: contents_def)
  also have "\<dots> = filter (\<lambda>s. \<not> (\<exists>f. e_file s = Some f \<and> prefix path f)) (contents (cells u) (L Music))"
  proof (rule contents_filter, intro ballI)
    fix a assume a: "a \<in> set (L Music)"
    then obtain s where s: "cells u a = Some s" using lists_ok_alloc [OF assms(1)] by auto
    with same [OF a] have "cells ?u a = Some s" by simp
    from below_prefix [OF this, of path] s
    show "(\<not> below path (cells ?u) a) = (\<not> (\<exists>f. e_file (content (the (cells u a))) = Some f \<and> prefix path f))"
      by (simp add: content_def)
  qed
  finally have "contents (cells u') ?keep =
      filter (\<lambda>s. \<not> (\<exists>f. e_file s = Some f \<and> prefix path f)) (contents (cells u) (L Music))" .
  moreover have "shuffleIndex u' = - 1" if "?keep \<noteq> L Music"
  proof -
    have "\<exists>a \<in> set (L Music). below path (cells ?u) a" using that unfolding filter_id_conv by blast
    then show ?thesis unfolding u'(5) by (rule if_P)
  qed
  ultimately show ?thesis using run u'(2,3) by (intro exI [of _ u'] exI [of _ "L(Music := ?keep)"]) simp
qed

theorem dequeue_removes_what_begins_so_witness:
  "\<exists>u' L'. MusicPlaylistDequeue (\<lambda>_. None) 9 demo_player = Some u' \<and> contents (cells u') (L' Music) = [] \<and> counted u' L' \<and>
     shuffleIndex u' = - 1 \<and> e_file (the (cells demo_player 9)) = Some ''mus'' \<and>
     e_file (the (cells demo_player 2)) = Some ''sd1:/music/b.mp3''"
proof -
  have fd: "FindDevice ''mus'' = None" by code_simp
  have h: "counted demo_player demo_lists" "9 \<in> set (demo_lists Files)" "cells demo_player 9 = Some (demo_cell ''mus'' TYPE_FOLDER 0 None None)"
    "e_type (demo_cell ''mus'' TYPE_FOLDER 0 None None) \<noteq> TYPE_PLAYLIST"
    "''sd1:/mus'' = GetFullPath demo_player (Some (demo_cell ''mus'' TYPE_FOLDER 0 None None))"
    using fd by (simp_all add: counted_def demo_player_def demo_cell_def GetFullPath_def printed_def)
  have none: "filter (\<lambda>s. \<not> (\<exists>f. e_file s = Some f \<and> prefix ''sd1:/mus'' f)) (contents (cells demo_player) (demo_lists Music)) = []"
    by (simp add: contents_def content_def demo_player_def demo_song_def demo_cell_def)
  from dequeue_removes_what_begins_so [OF demo_player_ok h, of "\<lambda>_. None", unfolded none] obtain u' L' where
    u': "MusicPlaylistDequeue (\<lambda>_. None) 9 demo_player = Some u' \<and> lists_ok u' L' \<and> counted u' L' \<and>
      contents (cells u') (L' Music) = [] \<and> (L' Music \<noteq> demo_lists Music \<longrightarrow> shuffleIndex u' = - 1)"
    by (elim exE) (rule that)
  moreover have "L' Music \<noteq> demo_lists Music" using u' by (auto simp: contents_def)
  moreover have "e_file (the (cells demo_player 9)) = Some ''mus''" "e_file (the (cells demo_player 2)) = Some ''sd1:/music/b.mp3''"
    by (simp_all add: demo_player_def demo_song_def demo_cell_def)
  ultimately show ?thesis by blast
qed

end
