(* ===== verification/Music_Enqueue.thy ===== *)
theory Music_Enqueue
  imports Music_Shuffle "HOL-Library.List_Lexorder"
begin

text \<open>
  Adding to the playlist (\<open>EnqueueFile\<close>, \<open>EnqueueFolder\<close>, source/musicplaylist.cpp): what the list
  holds afterwards is a fold over the folder tree, with the new songs of each folder in the order of
  their names behind the old list.
\<close>

section \<open>The order of the names\<close>

definition name_key :: "string \<Rightarrow> int list" where
  "name_key s = map lower_code (takeWhile (\<lambda>c. c \<noteq> NUL) s)"

lemma casediff_key: "(casediff a b \<le> 0) = (name_key a \<le> name_key b)"
proof (induction a arbitrary: b)
  case Nil
  show ?case by (cases b) (simp_all add: casediff_codes name_key_def)
next
  case (Cons x xs)
  have n: "y = 0" if "y \<le> 0" "0 \<le> y" for y :: int using that by simp
  have z: "(lower_code c = 0) = (c = NUL)" "(lower_code c \<le> 0) = (c = NUL)" for c
    using lower_code_0 [of c] n [of "lower_code c"] by (simp, metis lower_code_nonneg order_refl)
  have p: "c \<noteq> NUL \<Longrightarrow> 0 < lower_code c" for c using z(2) [of c] by linarith
  show ?case
  proof (cases b)
    case Nil
    then show ?thesis by (simp add: casediff_codes name_key_def z)
  next
    case b: (Cons y ys)
    show ?thesis
      using Cons.IH [of ys] z(1) [of x] z(1) [of y] p [of x] p [of y]
      by (auto simp: b casediff_codes name_key_def)
  qed
qed

lemma map_insort_key: "map f (insort_key (\<lambda>x. k (f x)) x xs) = insort_key k (f x) (map f xs)"
  by (induction xs) auto

lemma map_sort_key: "map f (sort_key (\<lambda>x. k (f x)) xs) = sort_key k (map f xs)"
  by (induction xs) (simp_all add: map_insort_key)

text \<open>
  Merge sort with a comparison that says yes for all pairs but those of the second part: the first
  part stays, the second is sorted.
\<close>

lemma merge_sort_tail:
  fixes key :: "'a \<Rightarrow> 'k :: linorder"
  assumes "distinct (xs @ ys)" "sorted_wrt (\<lambda>x y. c x y = (x \<in> set xs \<or> key x \<le> key y)) (xs @ ys)"
  shows "merge_sort c (xs @ ys) = xs @ sort_key key ys"
proof -
  define le where "le x y = (x \<in> set xs \<or> (y \<notin> set xs \<and> key x \<le> key y))" for x y
  have tp: "total_preorder le" by unfold_locales (auto simp: le_def)
  have "sorted_wrt (\<lambda>x y. c x y = le x y) (xs @ ys)"
    unfolding sorted_wrt_append
  proof (intro conjI)
    have "sorted_wrt (\<lambda>x y. c x y = (x \<in> set xs \<or> key x \<le> key y)) xs" "sorted_wrt (\<lambda>x y. c x y = (x \<in> set xs \<or> key x \<le> key y)) ys"
      using assms(2) by (simp_all add: sorted_wrt_append)
    then show "sorted_wrt (\<lambda>x y. c x y = le x y) xs" "sorted_wrt (\<lambda>x y. c x y = le x y) ys"
      using assms(1) by (auto elim!: sorted_wrt_mono_rel [rotated] simp: le_def)
    show "\<forall>x \<in> set xs. \<forall>y \<in> set ys. c x y = le x y" using assms(2) by (simp add: sorted_wrt_append le_def)
  qed
  then have "merge_sort c (xs @ ys) = merge_sort le (xs @ ys)" by (rule agree_merge_sort)
  moreover have "stable_sorted le (xs @ ys) (merge_sort le (xs @ ys))" by (rule total_preorder.merge_sort_stable [OF tp])
  moreover have "stable_sorted le (xs @ ys) (xs @ sort_key key ys)"
    unfolding stable_sorted_def
  proof (intro conjI allI)
    show "mset (xs @ sort_key key ys) = mset (xs @ ys)" by simp
    have "sorted_wrt (\<lambda>x y. key x \<le> key y) (sort_key key ys)" using sorted_sort_key [of key ys] by (simp add: sorted_map)
    then have "sorted_wrt le (sort_key key ys)"
      using assms(1) by (auto elim!: sorted_wrt_mono_rel [rotated] simp: le_def)
    moreover have "sorted_wrt le xs" by (auto intro: sorted_wrt_mono_rel [of _ "\<lambda>_ _. True"] simp: le_def sorted_wrt_iff_nth_less)
    ultimately show "sorted_wrt le (xs @ sort_key key ys)" by (auto simp: sorted_wrt_append le_def)
    fix z
    show "filter (tied le z) (xs @ sort_key key ys) = filter (tied le z) (xs @ ys)"
    proof (cases "z \<in> set xs")
      case True
      then have "filter (tied le z) zs = filter (\<lambda>y. y \<in> set xs) zs" for zs
        by (intro filter_cong) (auto simp: tied_def le_def)
      moreover have "filter (\<lambda>y. y \<in> set xs) zs = []" if "set zs \<subseteq> set ys" for zs
        using that assms(1) by (auto simp: filter_empty_conv)
      ultimately show ?thesis by simp
    next
      case False
      have "filter (tied le z) zs = filter (\<lambda>y. key y = key z) zs" if "set zs \<subseteq> set ys" for zs
        using that False assms(1) by (intro filter_cong) (auto simp: tied_def le_def)
      then show ?thesis by (simp add: sort_key_stable)
    qed
  qed
  ultimately show ?thesis using total_preorder.stable_sorted_unique [OF tp] by metis
qed

section \<open>Songs\<close>

type_synonym song = "string \<times> string"

definition song_of :: "bentry \<Rightarrow> song" where
  "song_of e = (the (e_file e), the (e_display e))"

definition songs :: "'a ui_scheme \<Rightarrow> (which_list \<Rightarrow> addr list) \<Rightarrow> song list" where
  "songs u L = map (\<lambda>a. song_of (the (cells u a))) (L Music)"

text \<open>The playlist between two operations: linked, counted, numbered, and every song has both names.\<close>

definition music_ok :: "'a ui_scheme \<Rightarrow> (which_list \<Rightarrow> addr list) \<Rightarrow> bool" where
  "music_ok u L = (lists_ok u L \<and> roomy u \<and> b_numEntries (br u Music) = int (length (L Music)) \<and>
     numbered (cells u) (L Music) \<and>
     (\<forall>a \<in> set (L Music). \<exists>e f d. cells u a = Some e \<and> e_file e = Some f \<and> e_display e = Some d))"

definition same_env :: "'a music_player_scheme \<Rightarrow> 'a music_player_scheme \<Rightarrow> bool" where
  "same_env u u' = (menuCurrent u' = menuCurrent u \<and> hideExtensions u' = hideExtensions u)"

lemma same_env_refl [simp]: "same_env u u"
  by (simp add: same_env_def)

lemma same_env_trans: "same_env u u1 \<Longrightarrow> same_env u1 u2 \<Longrightarrow> same_env u u2"
  by (simp add: same_env_def)

lemma MusicSort_link_free: "link_free (MusicSortCallback start stop)"
  by (simp add: link_free_def MusicSortCallback_def bare_def)

lemma roomy_cong:
  assumes "roomy u" "ticks u' = ticks u" "calloc_at u' = calloc_at u" "strdup_at u' = strdup_at u" "dom (cells u') = dom (cells u)"
  shows "roomy u'"
proof -
  have "cells u' a = None \<longleftrightarrow> cells u a = None" for a using assms(5) by (metis domIff)
  then show ?thesis using assms(1-4) by (simp add: roomy_def)
qed

lemma sort_new_songs_spec:
  fixes u :: "'a music_player_scheme"
  assumes "music_ok u L" "L Music = xs @ ys" "length (L Music) \<le> 2 ^ 31"
  shows "\<exists>u' zs. sort_new_songs (int (length xs)) u = Some u' \<and> music_ok u' (L(Music := xs @ zs)) \<and> same_env u u' \<and>
    shuffleIndex u' = shuffleIndex u \<and> (ys = [] \<longrightarrow> zs = []) \<and>
    songs u' (L(Music := xs @ zs)) =
      take (length xs) (songs u L) @ sort_key (\<lambda>s. name_key (snd s)) (drop (length xs) (songs u L))"
proof (cases "1 < length ys")
  case False
  have "L(Music := xs @ ys) = L" using assms(2) by auto
  moreover have "sort_new_songs (int (length xs)) u = Some u"
    using False assms(1,2) by (simp add: sort_new_songs_def music_ok_def)
  moreover have "sort_key k zs = zs" if "length zs \<le> 1" for k :: "song \<Rightarrow> int list" and zs
    using that by (cases zs) auto
  ultimately show ?thesis using False assms by (intro exI [of _ u] exI [of _ ys]) (simp add: songs_def)
next
  case True
  have ok: "lists_ok u L" and n: "b_numEntries (br u Music) = int (length (L Music))" and num: "numbered (cells u) (L Music)"
    and named: "\<forall>a \<in> set (L Music). \<exists>e f d. cells u a = Some e \<and> e_file e = Some f \<and> e_display e = Some d"
    using assms(1) by (simp_all add: music_ok_def)
  let ?cb = "MusicSortCallback (int (length xs)) (int (length (L Music)) - 1)"
  let ?key = "\<lambda>a. name_key (the (e_display (the (cells u a))))"
  have dis: "distinct (xs @ ys)" using lists_ok_dlist [OF ok, of Music] assms(2) by (simp add: dlist_def)
  have "before ?cb (cells u) ((xs @ ys) ! i) ((xs @ ys) ! j) = ((xs @ ys) ! i \<in> set xs \<or> ?key ((xs @ ys) ! i) \<le> ?key ((xs @ ys) ! j))"
    if ij: "i < j" "j < length (xs @ ys)" for i j
  proof -
    let ?a = "(xs @ ys) ! i" and ?b = "(xs @ ys) ! j"
    have mem: "?a \<in> set (L Music)" "?b \<in> set (L Music)" using ij assms(2) by (metis nth_mem order.strict_trans)+
    obtain e f d where e: "cells u ?a = Some e" "e_file e = Some f" "e_display e = Some d" using named mem(1) by blast
    obtain e' f' d' where e': "cells u ?b = Some e'" "e_file e' = Some f'" "e_display e' = Some d'" using named mem(2) by blast
    have pos: "e_pos e = int i" "e_pos e' = int j"
      using num [unfolded numbered_def assms(2), rule_format, of i] num [unfolded numbered_def assms(2), rule_format, of j]
        ij e(1) e'(1) by simp_all
    have xs: "?a \<in> set xs \<longleftrightarrow> i < length xs"
      using dis ij by (auto simp: nth_append disjoint_iff)
    show ?thesis
      using ij e e' pos unfolding xs before_def MusicSortCallback_def by (simp add: assms(2) casediff_key)
  qed
  then have "sorted_wrt (\<lambda>x y. before ?cb (cells u) x y = (x \<in> set xs \<or> ?key x \<le> ?key y)) (xs @ ys)"
    by (simp add: sorted_wrt_iff_nth_less)
  from merge_sort_tail [OF dis this] have ms: "merge_sort (before ?cb (cells u)) (L Music) = xs @ sort_key ?key ys"
    by (simp add: assms(2))
  let ?zs = "sort_key ?key ys"
  obtain u' where u': "SortBrowser Music ?cb u = Some u'" "lists_ok u' (L(Music := xs @ ?zs))"
    "rearranged (set (L Music)) (cells u) (cells u')" "1 < length (L Music) \<Longrightarrow> numbered (cells u') (xs @ ?zs)"
    "u' = set_br Music ((br u Music)\<lparr>b_first := headp (xs @ ?zs), b_last := lastp (xs @ ?zs)\<rparr>) (u\<lparr>cells := cells u'\<rparr>)"
    by (rule SortBrowser_spec [OF ok MusicSort_link_free assms(3), of "int (length xs)" "int (length (L Music)) - 1", unfolded ms])
      (rule that; assumption)
  have run: "sort_new_songs (int (length xs)) u = Some u'" using u'(1) True n assms(2) by (simp add: sort_new_songs_def)
  have fields: "ticks u' = ticks u" "calloc_at u' = calloc_at u" "strdup_at u' = strdup_at u" "menuCurrent u' = menuCurrent u"
    "hideExtensions u' = hideExtensions u" "shuffleIndex u' = shuffleIndex u" "b_numEntries (br u' Music) = b_numEntries (br u Music)"
    by (subst u'(5), simp add: set_br_def)+
  have song: "song_of (the (cells u' a)) = song_of (the (cells u a))" and nm: "\<exists>e f d. cells u' a = Some e \<and> e_file e = Some f \<and> e_display e = Some d"
    if mem: "a \<in> set (L Music)" for a
  proof -
    obtain e f d where e: "cells u a = Some e" "e_file e = Some f" "e_display e = Some d" using named mem by blast
    have "map_option content (cells u' a) = map_option content (cells u a)" using u'(3) by (simp add: rearranged_def)
    then obtain e' where e': "cells u' a = Some e'" "content e' = content e" using e(1) by auto
    then have "e_file e' = e_file e" "e_display e' = e_display e" by (cases e; cases e'; simp add: content_def)+
    then show "song_of (the (cells u' a)) = song_of (the (cells u a))" "\<exists>e f d. cells u' a = Some e \<and> e_file e = Some f \<and> e_display e = Some d"
      using e e' by (auto simp: song_of_def)
  qed
  have "music_ok u' (L(Music := xs @ ?zs))"
    using u'(2,4) True n nm roomy_cong [OF _ fields(1-3) rearranged_alloc [OF u'(3)]] assms(1,2)
    by (simp add: music_ok_def fields)
  moreover have "songs u' (L(Music := xs @ ?zs)) =
      take (length xs) (songs u L) @ sort_key (\<lambda>s. name_key (snd s)) (drop (length xs) (songs u L))"
  proof -
    let ?f = "\<lambda>a. song_of (the (cells u a))"
    have "songs u' (L(Music := xs @ ?zs)) = map (\<lambda>a. song_of (the (cells u' a))) (xs @ ?zs)" by (simp add: songs_def)
    also have "\<dots> = map ?f (xs @ ?zs)" using song assms(2) by (intro map_cong) auto
    also have "map ?f ?zs = sort_key (\<lambda>s. name_key (snd s)) (map ?f ys)"
      using map_sort_key [of ?f "\<lambda>s. name_key (snd s)" ys] by (simp add: song_of_def)
    then have "map ?f (xs @ ?zs) = map ?f xs @ sort_key (\<lambda>s. name_key (snd s)) (map ?f ys)" by simp
    finally show ?thesis using assms(2) by (simp add: songs_def)
  qed
  moreover have "same_env u u'" by (simp add: same_env_def fields)
  ultimately show ?thesis using run fields(6) by (intro exI [of _ u'] exI [of _ ?zs]) (simp del: fun_upd_apply)
qed

section \<open>One song\<close>

text \<open>\<open>adding_song u L a u' e\<close>: since \<open>u\<close> the cell \<open>a\<close> has been appended to the playlist; it holds \<open>e\<close>.\<close>

definition adding_song :: "'a music_player_scheme \<Rightarrow> (which_list \<Rightarrow> addr list) \<Rightarrow> addr \<Rightarrow> 'a music_player_scheme \<Rightarrow> bentry \<Rightarrow> bool" where
  "adding_song u L a u' e =
     (lists_ok u' (L(Music := L Music @ [a])) \<and> roomy u' \<and> same_env u u' \<and>
      (\<forall>b \<in> set (L Music). map_option bare (cells u' b) = map_option bare (cells u b)) \<and> a \<notin> set (L Music) \<and>
      cells u' a = Some e \<and> e_pos e = int (length (L Music)) \<and>
      b_numEntries (br u' Music) = int (length (L Music)) + 1)"

lemma add_named_song:
  fixes u :: "'a music_player_scheme"
  assumes "music_ok u L"
  shows "\<exists>a e u'. add_named Music path u = Some (Some a, u') \<and> adding_song u L a u' e \<and> e_file e = Some path"
proof -
  have ok: "lists_ok u L" "roomy u" and n: "b_numEntries (br u Music) = int (length (L Music))"
    using assms by (simp_all add: music_ok_def)
  let ?e = "(fresh_entry (L Music) (b_numEntries (br u Music)))\<lparr>e_file := Some path\<rparr>"
  obtain a h where h: "add_named Music path u = Some (Some a, appended Music (L Music) a h u)"
    "lists_ok (appended Music (L Music) a h u) (L(Music := L Music @ [a]))" "roomy (appended Music (L Music) a h u)"
    "cells u a = None" "h a = Some ?e" "same_bare (insert a (set (L Music))) ((cells u)(a := h a)) h"
    by (rule add_named_exact [OF ok, of Music path]) (rule that; assumption)
  have a: "a \<notin> set (L Music)" using h(4) lists_ok_alloc [OF ok(1)] by blast
  have "same_env u (appended Music (L Music) a h u)" by (simp add: same_env_def appended_def set_br_def)
  moreover have "map_option bare (h b) = map_option bare (cells u b)" if "b \<in> set (L Music)" for b
    using h(6) that a unfolding same_bare_def by (metis fun_upd_other)
  moreover have "e_pos ?e = int (length (L Music))" "e_file ?e = Some path" using n by (simp_all add: fresh_entry_def)
  ultimately have "adding_song u L a (appended Music (L Music) a h u) ?e"
    using h(2,3,5) a n by (simp add: adding_song_def)
  then show ?thesis using h(1) by (intro exI [of _ a] exI [of _ ?e] exI [of _ "appended Music (L Music) a h u"]) (simp add: fresh_entry_def)
qed

lemma adding_song_upd:
  assumes "adding_song u L a u' e" "keeps_links f" "e_pos (f e) = e_pos e"
  shows "\<exists>u''. upd_cell a f u' = Some u'' \<and> adding_song u L a u'' (f e)"
proof -
  have e: "cells u' a = Some e" using assms(1) by (simp add: adding_song_def)
  let ?u = "u'\<lparr>cells := (cells u')(a \<mapsto> f e)\<rparr>"
  have "lists_ok ?u (L(Music := L Music @ [a]))"
    using upd_cell_ok [OF _ e assms(2)] assms(1) by (simp add: adding_song_def)
  moreover have "roomy ?u" using roomy_upd [of u' a "f e"] assms(1) by (simp add: adding_song_def)
  moreover have "same_env u ?u" using assms(1) by (simp add: adding_song_def same_env_def)
  ultimately have "adding_song u L a ?u (f e)" using assms(1,3) by (auto simp: adding_song_def)
  then show ?thesis using upd_cell_Some [of u' a e f, OF e] by blast
qed

lemma adding_song_display:
  assumes "adding_song u L a u' e"
  shows "\<exists>u''. display_entry Music a s u' = Some (True, u'') \<and> adding_song u L a u'' (e\<lparr>e_display := Some s\<rparr>)"
proof -
  let ?u = "u'\<lparr>ticks := Suc (ticks u')\<rparr>"
  have r: "roomy u'" using assms by (simp add: adding_song_def)
  have "roomy ?u" by (rule roomy_tick [OF r]) auto
  then have "adding_song u L a ?u e"
    using assms by (simp add: adding_song_def lists_ok_def same_env_def)
  from adding_song_upd [OF this, of "\<lambda>e. e\<lparr>e_display := Some s\<rparr>"]
  obtain u'' where "upd_cell a (\<lambda>e. e\<lparr>e_display := Some s\<rparr>) ?u = Some u''" "adding_song u L a u'' (e\<lparr>e_display := Some s\<rparr>)"
    by (auto simp: keeps_links_def)
  moreover have "strdup_at u' (ticks u')" using r unfolding roomy_def by simp
  ultimately show ?thesis by (simp add: display_entry_def c_strdup_def)
qed

lemma bare_song: "bare e' = bare e \<Longrightarrow> e_file e' = e_file e \<and> e_display e' = e_display e \<and> e_pos e' = e_pos e"
  by (cases e; cases e') (simp add: bare_def)

lemma adding_song_ok:
  assumes "adding_song u L a u' e" "music_ok u L" "e_file e = Some p" "e_display e = Some d"
  shows "music_ok u' (L(Music := L Music @ [a]))" "songs u' (L(Music := L Music @ [a])) = songs u L @ [(p, d)]"
proof -
  have old: "\<exists>e0 e1 f d. cells u b = Some e0 \<and> cells u' b = Some e1 \<and> bare e1 = bare e0 \<and> e_file e1 = Some f \<and> e_display e1 = Some d"
    if b: "b \<in> set (L Music)" for b
  proof -
    obtain e0 f d where e0: "cells u b = Some e0" "e_file e0 = Some f" "e_display e0 = Some d"
      using assms(2) b unfolding music_ok_def by blast
    have "map_option bare (cells u' b) = map_option bare (cells u b)" using assms(1) b by (simp add: adding_song_def)
    then obtain e1 where "cells u' b = Some e1" "bare e1 = bare e0" using e0(1) by auto
    then show ?thesis using e0 bare_song [of e1 e0] by auto
  qed
  have "numbered (cells u') (L Music @ [a])"
    unfolding numbered_def
  proof (intro allI impI)
    fix i assume i: "i < length (L Music @ [a])"
    show "map_option e_pos (cells u' ((L Music @ [a]) ! i)) = Some (int i)"
    proof (cases "i < length (L Music)")
      case True
      then obtain e0 e1 where "cells u (L Music ! i) = Some e0" "cells u' (L Music ! i) = Some e1" "bare e1 = bare e0"
        using old [of "L Music ! i"] by auto
      then show ?thesis using True bare_song [of e1 e0] assms(2) by (auto simp: music_ok_def numbered_def nth_append)
    next
      case False
      then show ?thesis using i assms(1) by (simp add: adding_song_def nth_append)
    qed
  qed
  moreover have "\<exists>e f d. cells u' b = Some e \<and> e_file e = Some f \<and> e_display e = Some d" if "b \<in> set (L Music @ [a])" for b
    using that old [of b] assms(1,3,4) by (auto simp: adding_song_def)
  ultimately show "music_ok u' (L(Music := L Music @ [a]))"
    using assms(1) by (simp add: music_ok_def adding_song_def)
  have "song_of (the (cells u' b)) = song_of (the (cells u b))" if b: "b \<in> set (L Music)" for b
  proof -
    obtain e0 e1 where "cells u b = Some e0" "cells u' b = Some e1" "bare e1 = bare e0" using old [OF b] by blast
    then show ?thesis using bare_song [of e1 e0] by (simp add: song_of_def)
  qed
  then show "songs u' (L(Music := L Music @ [a])) = songs u L @ [(p, d)]"
    using assms(1,3,4) by (simp add: songs_def adding_song_def song_of_def)
qed

text \<open>The name a song is shown with.\<close>

definition song_display :: "bool \<Rightarrow> string option \<Rightarrow> string \<Rightarrow> string" where
  "song_display hide title source =
     (case title of Some t \<Rightarrow> t | None \<Rightarrow> if hide then StripExt (base_name source) else base_name source)"

lemma add_song_spec:
  fixes u :: "'a music_player_scheme"
  assumes "music_ok u L"
  shows "\<exists>u' a. add_song path title source u = Some (True, u') \<and> music_ok u' (L(Music := L Music @ [a])) \<and> same_env u u' \<and>
    songs u' (L(Music := L Music @ [a])) = songs u L @ [(path, song_display (hideExtensions u) title source)]"
proof -
  obtain a e u1 where u1: "add_named Music path u = Some (Some a, u1)" "adding_song u L a u1 e" "e_file e = Some path"
    using add_named_song [OF assms] by blast
  let ?d = "song_display (hideExtensions u) title source"
  have "\<exists>u'. add_song path title source u = Some (True, u') \<and> adding_song u L a u' (e\<lparr>e_display := Some ?d\<rparr>)"
  proof (cases title)
    case (Some t)
    then show ?thesis using adding_song_display [OF u1(2), of t] u1(1) by (auto simp: add_song_def song_display_def)
  next
    case None
    obtain u2 where u2: "display_entry Music a (base_name source) u1 = Some (True, u2)"
      "adding_song u L a u2 (e\<lparr>e_display := Some (base_name source)\<rparr>)"
      using adding_song_display [OF u1(2)] by blast
    have hide: "hideExtensions u2 = hideExtensions u" using u2(2) by (simp add: adding_song_def same_env_def)
    show ?thesis
    proof (cases "hideExtensions u")
      case True
      from adding_song_upd [OF u2(2), of "\<lambda>e. e\<lparr>e_display := map_option StripExt (e_display e)\<rparr>"]
      show ?thesis using True None u1(1) u2(1) hide by (auto simp: add_song_def song_display_def keeps_links_def)
    next
      case False
      then show ?thesis using None u1(1) u2 hide by (simp add: add_song_def song_display_def)
    qed
  qed
  then obtain u' where u': "add_song path title source u = Some (True, u')" "adding_song u L a u' (e\<lparr>e_display := Some ?d\<rparr>)" by blast
  have "e_file (e\<lparr>e_display := Some ?d\<rparr>) = Some path" using u1(3) by simp
  note ok = adding_song_ok [OF u'(2) assms this, of ?d, simplified]
  have "same_env u u'" using u'(2) by (simp add: adding_song_def)
  then show ?thesis using u'(1) ok by blast
qed

section \<open>Files and playlists\<close>

definition put_song :: "song \<Rightarrow> song list \<Rightarrow> song list" where
  "put_song s ss = (if fst s \<in> fst ` set ss then ss else ss @ [s])"

definition item_songs :: "bool \<Rightarrow> menu \<Rightarrow> pt_item \<Rightarrow> song list" where
  "item_songs hide m it =
     (case playlist_song m (fst it) of None \<Rightarrow> []
      | Some p \<Rightarrow> [(p, song_display hide (pretty_title (snd it)) (the (fst it)))])"

lemma item_songs_simps:
  "playlist_song m f = None \<Longrightarrow> item_songs hide m (f, ps) = []"
  "playlist_song m f = Some p \<Longrightarrow> item_songs hide m (f, ps) = [(p, song_display hide (pretty_title ps) (the f))]"
  by (simp_all add: item_songs_def)

text \<open>The songs a file stands for: itself, or the items of a playlist file.\<close>

definition file_songs :: "bool \<Rightarrow> menu \<Rightarrow> (string \<Rightarrow> pt_item list option) \<Rightarrow> string \<Rightarrow> song list" where
  "file_songs hide m parse path =
     (let ext = GetExt path in
      if \<not> IsAudioExt ext \<and> \<not> IsPlaylistExt ext \<or> ext = ''plx'' then []
      else if IsPlaylistExt ext then (case parse path of None \<Rightarrow> [] | Some its \<Rightarrow> concat (map (item_songs hide m) its))
      else [(path, song_display hide None path)])"

definition put_file :: "bool \<Rightarrow> menu \<Rightarrow> (string \<Rightarrow> pt_item list option) \<Rightarrow> string \<Rightarrow> song list \<Rightarrow> song list" where
  "put_file hide m parse path ss =
     (if path \<in> fst ` set ss then ss else fold put_song (file_songs hide m parse path) ss)"

lemma FindIndex_songs:
  assumes "music_ok u L"
  shows "\<exists>r. MusicPlaylistFindIndex path u = Some r \<and> (r = None) = (path \<notin> fst ` set (songs u L))"
proof -
  have ok: "lists_ok u L" using assms by (simp add: music_ok_def)
  have f: "(e_file (the (cells u a)) = Some path) = (fst (song_of (the (cells u a))) = path)" if a: "a \<in> set (L Music)" for a
  proof -
    obtain e f d where "cells u a = Some e" "e_file e = Some f" using assms a unfolding music_ok_def by blast
    then show ?thesis by (simp add: song_of_def)
  qed
  have "(find (\<lambda>a. e_file (the (cells u a)) = Some path) (L Music) = None) = (path \<notin> fst ` set (songs u L))"
  proof -
    have "fst ` set (songs u L) = (\<lambda>a. fst (song_of (the (cells u a)))) ` set (L Music)" by (simp add: songs_def image_image)
    moreover have "path \<in> (\<lambda>a. fst (song_of (the (cells u a)))) ` set (L Music) \<longleftrightarrow>
        (\<exists>a \<in> set (L Music). e_file (the (cells u a)) = Some path)" using f by (auto simp: image_iff)
    ultimately show ?thesis by (simp add: find_None_iff Ball_def)
  qed
  with FindIndex_spec [OF ok, of path] show ?thesis by (intro exI conjI)
qed

text \<open>\<open>refines u L u' L' ss\<close>: a step of adding has led to the songs \<open>ss\<close>.\<close>

definition refines :: "'a music_player_scheme \<Rightarrow> (which_list \<Rightarrow> addr list) \<Rightarrow> 'a music_player_scheme \<Rightarrow> (which_list \<Rightarrow> addr list)
    \<Rightarrow> song list \<Rightarrow> bool" where
  "refines u L u' L' ss =
     (music_ok u' L' \<and> same_env u u' \<and> songs u' L' = ss \<and> (\<forall>w. w \<noteq> Music \<longrightarrow> L' w = L w))"

lemma refines_trans: "refines u L u1 L1 ss \<Longrightarrow> refines u1 L1 u2 L2 ts \<Longrightarrow> refines u L u2 L2 ts"
  by (simp add: refines_def same_env_def)

lemma refines_refl: "music_ok u L \<Longrightarrow> refines u L u L (songs u L)"
  by (simp add: refines_def)

lemma add_song_refines:
  fixes u :: "'a music_player_scheme"
  assumes "music_ok u L" "path \<notin> fst ` set (songs u L)"
  shows "\<exists>u' L'. add_song path title source u = Some (True, u') \<and>
    refines u L u' L' (put_song (path, song_display (hideExtensions u) title source) (songs u L))"
proof -
  obtain u' a where "add_song path title source u = Some (True, u')" "music_ok u' (L(Music := L Music @ [a]))" "same_env u u'"
    "songs u' (L(Music := L Music @ [a])) = songs u L @ [(path, song_display (hideExtensions u) title source)]"
    using add_song_spec [OF assms(1)] by blast
  then show ?thesis using assms(2)
    by (intro exI [of _ u'] exI [of _ "L(Music := L Music @ [a])"]) (simp add: refines_def put_song_def)
qed

lemma enqueue_items_refines:
  fixes u :: "'a music_player_scheme"
  assumes "music_ok u L"
  shows "\<exists>u' L'. enqueue_items its u = Some (True, u') \<and>
    refines u L u' L' (fold put_song (concat (map (item_songs (hideExtensions u) (menuCurrent u)) its)) (songs u L))"
  using assms
proof (induction its arbitrary: u L)
  case Nil
  then show ?case using refines_refl by (intro exI [of _ u] exI [of _ L]) simp
next
  case (Cons it its)
  obtain f params where it: "it = (f, params)" by (cases it)
  let ?S = "item_songs (hideExtensions u) (menuCurrent u)"
  have step: "\<exists>u' L'. enqueue_items (it # its) u = Some (True, u') \<and>
      refines u L u' L' (fold put_song (concat (map ?S its)) ss)"
    if run: "enqueue_items (it # its) u = enqueue_items its u1" and r: "refines u L u1 L1 ss" for u1 L1 ss
  proof -
    have "music_ok u1 L1" using r by (simp add: refines_def)
    from Cons.IH [OF this] obtain u2 L2 where u2: "enqueue_items its u1 = Some (True, u2)"
      "refines u1 L1 u2 L2 (fold put_song (concat (map (item_songs (hideExtensions u1) (menuCurrent u1)) its)) (songs u1 L1))" by blast
    have "refines u1 L1 u2 L2 (fold put_song (concat (map ?S its)) ss)"
      using u2(2) r by (simp add: refines_def same_env_def)
    then show ?thesis using run u2(1) refines_trans [OF r] by metis
  qed
  show ?case
  proof (cases "playlist_song (menuCurrent u) f")
    case None
    then show ?thesis
      using step [of u L "songs u L"] refines_refl [OF Cons.prems] by (simp add: it item_songs_simps)
  next
    case (Some path)
    obtain r where r: "MusicPlaylistFindIndex path u = Some r" "(r = None) = (path \<notin> fst ` set (songs u L))"
      using FindIndex_songs [OF Cons.prems] by blast
    show ?thesis
    proof (cases r)
      case None
      then have new: "path \<notin> fst ` set (songs u L)" using r(2) by simp
      obtain u1 L1 where u1: "add_song path (pretty_title params) (the f) u = Some (True, u1)"
        "refines u L u1 L1 (put_song (path, song_display (hideExtensions u) (pretty_title params) (the f)) (songs u L))"
        using add_song_refines [OF Cons.prems new] by blast
      have "enqueue_items (it # its) u = enqueue_items its u1" using Some r(1) None u1(1) by (simp add: it)
      from step [OF this u1(2)] show ?thesis using Some by (simp add: it item_songs_simps)
    next
      case (Some a)
      have "enqueue_items (it # its) u = enqueue_items its u" using \<open>playlist_song _ _ = _\<close> r(1) Some by (simp add: it)
      moreover have "put_song (path, d) (songs u L) = songs u L" for d using r(2) Some by (simp add: put_song_def)
      ultimately show ?thesis
        using step [of u L "songs u L"] refines_refl [OF Cons.prems] \<open>playlist_song _ _ = _\<close> by (simp add: it item_songs_simps)
    qed
  qed
qed

text \<open>A list that changes makes the shuffle start anew.\<close>

definition reshuffled :: "'a music_player_scheme \<Rightarrow> song list \<Rightarrow> 'a music_player_scheme \<Rightarrow> song list \<Rightarrow> bool" where
  "reshuffled u ss u' ts = (shuffleIndex u' = - 1 \<or> shuffleIndex u' = shuffleIndex u \<and> ts = ss)"

lemma reshuffled_trans: "reshuffled u ss u1 ts \<Longrightarrow> reshuffled u1 ts u2 us \<Longrightarrow> reshuffled u ss u2 us"
  by (auto simp: reshuffled_def)

lemma refines_reset: "refines u L u' L' ss \<Longrightarrow> refines u L (u'\<lparr>shuffleIndex := n\<rparr>) L' ss"
  by (simp add: refines_def music_ok_def lists_ok_def roomy_def same_env_def songs_def)

lemma EnqueueFile_refines:
  fixes u :: "'a music_player_scheme"
  assumes "music_ok u L"
  shows "\<exists>r u' L'. EnqueueFile parse path u = Some (r, u') \<and> 0 \<le> r \<and>
    refines u L u' L' (put_file (hideExtensions u) (menuCurrent u) parse path (songs u L)) \<and>
    reshuffled u (songs u L) u' (songs u' L')"
proof -
  obtain r where r: "MusicPlaylistFindIndex path u = Some r" "(r = None) = (path \<notin> fst ` set (songs u L))"
    using FindIndex_songs [OF assms] by blast
  let ?p = "put_file (hideExtensions u) (menuCurrent u) parse path (songs u L)"
  let ?ext = "GetExt path"
  have stay: ?thesis if "EnqueueFile parse path u = Some (0, u)" "?p = songs u L"
    using that refines_refl [OF assms] by (intro exI [of _ 0] exI [of _ u] exI [of _ L]) (simp add: reshuffled_def)
  have added: ?thesis
    if "EnqueueFile parse path u = Some (1, u1\<lparr>shuffleIndex := - 1\<rparr>)" "refines u L u1 L1 ?p" for u1 L1
    using that refines_reset [OF that(2), of "- 1"]
    by (intro exI [of _ 1] exI [of _ "u1\<lparr>shuffleIndex := - 1\<rparr>"] exI [of _ L1]) (simp add: reshuffled_def)
  show ?thesis
  proof (cases r)
    case (Some a)
    then show ?thesis using r by (intro stay) (simp_all add: EnqueueFile_def put_file_def)
  next
    case None
    then have new: "path \<notin> fst ` set (songs u L)" using r(2) by simp
    show ?thesis
    proof (cases "\<not> IsAudioExt ?ext \<and> \<not> IsPlaylistExt ?ext \<or> ?ext = ''plx'' \<or> IsPlaylistExt ?ext \<and> parse path = None")
      case True
      then show ?thesis
        using r(1) None new by (intro stay) (auto simp: EnqueueFile_def Let_def put_file_def file_songs_def)
    next
      case ext: False
      show ?thesis
      proof (cases "IsPlaylistExt ?ext")
        case True
        then obtain its where its: "parse path = Some its" using ext by auto
        obtain u1 L1 where u1: "enqueue_items its u = Some (True, u1)"
          "refines u L u1 L1 (fold put_song (concat (map (item_songs (hideExtensions u) (menuCurrent u)) its)) (songs u L))"
          using enqueue_items_refines [OF assms] by blast
        show ?thesis
          using u1 True ext its r(1) None new
          by (intro added [of u1 L1]) (simp_all add: EnqueueFile_def Let_def put_file_def file_songs_def)
      next
        case False
        obtain u1 L1 where u1: "add_song path None path u = Some (True, u1)"
          "refines u L u1 L1 (put_song (path, song_display (hideExtensions u) None path) (songs u L))"
          using add_song_refines [OF assms new] by blast
        show ?thesis
          using u1 False ext r(1) None new
          by (intro added [of u1 L1]) (simp_all add: EnqueueFile_def Let_def put_file_def file_songs_def)
      qed
    qed
  qed
qed

section \<open>Folders\<close>

text \<open>The folders and the files of a folder, as paths.\<close>

definition subfolders :: "(string \<Rightarrow> dirent list) \<Rightarrow> string \<Rightarrow> string list" where
  "subfolders dirs path = map (\<lambda>d. path_in path (fst d)) (filter (\<lambda>d. snd d \<and> \<not> skipped_in path (fst d)) (dirs path))"

definition files_in :: "(string \<Rightarrow> dirent list) \<Rightarrow> string \<Rightarrow> string list" where
  "files_in dirs path = map (\<lambda>d. path_in path (fst d)) (filter (\<lambda>d. \<not> snd d \<and> \<not> skipped_in path (fst d)) (dirs path))"

text \<open>A tree of folders of at most the given depth.\<close>

primrec shallow :: "(string \<Rightarrow> dirent list) \<Rightarrow> nat \<Rightarrow> string \<Rightarrow> bool" where
  "shallow dirs 0 path = False"
| "shallow dirs (Suc k) path = list_all (shallow dirs k) (subfolders dirs path)"

text \<open>
  The songs after adding a folder: first those of its folders, one after the other, then its own,
  sorted by name (\<open>sort_key\<close> is the stable sort of the library).
\<close>

primrec folder_songs :: "bool \<Rightarrow> menu \<Rightarrow> (string \<Rightarrow> pt_item list option) \<Rightarrow> (string \<Rightarrow> dirent list) \<Rightarrow> nat \<Rightarrow> string
    \<Rightarrow> song list \<Rightarrow> song list" where
  "folder_songs hide m parse dirs 0 path ss = ss"
| "folder_songs hide m parse dirs (Suc k) path ss =
     (let s1 = fold (folder_songs hide m parse dirs k) (subfolders dirs path) ss;
          s2 = fold (put_file hide m parse) (files_in dirs path) s1
      in s1 @ sort_key (\<lambda>s. name_key (snd s)) (drop (length s1) s2))"

lemma put_song_extends: "\<exists>ts. put_song s ss = ss @ ts"
  by (auto simp: put_song_def)

lemma fold_extends:
  assumes "\<And>x ss. x \<in> set xs \<Longrightarrow> \<exists>ts. f x ss = ss @ (ts :: 'a list)"
  shows "\<exists>ts. fold f xs ss = ss @ ts"
  using assms
proof (induction xs arbitrary: ss)
  case (Cons x xs)
  obtain ts where ts: "f x ss = ss @ ts" using Cons.prems by (metis list.set_intros(1))
  obtain us where "fold f xs (ss @ ts) = (ss @ ts) @ us" using Cons.IH Cons.prems by (metis list.set_intros(2))
  then show ?case using ts by simp
qed simp

lemma put_file_extends: "\<exists>ts. put_file hide m parse path ss = ss @ ts"
  using fold_extends [of _ put_song] put_song_extends by (simp add: put_file_def)

lemma folder_songs_extends: "\<exists>ts. folder_songs hide m parse dirs k path ss = ss @ ts"
proof (induction k arbitrary: path ss)
  case (Suc k)
  obtain ts where "fold (folder_songs hide m parse dirs k) (subfolders dirs path) ss = ss @ ts"
    using fold_extends [of "subfolders dirs path" "folder_songs hide m parse dirs k" ss] Suc.IH by blast
  then show ?case by (simp add: Let_def)
qed simp

lemma length_extends: "\<exists>ts. f = ss @ (ts :: 'a list) \<Longrightarrow> length ss \<le> length f"
  by auto

lemma enqueue_files_refines:
  fixes u :: "'a music_player_scheme"
  assumes "music_ok u L"
  shows "\<exists>u' L'. enqueue_files parse path ds u = Some u' \<and>
    refines u L u' L' (fold (put_file (hideExtensions u) (menuCurrent u) parse)
      (map (\<lambda>d. path_in path (fst d)) (filter (\<lambda>d. \<not> snd d \<and> \<not> skipped_in path (fst d)) ds)) (songs u L)) \<and>
    reshuffled u (songs u L) u' (songs u' L')"
  using assms
proof (induction ds arbitrary: u L)
  case Nil
  then show ?case
    using refines_refl by (intro exI [of _ u] exI [of _ L]) (simp add: reshuffled_def)
next
  case (Cons d ds)
  obtain name isdir where d: "d = (name, isdir)" by (cases d)
  show ?case
  proof (cases "skipped_in path name \<or> isdir")
    case True
    then show ?thesis using Cons.IH [OF Cons.prems] by (auto simp: d)
  next
    case False
    let ?P = "put_file (hideExtensions u) (menuCurrent u) parse"
    obtain r u1 L1 where u1: "EnqueueFile parse (path_in path name) u = Some (r, u1)" "0 \<le> r"
      "refines u L u1 L1 (?P (path_in path name) (songs u L))" "reshuffled u (songs u L) u1 (songs u1 L1)"
      using EnqueueFile_refines [OF Cons.prems] by blast
    have m: "music_ok u1 L1" "songs u1 L1 = ?P (path_in path name) (songs u L)"
      "hideExtensions u1 = hideExtensions u" "menuCurrent u1 = menuCurrent u"
      using u1(3) by (simp_all add: refines_def same_env_def)
    let ?F = "map (\<lambda>d. path_in path (fst d)) (filter (\<lambda>d. \<not> snd d \<and> \<not> skipped_in path (fst d)) ds)"
    obtain u2 L2 where u2: "enqueue_files parse path ds u1 = Some u2"
      "refines u1 L1 u2 L2 (fold ?P ?F (songs u1 L1))" "reshuffled u1 (songs u1 L1) u2 (songs u2 L2)"
      using Cons.IH [OF m(1)] unfolding m(3,4) by blast
    have "enqueue_files parse path (d # ds) u = Some u2" using False u1(1,2) u2(1) by (simp add: d)
    moreover have "refines u L u2 L2 (fold ?P ?F (?P (path_in path name) (songs u L)))"
      using refines_trans [OF u1(3) u2(2)] unfolding m(2) .
    moreover have "reshuffled u (songs u L) u2 (songs u2 L2)" using u1(4) u2(3) by (rule reshuffled_trans)
    ultimately show ?thesis using False by (intro exI [of _ u2] exI [of _ L2]) (simp add: d)
  qed
qed

text \<open>What a call for a folder has to do; the induction goes over the depth.\<close>

definition adds_folder :: "nat \<Rightarrow> (string \<Rightarrow> pt_item list option) \<Rightarrow> (string \<Rightarrow> dirent list)
    \<Rightarrow> (string \<Rightarrow> 'a music_player_scheme \<Rightarrow> (bool \<times> 'a music_player_scheme) option) \<Rightarrow> string \<Rightarrow> bool" where
  "adds_folder k parse dirs rec path =
     (\<forall>u L. music_ok u L \<and> length (folder_songs (hideExtensions u) (menuCurrent u) parse dirs k path (songs u L)) \<le> 2 ^ 31 \<longrightarrow>
        (\<exists>u' L'. rec path u = Some (True, u') \<and>
           refines u L u' L' (folder_songs (hideExtensions u) (menuCurrent u) parse dirs k path (songs u L)) \<and>
           reshuffled u (songs u L) u' (songs u' L')))"

lemma enqueue_subdirs_refines:
  fixes u :: "'a music_player_scheme"
  assumes "music_ok u L"
    "list_all (adds_folder k parse dirs rec) (map (\<lambda>d. path_in path (fst d)) (filter (\<lambda>d. snd d \<and> \<not> skipped_in path (fst d)) ds))"
    "length (fold (folder_songs (hideExtensions u) (menuCurrent u) parse dirs k)
      (map (\<lambda>d. path_in path (fst d)) (filter (\<lambda>d. snd d \<and> \<not> skipped_in path (fst d)) ds)) (songs u L)) \<le> 2 ^ 31"
  shows "\<exists>u' L'. enqueue_subdirs rec path ds u = Some u' \<and>
    refines u L u' L' (fold (folder_songs (hideExtensions u) (menuCurrent u) parse dirs k)
      (map (\<lambda>d. path_in path (fst d)) (filter (\<lambda>d. snd d \<and> \<not> skipped_in path (fst d)) ds)) (songs u L)) \<and>
    reshuffled u (songs u L) u' (songs u' L')"
  using assms
proof (induction ds arbitrary: u L)
  case Nil
  then show ?case
    using refines_refl by (intro exI [of _ u] exI [of _ L]) (simp add: reshuffled_def)
next
  case (Cons d ds)
  obtain name isdir where d: "d = (name, isdir)" by (cases d)
  show ?case
  proof (cases "skipped_in path name \<or> \<not> isdir")
    case True
    then show ?thesis using Cons.IH [OF Cons.prems(1)] Cons.prems(2,3) by (auto simp: d)
  next
    case False
    let ?G = "folder_songs (hideExtensions u) (menuCurrent u) parse dirs k" and ?p = "path_in path name"
    let ?F = "map (\<lambda>d. path_in path (fst d)) (filter (\<lambda>d. snd d \<and> \<not> skipped_in path (fst d)) ds)"
    have bound: "length (fold ?G ?F (?G ?p (songs u L))) \<le> 2 ^ 31" using Cons.prems(3) False by (simp add: d)
    have "length (?G ?p (songs u L)) \<le> length (fold ?G ?F (?G ?p (songs u L)))"
      by (rule length_extends, rule fold_extends, rule folder_songs_extends)
    then have "length (?G ?p (songs u L)) \<le> 2 ^ 31" using bound by linarith
    moreover have "adds_folder k parse dirs rec ?p" using Cons.prems(2) False by (simp add: d)
    ultimately obtain u1 L1 where u1: "rec ?p u = Some (True, u1)" "refines u L u1 L1 (?G ?p (songs u L))"
      "reshuffled u (songs u L) u1 (songs u1 L1)"
      using Cons.prems(1) unfolding adds_folder_def by blast
    have m: "music_ok u1 L1" "songs u1 L1 = ?G ?p (songs u L)" "hideExtensions u1 = hideExtensions u" "menuCurrent u1 = menuCurrent u"
      using u1(2) by (simp_all add: refines_def same_env_def)
    have "list_all (adds_folder k parse dirs rec) ?F" using Cons.prems(2) by (auto simp: d split: if_splits)
    then obtain u2 L2 where u2: "enqueue_subdirs rec path ds u1 = Some u2"
      "refines u1 L1 u2 L2 (fold ?G ?F (songs u1 L1))" "reshuffled u1 (songs u1 L1) u2 (songs u2 L2)"
      using Cons.IH [OF m(1)] bound unfolding m(2,3,4) by blast
    have "enqueue_subdirs rec path (d # ds) u = Some u2" using False u1(1) u2(1) by (simp add: d)
    moreover have "refines u L u2 L2 (fold ?G ?F (?G ?p (songs u L)))" using refines_trans [OF u1(2) u2(2)] unfolding m(2) .
    moreover have "reshuffled u (songs u L) u2 (songs u2 L2)" using u1(3) u2(3) by (rule reshuffled_trans)
    ultimately show ?thesis using False by (intro exI [of _ u2] exI [of _ L2]) (simp add: d)
  qed
qed

section \<open>Adding a folder\<close>

lemma distinct_put_song: "distinct (map fst ss) \<Longrightarrow> distinct (map fst (put_song s ss))"
  by (simp add: put_song_def)

lemma fold_invariant: "(\<And>x ss. x \<in> set xs \<Longrightarrow> P ss \<Longrightarrow> P (f x ss)) \<Longrightarrow> P ss \<Longrightarrow> P (fold f xs ss)"
  by (induction xs arbitrary: ss) auto

lemma distinct_put_file: "distinct (map fst ss) \<Longrightarrow> distinct (map fst (put_file hide m parse path ss))"
  unfolding put_file_def
  by (auto intro: fold_invariant [where P = "\<lambda>ss. distinct (map fst ss)"] distinct_put_song)

lemma distinct_folder_songs: "distinct (map fst ss) \<Longrightarrow> distinct (map fst (folder_songs hide m parse dirs k path ss))"
proof (induction k arbitrary: path ss)
  case (Suc k)
  define s1 where "s1 = fold (folder_songs hide m parse dirs k) (subfolders dirs path) ss"
  have d1: "distinct (map fst s1)"
    unfolding s1_def by (rule fold_invariant [where P = "\<lambda>ss. distinct (map fst ss)"]) (use Suc in auto)
  obtain ts where ts: "fold (put_file hide m parse) (files_in dirs path) s1 = s1 @ ts"
    using fold_extends [of _ "put_file hide m parse"] put_file_extends by metis
  have "distinct (map fst (fold (put_file hide m parse) (files_in dirs path) s1))"
    by (rule fold_invariant [where P = "\<lambda>ss. distinct (map fst ss)"]) (use d1 distinct_put_file in auto)
  then have "distinct (map fst (s1 @ ts))" unfolding ts .
  moreover have "mset (map fst (s1 @ sort_key (\<lambda>s. name_key (snd s)) ts)) = mset (map fst (s1 @ ts))" by simp
  ultimately have "distinct (map fst (s1 @ sort_key (\<lambda>s. name_key (snd s)) ts))" by (metis mset_eq_imp_distinct_iff)
  then show ?case by (simp add: Let_def ts s1_def [symmetric])
qed simp

lemma tick_ok: "music_ok u L \<Longrightarrow> music_ok (u\<lparr>ticks := Suc (ticks u)\<rparr>) L"
  using roomy_tick [of u "u\<lparr>ticks := Suc (ticks u)\<rparr>"] by (simp add: music_ok_def lists_ok_def)

lemma EnqueueFolder_adds:
  "shallow dirs k path \<Longrightarrow> adds_folder k parse dirs
     (EnqueueFolder k (\<lambda>_ p. Some (dirs p)) parse :: string \<Rightarrow> 'a music_player_scheme \<Rightarrow> (bool \<times> 'a music_player_scheme) option) path"
proof (induction k arbitrary: path)
  case (Suc k)
  let ?rec = "EnqueueFolder k (\<lambda>_ p. Some (dirs p)) parse :: string \<Rightarrow> 'a music_player_scheme \<Rightarrow> (bool \<times> 'a music_player_scheme) option"
  show ?case
    unfolding adds_folder_def
  proof (intro allI impI, elim conjE)
    fix u :: "'a music_player_scheme" and L
    let ?h = "hideExtensions u" and ?m = "menuCurrent u"
    define s1 where "s1 = fold (folder_songs ?h ?m parse dirs k) (subfolders dirs path) (songs u L)"
    define s2 where "s2 = fold (put_file ?h ?m parse) (files_in dirs path) s1"
    assume ok: "music_ok u L" and bound: "length (folder_songs ?h ?m parse dirs (Suc k) path (songs u L)) \<le> 2 ^ 31"
    have fs: "folder_songs ?h ?m parse dirs (Suc k) path (songs u L) = s1 @ sort_key (\<lambda>s. name_key (snd s)) (drop (length s1) s2)"
      by (simp add: Let_def s1_def s2_def)
    obtain ts where ts: "s2 = s1 @ ts"
      unfolding s2_def using fold_extends [of _ "put_file ?h ?m parse"] put_file_extends by metis
    have b1: "length s1 \<le> 2 ^ 31" and b2: "length s2 \<le> 2 ^ 31" using bound unfolding fs ts by simp_all
    let ?u = "u\<lparr>ticks := Suc (ticks u)\<rparr>"
    have mem: "c_malloc u = (True, ?u)" using ok by (simp add: c_malloc_def music_ok_def roomy_def)
    have same: "songs ?u L = songs u L" "hideExtensions ?u = ?h" "menuCurrent ?u = ?m" by (simp_all add: songs_def)
    have "list_all (adds_folder k parse dirs ?rec) (subfolders dirs path)"
      using Suc by (auto simp: list_all_iff)
    then obtain u2 L2 where u2: "enqueue_subdirs ?rec path (dirs path) ?u = Some u2" "refines ?u L u2 L2 s1"
      "reshuffled ?u (songs u L) u2 (songs u2 L2)"
      using enqueue_subdirs_refines [OF tick_ok [OF ok], of k parse dirs ?rec path "dirs path"] b1
      unfolding same subfolders_def s1_def by blast
    have m2: "music_ok u2 L2" "songs u2 L2 = s1" "hideExtensions u2 = ?h" "menuCurrent u2 = ?m"
      using u2(2) by (simp_all add: refines_def same_env_def)
    have "\<exists>u' L'. enqueue_files parse path (dirs path) u2 = Some u' \<and> refines u2 L2 u' L' s2 \<and> reshuffled u2 s1 u' (songs u' L')"
      using enqueue_files_refines [OF m2(1), of parse path "dirs path"] unfolding m2(2,3,4) s2_def files_in_def .
    then obtain u3 L3 where u3: "enqueue_files parse path (dirs path) u2 = Some u3" "refines u2 L2 u3 L3 s2"
      "reshuffled u2 s1 u3 (songs u3 L3)" by blast
    have m3: "music_ok u3 L3" "songs u3 L3 = s2" using u3(2) by (simp_all add: refines_def)
    have len: "length (L3 Music) = length s2" "length (L2 Music) = length s1"
      using m2(2) m3(2) unfolding songs_def by (metis length_map)+
    let ?xs = "take (length s1) (L3 Music)" and ?ys = "drop (length s1) (L3 Music)"
    have lx: "length ?xs = length s1" using len ts by simp
    obtain u4 zs where u4: "sort_new_songs (int (length s1)) u3 = Some u4" "music_ok u4 (L3(Music := ?xs @ zs))" "same_env u3 u4"
      "shuffleIndex u4 = shuffleIndex u3" "?ys = [] \<longrightarrow> zs = []"
      "songs u4 (L3(Music := ?xs @ zs)) = take (length s1) s2 @ sort_key (\<lambda>s. name_key (snd s)) (drop (length s1) s2)"
      using sort_new_songs_spec [OF m3(1), of ?xs ?ys] b2 unfolding lx m3(2) len(1) append_take_drop_id by blast
    have "b_numEntries (br u2 Music) = int (length s1)" using m2(1) len(2) by (simp add: music_ok_def)
    then have run: "EnqueueFolder (Suc k) (\<lambda>_ p. Some (dirs p)) parse path u = Some (True, u4)"
      using mem u2(1) u3(1) u4(1) by simp
    have songs4: "songs u4 (L3(Music := ?xs @ zs)) = folder_songs ?h ?m parse dirs (Suc k) path (songs u L)"
      unfolding u4(6) fs ts by simp
    have "same_env u u4" "\<forall>w. w \<noteq> Music \<longrightarrow> (L3(Music := ?xs @ zs)) w = L w"
      using u2(2) u3(2) u4(3) by (simp_all add: refines_def same_env_def)
    then have ref: "refines u L u4 (L3(Music := ?xs @ zs)) (folder_songs ?h ?m parse dirs (Suc k) path (songs u L))"
      using u4(2) songs4 unfolding refines_def by blast
    have "reshuffled u3 s2 u4 (songs u4 (L3(Music := ?xs @ zs))) \<or> shuffleIndex u3 = - 1"
    proof (cases "shuffleIndex u3 = - 1")
      case False
      then have "s2 = s1" using u3(3) m3(2) by (simp add: reshuffled_def)
      then show ?thesis unfolding u4(6) using u4(4) by (simp add: reshuffled_def)
    qed simp
    then have "reshuffled u3 s2 u4 (songs u4 (L3(Music := ?xs @ zs)))" using u4(4) by (auto simp: reshuffled_def)
    then have "reshuffled ?u (songs u L) u4 (songs u4 (L3(Music := ?xs @ zs)))"
      using u2(3) u3(3) unfolding m2(2) m3(2) by (blast intro: reshuffled_trans)
    then have "reshuffled u (songs u L) u4 (songs u4 (L3(Music := ?xs @ zs)))" by (simp add: reshuffled_def)
    with run ref show "\<exists>u' L'. EnqueueFolder (Suc k) (\<lambda>_ p. Some (dirs p)) parse path u = Some (True, u') \<and>
        refines u L u' L' (folder_songs ?h ?m parse dirs (Suc k) path (songs u L)) \<and>
        reshuffled u (songs u L) u' (songs u' L')" by blast
  qed
qed simp

text \<open>
  (C3) Adding a folder to the playlist: the list keeps its songs in place and gets behind them, for
  every folder of the tree from the inside out, the songs that are not in it yet, each folder's block
  in the stable order of the names. No song comes twice if none did before; the list stays linked,
  counted and numbered; and the shuffle starts anew if the list has changed.
\<close>

theorem folder_enqueued:
  fixes u :: "'a music_player_scheme"
  assumes "music_ok u L" "shallow dirs k path"
    "length (folder_songs (hideExtensions u) (menuCurrent u) parse dirs k path (songs u L)) \<le> 2 ^ 31"
  shows "\<exists>u' L'. EnqueueFolder k (\<lambda>_ p. Some (dirs p)) parse path u = Some (True, u') \<and> music_ok u' L' \<and>
    songs u' L' = folder_songs (hideExtensions u) (menuCurrent u) parse dirs k path (songs u L) \<and>
    (distinct (map fst (songs u L)) \<longrightarrow> distinct (map fst (songs u' L'))) \<and>
    (shuffleIndex u' = - 1 \<or> shuffleIndex u' = shuffleIndex u \<and> songs u' L' = songs u L)"
proof -
  obtain u' L' where r: "EnqueueFolder k (\<lambda>_ p. Some (dirs p)) parse path u = Some (True, u')"
    "refines u L u' L' (folder_songs (hideExtensions u) (menuCurrent u) parse dirs k path (songs u L))"
    "reshuffled u (songs u L) u' (songs u' L')"
    using EnqueueFolder_adds [OF assms(2), of parse] assms(1,3) unfolding adds_folder_def by blast
  have s: "songs u' L' = folder_songs (hideExtensions u) (menuCurrent u) parse dirs k path (songs u L)" "music_ok u' L'"
    using r(2) by (simp_all add: refines_def)
  have "distinct (map fst (songs u L)) \<longrightarrow> distinct (map fst (songs u' L'))"
    unfolding s(1) using distinct_folder_songs by blast
  with r(1,3) s show ?thesis unfolding reshuffled_def by blast
qed

text \<open>A folder with a picture, a song that is there already and a folder in it.\<close>

definition demo_tree :: "string \<Rightarrow> dirent list" where
  "demo_tree p =
     (if p = ''sd1:/music'' then [(''c.mp3'', False), (''b.mp3'', False), (''live'', True), (''B.ogg'', False), (''cover.jpg'', False)]
      else if p = ''sd1:/music/live'' then [(''z.mp3'', False)] else [])"

theorem folder_enqueued_witness:
  "\<exists>u' L'. EnqueueFolder 2 (\<lambda>_ p. Some (demo_tree p)) (\<lambda>_. None) ''sd1:/music'' (demo_player\<lparr>ticks := 10\<rparr>) = Some (True, u') \<and>
     music_ok u' L' \<and> songs u' L' = [(''sd1:/mus/x.mp3'', ''x''), (''sd1:/music/b.mp3'', ''b''), (''sd1:/music/A.mp3'', ''A''),
       (''sd1:/music/live/z.mp3'', ''z''), (''sd1:/music/B.ogg'', ''B''), (''sd1:/music/c.mp3'', ''c'')]"
proof -
  let ?u = "demo_player\<lparr>ticks := 10\<rparr>"
  have "lists_ok ?u demo_lists = lists_ok demo_player demo_lists" by (rule lists_ok_cong) simp_all
  moreover have "roomy ?u" by (auto simp: roomy_def demo_player_def)
  moreover have "numbered (cells ?u) (demo_lists Music)"
    by (simp add: numbered_def demo_player_def demo_song_def demo_cell_def All_less_Suc nth_Cons split: nat.split)
  ultimately have ok: "music_ok ?u demo_lists"
    using demo_player_ok by (simp add: music_ok_def) (simp add: demo_player_def demo_song_def demo_cell_def)
  have s: "songs ?u demo_lists = [(''sd1:/mus/x.mp3'', ''x''), (''sd1:/music/b.mp3'', ''b''), (''sd1:/music/A.mp3'', ''A'')]"
    by (simp add: songs_def song_of_def demo_player_def demo_song_def demo_cell_def)
  have env: "hideExtensions ?u = True" "menuCurrent ?u = MENU_BROWSE_MUSIC" by (simp_all add: demo_player_def)
  have sh: "shallow demo_tree 2 ''sd1:/music''" by code_simp
  have f: "folder_songs True MENU_BROWSE_MUSIC (\<lambda>_. None) demo_tree 2 ''sd1:/music''
      [(''sd1:/mus/x.mp3'', ''x''), (''sd1:/music/b.mp3'', ''b''), (''sd1:/music/A.mp3'', ''A'')] =
    [(''sd1:/mus/x.mp3'', ''x''), (''sd1:/music/b.mp3'', ''b''), (''sd1:/music/A.mp3'', ''A''),
     (''sd1:/music/live/z.mp3'', ''z''), (''sd1:/music/B.ogg'', ''B''), (''sd1:/music/c.mp3'', ''c'')]"
    by code_simp
  from folder_enqueued [OF ok sh, of "\<lambda>_. None", unfolded env s f] obtain u' L' where
    "EnqueueFolder 2 (\<lambda>_ p. Some (demo_tree p)) (\<lambda>_. None) ''sd1:/music'' ?u = Some (True, u')" "music_ok u' L'"
    "songs u' L' = [(''sd1:/mus/x.mp3'', ''x''), (''sd1:/music/b.mp3'', ''b''), (''sd1:/music/A.mp3'', ''A''),
     (''sd1:/music/live/z.mp3'', ''z''), (''sd1:/music/B.ogg'', ''B''), (''sd1:/music/c.mp3'', ''c'')]"
    by auto
  then show ?thesis by blast
qed

end
