(* ===== verification/Play_Order.thy ===== *)
theory Play_Order
  imports Music_Playlist
begin

text \<open>
  Which file follows (source/wiimc.cpp): the folder as a queue of its songs, and \<open>FindNextFile\<close> with
  the five play orders over the playlist or over that queue.
\<close>

section \<open>State\<close>

datatype play_order = PLAY_SINGLE | PLAY_CONTINUOUS | PLAY_SHUFFLE | PLAY_LOOP | PLAY_THROUGH

text \<open>\<open>started\<close> collects the files handed to MPlayer by \<open>wiiLoadFile\<close>.\<close>

record jukebox = music_player +
  folderQueue :: "string list"
  folderQueuePos :: int
  forceNextFile :: bool
  playOrder :: play_order
  menuMode :: bool
  controlledbygui :: int
  nowPlayingSet :: bool
  started :: "string list"

definition FOLDER_QUEUE_MAX :: int where
  "FOLDER_QUEUE_MAX = 4096"

section \<open>The folder as a queue\<close>

definition ClearFolderQueue :: "'a jukebox_scheme \<Rightarrow> 'a jukebox_scheme" where
  "ClearFolderQueue u = u\<lparr>folderQueue := [], folderQueuePos := - 1\<rparr>"

definition FolderQueueCount :: "'a jukebox_scheme \<Rightarrow> int" where
  "FolderQueueCount u = int (length (folderQueue u))"

text \<open>The path under which an entry is queued, when it is a song.\<close>

definition queued_path :: "'a ui_scheme \<Rightarrow> bentry \<Rightarrow> string option" where
  "queued_path u e =
     (case e_file e of None \<Rightarrow> None
      | Some f \<Rightarrow>
        if e_type e \<noteq> TYPE_FILE \<or> \<not> IsAudioExt (GetExt f) \<or> GetFullPath u (Some e) = [] then None
        else Some (GetFullPath u (Some e)))"

partial_function (option) queue_songs :: "int \<Rightarrow> addr option \<Rightarrow> 'a jukebox_scheme \<Rightarrow> 'a jukebox_scheme option" where
  "queue_songs most i u =
     (case i of None \<Rightarrow> Some u
      | Some a \<Rightarrow>
        if most \<le> FolderQueueCount u then Some u
        else
          (case cells u a of None \<Rightarrow> None
           | Some e \<Rightarrow>
             (case queued_path u e of None \<Rightarrow> queue_songs most (e_next e) u
              | Some path \<Rightarrow>
                (case c_strdup path u of
                   (None, u1) \<Rightarrow> Some u1
                 | (Some s, u1) \<Rightarrow>
                   queue_songs most (e_next e)
                     (u1\<lparr>folderQueuePos := (if s = loadedFile u1 then FolderQueueCount u1 else folderQueuePos u1),
                         folderQueue := folderQueue u1 @ [s]\<rparr>)))))"

definition BuildFolderQueue :: "'a jukebox_scheme \<Rightarrow> 'a jukebox_scheme option" where
  "BuildFolderQueue u0 =
     (let u = ClearFolderQueue u0; n = b_numEntries (br u Files) in
      if menuCurrent u \<noteq> MENU_BROWSE_MUSIC \<or> 0 < b_numEntries (br u Music) then Some u
      else if n \<le> 0 then Some u
      else
        (case c_malloc u of (ok, u1) \<Rightarrow>
          if \<not> ok then Some u1
          else
            (case queue_songs (min n FOLDER_QUEUE_MAX) (b_first (br u1 Files)) u1 of None \<Rightarrow> None
             | Some u2 \<Rightarrow> Some (if folderQueuePos u2 < 0 then ClearFolderQueue u2 else u2))))"

text \<open>Drawing until another position comes; the loop need not end.\<close>

partial_function (option) other_position :: "'a jukebox_scheme \<Rightarrow> (int \<times> 'a jukebox_scheme) option" where
  "other_position u =
     (case c_rand u of (r, u1) \<Rightarrow>
       let n = r div (RAND_MAX u div FolderQueueCount u + 1)
       in if n = folderQueuePos u then other_position u1 else Some (n, u1))"

definition queue_load :: "int \<Rightarrow> 'a jukebox_scheme \<Rightarrow> (bool \<times> 'a jukebox_scheme) option" where
  "queue_load n u =
     (if 0 \<le> n \<and> n < FolderQueueCount u
      then Some (True, u\<lparr>folderQueuePos := n, loadedFile := folderQueue u ! nat n\<rparr>) else None)"

definition FolderQueueAdvance :: "bool \<Rightarrow> 'a jukebox_scheme \<Rightarrow> (bool \<times> 'a jukebox_scheme) option" where
  "FolderQueueAdvance forced u =
     (let pos = folderQueuePos u; count = FolderQueueCount u; order = playOrder u in
      if count = 0 \<or> pos < 0 then Some (False, u)
      else if order = PLAY_SINGLE \<and> \<not> forced then Some (False, u)
      else if order = PLAY_THROUGH \<and> \<not> forced then
        if count \<le> pos + 1 then Some (False, u) else queue_load (pos + 1) u
      else if order = PLAY_SHUFFLE \<and> \<not> forced then
        if 1 < count then (case other_position u of None \<Rightarrow> None | Some (n, u1) \<Rightarrow> queue_load n u1)
        else queue_load pos u
      else if order \<noteq> PLAY_LOOP \<or> forced then queue_load (if count \<le> pos + 1 then 0 else pos + 1) u
      else queue_load pos u)"

section \<open>The next file\<close>

definition RequestNextFile :: "'a jukebox_scheme \<Rightarrow> 'a jukebox_scheme" where
  "RequestNextFile u = u\<lparr>forceNextFile := True\<rparr>"

partial_function (option) clear_play_icons :: "addr option \<Rightarrow> 'a ui_scheme \<Rightarrow> 'a ui_scheme option" where
  "clear_play_icons i u =
     (case i of None \<Rightarrow> Some u
      | Some a \<Rightarrow>
        (case cells u a of None \<Rightarrow> None
         | Some e \<Rightarrow>
           if e_icon e = ICON_PLAY then
             (case MusicPlaylistFind (Some a) u of None \<Rightarrow> None
              | Some found \<Rightarrow>
                (case upd_cell a (\<lambda>c. c\<lparr>e_icon := (if found then ICON_FILE_CHECKED else ICON_FILE)\<rparr>) u of None \<Rightarrow> None
                 | Some u1 \<Rightarrow> clear_play_icons (e_next e) u1))
           else clear_play_icons (e_next e) u))"

definition select_song :: "addr option \<Rightarrow> 'a ui_scheme \<Rightarrow> 'a ui_scheme" where
  "select_song s u = set_br Music ((br u Music)\<lparr>b_selIndex := s\<rparr>) u"

text \<open>Loading the selected song; a missing name is printed as \<open>(null)\<close>.\<close>

definition load_selected :: "'a app_scheme \<Rightarrow> (bool \<times> 'a app_scheme) option" where
  "load_selected u =
     (case load (cells u) (b_selIndex (br u Music)) of None \<Rightarrow> None
      | Some e \<Rightarrow> Some (True, u\<lparr>loadedFile := printed (e_file e)\<rparr>))"

definition playlist_advance :: "bool \<Rightarrow> 'a jukebox_scheme \<Rightarrow> (bool \<times> 'a jukebox_scheme) option" where
  "playlist_advance forced u =
     (let sel = b_selIndex (br u Music); order = playOrder u in
      if \<not> forced \<and> order = PLAY_SINGLE \<and> sel \<noteq> None then Some (False, select_song None u)
      else if order = PLAY_THROUGH then
        if sel = None then Some (False, u)
        else
          (case load (cells u) sel of None \<Rightarrow> None
           | Some e \<Rightarrow>
             if e_next e = None then Some (False, select_song None u) else load_selected (select_song (e_next e) u))
      else if sel = None then load_selected (select_song (b_first (br u Music)) u)
      else if order = PLAY_CONTINUOUS \<or> (forced \<and> order \<noteq> PLAY_SHUFFLE) then
        (case load (cells u) sel of None \<Rightarrow> None
         | Some e \<Rightarrow>
           load_selected (select_song (if e_next e = None then b_first (br u Music) else e_next e) u))
      else if order = PLAY_SHUFFLE then
        (case MusicPlaylistGetNextShuffle u of None \<Rightarrow> None | Some (s, u1) \<Rightarrow> load_selected (select_song s u1))
      else load_selected u)"

definition FindNextFile :: "int \<Rightarrow> bool \<Rightarrow> 'a jukebox_scheme \<Rightarrow> (bool \<times> 'a jukebox_scheme) option" where
  "FindNextFile pagesize play u0 =
     (let forced = forceNextFile u0; u = u0\<lparr>forceNextFile := False, nowPlayingSet := False\<rparr> in
      (case (if \<not> menuMode u \<and> menuCurrent u = MENU_BROWSE_MUSIC
             then map_option (\<lambda>v. v\<lparr>findLoadedFile := 2\<rparr>) (clear_play_icons (b_first (br u Files)) (u\<lparr>selectLoadedFile := True\<rparr>))
             else Some u)
       of None \<Rightarrow> None
        | Some u1 \<Rightarrow>
          if controlledbygui u1 = 2 then Some (False, u1)
          else if controlledbygui u1 = 0 \<and> \<not> play then Some (False, u1)
          else
            (case (if controlledbygui u1 = 0 then Some (True, u1)
                   else if b_numEntries (br u1 Music) = 0 then
                     map_option (\<lambda>(ok, v). (ok, if ok then v else select_song None v)) (FolderQueueAdvance forced u1)
                   else playlist_advance forced u1)
             of None \<Rightarrow> None
              | Some (ok, u2) \<Rightarrow>
                if \<not> ok then Some (False, u2)
                else
                  let u3 = (if play then u2\<lparr>started := started u2 @ [loadedFile u2]\<rparr> else u2) in
                  if controlledbygui u3 = 1 then map_option (Pair True) (FindFile pagesize u3) else Some (True, u3))))"

section \<open>The videos of the folder\<close>

partial_function (option) queue_videos :: "addr option \<Rightarrow> 'a ui_scheme \<Rightarrow> 'a ui_scheme option" where
  "queue_videos i u =
     (case i of None \<Rightarrow> Some u
      | Some a \<Rightarrow>
        (case cells u a of None \<Rightarrow> None
         | Some e \<Rightarrow>
           if e_file e = None \<or> e_type e \<noteq> TYPE_FILE then queue_videos (e_next e) u
           else
             (case AddEntry Videos u of None \<Rightarrow> None
              | Some (None, u1) \<Rightarrow> Some u1
              | Some (Some b, u1) \<Rightarrow>
                (case name_entry Videos b (GetFullPath u1 (Some e)) u1 of None \<Rightarrow> None
                 | Some (ok, u2) \<Rightarrow>
                   if \<not> ok then Some u2
                   else
                     let u3 = (if b_selIndex (br u2 Files) = Some a
                               then set_br Videos ((br u2 Videos)\<lparr>b_selIndex := Some b\<rparr>) u2 else u2) in
                     (case cells u3 a of None \<Rightarrow> None | Some e1 \<Rightarrow> queue_videos (e_next e1) u3)))))"

definition PopulateVideoPlaylist :: "bool \<Rightarrow> 'a ui_scheme \<Rightarrow> 'a ui_scheme option" where
  "PopulateVideoPlaylist autoPlayNextVideo u =
     (if \<not> autoPlayNextVideo then Some u
      else
        (case queue_videos (b_first (br u Files)) u of None \<Rightarrow> None
         | Some u1 \<Rightarrow>
           (case b_selIndex (br u1 Videos) of None \<Rightarrow> Some u1
            | Some a \<Rightarrow>
              (case cells u1 a of None \<Rightarrow> None
               | Some e \<Rightarrow> Some (set_br Videos ((br u1 Videos)\<lparr>b_selIndex := e_next e\<rparr>) u1)))))"

end
