(* ===== verification/Play_Queue.thy ===== *)
theory Play_Queue
  imports Play_Order Music_Shuffle
begin

text \<open>
  What the play orders do: the folder queue holds the songs of the listing and is walked as the order
  says; the playlist path always lands on a song of the list.
\<close>

section \<open>Building the queue\<close>

text \<open>The songs of a list of cells, as paths.\<close>

definition song_paths :: "'a ui_scheme \<Rightarrow> addr list \<Rightarrow> string list" where
  "song_paths u xs = List.map_filter (\<lambda>a. queued_path u (the (cells u a))) xs"

text \<open>The position is that of the loaded file, or there is none and the file is not in the queue.\<close>

definition queue_at :: "string \<Rightarrow> string list \<Rightarrow> int \<Rightarrow> bool" where
  "queue_at f q pos = (if pos < 0 then pos = - 1 \<and> f \<notin> set q else pos < int (length q) \<and> q ! nat pos = f)"

lemma queue_at_snoc:
  "queue_at f q pos \<Longrightarrow> queue_at f (q @ [s]) (if s = f then int (length q) else pos)"
  by (auto simp: queue_at_def nth_append split: if_splits)

definition queued :: "'a jukebox_scheme \<Rightarrow> nat \<Rightarrow> int \<Rightarrow> string list \<Rightarrow> 'a jukebox_scheme" where
  "queued u n pos q = u\<lparr>ticks := n, folderQueuePos := pos, folderQueue := q\<rparr>"

lemma queued_fields [simp]:
  "folderQueue (queued u n pos q) = q" "folderQueuePos (queued u n pos q) = pos" "cells (queued u n pos q) = cells u"
  "br (queued u n pos q) = br u" "loadedFile (queued u n pos q) = loadedFile u" "strdup_at (queued u n pos q) = strdup_at u"
  "ticks (queued u n pos q) = n" "queued (queued u n pos q) n' pos' q' = queued u n' pos' q'"
  by (simp_all add: queued_def)

lemma queued_updates [simp]:
  "(queued u n pos q)\<lparr>ticks := n'\<rparr> = queued u n' pos q" "(queued u n pos q)\<lparr>folderQueuePos := pos'\<rparr> = queued u n pos' q"
  "(queued u n pos q)\<lparr>folderQueue := q'\<rparr> = queued u n pos q'"
  by (simp_all add: queued_def)

lemma queued_path_cong: "br u' = br u \<Longrightarrow> queued_path u' e = queued_path u e"
proof -
  assume "br u' = br u"
  then have "GetFullPath u' x = GetFullPath u x" for x by (cases x) (simp_all add: GetFullPath_def)
  then show ?thesis by (cases "e_file e") (simp_all add: queued_path_def)
qed

lemma queue_songs_spec:
  assumes "nexts (cells u) p xs None" "\<forall>n. strdup_at u n" "queue_at (loadedFile u) q pos" "length q \<le> most"
  shows "\<exists>n pos'. queue_songs (int most) p (queued u m pos q) =
      Some (queued u n pos' (take most (q @ song_paths u xs))) \<and> queue_at (loadedFile u) (take most (q @ song_paths u xs)) pos'"
  using assms(1,3,4)
proof (induction xs arbitrary: p q pos m)
  case Nil
  then show ?case by (subst queue_songs.simps) (auto simp: song_paths_def map_filter_simps)
next
  case (Cons a xs)
  then obtain e where p: "p = Some a" and e: "cells u a = Some e" and nx: "nexts (cells u) (e_next e) xs None" by auto
  have path: "queued_path (queued u m pos q) e = queued_path u e" by (rule queued_path_cong) simp
  have cnt: "FolderQueueCount (queued u m pos q) = int (length q)" by (simp add: FolderQueueCount_def)
  show ?case
  proof (cases "int most \<le> int (length q)")
    case True
    then show ?thesis
      using Cons.prems(2,3) by (subst queue_songs.simps) (auto simp: p cnt)
  next
    case room: False
    show ?thesis
    proof (cases "queued_path u e")
      case None
      then have "song_paths u (a # xs) = song_paths u xs" by (simp add: song_paths_def map_filter_simps e)
      then show ?thesis
        using Cons.IH [OF nx Cons.prems(2,3), of m] None room e
        by (subst queue_songs.simps) (simp add: p cnt path)
    next
      case (Some s)
      let ?pos = "if s = loadedFile u then int (length q) else pos"
      have sp: "song_paths u (a # xs) = s # song_paths u xs" using Some by (simp add: song_paths_def map_filter_simps e)
      have "queue_songs (int most) p (queued u m pos q) =
          queue_songs (int most) (e_next e) (queued u (Suc m) ?pos (q @ [s]))"
        using Some room e assms(2)
        by (subst queue_songs.simps) (simp add: p cnt path c_strdup_def FolderQueueCount_def)
      moreover have "queue_at (loadedFile u) (q @ [s]) ?pos" using queue_at_snoc [OF Cons.prems(2)] .
      moreover have "length (q @ [s]) \<le> most" using room by simp
      ultimately show ?thesis using Cons.IH [OF nx, of "q @ [s]" ?pos "Suc m"] by (simp add: sp)
    qed
  qed
qed

lemma length_song_paths: "length (song_paths u xs) \<le> length xs"
  unfolding song_paths_def by (induction xs) (auto simp: map_filter_simps split: option.splits)

text \<open>
  When a song is started from a music folder and there is no playlist, the folder queue is the
  list of the folder's audio files in display order, up to 4096, and its position is at the song
  started. If that song is not among them, the queue stays empty.
\<close>

theorem folder_queue_built:
  fixes u :: "'a jukebox_scheme"
  assumes "lists_ok u L" "\<forall>n. strdup_at u n" "menuCurrent u = MENU_BROWSE_MUSIC" "b_numEntries (br u Music) = 0"
    "b_numEntries (br u Files) = int (length (L Files))"
  shows "\<exists>u'. BuildFolderQueue u = Some u' \<and>
    (if loadedFile u \<in> set (take 4096 (song_paths u (L Files)))
     then folderQueue u' = take 4096 (song_paths u (L Files)) \<and> 0 \<le> folderQueuePos u' \<and>
       folderQueuePos u' < FolderQueueCount u' \<and> folderQueue u' ! nat (folderQueuePos u') = loadedFile u
     else folderQueue u' = [] \<and> folderQueuePos u' = - 1)"
proof (cases "L Files = []")
  case True
  then show ?thesis
    using assms by (simp add: BuildFolderQueue_def Let_def ClearFolderQueue_def song_paths_def map_filter_simps)
next
  case False
  let ?q = "take 4096 (song_paths u (L Files))"
  let ?most = "min (length (L Files)) 4096"
  have nx: "nexts (cells u) (b_first (br u Files)) (L Files) None" using list_nexts [OF lists_ok_list [OF assms(1)]] .
  have q: "take ?most ([] @ song_paths u (L Files)) = ?q" using length_song_paths [of u "L Files"] by (simp add: min_def)
  obtain n pos where run: "queue_songs (int ?most) (b_first (br u Files)) (queued u (Suc (ticks u)) (- 1) []) = Some (queued u n pos ?q)"
    and at: "queue_at (loadedFile u) ?q pos"
    using queue_songs_spec [OF nx assms(2), of "[]" "- 1" ?most "Suc (ticks u)"] unfolding q by (auto simp: queue_at_def)
  have len: "int ?most = min (int (length (L Files))) FOLDER_QUEUE_MAX" by (simp add: FOLDER_QUEUE_MAX_def)
  have st: "(ClearFolderQueue u)\<lparr>ticks := Suc (ticks u)\<rparr> = queued u (Suc (ticks u)) (- 1) []"
    by (simp add: ClearFolderQueue_def queued_def)
  have "BuildFolderQueue u = Some (if pos < 0 then ClearFolderQueue (queued u n pos ?q) else queued u n pos ?q)"
    using run False assms(2-5) unfolding len
    by (simp add: BuildFolderQueue_def Let_def c_malloc_def st [symmetric]) (simp add: ClearFolderQueue_def)
  moreover have "(loadedFile u \<in> set ?q) = (\<not> pos < 0)"
  proof (cases "pos < 0")
    case False
    then have "pos < int (length ?q)" "?q ! nat pos = loadedFile u" using at by (simp_all add: queue_at_def)
    moreover from False this(1) have "nat pos < length ?q" by linarith
    ultimately have "loadedFile u \<in> set ?q" using nth_mem by metis
    with False show ?thesis by simp
  qed (use at in \<open>simp add: queue_at_def\<close>)
  moreover have "\<not> pos < 0 \<Longrightarrow> pos < int (length ?q) \<and> ?q ! nat pos = loadedFile u" using at by (simp add: queue_at_def)
  ultimately show ?thesis by (simp add: ClearFolderQueue_def FolderQueueCount_def)
qed

text \<open>A music folder with a folder and two songs, the second of them started.\<close>

definition demo_music_folder :: jukebox where
  "demo_music_folder = \<lparr>br = (\<lambda>_. blank_browser)(Files := blank_browser\<lparr>b_dir := ''sd1:/'', b_first := Some 1, b_last := Some 3, b_numEntries := 3\<rparr>),
     cells = [1 \<mapsto> demo_cell ''mus'' TYPE_FOLDER 0 None (Some 2), 2 \<mapsto> demo_cell ''a.mp3'' TYPE_FILE 1 (Some 1) (Some 3),
       3 \<mapsto> demo_cell ''b.ogg'' TYPE_FILE 2 (Some 2) None],
     ticks = 10, calloc_at = Some, strdup_at = (\<lambda>_. True), browserHistory = [], sub_list = None,
     menuCurrent = MENU_BROWSE_MUSIC, loadedFile = ''sd1:/b.ogg'', findLoadedFile = 0, selectLoadedFile = False, foundArt = False,
     dirHandle = None, hideExtensions = True, shuffleList = [], shuffleIndex = - 1, RAND_MAX = 32767, rand_at = (\<lambda>_. 0), rands = 0,
     folderQueue = [], folderQueuePos = - 1, forceNextFile = False, playOrder = PLAY_CONTINUOUS, menuMode = False,
     controlledbygui = 1, nowPlayingSet = True, started = []\<rparr>"

theorem folder_queue_built_witness:
  "\<exists>u'. BuildFolderQueue demo_music_folder = Some u' \<and> folderQueue u' = [''sd1:/a.mp3'', ''sd1:/b.ogg''] \<and> folderQueuePos u' = 1"
proof -
  let ?u = demo_music_folder and ?L = "(\<lambda>_. [])(Files := [1, 2, 3 :: addr])"
  have "dom (cells ?u) = (\<Union>w. set (?L w))" by (auto simp: demo_music_folder_def split: if_splits)
  moreover have "set (?L v) \<inter> set (?L w) = {}" if "v \<noteq> w" for v w using that by auto
  ultimately have "lists_ok ?u ?L"
    by (simp add: lists_ok_def demo_music_folder_def blank_browser_def browser_list_def dlist_def
        BrowserInit_def demo_cell_def next_of_def lastp_def)
  moreover have "\<forall>n. strdup_at ?u n" "menuCurrent ?u = MENU_BROWSE_MUSIC" "b_numEntries (br ?u Music) = 0"
    "b_numEntries (br ?u Files) = int (length (?L Files))"
    by (simp_all add: demo_music_folder_def blank_browser_def BrowserInit_def)
  moreover have p: "song_paths ?u (?L Files) = [''sd1:/a.mp3'', ''sd1:/b.ogg'']"
  proof -
    have f: "FindDevice ''a.mp3'' = None" "FindDevice ''b.ogg'' = None" "IsAudioExt (GetExt ''a.mp3'')" "IsAudioExt (GetExt ''b.ogg'')"
      by code_simp+
    show ?thesis
      by (simp add: song_paths_def map_filter_simps queued_path_def demo_music_folder_def demo_cell_def GetFullPath_def printed_def f calloc_entry_def)
  qed
  moreover have l: "loadedFile ?u = ''sd1:/b.ogg''" by (simp add: demo_music_folder_def)
  ultimately obtain u' where u': "BuildFolderQueue ?u = Some u'" "folderQueue u' = [''sd1:/a.mp3'', ''sd1:/b.ogg'']"
    "0 \<le> folderQueuePos u'" "folderQueuePos u' < 2" "folderQueue u' ! nat (folderQueuePos u') = ''sd1:/b.ogg''"
    using folder_queue_built [of ?u ?L] by (auto simp: FolderQueueCount_def)
  have "folderQueuePos u' = 0 \<or> folderQueuePos u' = 1" using u'(3,4) by linarith
  then have "folderQueuePos u' = 1" using u'(5) unfolding u'(2) by auto
  with u'(1,2) show ?thesis by blast
qed

section \<open>Walking the queue\<close>

definition queue_ok :: "'a jukebox_scheme \<Rightarrow> bool" where
  "queue_ok u = (0 \<le> folderQueuePos u \<and> folderQueuePos u < FolderQueueCount u)"

text \<open>The files of up to so many songs in a row, without the user's intervention.\<close>

fun play_run :: "nat \<Rightarrow> 'a jukebox_scheme \<Rightarrow> (string list \<times> 'a jukebox_scheme) option" where
  "play_run 0 u = Some ([], u)"
| "play_run (Suc n) u =
     (case FolderQueueAdvance False u of None \<Rightarrow> None
      | Some (ok, u1) \<Rightarrow>
        if ok then map_option (\<lambda>(fs, v). (loadedFile u1 # fs, v)) (play_run n u1) else Some ([], u1))"

definition at_pos :: "'a jukebox_scheme \<Rightarrow> nat \<Rightarrow> 'a jukebox_scheme" where
  "at_pos u i = u\<lparr>folderQueuePos := int i, loadedFile := folderQueue u ! i\<rparr>"

lemma at_pos_fields [simp]:
  "folderQueue (at_pos u i) = folderQueue u" "folderQueuePos (at_pos u i) = int i" "loadedFile (at_pos u i) = folderQueue u ! i"
  "playOrder (at_pos u i) = playOrder u" "FolderQueueCount (at_pos u i) = FolderQueueCount u" "at_pos (at_pos u i) j = at_pos u j"
  by (simp_all add: at_pos_def FolderQueueCount_def)

lemma queue_load_at: "i < length (folderQueue u) \<Longrightarrow> queue_load (int i) u = Some (True, at_pos u i)"
  by (simp add: queue_load_def at_pos_def FolderQueueCount_def)

lemma advance_continuous:
  assumes "queue_ok u" "playOrder u = PLAY_CONTINUOUS"
  shows "FolderQueueAdvance forced u = Some (True, at_pos u (Suc (nat (folderQueuePos u)) mod length (folderQueue u)))"
proof -
  let ?n = "length (folderQueue u)"
  obtain i where i: "folderQueuePos u = int i" "i < ?n"
    using assms(1) zero_le_imp_eq_int [of "folderQueuePos u"] by (auto simp: queue_ok_def FolderQueueCount_def)
  let ?i = i
  have nxt: "(if FolderQueueCount u \<le> folderQueuePos u + 1 then 0 else folderQueuePos u + 1) = int (Suc ?i mod ?n)"
    using i by (cases "Suc ?i = ?n") (auto simp: FolderQueueCount_def)
  have "Suc ?i mod ?n < ?n" using i(2) by (intro mod_less_divisor) linarith
  moreover have "FolderQueueAdvance forced u = queue_load (if FolderQueueCount u \<le> folderQueuePos u + 1 then 0 else folderQueuePos u + 1) u"
    using assms by (simp add: FolderQueueAdvance_def Let_def queue_ok_def)
  ultimately show ?thesis using queue_load_at [of "Suc ?i mod ?n" u] unfolding nxt by (simp add: i(1))
qed

lemma continuous_run:
  assumes "i < length (folderQueue u)" "playOrder u = PLAY_CONTINUOUS"
  shows "play_run n (at_pos u i) = Some (map (\<lambda>k. folderQueue u ! ((Suc i + k) mod length (folderQueue u))) [0..<n],
      at_pos u ((i + n) mod length (folderQueue u)))"
  using assms(1)
proof (induction n arbitrary: i)
  case (Suc n)
  let ?q = "folderQueue u"
  let ?j = "Suc i mod length ?q"
  have j: "?j < length ?q" using Suc.prems by (intro mod_less_divisor) linarith
  have "queue_ok (at_pos u i)" using Suc.prems by (simp add: queue_ok_def FolderQueueCount_def)
  from advance_continuous [OF this] assms(2)
  have a: "FolderQueueAdvance False (at_pos u i) = Some (True, at_pos u ?j)" by simp
  have e: "Suc (?j + k) mod length ?q = Suc (Suc (i + k)) mod length ?q" for k
    using mod_add_left_eq [of "Suc i" "length ?q" "Suc k"] by simp
  have f: "(?j + n) mod length ?q = (i + Suc n) mod length ?q" using mod_add_left_eq [of "Suc i" "length ?q" n] by simp
  have m: "map g [0..<Suc n] = g 0 # map (\<lambda>k. g (Suc k)) [0..<n]" for g :: "nat \<Rightarrow> string"
    by (simp add: upt_conv_Cons map_Suc_upt [symmetric] del: upt_Suc)
  show ?case unfolding m using Suc.IH [OF j] by (simp add: a e f del: upt_Suc)
qed simp

lemma advance_through:
  assumes "playOrder u = PLAY_THROUGH" "i < length (folderQueue u)"
  shows "FolderQueueAdvance False (at_pos u i) =
    (if Suc i < length (folderQueue u) then Some (True, at_pos u (Suc i)) else Some (False, at_pos u i))"
  using assms queue_load_at [of "Suc i" "at_pos u i"]
  by (auto simp: FolderQueueAdvance_def Let_def FolderQueueCount_def add.commute)

lemma through_run:
  assumes "playOrder u = PLAY_THROUGH" "i < length (folderQueue u)" "length (folderQueue u) - Suc i < n"
  shows "play_run n (at_pos u i) = Some (drop (Suc i) (folderQueue u), at_pos u (length (folderQueue u) - 1))"
  using assms(2,3)
proof (induction n arbitrary: i)
  case (Suc n)
  let ?q = "folderQueue u"
  show ?case
  proof (cases "Suc i < length ?q")
    case True
    then have "drop (Suc i) ?q = ?q ! Suc i # drop (Suc (Suc i)) ?q" by (simp add: Cons_nth_drop_Suc)
    then show ?thesis using True Suc.IH [OF True] Suc.prems(2) advance_through [OF assms(1) Suc.prems(1)] by simp
  next
    case False
    then have "i = length ?q - 1" using Suc.prems(1) by linarith
    then show ?thesis using False advance_through [OF assms(1) Suc.prems(1)] Suc.prems(1) by simp
  qed
qed simp

lemma advance_loop: "playOrder u = PLAY_LOOP \<Longrightarrow> i < length (folderQueue u) \<Longrightarrow>
    FolderQueueAdvance False (at_pos u i) = Some (True, at_pos u i)"
  using queue_load_at [of i "at_pos u i"] by (auto simp: FolderQueueAdvance_def Let_def FolderQueueCount_def)

lemma loop_run: "playOrder u = PLAY_LOOP \<Longrightarrow> i < length (folderQueue u) \<Longrightarrow>
    play_run n (at_pos u i) = Some (replicate n (folderQueue u ! i), at_pos u i)"
  by (induction n) (simp_all add: advance_loop)

lemma rotated: "map (\<lambda>k. q ! ((i + k) mod length q)) [0..<length q] = rotate i q"
  by (rule nth_equalityI) (simp_all add: nth_rotate)

text \<open>
  (C28) The folder queue, left alone from a song of it: \<open>continuous\<close> plays the whole queue once from the
  next song on, back to the same song; \<open>through\<close> plays exactly the songs behind it and stops; \<open>loop\<close> plays
  the same song again; \<open>single\<close> plays nothing more. No run reads outside the queue.
\<close>

theorem folder_queue_plays:
  fixes u :: "'a jukebox_scheme"
  assumes "i < length (folderQueue u)" "folderQueuePos u = int i" "loadedFile u = folderQueue u ! i"
    "playOrder u \<noteq> PLAY_SHUFFLE"
  shows "\<exists>u'. folderQueue u' = folderQueue u \<and> play_run (length (folderQueue u)) u =
    Some (case playOrder u of
        PLAY_CONTINUOUS \<Rightarrow> rotate (Suc i) (folderQueue u)
      | PLAY_THROUGH \<Rightarrow> drop (Suc i) (folderQueue u)
      | PLAY_LOOP \<Rightarrow> replicate (length (folderQueue u)) (folderQueue u ! i)
      | _ \<Rightarrow> [], u')"
proof -
  have u: "at_pos u i = u" using assms(2,3) by (simp add: at_pos_def)
  let ?q = "folderQueue u"
  show ?thesis
  proof (cases "playOrder u")
    case PLAY_CONTINUOUS
    have "play_run (length ?q) u = Some (rotate (Suc i) ?q, at_pos u ((i + length ?q) mod length ?q))"
      using continuous_run [OF assms(1) PLAY_CONTINUOUS, of "length ?q"] unfolding u rotated .
    then show ?thesis using PLAY_CONTINUOUS by (intro exI [of _ "at_pos u ((i + length ?q) mod length ?q)"]) simp
  next
    case PLAY_THROUGH
    have "play_run (length ?q) u = Some (drop (Suc i) ?q, at_pos u (length ?q - 1))"
      using through_run [OF PLAY_THROUGH assms(1), of "length ?q"] assms(1) unfolding u by simp
    then show ?thesis using PLAY_THROUGH by (intro exI [of _ "at_pos u (length ?q - 1)"]) simp
  next
    case PLAY_LOOP
    then show ?thesis using loop_run [OF PLAY_LOOP assms(1), of "length ?q"] unfolding u by (intro exI [of _ u]) simp
  next
    case PLAY_SINGLE
    then have "FolderQueueAdvance False u = Some (False, u)" by (simp add: FolderQueueAdvance_def Let_def)
    moreover obtain n where "length ?q = Suc n" using assms(1) by (cases "length ?q") auto
    ultimately show ?thesis using PLAY_SINGLE by (intro exI [of _ u]) simp
  qed (use assms(4) in simp)
qed

text \<open>The queue of a folder of three songs, at the second.\<close>

definition demo_jukebox :: jukebox where
  "demo_jukebox = music_player.extend demo_player (jukebox.fields [''sd1:/m/a.mp3'', ''sd1:/m/b.mp3'', ''sd1:/m/c.mp3''] 1 False
     PLAY_CONTINUOUS False 1 True [])\<lparr>loadedFile := ''sd1:/m/b.mp3''\<rparr>"

theorem folder_queue_plays_witness:
  "\<exists>u'. play_run 3 demo_jukebox = Some ([''sd1:/m/c.mp3'', ''sd1:/m/a.mp3'', ''sd1:/m/b.mp3''], u')"
proof -
  have h: "1 < length (folderQueue demo_jukebox)" "folderQueuePos demo_jukebox = int 1"
    "loadedFile demo_jukebox = folderQueue demo_jukebox ! 1" "playOrder demo_jukebox \<noteq> PLAY_SHUFFLE"
    by (simp_all add: demo_jukebox_def music_player.defs jukebox.defs demo_player_def)
  have "playOrder demo_jukebox = PLAY_CONTINUOUS" "folderQueue demo_jukebox = [''sd1:/m/a.mp3'', ''sd1:/m/b.mp3'', ''sd1:/m/c.mp3'']"
    by (simp_all add: demo_jukebox_def music_player.defs jukebox.defs demo_player_def)
  with folder_queue_plays [OF h] show ?thesis by (auto simp: numeral_3_eq_3)
qed

section \<open>Shuffling the queue\<close>

lemma other_position_spec:
  fixes u :: "'a jukebox_scheme"
  assumes "rand_at u (rands u + k) div (RAND_MAX u div FolderQueueCount u + 1) \<noteq> folderQueuePos u"
  shows "\<exists>m \<ge> rands u. other_position u =
      Some (rand_at u m div (RAND_MAX u div FolderQueueCount u + 1), u\<lparr>rands := Suc m\<rparr>) \<and>
    rand_at u m div (RAND_MAX u div FolderQueueCount u + 1) \<noteq> folderQueuePos u"
  using assms
proof (induction k arbitrary: u)
  case 0
  then show ?case by (subst other_position.simps) (intro exI [of _ "rands u"], simp add: c_rand_def Let_def)
next
  case (Suc k)
  let ?d = "RAND_MAX u div FolderQueueCount u + 1" and ?u = "u\<lparr>rands := Suc (rands u)\<rparr>"
  show ?case
  proof (cases "rand_at u (rands u) div ?d = folderQueuePos u")
    case True
    have "rand_at ?u (rands ?u + k) div (RAND_MAX ?u div FolderQueueCount ?u + 1) \<noteq> folderQueuePos ?u"
      using Suc.prems by (simp add: FolderQueueCount_def)
    from Suc.IH [OF this] obtain m where m: "m \<ge> Suc (rands u)"
      "other_position ?u = Some (rand_at u m div ?d, u\<lparr>rands := Suc m\<rparr>)" "rand_at u m div ?d \<noteq> folderQueuePos u"
      by (auto simp: FolderQueueCount_def)
    have "other_position u = other_position ?u"
      using True by (subst other_position.simps) (simp add: c_rand_def Let_def)
    with m show ?thesis by (intro exI [of _ m]) simp
  next
    case False
    then show ?thesis by (subst other_position.simps) (intro exI [of _ "rands u"], simp add: c_rand_def Let_def)
  qed
qed

text \<open>
  Shuffling a folder queue of at least two songs returns as soon as \<open>rand\<close> gives another
  position, and loads another song of the queue than the one played.
\<close>

theorem folder_shuffle_moves:
  fixes u :: "'a jukebox_scheme"
  assumes "rand_ok u" "queue_ok u" "1 < FolderQueueCount u" "playOrder u = PLAY_SHUFFLE"
    "rand_at u (rands u + k) div (RAND_MAX u div FolderQueueCount u + 1) \<noteq> folderQueuePos u"
  shows "\<exists>u'. FolderQueueAdvance False u = Some (True, u') \<and> queue_ok u' \<and> folderQueue u' = folderQueue u \<and>
    folderQueuePos u' \<noteq> folderQueuePos u \<and> loadedFile u' = folderQueue u ! nat (folderQueuePos u')"
proof -
  let ?d = "RAND_MAX u div FolderQueueCount u + 1"
  obtain m where m: "other_position u = Some (rand_at u m div ?d, u\<lparr>rands := Suc m\<rparr>)"
    "rand_at u m div ?d \<noteq> folderQueuePos u"
    using other_position_spec [OF assms(5)] by blast
  have "0 \<le> rand_at u m" "rand_at u m \<le> RAND_MAX u" using assms(1) by (auto simp: rand_ok_def)
  then have "0 \<le> rand_at u m div ?d" "rand_at u m div ?d < FolderQueueCount u"
    using rand_step [of "rand_at u m" "RAND_MAX u" "FolderQueueCount u"] assms(3) by auto
  moreover have "folderQueue u \<noteq> []" using assms(3) by (auto simp: FolderQueueCount_def)
  ultimately show ?thesis
    using m assms(2-4)
    by (intro exI [of _ "u\<lparr>rands := Suc m, folderQueuePos := rand_at u m div ?d, loadedFile := folderQueue u ! nat (rand_at u m div ?d)\<rparr>"])
      (simp add: FolderQueueAdvance_def Let_def queue_ok_def queue_load_def FolderQueueCount_def)
qed

theorem folder_shuffle_moves_witness:
  "\<exists>u'. FolderQueueAdvance False (demo_jukebox\<lparr>playOrder := PLAY_SHUFFLE\<rparr>) = Some (True, u') \<and> loadedFile u' \<noteq> ''sd1:/m/b.mp3''"
proof -
  let ?u = "demo_jukebox\<lparr>playOrder := PLAY_SHUFFLE\<rparr>"
  note d = demo_jukebox_def music_player.defs jukebox.defs demo_player_def
  have h: "rand_ok ?u" "queue_ok ?u" "1 < FolderQueueCount ?u" "playOrder ?u = PLAY_SHUFFLE"
    "rand_at ?u (rands ?u + 1) div (RAND_MAX ?u div FolderQueueCount ?u + 1) \<noteq> folderQueuePos ?u"
    by (simp_all add: d rand_ok_def queue_ok_def FolderQueueCount_def)
  have q: "folderQueue ?u = [''sd1:/m/a.mp3'', ''sd1:/m/b.mp3'', ''sd1:/m/c.mp3'']" "folderQueuePos ?u = 1"
    by (simp_all add: d)
  obtain u' where u': "FolderQueueAdvance False ?u = Some (True, u')" "queue_ok u'" "folderQueue u' = folderQueue ?u"
    "folderQueuePos u' \<noteq> folderQueuePos ?u" "loadedFile u' = folderQueue ?u ! nat (folderQueuePos u')"
    using folder_shuffle_moves [OF h] by blast
  have "folderQueuePos u' = 0 \<or> folderQueuePos u' = 2"
    using u'(2,3,4) unfolding q by (auto simp: queue_ok_def FolderQueueCount_def q)
  then have "loadedFile u' \<noteq> ''sd1:/m/b.mp3''" using u'(5) unfolding q by auto
  with u'(1) show ?thesis by blast
qed

end
