(* ===== verification/Play_Next.thy ===== *)
theory Play_Next
  imports Play_Queue
begin

text \<open>
  \<open>FindNextFile\<close> over the playlist (source/wiimc.cpp): which song it selects under each play order, and
  that it never leaves the list.
\<close>

section \<open>The playlist as positions\<close>

text \<open>The playlist while it plays: the shuffle is in order and the selection is a song of the list.\<close>

definition playing :: "'a jukebox_scheme \<Rightarrow> (which_list \<Rightarrow> addr list) \<Rightarrow> nat option \<Rightarrow> bool" where
  "playing u L sel =
     (plays u L \<and> (round_due u \<or> in_round u L) \<and> (\<forall>a \<in> set (L Music). e_file (the (cells u a)) \<noteq> None) \<and>
      (case sel of None \<Rightarrow> b_selIndex (br u Music) = None
       | Some i \<Rightarrow> i < length (L Music) \<and> b_selIndex (br u Music) = Some (L Music ! i)))"

text \<open>The position that follows, for the orders that do not draw it.\<close>

definition next_position :: "play_order \<Rightarrow> bool \<Rightarrow> nat \<Rightarrow> nat option \<Rightarrow> nat option" where
  "next_position order forced n sel =
     (case sel of None \<Rightarrow> if order = PLAY_THROUGH then None else Some 0
      | Some i \<Rightarrow>
        if order = PLAY_SINGLE \<and> \<not> forced then None
        else if order = PLAY_THROUGH then if Suc i < n then Some (Suc i) else None
        else if order = PLAY_CONTINUOUS \<or> forced then Some (Suc i mod n)
        else Some i)"

lemma plays_select [simp]:
  "plays (select_song s u) L = plays u L" "round_due (select_song s u) = round_due u" "in_round (select_song s u) L = in_round u L"
  "cells (select_song s u) = cells u" "b_selIndex (br (select_song s u) Music) = s" "playOrder (select_song s v) = playOrder v"
proof -
  have bl: "browser_list (cells u) (br (select_song s u) w) (L w) = browser_list (cells u) (br u w) (L w)" for w
    by (simp add: select_song_def set_br_def browser_list_def)
  show "plays (select_song s u) L = plays u L"
    using bl by (simp add: plays_def lists_ok_def rand_ok_def) (simp add: select_song_def set_br_def)
  then show "in_round (select_song s u) L = in_round u L"
    by (simp add: in_round_def) (simp add: select_song_def set_br_def)
qed (simp_all add: select_song_def set_br_def round_due_def)

lemma playing_load:
  "playing u L sel = (plays u L \<and> (round_due u \<or> in_round u L) \<and> (\<forall>a \<in> set (L Music). e_file (the (cells u a)) \<noteq> None) \<and>
     (case sel of None \<Rightarrow> True | Some i \<Rightarrow> i < length (L Music)) \<and>
     b_selIndex (br u Music) = map_option (\<lambda>i. L Music ! i) sel)"
  by (cases sel) (auto simp: playing_def)

text \<open>Loading a song of the list.\<close>

lemma plays_loaded: "plays (u\<lparr>loadedFile := f\<rparr>) L = plays u L" "round_due (u\<lparr>loadedFile := f\<rparr>) = round_due u"
    "in_round (u\<lparr>loadedFile := f\<rparr>) L = in_round u L"
  by (simp_all add: plays_def round_due_def in_round_def lists_ok_def rand_ok_def)

lemma load_at:
  fixes u :: "'a jukebox_scheme"
  assumes "playing u L s" "i < length (L Music)"
  shows "\<exists>u'. load_selected (select_song (Some (L Music ! i)) u) = Some (True, u') \<and> playing u' L (Some i) \<and>
    Some (loadedFile u') = e_file (the (cells u (L Music ! i))) \<and> playOrder u' = playOrder u"
proof -
  have a: "L Music ! i \<in> set (L Music)" using assms(2) by simp
  have "cells u (L Music ! i) \<noteq> None" using assms(1) a unfolding playing_def plays_def by (meson lists_ok_alloc)
  then obtain e where e: "cells u (L Music ! i) = Some e" by blast
  obtain f where f: "e_file e = Some f" using assms(1) a e unfolding playing_def by fastforce
  let ?u = "(select_song (Some (L Music ! i)) u)\<lparr>loadedFile := f\<rparr>"
  have "load_selected (select_song (Some (L Music ! i)) u) = Some (True, ?u)"
    using e f by (simp add: load_selected_def load_def printed_def)
  moreover have "playing ?u L (Some i)"
    using assms by (simp add: playing_def plays_loaded)
  ultimately show ?thesis using e f by (intro exI [of _ ?u]) simp
qed

lemma next_cell:
  assumes "lists_ok u L" "i < length (L Music)"
  obtains e where "cells u (L Music ! i) = Some e"
    "e_next e = (if Suc i < length (L Music) then Some (L Music ! Suc i) else None)"
proof -
  have "L Music = take i (L Music) @ L Music ! i # drop (Suc i) (L Music)" using assms(2) by (rule id_take_nth_drop)
  then obtain e where "cells u (L Music ! i) = Some e" "e_next e = headp (drop (Suc i) (L Music))"
    using dlist_cell lists_ok_dlist [OF assms(1)] by metis
  then show thesis by (intro that [of e]) (auto simp: headp_def hd_drop_conv_nth)
qed

lemma shuffle_next:
  fixes u :: "'a jukebox_scheme"
  assumes "playing u L s"
  shows "\<exists>i u'. MusicPlaylistGetNextShuffle u = Some (Some (L Music ! i), u') \<and> i < length (L Music) \<and>
    playing u' L s \<and> cells u' = cells u \<and> playOrder u' = playOrder u"
proof -
  have p: "plays u L" using assms by (simp add: playing_def)
  have inside: ?thesis
    if "MusicPlaylistGetNextShuffle u = MusicPlaylistGetNextShuffle v" "in_round v L" "shuffleIndex v < int (length (L Music))"
      "playing (v\<lparr>shuffleIndex := shuffleIndex v + 1\<rparr>) L s" "cells v = cells u" "playOrder v = playOrder u" for v
  proof -
    let ?x = "shuffleList v ! nat (shuffleIndex v)"
    have "nat (shuffleIndex v) < length (shuffleList v)" using that(2,3) in_round_list(1) [OF that(2)] by (auto simp: in_round_def)
    then have "nat ?x < length (L Music)" using in_round_list(2) [OF that(2)] by simp
    then show ?thesis
      using that(1,4-6) shuffle_inside [OF that(2,3)] unfolding song_at_def
      by (intro exI [of _ "nat ?x"] exI [of _ "v\<lparr>shuffleIndex := shuffleIndex v + 1\<rparr>"]) simp
  qed
  have step: "playing (v\<lparr>shuffleIndex := shuffleIndex v + 1\<rparr>) L s" if "in_round v L" "br v = br u" "cells v = cells u" for v
  proof -
    have "in_round (v\<lparr>shuffleIndex := shuffleIndex v + 1\<rparr>) L" using in_round_next [OF that(1)] .
    then show ?thesis using assms that(2,3) unfolding playing_load by (auto simp: in_round_def)
  qed
  show ?thesis
  proof (cases "round_due u")
    case False
    then have "in_round u L" "shuffleIndex u < int (length (L Music))"
      using assms p by (auto simp: playing_def round_due_def plays_def)
    then show ?thesis using inside [of u] step [of u] by simp
  next
    case True
    obtain v n t where v: "MusicPlaylistGetNextShuffle u = MusicPlaylistGetNextShuffle v" "in_round v L" "shuffleIndex v = 0"
      "v = u\<lparr>ticks := Suc (ticks u), rands := n, shuffleList := t, shuffleIndex := 0\<rparr>"
      by (rule round_starts [OF p True]) (rule that; assumption)
    have same: "br v = br u" "cells v = cells u" "playOrder v = playOrder u" by (simp_all add: v(4))
    have "shuffleIndex v < int (length (L Music))" using v(3) p by (simp add: plays_def)
    with v(1,2) same step [OF v(2) same(1,2)] show ?thesis by (intro inside)
  qed
qed

text \<open>
  (C25) The next song of a playlist: whatever the order, the call returns and keeps the list and its
  shuffle in order. It loads a song of the list, and the selection is at that song: the one after the
  last is the first again, or there is none, as the order says. When nothing follows, nothing is
  selected.
\<close>

theorem next_song_in_list:
  fixes u :: "'a jukebox_scheme"
  assumes "playing u L sel"
  shows "\<exists>ok u' sel'. playlist_advance forced u = Some (ok, u') \<and> playing u' L sel' \<and> ok = (sel' \<noteq> None) \<and>
    (\<forall>i. sel' = Some i \<longrightarrow> Some (loadedFile u') = e_file (the (cells u (L Music ! i)))) \<and>
    (playOrder u \<noteq> PLAY_SHUFFLE \<or> sel = None \<longrightarrow> sel' = next_position (playOrder u) forced (length (L Music)) sel)"
proof -
  let ?n = "length (L Music)" and ?order = "playOrder u"
  have ok: "lists_ok u L" and ne: "L Music \<noteq> []" using assms by (auto simp: playing_def plays_def)
  have first: "b_first (br u Music) = Some (L Music ! 0)"
    using lists_ok_list [OF ok, of Music] ne by (simp add: browser_list_def headp_def hd_conv_nth)
  have sel: "b_selIndex (br u Music) = map_option (\<lambda>i. L Music ! i) sel" using assms by (simp add: playing_load)
  have stop: ?thesis
    if "playlist_advance forced u = Some (False, select_song None u)" "next_position ?order forced ?n sel = None" "?order \<noteq> PLAY_SHUFFLE"
    using that assms by (intro exI [of _ False] exI [of _ "select_song None u"] exI [of _ None]) (simp add: playing_load)
  have go: ?thesis
    if "playlist_advance forced u = load_selected (select_song (Some (L Music ! i)) v)" "playing v L s" "i < ?n" "cells v = cells u"
      "?order \<noteq> PLAY_SHUFFLE \<or> sel = None \<Longrightarrow> next_position ?order forced ?n sel = Some i" for i v s
    using that load_at [OF that(2,3)] by (auto simp: that(4))
  show ?thesis
  proof (cases sel)
    case None
    show ?thesis
    proof (cases "?order = PLAY_THROUGH")
      case True
      have "select_song None u = u" using sel None by (cases u) (auto simp: select_song_def set_br_def)
      then show ?thesis
        using True None sel by (intro stop) (simp_all add: playlist_advance_def next_position_def Let_def)
    next
      case False
      then show ?thesis
        using None sel first ne assms
        by (intro go [of 0 u sel]) (simp_all add: playlist_advance_def next_position_def Let_def)
    qed
  next
    case (Some i)
    have i: "i < ?n" using assms Some by (simp add: playing_def)
    obtain e where e: "cells u (L Music ! i) = Some e" "e_next e = (if Suc i < ?n then Some (L Music ! Suc i) else None)"
      by (rule next_cell [OF ok i])
    have sel_i: "b_selIndex (br u Music) = Some (L Music ! i)" using sel Some by simp
    have cyc: "(if e_next e = None then b_first (br u Music) else e_next e) = Some (L Music ! (Suc i mod ?n))"
      using e(2) i first by (cases "Suc i = ?n") auto
    have lt: "Suc i mod ?n < ?n" using i by (intro mod_less_divisor) linarith
    note defs = playlist_advance_def next_position_def Let_def load_def
    consider (single) "?order = PLAY_SINGLE" "\<not> forced" | (through) "?order = PLAY_THROUGH"
      | (turn) "?order = PLAY_CONTINUOUS \<or> (forced \<and> ?order \<noteq> PLAY_SHUFFLE)" "?order \<noteq> PLAY_THROUGH" "?order \<noteq> PLAY_SINGLE \<or> forced"
      | (draw) "?order = PLAY_SHUFFLE" | (same) "?order = PLAY_LOOP" "\<not> forced"
      by (cases ?order; cases forced) auto
    then show ?thesis
    proof cases
      case single
      then show ?thesis using sel_i Some by (intro stop) (simp_all add: defs)
    next
      case through
      show ?thesis
      proof (cases "Suc i < ?n")
        case True
        then show ?thesis
          using through sel_i Some e assms by (intro go [of "Suc i" u sel]) (simp_all add: defs)
      next
        case False
        then show ?thesis using through sel_i Some e by (intro stop) (simp_all add: defs)
      qed
    next
      case turn
      then have "playlist_advance forced u = load_selected (select_song (if e_next e = None then b_first (br u Music) else e_next e) u)"
        using sel_i e(1) by (auto simp: defs)
      then show ?thesis
        using turn Some lt assms unfolding cyc by (intro go [of "Suc i mod ?n" u sel]) (auto simp: defs)
    next
      case draw
      obtain j v where j: "MusicPlaylistGetNextShuffle u = Some (Some (L Music ! j), v)" "j < ?n" "playing v L sel" "cells v = cells u"
        using shuffle_next [OF assms] by blast
      show ?thesis using draw j sel_i Some by (intro go [of j v sel]) (simp_all add: defs)
    next
      case same
      have "select_song (Some (L Music ! i)) u = u" using sel_i by (cases u) (auto simp: select_song_def set_br_def)
      then show ?thesis using same sel_i Some i assms by (intro go [of i u sel]) (simp_all add: defs)
    qed
  qed
qed

text \<open>The playlist of three songs, the second one selected.\<close>

definition demo_radio :: "play_order \<Rightarrow> jukebox" where
  "demo_radio order = music_player.extend (select_song (Some 2) demo_player) (jukebox.fields [] (- 1) False order False 1 True [])"

lemma demo_radio_playing: "playing (demo_radio order) demo_lists (Some 1)"
proof -
  have b: "br (demo_radio order) = br (select_song (Some 2) demo_player)" "cells (demo_radio order) = cells (select_song (Some 2) demo_player)"
    by (simp_all add: demo_radio_def music_player.defs)
  have "lists_ok (demo_radio order) demo_lists = lists_ok (select_song (Some 2) demo_player) demo_lists"
    by (rule lists_ok_cong) (use b in simp_all)
  moreover have "lists_ok (select_song (Some 2) demo_player) demo_lists"
    using demo_player_ok by (simp add: lists_ok_def browser_list_def select_song_def set_br_def)
  moreover have "rand_ok (demo_radio order)" "\<forall>n. strdup_at (demo_radio order) n" "round_due (demo_radio order)"
    by (simp_all add: rand_ok_def round_due_def demo_radio_def music_player.defs demo_player_def select_song_def set_br_def)
  ultimately show ?thesis
    by (simp add: playing_def plays_def)
      (simp add: b select_song_def set_br_def demo_player_def demo_song_def demo_cell_def)
qed

theorem next_song_in_list_witness:
  "\<exists>u'. playlist_advance False (demo_radio PLAY_CONTINUOUS) = Some (True, u') \<and> loadedFile u' = ''sd1:/music/A.mp3''"
proof -
  have o: "playOrder (demo_radio PLAY_CONTINUOUS) = PLAY_CONTINUOUS"
    by (simp add: demo_radio_def music_player.defs jukebox.defs)
  have c: "e_file (the (cells (demo_radio PLAY_CONTINUOUS) 3)) = Some ''sd1:/music/A.mp3''"
    by (simp add: demo_radio_def music_player.defs select_song_def set_br_def demo_player_def demo_song_def demo_cell_def)
  have np: "next_position PLAY_CONTINUOUS False (length (demo_lists Music)) (Some 1) = Some 2" by (simp add: next_position_def)
  from next_song_in_list [OF demo_radio_playing [of PLAY_CONTINUOUS], of False, unfolded o np] obtain ok u' sel' where
    n: "playlist_advance False (demo_radio PLAY_CONTINUOUS) = Some (ok, u') \<and> playing u' demo_lists sel' \<and> ok = (sel' \<noteq> None) \<and>
      (\<forall>i. sel' = Some i \<longrightarrow> Some (loadedFile u') = e_file (the (cells (demo_radio PLAY_CONTINUOUS) (demo_lists Music ! i)))) \<and>
      (PLAY_CONTINUOUS \<noteq> PLAY_SHUFFLE \<or> Some 1 = (None :: nat option) \<longrightarrow> sel' = Some 2)"
    by (elim exE) (rule that)
  then have s: "sel' = Some 2" by (elim conjE) (drule mp, simp, assumption)
  from n have "\<forall>i. sel' = Some i \<longrightarrow> Some (loadedFile u') = e_file (the (cells (demo_radio PLAY_CONTINUOUS) (demo_lists Music ! i)))"
    by (elim conjE)
  from this [rule_format, OF s] have "loadedFile u' = ''sd1:/music/A.mp3''" using c by simp
  moreover from n s have "playlist_advance False (demo_radio PLAY_CONTINUOUS) = Some (True, u')" by (elim conjE) simp
  ultimately show ?thesis by blast
qed

section \<open>Starting a playlist\<close>

lemma clear_play_icons_spec:
  assumes "lists_ok u L" "L Files = ys @ zs"
  shows "\<exists>h. clear_play_icons (headp zs) u = Some (u\<lparr>cells := h\<rparr>) \<and> lists_ok (u\<lparr>cells := h\<rparr>) L"
  using assms
proof (induction zs arbitrary: u ys)
  case Nil
  then show ?case by (intro exI [of _ "cells u"]) (subst clear_play_icons.simps, simp)
next
  case (Cons a zs)
  obtain e where e: "cells u a = Some e" "e_next e = headp zs"
    using dlist_cell [of "cells u" ys a zs] lists_ok_dlist [OF Cons.prems(1), of Files] Cons.prems(2) by auto
  have split: "L Files = (ys @ [a]) @ zs" using Cons.prems(2) by simp
  show ?case
  proof (cases "e_icon e = ICON_PLAY")
    case True
    obtain found where found: "MusicPlaylistFind (Some a) u = Some found" using MusicFind_spec [OF Cons.prems(1) e(1)] by blast
    let ?f = "\<lambda>c. c\<lparr>e_icon := (if found then ICON_FILE_CHECKED else ICON_FILE)\<rparr>"
    let ?u = "u\<lparr>cells := (cells u)(a \<mapsto> ?f e)\<rparr>"
    have ok: "lists_ok ?u L" by (rule upd_cell_ok [OF Cons.prems(1) e(1)]) (simp add: keeps_links_def)
    obtain h where h: "clear_play_icons (headp zs) ?u = Some (?u\<lparr>cells := h\<rparr>)" "lists_ok (?u\<lparr>cells := h\<rparr>) L"
      using Cons.IH [OF ok split] by blast
    have "clear_play_icons (headp (a # zs)) u = clear_play_icons (headp zs) ?u"
      using True e found by (subst clear_play_icons.simps) (simp add: upd_cell_Some [OF e(1)])
    then show ?thesis using h by (intro exI [of _ h]) simp
  next
    case False
    then have "clear_play_icons (headp (a # zs)) u = clear_play_icons (headp zs) u"
      using e by (subst clear_play_icons.simps) simp
    then show ?thesis using Cons.IH [OF Cons.prems(1) split] by simp
  qed
qed

text \<open>
  With the order \<open>through\<close> a playlist in which nothing is selected is never started: the call
  returns false and loads nothing, on every state of the browser, whether the user pressed Next or not.
  The other orders start with the first song; the play button of the audio bar calls \<open>FindNextFile\<close> with
  nothing selected and does not look at the result.
\<close>

theorem through_never_starts:
  fixes u :: "'a jukebox_scheme"
  assumes "lists_ok u L" "b_numEntries (br u Music) \<noteq> 0" "b_selIndex (br u Music) = None" "playOrder u = PLAY_THROUGH"
    "controlledbygui u = 1"
  shows "\<exists>u'. FindNextFile pagesize play u = Some (False, u') \<and> loadedFile u' = loadedFile u \<and> started u' = started u \<and>
    b_selIndex (br u' Music) = None"
proof -
  let ?u = "u\<lparr>forceNextFile := False, nowPlayingSet := False\<rparr>"
  let ?v = "?u\<lparr>selectLoadedFile := True\<rparr>"
  have ok: "lists_ok ?v L" using assms(1) by (simp add: lists_ok_def)
  have "b_first (br ?v Files) = headp (L Files)" using lists_ok_list [OF ok, of Files] by (simp add: browser_list_def)
  then obtain h where h: "clear_play_icons (b_first (br ?v Files)) ?v = Some (?v\<lparr>cells := h\<rparr>)"
    using clear_play_icons_spec [OF ok, of "[]" "L Files"] by auto
  then have clear: "clear_play_icons (b_first (br u Files)) ?v = Some (?v\<lparr>cells := h\<rparr>)" by simp
  show ?thesis
  proof (cases "\<not> menuMode u \<and> menuCurrent u = MENU_BROWSE_MUSIC")
    case True
    then show ?thesis
      using assms(2-5) by (intro exI [of _ "?v\<lparr>cells := h, findLoadedFile := 2\<rparr>"])
        (simp add: FindNextFile_def Let_def clear playlist_advance_def)
  next
    case False
    then show ?thesis
      using assms(2-5) by (intro exI [of _ ?u]) (auto simp: FindNextFile_def Let_def playlist_advance_def)
  qed
qed

theorem through_never_starts_witness:
  "\<exists>u'. FindNextFile 8 True (select_song None (demo_radio PLAY_THROUGH)) = Some (False, u') \<and> started u' = []"
proof -
  let ?u = "select_song None (demo_radio PLAY_THROUGH)"
  have "lists_ok ?u demo_lists" using demo_radio_playing [of PLAY_THROUGH] by (simp add: playing_def plays_def lists_ok_def browser_list_def select_song_def set_br_def)
  moreover have "b_numEntries (br ?u Music) \<noteq> 0" "b_selIndex (br ?u Music) = None" "playOrder ?u = PLAY_THROUGH" "controlledbygui ?u = 1" "started ?u = []"
    by (simp_all add: demo_radio_def music_player.defs jukebox.defs select_song_def set_br_def demo_player_def)
  ultimately show ?thesis using through_never_starts [of ?u demo_lists 8 True] by auto
qed

text \<open>
  The two paths of an explicit Next at the end of the list under \<open>through\<close>: the folder queue goes back to
  its first song, the playlist stops.
\<close>

lemma forced_next_differs:
  "queue_ok u \<Longrightarrow> folderQueuePos u + 1 = FolderQueueCount u \<Longrightarrow> playOrder u = PLAY_THROUGH \<Longrightarrow>
     FolderQueueAdvance True u = Some (True, u\<lparr>folderQueuePos := 0, loadedFile := folderQueue u ! 0\<rparr>)"
  "playing v L (Some i) \<Longrightarrow> Suc i = length (L Music) \<Longrightarrow> playOrder v = PLAY_THROUGH \<Longrightarrow>
     \<exists>v'. playlist_advance True v = Some (False, v')"
proof -
  assume "queue_ok u" "folderQueuePos u + 1 = FolderQueueCount u" "playOrder u = PLAY_THROUGH"
  then show "FolderQueueAdvance True u = Some (True, u\<lparr>folderQueuePos := 0, loadedFile := folderQueue u ! 0\<rparr>)"
    by (simp add: FolderQueueAdvance_def Let_def queue_ok_def queue_load_def)
next
  assume v: "playing v L (Some i)" "Suc i = length (L Music)" "playOrder v = PLAY_THROUGH"
  obtain e where "cells v (L Music ! i) = Some e" "e_next e = None"
    using next_cell [of v L i] v(1,2) unfolding playing_def plays_def by (metis lessI less_irrefl)
  then show "\<exists>v'. playlist_advance True v = Some (False, v')"
    using v by (simp add: playing_def playlist_advance_def Let_def load_def)
qed

end
