(* ===== verification/Gettext.thy ===== *)
theory Gettext
  imports Complex_Main File_Names
begin

text \<open>
  The translated messages of source/utils/gettext.cpp: the hash of a message, the expansion of escape
  sequences into a fresh buffer, the list of messages, the loader of a language file and the lookup.

  The list \<open>baseMSG\<close> is private to the file; it is modelled as the list of its cells (id, msgstr),
  a \<open>msgstr\<close> being NULL or a string. Memory may run out: \<open>mem_ok n\<close> says whether the n-th allocation
  succeeds. Every operation returns an option, \<open>None\<close> being a store outside the allocation it goes
  to, or through NULL.
\<close>

section \<open>The hash of a message\<close>

definition hash_step :: "32 word \<Rightarrow> char \<Rightarrow> 32 word" where
  "hash_step hval c =
     (let hval = push_bit 4 hval + word_of_nat (ccode c); g = hval AND push_bit 28 0xF
      in if g \<noteq> 0 then (hval XOR drop_bit 24 g) XOR g else hval)"

definition hash_string :: "string \<Rightarrow> 32 word" where
  "hash_string str = foldl hash_step 0 str"

section \<open>Escape sequences\<close>

abbreviation BSL :: char where "BSL \<equiv> CHR 0x5C"

text \<open>The escapes that stand for one byte, without the backslash and the octal ones.\<close>

definition simple_escape :: "char \<Rightarrow> char option" where
  "simple_escape c =
     (if c = CHR 0x22 then Some CHR 0x22
      else if c = CHR ''a'' then Some CHR 0x07
      else if c = CHR ''b'' then Some CHR 0x08
      else if c = CHR ''f'' then Some CHR 0x0C
      else if c = CHR ''n'' then Some CHR 0x0A
      else if c = CHR ''r'' then Some CHR 0x0D
      else if c = CHR ''t'' then Some CHR 0x09
      else if c = CHR ''v'' then Some CHR 0x0B
      else None)"

definition is_octal :: "char \<Rightarrow> bool" where
  "is_octal c \<longleftrightarrow> 48 \<le> ccode c \<and> ccode c \<le> 55"

definition octal :: "string \<Rightarrow> nat \<times> string" where
  "octal cp =
     (case cp of [] \<Rightarrow> (0, [])
      | a # r \<Rightarrow>
        (case r of [] \<Rightarrow> (digit_val a, r)
         | b # r2 \<Rightarrow>
           if is_octal b then
             (case r2 of [] \<Rightarrow> (digit_val a * 8 + digit_val b, r2)
              | c # r3 \<Rightarrow>
                if is_octal c then ((digit_val a * 8 + digit_val b) * 8 + digit_val c, r3)
                else (digit_val a * 8 + digit_val b, r2))
           else (digit_val a, r)))"

text \<open>The store \<open>*rp = c\<close> into the buffer \<open>retval\<close>.\<close>

definition put :: "char list \<Rightarrow> nat \<Rightarrow> char \<Rightarrow> char list option" where
  "put retval rp c = (if rp < length retval then Some (retval[rp := c]) else None)"

text \<open>The loop that copies up to the next backslash; \<open>cp\<close> is the text still to read.\<close>

fun copy_plain :: "char list \<Rightarrow> nat \<Rightarrow> string \<Rightarrow> (char list \<times> nat \<times> string) option" where
  "copy_plain retval rp [] = Some (retval, rp, [])"
| "copy_plain retval rp (c # cs) =
     (if c = BSL then Some (retval, rp, c # cs)
      else (case put retval rp c of None \<Rightarrow> None | Some b \<Rightarrow> copy_plain b (Suc rp) cs))"

text \<open>
  The switch; \<open>cp\<close> is the text behind the backslash. The cases of a backslash, of an octal number
  and of an unknown escape store a byte and leave \<open>rp\<close> where it is, as the code does.
\<close>

definition escape_step :: "char list \<Rightarrow> nat \<Rightarrow> string \<Rightarrow> (char list \<times> nat \<times> string) option" where
  "escape_step retval rp cp =
     (case cp of [] \<Rightarrow> map_option (\<lambda>b. (b, rp, cp)) (put retval rp BSL)
      | c # r \<Rightarrow>
        (case simple_escape c of
           Some x \<Rightarrow> map_option (\<lambda>b. (b, Suc rp, r)) (put retval rp x)
         | None \<Rightarrow>
           if c = BSL then map_option (\<lambda>b. (b, rp, r)) (put retval rp BSL)
           else if is_octal c then
             map_option (\<lambda>b. (b, rp, snd (octal cp))) (put retval rp (char_of (fst (octal cp) mod 256)))
           else map_option (\<lambda>b. (b, rp, cp)) (put retval rp BSL)))"

partial_function (option) expand_loop :: "char list \<Rightarrow> nat \<Rightarrow> string \<Rightarrow> (char list \<times> nat) option" where
  "expand_loop retval rp cp =
     (case cp of [] \<Rightarrow> Some (retval, rp)
      | _ # cs \<Rightarrow>
        (case escape_step retval rp cs of None \<Rightarrow> None
         | Some e \<Rightarrow>
           (case copy_plain (fst e) (fst (snd e)) (snd (snd e)) of None \<Rightarrow> None
            | Some r \<Rightarrow> expand_loop (fst r) (fst (snd r)) (snd (snd r)))))"

text \<open>\<open>malloc\<close> returns NULL, or \<open>strlen(str) + 1\<close> bytes of unknown content, \<open>mem\<close>.\<close>

definition expand_escape :: "bool \<Rightarrow> (nat \<Rightarrow> char) \<Rightarrow> string \<Rightarrow> string option option" where
  "expand_escape ok mem str =
     (if \<not> ok then Some None
      else
        (case copy_plain (map mem [0..<length str + 1]) 0 str of None \<Rightarrow> None
         | Some r \<Rightarrow>
           (case expand_loop (fst r) (fst (snd r)) (snd (snd r)) of None \<Rightarrow> None
            | Some e \<Rightarrow> map_option (\<lambda>b. Some (c_str b)) (put (fst e) (snd e) NUL))))"

section \<open>The list of messages\<close>

record catalog =
  baseMSG :: "(32 word \<times> string option) list"
  m_ticks :: nat
  mem_ok :: "nat \<Rightarrow> bool"
  mem_fill :: "nat \<Rightarrow> nat \<Rightarrow> char"

definition findMSG :: "32 word \<Rightarrow> catalog \<Rightarrow> (32 word \<times> string option) option" where
  "findMSG key g = find (\<lambda>m. fst m = key) (baseMSG g)"

text \<open>The store \<open>msg->msgstr = s\<close> into the cell that \<open>findMSG\<close> finds.\<close>

fun set_msgstr :: "32 word \<Rightarrow> string option \<Rightarrow> (32 word \<times> string option) list \<Rightarrow> (32 word \<times> string option) list" where
  "set_msgstr key s [] = []"
| "set_msgstr key s (m # ms) = (if fst m = key then (key, s) # ms else m # set_msgstr key s ms)"

definition setMSG :: "string \<Rightarrow> string option \<Rightarrow> catalog \<Rightarrow> catalog option" where
  "setMSG msgid msgstr g =
     (let key = hash_string msgid in
      case (if findMSG key g = None then
              (if mem_ok g (m_ticks g) then Some (g\<lparr>m_ticks := Suc (m_ticks g), baseMSG := (key, None) # baseMSG g\<rparr>)
               else None)
            else Some g)
      of None \<Rightarrow> None
       | Some g1 \<Rightarrow>
         (case msgstr of None \<Rightarrow> Some g1
          | Some s \<Rightarrow>
            (case expand_escape (mem_ok g1 (m_ticks g1)) (mem_fill g1 (m_ticks g1)) s of None \<Rightarrow> None
             | Some t \<Rightarrow> Some (g1\<lparr>m_ticks := Suc (m_ticks g1), baseMSG := set_msgstr key t (baseMSG g1)\<rparr>))))"

fun free_messages :: "(32 word \<times> string option) list \<Rightarrow> (32 word \<times> string option) list" where
  "free_messages [] = []"
| "free_messages (m # nextMsg) = free_messages nextMsg"

definition gettextCleanUp :: "catalog \<Rightarrow> catalog" where
  "gettextCleanUp g = g\<lparr>baseMSG := free_messages (baseMSG g)\<rparr>"

definition gettext :: "string \<Rightarrow> catalog \<Rightarrow> string" where
  "gettext msgid g =
     (case findMSG (hash_string msgid) g of None \<Rightarrow> msgid
      | Some m \<Rightarrow> (case snd m of None \<Rightarrow> msgid | Some s \<Rightarrow> s))"

section \<open>Loading a language file\<close>

text \<open>
  \<open>memfgets\<close> into a buffer of \<open>maxlen\<close> bytes. The source \<open>src\<close> is the memory up to its next NUL. The
  copy does not look at \<open>maxlen\<close>: a longer line is stored past the end of the buffer (\<open>None\<close>).
\<close>

definition memfgets :: "nat \<Rightarrow> string \<Rightarrow> (string \<times> string) option option" where
  "memfgets maxlen src =
     (if maxlen = 0 then Some None
      else if CHR 0x0A \<notin> set src then Some None
      else
        (let line = c_before CHR 0x0A src
         in if maxlen \<le> length line then None else Some (Some (line, drop 1 (c_from CHR 0x0A src)))))"

text \<open>The text up to the last quote, when the quote has at least two bytes before it.\<close>

definition quoted :: "string \<Rightarrow> string option" where
  "quoted s =
     (if CHR 0x22 \<in> set s \<and> 1 < length (before_last CHR 0x22 s) then Some (before_last CHR 0x22 s) else None)"

definition load_line :: "string \<Rightarrow> string option \<Rightarrow> catalog \<Rightarrow> (string option \<times> catalog) option" where
  "load_line line lastID g =
     (if take 1 line = ''#'' then Some (lastID, g)
      else if c_strncmp line (''msgid '' @ [CHR 0x22]) 7 then
        (case quoted (drop 7 line) of None \<Rightarrow> Some (None, g)
         | Some msgid \<Rightarrow>
           Some (if mem_ok g (m_ticks g) then Some msgid else None, g\<lparr>m_ticks := Suc (m_ticks g)\<rparr>))
      else if c_strncmp line (''msgstr '' @ [CHR 0x22]) 8 then
        (case lastID of None \<Rightarrow> Some (None, g)
         | Some key \<Rightarrow>
           (case quoted (drop 8 line) of None \<Rightarrow> Some (None, g)
            | Some msgstr \<Rightarrow> map_option (Pair None) (setMSG key (Some msgstr) g)))
      else Some (lastID, g))"

text \<open>
  The loop over the lines: \<open>src\<close> is the memory at \<open>file\<close>, up to its next NUL, and \<open>left\<close> is
  \<open>eof - file\<close>.
\<close>

function load_lines :: "string \<Rightarrow> nat \<Rightarrow> string option \<Rightarrow> catalog \<Rightarrow> catalog option" where
  "load_lines src left lastID g =
     (if left = 0 then Some g
      else
        (case memfgets 350 src of None \<Rightarrow> None
         | Some None \<Rightarrow> Some g
         | Some (Some (line, rest)) \<Rightarrow>
           (case load_line line lastID g of None \<Rightarrow> None
            | Some r \<Rightarrow> load_lines rest (left - (length line + 1)) (fst r) (snd r))))"
  by pat_completeness auto

termination
  by (relation "measure (\<lambda>(src, left, lastID, g). left)") auto

declare load_lines.simps [simp del]

datatype language = LANG_ENGLISH | LANG_SPANISH | LANG_OTHER

text \<open>
  \<open>embedded l\<close> is the memory at the embedded file of the language, up to its next NUL; the sizes are the
  constants of the source.
\<close>

definition en_lang_size :: nat where "en_lang_size = 0x35"

definition es_lang_size :: nat where "es_lang_size = 0x17D7"

definition LoadLanguage :: "(language \<Rightarrow> string) \<Rightarrow> language \<Rightarrow> catalog \<Rightarrow> (bool \<times> catalog) option" where
  "LoadLanguage embedded language g =
     (case language of
        LANG_ENGLISH \<Rightarrow> map_option (Pair True) (load_lines (embedded language) en_lang_size None (gettextCleanUp g))
      | LANG_SPANISH \<Rightarrow> map_option (Pair True) (load_lines (embedded language) es_lang_size None (gettextCleanUp g))
      | LANG_OTHER \<Rightarrow> Some (False, g))"

section \<open>Expansion stays in its buffer\<close>

text \<open>What the expansion writes: an escaped backslash, an octal number and a lone backslash leave nothing.\<close>

lemma octal_length: "cs \<noteq> [] \<Longrightarrow> length (snd (octal cs)) < length cs"
  by (auto simp: octal_def split: list.splits)

lemma octal_length_Cons [simp]: "length (snd (octal (d # r))) < Suc (Suc (length r))"
  using octal_length [of "d # r"] by simp

function unescape :: "string \<Rightarrow> string" where
  "unescape [] = []"
| "unescape (c # cs) =
     (if c \<noteq> BSL then c # unescape cs
      else
        (case cs of [] \<Rightarrow> []
         | d # r \<Rightarrow>
           (case simple_escape d of Some x \<Rightarrow> x # unescape r
            | None \<Rightarrow>
              if d = BSL then unescape r
              else if is_octal d then unescape (snd (octal cs))
              else d # unescape r)))"
  by pat_completeness auto

termination
  by (relation "measure length") auto

declare unescape.simps(2) [simp del]

lemma unescape_plain: "BSL \<notin> set p \<Longrightarrow> unescape (p @ r) = p @ unescape r"
  by (induction p) (auto simp: unescape.simps(2))

lemma octal_set: "set (snd (octal cs)) \<subseteq> set cs"
  by (auto simp: octal_def split: list.splits if_splits)

lemma simple_escape_nul: "simple_escape d = Some x \<Longrightarrow> x \<noteq> NUL"
  by (auto simp: simple_escape_def split: if_splits)

lemma unescape_nul: "NUL \<notin> set s \<Longrightarrow> NUL \<notin> set (unescape s)"
proof (induction s rule: unescape.induct)
  case (2 c cs)
  show ?case
  proof (cases "c = BSL")
    case False
    with 2 show ?thesis by (simp add: unescape.simps(2))
  next
    case True
    show ?thesis
    proof (cases cs)
      case Nil
      with True show ?thesis by (simp add: unescape.simps(2))
    next
      case (Cons d r)
      have "NUL \<notin> set (snd (octal cs))" using octal_set [of cs] "2.prems" by auto
      with True Cons 2 show ?thesis
        by (auto simp: unescape.simps(2) [of BSL] dest: simple_escape_nul split: option.splits)
    qed
  qed
qed simp

lemma put_take: "rp < length b \<Longrightarrow> take (Suc rp) (b[rp := c]) = take rp b @ [c]"
  by (simp add: take_Suc_conv_app_nth)

lemma copy_plain_spec:
  "rp + length cs < length b \<Longrightarrow>
   \<exists>b'. copy_plain b rp cs = Some (b', rp + length (takeWhile (\<lambda>c. c \<noteq> BSL) cs), dropWhile (\<lambda>c. c \<noteq> BSL) cs) \<and>
     length b' = length b \<and>
     take (rp + length (takeWhile (\<lambda>c. c \<noteq> BSL) cs)) b' = take rp b @ takeWhile (\<lambda>c. c \<noteq> BSL) cs"
proof (induction cs arbitrary: b rp)
  case (Cons c cs)
  show ?case
  proof (cases "c = BSL")
    case False
    have "Suc rp + length cs < length (b[rp := c])" using Cons.prems by simp
    from Cons.IH [OF this] Cons.prems False show ?thesis by (simp add: put_def put_take)
  qed simp
qed simp

lemma escape_step_spec:
  assumes "rp + length cs < length b"
  shows "\<exists>b' out rest. escape_step b rp cs = Some (b', rp + length out, rest) \<and> length b' = length b \<and>
     take (rp + length out) b' = take rp b @ out \<and> length out + length rest \<le> length cs \<and>
     unescape (BSL # cs) = out @ unescape rest"
proof (cases cs)
  case Nil
  then show ?thesis using assms
    by (intro exI [of _ "b[rp := BSL]"] exI [of _ "[]"]) (simp add: escape_step_def put_def unescape.simps)
next
  case (Cons d r)
  have rp: "rp < length b" using assms by simp
  consider (simple) x where "simple_escape d = Some x" | (twice) "simple_escape d = None" "d = BSL"
    | (oct) "simple_escape d = None" "d \<noteq> BSL" "is_octal d" | (other) "simple_escape d = None" "d \<noteq> BSL" "\<not> is_octal d"
    by (cases "simple_escape d"; blast)
  then show ?thesis
  proof cases
    case simple
    with Cons rp show ?thesis
      by (intro exI [of _ "b[rp := x]"] exI [of _ "[x]"] exI [of _ r])
        (simp add: escape_step_def put_def put_take unescape.simps(2) [of BSL])
  next
    case twice
    with Cons rp show ?thesis
      by (intro exI [of _ "b[rp := BSL]"] exI [of _ "[]"] exI [of _ r])
        (simp add: escape_step_def put_def unescape.simps(2) [of BSL "BSL # r"])
  next
    case oct
    with Cons rp octal_length [of cs] show ?thesis
      by (intro exI [of _ "b[rp := char_of (fst (octal cs) mod 256)]"] exI [of _ "[]"] exI [of _ "snd (octal cs)"])
        (simp add: escape_step_def put_def unescape.simps(2) [of BSL])
  next
    case other
    with Cons rp show ?thesis
      by (intro exI [of _ "b[rp := BSL]"] exI [of _ "[]"] exI [of _ cs])
        (simp add: escape_step_def put_def unescape.simps(2) [of BSL] unescape.simps(2) [of d])
  qed
qed

text \<open>A copy after a step: the text up to the next backslash.\<close>

lemma unescape_split: "unescape cs = takeWhile (\<lambda>c. c \<noteq> BSL) cs @ unescape (dropWhile (\<lambda>c. c \<noteq> BSL) cs)"
proof -
  have "BSL \<notin> set (takeWhile (\<lambda>c. c \<noteq> BSL) cs)" by (auto dest: set_takeWhileD)
  from unescape_plain [OF this, of "dropWhile (\<lambda>c. c \<noteq> BSL) cs"] show ?thesis by simp
qed

lemma expand_loop_spec:
  assumes "rp + length cs < length b" "cs = [] \<or> hd cs = BSL"
  shows "\<exists>b'. expand_loop b rp cs = Some (b', rp + length (unescape cs)) \<and> length b' = length b \<and>
     rp + length (unescape cs) < length b \<and> take (rp + length (unescape cs)) b' = take rp b @ unescape cs"
  using assms
proof (induction "length cs" arbitrary: b rp cs rule: less_induct)
  case less
  show ?case
  proof (cases cs)
    case Nil
    with less.prems show ?thesis by (simp add: expand_loop.simps [of _ _ "[]"])
  next
    case (Cons c r)
    with less.prems have c: "cs = BSL # r" and r: "rp + length r < length b" by auto
    from escape_step_spec [OF r] obtain b1 out rest where e: "escape_step b rp r = Some (b1, rp + length out, rest)"
      "length b1 = length b" "take (rp + length out) b1 = take rp b @ out" "length out + length rest \<le> length r"
      "unescape (BSL # r) = out @ unescape rest" by blast
    let ?p = "takeWhile (\<lambda>c. c \<noteq> BSL) rest" and ?d = "dropWhile (\<lambda>c. c \<noteq> BSL) rest"
    have "(rp + length out) + length rest < length b1" using e(2,4) r by simp
    from copy_plain_spec [OF this] obtain b2 where p: "copy_plain b1 (rp + length out) rest = Some (b2, rp + length out + length ?p, ?d)"
      "length b2 = length b1" "take (rp + length out + length ?p) b2 = take (rp + length out) b1 @ ?p" by blast
    have len: "length ?p + length ?d = length rest" by (metis length_append takeWhile_dropWhile_id)
    have sz: "(rp + length out + length ?p) + length ?d < length b2" using e(2,4) p(2) r len by simp
    have hd: "?d = [] \<or> hd ?d = BSL" using hd_dropWhile [of "\<lambda>c. c \<noteq> BSL" rest] by auto
    have "length ?d < length cs" using e(4) len c by simp
    from less.hyps [OF this sz hd] obtain b3 where l:
      "expand_loop b2 (rp + length out + length ?p) ?d = Some (b3, rp + length out + length ?p + length (unescape ?d))"
      "length b3 = length b2" "rp + length out + length ?p + length (unescape ?d) < length b2"
      "take (rp + length out + length ?p + length (unescape ?d)) b3 = take (rp + length out + length ?p) b2 @ unescape ?d"
      by blast
    have u: "unescape cs = out @ ?p @ unescape ?d" using e(5) unescape_split [of rest] c by simp
    then have n: "rp + length (unescape cs) = rp + length out + length ?p + length (unescape ?d)" by simp
    have "expand_loop b rp cs = Some (b3, rp + length (unescape cs))"
      unfolding n using c e(1) p(1) l(1) by (subst expand_loop.simps) simp
    then show ?thesis unfolding n using u e(2,3) p(2,3) l(2-4) by simp
  qed
qed

lemma c_str_append: "NUL \<notin> set s \<Longrightarrow> c_str (s @ NUL # r) = s"
  by (induction s) (auto simp: c_str_def)

lemma expand_escape_spec:
  assumes "NUL \<notin> set str"
  shows "expand_escape ok mem str = Some (if ok then Some (unescape str) else None)"
proof (cases ok)
  case True
  let ?b = "map mem [0..<length str + 1]"
  let ?p = "takeWhile (\<lambda>c. c \<noteq> BSL) str" and ?d = "dropWhile (\<lambda>c. c \<noteq> BSL) str"
  have "0 + length str < length ?b" by simp
  from copy_plain_spec [OF this] obtain b1 where p: "copy_plain ?b 0 str = Some (b1, length ?p, ?d)"
    "length b1 = length ?b" "take (length ?p) b1 = ?p" by auto
  have len: "length ?p + length ?d = length str" by (metis length_append takeWhile_dropWhile_id)
  have sz: "length ?p + length ?d < length b1" using p(2) len by simp
  have hd: "?d = [] \<or> hd ?d = BSL" using hd_dropWhile [of "\<lambda>c. c \<noteq> BSL" str] by auto
  from expand_loop_spec [OF sz hd] obtain b2 where l: "expand_loop b1 (length ?p) ?d = Some (b2, length (unescape str))"
    "length b2 = length b1" "length (unescape str) < length b1" "take (length (unescape str)) b2 = unescape str"
    using unescape_split [of str] p(3) by auto
  have "take (Suc (length (unescape str))) (b2[length (unescape str) := NUL]) = unescape str @ [NUL]"
    using put_take [of "length (unescape str)" b2 NUL] l by simp
  then have "b2[length (unescape str) := NUL] = unescape str @ NUL # drop (Suc (length (unescape str))) (b2[length (unescape str) := NUL])"
    by (metis append.assoc append_Cons append_Nil append_take_drop_id)
  then have "c_str (b2[length (unescape str) := NUL]) = unescape str"
    using c_str_append [OF unescape_nul [OF assms]] by metis
  then show ?thesis using True p(1) l by (simp add: expand_escape_def put_def)
qed (simp add: expand_escape_def)

text \<open>
  (C36) Expanding a message ends, never stores outside the \<open>strlen + 1\<close> bytes it allocated whatever
  they held, and gives \<open>unescape\<close> of the text; without memory it gives NULL. In particular an escaped
  backslash and an octal escape expand to nothing.
\<close>

theorem expand_escape_stays:
  assumes "NUL \<notin> set str"
  shows "expand_escape ok mem str = Some (if ok then Some (unescape str) else None)"
  by (rule expand_escape_spec [OF assms])

definition demo_escaped :: string where
  "demo_escaped = [CHR ''a'', BSL, CHR ''n'', CHR ''b'', BSL, BSL, CHR ''c'', BSL, CHR ''1'', CHR ''0'', CHR ''1'', CHR ''d'', BSL]"

theorem expand_escape_stays_witness:
  "expand_escape True (\<lambda>_. NUL) demo_escaped = Some (Some [CHR ''a'', CHR 0x0A, CHR ''b'', CHR ''c'', CHR ''d''])"
proof -
  have u: "unescape demo_escaped = [CHR ''a'', CHR 0x0A, CHR ''b'', CHR ''c'', CHR ''d'']" by code_simp
  have "NUL \<notin> set demo_escaped" by (simp add: demo_escaped_def)
  from expand_escape_stays [OF this, of True "\<lambda>_. NUL"] show ?thesis unfolding u by simp
qed

section \<open>The hash leaves the upper four bits clear\<close>

lemma hash_step_top: "28 \<le> n \<Longrightarrow> \<not> bit (hash_step hval c) n"
proof (cases "n < 32")
  case True
  assume "28 \<le> n"
  with True have n: "n - 28 < 4" "n < 32" "28 \<le> n" by auto
  define h where "h = push_bit 4 hval + (word_of_nat (ccode c) :: 32 word)"
  have m: "bit (push_bit 28 0xF :: 32 word) n"
  proof -
    have "n = 28 \<or> n = 29 \<or> n = 30 \<or> n = 31" using n by auto
    then show ?thesis by (elim disjE) (simp_all add: bit_push_bit_iff)
  qed
  have d: "\<not> bit (drop_bit 24 (h AND push_bit 28 0xF)) n" using n bit_imp_le_length [of h "24 + n"] by (auto simp: bit_drop_bit_eq bit_and_iff)
  show ?thesis
  proof (cases "h AND push_bit 28 0xF = 0")
    case True
    then have "\<not> bit (h AND push_bit 28 0xF) n" by simp
    then have "\<not> bit h n" using m by (simp add: bit_and_iff)
    then show ?thesis using True by (simp add: hash_step_def h_def Let_def)
  next
    case False
    have "\<not> bit ((h XOR drop_bit 24 (h AND push_bit 28 0xF)) XOR (h AND push_bit 28 0xF)) n"
      using d m by (auto simp: bit_xor_iff bit_and_iff)
    then show ?thesis using False by (simp add: hash_step_def h_def Let_def)
  qed
next
  case False
  then show ?thesis using bit_imp_le_length [of "hash_step hval c" n] by auto
qed

lemma hash_fold_top: "(\<And>n. 28 \<le> n \<Longrightarrow> \<not> bit h n) \<Longrightarrow> 28 \<le> n \<Longrightarrow> \<not> bit (foldl hash_step h s) n"
  by (induction s arbitrary: h) (auto simp: hash_step_top)

text \<open>
  The hash of a message fits in 28 bits, so the shift by four of the next step loses no bit.
\<close>

lemma hash_string_bound: "take_bit 28 (hash_string s) = hash_string s"
proof (rule bit_eqI)
  fix n
  show "bit (take_bit 28 (hash_string s)) n = bit (hash_string s) n"
    using hash_fold_top [of 0 n s] by (cases "n < 28") (simp_all add: bit_take_bit_iff hash_string_def)
qed

section \<open>The list of messages holds the last message loaded for each hash\<close>

text \<open>The pairs of a language file, line by line.\<close>

fun entries :: "string list \<Rightarrow> string option \<Rightarrow> (string \<times> string) list" where
  "entries [] lastID = []"
| "entries (line # ls) lastID =
     (if take 1 line = ''#'' then entries ls lastID
      else if c_strncmp line (''msgid '' @ [CHR 0x22]) 7 then entries ls (quoted (drop 7 line))
      else if c_strncmp line (''msgstr '' @ [CHR 0x22]) 8 then
        (case (lastID, quoted (drop 8 line)) of
           (Some key, Some s) \<Rightarrow> (key, s) # entries ls None
         | _ \<Rightarrow> entries ls None)
      else entries ls lastID)"

text \<open>The lines that start before the end of the file and are ended by a newline.\<close>

function file_lines :: "string \<Rightarrow> nat \<Rightarrow> string list" where
  "file_lines src left =
     (if left = 0 \<or> CHR 0x0A \<notin> set src then []
      else c_before CHR 0x0A src # file_lines (drop 1 (c_from CHR 0x0A src)) (left - (length (c_before CHR 0x0A src) + 1)))"
  by pat_completeness auto

termination
  by (relation "measure snd") auto

declare file_lines.simps [simp del]

definition held :: "(string \<times> string) list \<Rightarrow> 32 word \<Rightarrow> string option option" where
  "held es = map_of (map (\<lambda>(i, s). (hash_string i, Some (unescape s))) (rev es))"

lemma held_simps: "held [] = Map.empty" "held (es @ [(i, s)]) = (held es)(hash_string i \<mapsto> Some (unescape s))"
  by (simp_all add: held_def)

lemma findMSG_map_of: "map_option snd (findMSG key g) = map_of (baseMSG g) key"
proof -
  have "map_option snd (find (\<lambda>m. fst m = key) ms) = map_of ms key" for ms :: "(32 word \<times> string option) list"
    by (induction ms) auto
  then show ?thesis by (simp add: findMSG_def)
qed

lemma map_of_set_msgstr: "map_of ms key \<noteq> None \<Longrightarrow> map_of (set_msgstr key s ms) = (map_of ms)(key \<mapsto> s)"
  by (induction ms) (auto simp: fun_eq_iff)

definition ample :: "catalog \<Rightarrow> bool" where
  "ample g \<longleftrightarrow> (\<forall>n. mem_ok g n)"

lemma setMSG_spec:
  assumes "ample g" "NUL \<notin> set s"
  shows "\<exists>g'. setMSG key (Some s) g = Some g' \<and> ample g' \<and>
     map_of (baseMSG g') = (map_of (baseMSG g))(hash_string key \<mapsto> Some (unescape s))"
proof -
  let ?h = "hash_string key"
  let ?g1 = "if findMSG ?h g = None then g\<lparr>m_ticks := Suc (m_ticks g), baseMSG := (?h, None) # baseMSG g\<rparr> else g"
  let ?g2 = "?g1\<lparr>m_ticks := Suc (m_ticks ?g1), baseMSG := set_msgstr ?h (Some (unescape s)) (baseMSG ?g1)\<rparr>"
  have a: "ample ?g1" using assms(1) by (simp add: ample_def)
  have f: "findMSG ?h g = None \<longleftrightarrow> map_of (baseMSG g) ?h = None"
    unfolding findMSG_map_of [symmetric] by simp
  have m: "map_of (baseMSG ?g1) ?h \<noteq> None" using f by auto
  have "map_of (baseMSG ?g2) = (map_of (baseMSG ?g1))(?h \<mapsto> Some (unescape s))"
    using map_of_set_msgstr [OF m] by simp
  also have "\<dots> = (map_of (baseMSG g))(?h \<mapsto> Some (unescape s))" by (auto simp: fun_eq_iff)
  finally have t: "map_of (baseMSG ?g2) = (map_of (baseMSG g))(?h \<mapsto> Some (unescape s))" .
  have "setMSG key (Some s) g = Some ?g2"
    using assms a by (simp add: setMSG_def Let_def ample_def expand_escape_spec)
  moreover have "ample ?g2" using a by (simp add: ample_def)
  ultimately show ?thesis using t by blast
qed

lemma quoted_set: "quoted t = Some s \<Longrightarrow> set s \<subseteq> set t"
  by (auto simp: quoted_def before_last_def c_from_def split: if_splits dest!: in_set_dropD set_dropWhileD)

lemma load_line_spec:
  assumes "ample g" "NUL \<notin> set line"
  shows "\<exists>g' l'. load_line line lastID g = Some (l', g') \<and> ample g' \<and>
     (\<forall>es. map_of (baseMSG g) = held es \<longrightarrow>
       (\<exists>new. map_of (baseMSG g') = held (es @ new) \<and> (\<forall>ls. entries (line # ls) lastID = new @ entries ls l')))"
proof -
  have q: "NUL \<notin> set s" if "quoted (drop n line) = Some s" for n s
    using quoted_set [OF that] assms(2) by (auto dest: in_set_dropD)
  consider (comment) "take 1 line = ''#''"
    | (msgid) "take 1 line \<noteq> ''#''" "c_strncmp line (''msgid '' @ [CHR 0x22]) 7"
    | (msgstr) i s where "take 1 line \<noteq> ''#''" "\<not> c_strncmp line (''msgid '' @ [CHR 0x22]) 7"
        "c_strncmp line (''msgstr '' @ [CHR 0x22]) 8" "lastID = Some i" "quoted (drop 8 line) = Some s"
    | (nostr) "take 1 line \<noteq> ''#''" "\<not> c_strncmp line (''msgid '' @ [CHR 0x22]) 7"
        "c_strncmp line (''msgstr '' @ [CHR 0x22]) 8" "lastID = None \<or> quoted (drop 8 line) = None"
    | (other) "take 1 line \<noteq> ''#''" "\<not> c_strncmp line (''msgid '' @ [CHR 0x22]) 7"
        "\<not> c_strncmp line (''msgstr '' @ [CHR 0x22]) 8"
    by (cases lastID; cases "quoted (drop 8 line)"; blast)
  then show ?thesis
  proof cases
    case msgstr
    from setMSG_spec [OF assms(1) q [OF msgstr(5)], of i] obtain g' where g': "setMSG i (Some s) g = Some g'" "ample g'"
      "map_of (baseMSG g') = (map_of (baseMSG g))(hash_string i \<mapsto> Some (unescape s))" by blast
    have "load_line line lastID g = Some (None, g')" using msgstr g'(1) by (simp add: load_line_def)
    moreover have "\<exists>new. map_of (baseMSG g') = held (es @ new) \<and> (\<forall>ls. entries (line # ls) lastID = new @ entries ls None)"
      if "map_of (baseMSG g) = held es" for es
      using that g'(3) msgstr by (intro exI [of _ "[(i, s)]"]) (simp add: held_simps(2))
    ultimately show ?thesis using g'(2) by blast
  next
    case comment
    then show ?thesis using assms(1)
      by (intro exI [of _ g] exI [of _ lastID]) (auto simp: load_line_def intro: exI [of _ "[]"])
  next
    case msgid
    then show ?thesis using assms(1)
      by (cases "quoted (drop 7 line)") (auto simp: load_line_def ample_def intro: exI [of _ "[]"])
  next
    case nostr
    then show ?thesis using assms(1)
      by (cases lastID) (auto simp: load_line_def intro: exI [of _ "[]"])
  next
    case other
    then show ?thesis using assms(1)
      by (intro exI [of _ g] exI [of _ lastID]) (auto simp: load_line_def intro: exI [of _ "[]"])
  qed
qed

lemma load_lines_spec:
  assumes "ample g" "NUL \<notin> set src" "map_of (baseMSG g) = held es"
  shows "if \<forall>line \<in> set (file_lines src left). length line < 350
     then \<exists>g'. load_lines src left lastID g = Some g' \<and> map_of (baseMSG g') = held (es @ entries (file_lines src left) lastID)
     else load_lines src left lastID g = None"
  using assms
proof (induction left arbitrary: src lastID g es rule: less_induct)
  case (less left)
  let ?line = "c_before CHR 0x0A src" and ?rest = "drop 1 (c_from CHR 0x0A src)"
  show ?case
  proof (cases "left = 0 \<or> CHR 0x0A \<notin> set src")
    case True
    then show ?thesis using less.prems
      by (auto simp: load_lines.simps [of src left] file_lines.simps [of src left] memfgets_def)
  next
    case False
    then have fl: "file_lines src left = ?line # file_lines ?rest (left - (length ?line + 1))"
      by (subst file_lines.simps) simp
    show ?thesis
    proof (cases "length ?line < 350")
      case False
      then have "load_lines src left lastID g = None"
        using \<open>\<not> (left = 0 \<or> CHR 0x0A \<notin> set src)\<close> by (subst load_lines.simps) (simp add: memfgets_def)
      then show ?thesis using False fl by simp
    next
      case True
      have sub: "set ?line \<subseteq> set src" "set ?rest \<subseteq> set src"
        by (auto simp: c_before_def c_from_def dest: set_takeWhileD in_set_dropD set_dropWhileD)
      then have nul: "NUL \<notin> set ?line" "NUL \<notin> set ?rest" using less.prems(2) by auto
      from load_line_spec [OF less.prems(1) nul(1), of lastID] obtain g1 l1 where
        g1: "load_line ?line lastID g = Some (l1, g1)" "ample g1" and
        tab: "\<forall>es. map_of (baseMSG g) = held es \<longrightarrow>
          (\<exists>new. map_of (baseMSG g1) = held (es @ new) \<and> (\<forall>ls. entries (?line # ls) lastID = new @ entries ls l1))"
        by blast
      from tab less.prems(3) obtain new where
        new: "map_of (baseMSG g1) = held (es @ new)" "\<forall>ls. entries (?line # ls) lastID = new @ entries ls l1" by blast
      have lt: "left - (length ?line + 1) < left" using False by simp
      have step: "load_lines src left lastID g = load_lines ?rest (left - (length ?line + 1)) l1 g1"
        using False True g1(1) by (subst load_lines.simps) (simp add: memfgets_def)
      from less.IH [OF lt g1(2) nul(2) new(1), of l1] show ?thesis
        unfolding step fl new(2) [rule_format] append_assoc using True by simp
    qed
  qed
qed

definition size_of :: "language \<Rightarrow> nat" where
  "size_of l = (case l of LANG_ENGLISH \<Rightarrow> en_lang_size | LANG_SPANISH \<Rightarrow> es_lang_size | LANG_OTHER \<Rightarrow> 0)"

lemma gettextCleanUp_empty: "gettextCleanUp g = g\<lparr>baseMSG := []\<rparr>"
proof -
  have "free_messages ms = []" for ms by (induction ms) auto
  then show ?thesis by (simp add: gettextCleanUp_def)
qed

lemma gettext_held:
  assumes "map_of (baseMSG g) = held es"
  shows "gettext m g = (case find (\<lambda>e. hash_string (fst e) = hash_string m) (rev es) of
     None \<Rightarrow> m | Some e \<Rightarrow> unescape (snd e))"
proof -
  have "map_of (map (\<lambda>(i, s). (hash_string i, Some (unescape s))) xs) key =
      map_option (\<lambda>e. Some (unescape (snd e))) (find (\<lambda>e. hash_string (fst e) = key) xs)" for xs key
    by (induction xs) auto
  then have "map_option snd (findMSG (hash_string m) g) =
      map_option (\<lambda>e. Some (unescape (snd e))) (find (\<lambda>e. hash_string (fst e) = hash_string m) (rev es))"
    using assms by (simp add: findMSG_map_of held_def)
  then show ?thesis
    by (cases "findMSG (hash_string m) g"; cases "find (\<lambda>e. hash_string (fst e) = hash_string m) (rev es)")
      (auto simp: gettext_def)
qed

lemma LoadLanguage_spec:
  assumes "ample g" "NUL \<notin> set (embedded l)" "l \<noteq> LANG_OTHER"
  shows "if \<forall>line \<in> set (file_lines (embedded l) (size_of l)). length line < 350
     then \<exists>g'. LoadLanguage embedded l g = Some (True, g') \<and> (\<forall>m. gettext m g' =
       (case find (\<lambda>e. hash_string (fst e) = hash_string m) (rev (entries (file_lines (embedded l) (size_of l)) None)) of
          None \<Rightarrow> m | Some e \<Rightarrow> unescape (snd e)))
     else LoadLanguage embedded l g = None"
proof -
  have a: "ample (gettextCleanUp g)" and h: "map_of (baseMSG (gettextCleanUp g)) = held []"
    using assms(1) by (simp_all add: gettextCleanUp_empty ample_def held_simps)
  have L: "LoadLanguage embedded l g = map_option (Pair True) (load_lines (embedded l) (size_of l) None (gettextCleanUp g))"
    using assms(3) by (cases l) (simp_all add: LoadLanguage_def size_of_def)
  show ?thesis
  proof (cases "\<forall>line \<in> set (file_lines (embedded l) (size_of l)). length line < 350")
    case True
    with load_lines_spec [OF a assms(2) h, of "size_of l" None] obtain g' where
      g': "load_lines (embedded l) (size_of l) None (gettextCleanUp g) = Some g'"
      "map_of (baseMSG g') = held (entries (file_lines (embedded l) (size_of l)) None)" by auto
    show ?thesis using True L g'(1) gettext_held [OF g'(2)] by simp
  next
    case False
    with load_lines_spec [OF a assms(2) h, of "size_of l" None] L show ?thesis by simp
  qed
qed

text \<open>
  (C16) With enough memory, loading a language forgets the previous one and makes the lookup of a
  message give the translation of the last pair of the file whose message has the same hash, with its
  escapes expanded, and the message itself when there is none; this holds unless a line of the file
  has 350 bytes or more, and then the loader stores past the end of its line buffer.
\<close>

theorem language_lookup:
  assumes "\<forall>n. mem_ok g n" "NUL \<notin> set (embedded l)" "l \<noteq> LANG_OTHER"
  shows "if \<forall>line \<in> set (file_lines (embedded l) (size_of l)). length line < 350
     then \<exists>g'. LoadLanguage embedded l g = Some (True, g') \<and> (\<forall>m. gettext m g' =
       (case find (\<lambda>e. hash_string (fst e) = hash_string m) (rev (entries (file_lines (embedded l) (size_of l)) None)) of
          None \<Rightarrow> m | Some e \<Rightarrow> unescape (snd e)))
     else LoadLanguage embedded l g = None"
  by (rule LoadLanguage_spec) (use assms in \<open>simp_all add: ample_def\<close>)

definition demo_language :: "language \<Rightarrow> string" where
  "demo_language l =
     (''msgid '' @ [CHR 0x22] @ ''BA'' @ [CHR 0x22, CHR 0x0A] @
      ''msgstr '' @ [CHR 0x22] @ ''Si'' @ [BSL, CHR ''n'', CHR 0x22, CHR 0x0A])"

definition empty_catalog :: catalog where
  "empty_catalog = \<lparr>baseMSG = [], m_ticks = 0, mem_ok = (\<lambda>_. True), mem_fill = (\<lambda>_ _. NUL)\<rparr>"

text \<open>The messages \<open>AQ\<close> and \<open>BA\<close> have the same hash, so the second one's translation is shown for both.\<close>

theorem language_lookup_witness:
  "\<exists>g'. LoadLanguage demo_language LANG_ENGLISH empty_catalog = Some (True, g') \<and>
     gettext ''BA'' g' = [CHR ''S'', CHR ''i'', CHR 0x0A] \<and> gettext ''AQ'' g' = [CHR ''S'', CHR ''i'', CHR 0x0A] \<and>
     gettext ''OK'' g' = ''OK''"
proof -
  let ?ls = "file_lines (demo_language LANG_ENGLISH) (size_of LANG_ENGLISH)"
  let ?look = "\<lambda>m. case find (\<lambda>e. hash_string (fst e) = hash_string m) (rev (entries ?ls None)) of
     None \<Rightarrow> m | Some e \<Rightarrow> unescape (snd e)"
  have p: "\<forall>n. mem_ok empty_catalog n" "NUL \<notin> set (demo_language LANG_ENGLISH)" "LANG_ENGLISH \<noteq> LANG_OTHER"
    by (simp_all add: empty_catalog_def demo_language_def)
  have e: "\<forall>line \<in> set ?ls. length line < 350" by code_simp
  have l: "?look ''BA'' = [CHR ''S'', CHR ''i'', CHR 0x0A]" "?look ''AQ'' = [CHR ''S'', CHR ''i'', CHR 0x0A]"
    "?look ''OK'' = ''OK''" by code_simp+
  from language_lookup [where embedded = demo_language and l = LANG_ENGLISH, OF p, unfolded if_P [OF e]] obtain g' where
    g': "LoadLanguage demo_language LANG_ENGLISH empty_catalog = Some (True, g')" "\<forall>m. gettext m g' = ?look m"
    by blast
  have "gettext ''BA'' g' = ?look ''BA''" "gettext ''AQ'' g' = ?look ''AQ''" "gettext ''OK'' g' = ?look ''OK''"
    using g'(2) by blast+
  then show ?thesis unfolding l using g'(1) by blast
qed

section \<open>Printing a language file and loading it\<close>

definition escape_char :: "char \<Rightarrow> string" where
  "escape_char c =
     (case find (\<lambda>d. simple_escape d = Some c) (CHR 0x22 # ''abfnrtv'') of None \<Rightarrow> [c] | Some d \<Rightarrow> [BSL, d])"

definition escape_text :: "string \<Rightarrow> string" where
  "escape_text s = concat (map escape_char s)"

definition print_pair :: "string \<times> string \<Rightarrow> string" where
  "print_pair p = ''msgid '' @ [CHR 0x22] @ fst p @ [CHR 0x22, CHR 0x0A] @
     ''msgstr '' @ [CHR 0x22] @ escape_text (snd p) @ [CHR 0x22, CHR 0x0A]"

definition print_language :: "(string \<times> string) list \<Rightarrow> string" where
  "print_language ps = concat (map print_pair ps)"

text \<open>What a pair needs: a line of the buffer holds each half, and each half has two bytes or more.\<close>

definition printable :: "string \<times> string \<Rightarrow> bool" where
  "printable p \<longleftrightarrow> NUL \<notin> set (fst p) \<and> CHR 0x0A \<notin> set (fst p) \<and> 2 \<le> length (fst p) \<and> length (fst p) \<le> 340 \<and>
     NUL \<notin> set (snd p) \<and> BSL \<notin> set (snd p) \<and> 2 \<le> length (escape_text (snd p)) \<and> length (escape_text (snd p)) \<le> 340"

lemma escape_char_cases:
  obtains (plain) "escape_char c = [c]" "c \<noteq> CHR 0x0A"
  | (escaped) d where "escape_char c = [BSL, d]" "simple_escape d = Some c" "d \<noteq> CHR 0x0A" "d \<noteq> NUL"
proof (cases "find (\<lambda>d. simple_escape d = Some c) (CHR 0x22 # ''abfnrtv'')")
  case None
  then have "c \<noteq> CHR 0x0A" by (auto simp: simple_escape_def)
  with None show ?thesis by (intro plain) (simp_all add: escape_char_def)
next
  case (Some d)
  then have "simple_escape d = Some c" "d \<in> set (CHR 0x22 # ''abfnrtv'')"
    by (auto simp only: find_Some_iff) (metis nth_mem)+
  with Some show ?thesis by (intro escaped [of d]) (auto simp: escape_char_def)
qed

lemma unescape_escape: "BSL \<notin> set s \<Longrightarrow> unescape (escape_text s) = s"
proof (induction s)
  case (Cons c s)
  then show ?case
    by (cases c rule: escape_char_cases) (auto simp: escape_text_def unescape.simps(2))
qed (simp add: escape_text_def)

lemma escape_text_clean: "NUL \<notin> set s \<Longrightarrow> NUL \<notin> set (escape_text s) \<and> CHR 0x0A \<notin> set (escape_text s)"
proof (induction s)
  case (Cons c s)
  then show ?case
    by (cases c rule: escape_char_cases) (auto simp: escape_text_def)
qed (simp add: escape_text_def)

lemma file_lines_Cons:
  "CHR 0x0A \<notin> set line \<Longrightarrow> length line < left \<Longrightarrow>
   file_lines (line @ CHR 0x0A # rest) left = line # file_lines rest (left - (length line + 1))"
proof -
  assume nl: "CHR 0x0A \<notin> set line" and left: "length line < left"
  have "c_before CHR 0x0A (line @ CHR 0x0A # rest) = line"
    unfolding c_before_def using nl by (intro takeWhile_all_append) auto
  moreover have "c_from CHR 0x0A (line @ CHR 0x0A # rest) = CHR 0x0A # rest"
    unfolding c_from_def using nl by (intro dropWhile_all_append) auto
  ultimately show ?thesis using left by (subst file_lines.simps) simp
qed

lemma file_lines_nil [simp]: "file_lines [] left = []"
  by (subst file_lines.simps) simp

lemma quoted_snoc: "2 \<le> length s \<Longrightarrow> quoted (s @ [CHR 0x22]) = Some s"
  by (simp add: quoted_def before_last_def c_from_def)

lemma print_language_lines:
  assumes "\<forall>p \<in> set ps. printable p" "length (print_language ps) \<le> left"
  shows "entries (file_lines (print_language ps) left) None = map (\<lambda>p. (fst p, escape_text (snd p))) ps \<and>
     (\<forall>line \<in> set (file_lines (print_language ps) left). length line < 350) \<and> NUL \<notin> set (print_language ps)"
  using assms
proof (induction ps arbitrary: left)
  case (Cons p ps)
  let ?a = "''msgid '' @ [CHR 0x22] @ fst p @ [CHR 0x22]"
  let ?b = "''msgstr '' @ [CHR 0x22] @ escape_text (snd p) @ [CHR 0x22]"
  let ?left = "left - (length ?a + 1) - (length ?b + 1)"
  have p: "printable p" using Cons.prems(1) by simp
  have s: "print_language (p # ps) = ?a @ CHR 0x0A # ?b @ CHR 0x0A # print_language ps"
    by (simp add: print_language_def print_pair_def)
  have nl: "CHR 0x0A \<notin> set ?a" "CHR 0x0A \<notin> set ?b" and nul: "NUL \<notin> set ?a" "NUL \<notin> set ?b"
    using p escape_text_clean [of "snd p"] by (auto simp: printable_def)
  have len: "length ?a < left" "length ?b < left - (length ?a + 1)" "length (print_language ps) \<le> ?left"
    using Cons.prems(2) unfolding s by simp_all
  have fl: "file_lines (print_language (p # ps)) left = ?a # ?b # file_lines (print_language ps) ?left"
    unfolding s file_lines_Cons [OF nl(1) len(1)] file_lines_Cons [OF nl(2) len(2)] ..
  have q: "quoted (fst p @ [CHR 0x22]) = Some (fst p)" "quoted (escape_text (snd p) @ [CHR 0x22]) = Some (escape_text (snd p))"
    using p by (simp_all add: printable_def quoted_snoc)
  have "entries (?a # ?b # ls) None = (fst p, escape_text (snd p)) # entries ls None" for ls
    using q by (simp add: c_strncmp_def)
  moreover have "length ?a < 350" "length ?b < 350" using p by (simp_all add: printable_def)
  moreover have "\<forall>p \<in> set ps. printable p" using Cons.prems(1) by simp
  ultimately show ?case using Cons.IH [OF _ len(3)] nul unfolding fl by (simp add: s)
qed (simp add: print_language_def)

lemma find_distinct: "distinct (map f xs) \<Longrightarrow> x \<in> set xs \<Longrightarrow> find (\<lambda>y. f y = f x) xs = Some x"
  by (induction xs) (auto simp: image_iff)

text \<open>
  (C33) Printing pairs of messages and translations in the format of the language files and loading
  the text gives every translation back for its message, and no other message is translated, when the
  messages have different hashes, a translation has no backslash, each half of a pair has at least two
  and at most 340 bytes, and the text is no longer than the size the program has for the language.
\<close>

theorem language_file_roundtrip:
  assumes "\<forall>n. mem_ok g n" "\<forall>p \<in> set ps. printable p" "distinct (map (hash_string \<circ> fst) ps)"
    "embedded l = print_language ps" "length (print_language ps) \<le> size_of l" "l \<noteq> LANG_OTHER"
  shows "\<exists>g'. LoadLanguage embedded l g = Some (True, g') \<and> (\<forall>(msg, translation) \<in> set ps. gettext msg g' = translation) \<and>
     (\<forall>m. hash_string m \<notin> hash_string ` fst ` set ps \<longrightarrow> gettext m g' = m)"
proof -
  let ?qs = "map (\<lambda>p. (fst p, escape_text (snd p))) ps"
  note lines = print_language_lines [OF assms(2,5)]
  have a: "ample g" and nul: "NUL \<notin> set (embedded l)" using assms(1,4) lines by (simp_all add: ample_def)
  obtain g' where g': "LoadLanguage embedded l g = Some (True, g')" "\<forall>m. gettext m g' =
       (case find (\<lambda>e. hash_string (fst e) = hash_string m) (rev ?qs) of None \<Rightarrow> m | Some e \<Rightarrow> unescape (snd e))"
    using LoadLanguage_spec [where embedded = embedded, OF a nul assms(6)] lines unfolding assms(4) by auto
  have "gettext (fst p) g' = snd p" if p: "p \<in> set ps" for p
  proof -
    have "distinct (map (hash_string \<circ> fst) (rev ?qs))" using assms(3) by (simp add: rev_map [symmetric] comp_def)
    moreover have "(fst p, escape_text (snd p)) \<in> set (rev ?qs)" using p by auto
    ultimately have "find (\<lambda>e. hash_string (fst e) = hash_string (fst p)) (rev ?qs) = Some (fst p, escape_text (snd p))"
      using find_distinct [of "hash_string \<circ> fst" "rev ?qs" "(fst p, escape_text (snd p))"] by simp
    then show ?thesis using g'(2) assms(2) p by (simp add: printable_def unescape_escape)
  qed
  moreover have "gettext m g' = m" if "hash_string m \<notin> hash_string ` fst ` set ps" for m
  proof -
    have "find (\<lambda>e. hash_string (fst e) = hash_string m) (rev ?qs) = None"
      using that by (force simp: find_None_iff image_iff)
    then show ?thesis using g'(2) by simp
  qed
  ultimately show ?thesis using g'(1) by (intro exI [of _ g']) auto
qed

definition demo_pairs :: "(string \<times> string) list" where
  "demo_pairs = [(''Music'', ''Musica''), (''OK'', [CHR ''S'', CHR 0x22, CHR 0x0A])]"

theorem language_file_roundtrip_witness:
  "\<exists>g'. LoadLanguage (\<lambda>_. print_language demo_pairs) LANG_SPANISH empty_catalog = Some (True, g') \<and>
     gettext ''Music'' g' = ''Musica'' \<and> gettext ''OK'' g' = [CHR ''S'', CHR 0x22, CHR 0x0A] \<and> gettext ''Error'' g' = ''Error''"
proof -
  have p: "\<forall>n. mem_ok empty_catalog n" "\<forall>p \<in> set demo_pairs. printable p" "distinct (map (hash_string \<circ> fst) demo_pairs)"
    "length (print_language demo_pairs) \<le> size_of LANG_SPANISH"
    by (simp add: empty_catalog_def, code_simp, code_simp, code_simp)
  have e: "hash_string ''Error'' \<notin> hash_string ` fst ` set demo_pairs" by code_simp
  from language_file_roundtrip [where embedded = "\<lambda>_. print_language demo_pairs" and l = LANG_SPANISH, OF p(1,2,3) refl p(4)]
  obtain g' where g': "LoadLanguage (\<lambda>_. print_language demo_pairs) LANG_SPANISH empty_catalog = Some (True, g')"
    "\<forall>(msg, translation) \<in> set demo_pairs. gettext msg g' = translation"
    "\<forall>m. hash_string m \<notin> hash_string ` fst ` set demo_pairs \<longrightarrow> gettext m g' = m" by blast
  show ?thesis using g' e by (intro exI [of _ g']) (auto simp: demo_pairs_def)
qed

end
