(* ===== verification/Http_Download.thy ===== *)
theory Http_Download
  imports Http_Client
begin

text \<open>
  The one-call download of source/utils/http.cpp (\<open>http_request\<close>), which the menus, the playlist
  listings and the artwork use: a GET of a URL into a buffer or into an open file, in pieces of at
  most 4096 bytes.

  The name is \<open>http_download\<close> here, since \<open>http_request\<close> is the request text of the client. The
  loop is written over a read operation in the sense of \<open>Byte_Source\<close>; the program's is \<open>http_rd\<close>. Logging and the error prompt are left out.
\<close>

section \<open>Definitions\<close>

text \<open>Where the bytes go; \<open>To_file wr\<close> is a file whose k-th \<open>fwrite\<close> of \<open>n\<close> bytes writes \<open>wr k n\<close> of them.\<close>

datatype sink = No_sink | To_buffer | To_file "nat \<Rightarrow> nat \<Rightarrow> nat"

text \<open>
  The loop. \<open>got\<close> counts the bytes, \<open>k\<close> the calls of \<open>fwrite\<close> and \<open>out\<close> is what the buffer or the
  file holds. The count is set to zero by a failed read or write, \<open>out\<close> is not.
\<close>

function download_loop :: "(int \<Rightarrow> 's \<Rightarrow> (int \<times> string) \<times> 's) \<Rightarrow> nat \<Rightarrow> sink \<Rightarrow> nat \<Rightarrow> nat \<Rightarrow> string \<Rightarrow> 's
    \<Rightarrow> (nat \<times> string) \<times> 's" where
  "download_loop rd limit to k got out s =
     (if got < limit then
        (case rd (int (min (limit - got) 4096)) s of ((n, chunk), s1) \<Rightarrow>
           if n < 0 then ((0, out), s1)
           else if n = 0 then ((got, out), s1)
           else
             (case to of
                To_file wr \<Rightarrow>
                  if wr k (nat n) \<noteq> nat n then ((0, out @ take (wr k (nat n)) chunk), s1)
                  else download_loop rd limit to (Suc k) (got + nat n) (out @ chunk) s1
              | _ \<Rightarrow> download_loop rd limit to k (got + nat n) (out @ chunk) s1))
      else ((got, out), s))"
  by pat_completeness auto

termination
  by (relation "measure (\<lambda>(rd, limit, to, k, got, out, s). limit - got)") auto

declare download_loop.simps [simp del]

definition get_args :: http_args where
  "get_args = \<lparr>a_method = ''GET'', a_auth = None, a_body = None, a_depth = - 1, a_offset = - 1, a_icy = False\<rparr>"

text \<open>A buffer keeps one byte for the terminating NUL.\<close>

definition room :: "sink \<Rightarrow> nat \<Rightarrow> nat" where
  "room to maxsize = maxsize - (if to = To_buffer then 1 else 0)"

definition http_download ::
  "('n, 'z) net_ops_scheme \<Rightarrow> bool \<Rightarrow> string \<Rightarrow> sink \<Rightarrow> nat \<Rightarrow> 'n world \<Rightarrow> (nat \<times> string) \<times> 'n world" where
  "http_download ops mem url to maxsize w =
     (if \<not> mem \<or> to = No_sink \<or> maxsize < 2 then ((0, []), w)
      else
        (case gc_http_open ops url get_args None w of (ok, h, w1) \<Rightarrow>
           if \<not> ok then ((0, []), snd (gc_http_close ops h w1))
           else
             (case download_loop (http_rd ops) (room to maxsize) to 0 0 [] (h, w1) of (r, (h2, w2)) \<Rightarrow>
                (r, snd (gc_http_close ops h2 w2)))))"

section \<open>Downloading from a byte source\<close>

text \<open>A sink that takes every byte: a buffer, or a file whose writes succeed.\<close>

definition accepts :: "sink \<Rightarrow> bool" where
  "accepts to \<longleftrightarrow> (case to of No_sink \<Rightarrow> False | To_buffer \<Rightarrow> True | To_file wr \<Rightarrow> (\<forall>k n. wr k n = n))"

context byte_source begin

lemma download_prefix:
  assumes "accepts to" "body b s" "got \<le> limit"
  shows "\<exists>s1. download_loop rd limit to k got out s =
     ((got + length (take (limit - got) b), out @ take (limit - got) b), s1) \<and> body (drop (limit - got) b) s1"
  using assms
proof (induction "limit - got" arbitrary: k got out s b rule: less_induct)
  case less
  show ?case
  proof (cases "got < limit")
    case False
    with less.prems show ?thesis by (subst download_loop.simps) auto
  next
    case True
    then have "0 < int (min (limit - got) 4096)" by simp
    from step [OF less.prems(2) this] obtain x b1 s1 where
      x: "b = x @ b1" "rd (int (min (limit - got) 4096)) s = ((int (length x), x), s1)" "body b1 s1"
      "int (length x) \<le> int (min (limit - got) 4096)" "x = [] \<longrightarrow> b = []" by blast
    show ?thesis
    proof (cases "x = []")
      case True
      with x \<open>got < limit\<close> show ?thesis by (subst download_loop.simps) auto
    next
      case False
      then have lt: "limit - (got + length x) < limit - got" and le: "got + length x \<le> limit"
        using x(4) \<open>got < limit\<close> by (cases x, auto)+
      let ?k = "case to of To_file wr \<Rightarrow> Suc k | _ \<Rightarrow> k"
      have next_call: "download_loop rd limit to k got out s = download_loop rd limit to ?k (got + length x) (out @ x) s1"
        unfolding download_loop.simps [of rd limit to k got out s]
        using less.prems(1) x(2) \<open>got < limit\<close> False by (cases to) (simp_all add: accepts_def)
      have le2: "length x \<le> limit - got" using x(4) by linarith
      then have t: "take (limit - got) (x @ b1) = x @ take (limit - (got + length x)) b1"
        "drop (limit - got) (x @ b1) = drop (limit - (got + length x)) b1" by simp_all
      from less.hyps [OF lt less.prems(1) x(3) le, of ?k "out @ x"] obtain s2 where
        "download_loop rd limit to ?k (got + length x) (out @ x) s1 =
          ((got + length x + length (take (limit - (got + length x)) b1), (out @ x) @ take (limit - (got + length x)) b1), s2)"
        "body (drop (limit - (got + length x)) b1) s2" by (elim exE conjE) (rule that)
      then show ?thesis
        unfolding next_call x(1) t by (intro exI [of _ s2]) (simp only: length_append append_assoc add.assoc simp_thms)
    qed
  qed
qed

end

section \<open>Properties\<close>

text \<open>
  (C15) Once the request is open and the server delivers the body \<open>b\<close>, under any framing and
  fragmentation, \<open>http_request\<close> returns and stores exactly the body, or its first bytes when the
  buffer (with its NUL) or the limit for the file is smaller; without memory, without a sink, with a
  limit below two bytes or when the request cannot be opened it returns zero.
\<close>

theorem http_download_delivers:
  assumes "accepts to" "2 \<le> maxsize" "gc_http_open ops url get_args None w = (ok, h, w1)"
    "ok \<longrightarrow> http_body ops b (h, w1)"
  shows "fst (http_download ops mem url to maxsize w) =
     (if mem \<and> ok then (length (take (room to maxsize) b), take (room to maxsize) b) else (0, []))"
proof (cases "mem \<and> ok")
  case True
  then have "http_body ops b (h, w1)" using assms(4) by simp
  from http_src.download_prefix [OF assms(1) this, of 0 "room to maxsize" 0 "[]"] obtain s where
    "download_loop (http_rd ops) (room to maxsize) to 0 0 [] (h, w1) =
       ((length (take (room to maxsize) b), take (room to maxsize) b), s)" by auto
  then show ?thesis using True assms(1,2,3)
    by (cases s) (auto simp: http_download_def accepts_def split: sink.splits)
next
  case False
  then show ?thesis using assms(3) by (auto simp: http_download_def)
qed

text \<open>A server that redirects once and sends six bytes in two pieces, into a buffer of five.\<close>

definition demo_server :: "string list world" where
  "demo_server = \<lparr>clock = 0, net = [''HTTP/1.1 302 F'' @ crlf @ ''Location: /b'' @ crlf @ crlf,
     ''HTTP/1.1 200 OK'' @ crlf @ ''Content-'', ''Length: 6'' @ crlf @ crlf @ ''abc'', ''def''], dns = dns_start\<rparr>"

lemma demo_server_run:
  "case gc_http_open script_ops ''http://nas/a'' get_args None demo_server of (ok, h, w1) \<Rightarrow>
     ok \<and> \<not> h_eof h \<and> \<not> h_chunked h \<and> h_remaining h = 6 \<and> \<not> h_failed h \<and> h_begin h \<le> h_end h \<and>
     h_end h = length (h_buffer h) \<and> pending h @ concat (net w1) = ''abcdef'' \<and> [] \<notin> set (net w1) \<and>
     (case h_conn h of None \<Rightarrow> False | Some c \<Rightarrow> \<not> conn_tls c \<and> Option.is_none (conn_cancel c))"
  by code_simp

theorem http_download_delivers_witness:
  "fst (http_download script_ops True ''http://nas/a'' To_buffer 5 demo_server) = (4, ''abcd'')"
proof -
  obtain ok h w1 where r: "gc_http_open script_ops ''http://nas/a'' get_args None demo_server = (ok, h, w1)"
    by (metis surj_pair)
  note p = demo_server_run [unfolded r prod.case]
  from p obtain c where c: "h_conn h = Some c" "conn_tls c = False" "conn_cancel c = None"
    by (cases "h_conn h") (auto simp: Option.is_none_def)
  have "feeds script_ops c (concat (net w1)) w1" by (rule script_feeds) (use c p in auto)
  then have "holds script_ops (''abcdef'' @ []) h w1" using c(1) p
    unfolding holds_def append_Nil2 by (intro conjI exI [of _ c] exI [of _ "concat (net w1)"]) auto
  then have b: "http_body script_ops ''abcdef'' (h, w1)" using p by (intro http_body.by_length) auto
  have a: "accepts To_buffer" "2 \<le> (5 :: nat)" "ok \<longrightarrow> http_body script_ops ''abcdef'' (h, w1)" using b by (simp_all add: accepts_def)
  from http_download_delivers [OF a(1,2) r a(3), of True] p show ?thesis by (simp add: room_def)
qed

end
