(* ===== verification/Network_Start.thy ===== *)
theory Network_Start
  imports Dns
begin

text \<open>
  Bringing the network up (source/networkop.cpp): the worker thread \<open>netcb\<close>, its start and stop, the
  cancellable wait of \<open>InitializeNetwork\<close> and the bounded wait of \<open>WaitForNetworkAtBoot\<close>.

  The worker is a step machine whose states \<open>worker\<close> are the points of \<open>netcb\<close> between two accesses to
  shared variables; the other thread is a program that lets the worker run wherever it reads or
  sleeps (\<open>yield\<close>). How many steps the worker gets at the n-th such point is \<open>turns n\<close>, so the
  theorems hold for every interleaving. \<open>if_config n\<close> is what the call of libogc2 gives at the n-th
  look: \<open>None\<close> while it has not returned, which it may never do. Time is in milliseconds and passes in
  the sleeps, by their length and a delay \<open>late n\<close>. Logging and drawing are left out.

  Operations return an option; \<open>None\<close> is the creation of a worker beside one that lives, or a
  \<open>LWP_JoinThread\<close> on a worker that has not ended.
\<close>

section \<open>State\<close>

text \<open>\<open>Gone\<close> is no thread at all; \<open>Ended\<close> a thread that has returned and was not joined.\<close>

datatype worker = Gone | Loop | Attempt nat | Config nat | Pause nat | Park | Suspending | Suspended | Ended

record net_platform =
  aton :: "string \<Rightarrow> 32 word option"
  if_name :: "string option"
  if_config :: "nat \<Rightarrow> string \<Rightarrow> string \<Rightarrow> string \<Rightarrow> bool \<Rightarrow> (int \<times> string \<times> string) option"
  turns :: "nat \<Rightarrow> nat"
  late :: "nat \<Rightarrow> nat"
  create_ok :: "nat \<Rightarrow> bool"
  wants_retry :: "nat \<Rightarrow> bool"
  clicked_cancel :: "nat \<Rightarrow> bool"
  ExitRequested :: "nat \<Rightarrow> bool"
  netStaticIP :: string
  netStaticMask :: string
  netStaticGW :: string

record net_state =
  netHalt :: int
  networkInit :: bool
  wiiIP :: string
  netAdapter :: string
  networkthread :: bool
  netThreadExited :: bool
  netThreadAbandoned :: bool
  worker_at :: worker
  resolver :: dns_state
  looks :: nat
  yields :: nat
  now :: nat
  prompts :: nat

definition net_boot :: "dns_state \<Rightarrow> net_state" where
  "net_boot d = \<lparr>netHalt = 0, networkInit = False, wiiIP = [], netAdapter = [], networkthread = False,
     netThreadExited = False, netThreadAbandoned = False, worker_at = Gone, resolver = d, looks = 0, yields = 0, now = 0,
     prompts = 0\<rparr>"

section \<open>Addresses and adapters\<close>

definition AdapterLabel :: "string option \<Rightarrow> nat \<Rightarrow> string" where
  "AdapterLabel ifn cap =
     (let s = (case ifn of None \<Rightarrow> [] | Some s \<Rightarrow> c_trunc 8 s) in
      if length s < 2 then c_trunc cap ''unknown adapter''
      else
        (let chip = (if s ! 0 = CHR ''e'' then ''Broadband Adapter'' else if s ! 0 = CHR ''E'' then ''ENC28J60''
                     else if s ! 0 = CHR ''W'' then ''W5500'' else if s ! 0 = CHR ''w'' then ''W6100'' else ''adapter'');
             plug = (if s ! 1 = CHR ''n'' \<or> s ! 1 = CHR ''1'' then ''Serial Port 1'' else if s ! 1 = CHR ''2'' then ''Serial Port 2''
                     else if s ! 1 = CHR ''A'' then ''card slot A'' else if s ! 1 = CHR ''B'' then ''card slot B'' else ''?'')
         in c_trunc cap (chip @ '', '' @ plug)))"

definition UsableAddress :: "net_platform \<Rightarrow> string \<Rightarrow> bool" where
  "UsableAddress p s \<longleftrightarrow> s \<noteq> [] \<and> (case aton p s of None \<Rightarrow> False | Some a \<Rightarrow> a \<noteq> 0 \<and> a \<noteq> 0xFFFFFFFF)"

definition NetworkAdapterName :: "net_state \<Rightarrow> string" where
  "NetworkAdapterName g = (if netAdapter g \<noteq> [] then netAdapter g else ''none'')"

section \<open>The worker (netcb)\<close>

text \<open>The call of \<open>if_config\<close> with the static address or DHCP; the buffers have 16 bytes.\<close>

definition call_config :: "net_platform \<Rightarrow> nat \<Rightarrow> (int \<times> string \<times> string) option" where
  "call_config p n =
     map_option (\<lambda>(res, ip, gw). (res, c_trunc 16 ip, c_trunc 16 gw))
       (if UsableAddress p (netStaticIP p) then
          if_config p n (c_trunc 16 (netStaticIP p))
            (c_trunc 16 (if UsableAddress p (netStaticMask p) then netStaticMask p else ''255.255.255.0''))
            (c_trunc 16 (if UsableAddress p (netStaticGW p) then netStaticGW p else ''0.0.0.0'')) False
        else if_config p n [] [] [] True)"

text \<open>The branch behind a usable address.\<close>

definition network_up :: "net_platform \<Rightarrow> string \<Rightarrow> string \<Rightarrow> net_state \<Rightarrow> net_state" where
  "network_up p ip gw g =
     g\<lparr>wiiIP := c_trunc 16 ip, netAdapter := AdapterLabel (if_name p) 48,
       resolver := dns_cache_flush
         (dns_set_server (if UsableAddress p gw then (case aton p gw of None \<Rightarrow> 0 | Some a \<Rightarrow> a) else 0) (resolver g)),
       networkInit := True, worker_at := Park\<rparr>"

definition worker_step :: "net_platform \<Rightarrow> net_state \<Rightarrow> net_state" where
  "worker_step p g =
     (case worker_at g of
        Loop \<Rightarrow> if netHalt g \<noteq> 2 then g\<lparr>worker_at := Attempt 3\<rparr> else g\<lparr>netThreadExited := True, worker_at := Ended\<rparr>
      | Attempt retry \<Rightarrow>
          if 0 < retry \<and> netHalt g \<noteq> 2 \<and> \<not> networkInit g then g\<lparr>worker_at := Config retry\<rparr> else g\<lparr>worker_at := Park\<rparr>
      | Config retry \<Rightarrow>
          (case call_config p (looks g) of
             None \<Rightarrow> g\<lparr>looks := Suc (looks g)\<rparr>
           | Some (res, ip, gw) \<Rightarrow>
             if 0 \<le> res \<and> UsableAddress p ip then network_up p ip gw (g\<lparr>looks := Suc (looks g)\<rparr>)
             else if 0 \<le> res then g\<lparr>looks := Suc (looks g), worker_at := Park\<rparr>
             else if 0 < retry - 1 \<and> netHalt g \<noteq> 2 then g\<lparr>looks := Suc (looks g), worker_at := Pause (retry - 1)\<rparr>
             else g\<lparr>looks := Suc (looks g), worker_at := Attempt (retry - 1)\<rparr>)
      | Pause retry \<Rightarrow> g\<lparr>worker_at := Attempt retry\<rparr>
      | Park \<Rightarrow> if netHalt g \<noteq> 2 then g\<lparr>worker_at := Suspending\<rparr> else g\<lparr>worker_at := Loop\<rparr>
      | Suspending \<Rightarrow> g\<lparr>worker_at := Suspended\<rparr>
      | _ \<Rightarrow> g)"

definition yield :: "net_platform \<Rightarrow> net_state \<Rightarrow> net_state" where
  "yield p g = (worker_step p ^^ turns p (yields g)) (g\<lparr>yields := Suc (yields g)\<rparr>)"

definition usleep :: "net_platform \<Rightarrow> nat \<Rightarrow> net_state \<Rightarrow> net_state" where
  "usleep p ms g = yield p (g\<lparr>now := now g + ms + late p (yields g)\<rparr>)"

section \<open>Threads (LWP)\<close>

definition is_suspended :: "net_state \<Rightarrow> bool" where
  "is_suspended g \<longleftrightarrow> worker_at g = Suspended"

definition resume :: "net_state \<Rightarrow> net_state" where
  "resume g = (if is_suspended g then g\<lparr>worker_at := Loop\<rparr> else g)"

definition join_thread :: "net_state \<Rightarrow> net_state option" where
  "join_thread g =
     (if worker_at g = Ended then Some (g\<lparr>worker_at := Gone, networkthread := False, netThreadAbandoned := False\<rparr>) else None)"

definition create_thread :: "net_platform \<Rightarrow> net_state \<Rightarrow> net_state option" where
  "create_thread p g =
     (if worker_at g \<noteq> Gone then None
      else if create_ok p (yields g) then Some (g\<lparr>netThreadExited := False, networkthread := True, worker_at := Loop\<rparr>)
      else Some (g\<lparr>networkthread := False, netThreadExited := True\<rparr>))"

section \<open>Starting and stopping\<close>

definition StartNetworkThread :: "net_platform \<Rightarrow> net_state \<Rightarrow> net_state option" where
  "StartNetworkThread p g0 =
     (let g = yield p g0 in
      if netThreadAbandoned g \<and> \<not> netThreadExited g then Some g
      else
        (case (if netThreadAbandoned g then join_thread g else Some g) of None \<Rightarrow> None
         | Some g1 \<Rightarrow>
           (let g2 = yield p (g1\<lparr>netHalt := 0\<rparr>) in
            if \<not> networkthread g2 then create_thread p g2 else Some (resume g2))))"

fun await_exit :: "net_platform \<Rightarrow> nat \<Rightarrow> net_state \<Rightarrow> net_state" where
  "await_exit p 0 g = g"
| "await_exit p (Suc n) g = (if netThreadExited g then g else await_exit p n (usleep p 20 g))"

definition NET_STOP_TIMEOUT_SECS :: nat where "NET_STOP_TIMEOUT_SECS = 2"

definition StopNetworkThread :: "net_platform \<Rightarrow> net_state \<Rightarrow> (bool \<times> net_state) option" where
  "StopNetworkThread p g0 =
     (if \<not> networkthread g0 then Some (True, g0)
      else
        (let g1 = yield p ((yield p g0)\<lparr>netHalt := 2\<rparr>);
             g2 = yield p (await_exit p (NET_STOP_TIMEOUT_SECS * 50) (resume g1))
         in if \<not> netThreadExited g2 then Some (False, g2\<lparr>netThreadAbandoned := True\<rparr>)
            else map_option (Pair True) (join_thread g2)))"

section \<open>The waits\<close>

text \<open>
  The wait of \<open>InitializeNetwork\<close> has no end of its own; \<open>n\<close> bounds the polls that are looked at. The
  boolean is whether the loop has ended.
\<close>

fun init_wait :: "net_platform \<Rightarrow> nat \<Rightarrow> net_state \<Rightarrow> bool \<times> net_state" where
  "init_wait p 0 g = (False, g)"
| "init_wait p (Suc n) g =
     (if networkthread g \<and> \<not> is_suspended g \<and> \<not> clicked_cancel p (yields g) then init_wait p n (usleep p 50 g) else (True, g))"

text \<open>The result is \<open>None\<close> inside while the call still waits after \<open>n\<close> polls.\<close>

definition InitializeNetwork :: "net_platform \<Rightarrow> nat \<Rightarrow> net_state \<Rightarrow> (bool option \<times> net_state) option" where
  "InitializeNetwork p n g =
     (if networkInit g then Some (Some True, g)
      else if networkInit (yield p g) then Some (Some True, yield p g)
      else
        (case StartNetworkThread p (yield p g) of None \<Rightarrow> None
         | Some g1 \<Rightarrow>
           (case init_wait p n (yield p g1) of
              (False, g2) \<Rightarrow> Some (None, g2)
            | (True, g2) \<Rightarrow> map_option (\<lambda>(_, g3). (Some (networkInit g3), g3)) (StopNetworkThread p g2))))"

definition NET_BOOT_TIMEOUT_SECS :: nat where "NET_BOOT_TIMEOUT_SECS = 30"

lemma worker_step_now [simp]: "now (worker_step p g) = now g"
  by (auto simp: worker_step_def network_up_def split: worker.splits option.splits)

lemma yield_now [simp]: "now (yield p g) = now g"
proof -
  have "now ((worker_step p ^^ n) g) = now g" for n g by (induction n) auto
  then show ?thesis by (simp add: yield_def)
qed

lemma usleep_now [simp]: "now (usleep p ms g) = now g + ms + late p (yields g)"
  by (simp add: usleep_def)

function boot_wait :: "net_platform \<Rightarrow> nat \<Rightarrow> net_state \<Rightarrow> net_state" where
  "boot_wait p started g =
     (if \<not> networkInit g \<and> \<not> ExitRequested p (yields g) \<and> networkthread g \<and> \<not> is_suspended g \<and>
         (now g - started) div 1000 < NET_BOOT_TIMEOUT_SECS
      then boot_wait p started (usleep p 50 g) else g)"
  by pat_completeness auto

termination
  by (relation "measure (\<lambda>(p, started, g). started + 30000 - now g)") (auto simp: NET_BOOT_TIMEOUT_SECS_def div_less_iff_less_mult)

declare boot_wait.simps [simp del]

text \<open>
  The rounds of the boot gate; \<open>n\<close> bounds the rounds that are looked at. The n-th prompt is answered
  with Retry when \<open>wants_retry n\<close>.
\<close>

fun boot_rounds :: "net_platform \<Rightarrow> nat \<Rightarrow> net_state \<Rightarrow> (bool \<times> net_state) option" where
  "boot_rounds p 0 g = Some (False, g)"
| "boot_rounds p (Suc n) g =
     (if networkInit g \<or> ExitRequested p (yields g) then Some (True, g)
      else
        (case StartNetworkThread p g of None \<Rightarrow> None
         | Some g1 \<Rightarrow>
           (let g2 = boot_wait p (now g) g1 in
            if networkInit g2 \<or> ExitRequested p (yields g2) then Some (True, g2)
            else
              (case StopNetworkThread p g2 of None \<Rightarrow> None
               | Some (_, g3) \<Rightarrow>
                 (let g4 = yield p (g3\<lparr>prompts := Suc (prompts g3)\<rparr>) in
                  if \<not> wants_retry p (prompts g3) then Some (True, g4) else boot_rounds p n g4)))))"

definition WaitForNetworkAtBoot :: "net_platform \<Rightarrow> nat \<Rightarrow> net_state \<Rightarrow> (bool option \<times> net_state) option" where
  "WaitForNetworkAtBoot p n g =
     (if networkInit g then Some (Some True, g)
      else
        (case boot_rounds p n g of None \<Rightarrow> None
         | Some (False, g1) \<Rightarrow> Some (None, g1)
         | Some (True, g1) \<Rightarrow>
           if networkInit g1 then map_option (\<lambda>(_, g2). (Some (networkInit g2), g2)) (StopNetworkThread p g1)
           else Some (Some (networkInit g1), g1)))"

text \<open>\<open>CheckMplayerNetwork\<close>; \<open>ip\<close> is what \<open>net_gethostip\<close> says.\<close>

definition CheckMplayerNetwork :: "32 word \<Rightarrow> net_state \<Rightarrow> net_state" where
  "CheckMplayerNetwork ip g = (if ip = 0 then g\<lparr>networkInit := False\<rparr> else g)"

section \<open>One worker, joined only when it has ended\<close>

definition net_ok :: "net_platform \<Rightarrow> net_state \<Rightarrow> bool" where
  "net_ok p g \<longleftrightarrow>
     (networkthread g \<longleftrightarrow> worker_at g \<noteq> Gone) \<and>
     (worker_at g \<noteq> Gone \<longrightarrow> (netThreadExited g \<longleftrightarrow> worker_at g = Ended)) \<and>
     (netThreadAbandoned g \<longrightarrow> networkthread g) \<and>
     (networkInit g \<longrightarrow> UsableAddress p (wiiIP g))"

lemma c_trunc_idem [simp]: "c_trunc n (c_trunc n s) = c_trunc n s"
  by (simp add: c_trunc_def)

lemma call_config_trunc: "call_config p n = Some (res, ip, gw) \<Longrightarrow> c_trunc 16 ip = ip"
  by (auto simp: call_config_def split: if_splits)

lemma worker_step_ok: "net_ok p g \<Longrightarrow> net_ok p (worker_step p g)"
  by (cases "worker_at g") (auto simp: net_ok_def worker_step_def network_up_def call_config_trunc split: option.splits)

text \<open>What the worker leaves alone, and that a worker that is gone or has ended does nothing.\<close>

lemma worker_step_keeps [simp]:
  "networkthread (worker_step p g) = networkthread g" "netThreadAbandoned (worker_step p g) = netThreadAbandoned g"
  "netHalt (worker_step p g) = netHalt g" "prompts (worker_step p g) = prompts g" "yields (worker_step p g) = yields g"
  by (auto simp: worker_step_def network_up_def split: worker.splits option.splits)

lemma worker_steps_keep [simp]:
  "networkthread ((worker_step p ^^ n) g) = networkthread g" "netThreadAbandoned ((worker_step p ^^ n) g) = netThreadAbandoned g"
  "netHalt ((worker_step p ^^ n) g) = netHalt g" "prompts ((worker_step p ^^ n) g) = prompts g"
  "yields ((worker_step p ^^ n) g) = yields g"
  by (induction n) simp_all

lemma yield_keeps [simp]:
  "networkthread (yield p g) = networkthread g" "netThreadAbandoned (yield p g) = netThreadAbandoned g"
  "netHalt (yield p g) = netHalt g" "prompts (yield p g) = prompts g" "yields (yield p g) = Suc (yields g)"
  by (simp_all add: yield_def)

lemma usleep_keeps [simp]:
  "networkthread (usleep p ms g) = networkthread g" "netThreadAbandoned (usleep p ms g) = netThreadAbandoned g"
  "netHalt (usleep p ms g) = netHalt g" "prompts (usleep p ms g) = prompts g" "yields (usleep p ms g) = Suc (yields g)"
  by (simp_all add: usleep_def)

lemma yield_ok: "net_ok p g \<Longrightarrow> net_ok p (yield p g)"
proof -
  have "net_ok p ((worker_step p ^^ n) g)" if "net_ok p g" for n g
    using that by (induction n) (auto simp: worker_step_ok)
  moreover assume "net_ok p g"
  then have "net_ok p (g\<lparr>yields := Suc (yields g)\<rparr>)" by (auto simp: net_ok_def)
  ultimately show ?thesis by (simp add: yield_def)
qed

lemma usleep_ok: "net_ok p g \<Longrightarrow> net_ok p (usleep p ms g)"
  unfolding usleep_def by (rule yield_ok) (auto simp: net_ok_def)

lemma resume_ok: "net_ok p g \<Longrightarrow> net_ok p (resume g)"
  by (auto simp: net_ok_def resume_def is_suspended_def)

lemma halt_ok: "net_ok p g \<Longrightarrow> net_ok p (g\<lparr>netHalt := x\<rparr>)"
  by (auto simp: net_ok_def)

lemma resume_keeps [simp]:
  "networkthread (resume g) = networkthread g" "prompts (resume g) = prompts g" "now (resume g) = now g"
  "netHalt (resume g) = netHalt g" "netThreadAbandoned (resume g) = netThreadAbandoned g" "yields (resume g) = yields g"
  by (simp_all add: resume_def)

lemma join_ok: "net_ok p g \<Longrightarrow> networkthread g \<Longrightarrow> netThreadExited g \<Longrightarrow> \<exists>g'. join_thread g = Some g' \<and> net_ok p g'"
  by (auto simp: net_ok_def join_thread_def)

lemma create_thread_ok:
  assumes "net_ok p g" "\<not> networkthread g"
  shows "\<exists>g'. create_thread p g = Some g' \<and> net_ok p g' \<and> now g' = now g \<and> prompts g' = prompts g"
  using assms by (cases "create_ok p (yields g)") (auto simp: create_thread_def net_ok_def)

lemma Start_ok:
  assumes "net_ok p g"
  shows "\<exists>g'. StartNetworkThread p g = Some g' \<and> net_ok p g' \<and> now g' = now g \<and> prompts g' = prompts g"
proof -
  let ?g = "yield p g"
  have ok: "net_ok p ?g" using assms by (rule yield_ok)
  show ?thesis
  proof (cases "netThreadAbandoned ?g \<and> \<not> netThreadExited ?g")
    case True
    then show ?thesis using ok by (simp add: StartNetworkThread_def)
  next
    case False
    obtain g1 where g1: "(if netThreadAbandoned ?g then join_thread ?g else Some ?g) = Some g1" "net_ok p g1"
      "now g1 = now g" "prompts g1 = prompts g"
    proof (cases "netThreadAbandoned ?g")
      case True
      then have "networkthread ?g" "netThreadExited ?g" using False ok by (auto simp: net_ok_def)
      from join_ok [OF ok this] True that show ?thesis by (auto simp: join_thread_def split: if_splits)
    qed (use ok that in auto)
    let ?g2 = "yield p (g1\<lparr>netHalt := 0\<rparr>)"
    have ok2: "net_ok p ?g2" by (rule yield_ok, rule halt_ok, rule g1(2))
    show ?thesis
    proof (cases "networkthread ?g2")
      case True
      then show ?thesis using False g1 resume_ok [OF ok2] ok by (auto simp: StartNetworkThread_def Let_def)
    next
      case no: False
      from create_thread_ok [OF ok2 no] obtain g3 where
        "create_thread p ?g2 = Some g3" "net_ok p g3" "now g3 = now g" "prompts g3 = prompts g"
        using g1(3,4) by auto
      then show ?thesis using False no g1(1) ok by (auto simp: StartNetworkThread_def Let_def)
    qed
  qed
qed

lemma await_exit_ok: "net_ok p g \<Longrightarrow> net_ok p (await_exit p n g)"
  by (induction n arbitrary: g) (auto intro: usleep_ok)

lemma await_exit_keeps [simp]:
  "networkthread (await_exit p n g) = networkthread g" "prompts (await_exit p n g) = prompts g"
  by (induction n arbitrary: g) auto

lemma Stop_ok:
  assumes "net_ok p g"
  shows "\<exists>r g'. StopNetworkThread p g = Some (r, g') \<and> net_ok p g' \<and> prompts g' = prompts g \<and>
     (r \<longrightarrow> \<not> networkthread g') \<and> (\<not> r \<longrightarrow> netThreadAbandoned g')"
proof (cases "networkthread g")
  case False
  then show ?thesis using assms by (auto simp: StopNetworkThread_def)
next
  case True
  let ?g1 = "yield p ((yield p g)\<lparr>netHalt := 2\<rparr>)"
  let ?g2 = "yield p (await_exit p (NET_STOP_TIMEOUT_SECS * 50) (resume ?g1))"
  have ok: "net_ok p ?g2" by (intro yield_ok await_exit_ok resume_ok halt_ok assms)
  have nt: "networkthread ?g2" and pr: "prompts ?g2 = prompts g" using True by simp_all
  show ?thesis
  proof (cases "netThreadExited ?g2")
    case False
    then have "StopNetworkThread p g = Some (False, ?g2\<lparr>netThreadAbandoned := True\<rparr>)"
      using True by (simp add: StopNetworkThread_def Let_def)
    moreover have "net_ok p (?g2\<lparr>netThreadAbandoned := True\<rparr>)" using ok nt by (simp add: net_ok_def)
    ultimately show ?thesis using pr by auto
  next
    case ex: True
    from join_ok [OF ok nt ex] obtain g' where g': "join_thread ?g2 = Some g'" "net_ok p g'" by blast
    then have "\<not> networkthread g' \<and> prompts g' = prompts g" using pr by (auto simp: join_thread_def split: if_splits)
    moreover have "StopNetworkThread p g = Some (True, g')"
      using True ex g'(1) by (simp add: StopNetworkThread_def Let_def)
    ultimately show ?thesis using g'(2) by auto
  qed
qed

lemma init_wait_ok: "net_ok p g \<Longrightarrow> init_wait p n g = (e, g') \<Longrightarrow> net_ok p g'"
  by (induction n arbitrary: g) (auto split: if_splits intro: usleep_ok)

lemma Initialize_ok:
  assumes "net_ok p g"
  shows "\<exists>r g'. InitializeNetwork p n g = Some (r, g') \<and> net_ok p g' \<and> (\<forall>b. r = Some b \<longrightarrow> b = networkInit g')"
proof (cases "networkInit g \<or> networkInit (yield p g)")
  case True
  then show ?thesis using assms yield_ok [OF assms] by (auto simp: InitializeNetwork_def)
next
  case False
  from Start_ok [OF yield_ok [OF assms]] obtain g1 where g1: "StartNetworkThread p (yield p g) = Some g1" "net_ok p g1" by blast
  obtain e g2 where g2: "init_wait p n (yield p g1) = (e, g2)" by fastforce
  have ok2: "net_ok p g2" by (rule init_wait_ok [OF yield_ok [OF g1(2)] g2])
  from Stop_ok [OF ok2] obtain r g3 where "StopNetworkThread p g2 = Some (r, g3)" "net_ok p g3" by blast
  then show ?thesis using False g1(1) g2 ok2 by (cases e) (auto simp: InitializeNetwork_def)
qed

lemma boot_wait_ok: "net_ok p g \<Longrightarrow> net_ok p (boot_wait p started g) \<and> prompts (boot_wait p started g) = prompts g"
proof (induction p started g rule: boot_wait.induct)
  case (1 p started g)
  then show ?case by (subst (1 2) boot_wait.simps) (auto intro: usleep_ok)
qed

lemma boot_rounds_ok:
  "net_ok p g \<Longrightarrow> \<exists>e g'. boot_rounds p n g = Some (e, g') \<and> net_ok p g' \<and>
     ((\<exists>k < n. \<not> wants_retry p (prompts g + k)) \<longrightarrow> e)"
proof (induction n arbitrary: g)
  case (Suc n)
  show ?case
  proof (cases "networkInit g \<or> ExitRequested p (yields g)")
    case False
    from Start_ok [OF Suc.prems] obtain g1 where g1: "StartNetworkThread p g = Some g1" "net_ok p g1" "prompts g1 = prompts g" by blast
    let ?g2 = "boot_wait p (now g) g1"
    have g2: "net_ok p ?g2" "prompts ?g2 = prompts g" using boot_wait_ok [OF g1(2)] g1(3) by simp_all
    show ?thesis
    proof (cases "networkInit ?g2 \<or> ExitRequested p (yields ?g2)")
      case True
      then have "boot_rounds p (Suc n) g = Some (True, ?g2)"
        using \<open>\<not> (networkInit g \<or> ExitRequested p (yields g))\<close> g1(1) by (simp add: Let_def)
      then show ?thesis using g2 by blast
    next
      case False
      from Stop_ok [OF g2(1)] obtain r g3 where g3: "StopNetworkThread p ?g2 = Some (r, g3)" "net_ok p g3" "prompts g3 = prompts g"
        using g2(2) by auto
      let ?g4 = "yield p (g3\<lparr>prompts := Suc (prompts g3)\<rparr>)"
      have ok4: "net_ok p ?g4" by (rule yield_ok) (use g3(2) in \<open>auto simp: net_ok_def\<close>)
      have step: "boot_rounds p (Suc n) g = (if \<not> wants_retry p (prompts g) then Some (True, ?g4) else boot_rounds p n ?g4)"
        using \<open>\<not> (networkInit g \<or> ExitRequested p (yields g))\<close> False g1(1) g3 by (simp add: Let_def)
      show ?thesis
      proof (cases "wants_retry p (prompts g)")
        case False
        then show ?thesis using step ok4 by auto
      next
        case True
        have "\<exists>k < n. \<not> wants_retry p (prompts ?g4 + k)" if "\<exists>k < Suc n. \<not> wants_retry p (prompts g + k)"
        proof -
          from that obtain k where k: "k < Suc n" "\<not> wants_retry p (prompts g + k)" by blast
          then have "k \<noteq> 0" using True by (metis add_0_right)
          then obtain j where "k = Suc j" by (cases k) auto
          then show ?thesis using k g3(3) by (intro exI [of _ j]) auto
        qed
        then show ?thesis using Suc.IH [OF ok4] True unfolding step by auto
      qed
    qed
  qed (use Suc.prems in auto)
qed auto

section \<open>Properties\<close>

text \<open>The calls the program makes, in any order, with steps of the worker between them.\<close>

datatype net_op = Worker_runs | Start_thread | Initialize nat | Boot_gate nat | Check_network "32 word"

definition net_step :: "net_platform \<Rightarrow> net_op \<Rightarrow> net_state \<Rightarrow> net_state option" where
  "net_step p a g =
     (case a of
        Worker_runs \<Rightarrow> Some (worker_step p g)
      | Start_thread \<Rightarrow> StartNetworkThread p g
      | Initialize n \<Rightarrow> map_option snd (InitializeNetwork p n g)
      | Boot_gate n \<Rightarrow> map_option snd (WaitForNetworkAtBoot p n g)
      | Check_network ip \<Rightarrow> Some (CheckMplayerNetwork ip g))"

fun net_run :: "net_platform \<Rightarrow> net_op list \<Rightarrow> net_state \<Rightarrow> net_state option" where
  "net_run p [] g = Some g"
| "net_run p (a # ops) g = (case net_step p a g of None \<Rightarrow> None | Some g1 \<Rightarrow> net_run p ops g1)"

lemma Boot_ok:
  assumes "net_ok p g"
  shows "\<exists>r g'. WaitForNetworkAtBoot p n g = Some (r, g') \<and> net_ok p g' \<and> (\<forall>b. r = Some b \<longrightarrow> b = networkInit g') \<and>
     ((\<exists>k < n. \<not> wants_retry p (prompts g + k)) \<longrightarrow> r \<noteq> None)"
proof (cases "networkInit g")
  case True
  then show ?thesis using assms by (auto simp: WaitForNetworkAtBoot_def)
next
  case False
  from boot_rounds_ok [OF assms, of n] obtain e g1 where g1: "boot_rounds p n g = Some (e, g1)" "net_ok p g1"
    "(\<exists>k < n. \<not> wants_retry p (prompts g + k)) \<longrightarrow> e" by blast
  from Stop_ok [OF g1(2)] obtain r g2 where "StopNetworkThread p g1 = Some (r, g2)" "net_ok p g2" by blast
  then show ?thesis using False g1 by (cases e; cases "networkInit g1") (auto simp: WaitForNetworkAtBoot_def)
qed

lemma net_step_ok: "net_ok p g \<Longrightarrow> \<exists>g'. net_step p a g = Some g' \<and> net_ok p g'"
proof (cases a)
  case Start_thread
  assume "net_ok p g"
  from Start_ok [OF this] Start_thread show ?thesis by (auto simp: net_step_def)
next
  case (Initialize n)
  assume "net_ok p g"
  from Initialize_ok [OF this, of n] Initialize show ?thesis by (auto simp: net_step_def)
next
  case (Boot_gate n)
  assume "net_ok p g"
  from Boot_ok [OF this, of n] Boot_gate show ?thesis by (auto simp: net_step_def)
next
  case Worker_runs
  assume "net_ok p g"
  from worker_step_ok [OF this] Worker_runs show ?thesis by (simp add: net_step_def)
next
  case (Check_network ip)
  then show "net_ok p g \<Longrightarrow> ?thesis" by (auto simp: net_step_def CheckMplayerNetwork_def net_ok_def)
qed

lemma net_run_ok: "net_ok p g \<Longrightarrow> \<exists>g'. net_run p ops g = Some g' \<and> net_ok p g'"
proof (induction ops arbitrary: g)
  case (Cons a ops)
  from net_step_ok [OF Cons.prems, of a] obtain g1 where g1: "net_step p a g = Some g1" "net_ok p g1" by blast
  from Cons.IH [OF g1(2)] g1(1) show ?case by simp
qed simp

text \<open>
  (C13) From the start of the program, whatever calls are made, however the worker is scheduled, whether
  or not \<open>if_config\<close> returns and threads can be created: no second worker is ever created beside one
  that lives, a worker is joined only when it has ended, and the network counts as up only with an
  address that is usable.
\<close>

theorem one_network_worker:
  "\<exists>g'. net_run p ops (net_boot d) = Some g' \<and> (networkthread g' \<longleftrightarrow> worker_at g' \<noteq> Gone) \<and>
     (networkInit g' \<longrightarrow> UsableAddress p (wiiIP g'))"
proof -
  have "net_ok p (net_boot d)" by (simp add: net_ok_def net_boot_def)
  from net_run_ok [OF this, of ops] show ?thesis by (auto simp: net_ok_def)
qed

text \<open>An adapter that answers at once.\<close>

definition ready_dhcp :: net_platform where
  "ready_dhcp = \<lparr>aton = (\<lambda>_. Some 0x0A000002), if_name = Some ''en0'',
     if_config = (\<lambda>_ _ _ _ _. Some (0, ''10.0.0.2'', ''10.0.0.1'')), turns = (\<lambda>_. 1),
     late = (\<lambda>_. 0), create_ok = (\<lambda>_. True), wants_retry = (\<lambda>n. n = 0), clicked_cancel = (\<lambda>_. False),
     ExitRequested = (\<lambda>_. False), netStaticIP = [], netStaticMask = [], netStaticGW = []\<rparr>"

theorem one_network_worker_witness:
  "\<exists>g'. net_run ready_dhcp (Start_thread # replicate 4 Worker_runs) (net_boot \<lparr>dns_server = 0, dns_cache = [], dns_seq = 0\<rparr>) =
       Some g' \<and> networkInit g' \<and> UsableAddress ready_dhcp (wiiIP g')"
proof -
  let ?ops = "Start_thread # replicate 4 Worker_runs" and ?d = "\<lparr>dns_server = 0, dns_cache = [], dns_seq = 0\<rparr>"
  have "case net_run ready_dhcp ?ops (net_boot ?d) of None \<Rightarrow> False | Some g \<Rightarrow> networkInit g" by code_simp
  then show ?thesis using one_network_worker [of ready_dhcp ?ops ?d] by (auto split: option.splits)
qed

text \<open>
  (C14) The boot gate returns: when the user declines to retry at one of the next \<open>n\<close> prompts, it
  returns within \<open>n\<close> rounds, even if \<open>if_config\<close> never comes back, and its result says whether there
  is a usable address.
\<close>

theorem boot_gate_returns:
  assumes "net_run p ops (net_boot d) = Some g" "\<not> wants_retry p (prompts g + k)" "k < n"
  shows "\<exists>r g'. WaitForNetworkAtBoot p n g = Some (Some r, g') \<and> r = networkInit g' \<and> (r \<longrightarrow> UsableAddress p (wiiIP g'))"
proof -
  have "net_ok p (net_boot d)" by (simp add: net_ok_def net_boot_def)
  from net_run_ok [OF this, of ops] assms(1) have ok: "net_ok p g" by auto
  from Boot_ok [OF ok, of n] assms(2,3) obtain r g' where "WaitForNetworkAtBoot p n g = Some (r, g')" "net_ok p g'"
    "\<forall>b. r = Some b \<longrightarrow> b = networkInit g'" "r \<noteq> None" by blast
  then show ?thesis by (auto simp: net_ok_def)
qed

text \<open>An adapter that never answers, a worker that runs one step at a time.\<close>

definition silent_dhcp :: net_platform where
  "silent_dhcp = \<lparr>aton = (\<lambda>_. Some 0x0A000002), if_name = Some ''en0'', if_config = (\<lambda>_ _ _ _ _. None), turns = (\<lambda>_. 1),
     late = (\<lambda>_. 0), create_ok = (\<lambda>_. True), wants_retry = (\<lambda>n. n = 0), clicked_cancel = (\<lambda>_. False),
     ExitRequested = (\<lambda>_. False), netStaticIP = [], netStaticMask = [], netStaticGW = []\<rparr>"

theorem boot_gate_returns_witness:
  "\<exists>r g'. WaitForNetworkAtBoot silent_dhcp 2 (net_boot \<lparr>dns_server = 0, dns_cache = [], dns_seq = 0\<rparr>) = Some (Some r, g')"
proof -
  let ?g = "net_boot \<lparr>dns_server = 0, dns_cache = [], dns_seq = 0\<rparr>"
  have p: "net_run silent_dhcp [] ?g = Some ?g" "\<not> wants_retry silent_dhcp (prompts ?g + 1)" "1 < (2 :: nat)"
    by (simp_all add: net_boot_def silent_dhcp_def)
  from boot_gate_returns [OF p] show ?thesis by blast
qed

section \<open>Where the waits go wrong\<close>

lemma yield_idle: "turns p (yields g) = 0 \<Longrightarrow> yield p g = g\<lparr>yields := Suc (yields g)\<rparr>"
  by (simp add: yield_def)

text \<open>A worker that is suspended stays so.\<close>

lemma suspended_stays: "worker_at g = Suspended \<Longrightarrow> worker_at ((worker_step p ^^ n) g) = Suspended \<and>
    netThreadExited ((worker_step p ^^ n) g) = netThreadExited g"
  by (induction n) (auto simp: worker_step_def)

lemma suspended_yield: "worker_at g = Suspended \<Longrightarrow> worker_at (yield p g) = Suspended \<and> netThreadExited (yield p g) = netThreadExited g"
  unfolding yield_def using suspended_stays [where g = "g\<lparr>yields := Suc (yields g)\<rparr>" and p = p] by simp

lemma suspended_await:
  "worker_at g = Suspended \<Longrightarrow> \<not> netThreadExited g \<Longrightarrow>
   worker_at (await_exit p n g) = Suspended \<and> \<not> netThreadExited (await_exit p n g)"
proof (induction n arbitrary: g)
  case (Suc n)
  have "worker_at (usleep p 20 g) = Suspended \<and> \<not> netThreadExited (usleep p 20 g)"
    unfolding usleep_def using suspended_yield [of "g\<lparr>now := now g + 20 + late p (yields g)\<rparr>" p] Suc.prems by simp
  with Suc show ?case by simp
qed simp

text \<open>
  The worker may have passed its test of \<open>netHalt\<close> and be about to suspend itself when it is told
  to stop. If it gets no step between the order and the look at whether it is suspended, and one
  afterwards, it sleeps through the two seconds: it is reported as abandoned inside \<open>if_config\<close>
  although it is parked, and starting it again then does nothing at all.
\<close>

theorem stop_misses_parking_worker:
  assumes "networkthread g" "worker_at g = Suspending" "\<not> netThreadExited g"
    "turns p (yields g) = 0" "turns p (yields g + 1) = 0" "0 < turns p (yields g + 2)"
  shows "\<exists>g'. StopNetworkThread p g = Some (False, g') \<and> worker_at g' = Suspended \<and> netHalt g' = 2 \<and> netThreadAbandoned g' \<and>
     (\<exists>g''. StartNetworkThread p g' = Some g'' \<and> worker_at g'' = Suspended \<and> netHalt g'' = 2)"
proof -
  let ?g1 = "yield p ((yield p g)\<lparr>netHalt := 2\<rparr>)"
  have g0: "yield p g = g\<lparr>yields := Suc (yields g)\<rparr>" using assms(4) by (rule yield_idle)
  have "turns p (yields (g\<lparr>yields := Suc (yields g), netHalt := 2\<rparr>)) = 0" using assms(5) by simp
  from yield_idle [OF this] have g1: "?g1 = g\<lparr>netHalt := 2, yields := Suc (Suc (yields g))\<rparr>" unfolding g0 by simp
  then have r: "resume ?g1 = ?g1" using assms(2) by (simp add: resume_def is_suspended_def)
  let ?s = "usleep p 20 ?g1"
  obtain m where m: "turns p (yields g + 2) = Suc m" using assms(6) by (cases "turns p (yields g + 2)") auto
  let ?h = "g\<lparr>netHalt := 2, now := now g + 20 + late p (Suc (Suc (yields g))), yields := Suc (Suc (Suc (yields g)))\<rparr>"
  have h: "worker_step p ?h = ?h\<lparr>worker_at := Suspended\<rparr>" using assms(2) by (simp add: worker_step_def)
  have "?s = (worker_step p ^^ Suc m) ?h" unfolding g1 using m by (simp add: usleep_def yield_def del: funpow.simps)
  also have "\<dots> = (worker_step p ^^ m) (?h\<lparr>worker_at := Suspended\<rparr>)" by (simp add: funpow_Suc_right h del: funpow.simps)
  finally have "worker_at ?s = Suspended \<and> \<not> netThreadExited ?s"
    using suspended_stays [of "?h\<lparr>worker_at := Suspended\<rparr>" m p] assms(3) by simp
  then have "worker_at (await_exit p 99 ?s) = Suspended \<and> \<not> netThreadExited (await_exit p 99 ?s)"
    using suspended_await by blast
  moreover have "await_exit p (NET_STOP_TIMEOUT_SECS * 50) (resume ?g1) = await_exit p 99 ?s"
  proof -
    have n: "NET_STOP_TIMEOUT_SECS * 50 = Suc 99" by (simp add: NET_STOP_TIMEOUT_SECS_def)
    have "\<not> netThreadExited ?g1" using assms(3) by (simp add: g1)
    then show ?thesis unfolding r n await_exit.simps(2) by (rule if_not_P)
  qed
  ultimately have w: "worker_at (yield p (await_exit p (NET_STOP_TIMEOUT_SECS * 50) (resume ?g1))) = Suspended \<and>
      \<not> netThreadExited (yield p (await_exit p (NET_STOP_TIMEOUT_SECS * 50) (resume ?g1)))"
    using suspended_yield by simp
  have halt: "netHalt (await_exit p n h) = netHalt h" for n h by (induction n arbitrary: h) auto
  define g' where "g' = (yield p (await_exit p (NET_STOP_TIMEOUT_SECS * 50) (resume ?g1)))\<lparr>netThreadAbandoned := True\<rparr>"
  have g': "worker_at g' = Suspended" "\<not> netThreadExited g'" "netHalt g' = 2" "netThreadAbandoned g'"
    using w by (simp_all add: g'_def halt)
  have "StopNetworkThread p g = Some (False, g')"
    using assms(1) w by (simp add: StopNetworkThread_def Let_def g'_def)
  moreover have "StartNetworkThread p g' = Some (yield p g')" "worker_at (yield p g') = Suspended" "netHalt (yield p g') = 2"
    using g' suspended_yield [of g' p] by (simp_all add: StartNetworkThread_def)
  ultimately show ?thesis using g' by blast
qed

theorem stop_misses_parking_worker_witness:
  "\<exists>g'. StopNetworkThread (silent_dhcp\<lparr>turns := (\<lambda>n. if n < 2 then 0 else 1)\<rparr>)
     ((net_boot \<lparr>dns_server = 0, dns_cache = [], dns_seq = 0\<rparr>)\<lparr>networkthread := True, worker_at := Suspending\<rparr>) = Some (False, g') \<and>
     worker_at g' = Suspended"
proof -
  let ?p = "silent_dhcp\<lparr>turns := (\<lambda>n. if n < 2 then 0 else 1)\<rparr>"
  let ?g = "(net_boot \<lparr>dns_server = 0, dns_cache = [], dns_seq = 0\<rparr>)\<lparr>networkthread := True, worker_at := Suspending\<rparr>"
  have "networkthread ?g" "worker_at ?g = Suspending" "\<not> netThreadExited ?g" "turns ?p (yields ?g) = 0"
    "turns ?p (yields ?g + 1) = 0" "0 < turns ?p (yields ?g + 2)"
    by (simp_all add: net_boot_def)
  from stop_misses_parking_worker [OF this] show ?thesis by blast
qed

text \<open>A worker that was told to stop inside \<open>if_config\<close> never suspends itself.\<close>

definition halting :: "net_state \<Rightarrow> bool" where
  "halting g \<longleftrightarrow> networkthread g \<and> netHalt g = 2 \<and> worker_at g \<noteq> Suspending \<and> worker_at g \<noteq> Suspended"

lemma halting_yield: "halting g \<Longrightarrow> halting (yield p g)"
proof -
  have one: "halting (worker_step p g)" if "halting g" for g
    using that by (cases "worker_at g") (auto simp: halting_def worker_step_def network_up_def split: option.splits)
  have "halting ((worker_step p ^^ n) g)" if "halting g" for n g using that one by (induction n) auto
  moreover assume "halting g"
  then have "halting (g\<lparr>yields := Suc (yields g)\<rparr>)" by (simp add: halting_def)
  ultimately show ?thesis by (simp add: yield_def)
qed

lemma halting_waits:
  "halting g \<Longrightarrow> \<forall>k. \<not> clicked_cancel p k \<Longrightarrow> fst (init_wait p n g) = False"
proof (induction n arbitrary: g)
  case (Suc n)
  have "halting (usleep p 50 g)" unfolding usleep_def by (rule halting_yield) (use Suc.prems(1) in \<open>simp add: halting_def\<close>)
  from Suc.IH [OF this Suc.prems(2)] Suc.prems show ?case by (simp add: halting_def is_suspended_def)
qed simp

text \<open>
  Once a worker has been abandoned inside \<open>if_config\<close>, \<open>InitializeNetwork\<close> waits until the user
  cancels it, however long: its loop only ends for a worker that suspends itself, and a worker that
  was told to stop returns instead, even when it has brought the network up.
\<close>

theorem initialize_waits_for_ended_worker:
  assumes "networkthread g" "netThreadAbandoned g" "\<not> netThreadExited g" "netHalt g = 2" "worker_at g = Config retry"
    "\<not> networkInit g" "turns p (yields g) = 0" "turns p (yields g + 1) = 0" "\<forall>k. \<not> clicked_cancel p k"
  shows "\<exists>g'. InitializeNetwork p n g = Some (None, g')"
proof -
  let ?y = "yield p g"
  have y: "?y = g\<lparr>yields := Suc (yields g)\<rparr>" using assms(7) by (rule yield_idle)
  have "turns p (yields ?y) = 0" using assms(8) by simp
  from yield_idle [OF this] have yy: "yield p ?y = g\<lparr>yields := Suc (Suc (yields g))\<rparr>" by (simp add: y)
  have s: "StartNetworkThread p ?y = Some (yield p ?y)" using assms(2,3) unfolding StartNetworkThread_def yy by simp
  have "halting (yield p ?y)" unfolding yy using assms by (simp add: halting_def)
  from halting_waits [OF halting_yield [OF this] assms(9), of n p]
  obtain g' where "init_wait p n (yield p (yield p ?y)) = (False, g')" by (cases "init_wait p n (yield p (yield p ?y))") auto
  then show ?thesis using assms(6) s y by (simp add: InitializeNetwork_def)
qed

text \<open>The worker comes back with an address at the third look and ends; the caller waits on.\<close>

definition late_dhcp :: net_platform where
  "late_dhcp = silent_dhcp\<lparr>if_config := (\<lambda>n _ _ _ _. if n < 2 then None else Some (0, ''10.0.0.2'', ''10.0.0.1'')),
     turns := (\<lambda>n. if n < 2 then 0 else 1)\<rparr>"

theorem initialize_waits_for_ended_worker_witness:
  "\<exists>g'. InitializeNetwork late_dhcp 1000
     ((net_boot \<lparr>dns_server = 0, dns_cache = [], dns_seq = 0\<rparr>)\<lparr>networkthread := True, netThreadAbandoned := True, netHalt := 2,
        worker_at := Config 3\<rparr>) = Some (None, g')"
proof -
  let ?g = "(net_boot \<lparr>dns_server = 0, dns_cache = [], dns_seq = 0\<rparr>)\<lparr>networkthread := True, netThreadAbandoned := True,
     netHalt := 2, worker_at := Config 3\<rparr>"
  have "networkthread ?g" "netThreadAbandoned ?g" "\<not> netThreadExited ?g" "netHalt ?g = 2" "worker_at ?g = Config 3"
    "\<not> networkInit ?g" "turns late_dhcp (yields ?g) = 0" "turns late_dhcp (yields ?g + 1) = 0"
    "\<forall>k. \<not> clicked_cancel late_dhcp k"
    by (simp_all add: net_boot_def late_dhcp_def silent_dhcp_def)
  from initialize_waits_for_ended_worker [OF this] show ?thesis by blast
qed

section \<open>A worker that gets its turns brings the network up\<close>

text \<open>What three tries come to: a nonsense address ends them, a failure leaves the next one.\<close>

fun tries :: "net_platform \<Rightarrow> nat \<Rightarrow> nat \<Rightarrow> bool" where
  "tries p 0 n = False"
| "tries p (Suc k) n =
     (case call_config p n of None \<Rightarrow> False
      | Some (res, ip, gw) \<Rightarrow>
        if 0 \<le> res \<and> UsableAddress p ip then True else if 0 \<le> res then False else tries p k (Suc n))"

definition answering :: "net_platform \<Rightarrow> bool" where
  "answering p \<longleftrightarrow> (\<forall>n. call_config p n \<noteq> None) \<and> (\<forall>n. 0 < turns p n) \<and> (\<forall>n. create_ok p n) \<and> (\<forall>n. \<not> clicked_cancel p n)"

definition trying :: "net_state \<Rightarrow> bool" where
  "trying g \<longleftrightarrow> netHalt g \<noteq> 2 \<and> worker_at g \<noteq> Gone \<and> worker_at g \<noteq> Ended \<and> worker_at g \<noteq> Config 0 \<and>
     networkthread g \<and> \<not> netThreadExited g"

definition outcome :: "net_platform \<Rightarrow> net_state \<Rightarrow> bool" where
  "outcome p g \<longleftrightarrow> networkInit g \<or>
     (case worker_at g of Loop \<Rightarrow> tries p 3 (looks g) | Attempt r \<Rightarrow> tries p r (looks g) | Config r \<Rightarrow> tries p r (looks g)
      | Pause r \<Rightarrow> tries p r (looks g) | _ \<Rightarrow> False)"

definition steps_left :: "net_state \<Rightarrow> nat" where
  "steps_left g = (case worker_at g of Loop \<Rightarrow> 14 | Attempt r \<Rightarrow> 4 + 3 * r | Config r \<Rightarrow> 3 + 3 * r | Pause r \<Rightarrow> 5 + 3 * r
     | Park \<Rightarrow> 2 | Suspending \<Rightarrow> 1 | _ \<Rightarrow> 0)"

lemma outcome_fields [simp]: "outcome p (g\<lparr>yields := x\<rparr>) = outcome p g" "outcome p (g\<lparr>now := x\<rparr>) = outcome p g"
  by (cases "worker_at g"; simp add: outcome_def)+

lemma trying_step:
  assumes "answering p" "trying g"
  shows "trying (worker_step p g) \<and> outcome p (worker_step p g) = outcome p g \<and>
     steps_left (worker_step p g) \<le> steps_left g - 1"
proof (cases "worker_at g")
  case (Config r)
  then obtain k where r: "r = Suc k" using assms(2) by (cases r) (auto simp: trying_def)
  obtain res ip gw where c: "call_config p (looks g) = Some (res, ip, gw)"
    using assms(1) unfolding answering_def by (metis not_Some_eq surj_pair)
  show ?thesis
    using assms(2) Config c unfolding r
    by (cases "0 \<le> res"; cases "UsableAddress p ip"; cases k)
      (auto simp: trying_def outcome_def steps_left_def worker_step_def network_up_def)
next
  case (Attempt r)
  then show ?thesis using assms(2)
    by (cases r) (auto simp: trying_def outcome_def steps_left_def worker_step_def)
qed (use assms(2) in \<open>auto simp: trying_def outcome_def steps_left_def worker_step_def\<close>)

lemma trying_steps:
  assumes "answering p"
  shows "trying g \<Longrightarrow> trying ((worker_step p ^^ n) g) \<and> outcome p ((worker_step p ^^ n) g) = outcome p g \<and>
     steps_left ((worker_step p ^^ n) g) \<le> steps_left g - n"
proof (induction n)
  case (Suc n)
  with trying_step [OF assms, of "(worker_step p ^^ n) g"] show ?case by auto
qed simp

lemma trying_yield:
  assumes "answering p" "trying g"
  shows "trying (yield p g) \<and> outcome p (yield p g) = outcome p g \<and> steps_left (yield p g) \<le> steps_left g - 1"
proof -
  let ?g = "g\<lparr>yields := Suc (yields g)\<rparr>"
  have "trying ?g" "outcome p ?g = outcome p g" "steps_left ?g = steps_left g"
    using assms(2) by (simp_all add: trying_def steps_left_def)
  moreover have "0 < turns p (yields g)" using assms(1) by (simp add: answering_def)
  ultimately show ?thesis using trying_steps [OF assms(1), of ?g "turns p (yields g)"] unfolding yield_def by auto
qed

lemma trying_wait:
  assumes "answering p"
  shows "trying g \<Longrightarrow> steps_left g \<le> n \<Longrightarrow>
    \<exists>g'. init_wait p (Suc n) g = (True, g') \<and> trying g' \<and> worker_at g' = Suspended \<and> outcome p g' = outcome p g"
proof (induction n arbitrary: g)
  case 0
  then have "worker_at g = Suspended" by (cases "worker_at g") (auto simp: steps_left_def trying_def)
  with 0 show ?case by (simp add: is_suspended_def)
next
  case (Suc n)
  show ?case
  proof (cases "is_suspended g")
    case True
    with Suc.prems show ?thesis by (simp add: is_suspended_def)
  next
    case False
    let ?h = "g\<lparr>now := now g + 50 + late p (yields g)\<rparr>"
    have h: "trying ?h" "outcome p ?h = outcome p g" "steps_left ?h = steps_left g"
      using Suc.prems(1) by (simp_all add: trying_def steps_left_def)
    from trying_yield [OF assms h(1)] h(2,3) Suc.prems(2) have s: "trying (usleep p 50 g)"
      "outcome p (usleep p 50 g) = outcome p g" "steps_left (usleep p 50 g) \<le> n"
      unfolding usleep_def by auto
    have "init_wait p (Suc (Suc n)) g = init_wait p (Suc n) (usleep p 50 g)"
      using False Suc.prems(1) assms by (simp add: trying_def answering_def)
    then show ?thesis using Suc.IH [OF s(1,3)] s(2) by simp
  qed
qed

text \<open>An order to stop, given to a parked worker that gets its turns, is carried out.\<close>

lemma ended_stays: "worker_at g = Ended \<Longrightarrow> (worker_step p ^^ n) g = g"
  by (induction n) (auto simp: worker_step_def)

lemma suspended_idle: "worker_at g = Suspended \<Longrightarrow> (worker_step p ^^ n) g = g"
  by (induction n) (auto simp: worker_step_def)

lemma stop_parked:
  assumes "answering p" "trying g" "worker_at g = Suspended"
  shows "\<exists>g'. StopNetworkThread p g = Some (True, g') \<and> networkInit g' = networkInit g"
proof -
  let ?g1 = "yield p ((yield p g)\<lparr>netHalt := 2\<rparr>)"
  have g1: "?g1 = g\<lparr>netHalt := 2, yields := Suc (Suc (yields g))\<rparr>"
    using assms(3) by (simp add: yield_def suspended_idle)
  have r: "resume ?g1 = g\<lparr>netHalt := 2, worker_at := Loop, yields := Suc (Suc (yields g))\<rparr>"
    unfolding g1 using assms(3) by (simp add: resume_def is_suspended_def)
  let ?r = "g\<lparr>netHalt := 2, worker_at := Loop, yields := Suc (Suc (yields g))\<rparr>"
  let ?s = "usleep p 20 ?r"
  obtain m where m: "turns p (Suc (Suc (yields g))) = Suc m"
    using assms(1) unfolding answering_def by (metis gr0_conv_Suc)
  let ?h = "?r\<lparr>now := now g + 20 + late p (Suc (Suc (yields g))), yields := Suc (Suc (Suc (yields g)))\<rparr>"
  have h: "worker_step p ?h = ?h\<lparr>netThreadExited := True, worker_at := Ended\<rparr>" by (simp add: worker_step_def)
  have "?s = (worker_step p ^^ Suc m) ?h" using m by (simp add: usleep_def yield_def del: funpow.simps)
  also have "\<dots> = (worker_step p ^^ m) (?h\<lparr>netThreadExited := True, worker_at := Ended\<rparr>)"
    by (simp only: funpow_Suc_right comp_apply h)
  also have "\<dots> = ?h\<lparr>netThreadExited := True, worker_at := Ended\<rparr>" by (rule ended_stays) simp
  finally have s: "worker_at ?s = Ended" "netThreadExited ?s" "networkInit ?s = networkInit g" by simp_all
  have n: "NET_STOP_TIMEOUT_SECS * 50 = Suc (Suc 98)" by (simp add: NET_STOP_TIMEOUT_SECS_def)
  have "\<not> netThreadExited ?r" using assms(2) by (simp add: trying_def)
  then have "await_exit p (Suc (Suc 98)) ?r = await_exit p (Suc 98) ?s"
    unfolding await_exit.simps(2) [of p "Suc 98"] by (rule if_not_P)
  also have "\<dots> = ?s" unfolding await_exit.simps(2) [of p 98] using s(2) by (rule if_P)
  finally have a: "await_exit p (NET_STOP_TIMEOUT_SECS * 50) (resume ?g1) = ?s" unfolding n r .
  have y: "worker_at (yield p ?s) = Ended" "netThreadExited (yield p ?s)" "networkInit (yield p ?s) = networkInit g"
    using s ended_stays [where g = "?s\<lparr>yields := Suc (yields ?s)\<rparr>" and p = p and n = "turns p (yields ?s)"] by (simp_all add: yield_def)
  have nt: "networkthread g" using assms(2) by (simp add: trying_def)
  have "StopNetworkThread p g = map_option (Pair True) (join_thread (yield p ?s))"
    using nt y(2) unfolding StopNetworkThread_def Let_def a by simp
  then show ?thesis using y by (simp add: join_thread_def)
qed

text \<open>
  (C29) When no worker exists, \<open>if_config\<close> always comes back, threads can be created, the worker gets a
  turn at every poll and nobody cancels, \<open>InitializeNetwork\<close> returns within sixteen polls and says
  whether one of three tries gave a usable address (a try that gives a nonsense address is the last).
\<close>

theorem initialize_returns:
  assumes "answering p" "worker_at g = Gone" "\<not> networkthread g" "\<not> netThreadAbandoned g" "\<not> networkInit g"
  shows "\<exists>g'. InitializeNetwork p 16 g = Some (Some (tries p 3 (looks g)), g')"
proof -
  have gone: "(worker_step p ^^ n) h = h" if "worker_at h = Gone" for n h
    using that by (induction n) (auto simp: worker_step_def)
  let ?y = "g\<lparr>yields := Suc (yields g)\<rparr>"
  have y: "yield p g = ?y" using assms(2) by (simp add: yield_def gone)
  let ?z = "?y\<lparr>netHalt := 0, yields := Suc (Suc (Suc (yields g)))\<rparr>"
  have z: "StartNetworkThread p ?y = create_thread p ?z"
    using assms(2,3,4) by (simp add: StartNetworkThread_def Let_def yield_def gone)
  let ?w = "?z\<lparr>netThreadExited := False, networkthread := True, worker_at := Loop\<rparr>"
  have w: "create_thread p ?z = Some ?w" using assms(1,2) by (simp add: create_thread_def answering_def)
  have t: "trying ?w" "outcome p ?w = tries p 3 (looks g)" "steps_left ?w = 14"
    using assms(5) by (simp_all add: trying_def outcome_def steps_left_def)
  note t2 = trying_yield [OF assms(1) t(1)]
  have "steps_left (yield p ?w) \<le> 15" using t2 t(3) by linarith
  from trying_wait [OF assms(1) _ this] t2 obtain g2 where
    g2: "init_wait p (Suc 15) (yield p ?w) = (True, g2)" "trying g2" "worker_at g2 = Suspended" "outcome p g2 = outcome p ?w"
    by metis
  from stop_parked [OF assms(1) g2(2,3)] obtain g3 where g3: "StopNetworkThread p g2 = Some (True, g3)"
    "networkInit g3 = networkInit g2" by blast
  have "networkInit g2 = tries p 3 (looks g)" using g2(3,4) t(2) by (simp add: outcome_def)
  moreover have "(16 :: nat) = Suc 15" by simp
  ultimately show ?thesis
    using assms(5) g2(1) g3 unfolding InitializeNetwork_def y z w by (simp del: init_wait.simps)
qed

text \<open>The first try fails, the second one gives an address.\<close>

definition second_try :: net_platform where
  "second_try = silent_dhcp\<lparr>if_config := (\<lambda>n _ _ _ _. if n = 0 then Some (- 1, [], []) else Some (0, ''10.0.0.2'', ''10.0.0.1''))\<rparr>"

theorem initialize_returns_witness:
  "\<exists>g'. InitializeNetwork second_try 16 (net_boot \<lparr>dns_server = 0, dns_cache = [], dns_seq = 0\<rparr>) = Some (Some True, g')"
proof -
  let ?g = "net_boot \<lparr>dns_server = 0, dns_cache = [], dns_seq = 0\<rparr>"
  have "answering second_try" by (simp add: answering_def call_config_def second_try_def silent_dhcp_def UsableAddress_def)
  moreover have "worker_at ?g = Gone" "\<not> networkthread ?g" "\<not> netThreadAbandoned ?g" "\<not> networkInit ?g"
    by (simp_all add: net_boot_def)
  moreover have "tries second_try 3 (looks ?g)"
    by (simp add: numeral_3_eq_3 call_config_def second_try_def silent_dhcp_def UsableAddress_def net_boot_def c_trunc_def)
  ultimately show ?thesis using initialize_returns [of second_try ?g] by simp
qed

end
