(* ===== verification/File_Io.thy ===== *)
theory File_Io
  imports Complex_Main File_Names
begin

text \<open>
  Whole files (source/fileop.cpp): \<open>LoadFile\<close> into a buffer, in pieces of 4096 bytes, with its retry
  prompt and its cancellation, and \<open>SaveFile\<close>.

  A file that is open is its content and the offset behind which the device fails, if there is one.
  \<open>fopen n\<close> is what the n-th attempt to open gives and \<open>retry n\<close> the user's answer to the n-th
  prompt; \<open>cancelled k\<close> is whether the user calls \<open>CancelFileOp\<close> in the k-th interval, which ends where the
  loop looks at \<open>cancelFileLoad\<close>; interval 0 begins where the operation clears the flag. A \<open>size_t\<close>
  has 32 bits and an \<open>off_t\<close> 64, so the size of a file is cut when it is stored in \<open>loadSize\<close>. Bytes that \<open>fwrite\<close> has taken
  are in the file only as far as \<open>fclose\<close> can write them. Suspending the parse
  thread, progress and prompts are left out. Results are \<open>None\<close> for a store behind the end of the
  buffer and for a user who retries for ever.
\<close>

record disk_file =
  f_content :: string
  f_bad :: "nat option"

definition readable :: "disk_file \<Rightarrow> string" where
  "readable f = (case f_bad f of None \<Rightarrow> f_content f | Some e \<Rightarrow> take e (f_content f))"

section \<open>LoadFile\<close>

text \<open>\<open>fread\<close> of one piece, and whether it met the end of the file.\<close>

definition fread_piece :: "disk_file \<Rightarrow> nat \<Rightarrow> string \<times> bool" where
  "fread_piece f off =
     (let piece = take 4096 (drop off (readable f))
      in (piece, length piece < 4096 \<and> readable f = f_content f))"

text \<open>The global variables the operation leaves behind.\<close>

record load_vars =
  cancelFileLoad :: bool
  loadOffset :: nat
  loadSize :: nat

definition CancelFileOp :: "load_vars \<Rightarrow> load_vars" where
  "CancelFileOp v = v\<lparr>cancelFileLoad := True\<rparr>"

definition size_t :: "nat \<Rightarrow> nat" where
  "size_t n = n mod 2 ^ 32"

text \<open>
  The loop over the pieces; \<open>out\<close> is the content of the buffer. The result has the offset, the content and the
  number of the interval in which the operation returns.
\<close>

function load_loop :: "disk_file \<Rightarrow> (nat \<Rightarrow> bool) \<Rightarrow> nat \<Rightarrow> nat \<Rightarrow> bool \<Rightarrow> nat \<Rightarrow> string \<Rightarrow> (nat \<times> string \<times> nat) option" where
  "load_loop f cancelled buffersize k eof off out =
     (if eof then Some (off, out, k)
      else
        (case fread_piece f off of (piece, eof1) \<Rightarrow>
           if piece = [] then Some (off, out, k)
           else if buffersize < off + length piece then None
           else if cancelled k then Some (0, out @ piece, Suc k)
           else load_loop f cancelled buffersize (Suc k) eof1 (off + length piece) (out @ piece)))"
  by pat_completeness auto

termination
  by (relation "measure (\<lambda>(f, cancelled, buffersize, k, eof, off, out). buffersize - off)") (auto simp flip: length_greater_0_conv)

declare load_loop.simps [simp del]

partial_function (option) open_file :: "(nat \<Rightarrow> disk_file option) \<Rightarrow> (nat \<Rightarrow> bool) \<Rightarrow> bool \<Rightarrow> nat \<Rightarrow> disk_file option option" where
  "open_file fopen retry silent n =
     (case fopen n of
        Some f \<Rightarrow> Some (Some f)
      | None \<Rightarrow> if silent then Some None else if retry n then open_file fopen retry silent (Suc n) else Some None)"

definition LoadFile :: "(nat \<Rightarrow> disk_file option) \<Rightarrow> (nat \<Rightarrow> bool) \<Rightarrow> (nat \<Rightarrow> bool) \<Rightarrow> nat \<Rightarrow> bool \<Rightarrow> load_vars
    \<Rightarrow> ((nat \<times> string) \<times> load_vars) option" where
  "LoadFile fopen retry cancelled buffersize silent v =
     (let done = (\<lambda>res out k. ((res, out), v\<lparr>cancelFileLoad := cancelled k, loadSize := 0, loadOffset := 0\<rparr>)) in
      case open_file fopen retry silent 0 of None \<Rightarrow> None
      | Some None \<Rightarrow> Some (done (loadSize v) [] 0)
      | Some (Some f) \<Rightarrow>
        if size_t (length (f_content f)) < buffersize
        then map_option (\<lambda>(off, out, k). done off out k) (load_loop f cancelled buffersize 0 False 0 [])
        else Some (done 0 [] 0))"

section \<open>SaveFile\<close>

text \<open>
  Writing the pieces; the k-th \<open>fwrite\<close> of \<open>n\<close> bytes takes \<open>wr k n\<close> of them and \<open>out\<close> is what the stream has
  taken so far.
\<close>

function save_loop :: "(nat \<Rightarrow> nat \<Rightarrow> nat) \<Rightarrow> string \<Rightarrow> nat \<Rightarrow> nat \<Rightarrow> string \<Rightarrow> nat \<times> string" where
  "save_loop wr data k written out =
     (if written < length data then
        (let nextwrite = (if length data - written > 4096 then 4096 else length data - written);
             piece = take nextwrite (drop written data)
         in if wr k nextwrite \<noteq> nextwrite then (written, out @ take (wr k nextwrite) piece)
            else save_loop wr data (Suc k) (written + nextwrite) (out @ piece))
      else (written, out))"
  by pat_completeness auto

termination
  by (relation "measure (\<lambda>(wr, data, k, written, out). length data - written)") auto

declare save_loop.simps [simp del]

text \<open>
  The attempts; \<open>flushed n\<close> is how many of the bytes that were taken are in the file after the n-th \<open>fclose\<close>,
  whose result the code does not look at. The result is the count and the content of the file, if the last attempt opened it.
\<close>

partial_function (option) save_attempts :: "(nat \<Rightarrow> bool) \<Rightarrow> (nat \<Rightarrow> nat \<Rightarrow> nat \<Rightarrow> nat) \<Rightarrow> (nat \<Rightarrow> nat) \<Rightarrow> (nat \<Rightarrow> bool) \<Rightarrow> string
    \<Rightarrow> bool \<Rightarrow> nat \<Rightarrow> (nat \<times> string option) option" where
  "save_attempts fopen wr flushed retry data silent n =
     (if \<not> fopen n then
        (if silent then Some (0, None) else if retry n then save_attempts fopen wr flushed retry data silent (Suc n) else Some (0, None))
      else
        (case save_loop (wr n) data 0 0 [] of (w, out) \<Rightarrow>
           if w = length data then Some (w, Some (take (flushed n) out))
           else if silent then Some (0, Some (take (flushed n) out))
           else if retry n then save_attempts fopen wr flushed retry data silent (Suc n) else Some (0, Some (take (flushed n) out))))"

definition SaveFile :: "(nat \<Rightarrow> bool) \<Rightarrow> (nat \<Rightarrow> nat \<Rightarrow> nat \<Rightarrow> nat) \<Rightarrow> (nat \<Rightarrow> nat) \<Rightarrow> (nat \<Rightarrow> bool) \<Rightarrow> string \<Rightarrow> bool
    \<Rightarrow> (nat \<times> string option) option" where
  "SaveFile fopen wr flushed retry data silent =
     (if data = [] then Some (0, None) else save_attempts fopen wr flushed retry data silent 0)"

section \<open>What the loops do\<close>

lemma readable_le: "length (readable f) \<le> length (f_content f)"
  by (simp add: readable_def split: option.splits)

text \<open>Whether the user cancels behind a piece that begins in front of the end of what can be read and fits into the buffer.\<close>

definition cancels :: "(nat \<Rightarrow> bool) \<Rightarrow> nat \<Rightarrow> nat \<Rightarrow> nat \<Rightarrow> nat \<Rightarrow> bool" where
  "cancels cancelled bytes buffersize k off \<longleftrightarrow>
     (\<exists>j. off + 4096 * j < bytes \<and> min bytes (off + 4096 * Suc j) \<le> buffersize \<and> cancelled (k + j))"

lemma cancels_step:
  assumes "off < bytes" "\<not> cancelled k" "off + 4096 \<le> bytes \<or> bytes = off'" "off + 4096 \<le> bytes \<longrightarrow> off' = off + 4096"
  shows "cancels cancelled bytes buffersize k off = cancels cancelled bytes buffersize (Suc k) off'"
proof -
  have "cancels cancelled bytes buffersize k off \<longleftrightarrow>
      (\<exists>j. off + 4096 * Suc j < bytes \<and> min bytes (off + 4096 * Suc (Suc j)) \<le> buffersize \<and> cancelled (k + Suc j))"
    unfolding cancels_def using assms(2) by (metis add.right_neutral not0_implies_Suc)
  also have "\<dots> = cancels cancelled bytes buffersize (Suc k) off'"
  proof (cases "off + 4096 \<le> bytes")
    case True
    then show ?thesis using assms(4) by (simp add: cancels_def algebra_simps)
  next
    case False
    then show ?thesis using assms(3) by (auto simp: cancels_def)
  qed
  finally show ?thesis .
qed

text \<open>
  The loop reads up to the end of what can be read, unless the user cancels before; it stores behind the end of
  the buffer exactly when there is more to read than the buffer holds.
\<close>

lemma load_loop_spec:
  assumes "off \<le> length (readable f)" "off \<le> buffersize" "out = take off (readable f)" "eof \<longrightarrow> off = length (readable f)"
  shows "\<exists>kept m. load_loop f cancelled buffersize k eof off out =
     (if cancels cancelled (length (readable f)) buffersize k off then Some (0, kept, m)
      else if buffersize < length (readable f) then None else Some (length (readable f), readable f, m))"
  using assms
proof (induction "length (readable f) - off" arbitrary: k eof off out rule: less_induct)
  case less
  let ?R = "readable f" and ?piece = "take 4096 (drop off (readable f))"
  show ?case
  proof (cases "eof \<or> off = length ?R")
    case True
    then have "load_loop f cancelled buffersize k eof off out = Some (length ?R, ?R, k)"
      using less.prems by (subst load_loop.simps) (auto simp: fread_piece_def)
    moreover have "\<not> cancels cancelled (length ?R) buffersize k off" "\<not> buffersize < length ?R"
      using True less.prems(2,4) by (auto simp: cancels_def)
    ultimately show ?thesis by simp
  next
    case False
    then have lt: "off < length ?R" "\<not> eof" using less.prems(1) by auto
    let ?off = "off + length ?piece"
    have len: "?off = min (length ?R) (off + 4096)" "?piece \<noteq> []" using lt by auto
    consider "buffersize < ?off" | "?off \<le> buffersize" "cancelled k" | "?off \<le> buffersize" "\<not> cancelled k" by linarith
    then show ?thesis
    proof cases
      case 1
      have "\<not> cancels cancelled (length ?R) buffersize k off"
      proof
        assume "cancels cancelled (length ?R) buffersize k off"
        then obtain j where "min (length ?R) (off + 4096 * Suc j) \<le> buffersize" by (auto simp: cancels_def)
        then show False using 1 len(1) by (simp add: min_def split: if_splits)
      qed
      moreover have "load_loop f cancelled buffersize k eof off out = None"
        using lt len 1 by (subst load_loop.simps) (simp add: fread_piece_def)
      ultimately show ?thesis using 1 len(1) by simp
    next
      case 2
      then have "\<not> buffersize < ?off" by simp
      then have "load_loop f cancelled buffersize k eof off out = Some (0, out @ ?piece, Suc k)"
        using 2(2) lt len(2) by (subst load_loop.simps) (simp add: fread_piece_def)
      moreover have "cancels cancelled (length ?R) buffersize k off"
        unfolding cancels_def by (rule exI [of _ 0]) (use 2(1) [unfolded len(1)] 2(2) lt in auto)
      ultimately show ?thesis by simp
    next
      case 3
      let ?eof = "length ?piece < 4096 \<and> ?R = f_content f"
      have "\<not> buffersize < ?off" using 3 by simp
      then have step: "load_loop f cancelled buffersize k eof off out =
          load_loop f cancelled buffersize (Suc k) ?eof ?off (out @ ?piece)"
        using 3(2) lt len(2) by (subst load_loop.simps) (simp add: fread_piece_def)
      have smaller: "length ?R - ?off < length ?R - off" using lt by auto
      have p: "?off \<le> length ?R" "out @ ?piece = take ?off ?R" "?eof \<longrightarrow> ?off = length ?R"
        using lt less.prems(3) by (auto simp: take_add min_def)
      have "cancels cancelled (length ?R) buffersize k off = cancels cancelled (length ?R) buffersize (Suc k) ?off"
        by (rule cancels_step) (use lt 3 in auto)
      with less.hyps [OF smaller p(1) 3(1) p(2,3), of "Suc k"] show ?thesis unfolding step by simp
    qed
  qed
qed

lemma save_loop_spec:
  "written \<le> length data \<Longrightarrow> out = take written data \<Longrightarrow>
   \<exists>w rest. save_loop wr data k written out = (w, rest) \<and> (w = length data \<longrightarrow> rest = data)"
proof (induction "length data - written" arbitrary: k written out rule: less_induct)
  case less
  show ?case
  proof (cases "written < length data")
    case False
    then show ?thesis using less.prems by (subst save_loop.simps) simp
  next
    case True
    let ?n = "if length data - written > 4096 then 4096 else length data - written"
    let ?piece = "take ?n (drop written data)"
    have n: "0 < ?n" "written + ?n \<le> length data" using True by auto
    show ?thesis
    proof (cases "wr k ?n = ?n")
      case False
      then have "save_loop wr data k written out = (written, out @ take (wr k ?n) ?piece)"
        using True by (subst save_loop.simps) (simp add: Let_def)
      then show ?thesis using True by auto
    next
      case all: True
      have "save_loop wr data k written out = save_loop wr data (Suc k) (written + ?n) (out @ ?piece)"
        using True all by (subst save_loop.simps) (simp add: Let_def)
      moreover have "length data - (written + ?n) < length data - written" using True n by linarith
      moreover have "out @ ?piece = take (written + ?n) data" using less.prems(2) by (simp only: take_add)
      ultimately show ?thesis using less.hyps [of "written + ?n" "out @ ?piece" "Suc k"] n(2) by metis
    qed
  qed
qed

section \<open>Properties\<close>

text \<open>
  (C35) Loading a file that opened. When its size, cut to 32 bits, is not below the size of the buffer, nothing is read. Otherwise the
  buffer gets the file, or the part in front of the place where the device fails, and the result is
  the length of that; when the user cancels behind one of the pieces it is zero. The comparison keeps the stores
  inside the buffer for every file below 4 GB. A longer one passes it with what is left of its size,
  and then there is a store behind the end, unless the device fails or the user cancels before. The two counters are zero
  afterwards, and \<open>cancelFileLoad\<close> is set if the user cancelled too late to be noticed.
\<close>

theorem load_file_loads:
  assumes "fopen 0 = Some f"
  shows "\<exists>kept m. LoadFile fopen retry cancelled buffersize silent v =
     (let done = \<lparr>cancelFileLoad = cancelled m, loadOffset = 0, loadSize = 0\<rparr> in
      if buffersize \<le> length (f_content f) mod 2 ^ 32 then Some ((0, []), done)
      else if cancels cancelled (length (readable f)) buffersize 0 0 then Some ((0, kept), done)
      else if buffersize < length (readable f) then None
      else Some ((length (readable f), readable f), done)) \<and>
     (length (f_content f) < 2 ^ 32 \<longrightarrow> LoadFile fopen retry cancelled buffersize silent v \<noteq> None)"
proof -
  have o: "open_file fopen retry silent 0 = Some (Some f)" using assms by (subst open_file.simps) simp
  have v: "v\<lparr>cancelFileLoad := c, loadSize := 0, loadOffset := 0\<rparr> = \<lparr>cancelFileLoad = c, loadOffset = 0, loadSize = 0\<rparr>" for c
    by (cases v) simp
  have "(0 :: nat) \<le> length (readable f)" "(0 :: nat) \<le> buffersize" "[] = take 0 (readable f)" "False \<longrightarrow> 0 = length (readable f)" by simp_all
  from load_loop_spec [OF this, of cancelled 0] obtain kept m where
    l: "load_loop f cancelled buffersize 0 False 0 [] =
     (if cancels cancelled (length (readable f)) buffersize 0 0 then Some (0, kept, m)
      else if buffersize < length (readable f) then None else Some (length (readable f), readable f, m))" by blast
  have r: "LoadFile fopen retry cancelled buffersize silent v =
     (let done = \<lparr>cancelFileLoad = cancelled (if buffersize \<le> length (f_content f) mod 2 ^ 32 then 0 else m), loadOffset = 0, loadSize = 0\<rparr> in
      if buffersize \<le> length (f_content f) mod 2 ^ 32 then Some ((0, []), done)
      else if cancels cancelled (length (readable f)) buffersize 0 0 then Some ((0, kept), done)
      else if buffersize < length (readable f) then None
      else Some ((length (readable f), readable f), done))"
    using o l by (simp add: LoadFile_def v size_t_def Let_def)
  have "LoadFile fopen retry cancelled buffersize silent v \<noteq> None" if "length (f_content f) < 2 ^ 32"
    using that readable_le [of f] unfolding r by (auto simp: Let_def)
  with r show ?thesis by blast
qed

definition plain_file :: "string \<Rightarrow> disk_file" where
  "plain_file s = \<lparr>f_content = s, f_bad = None\<rparr>"

text \<open>A file that fails behind its third byte; and one of four gigabytes and ten bytes, into a buffer of hundred bytes.\<close>

theorem load_file_loads_witness:
  "(\<exists>v. LoadFile (\<lambda>_. Some \<lparr>f_content = ''settings'', f_bad = Some 3\<rparr>) (\<lambda>_. False) (\<lambda>_. False) 100 True
     \<lparr>cancelFileLoad = True, loadOffset = 0, loadSize = 0\<rparr> = Some ((3, ''set''), v)) \<and>
   LoadFile (\<lambda>_. Some (plain_file (replicate (2 ^ 32 + 10) CHR ''x''))) (\<lambda>_. False) (\<lambda>_. False) 100 True
     \<lparr>cancelFileLoad = False, loadOffset = 0, loadSize = 0\<rparr> = None"
proof
  have r: "readable \<lparr>f_content = ''settings'', f_bad = Some 3\<rparr> = ''set''" by (simp add: readable_def)
  have "(\<lambda>_ :: nat. Some \<lparr>f_content = ''settings'', f_bad = Some 3\<rparr>) 0 = Some \<lparr>f_content = ''settings'', f_bad = Some 3\<rparr>" by simp
  from load_file_loads [OF this, of "\<lambda>_. False" "\<lambda>_. False" 100 True "\<lparr>cancelFileLoad = True, loadOffset = 0, loadSize = 0\<rparr>"]
  show "\<exists>v. LoadFile (\<lambda>_. Some \<lparr>f_content = ''settings'', f_bad = Some 3\<rparr>) (\<lambda>_. False) (\<lambda>_. False) 100 True
     \<lparr>cancelFileLoad = True, loadOffset = 0, loadSize = 0\<rparr> = Some ((3, ''set''), v)"
    unfolding r by (simp add: cancels_def Let_def)
next
  let ?f = "plain_file (replicate (2 ^ 32 + 10) CHR ''x'')"
  have l: "length (f_content ?f) = 2 ^ 32 + 10" "length (readable ?f) = 2 ^ 32 + 10" by (simp_all add: plain_file_def readable_def)
  have "(\<lambda>_ :: nat. Some ?f) 0 = Some ?f" by simp
  from load_file_loads [OF this, of "\<lambda>_. False" "\<lambda>_. False" 100 True "\<lparr>cancelFileLoad = False, loadOffset = 0, loadSize = 0\<rparr>"]
  show "LoadFile (\<lambda>_. Some ?f) (\<lambda>_. False) (\<lambda>_. False) 100 True \<lparr>cancelFileLoad = False, loadOffset = 0, loadSize = 0\<rparr> = None"
    unfolding l by (simp add: cancels_def Let_def)
qed

lemma save_attempts_full:
  assumes "save_attempts fopen wr flushed retry data silent n = Some (w, c)" "w \<noteq> 0"
  shows "w = length data \<and> (\<exists>m. fopen m \<and> c = Some (take (flushed m) data))"
proof -
  let ?P = "\<lambda>fopen flushed data r. case r of (w, c) \<Rightarrow> w \<noteq> 0 \<longrightarrow> w = length data \<and> (\<exists>m. fopen m \<and> c = Some (take (flushed m) data))"
  have "?P fopen flushed data r" if "save_attempts fopen wr flushed retry data silent n = Some r" for n r
    using that
  proof (rule save_attempts.raw_induct [where P = "\<lambda>fopen _ flushed _ data _ _ r. ?P fopen flushed data r", rotated])
    fix rec :: "(nat \<Rightarrow> bool) \<Rightarrow> (nat \<Rightarrow> nat \<Rightarrow> nat \<Rightarrow> nat) \<Rightarrow> (nat \<Rightarrow> nat) \<Rightarrow> (nat \<Rightarrow> bool) \<Rightarrow> string \<Rightarrow> bool \<Rightarrow> nat \<Rightarrow> (nat \<times> string option) option"
    fix fopen wr flushed retry data silent n r
    assume IH: "\<And>fopen wr flushed retry data silent n r. rec fopen wr flushed retry data silent n = Some r \<Longrightarrow> ?P fopen flushed data r"
      and r: "(if \<not> fopen n then (if silent then Some (0, None) else if retry n then rec fopen wr flushed retry data silent (Suc n) else Some (0, None))
        else (case save_loop (wr n) data 0 0 [] of (w, out) \<Rightarrow>
           if w = length data then Some (w, Some (take (flushed n) out))
           else if silent then Some (0, Some (take (flushed n) out))
           else if retry n then rec fopen wr flushed retry data silent (Suc n) else Some (0, Some (take (flushed n) out)))) = Some r"
    obtain w1 out where l: "save_loop (wr n) data 0 0 [] = (w1, out)" by fastforce
    from save_loop_spec [of 0 data "[]" "wr n" 0] l have "w1 = length data \<longrightarrow> out = data" by simp
    then show "?P fopen flushed data r"
      using r l IH [of fopen wr flushed retry data silent "Suc n" r] by (auto split: if_splits)
  qed
  from this [OF assms(1)] assms(2) show ?thesis by simp
qed

text \<open>
  (C34) When \<open>SaveFile\<close> reports success, whatever number of attempts it took, the stream has taken all the data, and the file
  holds as many of its bytes as the last \<open>fclose\<close> wrote: all of them when it succeeded, but a close that fails, on
  a full or removed card, is not noticed and a part is reported as saved. Loading
  the file into a larger buffer gives back exactly what it holds.
\<close>

theorem saved_file_loads:
  assumes "SaveFile fopen wr flushed retry data silent = Some (n, c)" "n \<noteq> 0" "length data < buffersize" "length data < 2 ^ 32"
  shows "n = length data \<and> (\<exists>m. fopen m \<and> c = Some (take (flushed m) data) \<and>
     (\<exists>v'. LoadFile (\<lambda>_. map_option plain_file c) retry (\<lambda>_. False) buffersize silent v =
        Some ((min (length data) (flushed m), take (flushed m) data), v')))"
proof -
  have "save_attempts fopen wr flushed retry data silent 0 = Some (n, c)"
    using assms(1,2) by (auto simp: SaveFile_def split: if_splits)
  from save_attempts_full [OF this assms(2)] obtain m where
    c: "n = length data" "fopen m" "c = Some (take (flushed m) data)" by blast
  let ?d = "take (flushed m) data"
  from c have o: "(\<lambda>_ :: nat. map_option plain_file c) 0 = Some (plain_file ?d)" by simp
  have f: "readable (plain_file ?d) = ?d" "f_content (plain_file ?d) = ?d" by (simp_all add: readable_def plain_file_def)
  have "length ?d < buffersize" "length ?d mod 2 ^ 32 = length ?d" using assms(3,4) by simp_all
  with load_file_loads [OF o, of retry "\<lambda>_. False" buffersize silent v] f
  have "\<exists>v'. LoadFile (\<lambda>_. map_option plain_file c) retry (\<lambda>_. False) buffersize silent v = Some ((length ?d, ?d), v')"
    by (auto simp: cancels_def Let_def)
  with c show ?thesis by auto
qed

text \<open>A save whose third attempt succeeds, and one where the card is full when the file is closed.\<close>

theorem saved_file_loads_witness:
  "(\<exists>c. SaveFile (\<lambda>n. 0 < n) (\<lambda>n k m. if n = 1 then 0 else m) (\<lambda>_. 8) (\<lambda>_. True) ''settings'' False = Some (8, c) \<and> c = Some ''settings'') \<and>
   (\<exists>c v'. SaveFile (\<lambda>_. True) (\<lambda>n k m. m) (\<lambda>_. 3) (\<lambda>_. False) ''settings'' True = Some (8, c) \<and>
     LoadFile (\<lambda>_. map_option plain_file c) (\<lambda>_. False) (\<lambda>_. False) 100 True \<lparr>cancelFileLoad = False, loadOffset = 0, loadSize = 0\<rparr> = Some ((3, ''set''), v'))"
proof
  let ?wr = "\<lambda>n k m :: nat. if n = (1 :: nat) then 0 else m"
  have s: "SaveFile (\<lambda>n. 0 < n) ?wr (\<lambda>_. 8) (\<lambda>_. True) ''settings'' False = Some (8, Some ''settings'')"
    by (simp add: SaveFile_def save_attempts.simps save_loop.simps)
  have "(8 :: nat) \<noteq> 0" "length ''settings'' < 100" "length ''settings'' < 2 ^ 32" by simp_all
  from saved_file_loads [OF s this] s
  show "\<exists>c. SaveFile (\<lambda>n. 0 < n) ?wr (\<lambda>_. 8) (\<lambda>_. True) ''settings'' False = Some (8, c) \<and> c = Some ''settings''" by blast
next
  have s: "SaveFile (\<lambda>_. True) (\<lambda>n k m. m) (\<lambda>_. 3) (\<lambda>_. False) ''settings'' True = Some (8, Some ''set'')"
    by (simp add: SaveFile_def save_attempts.simps save_loop.simps)
  have "(8 :: nat) \<noteq> 0" "length ''settings'' < 100" "length ''settings'' < 2 ^ 32" by simp_all
  from saved_file_loads [OF s this, of "\<lparr>cancelFileLoad = False, loadOffset = 0, loadSize = 0\<rparr>"] s
  show "\<exists>c v'. SaveFile (\<lambda>_. True) (\<lambda>n k m. m) (\<lambda>_. 3) (\<lambda>_. False) ''settings'' True = Some (8, c) \<and>
     LoadFile (\<lambda>_. map_option plain_file c) (\<lambda>_. False) (\<lambda>_. False) 100 True \<lparr>cancelFileLoad = False, loadOffset = 0, loadSize = 0\<rparr> = Some ((3, ''set''), v')"
    by auto
qed

end
