(* ===== verification/Plx_Text.thy ===== *)
theory Plx_Text
  imports Complex_Main File_Names
begin

text \<open>
  The text of a PLX playlist (\<open>ParsePLXPlaylist\<close>, source/fileop.cpp): cutting the downloaded bytes into
  lines, reading a line as attribute and value with \<open>sscanf\<close>, and collecting the entries.

  Results are options: \<open>None\<close> is a store outside a buffer (the two of 1024 bytes that \<open>sscanf\<close> fills
  without a bound) or through NULL; \<open>Inl\<close> is the return with the error code -1 (with the number of allocations made). \<open>alloc n\<close> says whether
  the n-th allocation succeeds.
\<close>

section \<open>Entries\<close>

record plx_entry =
  p_type :: nat
  p_name :: string
  p_url :: string
  p_thumb :: string
  p_xml :: string
  p_tunein :: string
  p_processor :: string

definition plx_blank :: plx_entry where
  "plx_blank = \<lparr>p_type = 0, p_name = [], p_url = [], p_thumb = [], p_xml = [], p_tunein = [], p_processor = []\<rparr>"

definition plx_complete :: "plx_entry \<Rightarrow> bool" where
  "plx_complete e \<longleftrightarrow> 0 < p_type e \<and> p_name e \<noteq> [] \<and> p_url e \<noteq> [] \<and> p_processor e = [] \<and> IsAllowedProtocol (p_url e)"

definition plx_kind :: "string \<Rightarrow> nat" where
  "plx_kind v =
     (if c_strncmp v ''video'' 5 \<or> c_strncmp v ''audio'' 5 then 1
      else if c_strncmp v ''playlist'' 8 then 2
      else if c_strncmp v ''search'' 6 then 3 else 0)"

text \<open>The branches behind \<open>version\<close> and \<open>type\<close>; the longest name and URL leave room for the NUL.\<close>

definition plx_field :: "string \<Rightarrow> string \<Rightarrow> plx_entry \<Rightarrow> plx_entry" where
  "plx_field a v e =
     (if c_strncmp a ''name'' 4 then e\<lparr>p_name := c_trunc 255 v\<rparr>
      else if c_strncmp a ''URL'' 3 then e\<lparr>p_url := c_trunc 1024 v\<rparr>
      else if c_strncmp a ''thumb'' 5 then e\<lparr>p_thumb := c_trunc 255 v\<rparr>
      else if c_strncmp a ''xml'' 3 then e\<lparr>p_xml := c_trunc 255 v\<rparr>
      else if c_strncmp a ''tunein'' 3 then e\<lparr>p_tunein := c_trunc 255 v\<rparr>
      else if c_strncmp a ''processor'' 9 then e\<lparr>p_processor := c_trunc 1024 v\<rparr>
      else e)"

section \<open>Lines\<close>

abbreviation NL :: char where "NL \<equiv> CHR 0x0A"

abbreviation CR :: char where "CR \<equiv> CHR 0x0D"

text \<open>
  The line in front of a newline: \<open>snprintf\<close> stops at a NUL, and a CR in front of the newline is
  removed. For an empty line the code reads the byte in front of \<open>line\<close>; the model takes it not to
  be a CR.
\<close>

definition plx_trim :: "string \<Rightarrow> string" where
  "plx_trim pre = (if NUL \<notin> set pre \<and> pre \<noteq> [] \<and> last pre = CR then butlast pre else c_str pre)"

text \<open>
  The lines that reach \<open>sscanf\<close>: longer than two bytes, ended by a newline within 4096 bytes. Behind a
  longer line nothing is read.
\<close>

function plx_lines :: "string \<Rightarrow> string list" where
  "plx_lines buffer =
     (let pre = takeWhile (\<lambda>c. c \<noteq> NL) (take 4096 buffer); c = length pre in
      if buffer = [] then []
      else if c = 4096 \<or> c = length buffer then []
      else (if c \<le> 2 then [] else [plx_trim pre]) @ plx_lines (drop (c + 1) buffer))"
  by pat_completeness auto

termination
  by (relation "measure length") (auto simp: Let_def)

declare plx_lines.simps [simp del]

text \<open>\<open>sscanf(line, "%[^=]=%[^\n]", attribute, value)\<close>; inside, \<open>None\<close> is a result other than 2.\<close>

definition scan_pair :: "string \<Rightarrow> (string \<times> string) option option" where
  "scan_pair line =
     (let a = c_before CHR ''='' line; r = c_from CHR ''='' line; v = c_before NL (drop 1 r) in
      if a = [] then Some None
      else if 1024 \<le> length a then None
      else if r = [] \<or> v = [] then Some None
      else if 1024 \<le> length v then None
      else Some (Some (a, v)))"

section \<open>Collecting the entries\<close>

record plx_state =
  plxFile :: bool
  plx_list :: "plx_entry list option"
  newEntry :: plx_entry
  plx_ticks :: nat

text \<open>Adding the finished entry at a new \<open>type\<close> line, with the reallocation of the list.\<close>

definition plx_push :: "(nat \<Rightarrow> bool) \<Rightarrow> plx_state \<Rightarrow> (nat + plx_state) option" where
  "plx_push alloc s =
     (if plx_complete (newEntry s) then
        (case plx_list s of None \<Rightarrow> None
         | Some xs \<Rightarrow>
           if alloc (plx_ticks s) then Some (Inr (s\<lparr>plx_list := Some (xs @ [newEntry s]), plx_ticks := Suc (plx_ticks s)\<rparr>))
           else Some (Inl (Suc (plx_ticks s))))
      else Some (Inr s))"

definition plx_pair :: "(nat \<Rightarrow> bool) \<Rightarrow> string \<Rightarrow> string \<Rightarrow> plx_state \<Rightarrow> (nat + plx_state) option" where
  "plx_pair alloc a v s =
     (if c_strncmp a ''version'' 7 then Some (Inr (s\<lparr>plxFile := True\<rparr>))
      else if c_strncmp a ''type'' 4 then
        map_option (map_sum id (\<lambda>t. t\<lparr>newEntry := plx_blank\<lparr>p_type := plx_kind v\<rparr>\<rparr>)) (plx_push alloc s)
      else Some (Inr (s\<lparr>newEntry := plx_field a v (newEntry s)\<rparr>)))"

fun plx_loop :: "(nat \<Rightarrow> bool) \<Rightarrow> string list \<Rightarrow> plx_state \<Rightarrow> (nat + plx_state) option" where
  "plx_loop alloc [] s = Some (Inr s)"
| "plx_loop alloc (line # ls) s =
     (case scan_pair line of None \<Rightarrow> None
      | Some None \<Rightarrow> plx_loop alloc ls s
      | Some (Some (a, v)) \<Rightarrow>
        (case plx_pair alloc a v s of None \<Rightarrow> None
         | Some (Inl n) \<Rightarrow> Some (Inl n)
         | Some (Inr s1) \<Rightarrow> plx_loop alloc ls s1))"

text \<open>The last entry is added without a reallocation.\<close>

definition plx_last :: "plx_state \<Rightarrow> (bool \<times> plx_entry list) option" where
  "plx_last s =
     (if plx_complete (newEntry s) then map_option (\<lambda>xs. (plxFile s, xs @ [newEntry s])) (plx_list s)
      else Some (plxFile s, case plx_list s of None \<Rightarrow> [] | Some xs \<Rightarrow> xs))"

text \<open>
  From the first \<open>malloc\<close> of the list on: whether the file is a PLX file, the entries, and the number
  of allocations made.
\<close>

definition plx_parse :: "(nat \<Rightarrow> bool) \<Rightarrow> nat \<Rightarrow> string \<Rightarrow> (nat + (bool \<times> plx_entry list) \<times> nat) option" where
  "plx_parse alloc n buffer =
     (let s = \<lparr>plxFile = False, plx_list = (if alloc n then Some [] else None), newEntry = plx_blank, plx_ticks = Suc n\<rparr> in
      case plx_loop alloc (plx_lines buffer) s of None \<Rightarrow> None
      | Some (Inl m) \<Rightarrow> Some (Inl m)
      | Some (Inr s1) \<Rightarrow> map_option (\<lambda>r. Inr (r, plx_ticks s1)) (plx_last s1))"

section \<open>What the text says\<close>

text \<open>The pairs of the text, and the records that its \<open>type\<close> lines separate.\<close>

definition plx_pairs :: "string list \<Rightarrow> (string \<times> string) list" where
  "plx_pairs ls = concat (map (\<lambda>l. case scan_pair l of Some (Some p) \<Rightarrow> [p] | _ \<Rightarrow> []) ls)"

fun plx_records :: "(string \<times> string) list \<Rightarrow> plx_entry \<Rightarrow> plx_entry list" where
  "plx_records [] e = [e]"
| "plx_records ((a, v) # ps) e =
     (if c_strncmp a ''version'' 7 then plx_records ps e
      else if c_strncmp a ''type'' 4 then e # plx_records ps (plx_blank\<lparr>p_type := plx_kind v\<rparr>)
      else plx_records ps (plx_field a v e))"

definition plx_entries :: "string \<Rightarrow> plx_entry list" where
  "plx_entries buffer = filter plx_complete (plx_records (plx_pairs (plx_lines buffer)) plx_blank)"

definition is_plx :: "string \<Rightarrow> bool" where
  "is_plx buffer \<longleftrightarrow> (\<exists>p \<in> set (plx_pairs (plx_lines buffer)). c_strncmp (fst p) ''version'' 7)"

lemma plx_loop_spec:
  assumes "\<forall>n. alloc n" "plx_list s = Some xs"
  shows "if \<exists>l \<in> set ls. scan_pair l = None then plx_loop alloc ls s = None
     else \<exists>s1. plx_loop alloc ls s = Some (Inr s1) \<and>
       plx_last s1 = Some (plxFile s \<or> (\<exists>p \<in> set (plx_pairs ls). c_strncmp (fst p) ''version'' 7),
         xs @ filter plx_complete (plx_records (plx_pairs ls) (newEntry s))) \<and> plx_ticks s \<le> plx_ticks s1"
  using assms(2)
proof (induction ls arbitrary: s xs)
  case Nil
  then show ?case by (simp add: plx_pairs_def plx_last_def)
next
  case (Cons l ls)
  show ?case
  proof (cases "scan_pair l")
    case None
    then show ?thesis by simp
  next
    case (Some r)
    show ?thesis
    proof (cases r)
      case None
      then have sc: "scan_pair l = Some None" using Some by simp
      have pairs: "plx_pairs (l # ls) = plx_pairs ls" by (simp add: plx_pairs_def sc)
      have ex: "(\<exists>m \<in> set (l # ls). scan_pair m = None) = (\<exists>m \<in> set ls. scan_pair m = None)" using sc by simp
      show ?thesis unfolding ex pairs using Cons.IH [OF Cons.prems] sc by simp
    next
      case (Some p)
      obtain a v where p: "p = (a, v)" by (cases p)
      have sc: "scan_pair l = Some (Some (a, v))" using \<open>scan_pair l = Some r\<close> Some p by simp
      have pairs: "plx_pairs (l # ls) = (a, v) # plx_pairs ls" by (simp add: plx_pairs_def sc)
      have ex: "(\<exists>m \<in> set (l # ls). scan_pair m = None) = (\<exists>m \<in> set ls. scan_pair m = None)" using sc by simp
      consider (version) "c_strncmp a ''version'' 7" | (starts) "\<not> c_strncmp a ''version'' 7" "c_strncmp a ''type'' 4"
        | (other) "\<not> c_strncmp a ''version'' 7" "\<not> c_strncmp a ''type'' 4" by blast
      then show ?thesis
      proof cases
        case version
        have "plx_list (s\<lparr>plxFile := True\<rparr>) = Some xs" using Cons.prems by simp
        from Cons.IH [OF this] show ?thesis unfolding ex pairs using sc version by (simp add: plx_pair_def cong: if_cong)
      next
        case other
        have "plx_list (s\<lparr>newEntry := plx_field a v (newEntry s)\<rparr>) = Some xs" using Cons.prems by simp
        from Cons.IH [OF this] show ?thesis unfolding ex pairs using sc other by (simp add: plx_pair_def cong: if_cong)
      next
        case starts
        let ?e = "plx_blank\<lparr>p_type := plx_kind v\<rparr>"
        show ?thesis
        proof (cases "plx_complete (newEntry s)")
          case True
          let ?s = "s\<lparr>plx_list := Some (xs @ [newEntry s]), plx_ticks := Suc (plx_ticks s), newEntry := ?e\<rparr>"
          have step: "plx_pair alloc a v s = Some (Inr ?s)"
            using starts True Cons.prems assms(1) by (simp add: plx_pair_def plx_push_def)
          have "plx_list ?s = Some (xs @ [newEntry s])" by simp
          note IH = Cons.IH [OF this]
          show ?thesis
          proof (cases "\<exists>m \<in> set ls. scan_pair m = None")
            case True
            then show ?thesis unfolding ex using IH sc step by simp
          next
            case False
            with IH obtain s1 where "plx_loop alloc ls ?s = Some (Inr s1)" "Suc (plx_ticks s) \<le> plx_ticks s1"
              "plx_last s1 = Some (plxFile s \<or> (\<exists>p\<in>set (plx_pairs ls). c_strncmp (fst p) ''version'' 7),
                 (xs @ [newEntry s]) @ filter plx_complete (plx_records (plx_pairs ls) ?e))" by auto
            then show ?thesis unfolding ex pairs using False sc step starts \<open>plx_complete (newEntry s)\<close> by simp
          qed
        next
          case False
          let ?s = "s\<lparr>newEntry := ?e\<rparr>"
          have "plx_pair alloc a v s = Some (Inr ?s)" using starts False by (simp add: plx_pair_def plx_push_def)
          moreover have "plx_list ?s = Some xs" using Cons.prems by simp
          note Cons.IH [OF this]
          ultimately show ?thesis unfolding ex pairs using sc starts False by (simp cong: if_cong)
        qed
      qed
    qed
  qed
qed

lemma plx_parse_spec:
  assumes "\<forall>n. alloc n"
  shows "if \<exists>l \<in> set (plx_lines buffer). scan_pair l = None then plx_parse alloc n buffer = None
     else \<exists>m > n. plx_parse alloc n buffer = Some (Inr ((is_plx buffer, plx_entries buffer), m))"
proof -
  let ?s = "\<lparr>plxFile = False, plx_list = Some [], newEntry = plx_blank, plx_ticks = Suc n\<rparr>"
  have "plx_list ?s = Some []" by simp
  note loop = plx_loop_spec [OF assms this, of "plx_lines buffer"]
  have start: "plx_parse alloc n buffer = (case plx_loop alloc (plx_lines buffer) ?s of None \<Rightarrow> None
      | Some (Inl m) \<Rightarrow> Some (Inl m)
      | Some (Inr s1) \<Rightarrow> map_option (\<lambda>r. Inr (r, plx_ticks s1)) (plx_last s1))"
    using assms by (simp add: plx_parse_def Let_def)
  show ?thesis
  proof (cases "\<exists>l \<in> set (plx_lines buffer). scan_pair l = None")
    case True
    then show ?thesis using loop start by simp
  next
    case False
    with loop obtain s1 where "plx_loop alloc (plx_lines buffer) ?s = Some (Inr s1)"
      "plx_last s1 = Some (is_plx buffer, plx_entries buffer)" "Suc n \<le> plx_ticks s1"
      by (auto simp: is_plx_def plx_entries_def)
    then show ?thesis using False start by auto
  qed
qed

text \<open>
  (C17) With enough memory the parser delivers exactly the complete entries of the records that the
  \<open>type\<close> lines of the text begin, in their order, and whether the text has a version line, unless an
  attribute or a value has 1024 bytes or more: then \<open>sscanf\<close> stores behind the end of its buffer.
\<close>

theorem plx_parse_entries:
  assumes "\<forall>n. alloc n"
  shows "if \<exists>l \<in> set (plx_lines buffer). scan_pair l = None then plx_parse alloc n buffer = None
     else \<exists>m > n. plx_parse alloc n buffer = Some (Inr ((is_plx buffer, plx_entries buffer), m))"
  using plx_parse_spec [OF assms] .

text \<open>A text with two records and an incomplete one; the value of the first URL spans its equals sign.\<close>

definition demo_plx :: string where
  "demo_plx = ''version=8'' @ [NL] @ ''type=audio'' @ [CR, NL] @ ''name=One'' @ [NL] @ ''URL=http://a/?x=1'' @ [NL, NL] @
     ''type=playlist'' @ [NL] @ ''name=No address'' @ [NL] @ ''type=search'' @ [NL] @ ''name=Find'' @ [NL] @
     ''URL=http://b/'' @ [NL] @ ''thumb=t''"

definition demo_plx_entries :: "plx_entry list" where
  "demo_plx_entries = [plx_blank\<lparr>p_type := 1, p_name := ''One'', p_url := ''http://a/?x=1''\<rparr>,
      plx_blank\<lparr>p_type := 3, p_name := ''Find'', p_url := ''http://b/''\<rparr>]"

lemma demo_plx_reads:
  "plx_entries demo_plx = demo_plx_entries" "is_plx demo_plx" "\<forall>l \<in> set (plx_lines demo_plx). scan_pair l \<noteq> None"
proof -
  have l: "plx_lines demo_plx = [''version=8'', ''type=audio'', ''name=One'', ''URL=http://a/?x=1'', ''type=playlist'',
      ''name=No address'', ''type=search'', ''name=Find'', ''URL=http://b/'']" by code_simp
  have e: "plx_entries demo_plx = demo_plx_entries" "is_plx demo_plx"
    "\<forall>l \<in> set (plx_lines demo_plx). \<not> Option.is_none (scan_pair l)"
    unfolding plx_entries_def is_plx_def l by code_simp+
  then show "plx_entries demo_plx = demo_plx_entries" "is_plx demo_plx" "\<forall>l \<in> set (plx_lines demo_plx). scan_pair l \<noteq> None"
    by (simp_all add: Option.is_none_def)
qed

theorem plx_parse_entries_witness:
  "\<exists>m. plx_parse (\<lambda>_. True) 0 demo_plx = Some (Inr ((True,
     [plx_blank\<lparr>p_type := 1, p_name := ''One'', p_url := ''http://a/?x=1''\<rparr>,
      plx_blank\<lparr>p_type := 3, p_name := ''Find'', p_url := ''http://b/''\<rparr>]), m))"
proof -
  have "\<not> (\<exists>l \<in> set (plx_lines demo_plx). scan_pair l = None)" using demo_plx_reads(3) by blast
  with plx_parse_entries [of "\<lambda>_. True" demo_plx 0] demo_plx_reads(1,2) show ?thesis by (auto simp: demo_plx_entries_def)
qed

section \<open>Printing a playlist and parsing it\<close>

definition kind_name :: "nat \<Rightarrow> string" where
  "kind_name k = (if k = 2 then ''playlist'' else if k = 3 then ''search'' else ''video'')"

definition plx_entry_lines :: "plx_entry \<Rightarrow> string list" where
  "plx_entry_lines e = [''type='' @ kind_name (p_type e), ''name='' @ p_name e, ''URL='' @ p_url e, ''thumb='' @ p_thumb e,
     ''xml='' @ p_xml e, ''tunein='' @ p_tunein e]"

definition print_plx :: "plx_entry list \<Rightarrow> string" where
  "print_plx es = concat (map (\<lambda>l. l @ [NL]) (''version=8'' # concat (map plx_entry_lines es)))"

definition plain_value :: "nat \<Rightarrow> string \<Rightarrow> bool" where
  "plain_value cap v \<longleftrightarrow> NUL \<notin> set v \<and> NL \<notin> set v \<and> CR \<notin> set v \<and> length v < cap"

definition printable_entry :: "plx_entry \<Rightarrow> bool" where
  "printable_entry e \<longleftrightarrow> plx_complete e \<and> p_type e \<le> 3 \<and> plain_value 255 (p_name e) \<and> plain_value 1024 (p_url e) \<and>
     plain_value 255 (p_thumb e) \<and> plain_value 255 (p_xml e) \<and> plain_value 255 (p_tunein e)"

definition plain_line :: "string \<Rightarrow> bool" where
  "plain_line l \<longleftrightarrow> NUL \<notin> set l \<and> NL \<notin> set l \<and> CR \<notin> set l \<and> 2 < length l \<and> length l < 4096"

lemma plx_lines_print: "\<forall>l \<in> set ls. plain_line l \<Longrightarrow> plx_lines (concat (map (\<lambda>l. l @ [NL]) ls)) = ls"
proof (induction ls)
  case Nil
  show ?case by (subst plx_lines.simps) (simp add: Let_def)
next
  case (Cons l ls)
  let ?rest = "concat (map (\<lambda>l. l @ [NL]) ls)"
  have l: "plain_line l" using Cons.prems by simp
  then obtain k where k: "4096 - length l = Suc k" unfolding plain_line_def by (metis Suc_diff_Suc)
  have t: "take 4096 (l @ NL # ?rest) = l @ NL # take k ?rest"
    using l k by (simp add: plain_line_def)
  have "takeWhile (\<lambda>c. c \<noteq> NL) (l @ NL # take k ?rest) = l"
    using l by (intro takeWhile_all_append) (auto simp: plain_line_def)
  then have pre: "takeWhile (\<lambda>c. c \<noteq> NL) (take 4096 (l @ NL # ?rest)) = l" unfolding t .
  have "c_str l = l" using l by (simp add: plain_line_def c_str_def takeWhile_eq_all_conv) (metis)
  then have trim: "plx_trim l = l"
    using l unfolding plx_trim_def plain_line_def by (metis last_in_set)
  have "plx_lines (l @ NL # ?rest) = l # plx_lines ?rest"
    unfolding plx_lines.simps [of "l @ NL # ?rest"] Let_def pre trim using l by (simp add: plain_line_def)
  then show ?case using Cons by simp
qed

lemma scan_pair_print:
  assumes "a \<noteq> []" "CHR ''='' \<notin> set a" "length a < 1024" "plain_value 1024 v"
  shows "scan_pair (a @ CHR ''='' # v) = Some (if v = [] then None else Some (a, v))"
proof -
  have "c_before CHR ''='' (a @ CHR ''='' # v) = a" "c_from CHR ''='' (a @ CHR ''='' # v) = CHR ''='' # v"
    using assms(2) unfolding c_before_def c_from_def
    by (auto intro!: takeWhile_all_append dropWhile_all_append)
  moreover have "c_before NL v = v" using assms(4) unfolding c_before_def plain_value_def by (simp add: takeWhile_eq_all_conv) metis
  ultimately show ?thesis using assms unfolding scan_pair_def by (simp add: Let_def plain_value_def)
qed

lemma plain_value_mono: "plain_value m v \<Longrightarrow> m \<le> n \<Longrightarrow> plain_value n v"
  by (simp add: plain_value_def)

lemma kind_name_plain: "plain_value 255 (kind_name k)"
  by (simp add: kind_name_def plain_value_def)

lemma plx_kind_name: "0 < k \<Longrightarrow> k \<le> 3 \<Longrightarrow> plx_kind (kind_name k) = k"
proof -
  assume "0 < k" "k \<le> 3"
  then have "k = 1 \<or> k = 2 \<or> k = 3" by auto
  then show ?thesis by (auto simp: kind_name_def plx_kind_def c_strncmp_def)
qed

text \<open>The pairs of an entry's lines: a missing value leaves no pair.\<close>

definition pair_if :: "string \<Rightarrow> string \<Rightarrow> (string \<times> string) list" where
  "pair_if a v = (if v = [] then [] else [(a, v)])"

lemma plx_entry_scans:
  assumes "printable_entry e"
  shows "\<forall>l \<in> set (plx_entry_lines e). plain_line l \<and> scan_pair l \<noteq> None"
    "plx_pairs (plx_entry_lines e) = [(''type'', kind_name (p_type e)), (''name'', p_name e), (''URL'', p_url e)] @
       pair_if ''thumb'' (p_thumb e) @ pair_if ''xml'' (p_xml e) @ pair_if ''tunein'' (p_tunein e)"
proof -
  have pv: "plain_value 1024 (p_name e)" "plain_value 1024 (p_url e)" "plain_value 1024 (p_thumb e)" "plain_value 1024 (p_xml e)"
    "plain_value 1024 (p_tunein e)" "plain_value 1024 (kind_name (p_type e))"
    using assms kind_name_plain [of "p_type e"] by (auto simp: printable_entry_def plain_value_def)
  have ne: "p_name e \<noteq> []" "p_url e \<noteq> []" using assms by (simp_all add: printable_entry_def plx_complete_def)
  have kn: "kind_name (p_type e) \<noteq> []" by (simp add: kind_name_def)
  have sc: "scan_pair (''type='' @ kind_name (p_type e)) = Some (Some (''type'', kind_name (p_type e)))"
    "scan_pair (''name='' @ p_name e) = Some (Some (''name'', p_name e))"
    "scan_pair (''URL='' @ p_url e) = Some (Some (''URL'', p_url e))"
    "scan_pair (''thumb='' @ p_thumb e) = Some (if p_thumb e = [] then None else Some (''thumb'', p_thumb e))"
    "scan_pair (''xml='' @ p_xml e) = Some (if p_xml e = [] then None else Some (''xml'', p_xml e))"
    "scan_pair (''tunein='' @ p_tunein e) = Some (if p_tunein e = [] then None else Some (''tunein'', p_tunein e))"
    using scan_pair_print [of "''type''" "kind_name (p_type e)"] scan_pair_print [of "''name''" "p_name e"]
      scan_pair_print [of "''URL''" "p_url e"] scan_pair_print [of "''thumb''" "p_thumb e"]
      scan_pair_print [of "''xml''" "p_xml e"] scan_pair_print [of "''tunein''" "p_tunein e"] pv ne kn
    by simp_all
  then show "plx_pairs (plx_entry_lines e) = [(''type'', kind_name (p_type e)), (''name'', p_name e), (''URL'', p_url e)] @
       pair_if ''thumb'' (p_thumb e) @ pair_if ''xml'' (p_xml e) @ pair_if ''tunein'' (p_tunein e)"
    unfolding plx_pairs_def plx_entry_lines_def pair_if_def by simp
  show "\<forall>l \<in> set (plx_entry_lines e). plain_line l \<and> scan_pair l \<noteq> None"
    unfolding plx_entry_lines_def using sc pv
    by (auto simp: plain_line_def plain_value_def)
qed

lemma plx_records_entry:
  assumes "printable_entry e"
  shows "plx_records (plx_pairs (plx_entry_lines e) @ ps) e0 = e0 # plx_records ps e"
proof -
  let ?b = "plx_blank\<lparr>p_type := p_type e, p_name := p_name e, p_url := p_url e\<rparr>"
  have tr: "c_trunc 255 (p_name e) = p_name e" "c_trunc 1024 (p_url e) = p_url e" "c_trunc 255 (p_thumb e) = p_thumb e"
    "c_trunc 255 (p_xml e) = p_xml e" "c_trunc 255 (p_tunein e) = p_tunein e"
    using assms by (simp_all add: printable_entry_def plain_value_def c_trunc_def)
  have k: "plx_kind (kind_name (p_type e)) = p_type e"
    using assms by (intro plx_kind_name) (simp_all add: printable_entry_def plx_complete_def)
  have opt: "plx_records (pair_if ''thumb'' (p_thumb e) @ pair_if ''xml'' (p_xml e) @ pair_if ''tunein'' (p_tunein e) @ ps) ?b =
      plx_records ps (?b\<lparr>p_thumb := p_thumb e, p_xml := p_xml e, p_tunein := p_tunein e\<rparr>)"
    by (auto simp: pair_if_def c_strncmp_def plx_field_def tr plx_blank_def)
  have whole: "?b\<lparr>p_thumb := p_thumb e, p_xml := p_xml e, p_tunein := p_tunein e\<rparr> = e"
    using assms by (cases e) (simp add: plx_blank_def printable_entry_def plx_complete_def)
  show ?thesis
    unfolding plx_entry_scans(2) [OF assms] using opt whole
    by (simp add: c_strncmp_def plx_field_def tr k)
qed

lemma plx_pairs_append: "plx_pairs (ls @ ms) = plx_pairs ls @ plx_pairs ms"
  by (simp add: plx_pairs_def)

lemma plx_records_print:
  "\<forall>e \<in> set es. printable_entry e \<Longrightarrow> plx_records (plx_pairs (concat (map plx_entry_lines es))) e0 = e0 # es"
proof (induction es arbitrary: e0)
  case (Cons e es)
  then show ?case by (simp add: plx_pairs_append plx_records_entry)
qed (simp add: plx_pairs_def)

text \<open>
  A playlist printed in the PLX format is parsed back to its entries, when every entry is
  complete and its fields have no line breaks and fit their buffers.
\<close>

theorem plx_roundtrip:
  assumes "\<forall>n. alloc n" "\<forall>e \<in> set es. printable_entry e"
  shows "\<exists>m. plx_parse alloc n (print_plx es) = Some (Inr ((True, es), m))"
proof -
  let ?ls = "concat (map plx_entry_lines es)"
  have v: "scan_pair ''version=8'' = Some (Some (''version'', ''8''))" by code_simp
  have "\<forall>l \<in> set (''version=8'' # ?ls). plain_line l \<and> scan_pair l \<noteq> None"
    using assms(2) plx_entry_scans(1) v by (auto simp: plain_line_def)
  then have lines: "plx_lines (print_plx es) = ''version=8'' # ?ls" and ok: "\<not> (\<exists>l \<in> set (''version=8'' # ?ls). scan_pair l = None)"
    unfolding print_plx_def using plx_lines_print [of "''version=8'' # ?ls"] by blast+
  have pairs: "plx_pairs (''version=8'' # ?ls) = (''version'', ''8'') # plx_pairs ?ls" by (simp add: plx_pairs_def v)
  have "filter plx_complete es = es" using assms(2) by (simp add: printable_entry_def filter_id_conv)
  then have "plx_entries (print_plx es) = es"
    unfolding plx_entries_def lines pairs using plx_records_print [OF assms(2), of plx_blank]
    by (simp add: c_strncmp_def plx_complete_def plx_blank_def)
  moreover have "is_plx (print_plx es)" unfolding is_plx_def lines pairs by (simp add: c_strncmp_def)
  moreover note plx_parse_spec [OF assms(1), of "print_plx es" n, unfolded lines if_not_P [OF ok]]
  ultimately show ?thesis by auto
qed

theorem plx_roundtrip_witness:
  "\<exists>m. plx_parse (\<lambda>_. True) 0 (print_plx [plx_blank\<lparr>p_type := 2, p_name := ''One'', p_url := ''http://a/'', p_xml := ''x''\<rparr>]) =
     Some (Inr ((True, [plx_blank\<lparr>p_type := 2, p_name := ''One'', p_url := ''http://a/'', p_xml := ''x''\<rparr>]), m))"
proof -
  have "printable_entry (plx_blank\<lparr>p_type := 2, p_name := ''One'', p_url := ''http://a/'', p_xml := ''x''\<rparr>)" by code_simp
  then show ?thesis by (intro plx_roundtrip) auto
qed

end
