(* ===== verification/Playlist_Listing.thy ===== *)
theory Playlist_Listing
  imports Browse_Listing Plx_Text
begin

text \<open>
  Playlists in the browser (source/fileop.cpp): \<open>ParsePLXPlaylist\<close> and \<open>ParsePlaylistFile\<close>, which
  replace the file list by the entries of a playlist.

  \<open>http\<close> and \<open>file\<close> are what \<open>http_request\<close> and \<open>LoadFile\<close> put into the buffer, empty when they
  return zero; MPlayer's playlist parser is the parameter \<open>parse\<close>: the first file name of each item
  and its parameters with their values and images, or nothing. Prompts and drawing are left out. An
  allocation that is not a cell fails or succeeds as \<open>strdup_at\<close> says. \<open>None\<close> is a use of NULL or of
  a freed cell, or a store outside a buffer.
\<close>

section \<open>Texts of an entry\<close>

text \<open>\<open>strdup\<close> into a field of a new entry; when memory has run out the entry is deleted.\<close>

definition set_text :: "which_list \<Rightarrow> addr \<Rightarrow> (string \<Rightarrow> bentry \<Rightarrow> bentry) \<Rightarrow> string \<Rightarrow> 'a ui_scheme \<Rightarrow> (bool \<times> 'a ui_scheme) option" where
  "set_text w a f s u =
     (case c_strdup s u of
        (None, u1) \<Rightarrow> map_option (\<lambda>r. (False, snd r)) (DeleteEntry w (Some a) u1)
      | (Some t, u1) \<Rightarrow> map_option (Pair True) (upd_cell a (f t) u1))"

fun set_texts :: "which_list \<Rightarrow> addr \<Rightarrow> ((string \<Rightarrow> bentry \<Rightarrow> bentry) \<times> string) list \<Rightarrow> 'a ui_scheme \<Rightarrow> (bool \<times> 'a ui_scheme) option" where
  "set_texts w a [] u = Some (True, u)"
| "set_texts w a ((f, s) # fs) u =
     (case set_text w a f s u of None \<Rightarrow> None
      | Some (ok, u1) \<Rightarrow> if ok then set_texts w a fs u1 else Some (False, u1))"


section \<open>PLX playlists\<close>

text \<open>The entry that leads back: the last path of the history, named by \<open>up_text\<close>.\<close>

definition origin_type :: "string \<Rightarrow> entry_type" where
  "origin_type origin = (if IsPlaylistExt (GetExt origin) \<or> c_strncmp origin ''http:'' 5 then TYPE_PLAYLIST else TYPE_FOLDER)"

definition add_plx_up :: "string \<Rightarrow> 'a ui_scheme \<Rightarrow> (bool \<times> 'a ui_scheme) option" where
  "add_plx_up up_text u =
     (let origin = BrowserHistoryRetrieve u in
      case AddEntry Files u of None \<Rightarrow> None
      | Some (None, u1) \<Rightarrow> Some (False, u1)
      | Some (Some a, u1) \<Rightarrow>
        (case set_texts Files a [(\<lambda>s e. e\<lparr>e_file := Some s\<rparr>, origin), (\<lambda>s e. e\<lparr>e_display := Some s\<rparr>, up_text)] u1 of None \<Rightarrow> None
         | Some (ok, u2) \<Rightarrow>
           if \<not> ok then Some (False, u2)
           else map_option (Pair True)
             (upd_cell a (\<lambda>e. e\<lparr>e_length := 0, e_type := origin_type origin, e_icon := ICON_FOLDER\<rparr>) u2)))"

definition add_plx :: "plx_entry \<Rightarrow> 'a ui_scheme \<Rightarrow> (bool \<times> 'a ui_scheme) option" where
  "add_plx p u =
     (case AddEntry Files u of None \<Rightarrow> None
      | Some (None, u1) \<Rightarrow> Some (False, u1)
      | Some (Some a, u1) \<Rightarrow>
        (case set_texts Files a [(\<lambda>s e. e\<lparr>e_file := Some s\<rparr>, p_url p), (\<lambda>s e. e\<lparr>e_display := Some s\<rparr>, p_name p),
            (\<lambda>s e. e\<lparr>e_image := Some s\<rparr>, p_thumb p), (\<lambda>s e. e\<lparr>e_xml := Some s\<rparr>, p_xml p),
            (\<lambda>s e. e\<lparr>e_tunein := Some s\<rparr>, p_tunein p)] u1 of None \<Rightarrow> None
         | Some (ok, u2) \<Rightarrow>
           if \<not> ok then Some (False, u2)
           else map_option (Pair True)
             (upd_cell a (\<lambda>e. if p_type p = 2 then e\<lparr>e_type := TYPE_PLAYLIST\<rparr>
                              else if p_type p = 3 then e\<lparr>e_type := TYPE_SEARCH\<rparr> else e) u2)))"

fun add_plx_all :: "plx_entry list \<Rightarrow> 'a ui_scheme \<Rightarrow> (bool \<times> 'a ui_scheme) option" where
  "add_plx_all [] u = Some (True, u)"
| "add_plx_all (p # ps) u =
     (case add_plx p u of None \<Rightarrow> None
      | Some (ok, u1) \<Rightarrow> if ok then add_plx_all ps u1 else Some (False, u1))"

text \<open>Whether the selected entry is a search; the selection may be NULL.\<close>

definition searching :: "'a ui_scheme \<Rightarrow> bool option" where
  "searching u = map_option (\<lambda>e. e_type e = TYPE_SEARCH) (load (cells u) (b_selIndex (br u Files)))"

definition show_plx :: "string \<Rightarrow> int \<Rightarrow> plx_entry list \<Rightarrow> 'a app_scheme \<Rightarrow> (int \<times> 'a app_scheme) option" where
  "show_plx up_text pagesize ps u =
     (case ResetFiles u of None \<Rightarrow> None
      | Some u1 \<Rightarrow>
        (case add_plx_up up_text u1 of None \<Rightarrow> None
         | Some (ok, u2) \<Rightarrow>
           if \<not> ok then Some (- 1, u2)
           else
             (case add_plx_all ps u2 of None \<Rightarrow> None
              | Some (ok, u3) \<Rightarrow>
                if \<not> ok then Some (- 1, u3)
                else map_option (\<lambda>u4. (b_numEntries (br u4 Files), u4)) (FindFile pagesize u3))))"

definition ParsePLXPlaylist :: "(string \<Rightarrow> string) \<Rightarrow> (string \<Rightarrow> string) \<Rightarrow> string \<Rightarrow> int \<Rightarrow> 'a app_scheme
    \<Rightarrow> (int \<times> 'a app_scheme) option" where
  "ParsePLXPlaylist http file up_text pagesize u0 =
     (let u = u0\<lparr>ticks := Suc (ticks u0)\<rparr>; dir = b_dir (br u Files) in
      if \<not> strdup_at u0 (ticks u0) then Some (0, u)
      else
        (let buffer = (if c_strncmp dir ''http:'' 5 then http dir else file dir) in
         if buffer = [] then
           (if 0 < b_numEntries (br u Files) then map_option (\<lambda>s. (if s then - 4 else 0, u)) (searching u) else Some (0, u))
         else
           (case plx_parse (strdup_at u) (ticks u) buffer of None \<Rightarrow> None
            | Some (Inl m) \<Rightarrow> Some (- 1, u\<lparr>ticks := m\<rparr>)
            | Some (Inr ((plx, ps), m)) \<Rightarrow>
              if ps = [] then
                (if plx then map_option (\<lambda>s. (if s then - 5 else - 2, u\<lparr>ticks := m\<rparr>)) (searching u)
                 else Some (- 2, u\<lparr>ticks := m\<rparr>))
              else show_plx up_text pagesize ps (u\<lparr>ticks := m\<rparr>))))"

section \<open>Other playlists\<close>

type_synonym pls_param = "string \<times> string option \<times> string option"

type_synonym pls_item = "string option \<times> pls_param list"

definition PRETTYFORMAT_TITLE :: string where "PRETTYFORMAT_TITLE = ''pt_prettyformat_title''"

text \<open>Whether an item is shown, and its cleaned path.\<close>

definition listed_file :: "menu \<Rightarrow> string option \<Rightarrow> string option" where
  "listed_file m f =
     (case f of None \<Rightarrow> None
      | Some p \<Rightarrow>
        if 1024 \<le> length p \<or> FindDevice p = None \<or>
           (\<not> IsAllowedProtocol p \<and> \<not> IsAllowedExt m (GetExt p) \<and> \<not> IsPlaylistExt (GetExt p)) \<or> CleanupPath p = []
        then None else Some (CleanupPath p))"

text \<open>
  The entry that leads back, added in front of the first item. The boolean is whether there was
  memory. Without a history there is no name when the first item is on the Internet.
\<close>

definition add_list_up :: "string \<Rightarrow> string \<Rightarrow> 'a ui_scheme \<Rightarrow> (bool \<times> 'a ui_scheme) option" where
  "add_list_up up_text first_file u =
     (let origin = BrowserHistoryRetrieve u;
          up = (if origin \<noteq> [] then Some (origin, origin_type origin)
                  else if \<not> IsAllowedProtocol first_file then Some (''..'', TYPE_FOLDER) else None) in
      case AddEntry Files u of None \<Rightarrow> None
      | Some (None, u1) \<Rightarrow> Some (False, u1)
      | Some (Some a, u1) \<Rightarrow>
        (case (case up of None \<Rightarrow> Some (True, u1)
               | Some (s, t) \<Rightarrow> set_texts Files a [(\<lambda>s e. e\<lparr>e_file := Some s, e_type := t\<rparr>, s)] u1) of None \<Rightarrow> None
         | Some (ok, u2) \<Rightarrow>
           if \<not> ok then Some (False, u2)
           else
             (case set_texts Files a [(\<lambda>s e. e\<lparr>e_display := Some s\<rparr>, up_text)] u2 of None \<Rightarrow> None
              | Some (ok, u3) \<Rightarrow>
                if \<not> ok then Some (False, u3)
                else map_option (Pair True) (upd_cell a (\<lambda>e. e\<lparr>e_length := 0, e_icon := ICON_FOLDER\<rparr>) u3))))"

text \<open>
  The title of an item: the first parameter of that name, if it has a value. Its image is copied
  with \<open>strdup\<close> as well, whose argument must not be NULL; a failed copy of the image is not noticed.
\<close>

definition pretty_param :: "pls_param list \<Rightarrow> (string \<times> string option) option" where
  "pretty_param ps =
     (case find (\<lambda>p. c_strcasecmp (fst p) PRETTYFORMAT_TITLE) ps of None \<Rightarrow> None
      | Some (_, v, img) \<Rightarrow> map_option (\<lambda>t. (t, img)) v)"

definition plain_title :: "bool \<Rightarrow> string \<Rightarrow> string" where
  "plain_title hideExtensions p =
     (let t = (case after_last CHR ''/'' p of None \<Rightarrow> p | Some s \<Rightarrow> if s = [] then p else s)
      in if hideExtensions then StripExt t else t)"

text \<open>Title and image, and the title from the path when there is none.\<close>

definition set_title :: "bool \<Rightarrow> addr \<Rightarrow> string \<Rightarrow> pls_param list \<Rightarrow> 'a ui_scheme \<Rightarrow> (bool \<times> 'a ui_scheme) option" where
  "set_title hideExtensions a p params u =
     (case pretty_param params of
        None \<Rightarrow> set_texts Files a [(\<lambda>s e. e\<lparr>e_display := Some s\<rparr>, plain_title hideExtensions p)] u
      | Some (t, img) \<Rightarrow>
        (case set_texts Files a [(\<lambda>s e. e\<lparr>e_display := Some s\<rparr>, t)] u of None \<Rightarrow> None
         | Some (ok, u1) \<Rightarrow>
           if \<not> ok then Some (False, u1)
           else
             (case img of None \<Rightarrow> None
              | Some i \<Rightarrow>
                (case c_strdup i u1 of (copy, u2) \<Rightarrow> map_option (Pair True) (upd_cell a (\<lambda>e. e\<lparr>e_image := copy\<rparr>) u2)))))"

text \<open>One item behind the first; \<open>ext\<close> is what the variable of that name holds at the end of the turn.\<close>

definition add_item :: "bool \<Rightarrow> string \<Rightarrow> string \<Rightarrow> string \<Rightarrow> pls_param list \<Rightarrow> 'a app_scheme \<Rightarrow> (bool \<times> 'a app_scheme) option" where
  "add_item hideExtensions ext path p params u =
     (case AddEntry Files u of None \<Rightarrow> None
      | Some (None, u1) \<Rightarrow> Some (False, u1)
      | Some (Some a, u1) \<Rightarrow>
        (case set_texts Files a [(\<lambda>s e. e\<lparr>e_file := Some s\<rparr>, path)] u1 of None \<Rightarrow> None
         | Some (ok, u2) \<Rightarrow>
           if \<not> ok then Some (False, u2)
           else
             (case set_title hideExtensions a p params u2 of None \<Rightarrow> None
              | Some (ok, u3) \<Rightarrow>
                if \<not> ok then Some (False, u3)
                else
                  (case upd_cell a (\<lambda>e. if IsPlaylistExt ext then e\<lparr>e_type := TYPE_PLAYLIST\<rparr> else e) u3 of None \<Rightarrow> None
                   | Some u4 \<Rightarrow>
                     if menuCurrent u4 = MENU_BROWSE_MUSIC then
                       (case MusicPlaylistFind (Some a) u4 of None \<Rightarrow> None
                        | Some found \<Rightarrow>
                          map_option (Pair True)
                            (upd_cell a (\<lambda>e. e\<lparr>e_icon := (if found then ICON_FILE_CHECKED else ICON_FILE)\<rparr>) u4))
                     else Some (True, u4)))))"

text \<open>
  The loop; the first boolean is \<open>browserReset\<close>. In the first turn the code reads the extension of the
  history path into the variable that holds the extension of the item.
\<close>

fun list_items :: "bool \<Rightarrow> string \<Rightarrow> bool \<Rightarrow> pls_item list \<Rightarrow> 'a app_scheme \<Rightarrow> (bool \<times> 'a app_scheme) option" where
  "list_items hideExtensions up_text browserReset [] u = Some (browserReset, u)"
| "list_items hideExtensions up_text browserReset ((f, params) # its) u =
     (case listed_file (menuCurrent u) f of
        None \<Rightarrow> list_items hideExtensions up_text browserReset its u
      | Some path \<Rightarrow>
        if 1024 \<le> length path then None
        else
          (case (if browserReset then Some (True, u)
                 else (case ResetFiles u of None \<Rightarrow> None | Some u1 \<Rightarrow> add_list_up up_text path u1)) of None \<Rightarrow> None
           | Some (ok, u2) \<Rightarrow>
             if \<not> ok then Some (True, u2)
             else
               (let ext = (if \<not> browserReset \<and> BrowserHistoryRetrieve u \<noteq> [] then GetExt (BrowserHistoryRetrieve u)
                           else GetExt (the f))
                in case add_item hideExtensions ext path (the f) params u2 of None \<Rightarrow> None
                   | Some (ok, u3) \<Rightarrow> if ok then list_items hideExtensions up_text True its u3 else Some (True, u3))))"

definition ParsePlaylistFile :: "(string \<Rightarrow> string) \<Rightarrow> (string \<Rightarrow> string) \<Rightarrow> (string \<Rightarrow> pls_item list option) \<Rightarrow> bool \<Rightarrow> string
    \<Rightarrow> int \<Rightarrow> 'a app_scheme \<Rightarrow> (int \<times> 'a app_scheme) option" where
  "ParsePlaylistFile http file parse hideExtensions up_text pagesize u =
     (let ext = GetExt (b_dir (br u Files)) in
      case (if ext = [] \<or> ext = ''plx'' then map_option (map_prod Some id) (ParsePLXPlaylist http file up_text pagesize u)
            else Some (None, u)) of None \<Rightarrow> None
      | Some (res, u1) \<Rightarrow>
        if res \<noteq> None \<and> (0 < the res \<or> the res \<le> - 3 \<or> ext \<noteq> []) then Some (the res, u1)
        else
          (case parse (b_dir (br u1 Files)) of None \<Rightarrow> Some (0, u1)
           | Some its \<Rightarrow>
             (case list_items hideExtensions up_text False its u1 of None \<Rightarrow> None
              | Some (browserReset, u2) \<Rightarrow>
                if \<not> browserReset then Some (0, u2)
                else map_option (\<lambda>u3. (b_numEntries (br u3 Files), u3)) (FindFile pagesize u2))))"

section \<open>With memory\<close>

lemma AddEntry_adding:
  fixes u :: "'a app_scheme"
  assumes "lists_ok u L" "roomy u"
  shows "\<exists>a u1 e. AddEntry w u = Some (Some a, u1) \<and> adding_to w u L a u1 e \<and> content e = calloc_entry"
proof (rule AddEntry_spec [OF assms(1), of w], goal_cases)
  case 1
  obtain b where "calloc_at u (ticks u) = Some b" "cells u b = None" using assms(2) unfolding roomy_def by blast
  then have "fst (the (AddEntry w u)) = Some b"
    using 1 by (auto simp: AddEntry_def Let_def split: option.splits)
  with 1 show ?case by simp
next
  case (2 a h)
  let ?u1 = "set_br w ((br u w)\<lparr>b_first := headp (L w @ [a]), b_last := Some a,
      b_numEntries := b_numEntries (br u w) + 1\<rparr>) (u\<lparr>ticks := Suc (ticks u), cells := h\<rparr>)"
  let ?e = "fresh_entry (L w) (b_numEntries (br u w))"
  have al: "calloc_at u (ticks u) = Some a"
    using 2(1) by (auto simp: AddEntry_def Let_def split: option.splits if_splits)
  have hnone: "h b = None" if "b \<noteq> a" "cells u b = None" for b
    using 2(5) that same_bare_alloc [OF 2(5), of b] by simp
  have r1: "roomy ?u1"
    by (rule roomy_tick [OF assms(2)]) (use al hnone in \<open>auto simp: set_br_def\<close>)
  have "kept u ?u1"
    unfolding kept_def
  proof (intro allI impI)
    fix b assume "cells u b \<noteq> None"
    then have "b \<noteq> a" using 2(3) by auto
    then show "map_option content (cells ?u1 b) = map_option content (cells u b)"
      using same_bare_content [OF 2(5), of b] by (simp add: set_br_def)
  qed
  then have "adding_to w u L a ?u1 ?e" using 2 r1 by (simp add: adding_def env_def set_br_def)
  moreover have "content ?e = calloc_entry" by (simp add: fresh_entry_def content_def calloc_entry_def)
  ultimately show ?case using 2(1) by blast
qed

lemma adding_tick: "adding_to w u L a u' e \<Longrightarrow> adding_to w u L a (u'\<lparr>ticks := Suc (ticks u')\<rparr>) e"
proof -
  assume a: "adding_to w u L a u' e"
  then have "roomy u'" by (simp add: adding_def)
  then have "roomy (u'\<lparr>ticks := Suc (ticks u')\<rparr>)" by (rule roomy_tick) auto
  then show ?thesis using a by (simp add: adding_def lists_ok_def env_def kept_def)
qed

lemma adding_memory: "adding_to w u L a u' e \<Longrightarrow> strdup_at u' (ticks u')"
  unfolding adding_def roomy_def by blast

lemma adding_text:
  assumes "adding_to w u L a u' e" "keeps_links (f s)"
  shows "\<exists>u''. set_text w a f s u' = Some (True, u'') \<and> adding_to w u L a u'' (f s e)"
proof -
  from adding_upd [OF adding_tick [OF assms(1)] assms(2)] obtain u'' where
    "upd_cell a (f s) (u'\<lparr>ticks := Suc (ticks u')\<rparr>) = Some u''" "adding_to w u L a u'' (f s e)" by blast
  then show ?thesis using adding_memory [OF assms(1)] by (simp add: set_text_def c_strdup_def)
qed

lemma adding_texts:
  assumes "adding_to w u L a u' e" "\<forall>(f, s) \<in> set fs. keeps_links (f s)"
  shows "\<exists>u''. set_texts w a fs u' = Some (True, u'') \<and> adding_to w u L a u'' (fold (\<lambda>(f, s). f s) fs e)"
  using assms
proof (induction fs arbitrary: u' e)
  case (Cons p fs)
  obtain f s where p: "p = (f, s)" by (cases p)
  with adding_text [OF Cons.prems(1), of f s] Cons.prems(2) obtain u1 where
    u1: "set_text w a f s u' = Some (True, u1)" "adding_to w u L a u1 (f s e)" by auto
  with Cons.IH [OF u1(2)] Cons.prems(2) p show ?case by auto
qed auto

lemma ResetFiles_roomy:
  fixes u :: "'a app_scheme"
  assumes "lists_ok u L" "roomy u"
  shows "\<exists>u' L'. ResetFiles u = Some u' \<and> lists_ok u' L' \<and> roomy u' \<and> env u' = env u \<and> browserHistory u' = browserHistory u \<and>
     b_numEntries (br u' Files) = 0 \<and> L' Files = [] \<and> L' Music = L Music \<and>
     contents (cells u') (L Music) = contents (cells u) (L Music)"
proof -
  obtain u1 where u1: "Reset Subs u = Some u1" "lists_ok u1 (L(Subs := []))" "b_numEntries (br u1 Subs) = 0"
    "u1 = set_br Subs ((br u Subs)\<lparr>b_numEntries := 0, b_selIndex := None, b_pageIndex := 0, b_first := None, b_last := None\<rparr>)
       (u\<lparr>cells := (\<lambda>c. if c \<in> set (L Subs) then None else cells u c)\<rparr>)"
    by (rule Reset_spec [OF assms(1), of Subs]) (rule that; assumption)
  obtain u2 where u2: "Reset Files u1 = Some u2"
    "lists_ok u2 ((L(Subs := []))(Files := []))" "b_numEntries (br u2 Files) = 0"
    "u2 = set_br Files ((br u1 Files)\<lparr>b_numEntries := 0, b_selIndex := None, b_pageIndex := 0, b_first := None, b_last := None\<rparr>)
       (u1\<lparr>cells := (\<lambda>c. if c \<in> set ((L(Subs := [])) Files) then None else cells u1 c)\<rparr>)"
    by (rule Reset_spec [OF u1(2), of Files]) (rule that; assumption)
  have c: "cells u2 = (\<lambda>c. if c \<in> set (L Files) \<or> c \<in> set (L Subs) then None else cells u c)"
    by (simp add: u2(4) u1(4) set_br_def fun_eq_iff)
  have keep: "ticks u2 = ticks u" "calloc_at u2 = calloc_at u" "strdup_at u2 = strdup_at u" "env u2 = env u"
    "browserHistory u2 = browserHistory u"
    by (simp_all add: u2(4) u1(4) set_br_def env_def)
  have "roomy u2" using assms(2) unfolding roomy_def keep c by (metis (mono_tags, lifting))
  moreover have "contents (cells u2) (L Music) = contents (cells u) (L Music)"
  proof -
    have "set (L Music) \<inter> set (L Files) = {}" "set (L Music) \<inter> set (L Subs) = {}"
      using assms(1) by (simp_all add: lists_ok_def)
    then have "cells u2 a = cells u a" if "a \<in> set (L Music)" for a using that by (auto simp: c)
    then show ?thesis by (simp add: contents_def)
  qed
  ultimately show ?thesis
    using u1(1) u2(1,2,3) keep by (intro exI [of _ u2] exI [of _ "(L(Subs := []))(Files := [])"]) (simp add: ResetFiles_def)
qed

section \<open>The listing of a PLX playlist\<close>

definition up_entry :: "string \<Rightarrow> string \<Rightarrow> bentry" where
  "up_entry origin up_text = calloc_entry\<lparr>e_file := Some origin, e_display := Some up_text, e_type := origin_type origin,
     e_icon := ICON_FOLDER\<rparr>"

definition plx_bentry :: "plx_entry \<Rightarrow> bentry" where
  "plx_bentry p = calloc_entry\<lparr>e_type := (if p_type p = 2 then TYPE_PLAYLIST else if p_type p = 3 then TYPE_SEARCH else TYPE_FILE),
     e_file := Some (p_url p), e_display := Some (p_name p), e_xml := Some (p_xml p), e_image := Some (p_thumb p),
     e_tunein := Some (p_tunein p)\<rparr>"

lemma add_plx_up_spec:
  fixes u :: "'a app_scheme"
  assumes "lists_ok u L" "roomy u"
  shows "\<exists>u' L'. add_plx_up up_text u = Some (True, u') \<and> grown u L u' L' [up_entry (BrowserHistoryRetrieve u) up_text]"
proof -
  let ?o = "BrowserHistoryRetrieve u"
  from AddEntry_adding [OF assms] obtain a u1 e where u1: "AddEntry Files u = Some (Some a, u1)" "adding u L a u1 e"
    "content e = calloc_entry" by blast
  have "\<forall>(f, s) \<in> set [(\<lambda>s e. e\<lparr>e_file := Some s\<rparr>, ?o), (\<lambda>s e. e\<lparr>e_display := Some s\<rparr>, up_text)]. keeps_links (f s)"
    by (simp add: keeps_links_def)
  from adding_texts [OF u1(2) this] obtain u2 where
    u2: "set_texts Files a [(\<lambda>s e. e\<lparr>e_file := Some s\<rparr>, ?o), (\<lambda>s e. e\<lparr>e_display := Some s\<rparr>, up_text)] u1 = Some (True, u2)"
    "adding u L a u2 (e\<lparr>e_file := Some ?o, e_display := Some up_text\<rparr>)" by auto
  have "keeps_links (\<lambda>e. e\<lparr>e_length := 0, e_type := origin_type ?o, e_icon := ICON_FOLDER\<rparr>)" by (simp add: keeps_links_def)
  from adding_upd [OF u2(2) this] obtain u3 where
    u3: "upd_cell a (\<lambda>e. e\<lparr>e_length := 0, e_type := origin_type ?o, e_icon := ICON_FOLDER\<rparr>) u2 = Some u3"
    "adding u L a u3 (e\<lparr>e_file := Some ?o, e_display := Some up_text, e_length := 0, e_type := origin_type ?o, e_icon := ICON_FOLDER\<rparr>)"
    by auto
  have "content (e\<lparr>e_file := Some ?o, e_display := Some up_text, e_length := 0, e_type := origin_type ?o, e_icon := ICON_FOLDER\<rparr>) =
      up_entry ?o up_text"
    using u1(3) by (cases e) (simp add: content_def up_entry_def calloc_entry_def)
  with adding_grown [OF u3(2) assms(1)]
  have g: "grown u L u3 (L(Files := L Files @ [a])) [up_entry ?o up_text]" by simp
  have "add_plx_up up_text u = Some (True, u3)" using u1(1) u2(1) u3(1) by (simp add: add_plx_up_def Let_def)
  then show ?thesis using g by blast
qed

lemma add_plx_spec:
  fixes u :: "'a app_scheme"
  assumes "lists_ok u L" "roomy u"
  shows "\<exists>u' L'. add_plx p u = Some (True, u') \<and> grown u L u' L' [plx_bentry p]"
proof -
  let ?fs = "[(\<lambda>s e. e\<lparr>e_file := Some s\<rparr>, p_url p), (\<lambda>s e. e\<lparr>e_display := Some s\<rparr>, p_name p),
     (\<lambda>s e. e\<lparr>e_image := Some s\<rparr>, p_thumb p), (\<lambda>s e. e\<lparr>e_xml := Some s\<rparr>, p_xml p), (\<lambda>s e. e\<lparr>e_tunein := Some s\<rparr>, p_tunein p)]"
  let ?f = "\<lambda>e. if p_type p = 2 then e\<lparr>e_type := TYPE_PLAYLIST\<rparr> else if p_type p = 3 then e\<lparr>e_type := TYPE_SEARCH\<rparr> else e"
  from AddEntry_adding [OF assms] obtain a u1 e where u1: "AddEntry Files u = Some (Some a, u1)" "adding u L a u1 e"
    "content e = calloc_entry" by blast
  have "\<forall>(f, s) \<in> set ?fs. keeps_links (f s)" by (simp add: keeps_links_def)
  from adding_texts [OF u1(2) this] obtain u2 where u2: "set_texts Files a ?fs u1 = Some (True, u2)"
    "adding u L a u2 (fold (\<lambda>(f, s). f s) ?fs e)" by blast
  have "keeps_links ?f" by (simp add: keeps_links_def)
  from adding_upd [OF u2(2) this] obtain u3 where u3: "upd_cell a ?f u2 = Some u3"
    "adding u L a u3 (?f (fold (\<lambda>(f, s). f s) ?fs e))" by blast
  have "content (?f (fold (\<lambda>(f, s). f s) ?fs e)) = plx_bentry p"
    using u1(3) by (cases e) (simp add: content_def plx_bentry_def calloc_entry_def)
  with adding_grown [OF u3(2) assms(1)] have g: "grown u L u3 (L(Files := L Files @ [a])) [plx_bentry p]" by metis
  have "add_plx p u = Some (True, u3)" using u1(1) u2(1) u3(1) by (simp add: add_plx_def)
  then show ?thesis using g by blast
qed

lemma add_plx_all_spec:
  fixes u :: "'a app_scheme"
  assumes "lists_ok u L" "roomy u"
  shows "\<exists>u' L'. add_plx_all ps u = Some (True, u') \<and> grown u L u' L' (map plx_bentry ps)"
  using assms
proof (induction ps arbitrary: u L)
  case Nil
  then show ?case using grown_refl by auto
next
  case (Cons p ps)
  from add_plx_spec [OF Cons.prems, of p] obtain u1 L1 where u1: "add_plx p u = Some (True, u1)" "grown u L u1 L1 [plx_bentry p]"
    by blast
  from Cons.IH [of u1 L1] u1(2) obtain u2 L2 where "add_plx_all ps u1 = Some (True, u2)" "grown u1 L1 u2 L2 (map plx_bentry ps)"
    by (auto simp: grown_def)
  with u1 grown_trans [OF u1(2)] show ?case by fastforce
qed

lemma show_plx_spec:
  fixes u :: "'a app_scheme"
  assumes "lists_ok u L" "roomy u" "loadedFile u = []"
  shows "\<exists>u' L'. show_plx up_text pagesize ps u = Some (int (length ps) + 1, u') \<and> lists_ok u' L' \<and>
     contents (cells u') (L' Files) = up_entry (BrowserHistoryRetrieve u) up_text # map plx_bentry ps \<and>
     L' Music = L Music \<and> contents (cells u') (L Music) = contents (cells u) (L Music)"
proof -
  from ResetFiles_roomy [OF assms(1,2)] obtain u1 L1 where u1: "ResetFiles u = Some u1" "lists_ok u1 L1" "roomy u1" "env u1 = env u"
    "browserHistory u1 = browserHistory u" "b_numEntries (br u1 Files) = 0" "L1 Files = []" "L1 Music = L Music"
    "contents (cells u1) (L Music) = contents (cells u) (L Music)" by blast
  from add_plx_up_spec [OF u1(2,3), of up_text] obtain u2 L2 where u2: "add_plx_up up_text u1 = Some (True, u2)"
    "grown u1 L1 u2 L2 [up_entry (BrowserHistoryRetrieve u1) up_text]" by blast
  have ok2: "lists_ok u2 L2" "roomy u2" using u2(2) by (simp_all add: grown_def)
  from add_plx_all_spec [OF ok2, of ps] obtain u3 L3 where u3: "add_plx_all ps u2 = Some (True, u3)"
    "grown u2 L2 u3 L3 (map plx_bentry ps)" by blast
  have g: "grown u1 L1 u3 L3 ([up_entry (BrowserHistoryRetrieve u1) up_text] @ map plx_bentry ps)"
    by (rule grown_trans [OF u2(2) u3(2)])
  have hist: "BrowserHistoryRetrieve u1 = BrowserHistoryRetrieve u" using u1(5) by (simp add: BrowserHistoryRetrieve_def)
  have lf: "loadedFile u3 = []" using g u1(4) assms(3) by (simp add: grown_def env_def)
  let ?u = "u3\<lparr>findLoadedFile := 0\<rparr>"
  have "show_plx up_text pagesize ps u = Some (b_numEntries (br u3 Files), ?u)"
    using u1(1) u2(1) u3(1) FindFile_nothing [OF lf] by (simp add: show_plx_def)
  moreover have "lists_ok ?u L3" using g by (simp add: grown_def lists_ok_def)
  ultimately show ?thesis using g u1(6-9) hist
    by (intro exI [of _ ?u] exI [of _ L3]) (simp add: grown_def contents_def)
qed

lemma roomy_later: "roomy u \<Longrightarrow> ticks u \<le> m \<Longrightarrow> roomy (u\<lparr>ticks := m\<rparr>)"
  unfolding roomy_def by (auto intro: inj_on_subset)

text \<open>
  (C19) With memory, and when no file is loaded, opening a PLX playlist that fits its line buffers
  replaces the file list by the way back and, in their order, the complete entries of its text with
  their address, name, image, guide and kind; the music list stays as it is and the result is the
  number of entries.
\<close>

theorem plx_playlist_listed:
  fixes u :: "'a app_scheme"
  assumes "lists_ok u L" "roomy u" "\<forall>n. strdup_at u n" "loadedFile u = []"
    "buffer = (if c_strncmp (b_dir (br u Files)) ''http:'' 5 then http (b_dir (br u Files)) else file (b_dir (br u Files)))"
    "\<forall>l \<in> set (plx_lines buffer). scan_pair l \<noteq> None" "plx_entries buffer \<noteq> []"
  shows "\<exists>u' L'. ParsePLXPlaylist http file up_text pagesize u = Some (int (length (plx_entries buffer)) + 1, u') \<and> lists_ok u' L' \<and>
     contents (cells u') (L' Files) = up_entry (BrowserHistoryRetrieve u) up_text # map plx_bentry (plx_entries buffer) \<and>
     L' Music = L Music \<and> contents (cells u') (L Music) = contents (cells u) (L Music)"
proof -
  let ?u = "u\<lparr>ticks := Suc (ticks u)\<rparr>"
  have fit: "\<not> (\<exists>l \<in> set (plx_lines buffer). scan_pair l = None)" using assms(6) by blast
  have al: "\<forall>n. strdup_at ?u n" using assms(3) by simp
  from plx_parse_spec [OF al, of buffer "ticks ?u", unfolded if_not_P [OF fit]] obtain m where
    m: "ticks ?u < m" "plx_parse (strdup_at ?u) (ticks ?u) buffer = Some (Inr ((is_plx buffer, plx_entries buffer), m))" by blast
  have ne: "buffer \<noteq> []"
  proof
    assume "buffer = []"
    then have "plx_lines buffer = []" by (subst plx_lines.simps) (simp add: Let_def)
    then show False using assms(7) by (simp add: plx_entries_def plx_pairs_def plx_complete_def plx_blank_def)
  qed
  let ?v = "?u\<lparr>ticks := m\<rparr>"
  have v: "?v = u\<lparr>ticks := m\<rparr>" by simp
  have r: "lists_ok ?v L" "roomy ?v" "loadedFile ?v = []"
    using assms(1,4) roomy_later [OF assms(2), of m] m(1) unfolding v by (simp_all add: lists_ok_def)
  have b: "(if c_strncmp (b_dir (br ?u Files)) ''http:'' 5 then http (b_dir (br ?u Files)) else file (b_dir (br ?u Files))) = buffer"
    using assms(5) by simp
  have "ParsePLXPlaylist http file up_text pagesize u = show_plx up_text pagesize (plx_entries buffer) ?v"
    unfolding ParsePLXPlaylist_def Let_def b m(2) using assms(3,7) ne by (simp del: ui.simps)
  moreover have "BrowserHistoryRetrieve ?v = BrowserHistoryRetrieve u" by (simp add: BrowserHistoryRetrieve_def)
  ultimately show ?thesis using show_plx_spec [OF r, of up_text pagesize "plx_entries buffer"] by simp
qed

section \<open>The listing of other playlists\<close>

definition list_up_entry :: "string \<Rightarrow> string \<Rightarrow> string \<Rightarrow> bentry" where
  "list_up_entry origin first_file up_text =
     (if origin \<noteq> [] then up_entry origin up_text
      else if \<not> IsAllowedProtocol first_file
      then calloc_entry\<lparr>e_file := Some ''..'', e_type := TYPE_FOLDER, e_display := Some up_text, e_icon := ICON_FOLDER\<rparr>
      else calloc_entry\<lparr>e_display := Some up_text, e_icon := ICON_FOLDER\<rparr>)"

definition item_entry :: "bool \<Rightarrow> menu \<Rightarrow> string \<Rightarrow> string option list \<Rightarrow> string \<Rightarrow> string \<times> string \<times> pls_param list \<Rightarrow> bentry" where
  "item_entry hide m dir songs ext it =
     (case it of (path, p, params) \<Rightarrow>
        calloc_entry\<lparr>e_file := Some path,
          e_display := Some (case pretty_param params of None \<Rightarrow> plain_title hide p | Some (t, _) \<Rightarrow> t),
          e_image := (case pretty_param params of None \<Rightarrow> None | Some (_, img) \<Rightarrow> img),
          e_type := (if IsPlaylistExt ext then TYPE_PLAYLIST else TYPE_FILE),
          e_icon := (if m = MENU_BROWSE_MUSIC
            then (if Some (full_path dir path) \<in> set songs then ICON_FILE_CHECKED else ICON_FILE) else ICON_NONE)\<rparr>)"

text \<open>The items that are shown: cleaned path, name in the playlist, parameters.\<close>

definition shown_items :: "menu \<Rightarrow> pls_item list \<Rightarrow> (string \<times> string \<times> pls_param list) list" where
  "shown_items m its =
     concat (map (\<lambda>(f, params). case listed_file m f of None \<Rightarrow> [] | Some path \<Rightarrow> [(path, the f, params)]) its)"

definition item_fits :: "string \<times> string \<times> pls_param list \<Rightarrow> bool" where
  "item_fits it \<longleftrightarrow> (case it of (path, p, params) \<Rightarrow> length path < 1024 \<and>
     (case pretty_param params of None \<Rightarrow> True | Some (_, img) \<Rightarrow> img \<noteq> None))"

lemma set_title_spec:
  assumes "adding u L a u' e" "case pretty_param params of None \<Rightarrow> True | Some (_, img) \<Rightarrow> img \<noteq> None" "e_image e = None"
  shows "\<exists>u''. set_title hide a p params u' = Some (True, u'') \<and>
     adding u L a u'' (e\<lparr>e_display := Some (case pretty_param params of None \<Rightarrow> plain_title hide p | Some (t, _) \<Rightarrow> t),
       e_image := (case pretty_param params of None \<Rightarrow> None | Some (_, img) \<Rightarrow> img)\<rparr>)"
proof (cases "pretty_param params")
  case None
  have "\<forall>(f, s) \<in> set [(\<lambda>s e. e\<lparr>e_display := Some s\<rparr>, plain_title hide p)]. keeps_links (f s)" by (simp add: keeps_links_def)
  from adding_texts [OF assms(1) this] None assms(3) show ?thesis by (cases e) (simp add: set_title_def)
next
  case (Some r)
  then obtain t i where r: "pretty_param params = Some (t, Some i)" using assms(2) by (cases r) auto
  have "\<forall>(f, s) \<in> set [(\<lambda>s e. e\<lparr>e_display := Some s\<rparr>, t)]. keeps_links (f s)" by (simp add: keeps_links_def)
  from adding_texts [OF assms(1) this] obtain u1 where u1: "set_texts Files a [(\<lambda>s e. e\<lparr>e_display := Some s\<rparr>, t)] u' = Some (True, u1)"
    "adding u L a u1 (e\<lparr>e_display := Some t\<rparr>)" by auto
  have "keeps_links (\<lambda>e. e\<lparr>e_image := Some i\<rparr>)" by (simp add: keeps_links_def)
  from adding_upd [OF adding_tick [OF u1(2)] this] obtain u2 where
    "upd_cell a (\<lambda>e. e\<lparr>e_image := Some i\<rparr>) (u1\<lparr>ticks := Suc (ticks u1)\<rparr>) = Some u2"
    "adding u L a u2 (e\<lparr>e_display := Some t, e_image := Some i\<rparr>)" by auto
  then show ?thesis using u1(1) adding_memory [OF u1(2)] r by (simp add: set_title_def c_strdup_def)
qed

lemma add_item_spec:
  fixes u :: "'a app_scheme"
  assumes "lists_ok u L" "roomy u" "item_fits (path, p, params)"
  shows "\<exists>u' L'. add_item hide ext path p params u = Some (True, u') \<and>
     grown u L u' L' [item_entry hide (menuCurrent u) (b_dir (br u Files)) (files_of (cells u) (L Music)) ext (path, p, params)]"
proof -
  let ?m = "menuCurrent u" and ?dir = "b_dir (br u Files)" and ?songs = "files_of (cells u) (L Music)"
  let ?t = "case pretty_param params of None \<Rightarrow> plain_title hide p | Some (t, _) \<Rightarrow> t"
  let ?i = "case pretty_param params of None \<Rightarrow> None | Some (_, img) \<Rightarrow> img"
  from AddEntry_adding [OF assms(1,2)] obtain a u1 e where u1: "AddEntry Files u = Some (Some a, u1)" "adding u L a u1 e"
    "content e = calloc_entry" by blast
  have "\<forall>(f, s) \<in> set [(\<lambda>s e. e\<lparr>e_file := Some s\<rparr>, path)]. keeps_links (f s)" by (simp add: keeps_links_def)
  from adding_texts [OF u1(2) this] obtain u2 where u2: "set_texts Files a [(\<lambda>s e. e\<lparr>e_file := Some s\<rparr>, path)] u1 = Some (True, u2)"
    "adding u L a u2 (e\<lparr>e_file := Some path\<rparr>)" by auto
  have img: "e_image (e\<lparr>e_file := Some path\<rparr>) = None" using u1(3) by (cases e) (simp add: content_def calloc_entry_def)
  have fits: "case pretty_param params of None \<Rightarrow> True | Some (_, img) \<Rightarrow> img \<noteq> None" using assms(3) by (simp add: item_fits_def)
  from set_title_spec [OF u2(2) fits img, of hide p] obtain u3 where u3: "set_title hide a p params u2 = Some (True, u3)"
    "adding u L a u3 (e\<lparr>e_file := Some path, e_display := Some ?t, e_image := ?i\<rparr>)" by blast
  let ?f = "\<lambda>e. if IsPlaylistExt ext then e\<lparr>e_type := TYPE_PLAYLIST\<rparr> else e"
  have "keeps_links ?f" by (simp add: keeps_links_def)
  from adding_upd [OF u3(2) this] obtain u4 where u4: "upd_cell a ?f u3 = Some u4"
    "adding u L a u4 (?f (e\<lparr>e_file := Some path, e_display := Some ?t, e_image := ?i\<rparr>))" by blast
  let ?e4 = "?f (e\<lparr>e_file := Some path, e_display := Some ?t, e_image := ?i\<rparr>)"
  have ty: "e_type e = TYPE_FILE" "e_icon e = ICON_NONE" using u1(3) by (cases e; simp add: content_def calloc_entry_def)+
  have c: "content (?e4\<lparr>e_icon := ic\<rparr>) = calloc_entry\<lparr>e_file := Some path, e_display := Some ?t, e_image := ?i,
      e_type := (if IsPlaylistExt ext then TYPE_PLAYLIST else TYPE_FILE), e_icon := ic\<rparr>" for ic
    using u1(3) by (cases e) (simp add: content_def calloc_entry_def)
  have env: "env u4 = env u" and k: "kept u u4" and ok4: "lists_ok u4 (L(Files := L Files @ [a]))" and ce: "cells u4 a = Some ?e4"
    using u4(2) by (simp_all add: adding_def)
  show ?thesis
  proof (cases "?m = MENU_BROWSE_MUSIC")
    case True
    have nm: "e_file ?e4 = Some path" by simp
    have path: "GetFullPath u4 (Some ?e4) = full_path ?dir path"
      using env unfolding GetFullPath_def full_path_def option.case nm by (simp add: printed_def env_def)
    have music: "files_of (cells u4) (L Music) = ?songs"
      unfolding files_of_contents using kept_contents [OF k assms(1)] by simp
    define ic where "ic = (if Some (full_path ?dir path) \<in> set ?songs then ICON_FILE_CHECKED else ICON_FILE)"
    have find: "MusicPlaylistFind (Some a) u4 = Some (Some (full_path ?dir path) \<in> set ?songs)"
      using MusicFind_spec [OF ok4 ce] path music by simp
    have "keeps_links (\<lambda>e. e\<lparr>e_icon := ic\<rparr>)" by (simp add: keeps_links_def)
    from adding_upd [OF u4(2) this] obtain u5 where u5: "upd_cell a (\<lambda>e. e\<lparr>e_icon := ic\<rparr>) u4 = Some u5"
      "adding u L a u5 (?e4\<lparr>e_icon := ic\<rparr>)" by blast
    have "menuCurrent u4 = MENU_BROWSE_MUSIC" using env True by (simp add: env_def)
    then have "add_item hide ext path p params u = Some (True, u5)"
      using u1(1) u2(1) u3(1) u4(1) u5(1) find by (simp add: add_item_def ic_def)
    moreover have "content (?e4\<lparr>e_icon := ic\<rparr>) = item_entry hide ?m ?dir ?songs ext (path, p, params)"
      unfolding c using True by (simp add: item_entry_def ic_def)
    ultimately show ?thesis using adding_grown [OF u5(2) assms(1)] by metis
  next
    case False
    have same: "?e4 = ?e4\<lparr>e_icon := ICON_NONE\<rparr>" using ty(2) by (cases e) simp
    have "menuCurrent u4 \<noteq> MENU_BROWSE_MUSIC" using env False by (simp add: env_def)
    then have "add_item hide ext path p params u = Some (True, u4)"
      using u1(1) u2(1) u3(1) u4(1) by (simp add: add_item_def)
    moreover have "content ?e4 = item_entry hide ?m ?dir ?songs ext (path, p, params)"
      by (subst same, subst c) (use False in \<open>simp add: item_entry_def\<close>)
    ultimately show ?thesis using adding_grown [OF u4(2) assms(1)] by metis
  qed
qed

lemma add_list_up_spec:
  fixes u :: "'a app_scheme"
  assumes "lists_ok u L" "roomy u"
  shows "\<exists>u' L'. add_list_up up_text f u = Some (True, u') \<and> grown u L u' L' [list_up_entry (BrowserHistoryRetrieve u) f up_text]"
proof -
  let ?o = "BrowserHistoryRetrieve u"
  let ?up = "if ?o \<noteq> [] then Some (?o, origin_type ?o) else if \<not> IsAllowedProtocol f then Some (''..'', TYPE_FOLDER) else None"
  from AddEntry_adding [OF assms] obtain a u1 e where u1: "AddEntry Files u = Some (Some a, u1)" "adding u L a u1 e"
    "content e = calloc_entry" by blast
  let ?e2 = "case ?up of None \<Rightarrow> e | Some (s, t) \<Rightarrow> e\<lparr>e_file := Some s, e_type := t\<rparr>"
  obtain u2 where u2: "(case ?up of None \<Rightarrow> Some (True, u1)
      | Some (s, t) \<Rightarrow> set_texts Files a [(\<lambda>s e. e\<lparr>e_file := Some s, e_type := t\<rparr>, s)] u1) = Some (True, u2)" "adding u L a u2 ?e2"
  proof (cases ?up)
    case None
    then show ?thesis using u1(2) that by simp
  next
    case (Some b)
    obtain s t where b: "b = (s, t)" by (cases b)
    have "\<forall>(f, s) \<in> set [(\<lambda>s e. e\<lparr>e_file := Some s, e_type := t\<rparr>, s)]. keeps_links (f s)" by (simp add: keeps_links_def)
    from adding_texts [OF u1(2) this] Some b that show ?thesis by auto
  qed
  have "\<forall>(f, s) \<in> set [(\<lambda>s e. e\<lparr>e_display := Some s\<rparr>, up_text)]. keeps_links (f s)" by (simp add: keeps_links_def)
  from adding_texts [OF u2(2) this] obtain u3 where u3: "set_texts Files a [(\<lambda>s e. e\<lparr>e_display := Some s\<rparr>, up_text)] u2 = Some (True, u3)"
    "adding u L a u3 (?e2\<lparr>e_display := Some up_text\<rparr>)" by auto
  have "keeps_links (\<lambda>e. e\<lparr>e_length := 0, e_icon := ICON_FOLDER\<rparr>)" by (simp add: keeps_links_def)
  from adding_upd [OF u3(2) this] obtain u4 where u4: "upd_cell a (\<lambda>e. e\<lparr>e_length := 0, e_icon := ICON_FOLDER\<rparr>) u3 = Some u4"
    "adding u L a u4 (?e2\<lparr>e_display := Some up_text, e_length := 0, e_icon := ICON_FOLDER\<rparr>)" by blast
  have "content (?e2\<lparr>e_display := Some up_text, e_length := 0, e_icon := ICON_FOLDER\<rparr>) = list_up_entry ?o f up_text"
    using u1(3) by (cases e) (simp add: content_def list_up_entry_def up_entry_def calloc_entry_def)
  with adding_grown [OF u4(2) assms(1)] have g: "grown u L u4 (L(Files := L Files @ [a])) [list_up_entry ?o f up_text]" by metis
  have "add_list_up up_text f u = Some (True, u4)"
    unfolding add_list_up_def Let_def using u1(1) u2(1) u3(1) u4(1) by simp
  then show ?thesis using g by blast
qed

definition item_entries :: "bool \<Rightarrow> 'a app_scheme \<Rightarrow> (which_list \<Rightarrow> addr list) \<Rightarrow> (string \<times> string \<times> pls_param list) list \<Rightarrow> bentry list" where
  "item_entries hide u L its =
     map (\<lambda>it. item_entry hide (menuCurrent u) (b_dir (br u Files)) (files_of (cells u) (L Music)) (GetExt (fst (snd it))) it) its"

lemma item_entries_same:
  assumes "env u' = env u" "L' Music = L Music" "contents (cells u') (L Music) = contents (cells u) (L Music)"
  shows "item_entries hide u' L' its = item_entries hide u L its"
  using assms unfolding item_entries_def files_of_contents by (simp add: env_def)

lemma shown_items_Cons:
  "shown_items m ((f, params) # its) =
     (case listed_file m f of None \<Rightarrow> shown_items m its | Some path \<Rightarrow> (path, the f, params) # shown_items m its)"
  by (simp add: shown_items_def split: option.splits)

lemma list_items_more:
  fixes u :: "'a app_scheme"
  assumes "lists_ok u L" "roomy u" "\<forall>it \<in> set (shown_items (menuCurrent u) its). item_fits it"
  shows "\<exists>u' L'. list_items hide up_text True its u = Some (True, u') \<and>
     grown u L u' L' (item_entries hide u L (shown_items (menuCurrent u) its))"
  using assms
proof (induction its arbitrary: u L)
  case Nil
  then show ?case using grown_refl by (auto simp: shown_items_def item_entries_def)
next
  case (Cons it its)
  obtain f params where it: "it = (f, params)" by (cases it)
  show ?case
  proof (cases "listed_file (menuCurrent u) f")
    case None
    with Cons.IH [OF Cons.prems(1,2)] Cons.prems(3) show ?thesis by (simp add: it shown_items_Cons)
  next
    case (Some path)
    have fits: "item_fits (path, the f, params)" "\<forall>it \<in> set (shown_items (menuCurrent u) its). item_fits it"
      using Cons.prems(3) Some by (simp_all add: it shown_items_Cons)
    have short: "\<not> 1024 \<le> length path" using fits(1) by (simp add: item_fits_def)
    from add_item_spec [OF Cons.prems(1,2) fits(1), of hide "GetExt (the f)"] obtain u1 L1 where
      u1: "add_item hide (GetExt (the f)) path (the f) params u = Some (True, u1)"
      "grown u L u1 L1 (item_entries hide u L [(path, the f, params)])" by (auto simp: item_entries_def)
    then have g1: "lists_ok u1 L1" "roomy u1" "env u1 = env u" "L1 Music = L Music"
      "contents (cells u1) (L Music) = contents (cells u) (L Music)" by (simp_all add: grown_def)
    have m: "menuCurrent u1 = menuCurrent u" using g1(3) by (simp add: env_def)
    from Cons.IH [OF g1(1,2)] fits(2) m obtain u2 L2 where u2: "list_items hide up_text True its u1 = Some (True, u2)"
      "grown u1 L1 u2 L2 (item_entries hide u1 L1 (shown_items (menuCurrent u) its))" by auto
    have "grown u L u2 L2 (item_entries hide u L ((path, the f, params) # shown_items (menuCurrent u) its))"
      using grown_trans [OF u1(2) u2(2)] unfolding item_entries_same [where u = u and L = L and u' = u1 and L' = L1, OF g1(3-5)]
      by (simp add: item_entries_def)
    then show ?thesis using u1(1) u2(1) short Some by (auto simp: it shown_items_Cons)
  qed
qed

definition playlist_entries :: "bool \<Rightarrow> string \<Rightarrow> 'a app_scheme \<Rightarrow> (which_list \<Rightarrow> addr list) \<Rightarrow> (string \<times> string \<times> pls_param list) list \<Rightarrow> bentry list" where
  "playlist_entries hide up_text u L its =
     (let origin = BrowserHistoryRetrieve u in
      list_up_entry origin (fst (hd its)) up_text #
      item_entry hide (menuCurrent u) (b_dir (br u Files)) (files_of (cells u) (L Music))
        (GetExt (if origin \<noteq> [] then origin else fst (snd (hd its)))) (hd its) #
      item_entries hide u L (tl its))"

lemma list_items_first:
  fixes u :: "'a app_scheme"
  assumes "lists_ok u L" "roomy u" "listed_file (menuCurrent u) f = Some path"
    "\<forall>it \<in> set (shown_items (menuCurrent u) ((f, params) # its)). item_fits it"
  shows "\<exists>u' L'. list_items hide up_text False ((f, params) # its) u = Some (True, u') \<and> lists_ok u' L' \<and> env u' = env u \<and>
     contents (cells u') (L' Files) = playlist_entries hide up_text u L (shown_items (menuCurrent u) ((f, params) # its)) \<and>
     b_numEntries (br u' Files) = int (length (shown_items (menuCurrent u) ((f, params) # its))) + 1 \<and>
     L' Music = L Music \<and> contents (cells u') (L Music) = contents (cells u) (L Music)"
proof -
  let ?o = "BrowserHistoryRetrieve u"
  let ?ext = "if ?o \<noteq> [] then GetExt ?o else GetExt (the f)"
  let ?it = "(path, the f, params)" and ?its = "shown_items (menuCurrent u) its"
  let ?e = "\<lambda>u L. item_entry hide (menuCurrent u) (b_dir (br u Files)) (files_of (cells u) (L Music)) ?ext ?it"
  have sh: "shown_items (menuCurrent u) ((f, params) # its) = ?it # ?its" using assms(3) by (simp add: shown_items_Cons)
  have fits: "item_fits ?it" "\<forall>it \<in> set ?its. item_fits it" using assms(4) sh by simp_all
  have short: "\<not> 1024 \<le> length path" using fits(1) by (simp add: item_fits_def)
  from ResetFiles_roomy [OF assms(1,2)] obtain u1 L1 where u1: "ResetFiles u = Some u1" "lists_ok u1 L1" "roomy u1" "env u1 = env u"
    "browserHistory u1 = browserHistory u" "b_numEntries (br u1 Files) = 0" "L1 Files = []" "L1 Music = L Music"
    "contents (cells u1) (L Music) = contents (cells u) (L Music)" by blast
  have hist: "BrowserHistoryRetrieve u1 = ?o" using u1(5) by (simp add: BrowserHistoryRetrieve_def)
  from add_list_up_spec [OF u1(2,3), of up_text path, unfolded hist] obtain u2 L2 where
    u2: "add_list_up up_text path u1 = Some (True, u2)" "grown u1 L1 u2 L2 [list_up_entry ?o path up_text]" by blast
  have ok2: "lists_ok u2 L2" "roomy u2" using u2(2) by (simp_all add: grown_def)
  from add_item_spec [OF ok2 fits(1), of hide ?ext] obtain u3 L3 where
    u3: "add_item hide ?ext path (the f) params u2 = Some (True, u3)" "grown u2 L2 u3 L3 [?e u2 L2]" by blast
  have ok3: "lists_ok u3 L3" "roomy u3" using u3(2) by (simp_all add: grown_def)
  have g3: "grown u1 L1 u3 L3 [list_up_entry ?o path up_text, ?e u2 L2]" using grown_trans [OF u2(2) u3(2)] by simp
  have m3: "menuCurrent u3 = menuCurrent u" using g3 u1(4) by (simp add: grown_def env_def)
  from list_items_more [OF ok3, of its hide up_text, unfolded m3] fits(2) obtain u4 L4 where
    u4: "list_items hide up_text True its u3 = Some (True, u4)" "grown u3 L3 u4 L4 (item_entries hide u3 L3 ?its)" by blast
  have g4: "grown u1 L1 u4 L4 ([list_up_entry ?o path up_text, ?e u2 L2] @ item_entries hide u3 L3 ?its)"
    by (rule grown_trans [OF g3 u4(2)])
  have s2: "env u2 = env u" "L2 Music = L Music" "contents (cells u2) (L Music) = contents (cells u) (L Music)"
    using u2(2) u1(4,8,9) by (simp_all add: grown_def)
  have s3: "env u3 = env u" "L3 Music = L Music" "contents (cells u3) (L Music) = contents (cells u) (L Music)"
    using g3 u1(4,8,9) by (simp_all add: grown_def)
  have e2: "?e u2 L2 = ?e u L" using s2 unfolding files_of_contents by (simp add: env_def)
  have e3: "item_entries hide u3 L3 ?its = item_entries hide u L ?its"
    by (rule item_entries_same [where u = u and L = L and u' = u3 and L' = L3, OF s3])
  have run: "list_items hide up_text False ((f, params) # its) u = Some (True, u4)"
    using assms(3) short u1(1) u2(1) u3(1) u4(1) by (simp add: Let_def)
  have ext: "GetExt (if ?o \<noteq> [] then ?o else the f) = ?ext" by simp
  have "contents (cells u4) (L4 Files) = playlist_entries hide up_text u L (?it # ?its)"
    using g4 u1(7) unfolding e2 e3 playlist_entries_def Let_def list.sel fst_conv snd_conv ext by (simp add: grown_def contents_def)
  moreover have "length (item_entries hide u L ?its) = length ?its" by (simp add: item_entries_def)
  ultimately show ?thesis using run g4 u1(4,6,8,9) unfolding sh e3
    by (intro exI [of _ u4] exI [of _ L4]) (simp add: grown_def)
qed

lemma list_items_none: "shown_items (menuCurrent u) its = [] \<Longrightarrow> list_items hide up_text False its u = Some (False, u)"
  by (induction its) (auto simp: shown_items_Cons split: option.splits)

lemma list_items_skip:
  "listed_file (menuCurrent u) f = None \<Longrightarrow> list_items hide up_text b ((f, params) # its) u = list_items hide up_text b its u"
  by simp

lemma list_items_listed:
  fixes u :: "'a app_scheme"
  assumes "lists_ok u L" "roomy u" "shown_items (menuCurrent u) its \<noteq> []"
    "\<forall>it \<in> set (shown_items (menuCurrent u) its). item_fits it"
  shows "\<exists>u' L'. list_items hide up_text False its u = Some (True, u') \<and> lists_ok u' L' \<and> env u' = env u \<and>
     contents (cells u') (L' Files) = playlist_entries hide up_text u L (shown_items (menuCurrent u) its) \<and>
     b_numEntries (br u' Files) = int (length (shown_items (menuCurrent u) its)) + 1 \<and>
     L' Music = L Music \<and> contents (cells u') (L Music) = contents (cells u) (L Music)"
  using assms(3,4)
proof (induction its)
  case (Cons it its)
  obtain f params where it: "it = (f, params)" by (cases it)
  show ?case
  proof (cases "listed_file (menuCurrent u) f")
    case None
    then have "shown_items (menuCurrent u) ((f, params) # its) = shown_items (menuCurrent u) its" by (simp add: shown_items_Cons)
    with Cons show ?thesis unfolding it list_items_skip [OF None] by simp
  next
    case (Some path)
    show ?thesis unfolding it by (rule list_items_first [OF assms(1,2) Some]) (use Cons.prems(2) it in blast)
  qed
qed (simp add: shown_items_def)

text \<open>An item that is shown but has a title without an image, or a path that has become too long, is a fault.\<close>

lemma add_item_fault:
  fixes u :: "'a app_scheme"
  assumes "lists_ok u L" "roomy u" "pretty_param params = Some (title, None)"
  shows "add_item hide ext path p params u = None"
proof -
  from AddEntry_adding [OF assms(1,2)] obtain a u1 e where u1: "AddEntry Files u = Some (Some a, u1)" "adding u L a u1 e" by blast
  have "\<forall>(f, s) \<in> set [(\<lambda>s e. e\<lparr>e_file := Some s\<rparr>, path)]. keeps_links (f s)" by (simp add: keeps_links_def)
  from adding_texts [OF u1(2) this] obtain u2 where
    u2: "set_texts Files a [(\<lambda>s e. e\<lparr>e_file := Some s\<rparr>, path)] u1 = Some (True, u2)" "adding u L a u2 (e\<lparr>e_file := Some path\<rparr>)" by auto
  have "\<forall>(f, s) \<in> set [(\<lambda>s e. e\<lparr>e_display := Some s\<rparr>, title)]. keeps_links (f s)" by (simp add: keeps_links_def)
  from adding_texts [OF u2(2) this] obtain u3 where
    "set_texts Files a [(\<lambda>s e. e\<lparr>e_display := Some s\<rparr>, title)] u2 = Some (True, u3)" by auto
  then have "set_title hide a p params u2 = None" using assms(3) by (simp add: set_title_def)
  then show ?thesis using u1(1) u2(1) by (simp add: add_item_def)
qed

lemma list_items_fault:
  fixes u :: "'a app_scheme"
  assumes "lists_ok u L" "roomy u" "\<not> (\<forall>it \<in> set (shown_items (menuCurrent u) its). item_fits it)"
  shows "list_items hide up_text b its u = None"
  using assms
proof (induction its arbitrary: b u L)
  case Nil
  then show ?case by (simp add: shown_items_def)
next
  case (Cons it its)
  obtain f params where it: "it = (f, params)" by (cases it)
  show ?case
  proof (cases "listed_file (menuCurrent u) f")
    case None
    then show ?thesis using Cons.IH [OF Cons.prems(1,2), of b] Cons.prems(3) by (simp add: it shown_items_Cons)
  next
    case (Some path)
    obtain u2 L2 where u2: "(if b then Some (True, u) else (case ResetFiles u of None \<Rightarrow> None | Some u1 \<Rightarrow> add_list_up up_text path u1)) = Some (True, u2)"
      "lists_ok u2 L2" "roomy u2" "menuCurrent u2 = menuCurrent u"
    proof (cases b)
      case True
      then show ?thesis using that [of u L] Cons.prems(1,2) by simp
    next
      case False
      from ResetFiles_roomy [OF Cons.prems(1,2)] obtain u1 L1 where u1: "ResetFiles u = Some u1" "lists_ok u1 L1" "roomy u1" "env u1 = env u" by blast
      from add_list_up_spec [OF u1(2,3), of up_text path] obtain u2 L2 where
        "add_list_up up_text path u1 = Some (True, u2)" "lists_ok u2 L2" "roomy u2" "env u2 = env u1" by (auto simp: grown_def)
      then show ?thesis using that [of u2 L2] False u1 by (simp add: env_def)
    qed
    define ext where "ext = (if \<not> b \<and> BrowserHistoryRetrieve u \<noteq> [] then GetExt (BrowserHistoryRetrieve u) else GetExt (the f))"
    have run: "list_items hide up_text b (it # its) u = (if 1024 \<le> length path then None
        else case add_item hide ext path (the f) params u2 of None \<Rightarrow> None
             | Some (ok, u3) \<Rightarrow> if ok then list_items hide up_text True its u3 else Some (True, u3))"
      using Some u2(1) by (simp add: it Let_def ext_def)
    consider "1024 \<le> length path" | title where "pretty_param params = Some (title, None)" | "item_fits (path, the f, params)"
      by (force simp: item_fits_def split: option.splits)
    then show ?thesis
    proof cases
      case 1
      then show ?thesis by (simp add: run)
    next
      case 2
      then show ?thesis using add_item_fault [OF u2(2,3), of params title hide ext path "the f"] by (simp add: run)
    next
      case 3
      from add_item_spec [OF u2(2,3) 3, of hide ext] obtain u3 L3 where
        u3: "add_item hide ext path (the f) params u2 = Some (True, u3)" "lists_ok u3 L3" "roomy u3" "env u3 = env u2"
        by (auto simp: grown_def)
      then have "menuCurrent u3 = menuCurrent u" using u2(4) by (simp add: env_def)
      moreover have "\<not> (\<forall>it \<in> set (shown_items (menuCurrent u) its). item_fits it)"
        using Cons.prems(3) 3 Some by (simp add: it shown_items_Cons)
      ultimately show ?thesis using Cons.IH [OF u3(2,3), of True] u3(1) by (simp add: run)
    qed
  qed
qed

text \<open>
  (C6) With memory, and when no file is loaded, opening a playlist that MPlayer parses replaces the
  file list by the way back and, in their order, the items that are shown, each with its title, and
  its mark when it is in the music list. This needs that the items fit: each title comes with an image,
  if only an empty one, as the titles of M3U playlists do, and no cleaned path has 1024 bytes. If one of
  the items shown does not fit, like every titled item of a PLS or ASX playlist, the operation copies NULL or
  stores outside an array. The extension that decides whether an item is a playlist is
  its own, but for the first item: there the code has read the extension of the last folder of the
  history into the same variable, so the first item gets the type of the way back.
\<close>

theorem playlist_file_listed:
  fixes u :: "'a app_scheme"
  assumes "lists_ok u L" "roomy u" "loadedFile u = []" "GetExt (b_dir (br u Files)) \<noteq> []" "GetExt (b_dir (br u Files)) \<noteq> ''plx''"
    "parse (b_dir (br u Files)) = Some its" "shown_items (menuCurrent u) its \<noteq> []"
  shows "if \<forall>it \<in> set (shown_items (menuCurrent u) its). item_fits it
     then \<exists>u' L'. ParsePlaylistFile http file parse hide up_text pagesize u =
         Some (int (length (shown_items (menuCurrent u) its)) + 1, u') \<and> lists_ok u' L' \<and>
       contents (cells u') (L' Files) = playlist_entries hide up_text u L (shown_items (menuCurrent u) its) \<and>
       L' Music = L Music \<and> contents (cells u') (L Music) = contents (cells u) (L Music)
     else ParsePlaylistFile http file parse hide up_text pagesize u = None"
proof (cases "\<forall>it \<in> set (shown_items (menuCurrent u) its). item_fits it")
  case True
  from list_items_listed [OF assms(1,2,7) True, of hide up_text] obtain u1 L1 where
    u1: "list_items hide up_text False its u = Some (True, u1)" "lists_ok u1 L1" "env u1 = env u"
      "contents (cells u1) (L1 Files) = playlist_entries hide up_text u L (shown_items (menuCurrent u) its)"
      "b_numEntries (br u1 Files) = int (length (shown_items (menuCurrent u) its)) + 1"
      "L1 Music = L Music" "contents (cells u1) (L Music) = contents (cells u) (L Music)" by blast
  let ?u = "u1\<lparr>findLoadedFile := 0\<rparr>"
  have lf: "loadedFile u1 = []" using u1(3) assms(3) by (simp add: env_def)
  have "ParsePlaylistFile http file parse hide up_text pagesize u = Some (b_numEntries (br u1 Files), ?u)"
    using assms(4-6) u1(1) FindFile_nothing [OF lf] by (simp add: ParsePlaylistFile_def Let_def)
  moreover have "lists_ok ?u L1" using u1(2) by (simp add: lists_ok_def)
  ultimately have "\<exists>u' L'. ParsePlaylistFile http file parse hide up_text pagesize u =
         Some (int (length (shown_items (menuCurrent u) its)) + 1, u') \<and> lists_ok u' L' \<and>
       contents (cells u') (L' Files) = playlist_entries hide up_text u L (shown_items (menuCurrent u) its) \<and>
       L' Music = L Music \<and> contents (cells u') (L Music) = contents (cells u) (L Music)"
    using u1(4-7) by (intro exI [of _ ?u] exI [of _ L1]) (simp add: contents_def)
  then show ?thesis unfolding if_P [OF True] .
next
  case False
  then have "ParsePlaylistFile http file parse hide up_text pagesize u = None"
    using list_items_fault [OF assms(1,2) False, of hide up_text False] assms(4-6) by (simp add: ParsePlaylistFile_def Let_def)
  then show ?thesis unfolding if_not_P [OF False] .
qed


text \<open>A browser that is about to open the playlist \<open>dir\<close>, with or without a history.\<close>

definition demo_playlist :: "string \<Rightarrow> string list \<Rightarrow> app" where
  "demo_playlist dir hist = demo_folder\<lparr>br := (\<lambda>_. blank_browser)(Files := blank_browser\<lparr>b_dir := dir\<rparr>), browserHistory := hist\<rparr>"

lemma demo_playlist_ok: "lists_ok (demo_playlist dir hist) (\<lambda>_. [])" "roomy (demo_playlist dir hist)"
  by (simp_all add: lists_ok_def demo_playlist_def demo_folder_def browser_list_def dlist_def blank_browser_def BrowserInit_def
      roomy_def)

lemma demo_playlist_fields:
  "loadedFile (demo_playlist dir hist) = []" "b_dir (br (demo_playlist dir hist) Files) = dir"
  "menuCurrent (demo_playlist dir hist) = MENU_BROWSE_MUSIC" "browserHistory (demo_playlist dir hist) = hist"
  "strdup_at (demo_playlist dir hist) n" "cells (demo_playlist dir hist) = Map.empty"
  by (simp_all add: demo_playlist_def demo_folder_def)

theorem plx_playlist_listed_witness:
  "\<exists>u' L'. ParsePLXPlaylist (\<lambda>_. demo_plx) (\<lambda>_. []) ''..'' 8 (demo_playlist ''http://h/l.plx'' [''sd1:/'']) = Some (3, u') \<and>
     map e_file (contents (cells u') (L' Files)) = [Some ''sd1:/'', Some ''http://a/?x=1'', Some ''http://b/'']"
proof -
  let ?u = "demo_playlist ''http://h/l.plx'' [''sd1:/'']"
  have b: "demo_plx = (if c_strncmp (b_dir (br ?u Files)) ''http:'' 5 then (\<lambda>_. demo_plx) (b_dir (br ?u Files)) else (\<lambda>_. []) (b_dir (br ?u Files)))"
    unfolding demo_playlist_fields by (simp add: c_strncmp_def)
  have ne: "plx_entries demo_plx \<noteq> []" unfolding demo_plx_reads by (simp add: demo_plx_entries_def)
  from plx_playlist_listed [OF demo_playlist_ok _ demo_playlist_fields(1) b demo_plx_reads(3) ne, of "''..''" 8] obtain u' L' where
    "ParsePLXPlaylist (\<lambda>_. demo_plx) (\<lambda>_. []) ''..'' 8 ?u = Some (3, u')"
    "contents (cells u') (L' Files) = up_entry (BrowserHistoryRetrieve ?u) ''..'' # map plx_bentry (plx_entries demo_plx)"
    by (auto simp: demo_playlist_fields demo_plx_reads(1) demo_plx_entries_def)
  then show ?thesis
    by (intro exI [of _ u'] exI [of _ L'])
      (simp add: demo_playlist_fields demo_plx_reads(1) demo_plx_entries_def up_entry_def plx_bentry_def BrowserHistoryRetrieve_def)
qed

text \<open>The items of an M3U playlist, whose titles come with an image, and of a PLS playlist, whose titles have none.\<close>

definition demo_items :: "pls_item list" where
  "demo_items = [(Some ''sd1:/m/one.mp3'', [(''pt_prettyformat_title'', Some ''One'', Some [])]), (None, []),
     (Some ''sd1:/m/list.m3u'', [(''pt_prettyformat_title'', Some ''Two'', Some ''t.png'')]), (Some ''sd1:/m/notes.txt'', [])]"

definition demo_pls_items :: "pls_item list" where
  "demo_pls_items = [(Some ''sd1:/m/one.mp3'', []), (Some ''sd1:/m/two.mp3'', [(''pt_prettyformat_title'', Some ''Two'', None)])]"

lemma demo_items_shown:
  "shown_items MENU_BROWSE_MUSIC demo_items = [(''sd1:/m/one.mp3'', ''sd1:/m/one.mp3'', [(''pt_prettyformat_title'', Some ''One'', Some [])]),
     (''sd1:/m/list.m3u'', ''sd1:/m/list.m3u'', [(''pt_prettyformat_title'', Some ''Two'', Some ''t.png'')])]"
  "\<forall>it \<in> set (shown_items MENU_BROWSE_MUSIC demo_items). item_fits it"
  "shown_items MENU_BROWSE_MUSIC demo_pls_items = [(''sd1:/m/one.mp3'', ''sd1:/m/one.mp3'', []),
     (''sd1:/m/two.mp3'', ''sd1:/m/two.mp3'', [(''pt_prettyformat_title'', Some ''Two'', None)])]"
  "\<not> (\<forall>it \<in> set (shown_items MENU_BROWSE_MUSIC demo_pls_items). item_fits it)"
  by code_simp+

lemma demo_listing:
  "map (\<lambda>e. (e_display e, e_type e)) (playlist_entries True ''..'' (demo_playlist ''sd1:/l.m3u'' [''sd1:/up.m3u'']) (\<lambda>_. [])
     (shown_items MENU_BROWSE_MUSIC demo_items)) =
   [(Some ''..'', TYPE_PLAYLIST), (Some ''One'', TYPE_PLAYLIST), (Some ''Two'', TYPE_PLAYLIST)]"
  "map (\<lambda>e. (e_display e, e_type e)) (playlist_entries True ''..'' (demo_playlist ''sd1:/l.m3u'' []) (\<lambda>_. [])
     (shown_items MENU_BROWSE_MUSIC demo_items)) =
   [(Some ''..'', TYPE_FOLDER), (Some ''One'', TYPE_FILE), (Some ''Two'', TYPE_PLAYLIST)]"
  by code_simp+

theorem playlist_file_listed_witness:
  "\<exists>u' L' v' M'. ParsePlaylistFile (\<lambda>_. []) (\<lambda>_. []) (\<lambda>_. Some demo_items) True ''..'' 8 (demo_playlist ''sd1:/l.m3u'' [''sd1:/up.m3u'']) =
       Some (3, u') \<and>
     map (\<lambda>e. (e_display e, e_type e)) (contents (cells u') (L' Files)) =
       [(Some ''..'', TYPE_PLAYLIST), (Some ''One'', TYPE_PLAYLIST), (Some ''Two'', TYPE_PLAYLIST)] \<and>
     ParsePlaylistFile (\<lambda>_. []) (\<lambda>_. []) (\<lambda>_. Some demo_items) True ''..'' 8 (demo_playlist ''sd1:/l.m3u'' []) = Some (3, v') \<and>
     map (\<lambda>e. (e_display e, e_type e)) (contents (cells v') (M' Files)) =
       [(Some ''..'', TYPE_FOLDER), (Some ''One'', TYPE_FILE), (Some ''Two'', TYPE_PLAYLIST)] \<and>
     ParsePlaylistFile (\<lambda>_. []) (\<lambda>_. []) (\<lambda>_. Some demo_pls_items) True ''..'' 8 (demo_playlist ''sd1:/l.pls'' []) = None"
proof -
  have x: "GetExt ''sd1:/l.m3u'' = ''m3u''" "GetExt ''sd1:/l.pls'' = ''pls''" by code_simp+
  have run: "\<exists>u' L'. ParsePlaylistFile (\<lambda>_. []) (\<lambda>_. []) (\<lambda>_. Some demo_items) True ''..'' 8 (demo_playlist ''sd1:/l.m3u'' h) = Some (3, u') \<and>
      contents (cells u') (L' Files) =
        playlist_entries True ''..'' (demo_playlist ''sd1:/l.m3u'' h) (\<lambda>_. []) (shown_items MENU_BROWSE_MUSIC demo_items)" for h
    using playlist_file_listed [OF demo_playlist_ok demo_playlist_fields(1), of "''sd1:/l.m3u''" h "\<lambda>_. Some demo_items" demo_items
        "\<lambda>_. []" "\<lambda>_. []" True "''..''" 8]
    unfolding demo_playlist_fields x if_P [OF demo_items_shown(2)] using demo_items_shown(1) by auto
  obtain u' L' v' M' where r:
    "ParsePlaylistFile (\<lambda>_. []) (\<lambda>_. []) (\<lambda>_. Some demo_items) True ''..'' 8 (demo_playlist ''sd1:/l.m3u'' [''sd1:/up.m3u'']) = Some (3, u')"
    "contents (cells u') (L' Files) = playlist_entries True ''..'' (demo_playlist ''sd1:/l.m3u'' [''sd1:/up.m3u'']) (\<lambda>_. []) (shown_items MENU_BROWSE_MUSIC demo_items)"
    "ParsePlaylistFile (\<lambda>_. []) (\<lambda>_. []) (\<lambda>_. Some demo_items) True ''..'' 8 (demo_playlist ''sd1:/l.m3u'' []) = Some (3, v')"
    "contents (cells v') (M' Files) = playlist_entries True ''..'' (demo_playlist ''sd1:/l.m3u'' []) (\<lambda>_. []) (shown_items MENU_BROWSE_MUSIC demo_items)"
    using run [of "[''sd1:/up.m3u'']"] run [of "[]"] by (elim exE conjE) (rule that)
  have pls: "ParsePlaylistFile (\<lambda>_. []) (\<lambda>_. []) (\<lambda>_. Some demo_pls_items) True ''..'' 8 (demo_playlist ''sd1:/l.pls'' []) = None"
    using playlist_file_listed [OF demo_playlist_ok demo_playlist_fields(1), of "''sd1:/l.pls''" "[]" "\<lambda>_. Some demo_pls_items" demo_pls_items
        "\<lambda>_. []" "\<lambda>_. []" True "''..''" 8]
    unfolding demo_playlist_fields x if_not_P [OF demo_items_shown(4)] using demo_items_shown(3) by auto
  show ?thesis
    by (intro exI [of _ u'] exI [of _ L'] exI [of _ v'] exI [of _ M'] conjI r(1) r(3) pls) (simp_all only: r(2,4) demo_listing)
qed


end
