(* ===== verification/Online_Media.thy ===== *)
theory Online_Media
  imports Playlist_Listing
begin

text \<open>
  The online media list: \<open>RecurseOnlineMedia\<close> (source/settings.cpp), which reads the links and folders
  of an XML file into the list of online media, and \<open>ParseOnlineMedia\<close> (source/fileop.cpp), which shows
  one folder of that list in the browser.

  Mini-XML is not part of the sources: the children of an element are given in their order, the
  attributes of a link and the name of a folder as options. \<open>None\<close> is a use of NULL or of a freed
  cell, or a store or read outside a buffer.
\<close>

section \<open>Reading the list\<close>

record media_link =
  l_name :: "string option"
  l_addr :: "string option"
  l_image :: "string option"
  l_type :: "string option"
  l_tunein :: "string option"

text \<open>The children called \<open>link\<close> and the children called \<open>folder\<close> of an element.\<close>

datatype media_node = Media (links: "media_link list") (folders: "(string option \<times> media_node) list")

definition link_type :: "media_link \<Rightarrow> string \<Rightarrow> entry_type" where
  "link_type l addr =
     (case l_type l of
        Some t \<Rightarrow> if c_strncmp t ''search'' 6 then TYPE_SEARCH
                  else if c_strncmp t ''playlist'' 8 then TYPE_PLAYLIST else TYPE_FILE
      | None \<Rightarrow> if IsPlaylistExt (GetExt addr) then TYPE_PLAYLIST else TYPE_FILE)"

text \<open>The copies of the texts that are there.\<close>

definition given :: "(string \<Rightarrow> bentry \<Rightarrow> bentry) \<Rightarrow> string option \<Rightarrow> ((string \<Rightarrow> bentry \<Rightarrow> bentry) \<times> string) list" where
  "given f s = (case s of None \<Rightarrow> [] | Some t \<Rightarrow> [(f, t)])"

definition link_texts :: "string \<Rightarrow> media_link \<Rightarrow> string \<Rightarrow> string \<Rightarrow> ((string \<Rightarrow> bentry \<Rightarrow> bentry) \<times> string) list" where
  "link_texts path l name addr =
     [(\<lambda>s e. e\<lparr>e_file := Some s\<rparr>, path), (\<lambda>s e. e\<lparr>e_url := Some s\<rparr>, addr), (\<lambda>s e. e\<lparr>e_display := Some s\<rparr>, name)] @
     given (\<lambda>s e. e\<lparr>e_image := Some s\<rparr>) (l_image l) @ given (\<lambda>s e. e\<lparr>e_tunein := Some s\<rparr>) (l_tunein l)"

text \<open>The loop over the links; without memory it ends early.\<close>

fun media_links :: "string \<Rightarrow> media_link list \<Rightarrow> 'a ui_scheme \<Rightarrow> 'a ui_scheme option" where
  "media_links path [] u = Some u"
| "media_links path (l # ls) u =
     (case (l_name l, l_addr l) of
        (Some name, Some addr) \<Rightarrow>
          (case AddEntry OnlineMedia u of None \<Rightarrow> None
           | Some (None, u1) \<Rightarrow> Some u1
           | Some (Some a, u1) \<Rightarrow>
             (case set_texts OnlineMedia a (link_texts path l name addr) u1 of None \<Rightarrow> None
              | Some (ok, u2) \<Rightarrow>
                if \<not> ok then Some u2
                else
                  (case upd_cell a (\<lambda>e. e\<lparr>e_type := link_type l addr\<rparr>) u2 of None \<Rightarrow> None
                   | Some u3 \<Rightarrow> media_links path ls u3)))
      | _ \<Rightarrow> media_links path ls u)"

text \<open>The recursion over the folders; a path that does not fit, or no memory, ends the loop.\<close>

function (sequential) RecurseOnlineMedia :: "string \<Rightarrow> media_node \<Rightarrow> 'a ui_scheme \<Rightarrow> 'a ui_scheme option"
  and media_folders :: "string \<Rightarrow> (string option \<times> media_node) list \<Rightarrow> 'a ui_scheme \<Rightarrow> 'a ui_scheme option" where
  "RecurseOnlineMedia path (Media ls fs) u =
     (case media_links path ls u of None \<Rightarrow> None | Some u1 \<Rightarrow> media_folders path fs u1)"
| "media_folders path [] u = Some u"
| "media_folders path ((name, node) # fs) u =
     (case name of None \<Rightarrow> media_folders path fs u
      | Some n \<Rightarrow>
        if 1024 < length path + length n + 2 then Some u
        else
          (let u1 = u\<lparr>ticks := Suc (ticks u)\<rparr> in
           if \<not> strdup_at u (ticks u) then Some u1
           else
             (case RecurseOnlineMedia (path @ n @ ''/'') node u1 of None \<Rightarrow> None
              | Some u2 \<Rightarrow> media_folders path fs u2)))"
  by pat_completeness auto

termination
  by (relation "measure (\<lambda>x. case x of Inl (path, node, u) \<Rightarrow> size node | Inr (path, fs, u) \<Rightarrow> size_list (size_prod (\<lambda>_. 0) size) fs)")
    auto

text \<open>
  \<open>LoadOnlineMediaFile\<close>: \<open>file_text\<close> is what \<open>LoadFile\<close> put into the buffer, empty when it returned zero,
  and \<open>xml\<close> the element \<open>file\<close> that Mini-XML finds in it, if there is one.
\<close>

definition LoadOnlineMediaFile :: "string \<Rightarrow> (string \<Rightarrow> media_node option) \<Rightarrow> 'a ui_scheme \<Rightarrow> 'a ui_scheme option" where
  "LoadOnlineMediaFile file_text xml u =
     (let u1 = u\<lparr>ticks := Suc (ticks u)\<rparr> in
      if \<not> strdup_at u (ticks u) \<or> file_text = [] then Some u1
      else (case xml file_text of None \<Rightarrow> Some u1 | Some node \<Rightarrow> RecurseOnlineMedia [] node u1))"

section \<open>Showing a folder of the list\<close>

text \<open>A new entry with its texts and the rest of its fields; the boolean is false without memory.\<close>

definition add_texts :: "((string \<Rightarrow> bentry \<Rightarrow> bentry) \<times> string) list \<Rightarrow> entry_type \<Rightarrow> icon \<Rightarrow> 'a ui_scheme \<Rightarrow> (bool \<times> 'a ui_scheme) option" where
  "add_texts fs t i u =
     (case AddEntry Files u of None \<Rightarrow> None
      | Some (None, u1) \<Rightarrow> Some (False, u1)
      | Some (Some a, u1) \<Rightarrow>
        (case set_texts Files a fs u1 of None \<Rightarrow> None
         | Some (ok, u2) \<Rightarrow>
           if \<not> ok then Some (False, u2)
           else map_option (Pair True) (upd_cell a (\<lambda>e. e\<lparr>e_length := 0, e_type := t, e_icon := i\<rparr>) u2)))"

text \<open>The entry that leads back, when the folder is not the top of the list.\<close>

definition online_up :: "string \<Rightarrow> 'a ui_scheme \<Rightarrow> (bool \<times> 'a ui_scheme) option" where
  "online_up up_text u =
     (if b_dir (br u Files) = [] then Some (True, u)
      else add_texts [(\<lambda>s e. e\<lparr>e_file := Some s\<rparr>, ''..''), (\<lambda>s e. e\<lparr>e_display := Some s\<rparr>, up_text)] TYPE_FOLDER ICON_FOLDER u)"

definition unknown_protocol :: "string \<Rightarrow> bool" where
  "unknown_protocol url \<longleftrightarrow> \<not> IsAllowedProtocol url \<and> c_strstr url ''://'' \<noteq> None"

definition media_url :: "string \<Rightarrow> string" where
  "media_url url = c_trunc 1024 (if IsAllowedProtocol url then url else ''http://'' @ url)"

definition media_texts :: "bentry \<Rightarrow> string \<Rightarrow> ((string \<Rightarrow> bentry \<Rightarrow> bentry) \<times> string) list" where
  "media_texts om url =
     [(\<lambda>s e. e\<lparr>e_file := Some s\<rparr>, media_url url)] @ given (\<lambda>s e. e\<lparr>e_display := Some s\<rparr>) (e_display om) @
     given (\<lambda>s e. e\<lparr>e_image := Some s\<rparr>) (e_image om) @ given (\<lambda>s e. e\<lparr>e_tunein := Some s\<rparr>) (e_tunein om)"

text \<open>
  The name of a folder: 1024 bytes of the rest of the path, cut at the first slash. \<open>strncpy\<close> leaves a
  longer rest without its NUL, and \<open>strchr\<close> reads on behind the array when there is no slash in it.
\<close>

definition sub_folder :: "string \<Rightarrow> string option" where
  "sub_folder rest =
     (if 1024 \<le> length rest \<and> CHR ''/'' \<notin> set (take 1024 rest) then None else Some (c_before CHR ''/'' (take 1024 rest)))"

text \<open>One turn of the loop for an entry of the media list that has a path and an address.\<close>

definition online_turn :: "bentry \<Rightarrow> string \<Rightarrow> string \<Rightarrow> 'a ui_scheme \<Rightarrow> (bool \<times> 'a ui_scheme) option" where
  "online_turn om path url u =
     (let dir = b_dir (br u Files) in
      if path = dir then
        (if unknown_protocol url then Some (True, u) else add_texts (media_texts om url) (e_type om) ICON_NONE u)
      else if length dir < length path \<and> c_strncmp dir path (length dir) then
        (case sub_folder (drop (length dir) path) of None \<Rightarrow> None
         | Some folder \<Rightarrow>
           (case find_cell (\<lambda>e. e_file e = Some folder) (cells u) (b_first (br u Files)) of None \<Rightarrow> None
            | Some (Some a) \<Rightarrow> Some (True, u)
            | Some None \<Rightarrow>
              add_texts [(\<lambda>s e. e\<lparr>e_file := Some s\<rparr>, folder), (\<lambda>s e. e\<lparr>e_display := Some s\<rparr>, folder)] TYPE_FOLDER ICON_FOLDER u))
      else Some (True, u))"

partial_function (option) online_loop :: "addr option \<Rightarrow> 'a ui_scheme \<Rightarrow> 'a ui_scheme option" where
  "online_loop p u =
     (case p of None \<Rightarrow> Some u
      | Some a \<Rightarrow>
        (case cells u a of None \<Rightarrow> None
         | Some om \<Rightarrow>
           (case (case (e_file om, e_url om) of (Some path, Some url) \<Rightarrow> online_turn om path url u | _ \<Rightarrow> Some (True, u)) of None \<Rightarrow> None
            | Some r \<Rightarrow>
              if fst r
              then (case cells (snd r) a of None \<Rightarrow> None | Some om1 \<Rightarrow> online_loop (e_next om1) (snd r))
              else Some (snd r))))"

definition ParseOnlineMedia :: "string \<Rightarrow> int \<Rightarrow> 'a app_scheme \<Rightarrow> (int \<times> 'a app_scheme) option" where
  "ParseOnlineMedia up_text pagesize u =
     (if b_first (br u OnlineMedia) = None then Some (0, u)
      else
        (case online_up up_text u of None \<Rightarrow> None
         | Some (ok, u1) \<Rightarrow>
           if \<not> ok then Some (0, u1)
           else
             (case online_loop (b_first (br u1 OnlineMedia)) u1 of None \<Rightarrow> None
              | Some u2 \<Rightarrow>
                (case SortBrowser Files FileSortCallback u2 of None \<Rightarrow> None
                 | Some u3 \<Rightarrow>
                   map_option (\<lambda>u4. (b_numEntries (br u4 Files), u4))
                     (if b_lastdir (br u3 Files) \<noteq> [] then FindDirectory pagesize u3
                      else if findLoadedFile u3 = 1 then FindFile pagesize u3 else Some u3)))))"

section \<open>Growing lists\<close>

text \<open>\<open>more_of w u L u' as es\<close>: the list \<open>w\<close> has got the cells \<open>as\<close> with the contents \<open>es\<close>.\<close>

definition more_of :: "which_list \<Rightarrow> 'a app_scheme \<Rightarrow> (which_list \<Rightarrow> addr list) \<Rightarrow> 'a app_scheme \<Rightarrow> addr list \<Rightarrow> bentry list \<Rightarrow> bool" where
  "more_of w u L u' as es =
     (lists_ok u' (L(w := L w @ as)) \<and> roomy u' \<and> env u' = env u \<and> kept u u' \<and>
      contents (cells u') (L w @ as) = contents (cells u) (L w) @ es \<and>
      b_numEntries (br u' w) = b_numEntries (br u w) + int (length es))"

lemma kept_refl [simp]: "kept u u"
  by (simp add: kept_def)

lemma kept_trans: "kept u u1 \<Longrightarrow> kept u1 u2 \<Longrightarrow> kept u u2"
  unfolding kept_def by (metis map_option_is_None)

lemma more_of_refl: "lists_ok u L \<Longrightarrow> roomy u \<Longrightarrow> more_of w u L u [] []"
  by (simp add: more_of_def)

lemma more_of_trans:
  assumes "more_of w u L u1 as es" "more_of w u1 (L(w := L w @ as)) u2 bs fs"
  shows "more_of w u L u2 (as @ bs) (es @ fs)"
  using assms kept_trans [of u u1 u2] by (simp add: more_of_def)

lemma more_of_ok:
  "more_of w u L u1 as es \<Longrightarrow> lists_ok u1 (L(w := L w @ as)) \<and> roomy u1"
  by (simp add: more_of_def)

lemma adding_more: "adding_to w u L a u' e \<Longrightarrow> lists_ok u L \<Longrightarrow> more_of w u L u' [a] [content e]"
  using adding_contents [of w u L a u' e] by (simp add: more_of_def adding_def)

lemma more_of_tick:
  assumes "lists_ok u L" "roomy u"
  shows "more_of w u L (u\<lparr>ticks := Suc (ticks u)\<rparr>) [] []"
proof -
  have "roomy (u\<lparr>ticks := Suc (ticks u)\<rparr>)" by (rule roomy_tick [OF assms(2)]) auto
  then show ?thesis using assms(1) by (simp add: more_of_def lists_ok_def env_def kept_def)
qed

section \<open>The list that is read\<close>

definition link_entry :: "string \<Rightarrow> media_link \<Rightarrow> string \<Rightarrow> string \<Rightarrow> bentry" where
  "link_entry path l name addr = calloc_entry\<lparr>e_file := Some path, e_url := Some addr, e_display := Some name,
     e_image := l_image l, e_tunein := l_tunein l, e_type := link_type l addr\<rparr>"

definition link_records :: "string \<Rightarrow> media_link list \<Rightarrow> bentry list" where
  "link_records path ls =
     concat (map (\<lambda>l. case (l_name l, l_addr l) of (Some name, Some addr) \<Rightarrow> [link_entry path l name addr] | _ \<Rightarrow> []) ls)"

function (sequential) media_records :: "string \<Rightarrow> media_node \<Rightarrow> bentry list"
  and folder_records :: "string \<Rightarrow> (string option \<times> media_node) list \<Rightarrow> bentry list" where
  "media_records path (Media ls fs) = link_records path ls @ folder_records path fs"
| "folder_records path [] = []"
| "folder_records path ((name, node) # fs) =
     (case name of None \<Rightarrow> folder_records path fs
      | Some n \<Rightarrow>
        if 1024 < length path + length n + 2 then []
        else media_records (path @ n @ ''/'') node @ folder_records path fs)"
  by pat_completeness auto

termination
  by (relation "measure (\<lambda>x. case x of Inl (path, node) \<Rightarrow> size node | Inr (path, fs) \<Rightarrow> size_list (size_prod (\<lambda>_. 0) size) fs)")
    auto

lemma media_links_spec:
  fixes u :: "'a app_scheme"
  assumes "lists_ok u L" "roomy u"
  shows "\<exists>u' as. media_links path ls u = Some u' \<and> more_of OnlineMedia u L u' as (link_records path ls)"
  using assms
proof (induction ls arbitrary: u L)
  case Nil
  then show ?case using more_of_refl by (fastforce simp: link_records_def)
next
  case (Cons l ls)
  show ?case
  proof (cases "l_name l \<noteq> None \<and> l_addr l \<noteq> None")
    case False
    then have "media_links path (l # ls) u = media_links path ls u" "link_records path (l # ls) = link_records path ls"
      by (auto simp: link_records_def split: option.splits)
    with Cons show ?thesis by simp
  next
    case True
    then obtain name addr where l: "l_name l = Some name" "l_addr l = Some addr" by auto
    let ?fs = "link_texts path l name addr"
    from AddEntry_adding [OF Cons.prems, of OnlineMedia] obtain a u1 e where u1: "AddEntry OnlineMedia u = Some (Some a, u1)"
      "adding_to OnlineMedia u L a u1 e" "content e = calloc_entry" by blast
    have "\<forall>(f, s) \<in> set ?fs. keeps_links (f s)" by (auto simp: link_texts_def given_def keeps_links_def split: option.splits)
    from adding_texts [OF u1(2) this] obtain u2 where u2: "set_texts OnlineMedia a ?fs u1 = Some (True, u2)"
      "adding_to OnlineMedia u L a u2 (fold (\<lambda>(f, s). f s) ?fs e)" by blast
    let ?f = "\<lambda>e. e\<lparr>e_type := link_type l addr\<rparr>"
    have "keeps_links ?f" by (simp add: keeps_links_def)
    from adding_upd [OF u2(2) this] obtain u3 where u3: "upd_cell a ?f u2 = Some u3"
      "adding_to OnlineMedia u L a u3 (?f (fold (\<lambda>(f, s). f s) ?fs e))" by blast
    have "content (?f (fold (\<lambda>(f, s). f s) ?fs e)) = link_entry path l name addr"
      using u1(3) by (cases e; cases "l_image l"; cases "l_tunein l")
        (simp_all add: content_def link_entry_def calloc_entry_def link_texts_def given_def)
    with adding_more [OF u3(2) Cons.prems(1)] have m: "more_of OnlineMedia u L u3 [a] [link_entry path l name addr]" by metis
    from Cons.IH more_of_ok [OF m] obtain u4 as where
      "media_links path ls u3 = Some u4" "more_of OnlineMedia u3 (L(OnlineMedia := L OnlineMedia @ [a])) u4 as (link_records path ls)" by blast
    moreover have "link_records path (l # ls) = [link_entry path l name addr] @ link_records path ls"
      using l by (simp add: link_records_def)
    ultimately show ?thesis using u1(1) u2(1) u3(1) l more_of_trans [OF m] by fastforce
  qed
qed

lemma RecurseOnlineMedia_spec:
  fixes u :: "'a app_scheme"
  shows "lists_ok u L \<Longrightarrow> roomy u \<Longrightarrow>
     \<exists>u' as. RecurseOnlineMedia path node u = Some u' \<and> more_of OnlineMedia u L u' as (media_records path node)"
    and "lists_ok u L \<Longrightarrow> roomy u \<Longrightarrow>
     \<exists>u' as. media_folders path fs u = Some u' \<and> more_of OnlineMedia u L u' as (folder_records path fs)"
proof (induction path node and path fs arbitrary: u L and u L rule: media_records_folder_records.induct)
  case (1 path ls fs)
  from media_links_spec [OF 1(2,3), of path ls] obtain u1 as where u1: "media_links path ls u = Some u1"
    "more_of OnlineMedia u L u1 as (link_records path ls)" by blast
  from 1(1) more_of_ok [OF u1(2)] obtain u2 bs where
    "media_folders path fs u1 = Some u2" "more_of OnlineMedia u1 (L(OnlineMedia := L OnlineMedia @ as)) u2 bs (folder_records path fs)" by blast
  then show ?case using u1 more_of_trans [OF u1(2)] by fastforce
next
  case (2 path)
  then show ?case using more_of_refl by fastforce
next
  case (3 path name node fs)
  show ?case
  proof (cases name)
    case None
    then show ?thesis using 3 by simp
  next
    case (Some n)
    show ?thesis
    proof (cases "1024 < length path + length n + 2")
      case True
      then show ?thesis using more_of_refl [OF 3(4,5)] Some by fastforce
    next
      case False
      let ?u = "u\<lparr>ticks := Suc (ticks u)\<rparr>"
      have t: "more_of OnlineMedia u L ?u [] []" by (rule more_of_tick [OF 3(4,5)])
      then have ok: "lists_ok ?u L" "roomy ?u" using more_of_ok [OF t] by simp_all
      from 3(2) [OF Some False ok] obtain u1 as where u1: "RecurseOnlineMedia (path @ n @ ''/'') node ?u = Some u1"
        "more_of OnlineMedia ?u L u1 as (media_records (path @ n @ ''/'') node)" by blast
      have m: "more_of OnlineMedia u L u1 as (media_records (path @ n @ ''/'') node)"
        using more_of_trans [OF t, of u1 as "media_records (path @ n @ ''/'') node"] u1(2) by simp
      from 3(3) [OF Some False] more_of_ok [OF m] obtain u2 bs where
        u2: "media_folders path fs u1 = Some u2" "more_of OnlineMedia u1 (L(OnlineMedia := L OnlineMedia @ as)) u2 bs (folder_records path fs)"
        by blast
      have "strdup_at u (ticks u)" using 3(5) unfolding roomy_def by blast
      then have "media_folders path ((name, node) # fs) u = Some u2" using u1(1) u2(1) Some False by (simp add: Let_def)
      moreover have "folder_records path ((name, node) # fs) = media_records (path @ n @ ''/'') node @ folder_records path fs"
        using Some False by simp
      ultimately show ?thesis using more_of_trans [OF m u2(2)] by metis
    qed
  qed
qed

text \<open>
  (C18) With memory, loading a media file appends to the list of online media one entry for every link
  of the file that has a name and an address, in the order of the file, the links of an element before
  its folders, each under the path of its folders; a folder whose path would not fit and the folders
  behind it are left out. The other lists stay as they are.
\<close>

theorem online_media_read:
  fixes u :: "'a app_scheme"
  assumes "lists_ok u L" "roomy u" "file_text \<noteq> []" "xml file_text = Some node"
  shows "\<exists>u' as. LoadOnlineMediaFile file_text xml u = Some u' \<and> lists_ok u' (L(OnlineMedia := L OnlineMedia @ as)) \<and>
     contents (cells u') (L OnlineMedia @ as) = contents (cells u) (L OnlineMedia) @ media_records [] node \<and>
     (\<forall>w. contents (cells u') (L w) = contents (cells u) (L w))"
proof -
  let ?u = "u\<lparr>ticks := Suc (ticks u)\<rparr>"
  have t: "more_of OnlineMedia u L ?u [] []" by (rule more_of_tick [OF assms(1,2)])
  then have ok: "lists_ok ?u L" "roomy ?u" using more_of_ok [OF t] by simp_all
  from RecurseOnlineMedia_spec(1) [OF ok, of "[]" node] obtain u' as where
    u': "RecurseOnlineMedia [] node ?u = Some u'" "more_of OnlineMedia ?u L u' as (media_records [] node)" by blast
  have m: "more_of OnlineMedia u L u' as (media_records [] node)" using more_of_trans [OF t, of u' as] u'(2) by simp
  then have k: "kept u u'" by (simp add: more_of_def)
  have "strdup_at u (ticks u)" using assms(2) unfolding roomy_def by blast
  then have "LoadOnlineMediaFile file_text xml u = Some u'" using assms(3,4) u'(1) by (simp add: LoadOnlineMediaFile_def Let_def)
  then show ?thesis using m kept_contents [OF k assms(1)] by (auto simp: more_of_def)
qed

section \<open>The folder that is shown\<close>

definition media_entry :: "bentry \<Rightarrow> string \<Rightarrow> bentry" where
  "media_entry om url = calloc_entry\<lparr>e_file := Some (media_url url), e_display := e_display om, e_image := e_image om,
     e_tunein := e_tunein om, e_type := e_type om\<rparr>"

definition folder_entry :: "string \<Rightarrow> string \<Rightarrow> bentry" where
  "folder_entry name title = calloc_entry\<lparr>e_file := Some name, e_display := Some title, e_type := TYPE_FOLDER, e_icon := ICON_FOLDER\<rparr>"

definition below :: "string \<Rightarrow> string \<Rightarrow> bool" where
  "below dir path \<longleftrightarrow> path \<noteq> dir \<and> length dir < length path \<and> c_strncmp dir path (length dir)"

definition online_step :: "string \<Rightarrow> bentry list \<Rightarrow> bentry \<Rightarrow> bentry list" where
  "online_step dir acc om =
     (case (e_file om, e_url om) of
        (Some path, Some url) \<Rightarrow>
          if path = dir then (if unknown_protocol url then acc else acc @ [media_entry om url])
          else if below dir path then
            (let f = the (sub_folder (drop (length dir) path)) in
             if Some f \<in> set (map e_file acc) then acc else acc @ [folder_entry f f])
          else acc
      | _ \<Rightarrow> acc)"

text \<open>The names of the folders fit the array of the code.\<close>

definition online_fits :: "string \<Rightarrow> bentry \<Rightarrow> bool" where
  "online_fits dir om \<longleftrightarrow> (case (e_file om, e_url om) of
     (Some path, Some url) \<Rightarrow> below dir path \<longrightarrow> sub_folder (drop (length dir) path) \<noteq> None | _ \<Rightarrow> True)"

lemma content_texts [simp]:
  "e_file (content om) = e_file om" "e_url (content om) = e_url om" "media_entry (content om) url = media_entry om url"
  by (simp_all add: content_def media_entry_def)

lemma online_step_content [simp]: "online_step dir acc (content om) = online_step dir acc om"
  unfolding online_step_def content_texts ..

lemma online_fits_content [simp]: "online_fits dir (content om) = online_fits dir om"
  unfolding online_fits_def content_texts ..

lemma add_texts_spec:
  fixes u :: "'a app_scheme"
  assumes "lists_ok u L" "roomy u" "\<forall>(f, s) \<in> set fs. keeps_links (f s)"
    "\<And>e. content e = calloc_entry \<Longrightarrow> content ((fold (\<lambda>(f, s). f s) fs e)\<lparr>e_length := 0, e_type := t, e_icon := i\<rparr>) = r"
  shows "\<exists>u' a. add_texts fs t i u = Some (True, u') \<and> more_of Files u L u' [a] [r]"
proof -
  from AddEntry_adding [OF assms(1,2), of Files] obtain a u1 e where u1: "AddEntry Files u = Some (Some a, u1)" "adding u L a u1 e"
    "content e = calloc_entry" by blast
  from adding_texts [OF u1(2) assms(3)] obtain u2 where u2: "set_texts Files a fs u1 = Some (True, u2)"
    "adding u L a u2 (fold (\<lambda>(f, s). f s) fs e)" by blast
  have "keeps_links (\<lambda>e. e\<lparr>e_length := 0, e_type := t, e_icon := i\<rparr>)" by (simp add: keeps_links_def)
  from adding_upd [OF u2(2) this] obtain u3 where u3: "upd_cell a (\<lambda>e. e\<lparr>e_length := 0, e_type := t, e_icon := i\<rparr>) u2 = Some u3"
    "adding u L a u3 ((fold (\<lambda>(f, s). f s) fs e)\<lparr>e_length := 0, e_type := t, e_icon := i\<rparr>)" by blast
  show ?thesis using adding_more [OF u3(2) assms(1)] assms(4) [OF u1(3)] u1(1) u2(1) u3(1) by (auto simp: add_texts_def)
qed

lemma add_media_spec:
  fixes u :: "'a app_scheme"
  assumes "lists_ok u L" "roomy u"
  shows "\<exists>u' a. add_texts (media_texts om url) (e_type om) ICON_NONE u = Some (True, u') \<and> more_of Files u L u' [a] [media_entry om url]"
proof (rule add_texts_spec [OF assms], goal_cases)
  case 1
  then show ?case by (auto simp: media_texts_def given_def keeps_links_def split: option.splits)
next
  case (2 e)
  then show ?case
    by (cases e; cases "e_display om"; cases "e_image om"; cases "e_tunein om")
      (simp_all add: content_def calloc_entry_def media_texts_def given_def media_entry_def)
qed

lemma add_folder_spec:
  fixes u :: "'a app_scheme"
  assumes "lists_ok u L" "roomy u"
  shows "\<exists>u' a. add_texts [(\<lambda>s e. e\<lparr>e_file := Some s\<rparr>, name), (\<lambda>s e. e\<lparr>e_display := Some s\<rparr>, title)] TYPE_FOLDER ICON_FOLDER u =
       Some (True, u') \<and> more_of Files u L u' [a] [folder_entry name title]"
proof (rule add_texts_spec [OF assms], goal_cases)
  case 1
  then show ?case by (simp add: keeps_links_def)
next
  case (2 e)
  then show ?case by (cases e) (simp add: content_def calloc_entry_def folder_entry_def)
qed

lemma online_turn_spec:
  fixes u :: "'a app_scheme"
  assumes "lists_ok u L" "roomy u" "e_file om = Some path" "e_url om = Some url" "online_fits (b_dir (br u Files)) om"
  shows "\<exists>u' as es. online_turn om path url u = Some (True, u') \<and> more_of Files u L u' as es \<and>
     online_step (b_dir (br u Files)) (contents (cells u) (L Files)) om = contents (cells u) (L Files) @ es"
proof -
  let ?dir = "b_dir (br u Files)"
  note step = online_step_def [of ?dir _ om, unfolded assms(3,4) prod.case option.case]
  note same = more_of_refl [OF assms(1,2), of Files]
  consider (link) "path = ?dir" "\<not> unknown_protocol url" | (down) "below ?dir path"
    | (none) "path = ?dir \<and> unknown_protocol url \<or> path \<noteq> ?dir \<and> \<not> below ?dir path" by blast
  then show ?thesis
  proof cases
    case link
    with add_media_spec [OF assms(1,2), of om url] show ?thesis by (fastforce simp: online_turn_def step)
  next
    case none
    then have "online_turn om path url u = Some (True, u)" by (auto simp: online_turn_def below_def Let_def)
    moreover have "online_step ?dir (contents (cells u) (L Files)) om = contents (cells u) (L Files)" using none by (auto simp: step)
    ultimately show ?thesis using same by fastforce
  next
    case down
    then have ne: "path \<noteq> ?dir" "length ?dir < length path \<and> c_strncmp ?dir path (length ?dir)" by (simp_all add: below_def)
    obtain f where f: "sub_folder (drop (length ?dir) path) = Some f" using assms(3-5) down by (auto simp: online_fits_def)
    let ?found = "find (\<lambda>a. e_file (the (cells u a)) = Some f) (L Files)"
    have fc: "find_cell (\<lambda>e. e_file e = Some f) (cells u) (b_first (br u Files)) = Some ?found"
      by (rule find_list [OF assms(1)])
    have some: "?found = None \<longleftrightarrow> Some f \<notin> set (map e_file (contents (cells u) (L Files)))"
      unfolding find_None_iff contents_def by force
    show ?thesis
    proof (cases "?found")
      case None
      with some add_folder_spec [OF assms(1,2), of f f] show ?thesis
        using ne f fc down by (fastforce simp: online_turn_def step Let_def)
    next
      case (Some a)
      then have "online_turn om path url u = Some (True, u)" using ne f fc by (simp add: online_turn_def Let_def)
      moreover have "online_step ?dir (contents (cells u) (L Files)) om = contents (cells u) (L Files)"
        using some Some ne down f by (simp add: step Let_def)
      ultimately show ?thesis using same by fastforce
    qed
  qed
qed

lemma list_next:
  assumes "lists_ok u L" "L w = pre @ a # xs"
  shows "\<exists>e. cells u a = Some e \<and> e_next e = headp xs"
proof -
  have "dlist (cells u) (pre @ a # xs)" using lists_ok_list [OF assms(1), of w] assms(2) by (simp add: browser_list_def)
  from dlist_nexts [OF this] obtain r where "nexts (cells u) r (a # xs) None" by (auto simp only: nexts_append)
  then show ?thesis using nexts_head by fastforce
qed

lemma online_loop_spec:
  fixes u :: "'a app_scheme"
  assumes "lists_ok u L" "roomy u" "L OnlineMedia = pre @ xs" "\<forall>e \<in> set (contents (cells u) xs). online_fits (b_dir (br u Files)) e"
  shows "\<exists>u' as es. online_loop (headp xs) u = Some u' \<and> more_of Files u L u' as es \<and>
     foldl (online_step (b_dir (br u Files))) (contents (cells u) (L Files)) (contents (cells u) xs) = contents (cells u) (L Files) @ es"
  using assms
proof (induction xs arbitrary: u L pre)
  case Nil
  then show ?case using more_of_refl [OF Nil(1,2)] by (fastforce simp: online_loop.simps contents_def)
next
  case (Cons a xs)
  let ?dir = "b_dir (br u Files)" and ?acc = "contents (cells u) (L Files)"
  from list_next [OF Cons.prems(1,3)] obtain om where om: "cells u a = Some om" "e_next om = headp xs" by blast
  have c: "contents (cells u) (a # xs) = content om # contents (cells u) xs" using om by (simp add: contents_def)
  have fits: "online_fits ?dir om" "\<forall>e \<in> set (contents (cells u) xs). online_fits ?dir e" using Cons.prems(4) unfolding c by simp_all
  obtain u1 as es where u1: "(case (e_file om, e_url om) of (Some path, Some url) \<Rightarrow> online_turn om path url u | _ \<Rightarrow> Some (True, u)) =
      Some (True, u1)" "more_of Files u L u1 as es" "online_step ?dir ?acc om = ?acc @ es"
  proof (cases "e_file om \<noteq> None \<and> e_url om \<noteq> None")
    case True
    then obtain path url where "e_file om = Some path" "e_url om = Some url" by auto
    with online_turn_spec [OF Cons.prems(1,2) _ _ fits(1), of path url] that show ?thesis by auto
  next
    case False
    then have "(case (e_file om, e_url om) of (Some path, Some url) \<Rightarrow> online_turn om path url u | _ \<Rightarrow> Some (True, u)) = Some (True, u)"
      "online_step ?dir ?acc om = ?acc @ []" by (auto simp: online_step_def split: option.splits)
    then show ?thesis using that more_of_refl [OF Cons.prems(1,2)] by blast
  qed
  let ?L = "L(Files := L Files @ as)"
  have ok: "lists_ok u1 ?L" "roomy u1" and k: "kept u u1" and dir: "b_dir (br u1 Files) = ?dir"
    and acc: "contents (cells u1) (?L Files) = ?acc @ es"
    using u1(2) by (simp_all add: more_of_def env_def)
  have L1: "?L OnlineMedia = pre @ a # xs" "?L OnlineMedia = (pre @ [a]) @ xs" using Cons.prems(3) by simp_all
  from list_next [OF ok(1) L1(1)] obtain om1 where om1: "cells u1 a = Some om1" "e_next om1 = headp xs" by blast
  have "contents (cells u1) (pre @ a # xs) = contents (cells u) (pre @ a # xs)"
    using kept_contents [OF k Cons.prems(1), of OnlineMedia] Cons.prems(3) by simp
  then have cx: "contents (cells u1) xs = contents (cells u) xs" by (simp add: contents_def)
  from Cons.IH [OF ok L1(2)] fits(2) obtain u2 bs fs where u2: "online_loop (headp xs) u1 = Some u2"
    "more_of Files u1 ?L u2 bs fs" "foldl (online_step ?dir) (?acc @ es) (contents (cells u) xs) = (?acc @ es) @ fs"
    unfolding dir cx acc by blast
  have "online_loop (headp (a # xs)) u = Some u2"
    using om om1 u1(1) u2(1) by (subst online_loop.simps) simp
  moreover have "foldl (online_step ?dir) ?acc (contents (cells u) (a # xs)) = ?acc @ (es @ fs)"
    unfolding c using u1(3) u2(3) by simp
  ultimately show ?case using more_of_trans [OF u1(2) u2(2)] by blast
qed

text \<open>The entries of a folder in the order of the list, and what the sort makes of them.\<close>

definition online_entries :: "string \<Rightarrow> string \<Rightarrow> bentry list \<Rightarrow> bentry list" where
  "online_entries up_text dir oms = foldl (online_step dir) (if dir = [] then [] else [folder_entry ''..'' up_text]) oms"

lemma online_step_named: "None \<notin> e_file ` set acc \<Longrightarrow> None \<notin> e_file ` set (online_step dir acc om)"
  by (auto simp: online_step_def media_entry_def folder_entry_def Let_def split: option.splits)

lemma online_fold_named: "None \<notin> e_file ` set acc \<Longrightarrow> None \<notin> e_file ` set (foldl (online_step dir) acc oms)"
  by (induction oms arbitrary: acc) (simp_all add: online_step_named)

lemma online_entries_named: "e \<in> set (online_entries up_text dir oms) \<Longrightarrow> e_file e \<noteq> None"
proof -
  have "None \<notin> e_file ` set (if dir = [] then [] else [folder_entry ''..'' up_text])" by (simp add: folder_entry_def)
  from online_fold_named [OF this] show "e \<in> set (online_entries up_text dir oms) \<Longrightarrow> e_file e \<noteq> None"
    unfolding online_entries_def by force
qed

lemma online_step_length: "length (online_step dir acc om) \<le> Suc (length acc)"
  by (auto simp: online_step_def Let_def split: option.splits)

lemma online_fold_length: "length (foldl (online_step dir) acc oms) \<le> length acc + length oms"
proof (induction oms arbitrary: acc)
  case (Cons om oms)
  from Cons [of "online_step dir acc om"] online_step_length [of dir acc om] show ?case by simp
qed simp

lemma online_entries_length: "length (online_entries up_text dir oms) \<le> Suc (length oms)"
  unfolding online_entries_def using online_fold_length [of dir _ oms] by (fastforce intro: order_trans)

lemma online_up_spec:
  fixes u :: "'a app_scheme"
  assumes "lists_ok u L" "roomy u"
  shows "\<exists>u' as. online_up up_text u = Some (True, u') \<and>
     more_of Files u L u' as (if b_dir (br u Files) = [] then [] else [folder_entry ''..'' up_text])"
proof (cases "b_dir (br u Files) = []")
  case True
  then show ?thesis using more_of_refl [OF assms] by (auto simp: online_up_def)
next
  case False
  from add_folder_spec [OF assms, of "''..''" up_text] obtain u' a where
    "add_texts [(\<lambda>s e. e\<lparr>e_file := Some s\<rparr>, ''..''), (\<lambda>s e. e\<lparr>e_display := Some s\<rparr>, up_text)] TYPE_FOLDER ICON_FOLDER u = Some (True, u')"
    "more_of Files u L u' [a] [folder_entry ''..'' up_text]" by blast
  then show ?thesis using False by (intro exI [of _ u'] exI [of _ "[a]"]) (simp add: online_up_def)
qed

lemma online_tail:
  fixes u :: "'a app_scheme"
  assumes "lists_ok u L" "loadedFile u = []"
  shows "\<exists>u'. (if b_lastdir (br u Files) \<noteq> [] then FindDirectory pagesize u
       else if findLoadedFile u = 1 then FindFile pagesize u else Some u) = Some u' \<and> lists_ok u' L \<and> cells u' = cells u \<and>
     b_numEntries (br u' Files) = b_numEntries (br u Files)"
proof -
  from FindDirectory_keeps [OF assms(1), of pagesize] obtain v where "FindDirectory pagesize u = Some v" "lists_ok v L"
    "cells v = cells u" "b_numEntries (br v Files) = b_numEntries (br u Files)" by blast
  moreover have "lists_ok (u\<lparr>findLoadedFile := 0\<rparr>) L" using assms(1) by (simp add: lists_ok_def)
  ultimately show ?thesis using assms(1) FindFile_nothing [OF assms(2), of pagesize] by auto
qed

text \<open>
  (C7) With memory, and when no file is loaded, a folder of the online media is shown as the one stable
  arrangement of: the way back unless it is the top, the media of the list whose path is the folder and
  whose protocol is not unknown, with their address completed, and one folder for every name that
  follows the folder in a path, where it first occurs. The result is the number of entries, and the
  list of online media stays as it is.
\<close>

theorem online_folder_listed:
  fixes u :: "'a app_scheme"
  assumes "lists_ok u L" "roomy u" "L OnlineMedia \<noteq> []" "L Files = []" "b_numEntries (br u Files) = 0" "loadedFile u = []"
    "\<forall>e \<in> set (contents (cells u) (L OnlineMedia)). online_fits (b_dir (br u Files)) e" "length (L OnlineMedia) < 2 ^ 31"
  shows "\<exists>u' L'. ParseOnlineMedia up_text pagesize u =
       Some (int (length (online_entries up_text (b_dir (br u Files)) (contents (cells u) (L OnlineMedia)))), u') \<and>
     lists_ok u' L' \<and> contents (cells u') (L' OnlineMedia) = contents (cells u) (L OnlineMedia) \<and>
     (\<forall>es. stable_sorted file_le (online_entries up_text (b_dir (br u Files)) (contents (cells u) (L OnlineMedia))) es \<longleftrightarrow>
        es = contents (cells u') (L' Files))"
proof -
  let ?dir = "b_dir (br u Files)" and ?oms = "contents (cells u) (L OnlineMedia)"
  let ?X = "online_entries up_text ?dir ?oms"
  have first: "b_first (br u OnlineMedia) \<noteq> None"
    using lists_ok_list [OF assms(1), of OnlineMedia] assms(3) by (simp add: browser_list_def headp_def)
  from online_up_spec [OF assms(1,2), of up_text] obtain u1 as where u1: "online_up up_text u = Some (True, u1)"
    "more_of Files u L u1 as (if ?dir = [] then [] else [folder_entry ''..'' up_text])" by blast
  let ?L1 = "L(Files := as)"
  have ok1: "lists_ok u1 ?L1" "roomy u1" and k1: "kept u u1" and d1: "b_dir (br u1 Files) = ?dir"
    and c1: "contents (cells u1) as = (if ?dir = [] then [] else [folder_entry ''..'' up_text])"
    using u1(2) assms(4) by (simp_all add: more_of_def env_def contents_def)
  have o1: "contents (cells u1) (L OnlineMedia) = ?oms" by (rule kept_contents [OF k1 assms(1)])
  have hp: "b_first (br u1 OnlineMedia) = headp (L OnlineMedia)"
    using lists_ok_list [OF ok1(1), of OnlineMedia] by (simp add: browser_list_def)
  have pre: "?L1 OnlineMedia = [] @ L OnlineMedia" by simp
  from online_loop_spec [OF ok1 pre] assms(7) obtain u2 bs fs where u2: "online_loop (headp (L OnlineMedia)) u1 = Some u2"
    "more_of Files u1 ?L1 u2 bs fs" "foldl (online_step ?dir) (contents (cells u1) (?L1 Files)) ?oms = contents (cells u1) (?L1 Files) @ fs"
    unfolding o1 d1 by blast
  let ?L2 = "L(Files := as @ bs)"
  have ok2: "lists_ok u2 ?L2" "roomy u2" and k2: "kept u1 u2" and lf2: "loadedFile u2 = []"
    using u1(2) u2(2) assms(6) by (simp_all add: more_of_def env_def)
  have c2: "contents (cells u2) (?L2 Files) = ?X"
    using u2(2,3) c1 by (simp add: more_of_def online_entries_def)
  have n2: "b_numEntries (br u2 Files) = int (length ?X)"
    using u1(2) u2(2,3) c1 assms(5) by (simp add: more_of_def online_entries_def)
  have o2: "contents (cells u2) (L OnlineMedia) = ?oms"
    using kept_contents [OF k2 ok1(1), of OnlineMedia] o1 by simp
  have len: "length (?L2 Files) \<le> 2 ^ 31"
  proof -
    have "length (?L2 Files) = length ?X" using c2 by (metis contents_def length_map)
    also have "\<dots> \<le> Suc (length ?oms)" by (rule online_entries_length)
    finally show ?thesis using assms(8) by (simp add: contents_def)
  qed
  have nm: "\<forall>a \<in> set (?L2 Files). e_file (the (cells u2 a)) \<noteq> None"
  proof
    fix a assume "a \<in> set (?L2 Files)"
    then have "content (the (cells u2 a)) \<in> set (contents (cells u2) (?L2 Files))" by (auto simp: contents_def)
    from online_entries_named [OF this [unfolded c2]] show "e_file (the (cells u2 a)) \<noteq> None" by (simp add: content_def)
  qed
  from sort_step_full [OF ok2 nm len] obtain u3 L3 where u3: "SortBrowser Files FileSortCallback u2 = Some u3" "lists_ok u3 L3"
    "contents (cells u3) (L3 Files) = merge_sort file_le ?X" "env u3 = env u2" "b_numEntries (br u3 Files) = b_numEntries (br u2 Files)"
    "L3 OnlineMedia = L OnlineMedia" "contents (cells u3) (L OnlineMedia) = ?oms"
    unfolding c2 using o2 by auto
  have lf3: "loadedFile u3 = []" using u3(4) lf2 by (simp add: env_def)
  from online_tail [OF u3(2) lf3, of pagesize] obtain u4 where u4: "(if b_lastdir (br u3 Files) \<noteq> [] then FindDirectory pagesize u3
       else if findLoadedFile u3 = 1 then FindFile pagesize u3 else Some u3) = Some u4" "lists_ok u4 L3" "cells u4 = cells u3"
     "b_numEntries (br u4 Files) = b_numEntries (br u3 Files)" by blast
  have "ParseOnlineMedia up_text pagesize u = Some (b_numEntries (br u4 Files), u4)"
    unfolding ParseOnlineMedia_def if_not_P [OF first] by (simp add: u1(1) hp u2(1) u3(1) u4(1))
  moreover have "stable_sorted file_le ?X (merge_sort file_le ?X)" by (rule listing.merge_sort_stable)
  ultimately show ?thesis
    using u3 u4(2-4) n2 listing.stable_sorted_unique [of ?X] by (intro exI [of _ u4] exI [of _ L3]) auto
qed

text \<open>A media file with a folder in a folder, and a link without an address.\<close>

definition demo_link :: "string \<Rightarrow> string option \<Rightarrow> media_link" where
  "demo_link name addr = \<lparr>l_name = Some name, l_addr = addr, l_image = None, l_type = None, l_tunein = None\<rparr>"

definition demo_media :: media_node where
  "demo_media = Media [demo_link ''Top'' (Some ''a.org/x.m3u''), demo_link ''Bad'' None]
     [(Some ''Radio'', Media [] [(Some ''Rock'', Media [demo_link ''R1'' (Some ''http://r.org/1'')] []), (None, Media [] [])])]"

lemma demo_media_records:
  "map (\<lambda>e. (e_file e, e_display e, e_type e)) (media_records [] demo_media) =
     [(Some [], Some ''Top'', TYPE_PLAYLIST), (Some ''Radio/Rock/'', Some ''R1'', TYPE_FILE)]"
  by (simp add: demo_media_def link_records_def demo_link_def link_entry_def link_type_def) code_simp

theorem online_media_read_witness:
  "\<exists>u' as. LoadOnlineMediaFile ''<file>'' (\<lambda>_. Some demo_media) demo_folder = Some u' \<and>
     map (\<lambda>e. (e_file e, e_display e, e_type e)) (contents (cells u') as) =
       [(Some [], Some ''Top'', TYPE_PLAYLIST), (Some ''Radio/Rock/'', Some ''R1'', TYPE_FILE)]"
proof -
  from online_media_read [OF demo_folder_ok, of "''<file>''" "\<lambda>_. Some demo_media" demo_media] obtain u' as where
    "LoadOnlineMediaFile ''<file>'' (\<lambda>_. Some demo_media) demo_folder = Some u'" "contents (cells u') as = media_records [] demo_media"
    by (auto simp: contents_def)
  then show ?thesis using demo_media_records by (intro exI [of _ u'] exI [of _ as]) (simp only:)
qed

text \<open>The list of online media with these records, in the folder \<open>Radio\<close> and at the top.\<close>

definition demo_om :: "string \<Rightarrow> string \<Rightarrow> string \<Rightarrow> addr option \<Rightarrow> addr option \<Rightarrow> bentry" where
  "demo_om path url title prior next_cell = calloc_entry\<lparr>e_file := Some path, e_url := Some url, e_display := Some title,
     e_prior := prior, e_next := next_cell\<rparr>"

definition demo_online :: "string \<Rightarrow> app" where
  "demo_online dir = demo_folder\<lparr>
     br := (\<lambda>_. blank_browser)(Files := blank_browser\<lparr>b_dir := dir\<rparr>, OnlineMedia := blank_browser\<lparr>b_first := Some 1, b_last := Some 2, b_numEntries := 2\<rparr>),
     cells := [1 \<mapsto> demo_om [] ''a.org/x'' ''Top'' None (Some 2), 2 \<mapsto> demo_om ''Radio/Rock/'' ''http://r.org/1'' ''R1'' (Some 1) None],
     calloc_at := (\<lambda>n. Some (n + 3)), menuCurrent := MENU_BROWSE_ONLINEMEDIA\<rparr>"

definition demo_cells :: "which_list \<Rightarrow> addr list" where
  "demo_cells = (\<lambda>_. [])(OnlineMedia := [1, 2])"

lemma demo_online_ok: "lists_ok (demo_online dir) demo_cells" "roomy (demo_online dir)"
  by (auto simp: lists_ok_def demo_online_def demo_cells_def demo_folder_def browser_list_def dlist_def blank_browser_def
      BrowserInit_def roomy_def demo_om_def inj_on_def next_of_def lastp_def)

lemma demo_online_fields:
  "loadedFile (demo_online dir) = []" "b_dir (br (demo_online dir) Files) = dir" "b_numEntries (br (demo_online dir) Files) = 0"
  "contents (cells (demo_online dir)) (demo_cells OnlineMedia) =
     [content (demo_om [] ''a.org/x'' ''Top'' None (Some 2)), content (demo_om ''Radio/Rock/'' ''http://r.org/1'' ''R1'' (Some 1) None)]"
  "demo_cells OnlineMedia = [1, 2]" "demo_cells Files = []"
  by (simp_all add: demo_online_def demo_folder_def blank_browser_def BrowserInit_def demo_cells_def contents_def)

lemma demo_online_entries:
  defines "oms \<equiv> [content (demo_om [] ''a.org/x'' ''Top'' None (Some 2)), content (demo_om ''Radio/Rock/'' ''http://r.org/1'' ''R1'' (Some 1) None)]"
  shows "map e_file (merge_sort file_le (online_entries ''..'' [] oms)) = [Some ''Radio'', Some ''http://a.org/x'']"
    "map e_file (merge_sort file_le (online_entries ''..'' ''Radio/'' oms)) = [Some ''..'', Some ''Rock'']"
    "length (online_entries ''..'' [] oms) = 2" "length (online_entries ''..'' ''Radio/'' oms) = 2"
    "\<forall>e \<in> set oms. online_fits [] e" "\<forall>e \<in> set oms. online_fits ''Radio/'' e"
  unfolding oms_def by code_simp+

theorem online_folder_listed_witness:
  "\<exists>u' L' v' M'. ParseOnlineMedia ''..'' 8 (demo_online []) = Some (2, u') \<and>
     map e_file (contents (cells u') (L' Files)) = [Some ''Radio'', Some ''http://a.org/x''] \<and>
     ParseOnlineMedia ''..'' 8 (demo_online ''Radio/'') = Some (2, v') \<and>
     map e_file (contents (cells v') (M' Files)) = [Some ''..'', Some ''Rock'']"
proof -
  let ?oms = "[content (demo_om [] ''a.org/x'' ''Top'' None (Some 2)), content (demo_om ''Radio/Rock/'' ''http://r.org/1'' ''R1'' (Some 1) None)]"
  have run: "\<exists>u' L'. ParseOnlineMedia ''..'' 8 (demo_online dir) = Some (int (length (online_entries ''..'' dir ?oms)), u') \<and>
      contents (cells u') (L' Files) = merge_sort file_le (online_entries ''..'' dir ?oms)"
    if "\<forall>e \<in> set ?oms. online_fits dir e" for dir
  proof -
    have p: "demo_cells OnlineMedia \<noteq> []" "length (demo_cells OnlineMedia) < 2 ^ 31" by (simp_all add: demo_online_fields)
    from online_folder_listed [OF demo_online_ok [of dir] p(1) demo_online_fields(6,3,1) _ p(2), of "''..''" 8, unfolded demo_online_fields(2,4)]
      that obtain u' L' where
      "ParseOnlineMedia ''..'' 8 (demo_online dir) = Some (int (length (online_entries ''..'' dir ?oms)), u')"
      "\<forall>es. stable_sorted file_le (online_entries ''..'' dir ?oms) es \<longleftrightarrow> es = contents (cells u') (L' Files)" by blast
    moreover have "stable_sorted file_le (online_entries ''..'' dir ?oms) (merge_sort file_le (online_entries ''..'' dir ?oms))"
      by (rule listing.merge_sort_stable)
    ultimately show ?thesis by auto
  qed
  from run [OF demo_online_entries(5)] obtain u' L' where r: "ParseOnlineMedia ''..'' 8 (demo_online []) = Some (2, u')"
    "contents (cells u') (L' Files) = merge_sort file_le (online_entries ''..'' [] ?oms)"
    unfolding demo_online_entries(3) by auto
  from run [OF demo_online_entries(6)] obtain v' M' where s: "ParseOnlineMedia ''..'' 8 (demo_online ''Radio/'') = Some (2, v')"
    "contents (cells v') (M' Files) = merge_sort file_le (online_entries ''..'' ''Radio/'' ?oms)"
    unfolding demo_online_entries(4) by auto
  show ?thesis
    by (intro exI [of _ u'] exI [of _ L'] exI [of _ v'] exI [of _ M'] conjI r(1) s(1)) (simp_all only: r(2) s(2) demo_online_entries(1,2))
qed

end
