(* ===== verification/Change_Folder.thy ===== *)
theory Change_Folder
  imports Browse_Nav Online_Media
begin

text \<open>
  \<open>BrowserChangeFolder\<close> (source/filebrowser.cpp): the operation behind every selection in the browser.
  It changes the path, decides what stands behind it, a playlist, a folder of the online media or a
  directory, lists that, and falls back to the list of devices.

  The devices, their mounting, the downloads, MPlayer's playlist parser and the user are parameters
  (the record \<open>platform\<close>). The parse thread is at rest when the operation begins; with \<open>waitParse\<close> it
  runs to its end. \<open>None\<close> is a use of NULL or of a freed cell, or a store outside a buffer.
\<close>

record platform =
  dav_name :: "string option"
  sd_parts :: "(string \<times> string) option list"
  sd_text :: string
  card_text :: string
  up_text :: string
  pagesize :: int
  mount :: "string \<Rightarrow> bool"
  opendir :: "nat \<Rightarrow> string \<Rightarrow> dirent list option"
  ask_retry :: "nat \<Rightarrow> bool"
  was_watched :: "string \<Rightarrow> bool"
  http :: "string \<Rightarrow> string"
  load_file :: "string \<Rightarrow> string"
  parse_playlist :: "string \<Rightarrow> pls_item list option"
  hide_ext :: bool

section \<open>The list of devices\<close>

text \<open>A device is an entry whose texts are copied without a look at the result.\<close>

definition set_root :: "addr \<Rightarrow> string \<Rightarrow> string \<Rightarrow> icon \<Rightarrow> 'a ui_scheme \<Rightarrow> 'a ui_scheme option" where
  "set_root a path title ic u =
     (case c_strdup path u of (f, u1) \<Rightarrow>
        (case upd_cell a (\<lambda>e. e\<lparr>e_file := f\<rparr>) u1 of None \<Rightarrow> None
         | Some u2 \<Rightarrow>
           (case c_strdup title u2 of (d, u3) \<Rightarrow>
              upd_cell a (\<lambda>e. e\<lparr>e_display := d, e_length := 0, e_type := TYPE_FOLDER, e_icon := ic\<rparr>) u3)))"

definition partition_title :: "platform \<Rightarrow> nat \<Rightarrow> string \<Rightarrow> string" where
  "partition_title p i name =
     (if name \<noteq> [] then sd_text p @ '' - '' @ name
      else if i = 0 \<and> sd_parts p ! 1 = None then ''SD Card''
      else card_text p @ '' ('' @ show_nat (i + 1) @ '')'')"

text \<open>The loop over the partitions; the title is printed into an array of 200 bytes.\<close>

fun add_partitions :: "platform \<Rightarrow> nat \<Rightarrow> (string \<times> string) option list \<Rightarrow> 'a ui_scheme \<Rightarrow> 'a ui_scheme option" where
  "add_partitions p i [] u = Some u"
| "add_partitions p i (None # ps) u = add_partitions p (Suc i) ps u"
| "add_partitions p i (Some (dev, name) # ps) u =
     (case AddEntry Files u of
        Some (Some a, u1) \<Rightarrow>
          if 200 \<le> length (partition_title p i name) then None
          else
            (case set_root a (dev @ '':'') (partition_title p i name) ICON_SD u1 of None \<Rightarrow> None
             | Some u2 \<Rightarrow> add_partitions p (Suc i) ps u2)
      | _ \<Rightarrow> None)"

definition list_roots :: "platform \<Rightarrow> 'a ui_scheme \<Rightarrow> 'a ui_scheme option" where
  "list_roots p u =
     (case (case dav_name p of None \<Rightarrow> Some u
            | Some name \<Rightarrow>
              (case AddEntry Files u of None \<Rightarrow> None
               | Some (None, u1) \<Rightarrow> Some u1
               | Some (Some a, u1) \<Rightarrow> set_root a ''dav1:'' name ICON_SMB u1)) of None \<Rightarrow> None
      | Some u1 \<Rightarrow> add_partitions p 0 (sd_parts p) u1)"

section \<open>The operation\<close>

definition online_dir :: "'a app_scheme \<Rightarrow> bool option" where
  "online_dir u =
     (if menuCurrent u = MENU_BROWSE_ONLINEMEDIA then IsOnlineMediaPath (b_dir (br u Files)) u else Some False)"

text \<open>Cleaning the path and switching to its device; the boolean is \<open>isPlaylist\<close>.\<close>

definition enter_dir :: "platform \<Rightarrow> 'a app_scheme \<Rightarrow> (bool \<times> 'a app_scheme) option" where
  "enter_dir p u =
     (case online_dir u of None \<Rightarrow> None
      | Some online \<Rightarrow>
        (let u1 = (if online then u else set_dir (CleanupPath (b_dir (br u Files))) u); dir = b_dir (br u1 Files) in
         if dir = [] then Some (False, u1)
         else
           (case online_dir u1 of None \<Rightarrow> None
            | Some online1 \<Rightarrow>
              if online1 \<or> mount p dir then Some (IsPlaylistExt (GetExt dir), u1)
              else if menuCurrent u1 \<noteq> MENU_BROWSE_ONLINEMEDIA then Some (False, set_dir [] u1)
              else Some (False, u1))))"

text \<open>Reading a directory; when the caller waits, the parse thread reads it to its end.\<close>

definition read_dir :: "platform \<Rightarrow> bool \<Rightarrow> 'a app_scheme \<Rightarrow> 'a app_scheme option" where
  "read_dir p waitParse u =
     (case ParseDirectory (opendir p) (ask_retry p) (up_text p) (was_watched p) (pagesize p) u of None \<Rightarrow> None
      | Some (r, u1) \<Rightarrow> if waitParse \<and> 0 < r then parse_all (was_watched p) (pagesize p) u1 else Some u1)"

text \<open>The part behind the playlist.\<close>

definition list_dir :: "platform \<Rightarrow> bool \<Rightarrow> 'a app_scheme \<Rightarrow> (int \<times> 'a app_scheme) option" where
  "list_dir p waitParse u =
     (case ResetFiles u of None \<Rightarrow> None
      | Some u1 \<Rightarrow>
        if menuCurrent u1 = MENU_BROWSE_ONLINEMEDIA then ParseOnlineMedia (up_text p) (pagesize p) u1
        else
          (case (if b_dir (br u1 Files) \<noteq> [] then read_dir p waitParse u1 else Some u1) of None \<Rightarrow> None
           | Some u2 \<Rightarrow>
             if 0 < b_numEntries (br u2 Files) then Some (b_numEntries (br u2 Files), u2)
             else
               (case list_roots p (set_dir [] u2) of None \<Rightarrow> None
                | Some u3 \<Rightarrow>
                  map_option (\<lambda>u4. (b_numEntries (br u4 Files), u4))
                    (if b_lastdir (br u3 Files) \<noteq> [] then FindDirectory (pagesize p) u3 else Some u3))))"

definition BrowserChangeFolder :: "platform \<Rightarrow> bool \<Rightarrow> bool \<Rightarrow> 'a app_scheme \<Rightarrow> (int \<times> 'a app_scheme) option" where
  "BrowserChangeFolder p updateDir waitParse u =
     (case (if updateDir then UpdateDirName u else Some (1, u)) of None \<Rightarrow> None
      | Some (r, u1) \<Rightarrow>
        if r = 0 then Some (- 1, u1)
        else
          (case enter_dir p u1 of None \<Rightarrow> None
           | Some (isPlaylist, u2) \<Rightarrow>
             if \<not> isPlaylist then list_dir p waitParse u2
             else
               (case ParsePlaylistFile (http p) (load_file p) (parse_playlist p) (hide_ext p) (up_text p) (pagesize p) u2 of None \<Rightarrow> None
                | Some (res, u3) \<Rightarrow>
                  if 0 < res then Some (b_numEntries (br u3 Files), u3)
                  else
                    (let u4 = BrowserHistoryDiscard (set_dir (BrowserHistoryRetrieve u3) u3) in
                     if 0 < b_numEntries (br u4 Files) then Some (res, u4) else list_dir p waitParse u4))))"

section \<open>Without memory\<close>

lemma set_dir_ok [simp]:
  "lists_ok (set_dir d u) L = lists_ok u L" "roomy (set_dir d u) = roomy u" "cells (set_dir d u) = cells u"
  "b_dir (br (set_dir d u) Files) = d" "b_numEntries (br (set_dir d u) w) = b_numEntries (br u w)"
  "b_lastdir (br (set_dir d u) w) = b_lastdir (br u w)" "ticks (set_dir d u) = ticks u" "calloc_at (set_dir d u) = calloc_at u"
proof -
  have "browser_list h (br (set_dir d u) w) = browser_list h (br u w)" for h w
    by (cases "w = Files") (simp_all add: set_dir_def set_br_def browser_list_def fun_eq_iff)
  then show "lists_ok (set_dir d u) L = lists_ok u L" by (simp add: lists_ok_def set_dir_def set_br_def)
qed (auto simp: set_dir_def set_br_def roomy_def)

lemma set_dir_app [simp]:
  "menuCurrent (set_dir d u) = menuCurrent u" "loadedFile (set_dir d u) = loadedFile u" "dirHandle (set_dir d u) = dirHandle u"
  by (simp_all add: set_dir_def set_br_def)

lemma ResetFiles_keeps:
  fixes u :: "'a app_scheme"
  assumes "lists_ok u L"
  shows "\<exists>u'. ResetFiles u = Some u' \<and> calloc_at u' = calloc_at u \<and> menuCurrent u' = menuCurrent u \<and>
     b_dir (br u' Files) = b_dir (br u Files) \<and> b_numEntries (br u' Files) = 0"
proof -
  obtain u1 where u1: "Reset Subs u = Some u1" "lists_ok u1 (L(Subs := []))"
    "u1 = set_br Subs ((br u Subs)\<lparr>b_numEntries := 0, b_selIndex := None, b_pageIndex := 0, b_first := None, b_last := None\<rparr>)
       (u\<lparr>cells := (\<lambda>c. if c \<in> set (L Subs) then None else cells u c)\<rparr>)"
    by (rule Reset_spec [OF assms, of Subs]) (rule that; assumption)
  obtain u2 where u2: "Reset Files u1 = Some u2"
    "u2 = set_br Files ((br u1 Files)\<lparr>b_numEntries := 0, b_selIndex := None, b_pageIndex := 0, b_first := None, b_last := None\<rparr>)
       (u1\<lparr>cells := (\<lambda>c. if c \<in> set ((L(Subs := [])) Files) then None else cells u1 c)\<rparr>)"
    by (rule Reset_spec [OF u1(2), of Files]) (rule that; assumption)
  show ?thesis
    using u1(1) u2(1) by (intro exI [of _ u2]) (simp add: ResetFiles_def u2(2) u1(3) set_br_def)
qed

lemma AddEntry_fails: "\<forall>n. calloc_at u n = None \<Longrightarrow> AddEntry w u = Some (None, u\<lparr>ticks := Suc (ticks u)\<rparr>)"
  by (simp add: AddEntry_def Let_def)

lemma add_partitions_fails:
  "\<forall>n. calloc_at u n = None \<Longrightarrow> \<exists>x \<in> set ps. x \<noteq> None \<Longrightarrow> add_partitions p i ps u = None"
  by (induction p i ps u rule: add_partitions.induct) (auto simp: AddEntry_fails)

text \<open>
  The list of devices is built without a look at the result of the allocation: when there is no
  memory for the entry of an SD partition, the operation writes through NULL.
\<close>

theorem roots_need_memory:
  fixes u :: "'a app_scheme"
  assumes "\<forall>n. calloc_at u n = None" "menuCurrent u \<noteq> MENU_BROWSE_ONLINEMEDIA" "b_dir (br u Files) = []" "lists_ok u L"
    "part \<in> set (sd_parts p)" "part \<noteq> None"
  shows "BrowserChangeFolder p False waitParse u = None"
proof -
  let ?u = "set_dir [] u"
  have enter: "enter_dir p u = Some (False, ?u)"
    using assms(2,3) by (simp add: enter_dir_def online_dir_def Let_def CleanupPath_def)
  from ResetFiles_keeps [of ?u L] assms(4) obtain u1 where u1: "ResetFiles ?u = Some u1" "calloc_at u1 = calloc_at u"
    "menuCurrent u1 = menuCurrent u" "b_dir (br u1 Files) = []" "b_numEntries (br u1 Files) = 0" by auto
  have c: "\<forall>n. calloc_at (set_dir [] u1) n = None" using assms(1) u1(2) by simp
  have ex: "\<exists>x \<in> set (sd_parts p). x \<noteq> None" using assms(5,6) by blast
  have "list_roots p (set_dir [] u1) = None"
  proof (cases "dav_name p")
    case None
    then show ?thesis using add_partitions_fails [OF c ex] by (simp add: list_roots_def)
  next
    case (Some n)
    have "\<forall>n. calloc_at ((set_dir [] u1)\<lparr>ticks := Suc (ticks (set_dir [] u1))\<rparr>) n = None" using c by simp
    from add_partitions_fails [OF this ex] show ?thesis using Some by (simp add: list_roots_def AddEntry_fails [OF c])
  qed
  then have "list_dir p waitParse ?u = None" using u1 assms(2) by (simp add: list_dir_def)
  then show ?thesis using enter by (simp add: BrowserChangeFolder_def)
qed

section \<open>The list of devices, with memory\<close>

definition root_entry :: "string \<Rightarrow> string \<Rightarrow> icon \<Rightarrow> bentry" where
  "root_entry path title ic = calloc_entry\<lparr>e_file := Some path, e_display := Some title, e_type := TYPE_FOLDER, e_icon := ic\<rparr>"

fun partition_entries :: "platform \<Rightarrow> nat \<Rightarrow> (string \<times> string) option list \<Rightarrow> bentry list" where
  "partition_entries p i [] = []"
| "partition_entries p i (None # ps) = partition_entries p (Suc i) ps"
| "partition_entries p i (Some (dev, name) # ps) =
     root_entry (dev @ '':'') (partition_title p i name) ICON_SD # partition_entries p (Suc i) ps"

definition root_entries :: "platform \<Rightarrow> bentry list" where
  "root_entries p =
     (case dav_name p of None \<Rightarrow> [] | Some name \<Rightarrow> [root_entry ''dav1:'' name ICON_SMB]) @ partition_entries p 0 (sd_parts p)"

definition titles_fit :: "platform \<Rightarrow> bool" where
  "titles_fit p \<longleftrightarrow> (\<forall>i name. (\<exists>dev. i < length (sd_parts p) \<and> sd_parts p ! i = Some (dev, name)) \<longrightarrow>
     length (partition_title p i name) < 200)"

lemma add_root_spec:
  fixes u :: "'a app_scheme"
  assumes "lists_ok u L" "roomy u"
  shows "\<exists>a u1 u2. AddEntry Files u = Some (Some a, u1) \<and> set_root a path title ic u1 = Some u2 \<and>
     more_of Files u L u2 [a] [root_entry path title ic]"
proof -
  from AddEntry_adding [OF assms, of Files] obtain a u1 e where u1: "AddEntry Files u = Some (Some a, u1)" "adding u L a u1 e"
    "content e = calloc_entry" by blast
  have "keeps_links (\<lambda>e. e\<lparr>e_file := Some path\<rparr>)" by (simp add: keeps_links_def)
  from adding_upd [OF adding_tick [OF u1(2)] this] obtain u2 where u2:
    "upd_cell a (\<lambda>e. e\<lparr>e_file := Some path\<rparr>) (u1\<lparr>ticks := Suc (ticks u1)\<rparr>) = Some u2" "adding u L a u2 (e\<lparr>e_file := Some path\<rparr>)" by blast
  let ?f = "\<lambda>e. e\<lparr>e_display := Some title, e_length := 0, e_type := TYPE_FOLDER, e_icon := ic\<rparr>"
  have "keeps_links ?f" by (simp add: keeps_links_def)
  from adding_upd [OF adding_tick [OF u2(2)] this] obtain u3 where u3:
    "upd_cell a ?f (u2\<lparr>ticks := Suc (ticks u2)\<rparr>) = Some u3" "adding u L a u3 (?f (e\<lparr>e_file := Some path\<rparr>))" by blast
  have "content (?f (e\<lparr>e_file := Some path\<rparr>)) = root_entry path title ic"
    using u1(3) by (cases e) (simp add: content_def root_entry_def calloc_entry_def)
  with adding_more [OF u3(2) assms(1)] have "more_of Files u L u3 [a] [root_entry path title ic]" by metis
  moreover have "set_root a path title ic u1 = Some u3"
    using adding_memory [OF u1(2)] adding_memory [OF u2(2)] u2(1) u3(1) by (simp add: set_root_def c_strdup_def)
  ultimately show ?thesis using u1(1) by blast
qed

lemma add_partitions_spec:
  fixes u :: "'a app_scheme"
  assumes "lists_ok u L" "roomy u" "\<forall>j name dev. j < length ps \<longrightarrow> ps ! j = Some (dev, name) \<longrightarrow> length (partition_title p (i + j) name) < 200"
  shows "\<exists>u' as. add_partitions p i ps u = Some u' \<and> more_of Files u L u' as (partition_entries p i ps)"
  using assms
proof (induction ps arbitrary: i u L)
  case Nil
  then show ?case using more_of_refl by fastforce
next
  case (Cons x ps)
  have rest: "\<forall>j name dev. j < length ps \<longrightarrow> ps ! j = Some (dev, name) \<longrightarrow> length (partition_title p (Suc i + j) name) < 200"
  proof (intro allI impI)
    fix j name dev assume "j < length ps" "ps ! j = Some (dev, name)"
    then show "length (partition_title p (Suc i + j) name) < 200"
      using Cons.prems(3) [rule_format, of "Suc j" dev name] by simp
  qed
  show ?case
  proof (cases x)
    case None
    with Cons.IH [OF Cons.prems(1,2) rest] show ?thesis by simp
  next
    case (Some r)
    obtain dev name where r: "x = Some (dev, name)" using Some by (cases r) auto
    let ?e = "root_entry (dev @ '':'') (partition_title p i name) ICON_SD"
    have fit: "\<not> 200 \<le> length (partition_title p i name)" using Cons.prems(3) [rule_format, of 0 dev name] r by simp
    from add_root_spec [OF Cons.prems(1,2), of "dev @ '':''" "partition_title p i name" ICON_SD] obtain a u1 u2 where
      u2: "AddEntry Files u = Some (Some a, u1)" "set_root a (dev @ '':'') (partition_title p i name) ICON_SD u1 = Some u2"
        "more_of Files u L u2 [a] [?e]" by blast
    from Cons.IH [OF _ _ rest] more_of_ok [OF u2(3)] obtain u3 as where
      u3: "add_partitions p (Suc i) ps u2 = Some u3" "more_of Files u2 (L(Files := L Files @ [a])) u3 as (partition_entries p (Suc i) ps)"
      by blast
    have "add_partitions p i (x # ps) u = Some u3" using u2(1,2) u3(1) fit by (simp add: r)
    moreover have "partition_entries p i (x # ps) = [?e] @ partition_entries p (Suc i) ps" by (simp add: r)
    ultimately show ?thesis using more_of_trans [OF u2(3) u3(2)] by metis
  qed
qed

lemma list_roots_spec:
  fixes u :: "'a app_scheme"
  assumes "lists_ok u L" "roomy u" "titles_fit p"
  shows "\<exists>u' as. list_roots p u = Some u' \<and> more_of Files u L u' as (root_entries p)"
proof -
  have fit: "\<forall>j name dev. j < length (sd_parts p) \<longrightarrow> sd_parts p ! j = Some (dev, name) \<longrightarrow> length (partition_title p (0 + j) name) < 200"
    using assms(3) by (auto simp: titles_fit_def)
  show ?thesis
  proof (cases "dav_name p")
    case None
    with add_partitions_spec [OF assms(1,2) fit] show ?thesis by (simp add: list_roots_def root_entries_def)
  next
    case (Some n)
    from add_root_spec [OF assms(1,2), of "''dav1:''" n ICON_SMB] obtain a u1 u2 where
      u2: "AddEntry Files u = Some (Some a, u1)" "set_root a ''dav1:'' n ICON_SMB u1 = Some u2"
        "more_of Files u L u2 [a] [root_entry ''dav1:'' n ICON_SMB]" by blast
    from add_partitions_spec [OF _ _ fit, of u2 "L(Files := L Files @ [a])"] more_of_ok [OF u2(3)] obtain u3 as where
      u3: "add_partitions p 0 (sd_parts p) u2 = Some u3"
        "more_of Files u2 (L(Files := L Files @ [a])) u3 as (partition_entries p 0 (sd_parts p))" by blast
    have "list_roots p u = Some u3" using u2(1,2) u3(1) Some by (simp add: list_roots_def)
    moreover have "root_entries p = [root_entry ''dav1:'' n ICON_SMB] @ partition_entries p 0 (sd_parts p)"
      using Some by (simp add: root_entries_def)
    ultimately show ?thesis using more_of_trans [OF u2(3) u3(2)] by metis
  qed
qed

text \<open>
  (C20) With memory, when the path is no path of a device or its device cannot be mounted, the operation
  shows the list of devices: the WebDAV server if one is set up, then the SD partitions in order, each
  with its title; the path is empty and the result is the number of devices.
\<close>

theorem device_list_shown:
  fixes u :: "'a app_scheme"
  assumes "lists_ok u L" "roomy u" "menuCurrent u \<noteq> MENU_BROWSE_ONLINEMEDIA"
    "CleanupPath (b_dir (br u Files)) = [] \<or> \<not> mount p (CleanupPath (b_dir (br u Files)))" "titles_fit p"
  shows "\<exists>u' L'. BrowserChangeFolder p False waitParse u = Some (int (length (root_entries p)), u') \<and> lists_ok u' L' \<and>
     contents (cells u') (L' Files) = root_entries p"
proof -
  obtain v where enter: "enter_dir p u = Some (False, v)" and v: "lists_ok v L" "roomy v" "menuCurrent v = menuCurrent u" "b_dir (br v Files) = []"
  proof (cases "CleanupPath (b_dir (br u Files)) = []")
    case True
    then show ?thesis using assms by (intro that [of "set_dir [] u"]) (simp_all add: enter_dir_def online_dir_def Let_def)
  next
    case False
    then show ?thesis using assms
      by (intro that [of "set_dir [] (set_dir (CleanupPath (b_dir (br u Files))) u)"]) (simp_all add: enter_dir_def online_dir_def Let_def)
  qed
  from ResetFiles_roomy [OF v(1,2)] obtain u1 L1 where u1: "ResetFiles v = Some u1" "lists_ok u1 L1" "roomy u1" "env u1 = env v"
    "b_numEntries (br u1 Files) = 0" "L1 Files = []" by blast
  have e1: "menuCurrent u1 = menuCurrent u" "b_dir (br u1 Files) = []" using u1(4) v(3,4) by (simp_all add: env_def)
  from list_roots_spec [of "set_dir [] u1" L1 p] u1(2,3) assms(5) obtain u2 as where
    u2: "list_roots p (set_dir [] u1) = Some u2" "more_of Files (set_dir [] u1) L1 u2 as (root_entries p)" by auto
  have ok2: "lists_ok u2 (L1(Files := as))" and c2: "contents (cells u2) as = root_entries p"
    and n2: "b_numEntries (br u2 Files) = int (length (root_entries p))"
    using u2(2) u1(5,6) by (simp_all add: more_of_def contents_def)
  obtain u3 where u3: "(if b_lastdir (br u2 Files) \<noteq> [] then FindDirectory (pagesize p) u2 else Some u2) = Some u3"
    "lists_ok u3 (L1(Files := as))" "cells u3 = cells u2" "b_numEntries (br u3 Files) = b_numEntries (br u2 Files)"
    using FindDirectory_keeps [OF ok2, of "pagesize p"] ok2 that by (cases "b_lastdir (br u2 Files) = []") auto
  have "list_dir p waitParse v = Some (int (length (root_entries p)), u3)"
    using u1(1,5) e1 assms(3) u2(1) u3(1,4) n2 by (simp add: list_dir_def)
  then show ?thesis using enter u3(2,3) c2
    by (intro exI [of _ u3] exI [of _ "L1(Files := as)"]) (simp add: BrowserChangeFolder_def contents_def)
qed

section \<open>A directory, with memory\<close>

lemma parse_all_closed: "dirHandle u = None \<Longrightarrow> parse_all watched ps u = Some u"
  by (subst parse_all.simps) (simp add: ParseDirEntries_def)

lemma ParseDirectory_spec:
  fixes u :: "'a app_scheme"
  assumes "lists_ok u L" "roomy u" "loadedFile u = []" "dirHandle u = None"
    "open_retry opd ask 0 (b_dir (br u Files)) = Some (Some ds, n)" "length ds < 2 ^ 31"
  shows "\<exists>r u1 u2 L'. ParseDirectory opd ask up watched ps u = Some (r, u1) \<and> 0 < r \<and> parse_all watched ps u1 = Some u2 \<and>
     listing u2 L' (folder_entry ''..'' up # new_entries watched u L ds) \<and> dirHandle u2 = None"
proof -
  let ?dir = "b_dir (br u Files)" and ?up = "folder_entry ''..'' up"
  from ResetFiles_roomy [OF assms(1,2)] obtain u1 L1 where u1: "ResetFiles u = Some u1" "lists_ok u1 L1" "roomy u1" "env u1 = env u"
    "b_numEntries (br u1 Files) = 0" "L1 Files = []" "L1 Music = L Music" "contents (cells u1) (L Music) = contents (cells u) (L Music)"
    by blast
  have d1: "b_dir (br u1 Files) = ?dir" "dirHandle u1 = None" "menuCurrent u1 = menuCurrent u"
    using u1(4) assms(4) by (simp_all add: env_def)
  let ?v = "set_dir ?dir u1\<lparr>dirHandle := Some ds\<rparr>"
  have vok: "lists_ok ?v L1" "roomy ?v" using u1(2,3) d1(1) by (simp_all add: lists_ok_def roomy_def set_dir_def set_br_def flip: d1(1))
  obtain a e u2 where u2: "add_named Files ''..'' ?v = Some (Some a, u2)" "adding ?v L1 a u2 e"
    "content e = content (calloc_entry\<lparr>e_file := Some ''..''\<rparr>)"
    using add_named_spec [OF vok, of Files "''..''"] unfolding adding_def by (smt (verit, best))
  obtain u3 where u3: "display_entry Files a up u2 = Some (True, u3)" "adding ?v L1 a u3 (e\<lparr>e_display := Some up\<rparr>)"
    using adding_display [OF u2(2)] by blast
  have "keeps_links (\<lambda>e. e\<lparr>e_length := 0, e_type := TYPE_FOLDER, e_icon := ICON_FOLDER\<rparr>)" by (simp add: keeps_links_def)
  from adding_upd [OF u3(2) this] obtain u4 where
    u4: "upd_cell a (\<lambda>e. e\<lparr>e_length := 0, e_type := TYPE_FOLDER, e_icon := ICON_FOLDER\<rparr>) u3 = Some u4"
    "adding ?v L1 a u4 (e\<lparr>e_display := Some up, e_length := 0, e_type := TYPE_FOLDER, e_icon := ICON_FOLDER\<rparr>)" by auto
  have c4: "content (e\<lparr>e_display := Some up, e_length := 0, e_type := TYPE_FOLDER, e_icon := ICON_FOLDER\<rparr>) = ?up"
    using u2(3) by (cases e) (simp add: content_def folder_entry_def calloc_entry_def)
  from adding_grown [OF u4(2) vok(1)] c4 have g: "grown ?v L1 u4 (L1(Files := [a])) [?up]" using u1(6) by simp
  let ?w = "u4\<lparr>findLoadedFile := 1\<rparr>" and ?L = "L1(Files := [a])"
  have w: "listing ?w ?L [?up]"
    using g u1(4,5,6) assms(3)
    by (auto simp: listing_def grown_def lists_ok_def roomy_def contents_def env_def folder_entry_def stable_sorted_def set_dir_def set_br_def)
  have dh: "dirHandle ?w = Some ds" using g by (simp add: grown_def env_def)
  have ne: "new_entries watched ?w ?L = new_entries watched u L"
  proof -
    have "new_entries watched ?w ?L = new_entries watched u4 ?L" by (rule new_entries_update) auto
    also have "\<dots> = new_entries watched ?v L1" by (rule new_entries_grown [OF g])
    also have "\<dots> = new_entries watched u L"
      using d1 u1(7,8) by (intro ext) (simp add: new_entries_def files_of_contents set_dir_def set_br_def)
    finally show ?thesis .
  qed
  have len: "length [?up] + length ds \<le> 2 ^ 31" using assms(6) by simp
  from ParseDirEntries_spec [OF w dh len, of watched ps] obtain more u5 L5 pre ds' where
    u5: "ParseDirEntries watched ps (\<lambda>_. False) False ?w = Some (more, u5)" "ds = pre @ ds'"
      "listing u5 L5 ([?up] @ new_entries watched u L pre)" "new_entries watched u5 L5 = new_entries watched u L"
      "more \<longrightarrow> dirHandle u5 = Some ds' \<and> pre \<noteq> []" "\<not> more \<longrightarrow> dirHandle u5 = None \<and> ds' = []"
    unfolding ne by blast
  have run: "ParseDirectory opd ask up watched ps u = Some (b_numEntries (br u5 Files), u5)"
    unfolding ParseDirectory_def using u1(1) d1 assms(5) u2(1) u3(1) u4(1) u5(1) by simp
  have pos: "0 < b_numEntries (br u5 Files)" using u5(3) by (simp add: listing_def)
  show ?thesis
  proof (cases more)
    case True
    have "length (new_entries watched u L pre) \<le> length pre" by (simp add: new_entries_def)
    then have "length ([?up] @ new_entries watched u L pre) + length ds' \<le> 2 ^ 31" using u5(2) assms(6) by simp
    from parse_all_spec [OF u5(3) _ this, of watched ps] True u5(5) obtain u6 L6 where
      "parse_all watched ps u5 = Some u6" "listing u6 L6 (([?up] @ new_entries watched u L pre) @ new_entries watched u L ds')" "dirHandle u6 = None"
      unfolding u5(4) by blast
    then show ?thesis using run pos u5(2) by (auto simp: new_entries_append)
  next
    case False
    then have "parse_all watched ps u5 = Some u5" using u5(6) parse_all_closed by blast
    then show ?thesis using run pos u5 False by auto
  qed
qed

lemma list_dir_directory:
  fixes u :: "'a app_scheme"
  assumes "lists_ok u L" "roomy u" "loadedFile u = []" "dirHandle u = None" "menuCurrent u \<noteq> MENU_BROWSE_ONLINEMEDIA"
    "b_dir (br u Files) \<noteq> []" "open_retry (opendir p) (ask_retry p) 0 (b_dir (br u Files)) = Some (Some ds, n)" "length ds < 2 ^ 31"
  shows "\<exists>u' L'. list_dir p True u = Some (b_numEntries (br u' Files), u') \<and> dirHandle u' = None \<and>
     listing u' L' (folder_entry ''..'' (up_text p) # new_entries (was_watched p) u L ds)"
proof -
  from ResetFiles_roomy [OF assms(1,2)] obtain u1 L1 where u1: "ResetFiles u = Some u1" "lists_ok u1 L1" "roomy u1" "env u1 = env u"
    "L1 Music = L Music" "contents (cells u1) (L Music) = contents (cells u) (L Music)" by blast
  have e1: "loadedFile u1 = []" "dirHandle u1 = None" "menuCurrent u1 = menuCurrent u" "b_dir (br u1 Files) = b_dir (br u Files)"
    using u1(4) assms(3,4) by (simp_all add: env_def)
  have ne: "new_entries (was_watched p) u1 L1 = new_entries (was_watched p) u L"
    using e1(3,4) u1(5,6) by (intro ext) (simp add: new_entries_def files_of_contents)
  from ParseDirectory_spec [OF u1(2,3) e1(1,2), of "opendir p" "ask_retry p" ds n "up_text p" "was_watched p" "pagesize p"] assms(7,8)
  obtain r u2 u3 L' where r: "ParseDirectory (opendir p) (ask_retry p) (up_text p) (was_watched p) (pagesize p) u1 = Some (r, u2)" "0 < r"
    "parse_all (was_watched p) (pagesize p) u2 = Some u3" "dirHandle u3 = None"
    "listing u3 L' (folder_entry ''..'' (up_text p) # new_entries (was_watched p) u L ds)"
    unfolding ne e1(4) by blast
  have "0 < b_numEntries (br u3 Files)" using r(5) by (simp add: listing_def)
  then have "list_dir p True u = Some (b_numEntries (br u3 Files), u3)"
    using u1(1) e1(3,4) assms(5,6) r(1,2,3) by (simp add: list_dir_def read_dir_def)
  then show ?thesis using r(4,5) by blast
qed

text \<open>What reading the folder \<open>path\<close>, entered by \<open>v\<close>, makes of the listing.\<close>

lemma list_dir_arranged:
  fixes u v :: "'a app_scheme"
  assumes "lists_ok v L" "roomy v" "loadedFile v = []" "dirHandle v = None" "menuCurrent v = menuCurrent u" "menuCurrent u \<noteq> MENU_BROWSE_ONLINEMEDIA"
    "cells v = cells u" "b_dir (br v Files) = path" "path \<noteq> []"
    "open_retry (opendir p) (ask_retry p) 0 path = Some (Some ds, n)" "length ds < 2 ^ 31"
  shows "\<exists>u' L'. list_dir p True v = Some (int (length (L' Files)), u') \<and> lists_ok u' L' \<and> dirHandle u' = None \<and> L' Files \<noteq> [] \<and>
     (\<forall>es. stable_sorted file_le
        (folder_entry ''..'' (up_text p) #
         map (dirent_entry (was_watched p) (menuCurrent u) path (files_of (cells u) (L Music))) (filter (shown (menuCurrent u)) ds)) es \<longleftrightarrow>
        es = contents (cells u') (L' Files))"
proof -
  have m: "menuCurrent v \<noteq> MENU_BROWSE_ONLINEMEDIA" and ne0: "b_dir (br v Files) \<noteq> []"
    and op: "open_retry (opendir p) (ask_retry p) 0 (b_dir (br v Files)) = Some (Some ds, n)" using assms(5,6,8-10) by simp_all
  from list_dir_directory [OF assms(1-4) m ne0 op assms(11)] obtain u' L' where u': "list_dir p True v = Some (b_numEntries (br u' Files), u')"
    "dirHandle u' = None" "listing u' L' (folder_entry ''..'' (up_text p) # new_entries (was_watched p) v L ds)" by blast
  have ne: "new_entries (was_watched p) v L ds =
      map (dirent_entry (was_watched p) (menuCurrent u) path (files_of (cells u) (L Music))) (filter (shown (menuCurrent u)) ds)"
    using assms(5,7,8) by (simp add: new_entries_def)
  have st: "stable_sorted file_le (folder_entry ''..'' (up_text p) # new_entries (was_watched p) v L ds) (contents (cells u') (L' Files))"
    using u'(3) by (simp add: listing_def)
  have len: "length (L' Files) = Suc (length (new_entries (was_watched p) v L ds))" using listing_length [OF u'(3)] by simp
  have "list_dir p True v = Some (int (length (L' Files)), u')" using u'(1,3) len by (simp add: listing_def)
  moreover have "lists_ok u' L'" using u'(3) by (simp add: listing_def)
  moreover have "L' Files \<noteq> []" using len by auto
  ultimately show ?thesis using u'(2) st listing.stable_sorted_unique unfolding ne by blast
qed

text \<open>
  (C5) Opening a folder, from the selection to the listing: with memory, when no file is loaded and the
  folder, whose cleaned path names a mounted device and no playlist, can be opened, the operation
  enters the selected folder, reads it to its end and shows the one stable arrangement of the way back
  and the names that the current browser shows; the directory is closed and the result is the number
  of entries.
\<close>

theorem folder_opened:
  fixes u :: "'a app_scheme"
  assumes "lists_ok u L" "roomy u" "loadedFile u = []" "dirHandle u = None" "menuCurrent u \<noteq> MENU_BROWSE_ONLINEMEDIA"
    "b_first (br u Files) \<noteq> None" "b_selIndex (br u Files) = Some a" "b_selIndex (br u Files) \<noteq> b_first (br u Files)"
    "cells u a = Some e" "e_file e = Some f" "e_type e = TYPE_FOLDER" "folder_name f"
    "length (b_dir (br u Files)) + 1 + length f < 1024" "path = CleanupPath (b_dir (br u Files) @ f @ ''/'')"
    "path \<noteq> []" "mount p path" "\<not> IsPlaylistExt (GetExt path)"
    "open_retry (opendir p) (ask_retry p) 0 path = Some (Some ds, n)" "length ds < 2 ^ 31"
  shows "\<exists>u' L'. BrowserChangeFolder p True True u = Some (int (length (L' Files)), u') \<and> lists_ok u' L' \<and> dirHandle u' = None \<and>
     (\<forall>es. stable_sorted file_le
        (folder_entry ''..'' (up_text p) #
         map (dirent_entry (was_watched p) (menuCurrent u) path (files_of (cells u) (L Music))) (filter (shown (menuCurrent u)) ds)) es \<longleftrightarrow>
        es = contents (cells u') (L' Files))"
proof -
  let ?d = "b_dir (br u Files)"
  let ?u = "set_dir path (set_dir (?d @ f @ ''/'') u)"
  obtain c where c: "b_first (br u Files) = Some c" "c \<noteq> a" using assms(6-8) by fastforce
  have upd: "UpdateDirName u = Some (1, set_dir (?d @ f @ ''/'') u)"
    using assms(7,9-13) c by (simp add: UpdateDirName_def Let_def load_def folder_name_def)
  have enter: "enter_dir p (set_dir (?d @ f @ ''/'') u) = Some (False, ?u)"
    using assms(5,14-17) by (simp add: enter_dir_def online_dir_def Let_def)
  have v: "lists_ok ?u L" "roomy ?u" "loadedFile ?u = []" "dirHandle ?u = None" "menuCurrent ?u = menuCurrent u" "cells ?u = cells u"
    "b_dir (br ?u Files) = path" using assms(1-4) by simp_all
  from list_dir_arranged [OF v(1-5) assms(5) v(6,7) assms(15,18,19)] show ?thesis
    using upd enter by (auto simp: BrowserChangeFolder_def)
qed

text \<open>
  (C38) The refusal of a name that is too long is lost: \<open>UpdateDirName\<close> reports it with -1, but the
  caller only tests for zero. Selecting a folder whose name does not fit behind the path neither enters it nor
  fails: the operation reads the folder it is in a second time, shows the one stable arrangement of its
  names and returns their number. The conditions are those of opening a folder, for the folder it is in.
\<close>

theorem too_long_name_reloads:
  fixes u :: "'a app_scheme"
  assumes "lists_ok u L" "roomy u" "loadedFile u = []" "dirHandle u = None" "menuCurrent u \<noteq> MENU_BROWSE_ONLINEMEDIA"
    "b_first (br u Files) \<noteq> None" "b_selIndex (br u Files) = Some a" "b_selIndex (br u Files) \<noteq> b_first (br u Files)"
    "cells u a = Some e" "e_file e = Some f" "e_type e = TYPE_FOLDER" "folder_name f"
    "1024 \<le> length (b_dir (br u Files)) + 1 + length f" "path = CleanupPath (b_dir (br u Files))"
    "path \<noteq> []" "mount p path" "\<not> IsPlaylistExt (GetExt path)"
    "open_retry (opendir p) (ask_retry p) 0 path = Some (Some ds, n)" "length ds < 2 ^ 31"
  shows "UpdateDirName u = Some (- 1, u) \<and>
    (\<exists>u' L'. BrowserChangeFolder p True True u = Some (int (length (L' Files)), u') \<and> L' Files \<noteq> [] \<and> lists_ok u' L' \<and> dirHandle u' = None \<and>
     (\<forall>es. stable_sorted file_le
        (folder_entry ''..'' (up_text p) #
         map (dirent_entry (was_watched p) (menuCurrent u) path (files_of (cells u) (L Music))) (filter (shown (menuCurrent u)) ds)) es \<longleftrightarrow>
        es = contents (cells u') (L' Files)))"
proof -
  let ?u = "set_dir path u"
  obtain c where c: "b_first (br u Files) = Some c" "c \<noteq> a" using assms(6-8) by fastforce
  have upd: "UpdateDirName u = Some (- 1, u)"
    using assms(7,9-13) c by (simp add: UpdateDirName_def Let_def load_def folder_name_def)
  have enter: "enter_dir p u = Some (False, ?u)"
    using assms(5,14-17) by (simp add: enter_dir_def online_dir_def Let_def)
  have v: "lists_ok ?u L" "roomy ?u" "loadedFile ?u = []" "dirHandle ?u = None" "menuCurrent ?u = menuCurrent u" "cells ?u = cells u"
    "b_dir (br ?u Files) = path" using assms(1-4) by simp_all
  from list_dir_arranged [OF v(1-5) assms(5) v(6,7) assms(15,18,19)] show ?thesis
    using upd enter by (auto simp: BrowserChangeFolder_def)
qed
text \<open>
  A playlist that cannot be shown leaves the listing as it is: the path becomes the last one of the
  history, which is taken off, and the error of the parser is returned.
\<close>

theorem failed_playlist_goes_back:
  assumes "enter_dir p u = Some (True, v)"
    "ParsePlaylistFile (http p) (load_file p) (parse_playlist p) (hide_ext p) (up_text p) (pagesize p) v = Some (res, w)"
    "res \<le> 0" "0 < b_numEntries (br w Files)"
  shows "\<exists>u'. BrowserChangeFolder p False waitParse u = Some (res, u') \<and> cells u' = cells w \<and>
     b_dir (br u' Files) = BrowserHistoryRetrieve w \<and> browserHistory u' = butlast (browserHistory w) \<and>
     b_first (br u' Files) = b_first (br w Files) \<and> b_selIndex (br u' Files) = b_selIndex (br w Files)"
  using assms by (simp add: BrowserChangeFolder_def Let_def BrowserHistoryDiscard_def set_dir_def set_br_def)

section \<open>A card with one folder\<close>

definition demo_platform :: platform where
  "demo_platform = \<lparr>dav_name = Some ''NAS'', sd_parts = [None, Some (''sd2'', []), Some (''sd3'', ''DATA'')], sd_text = ''SD'',
     card_text = ''SD Card'', up_text = ''..'', pagesize = 8, mount = (\<lambda>path. take 4 path = ''sd2:''),
     opendir = (\<lambda>n path. if n = 1 \<and> path = ''sd2:/Albums/'' then Some [(''b.mp3'', False), (''x.txt'', False), (''A'', True)] else None),
     ask_retry = (\<lambda>n. n < 3), was_watched = (\<lambda>_. False), http = (\<lambda>_. []), load_file = (\<lambda>_. []),
     parse_playlist = (\<lambda>_. None), hide_ext = False\<rparr>"

text \<open>The entry \<open>name\<close> of the folder \<open>dir\<close> is selected.\<close>

definition demo_selection :: "string \<Rightarrow> string \<Rightarrow> string list \<Rightarrow> app" where
  "demo_selection dir name hist = demo_folder\<lparr>
     br := (\<lambda>_. blank_browser)(Files := blank_browser\<lparr>b_dir := dir, b_first := Some 1, b_last := Some 2, b_selIndex := Some 2, b_numEntries := 2\<rparr>),
     cells := [1 \<mapsto> calloc_entry\<lparr>e_file := Some ''..'', e_type := TYPE_FOLDER, e_next := Some 2\<rparr>,
               2 \<mapsto> calloc_entry\<lparr>e_file := Some name, e_type := TYPE_FOLDER, e_prior := Some 1\<rparr>],
     calloc_at := (\<lambda>n. Some (n + 3)), browserHistory := hist, dirHandle := None\<rparr>"

lemma demo_selection_ok: "lists_ok (demo_selection dir name hist) ((\<lambda>_. [])(Files := [1, 2]))" "roomy (demo_selection dir name hist)"
  by (auto simp: lists_ok_def demo_selection_def demo_folder_def browser_list_def dlist_def blank_browser_def
      BrowserInit_def roomy_def calloc_entry_def inj_on_def next_of_def lastp_def)

lemma demo_selection_fields:
  "loadedFile (demo_selection dir name hist) = []" "dirHandle (demo_selection dir name hist) = None"
  "menuCurrent (demo_selection dir name hist) = MENU_BROWSE_MUSIC" "b_first (br (demo_selection dir name hist) Files) = Some 1"
  "b_selIndex (br (demo_selection dir name hist) Files) = Some 2" "b_dir (br (demo_selection dir name hist) Files) = dir"
  "cells (demo_selection dir name hist) 2 = Some (calloc_entry\<lparr>e_file := Some name, e_type := TYPE_FOLDER, e_prior := Some 1\<rparr>)"
  "b_numEntries (br (demo_selection dir name hist) Files) = 2" "browserHistory (demo_selection dir name hist) = hist"
  "files_of (cells (demo_selection dir name hist)) (((\<lambda>_. [])(Files := [1, 2])) Music) = []"
  by (simp_all add: demo_selection_def demo_folder_def files_of_def)

theorem roots_need_memory_witness:
  "BrowserChangeFolder demo_platform False False (demo_playlist [] []\<lparr>calloc_at := (\<lambda>_. None)\<rparr>) = None"
proof (rule roots_need_memory [where L = "\<lambda>_. []" and part = "Some (''sd2'', [])"], goal_cases)
  case 4
  show ?case using demo_playlist_ok(1) [of "[]" "[]"] by (auto simp: lists_ok_def demo_playlist_fields(6))
qed (simp_all add: demo_playlist_fields demo_platform_def)

theorem device_list_shown_witness:
  "\<exists>u' L'. BrowserChangeFolder demo_platform False False (demo_playlist ''sd1:/gone/'' []) = Some (3, u') \<and>
     map (\<lambda>e. (e_file e, e_display e)) (contents (cells u') (L' Files)) =
       [(Some ''dav1:'', Some ''NAS''), (Some ''sd2:'', Some ''SD Card (2)''), (Some ''sd3:'', Some ''SD - DATA'')]"
proof -
  have m: "CleanupPath ''sd1:/gone/'' = ''sd1:/gone/''" by code_simp
  have e: "map (\<lambda>e. (e_file e, e_display e)) (root_entries demo_platform) =
       [(Some ''dav1:'', Some ''NAS''), (Some ''sd2:'', Some ''SD Card (2)''), (Some ''sd3:'', Some ''SD - DATA'')]"
    "length (root_entries demo_platform) = 3" by code_simp+
  have f: "titles_fit demo_platform"
  proof -
    have "length (partition_title demo_platform i name) < 200" if "sd_parts demo_platform ! i = Some (dev, name)" "i < 3" for i name dev
    proof -
      from that(2) consider "i = 0" | "i = 1" | "i = 2" by linarith
      then show ?thesis using that(1)
        by cases (auto simp: demo_platform_def partition_title_def show_nat.simps)
    qed
    then show ?thesis by (auto simp: titles_fit_def demo_platform_def)
  qed
  have "CleanupPath (b_dir (br (demo_playlist ''sd1:/gone/'' []) Files)) = [] \<or>
      \<not> mount demo_platform (CleanupPath (b_dir (br (demo_playlist ''sd1:/gone/'' []) Files)))"
    unfolding demo_playlist_fields m by (simp add: demo_platform_def)
  moreover have "menuCurrent (demo_playlist ''sd1:/gone/'' []) \<noteq> MENU_BROWSE_ONLINEMEDIA" by (simp add: demo_playlist_fields)
  ultimately obtain u' L' where "BrowserChangeFolder demo_platform False False (demo_playlist ''sd1:/gone/'' []) = Some (3, u')"
    "contents (cells u') (L' Files) = root_entries demo_platform"
    using device_list_shown [OF demo_playlist_ok, of "''sd1:/gone/''" "[]" demo_platform False] f e(2) by auto
  then show ?thesis using e(1) by (intro exI [of _ u'] exI [of _ L']) (simp only:)
qed

lemma demo_opens:
  "CleanupPath ''sd2:/Albums/'' = ''sd2:/Albums/''" "mount demo_platform ''sd2:/Albums/''" "\<not> IsPlaylistExt (GetExt ''sd2:/Albums/'')"
  "CleanupPath ''sd2:/l.pls'' = ''sd2:/l.pls''" "mount demo_platform ''sd2:/l.pls''" "IsPlaylistExt ''pls''"
  "GetExt ''sd2:/l.pls'' = ''pls''"
  by code_simp+

lemma demo_order:
  "map e_file (merge_sort file_le (folder_entry ''..'' ''..'' #
     map (dirent_entry (was_watched demo_platform) MENU_BROWSE_MUSIC ''sd2:/Albums/'' [])
       (filter (shown MENU_BROWSE_MUSIC) [(''b.mp3'', False), (''x.txt'', False), (''A'', True)]))) = [Some ''..'', Some ''A'', Some ''b.mp3'']"
  by code_simp

theorem folder_opened_witness:
  "\<exists>u' L'. BrowserChangeFolder demo_platform True True (demo_selection ''sd2:/'' ''Albums'' []) = Some (3, u') \<and>
     map e_file (contents (cells u') (L' Files)) = [Some ''..'', Some ''A'', Some ''b.mp3'']"
proof -
  let ?u = "demo_selection ''sd2:/'' ''Albums'' []"
  let ?ds = "[(''b.mp3'', False), (''x.txt'', False), (''A'', True)]"
  let ?X = "folder_entry ''..'' ''..'' # map (dirent_entry (was_watched demo_platform) MENU_BROWSE_MUSIC ''sd2:/Albums/'' [])
       (filter (shown MENU_BROWSE_MUSIC) ?ds)"
  have up: "up_text demo_platform = ''..''" by (simp add: demo_platform_def)
  have op: "open_retry (opendir demo_platform) (ask_retry demo_platform) 0 ''sd2:/Albums/'' = Some (Some ?ds, 2)"
    by (subst open_retry.simps, simp add: demo_platform_def, subst open_retry.simps, simp)
  have "\<exists>u' L'. BrowserChangeFolder demo_platform True True ?u = Some (int (length (L' Files)), u') \<and> lists_ok u' L' \<and> dirHandle u' = None \<and>
     (\<forall>es. stable_sorted file_le
        (folder_entry ''..'' (up_text demo_platform) #
         map (dirent_entry (was_watched demo_platform) (menuCurrent ?u) ''sd2:/Albums/'' (files_of (cells ?u) (((\<lambda>_. [])(Files := [1, 2])) Music)))
           (filter (shown (menuCurrent ?u)) ?ds)) es \<longleftrightarrow>
        es = contents (cells u') (L' Files))"
    by (rule folder_opened [OF demo_selection_ok demo_selection_fields(1,2) _ _ demo_selection_fields(5) _ demo_selection_fields(7)
          _ _ _ _ _ _ demo_opens(2,3) op, where f = "''Albums''"])
      (simp_all add: demo_selection_fields demo_opens folder_name_def c_strncmp_def)
  then obtain u' L' where r: "BrowserChangeFolder demo_platform True True ?u = Some (int (length (L' Files)), u')"
    "\<forall>es. stable_sorted file_le ?X es \<longleftrightarrow> es = contents (cells u') (L' Files)"
    unfolding demo_selection_fields up by blast
  have "stable_sorted file_le ?X (merge_sort file_le ?X)" by (rule listing.merge_sort_stable)
  from r(2) [THEN spec, THEN iffD1, OF this] have c: "contents (cells u') (L' Files) = merge_sort file_le ?X" by (rule sym)
  have m: "map e_file (contents (cells u') (L' Files)) = [Some ''..'', Some ''A'', Some ''b.mp3'']" unfolding c by (rule demo_order)
  have "length (map e_file (contents (cells u') (L' Files))) = 3" unfolding m by simp
  then have "length (L' Files) = 3" by (simp only: length_map contents_def)
  then show ?thesis using r(1) m by (intro exI [of _ u'] exI [of _ L']) simp
qed

theorem too_long_name_reloads_witness:
  "\<exists>u' L'. BrowserChangeFolder demo_platform True True (demo_selection ''sd2:/Albums/'' (replicate 1020 CHR ''c'') []) = Some (3, u') \<and>
     map e_file (contents (cells u') (L' Files)) = [Some ''..'', Some ''A'', Some ''b.mp3'']"
proof -
  let ?f = "replicate 1020 CHR ''c'' :: string"
  let ?u = "demo_selection ''sd2:/Albums/'' ?f []"
  let ?ds = "[(''b.mp3'', False), (''x.txt'', False), (''A'', True)]"
  let ?X = "folder_entry ''..'' ''..'' # map (dirent_entry (was_watched demo_platform) MENU_BROWSE_MUSIC ''sd2:/Albums/'' [])
       (filter (shown MENU_BROWSE_MUSIC) ?ds)"
  have up: "up_text demo_platform = ''..''" by (simp add: demo_platform_def)
  have op: "open_retry (opendir demo_platform) (ask_retry demo_platform) 0 ''sd2:/Albums/'' = Some (Some ?ds, 2)"
    by (subst open_retry.simps, simp add: demo_platform_def, subst open_retry.simps, simp)
  have f: "?f = CHR ''c'' # replicate 1019 CHR ''c''" by (simp flip: replicate_Suc)
  have fn: "folder_name ?f" by (simp add: folder_name_def) (simp add: f c_strncmp_def)
  have "UpdateDirName ?u = Some (- 1, ?u) \<and>
    (\<exists>u' L'. BrowserChangeFolder demo_platform True True ?u = Some (int (length (L' Files)), u') \<and> L' Files \<noteq> [] \<and> lists_ok u' L' \<and> dirHandle u' = None \<and>
     (\<forall>es. stable_sorted file_le
        (folder_entry ''..'' (up_text demo_platform) #
         map (dirent_entry (was_watched demo_platform) (menuCurrent ?u) ''sd2:/Albums/'' (files_of (cells ?u) (((\<lambda>_. [])(Files := [1, 2])) Music)))
           (filter (shown (menuCurrent ?u)) ?ds)) es \<longleftrightarrow>
        es = contents (cells u') (L' Files)))"
    by (rule too_long_name_reloads [OF demo_selection_ok demo_selection_fields(1,2) _ _ demo_selection_fields(5) _ demo_selection_fields(7)
          _ _ fn _ _ _ demo_opens(2,3) op])
      (simp_all add: demo_selection_fields demo_opens)
  then obtain u' L' where r: "BrowserChangeFolder demo_platform True True ?u = Some (int (length (L' Files)), u')"
    "\<forall>es. stable_sorted file_le ?X es \<longleftrightarrow> es = contents (cells u') (L' Files)"
    unfolding demo_selection_fields up by blast
  have "stable_sorted file_le ?X (merge_sort file_le ?X)" by (rule listing.merge_sort_stable)
  from r(2) [THEN spec, THEN iffD1, OF this] have c: "contents (cells u') (L' Files) = merge_sort file_le ?X" by (rule sym)
  have m: "map e_file (contents (cells u') (L' Files)) = [Some ''..'', Some ''A'', Some ''b.mp3'']" unfolding c by (rule demo_order)
  have "length (map e_file (contents (cells u') (L' Files))) = 3" unfolding m by simp
  then have "length (L' Files) = 3" by (simp only: length_map contents_def)
  then show ?thesis using r(1) m by (intro exI [of _ u'] exI [of _ L']) simp
qed

theorem failed_playlist_goes_back_witness:
  "\<exists>u'. BrowserChangeFolder demo_platform False False (demo_selection ''sd2:/l.pls'' ''x'' [''sd2:/'', ''sd2:/m/'']) = Some (0, u') \<and>
     b_dir (br u' Files) = ''sd2:/m/'' \<and> browserHistory u' = [''sd2:/'']"
proof -
  let ?u = "demo_selection ''sd2:/l.pls'' ''x'' [''sd2:/'', ''sd2:/m/'']"
  let ?v = "set_dir ''sd2:/l.pls'' ?u"
  have "enter_dir demo_platform ?u = Some (True, ?v)"
    by (simp add: enter_dir_def online_dir_def Let_def demo_selection_fields demo_opens)
  moreover have "ParsePlaylistFile (http demo_platform) (load_file demo_platform) (parse_playlist demo_platform) (hide_ext demo_platform)
      (up_text demo_platform) (pagesize demo_platform) ?v = Some (0, ?v)"
    by (simp add: ParsePlaylistFile_def Let_def demo_opens) (simp add: demo_platform_def)
  moreover have "0 < b_numEntries (br ?v Files)" "browserHistory ?v = [''sd2:/'', ''sd2:/m/'']"
    by (simp_all add: demo_selection_fields) (simp add: set_dir_def set_br_def demo_selection_fields)
  ultimately show ?thesis
    using failed_playlist_goes_back [of demo_platform ?u ?v 0 ?v False] by (auto simp: BrowserHistoryRetrieve_def)
qed

end
