(* ===== verification/Text_Wrap.thy ===== *)
theory Text_Wrap
  imports Complex_Main "HOL-Library.Word"
begin

text \<open>
  The layout of texts on the screen (\<open>GuiText::Draw\<close>, source/libwiigui/gui_text.cpp): breaking a text
  into at most twenty lines, cutting it to the width, and scrolling it.

  The width of a text is that of \<open>FreeTypeGX::getWidth\<close> (source/utils/FreeTypeGX.cpp), a 16-bit sum of advances and kernings
  that wraps; the loops of the layout take it as the parameter \<open>width\<close>. A line is what its array holds
  up to the NUL; its characters are wide ones. \<open>new\<close> does not return NULL in C++, so the tests for it do nothing. \<open>None\<close> is a store
  outside an array.
\<close>

type_synonym wtext = "nat list"

abbreviation SPACE :: nat where "SPACE \<equiv> 32"

section \<open>The width of a text (FreeTypeGX)\<close>

text \<open>
  \<open>load_glyph c\<close> is what FT_Get_Char_Index and FT_Load_Glyph give for a character: the advance in 64ths of a
  pixel and the index, or \<open>None\<close> when there is no bitmap; \<open>get_kerning\<close> is the x part of FT_Get_Kerning, in 64ths as well. FreeType
  gives the same at every call. The texture of a glyph is left out.
\<close>

record ftgxCharData =
  glyphAdvanceX :: "16 word"
  glyphIndex :: "16 word"

record font =
  fontData :: "nat \<Rightarrow> ftgxCharData option"
  ftKerningEnabled :: bool
  load_glyph :: "nat \<Rightarrow> (int \<times> nat) option"
  get_kerning :: "16 word \<Rightarrow> 16 word \<Rightarrow> int"

definition cacheGlyphData :: "nat \<Rightarrow> font \<Rightarrow> ftgxCharData option \<times> font" where
  "cacheGlyphData c f =
     (case load_glyph f c of
        None \<Rightarrow> (None, f)
      | Some (adv, idx) \<Rightarrow>
          (let g = \<lparr>glyphAdvanceX = word_of_int (adv div 64), glyphIndex = of_nat idx\<rparr>
           in (Some g, f\<lparr>fontData := (fontData f)(c \<mapsto> g)\<rparr>)))"

text \<open>The kerning of a glyph behind the character \<open>prev\<close>, if that one has a glyph.\<close>

definition kerning :: "font \<Rightarrow> nat option \<Rightarrow> ftgxCharData \<Rightarrow> int" where
  "kerning f prev g =
     (if ftKerningEnabled f then
        (case prev of None \<Rightarrow> 0
         | Some p \<Rightarrow> (case fontData f p of None \<Rightarrow> 0 | Some gp \<Rightarrow> get_kerning f (glyphIndex gp) (glyphIndex g) div 64))
      else 0)"

fun width_loop :: "nat option \<Rightarrow> wtext \<Rightarrow> 16 word \<Rightarrow> font \<Rightarrow> 16 word \<times> font" where
  "width_loop prev [] w f = (w, f)"
| "width_loop prev (c # cs) w f =
     (let (found, f1) = (case fontData f c of Some g \<Rightarrow> (Some g, f) | None \<Rightarrow> cacheGlyphData c f) in
      case found of
        None \<Rightarrow> width_loop (Some c) cs w f1
      | Some g \<Rightarrow> width_loop (Some c) cs (w + word_of_int (kerning f1 prev g) + glyphAdvanceX g) f1)"

definition getWidth :: "font \<Rightarrow> wtext \<Rightarrow> 16 word \<times> font" where
  "getWidth f s = width_loop None s 0 f"


text \<open>
  What a font shows of a character does not depend on what it has cached, so the widths do not either: \<open>text_width f\<close> is
  the width at every time.
\<close>

definition glyph_of :: "font \<Rightarrow> nat \<Rightarrow> ftgxCharData option" where
  "glyph_of f c = (case fontData f c of Some g \<Rightarrow> Some g | None \<Rightarrow> fst (cacheGlyphData c f))"

definition same_face :: "font \<Rightarrow> font \<Rightarrow> bool" where
  "same_face f f' \<longleftrightarrow> glyph_of f' = glyph_of f \<and> ftKerningEnabled f' = ftKerningEnabled f \<and> get_kerning f' = get_kerning f"

text \<open>The pixels a character adds behind \<open>prev\<close>, and those of a text.\<close>

definition glyph_step :: "font \<Rightarrow> nat option \<Rightarrow> nat \<Rightarrow> int" where
  "glyph_step f prev c =
     (case glyph_of f c of None \<Rightarrow> 0
      | Some g \<Rightarrow> kerning (f\<lparr>fontData := glyph_of f\<rparr>) prev g + uint (glyphAdvanceX g))"

fun pixels :: "font \<Rightarrow> nat option \<Rightarrow> wtext \<Rightarrow> int" where
  "pixels f prev [] = 0"
| "pixels f prev (c # cs) = glyph_step f prev c + pixels f (Some c) cs"

lemma pixels_same: "same_face f f' \<Longrightarrow> pixels f' prev s = pixels f prev s"
  by (induction s arbitrary: prev) (auto simp: same_face_def glyph_step_def kerning_def split: option.splits)

lemma same_face_trans: "same_face f f1 \<Longrightarrow> same_face f1 f2 \<Longrightarrow> same_face f f2"
  by (simp add: same_face_def)

lemma found_glyph:
  assumes "(case fontData f c of Some g \<Rightarrow> (Some g, f) | None \<Rightarrow> cacheGlyphData c f) = (found, f1)"
  shows "found = glyph_of f c \<and> same_face f f1 \<and> fontData f1 c = glyph_of f c \<and> (fontData f p = glyph_of f p \<longrightarrow> fontData f1 p = glyph_of f p)"
proof (cases "fontData f c")
  case (Some g)
  then have "found = Some g" "f1 = f" using assms by simp_all
  with Some show ?thesis by (simp add: glyph_of_def same_face_def)
next
  case None
  show ?thesis
  proof (cases "load_glyph f c")
    case none: None
    then show ?thesis using assms None by (auto simp: glyph_of_def same_face_def cacheGlyphData_def)
  next
    case (Some r)
    let ?g = "\<lparr>glyphAdvanceX = word_of_int (fst r div 64), glyphIndex = of_nat (snd r)\<rparr>"
    have f: "found = Some ?g" "f1 = f\<lparr>fontData := (fontData f)(c \<mapsto> ?g)\<rparr>"
      using assms None Some by (auto simp: cacheGlyphData_def Let_def split: prod.splits)
    have g: "glyph_of f c = Some ?g" using None Some by (simp add: glyph_of_def cacheGlyphData_def Let_def split: prod.splits)
    have "glyph_of f1 = glyph_of f"
    proof
      fix x show "glyph_of f1 x = glyph_of f x"
        using g by (cases "x = c"; cases "fontData f x") (simp_all add: f(2) glyph_of_def cacheGlyphData_def Let_def split: option.splits)
    qed
    then show ?thesis using f g by (simp add: same_face_def)
  qed
qed

lemma width_loop_pixels:
  "(\<And>p. prev = Some p \<Longrightarrow> fontData f p = glyph_of f p) \<Longrightarrow>
   fst (width_loop prev s w f) = w + word_of_int (pixels f prev s) \<and> same_face f (snd (width_loop prev s w f))"
proof (induction s arbitrary: prev w f)
  case (Cons c cs)
  obtain found f1 where f: "(case fontData f c of Some g \<Rightarrow> (Some g, f) | None \<Rightarrow> cacheGlyphData c f) = (found, f1)" by fastforce
  have g: "found = glyph_of f c" "same_face f f1" "fontData f1 c = glyph_of f c"
    "fontData f p = glyph_of f p \<Longrightarrow> fontData f1 p = glyph_of f p" for p using found_glyph [OF f] by auto
  have e: "fontData f1 p = glyph_of f1 p" if "Some c = Some p" for p using g(2,3) that by (simp add: same_face_def)
  note ih = Cons.IH [of "Some c" f1, OF e]
  have px: "pixels f1 (Some c) cs = pixels f (Some c) cs" using g(2) by (rule pixels_same)
  show ?case
  proof (cases "glyph_of f c")
    case None
    then show ?thesis using f g(1,2) ih [of w] px by (auto simp: glyph_step_def intro: same_face_trans)
  next
    case (Some d)
    have k: "kerning f1 prev d = kerning (f\<lparr>fontData := glyph_of f\<rparr>) prev d"
      using g(2,4) Cons.prems by (auto simp: kerning_def same_face_def split: option.splits)
    then show ?thesis using f g(1,2) ih [of "w + word_of_int (kerning f1 prev d) + glyphAdvanceX d"] px Some
      by (auto simp: glyph_step_def k intro: same_face_trans)
  qed
qed (simp add: same_face_def)

lemma getWidth_stable: "fst (getWidth (snd (getWidth f t)) s) = fst (getWidth f s)"
  using width_loop_pixels [of None f t 0] width_loop_pixels [of None "snd (getWidth f t)" s 0] width_loop_pixels [of None f s 0]
    pixels_same [of f "snd (getWidth f t)" None s]
  by (simp add: getWidth_def)









section \<open>Wrapping\<close>

text \<open>
  The variables of the loop: \<open>n\<close> and \<open>ch\<close> are of type \<open>u32\<close>, and \<open>n\<close> is set to -1 at a new line.
  \<open>line\<close> is \<open>textDyn[linenum]\<close>, and \<open>dyn\<close> the lines in front of it.
\<close>

record wrap_vars =
  w_n :: "32 word"
  w_ch :: nat
  w_lastSpace :: int
  w_lastSpaceIndex :: int
  w_line :: wtext
  w_dyn :: "wtext list"

text \<open>The break of a line that is too wide: at the last space, or where it is.\<close>

definition break_line :: "wrap_vars \<Rightarrow> wrap_vars option" where
  "break_line v =
     (if 0 \<le> w_lastSpace v then
        (if w_lastSpaceIndex v < 0 then None
         else Some (v\<lparr>w_dyn := w_dyn v @ [take (nat (w_lastSpaceIndex v)) (w_line v)], w_line := [],
                      w_ch := nat (w_lastSpace v), w_lastSpace := - 1, w_lastSpaceIndex := - 1, w_n := - 1\<rparr>))
      else Some (v\<lparr>w_dyn := w_dyn v @ [w_line v], w_line := [], w_n := - 1\<rparr>))"

text \<open>One turn; the test \<open>n >= 0\<close> of an unsigned number is always true.\<close>

definition wrap_turn :: "(wtext \<Rightarrow> int) \<Rightarrow> int \<Rightarrow> wtext \<Rightarrow> wrap_vars \<Rightarrow> wrap_vars option" where
  "wrap_turn width maxWidth s v0 =
     (let c = s ! w_ch v0; v = v0\<lparr>w_line := take (unat (w_n v0)) (w_line v0) @ [c]\<rparr> in
      case (if c = SPACE \<or> w_ch v = length s - 1 then
              (if maxWidth < width (w_line v) then break_line v
               else if w_ch v = length s - 1 then Some (v\<lparr>w_dyn := w_dyn v @ [w_line v]\<rparr>)
               else Some v)
            else Some v) of None \<Rightarrow> None
      | Some v1 \<Rightarrow>
        (let v2 = (if s ! w_ch v1 = SPACE \<and> 0 \<le> w_n v1
                   then v1\<lparr>w_lastSpace := int (w_ch v1), w_lastSpaceIndex := sint (w_n v1)\<rparr> else v1)
         in Some (v2\<lparr>w_ch := w_ch v2 + 1, w_n := w_n v2 + 1\<rparr>)))"

lemma wrap_turn_lines: "wrap_turn width m s v = Some v' \<Longrightarrow>
    length (w_dyn v') = Suc (length (w_dyn v)) \<or> (w_dyn v' = w_dyn v \<and> w_ch v' = Suc (w_ch v))"
  by (auto simp: wrap_turn_def break_line_def Let_def split: if_splits)

function wrap_loop :: "(wtext \<Rightarrow> int) \<Rightarrow> int \<Rightarrow> wtext \<Rightarrow> wrap_vars \<Rightarrow> wtext list option" where
  "wrap_loop width maxWidth s v =
     (if w_ch v < length s \<and> length (w_dyn v) < 20
      then (case wrap_turn width maxWidth s v of None \<Rightarrow> None | Some v1 \<Rightarrow> wrap_loop width maxWidth s v1)
      else Some (w_dyn v))"
  by pat_completeness auto

termination
  by (relation "measures [\<lambda>(width, m, s, v). 20 - length (w_dyn v), \<lambda>(width, m, s, v). length s - w_ch v]")
    (auto dest!: wrap_turn_lines)

declare wrap_loop.simps [simp del]

definition wrap_start :: wrap_vars where
  "wrap_start = \<lparr>w_n = 0, w_ch = 0, w_lastSpace = - 1, w_lastSpaceIndex = - 1, w_line = [], w_dyn = []\<rparr>"

text \<open>The lines that are drawn.\<close>

definition wrap_text :: "(wtext \<Rightarrow> int) \<Rightarrow> int \<Rightarrow> wtext \<Rightarrow> wtext list option" where
  "wrap_text width maxWidth s = wrap_loop width maxWidth s wrap_start"

section \<open>Cutting and scrolling\<close>










section \<open>What a wrapped text is\<close>







lemma unat_small: "k < 2 ^ 31 \<Longrightarrow> unat (of_nat k :: 32 word) = k"
  by (simp add: unat_of_nat)

lemma sint_small: "k < 2 ^ 31 \<Longrightarrow> sint (of_nat k :: 32 word) = int k"
  by (simp add: signed_of_nat signed_take_bit_int_eq_self)





section \<open>Words that are too long\<close>

lemma wrap_walk:
  assumes "drop (w_ch v) s = w @ c # r" "SPACE \<notin> set w" "length (w_dyn v) < 20" "w_n v = of_nat (length cur)"
    "take (length cur) (w_line v) = cur" "length cur \<le> w_ch v" "length s < 2 ^ 31"
  shows "\<exists>v'. wrap_loop width m s v = wrap_loop width m s v' \<and> w_ch v' = w_ch v + length w \<and>
     w_n v' = of_nat (length (cur @ w)) \<and> take (length (cur @ w)) (w_line v') = cur @ w \<and>
     w_lastSpace v' = w_lastSpace v \<and> w_lastSpaceIndex v' = w_lastSpaceIndex v \<and> w_dyn v' = w_dyn v"
  using assms
proof (induction w arbitrary: v cur)
  case Nil
  then show ?case by (intro exI [of _ v]) simp
next
  case (Cons a w)
  let ?c = "s ! w_ch v"
  have ch: "w_ch v < length s" using Cons.prems(1) by (cases "w_ch v < length s") auto
  have dr: "drop (w_ch v) s = ?c # drop (Suc (w_ch v)) s" using ch by (simp add: Cons_nth_drop_Suc)
  then have a: "?c = a" "drop (Suc (w_ch v)) s = w @ c # r" using Cons.prems(1) by simp_all
  have inside: "?c \<noteq> SPACE" "w_ch v \<noteq> length s - 1"
  proof -
    show "?c \<noteq> SPACE" using a(1) Cons.prems(2) by auto
    show "w_ch v \<noteq> length s - 1" using a(2) by auto
  qed
  have k: "length cur < 2 ^ 31" using Cons.prems(6,7) ch by linarith
  let ?v = "v\<lparr>w_line := cur @ [?c]\<rparr>"
  have v: "v\<lparr>w_line := take (unat (w_n v)) (w_line v) @ [?c]\<rparr> = ?v"
    using Cons.prems(4,5) unat_small [OF k] by simp
  let ?v' = "?v\<lparr>w_ch := w_ch v + 1, w_n := w_n v + 1\<rparr>"
  have t: "wrap_turn width m s v = Some ?v'" unfolding wrap_turn_def Let_def v using inside by simp
  have l: "wrap_loop width m s v = wrap_loop width m s ?v'"
    by (subst wrap_loop.simps) (simp add: ch Cons.prems(3) t)
  have "\<exists>v'. wrap_loop width m s ?v' = wrap_loop width m s v' \<and> w_ch v' = w_ch ?v' + length w \<and>
     w_n v' = of_nat (length ((cur @ [?c]) @ w)) \<and> take (length ((cur @ [?c]) @ w)) (w_line v') = (cur @ [?c]) @ w \<and>
     w_lastSpace v' = w_lastSpace ?v' \<and> w_lastSpaceIndex v' = w_lastSpaceIndex ?v' \<and> w_dyn v' = w_dyn ?v'"
    by (rule Cons.IH) (use a Cons.prems in simp_all)
  then show ?case unfolding l using a(1) by simp
qed

text \<open>The turn behind a word: the line with its space or last character.\<close>

lemma word_turn:
  assumes "w_n v = of_nat (length cur)" "take (length cur) (w_line v) = cur" "length cur \<le> w_ch v" "length s < 2 ^ 31"
    "drop (w_ch v) s = c # r" "c = SPACE \<or> r = []"
  shows "m < width (cur @ [c]) \<Longrightarrow> 0 \<le> w_lastSpace v \<Longrightarrow> w_lastSpaceIndex v < 0 \<Longrightarrow> wrap_turn width m s v = None"
    and "m < width (cur @ [c]) \<Longrightarrow> w_lastSpace v = int q \<Longrightarrow> w_lastSpaceIndex v = int i \<Longrightarrow> s ! q = SPACE \<Longrightarrow>
      \<exists>v'. wrap_turn width m s v = Some v' \<and> w_ch v' = q + 1 \<and> w_n v' = 0 \<and> w_lastSpace v' = int q \<and> w_lastSpaceIndex v' = - 1 \<and>
        w_dyn v' = w_dyn v @ [take i (cur @ [c])]"
    and "\<not> m < width (cur @ [c]) \<Longrightarrow> r \<noteq> [] \<Longrightarrow>
      \<exists>v'. wrap_turn width m s v = Some v' \<and> w_ch v' = w_ch v + 1 \<and> w_n v' = of_nat (length (cur @ [c])) \<and>
        take (length (cur @ [c])) (w_line v') = cur @ [c] \<and> w_lastSpace v' = int (w_ch v) \<and> w_lastSpaceIndex v' = int (length cur) \<and>
        w_dyn v' = w_dyn v"
proof -
  have ch: "w_ch v < length s" using assms(5) by (cases "w_ch v < length s") auto
  have c: "s ! w_ch v = c" "drop (Suc (w_ch v)) s = r" using assms(5) ch by (simp_all add: Cons_nth_drop_Suc flip: Cons_nth_drop_Suc)
  have endr: "w_ch v = length s - 1 \<longleftrightarrow> r = []" using ch c(2) by auto
  have k: "length cur < 2 ^ 31" using assms(3,4) ch by linarith
  have n: "unat (w_n v) = length cur" "sint (w_n v) = int (length cur)" using unat_small [OF k] sint_small [OF k] by (simp_all add: assms(1))
  have v: "v\<lparr>w_line := take (unat (w_n v)) (w_line v) @ [s ! w_ch v]\<rparr> = v\<lparr>w_line := cur @ [c]\<rparr>"
    using assms(2) n(1) c(1) by simp
  note turn = wrap_turn_def [of width m s v, unfolded Let_def v]
  show "m < width (cur @ [c]) \<Longrightarrow> 0 \<le> w_lastSpace v \<Longrightarrow> w_lastSpaceIndex v < 0 \<Longrightarrow> wrap_turn width m s v = None"
    unfolding turn using assms(6) c(1) endr by (simp add: break_line_def)
  show "m < width (cur @ [c]) \<Longrightarrow> w_lastSpace v = int q \<Longrightarrow> w_lastSpaceIndex v = int i \<Longrightarrow> s ! q = SPACE \<Longrightarrow>
      \<exists>v'. wrap_turn width m s v = Some v' \<and> w_ch v' = q + 1 \<and> w_n v' = 0 \<and> w_lastSpace v' = int q \<and> w_lastSpaceIndex v' = - 1 \<and>
        w_dyn v' = w_dyn v @ [take i (cur @ [c])]"
    unfolding turn using assms(6) c(1) endr by (simp add: break_line_def)
  show "\<not> m < width (cur @ [c]) \<Longrightarrow> r \<noteq> [] \<Longrightarrow>
      \<exists>v'. wrap_turn width m s v = Some v' \<and> w_ch v' = w_ch v + 1 \<and> w_n v' = of_nat (length (cur @ [c])) \<and>
        take (length (cur @ [c])) (w_line v') = cur @ [c] \<and> w_lastSpace v' = int (w_ch v) \<and> w_lastSpaceIndex v' = int (length cur) \<and>
        w_dyn v' = w_dyn v"
    unfolding turn using assms(1,6) c(1) endr n(2) by (simp add: assms(1))
qed

lemma wrap_loop_step:
  "w_ch v < length s \<Longrightarrow> length (w_dyn v) < 20 \<Longrightarrow>
   wrap_loop width m s v = (case wrap_turn width m s v of None \<Rightarrow> None | Some v1 \<Rightarrow> wrap_loop width m s v1)"
  by (subst wrap_loop.simps) simp

text \<open>
  (C31) A word that does not fit on a line of its own, behind one that does, makes the code store a NUL in
  front of the array of the line: behind a break the space of the break is remembered as the last one,
  at the index -1, since the test of that index is made on an unsigned number.
\<close>

theorem long_word_underflows:
  assumes "s = w1 @ SPACE # w2 @ c # r" "SPACE \<notin> set w1" "SPACE \<notin> set w2" "c = SPACE \<or> r = []"
    "width (w1 @ [SPACE]) \<le> m" "m < width (w2 @ [c])" "m < width (w1 @ SPACE # w2 @ [c])" "length s < 2 ^ 31"
  shows "wrap_text width m s = None"
proof -
  have d0: "drop (w_ch wrap_start) s = w1 @ SPACE # (w2 @ c # r)" by (simp add: assms(1) wrap_start_def)
  obtain v1 where v1: "wrap_loop width m s wrap_start = wrap_loop width m s v1" "w_ch v1 = length w1" "w_n v1 = of_nat (length w1)"
    "take (length w1) (w_line v1) = w1" "w_dyn v1 = []"
    using wrap_walk [OF d0 assms(2), of "[]" width m] assms(8) by (auto simp: wrap_start_def)
  have d1: "drop (w_ch v1) s = SPACE # w2 @ c # r" by (simp add: v1(2) assms(1))
  have l1: "length w1 \<le> w_ch v1" using v1(2) by simp
  obtain v2 where v2: "wrap_turn width m s v1 = Some v2" "w_ch v2 = length w1 + 1" "w_n v2 = of_nat (length (w1 @ [SPACE]))"
    "take (length (w1 @ [SPACE])) (w_line v2) = w1 @ [SPACE]" "w_lastSpace v2 = int (length w1)" "w_lastSpaceIndex v2 = int (length w1)"
    "w_dyn v2 = []"
    using word_turn(3) [OF v1(3,4) l1 assms(8) d1, where m = m and width = width] assms(5) v1(2,5) by auto
  have s1: "wrap_loop width m s v1 = wrap_loop width m s v2"
    using wrap_loop_step [of v1 s] v1(2,5) v2(1) assms(1) by simp
  have d2: "drop (w_ch v2) s = w2 @ c # r" by (simp add: v2(2) assms(1))
  have l2: "length (w1 @ [SPACE]) \<le> w_ch v2" using v2(2) by simp
  have y2: "length (w_dyn v2) < 20" using v2(7) by simp
  obtain v3 where v3: "wrap_loop width m s v2 = wrap_loop width m s v3" "w_ch v3 = w_ch v2 + length w2"
    "w_n v3 = of_nat (length ((w1 @ [SPACE]) @ w2))" "take (length ((w1 @ [SPACE]) @ w2)) (w_line v3) = (w1 @ [SPACE]) @ w2"
    "w_lastSpace v3 = int (length w1)" "w_lastSpaceIndex v3 = int (length w1)" "w_dyn v3 = []"
    using wrap_walk [OF d2 assms(3) y2 v2(3,4) l2 assms(8), of width m] unfolding v2(5-7) by blast
  have d3: "drop (w_ch v3) s = c # r" by (simp add: v3(2) v2(2) assms(1))
  have l3: "length ((w1 @ [SPACE]) @ w2) \<le> w_ch v3" using v3(2) v2(2) by simp
  have sp: "s ! length w1 = SPACE" by (simp add: assms(1))
  have w3: "m < width (((w1 @ [SPACE]) @ w2) @ [c])" using assms(7) by simp
  obtain v4 where v4: "wrap_turn width m s v3 = Some v4" "w_ch v4 = length w1 + 1" "w_n v4 = 0" "w_lastSpace v4 = int (length w1)"
    "w_lastSpaceIndex v4 = - 1" "length (w_dyn v4) = 1"
    using word_turn(2) [where width = width and m = m and c = c and cur = "(w1 @ [SPACE]) @ w2", OF v3(3,4) l3 assms(8) d3 assms(4) w3 v3(5,6) sp] v3(7) by auto
  have s3: "wrap_loop width m s v3 = wrap_loop width m s v4"
    using wrap_loop_step [of v3 s] v3(2,7) v2(2) v4(1) assms(1) by simp
  have d4: "drop (w_ch v4) s = w2 @ c # r" by (simp add: v4(2) assms(1))
  have y4: "length (w_dyn v4) < 20" using v4(6) by simp
  have n4: "w_n v4 = of_nat (length ([] :: wtext))" using v4(3) by simp
  obtain v5 where v5: "wrap_loop width m s v4 = wrap_loop width m s v5" "w_ch v5 = w_ch v4 + length w2" "w_n v5 = of_nat (length w2)"
    "take (length w2) (w_line v5) = w2" "w_lastSpace v5 = int (length w1)" "w_lastSpaceIndex v5 = - 1" "length (w_dyn v5) = 1"
    using wrap_walk [OF d4 assms(3) y4 n4 _ _ assms(8), of width m] v4(4-6) by auto
  have d5: "drop (w_ch v5) s = c # r" by (simp add: v5(2) v4(2) assms(1))
  have l5: "length w2 \<le> w_ch v5" using v5(2) by simp
  have "wrap_turn width m s v5 = None"
    by (rule word_turn(1) [where width = width and m = m and c = c and cur = w2, OF v5(3,4) l5 assms(8) d5 assms(4,6)]) (simp_all add: v5(5,6))
  then have "wrap_loop width m s v5 = None"
    using wrap_loop_step [of v5 s] v5(2,7) v4(2) assms(1) by simp
  then show ?thesis using v1(1) s1 v3(1) s3 v5(1) by (simp add: wrap_text_def)
qed

section \<open>Cut and scrolled lines\<close>






section \<open>Fixed width\<close>

definition wide :: "string \<Rightarrow> wtext" where
  "wide s = map of_char s"

definition ten_each :: "wtext \<Rightarrow> int" where
  "ten_each s = 10 * int (length s)"

theorem long_word_underflows_witness: "wrap_text ten_each 60 (wide ''Aus Radiosender'') = None"
  by (rule long_word_underflows [of _ "wide ''Aus''" "wide ''Radiosende''" "of_char CHR ''r''" "[]"])
    (simp_all add: wide_def ten_each_def)






end
