(* ===== verification/Spec2Isabelle.thy ===== *)
theory Spec2Isabelle
  imports Radio_Stream Webdav_Device Cached_Stream Ao_Gekko Browse_Nav Path_Clean Music_Remove Music_Enqueue Play_Next
    Gettext Http_Download Network_Start File_Io Change_Folder Text_Wrap
begin

text \<open>
  Verification of WiiMC-GCN-Online, a media player for the GameCube: the code of the port itself,
  from the socket to the DMA buffer, and the browser with its lists, playlist and play orders.

  Parts and how they interact. The browser reads a directory into a linked list (fileop.cpp,
  filebrowser.cpp), a thread going on where the first piece ends; the music playlist
  (musicplaylist.cpp) is another such list, filled from files, playlist files and folder trees. When a
  file ends FindNextFile (wiimc.cpp) takes the next one from the playlist or, if there is none, from a
  snapshot of the folder. Behind every selection stands BrowserChangeFolder
  (filebrowser.cpp): it decides between a playlist, which becomes the listing itself and is downloaded
  first (utils/http.cpp) when it is on the Internet, a folder of the online media, which come from an
  XML file (settings.cpp), a directory, and the list of devices. A worker thread (networkop.cpp)
  brings the network up, and the boot waits for it with a bound. Every text on the screen goes through gettext
  (utils/gettext.cpp). A path chosen in the browser (filebrowser.cpp) is opened by MPlayer's
  stream layer (mplayer/stream/stream.c), which reads a plain file, an Internet radio or a WebDAV
  file. The last two go through the HTTP client (utils/http_client.c), which runs over a connection
  (utils/net_transport.c) that resolves its host (utils/dns.c), connects without blocking and may
  put a TLS session (utils/gc_tls.c) on the socket. The WebDAV device (utils/webdav_device.c) caches
  directory listings, keeps metadata traffic behind audio and gives newlib file operations. In front
  of the stream stands the read-ahead cache (mplayer/stream/cache2.c): a ring that a worker thread
  fills and the player reads. Decoded samples go to the audio ring (mplayer/libao2/ao_gekko.c), which
  an interrupt drains.

  Theories, in the order of the imports:
    C_Lib            the parts of the C library the sources use on text and bytes
    Http_Url         URLs, Basic credentials, path encoding (http_client.c)
    Dns              queries, responses, the cache and gethostbyname (dns.c)
    Net_Ops          the socket, clock and TLS calls as parameters; the world with its open handles
    Gc_Tls           the handshake loop and I/O of a session (gc_tls.c)
    Net_Transport    connect, transfer, open, close (net_transport.c)
    Byte_Source      the interface of anything that delivers a fixed text piece by piece
    Http_Client      requests, headers, redirects and body framing (http_client.c)
    Radio_Stream     ICY metadata, the MPlayer stream over it (radio_stream.c, stream_gc_http.c)
    Webdav_Client    configuration, PROPFIND, ranged reads (webdav_client.c)
    Webdav_Device    directory cache, priority gate, device calls (webdav_device.c)
    Mp_Stream        stream_t and the file driver (stream.c, stream_file.c)
    Stream_Cache     the cache: state, worker steps, reader (cache2.c)
    Stream_Cache_Inv its invariant under every step of the worker and the reader
    Cached_Stream    start, stop, seek, control and the readers of stream.h (cache2.c, stream.h)
    Ao_Gekko         the ring of audio buffers (ao_gekko.c)
    File_Names       extensions, device prefixes, CleanupPath (fileop.cpp, settings.h)
    Path_Clean       what CleanupPath guarantees and three paths it gets wrong
    Browser_List     the browser's linked lists and their merge sort (filebrowser.cpp)
    Browser_Sort     merge sort on HOL lists, stable arrangements, the locale of total preorders
    Browser_Heap     lists in the heap; the in-place sort computes the one of Browser_Sort
    Browser_Files    the order of file listings, an instance of the locale
    Browser_Ops      every list operation keeps the five lists linked and disjoint; which texts it frees
    Browse_Dir       full paths, changing the folder, reading a directory (fileop.cpp, filebrowser.cpp)
    Browse_Listing   the finished listing of a folder
    Browse_Nav       entering and leaving folders, opening the nearest folder above
    Music_Playlist   the playlist: shuffle, load, add, remove (musicplaylist.cpp)
    Music_Shuffle    a round of the shuffle plays every song once
    Music_Enqueue    adding a folder tree is a fold over it with sorted blocks
    Music_Remove     what removing an entry removes
    Play_Order       folder queue, FindNextFile, video playlist (wiimc.cpp, filebrowser.cpp)
    Play_Queue       building and walking the folder queue
    Play_Next        the next song of the playlist under each order
    File_Io          loading and saving whole files (fileop.cpp)
    Plx_Text         the text of a PLX playlist and its entries (fileop.cpp)
    Playlist_Listing a playlist, PLX or other, as the listing of the browser (fileop.cpp)
    Online_Media     the list of online media and its folders (settings.cpp, fileop.cpp)
    Change_Folder    BrowserChangeFolder: from a selection to the listing (filebrowser.cpp)
    Http_Download    a download into a buffer or a file (http.cpp)
    Network_Start    the worker that starts the network, its stop and the gate at boot (networkop.cpp)
    Gettext          translated messages: hash, escapes, language files, lookup (gettext.cpp)
    Text_Wrap        the width of a text, its lines: breaking, cutting, scrolling (FreeTypeGX.cpp, gui_text.cpp)
  A definition has the name of the C function it models, or the name of the function and of the
  loop in it. State is passed explicitly; a C pointer that may be NULL is an option.

  What the lemmas show. Each network layer keeps the list of open handles exact on every path, so
  nothing leaks; a session is used only when its certificate was accepted; redirects cannot take
  credentials elsewhere. Byte_Source gives one law, that reads deliver the pieces of one text in
  order, for HTTP bodies under each framing, for radio audio without its metadata and for WebDAV
  files; the cache theories prove the same law for the player's reads through the ring, for every
  interleaving of worker and reader, and for those seeks that the worker cannot disturb (seek_safe);
  cached_seek_race is one that it can. The audio ring is a queue of blocks. For the lists, a predicate
  relates the heap to HOL lists of addresses, every operation is proved against it, and the theorems
  on listings, playlists and play orders speak of HOL lists: the sorted arrangement of the visible
  names, the items of a playlist, a fold over a folder tree, a permutation, a rotation. The loaders of
  PLX playlists and language files are compared with a description of the text; loading a language file
  is inverse to printing it, and loading a file gives what saving it has put there. A text is broken into lines between its words, and
  only where it has to be. Of the network worker there is at most one, under
  every interleaving of its steps with the calls of the interface, and the waits for it end.

  Bounds and fuel. The retry loops of the network end by their deadlines (a measure on the clock).
  Redirects are followed at most five times, as in the code. Loops over foreign input recurse on
  the input. The cache reader and prefill run over a list of turns, the schedule: a turn says how
  many worker steps happen before the next loop round and what the clock reads. A result of None
  means the schedule was too short; cache_read_loop_returns shows how long a schedule is enough. The
  list operations use partial functions, where None is a dereference of NULL or of a freed cell, or
  a loop that does not end. EnqueueFolder recurses on the depth of the stack; shallow says that a
  folder tree fits, and then it returns. Sorting needs lists of at most 2 to the 31 entries, because
  the run width of the code is an unsigned int. The boot gate runs over a number of rounds, one per
  retry of the user; it needs no more rounds than the user asks for.

  Assumptions. The socket layer, mbedTLS, Mini-XML, POSIX file calls, readdir, rand, MPlayer's
  playlist parser and the allocator are parameters (the allocator is a function of the number of the
  request, so that it may fail at any call); what is asked of them is a named hypothesis of the theorem or an
  assumption of a locale that is interpreted on a concrete instance. FreeType gives the advance and the kerning of a glyph; the
  theorems on lines ask that no character moves back and that the text does not wrap its 16-bit width. The clock does not run
  backwards. A section under a mutex is one step. Volumes and pan factors are real numbers, without
  the rounding of floats.

  Not modelled: menus, drawing, input and widgets, apart from the layout of texts; the settings file; threads, mounting and start-up in
  wiimc.cpp and fileop.cpp; shares and FTP in networkop.cpp; the
  vendored MPlayer core, demuxers, codecs and playlist parsers; the memory managers, which are dead
  code on this target.
\<close>

end
